(* ===== verification/RTT_Prelude.thy ===== *)
theory RTT_Prelude
  imports Main "HOL-Library.Word" "HOL-Library.Monad_Syntax"
begin

text \<open>
  What every component of the development shares: the integer types and error numbers of
  \<open>rt-thread/include/rtdef.h\<close> for the 32-bit Cortex-M4 target of \<open>rtconfig.h\<close>, the
  alignment macros, the effect of \<open>RT_ASSERT\<close>, byte copies between buffers, and the generic
  lemmas on lists, options and words.

  A step of the code that cannot go on is the value \<open>None\<close>: an \<open>RT_ASSERT\<close> that fails (the
  handler of \<open>kservice.c\<close> prints and then loops forever), an access outside a buffer or table,
  a dereference of \<open>RT_NULL\<close>.
\<close>

unbundle bit_operations_syntax

named_theorems rtt_simps \<open>unfolding rules the component proofs share\<close>

named_theorems rtt_inv \<open>preservation of a component's invariant by its operations\<close>


section \<open>Integer types and error numbers\<close>

type_synonym u8 = "8 word"
type_synonym u16 = "16 word"
type_synonym u32 = "32 word"

text \<open>Object identities (addresses of kernel objects); 0 is \<open>RT_NULL\<close>.\<close>

type_synonym ptr = nat

abbreviation (input) RT_NULL :: ptr where "RT_NULL \<equiv> 0"

text \<open>\<open>rt_err_t\<close>: the numbers of rtdef.h; the code returns them negated.\<close>

type_synonym rt_err = int

abbreviation (input) RT_EOK :: rt_err where "RT_EOK \<equiv> 0"
abbreviation (input) RT_ERROR :: rt_err where "RT_ERROR \<equiv> 1"
abbreviation (input) RT_ETIMEOUT :: rt_err where "RT_ETIMEOUT \<equiv> 2"
abbreviation (input) RT_EFULL :: rt_err where "RT_EFULL \<equiv> 3"
abbreviation (input) RT_EEMPTY :: rt_err where "RT_EEMPTY \<equiv> 4"
abbreviation (input) RT_ENOMEM :: rt_err where "RT_ENOMEM \<equiv> 5"
abbreviation (input) RT_EINTR :: rt_err where "RT_EINTR \<equiv> 9"


lemma unat_word_of_nat: "n < 2 ^ LENGTH('a) \<Longrightarrow> unat (word_of_nat n :: 'a::len word) = n"
  by (simp add: unat_of_nat)

lemma unat_ucast_up [simp]:
  "LENGTH('a) \<le> LENGTH('b) \<Longrightarrow> unat (ucast w :: 'b::len word) = unat w" for w :: "'a::len word"
proof -
  assume "LENGTH('a) \<le> LENGTH('b)"
  then have "unat w < 2 ^ LENGTH('b)"
    by (meson less_le_trans one_le_numeral power_increasing unsigned_less)
  then show ?thesis by (simp add: unsigned_ucast_eq take_bit_nat_eq_self)
qed

lemma unat_add_one: "w < n \<Longrightarrow> unat (w + 1) = unat w + 1" for w n :: "'a::len word"
proof -
  assume "w < n"
  then have "unat w + 1 \<le> unat n" by (simp add: word_less_nat_alt)
  also have "unat n < 2 ^ LENGTH('a)" by (rule unsigned_less)
  finally show ?thesis by (simp add: unat_word_ariths)
qed


section \<open>Assertions\<close>

definition rt_assert :: "bool \<Rightarrow> unit option" where
  "rt_assert P = (if P then Some () else None)"

lemma rt_assert_bind [simp]: "Option.bind (rt_assert P) f = (if P then f () else None)"
  by (simp add: rt_assert_def)

lemma bind_Some_iff: "Option.bind x f = Some y \<longleftrightarrow> (\<exists>z. x = Some z \<and> f z = Some y)"
  by (cases x) auto


section \<open>Alignment macros\<close>

definition RT_ALIGN :: "u32 \<Rightarrow> u32 \<Rightarrow> u32" where
  "RT_ALIGN sz align = ((sz + align - 1) AND NOT (align - 1))"

definition RT_ALIGN_DOWN :: "'a::len word \<Rightarrow> 'a word \<Rightarrow> 'a word" where
  "RT_ALIGN_DOWN sz align = (sz AND NOT (align - 1))"

text \<open>\<open>RT_ALIGN_SIZE\<close> is 4 in rtconfig.h, so the masks below are \<open>NOT 3\<close>, which the simplifier
  writes \<open>- 4\<close>.\<close>

lemma and_minus_4: "w AND - 4 = push_bit 2 (drop_bit 2 w)" for w :: "'a::len word"
proof (rule bit_word_eqI)
  fix n
  assume "n < LENGTH('a)"
  have m: "(- 4 :: 'a word) = NOT (mask 2)"
    by (simp add: mask_eq_exp_minus_1)
  show "bit (w AND - 4) n = bit (push_bit 2 (drop_bit 2 w)) n"
    unfolding m using \<open>n < LENGTH('a)\<close>
    by (cases "2 \<le> n") (auto simp: bit_simps le_Suc_ex dest!: le_Suc_ex)
qed

lemma unat_and_minus_4: "unat (w AND - 4) = unat w div 4 * 4" for w :: "'a::len word"
proof -
  have "unat w div 4 * 4 < 2 ^ LENGTH('a)"
    by (rule le_less_trans [OF div_times_less_eq_dividend unsigned_less])
  moreover have "unat (push_bit 2 (drop_bit 2 w)) =
      take_bit LENGTH('a) (push_bit 2 (drop_bit 2 (unat w)))"
    by (simp add: unsigned_push_bit_eq unsigned_drop_bit_eq take_bit_nat_eq_self)
  ultimately show ?thesis
    unfolding and_minus_4 by (simp add: push_bit_eq_mult drop_bit_eq_div take_bit_eq_mod)
qed

lemma unat_RT_ALIGN_DOWN: "unat (RT_ALIGN_DOWN w 4) = unat w div 4 * 4" for w :: "'a::len word"
  by (simp add: RT_ALIGN_DOWN_def unat_and_minus_4)

lemma unat_RT_ALIGN:
  "unat s + 3 < 2 ^ 32 \<Longrightarrow> unat (RT_ALIGN s 4) = (unat s + 3) div 4 * 4"
  by (simp add: RT_ALIGN_def unat_and_minus_4 unat_word_ariths)


section \<open>Lists\<close>

lemma nth_take_drop_append:
  "off + length src \<le> length dst \<Longrightarrow> j < length dst \<Longrightarrow>
   (take off dst @ src @ drop (off + length src) dst) ! j =
     (if off \<le> j \<and> j < off + length src then src ! (j - off) else dst ! j)"
  by (auto simp: nth_append)

text \<open>\<open>memcpy (&dst[off], &src[from], n)\<close> between two arrays; \<open>None\<close> when either range leaves
  its array, so also for a negative length, which the call would turn into a huge \<open>size_t\<close>.\<close>

definition memcpy :: "'a list \<Rightarrow> nat \<Rightarrow> 'a list \<Rightarrow> nat \<Rightarrow> int \<Rightarrow> 'a list option" where
  "memcpy dst off src start n =
     (if 0 \<le> n \<and> off + nat n \<le> length dst \<and> start + nat n \<le> length src
      then Some (take off dst @ take (nat n) (drop start src) @ drop (off + nat n) dst) else None)"

lemma memcpy_Some [simp]:
  "off + n \<le> length dst \<Longrightarrow> start + n \<le> length src \<Longrightarrow>
   memcpy dst off src start (int n) =
     Some (take off dst @ take n (drop start src) @ drop (off + n) dst)"
  by (simp add: memcpy_def)

lemma memcpy_nth:
  "memcpy dst off src start n = Some r \<Longrightarrow> j < length dst \<Longrightarrow>
   r ! j = (if off \<le> j \<and> j < off + nat n then src ! (start + (j - off)) else dst ! j)"
  using nth_take_drop_append [of off "take (nat n) (drop start src)" dst j]
  by (auto simp: memcpy_def split: if_splits)

lemma memcpy_length: "memcpy dst off src start n = Some r \<Longrightarrow> length r = length dst"
  by (auto simp: memcpy_def split: if_splits)

lemma distinct_split_remove1:
  "distinct (xs @ x # ys) \<Longrightarrow> remove1 x (xs @ x # ys) = xs @ ys"
  by (simp add: remove1_append)


section \<open>Circular buffers\<close>

text \<open>The \<open>c\<close> elements from index \<open>r\<close> on, in a buffer whose first \<open>N\<close> cells form a ring.\<close>

definition ring_seq :: "'a list \<Rightarrow> nat \<Rightarrow> nat \<Rightarrow> nat \<Rightarrow> 'a list" where
  "ring_seq buf N r c = map (\<lambda>i. buf ! ((r + i) mod N)) [0..<c]"

lemma length_ring_seq [simp]: "length (ring_seq buf N r c) = c"
  by (simp add: ring_seq_def)

lemma take_ring_seq: "n \<le> c \<Longrightarrow> take n (ring_seq buf N r c) = ring_seq buf N r n"
  by (simp add: ring_seq_def take_map)

lemma drop_ring_seq:
  "n \<le> c \<Longrightarrow> drop n (ring_seq buf N r c) = ring_seq buf N ((r + n) mod N) (c - n)"
  by (rule nth_equalityI) (simp_all add: ring_seq_def drop_map mod_simps add.assoc)

lemma ring_seq_append:
  assumes "\<And>i. i < c \<Longrightarrow> buf' ! ((r + i) mod N) = buf ! ((r + i) mod N)"
    and "\<And>j. j < length xs \<Longrightarrow> buf' ! ((r + (c + j)) mod N) = xs ! j"
  shows "ring_seq buf' N r (c + length xs) = ring_seq buf N r c @ xs"
proof (rule nth_equalityI)
  fix i
  assume "i < length (ring_seq buf' N r (c + length xs))"
  then show "ring_seq buf' N r (c + length xs) ! i = (ring_seq buf N r c @ xs) ! i"
    using assms(1) [of i] assms(2) [of "i - c"]
    by (auto simp: ring_seq_def nth_append)
qed (simp add: ring_seq_def)

text \<open>One element written behind the last, and the first taken away.\<close>

lemma ring_seq_snoc:
  assumes "r < N" and "c < N" and "N \<le> length buf"
  shows "ring_seq (buf[(r + c) mod N := x]) N r (Suc c) = ring_seq buf N r c @ [x]"
proof -
  have "(r + i) mod N \<noteq> (r + c) mod N" if "i < c" for i
  proof
    assume "(r + i) mod N = (r + c) mod N"
    then have "N dvd c - i" using that by (metis add_diff_cancel_left' add_left_mono less_imp_le mod_eq_dvd_iff_nat diff_diff_left)
    then show False using that assms(2) by (auto dest: dvd_imp_le)
  qed
  moreover have "(r + c) mod N < length buf"
    using assms mod_less_divisor [of N "r + c"] by linarith
  ultimately show ?thesis
    using ring_seq_append [of c "buf[(r + c) mod N := x]" r N buf "[x]"]
    by (simp add: nth_list_update_neq [OF not_sym])
qed

lemma ring_seq_Cons:
  assumes "0 < c"
  shows "ring_seq buf N r c = buf ! (r mod N) # ring_seq buf N ((r + 1) mod N) (c - 1)"
proof -
  have "ring_seq buf N r c = take 1 (ring_seq buf N r c) @ drop 1 (ring_seq buf N r c)" by simp
  also have "\<dots> = ring_seq buf N r 1 @ ring_seq buf N ((r + 1) mod N) (c - 1)"
    using assms by (simp only: take_ring_seq drop_ring_seq Suc_leI One_nat_def)
  finally show ?thesis by (simp add: ring_seq_def)
qed


section \<open>Singly linked chains\<close>

text \<open>The nodes of a list, or the blocks of a pool, that are linked by an index in each: \<open>nx\<close> reads the
  link of a node, \<open>h\<close> is the head pointer.\<close>

fun chain :: "('a \<Rightarrow> 'a option) \<Rightarrow> 'a option \<Rightarrow> 'a list \<Rightarrow> bool" where
  "chain nx h [] \<longleftrightarrow> h = None"
| "chain nx h (b # bs) \<longleftrightarrow> h = Some b \<and> chain nx (nx b) bs"

text \<open>The chain read off the links, at most \<open>n\<close> blocks of it.\<close>

fun chain_list :: "nat \<Rightarrow> ('a \<Rightarrow> 'a option) \<Rightarrow> 'a option \<Rightarrow> 'a list" where
  "chain_list (Suc n) nx (Some b) = b # chain_list n nx (nx b)"
| "chain_list _ _ _ = []"

lemma chain_list: "chain nx h bs \<Longrightarrow> length bs \<le> n \<Longrightarrow> chain_list n nx h = bs"
proof (induction bs arbitrary: n h)
  case (Cons b bs)
  then show ?case by (cases n) auto
qed simp

lemma chain_cong: "(\<And>b. b \<in> set bs \<Longrightarrow> nx' b = nx b) \<Longrightarrow> chain nx' h bs = chain nx h bs"
  by (induction bs arbitrary: h) auto

lemma chain_unique: "chain nx h as \<Longrightarrow> chain nx h bs \<Longrightarrow> as = bs"
proof (induction as arbitrary: h bs)
  case (Cons a as)
  then show ?case by (cases bs) auto
qed (auto elim: chain.elims)

lemma chain_snoc:
  assumes "chain nx h bs" and "b \<notin> set bs" and "distinct bs" and "nx' b = None"
    and "bs \<noteq> [] \<Longrightarrow> nx' (last bs) = Some b" and "\<And>c. c \<in> set (butlast bs) \<Longrightarrow> nx' c = nx c"
  shows "chain nx' (if bs = [] then Some b else h) (bs @ [b])"
  using assms
proof (induction bs arbitrary: h)
  case (Cons c cs)
  show ?case
  proof (cases "cs = []")
    case False
    then have "chain nx' (nx c) (cs @ [b])" using Cons.IH [of "nx c"] Cons.prems by auto
    then show ?thesis using Cons.prems(1,6) False by auto
  qed (use Cons.prems in auto)
qed simp

end
