(* ===== verification/RTT_List.thy ===== *)
theory RTT_List
  imports RTT_Prelude
begin

text \<open>
  The intrusive doubly linked lists of \<open>rt-thread/include/rtservice.h\<close>. A store maps every
  node to its \<open>next\<close> and \<open>prev\<close> pointer; the operations are the pointer assignments of the
  code, in their order. \<open>rt_list h l xs\<close> says that the ring through the list head \<open>l\<close> runs
  through the nodes \<open>xs\<close>; the lemmas show that each operation acts on that sequence as its
  comment promises and leaves every other ring alone.

  The interface the kernel components rely on (a family of disjoint queues of nodes) is the
  locale \<open>node_queues\<close>; it is interpreted here on the pointer lists, and in \<open>RTT_Kernel\<close> on
  the queues of the kernel model.
\<close>

section \<open>The pointer operations\<close>

record dlinks =
  lnext :: "ptr \<Rightarrow> ptr"
  lprev :: "ptr \<Rightarrow> ptr"

definition rt_list_init :: "ptr \<Rightarrow> dlinks \<Rightarrow> dlinks" where
  "rt_list_init l h = h\<lparr>lnext := (lnext h)(l := l), lprev := (lprev h)(l := l)\<rparr>"

definition rt_list_insert_after :: "ptr \<Rightarrow> ptr \<Rightarrow> dlinks \<Rightarrow> dlinks" where
  "rt_list_insert_after l n h =
     (let h = h\<lparr>lprev := (lprev h)(lnext h l := n)\<rparr>;
          h = h\<lparr>lnext := (lnext h)(n := lnext h l)\<rparr>;
          h = h\<lparr>lnext := (lnext h)(l := n)\<rparr>
      in h\<lparr>lprev := (lprev h)(n := l)\<rparr>)"

definition rt_list_insert_before :: "ptr \<Rightarrow> ptr \<Rightarrow> dlinks \<Rightarrow> dlinks" where
  "rt_list_insert_before l n h =
     (let h = h\<lparr>lnext := (lnext h)(lprev h l := n)\<rparr>;
          h = h\<lparr>lprev := (lprev h)(n := lprev h l)\<rparr>;
          h = h\<lparr>lprev := (lprev h)(l := n)\<rparr>
      in h\<lparr>lnext := (lnext h)(n := l)\<rparr>)"

definition rt_list_remove :: "ptr \<Rightarrow> dlinks \<Rightarrow> dlinks" where
  "rt_list_remove n h =
     (let h = h\<lparr>lprev := (lprev h)(lnext h n := lprev h n)\<rparr>;
          h = h\<lparr>lnext := (lnext h)(lprev h n := lnext h n)\<rparr>;
          h = h\<lparr>lprev := (lprev h)(n := n)\<rparr>
      in h\<lparr>lnext := (lnext h)(n := n)\<rparr>)"

definition rt_list_isempty :: "ptr \<Rightarrow> dlinks \<Rightarrow> bool" where
  "rt_list_isempty l h \<longleftrightarrow> lnext h l = l"

text \<open>The loop of \<open>rt_list_len\<close>; it does not return when the ring never comes back to \<open>l\<close>.\<close>

partial_function (option) rt_list_len_loop :: "dlinks \<Rightarrow> ptr \<Rightarrow> ptr \<Rightarrow> u32 \<Rightarrow> u32 option" where
  "rt_list_len_loop h l p len =
     (if lnext h p \<noteq> l then rt_list_len_loop h l (lnext h p) (len + 1) else Some len)"

definition rt_list_len :: "ptr \<Rightarrow> dlinks \<Rightarrow> u32 option" where
  "rt_list_len l h = rt_list_len_loop h l l 0"


section \<open>The sequence a ring holds\<close>

text \<open>\<open>dseg nx pv a xs b\<close>: from \<open>a\<close> the links lead, in both directions, through \<open>xs\<close> to \<open>b\<close>.\<close>

fun dseg :: "(ptr \<Rightarrow> ptr) \<Rightarrow> (ptr \<Rightarrow> ptr) \<Rightarrow> ptr \<Rightarrow> ptr list \<Rightarrow> ptr \<Rightarrow> bool" where
  "dseg nx pv a [] b \<longleftrightarrow> nx a = b \<and> pv b = a"
| "dseg nx pv a (x # xs) b \<longleftrightarrow> nx a = x \<and> pv x = a \<and> dseg nx pv x xs b"

definition rt_list :: "dlinks \<Rightarrow> ptr \<Rightarrow> ptr list \<Rightarrow> bool" where
  "rt_list h l xs \<longleftrightarrow> distinct (l # xs) \<and> dseg (lnext h) (lprev h) l xs l"

definition self_linked :: "dlinks \<Rightarrow> ptr \<Rightarrow> bool" where
  "self_linked h n \<longleftrightarrow> lnext h n = n \<and> lprev h n = n"

lemma dseg_append [simp]:
  "dseg nx pv a (xs @ y # ys) b \<longleftrightarrow> dseg nx pv a xs y \<and> dseg nx pv y ys b"
  by (induction xs arbitrary: a) auto

lemma dseg_next_frame [simp]:
  "u \<noteq> a \<Longrightarrow> u \<notin> set xs \<Longrightarrow> dseg (nx(u := v)) pv a xs b = dseg nx pv a xs b"
  by (induction xs arbitrary: a) auto

lemma dseg_prev_frame [simp]:
  "u \<noteq> b \<Longrightarrow> u \<notin> set xs \<Longrightarrow> dseg nx (pv(u := v)) a xs b = dseg nx pv a xs b"
  by (induction xs arbitrary: a) auto

lemma dseg_unique:
  "dseg nx pv a xs l \<Longrightarrow> dseg nx pv a ys l \<Longrightarrow> l \<notin> set xs \<Longrightarrow> l \<notin> set ys \<Longrightarrow> xs = ys"
proof (induction xs arbitrary: a ys)
  case Nil
  then show ?case by (cases ys) auto
next
  case (Cons x xs)
  then show ?case by (cases ys) auto
qed

lemma rt_list_unique: "rt_list h l xs \<Longrightarrow> rt_list h l ys \<Longrightarrow> xs = ys"
  using dseg_unique by (auto simp: rt_list_def)

lemma rt_list_init_ring: "rt_list (rt_list_init l h) l []"
  by (simp add: rt_list_def rt_list_init_def)

lemma rt_list_isempty_iff: "rt_list h l xs \<Longrightarrow> rt_list_isempty l h \<longleftrightarrow> xs = []"
  by (cases xs) (auto simp: rt_list_def rt_list_isempty_def)

lemma rt_list_first: "rt_list h l (x # xs) \<Longrightarrow> lnext h l = x"
  by (simp add: rt_list_def)

text \<open>Both insertions put the new node between two neighbours.\<close>

definition link_between :: "ptr \<Rightarrow> ptr \<Rightarrow> ptr \<Rightarrow> dlinks \<Rightarrow> dlinks" where
  "link_between p n s h =
     h\<lparr>lnext := (lnext h)(p := n, n := s), lprev := (lprev h)(s := n, n := p)\<rparr>"

lemma insert_after_between:
  "n \<noteq> l \<Longrightarrow> rt_list_insert_after l n h = link_between l n (lnext h l) h"
  by (simp add: rt_list_insert_after_def link_between_def fun_upd_twist)

lemma insert_before_between:
  "n \<noteq> l \<Longrightarrow> rt_list_insert_before l n h = link_between (lprev h l) n l h"
  by (auto simp add: rt_list_insert_before_def link_between_def fun_upd_twist)

lemma link_between_ring:
  assumes "rt_list h l (xs @ ys)" and "n \<notin> set (l # xs @ ys)"
  shows "rt_list (link_between (last (l # xs)) n (hd (ys @ [l])) h) l (xs @ n # ys)"
proof (cases xs rule: rev_cases; cases ys)
  assume "xs = []" and "ys = []"
  with assms show ?thesis by (auto simp: rt_list_def link_between_def)
next
  fix s ys'
  assume "xs = []" and "ys = s # ys'"
  with assms show ?thesis by (auto simp: rt_list_def link_between_def)
next
  fix xs' p
  assume "xs = xs' @ [p]" and "ys = []"
  with assms show ?thesis by (auto simp: rt_list_def link_between_def)
next
  fix xs' p s ys'
  assume "xs = xs' @ [p]" and "ys = s # ys'"
  with assms show ?thesis by (auto simp: rt_list_def link_between_def)
qed

lemma ring_neighbours:
  assumes "rt_list h l (xs @ ys)"
  shows "lnext h (last (l # xs)) = hd (ys @ [l])" and "lprev h (hd (ys @ [l])) = last (l # xs)"
  using assms by (cases xs rule: rev_cases; cases ys; auto simp: rt_list_def)+


lemma link_between_other_ring:
  assumes "rt_list h l' zs" and "{p, n, s} \<inter> set (l' # zs) = {}"
  shows "rt_list (link_between p n s h) l' zs"
  using assms by (auto simp: rt_list_def link_between_def)


section \<open>The operations on a ring\<close>

theorem rt_list_insert_after_ring:
  assumes "rt_list h l xs" and "n \<notin> set (l # xs)"
  shows "rt_list (rt_list_insert_after l n h) l (n # xs)"
  using link_between_ring [of h l "[]" xs n] ring_neighbours(1) [of h l "[]" xs] assms
  by (simp add: insert_after_between)

text \<open>Inserting before the head appends at the end of the queue.\<close>

theorem rt_list_insert_before_head_ring:
  assumes "rt_list h l xs" and "n \<notin> set (l # xs)"
  shows "rt_list (rt_list_insert_before l n h) l (xs @ [n])"
  using link_between_ring [of h l xs "[]" n] ring_neighbours(2) [of h l xs "[]"] assms
  by (simp add: insert_before_between)

theorem rt_list_insert_before_node_ring:
  assumes "rt_list h l (xs @ m # ys)" and "n \<notin> set (l # xs @ m # ys)"
  shows "rt_list (rt_list_insert_before m n h) l (xs @ n # m # ys)"
  using link_between_ring [of h l xs "m # ys" n] ring_neighbours(2) [of h l xs "m # ys"] assms
  by (simp add: insert_before_between)

theorem rt_list_remove_ring:
  assumes "rt_list h l (xs @ n # ys)"
  shows "rt_list (rt_list_remove n h) l (xs @ ys)"
proof (cases xs rule: rev_cases; cases ys)
  assume "xs = []" and "ys = []"
  with assms show ?thesis by (auto simp: rt_list_def rt_list_remove_def)
next
  fix s ys'
  assume "xs = []" and "ys = s # ys'"
  with assms show ?thesis by (auto simp: rt_list_def rt_list_remove_def)
next
  fix xs' p
  assume "xs = xs' @ [p]" and "ys = []"
  with assms show ?thesis by (auto simp: rt_list_def rt_list_remove_def)
next
  fix xs' p s ys'
  assume "xs = xs' @ [p]" and "ys = s # ys'"
  with assms show ?thesis by (auto simp: rt_list_def rt_list_remove_def)
qed

lemma rt_list_remove_self_linked: "self_linked (rt_list_remove n h) n"
  by (simp add: self_linked_def rt_list_remove_def)

lemma rt_list_remove_idle: "self_linked h n \<Longrightarrow> rt_list_remove n h = h"
  by (simp add: self_linked_def rt_list_remove_def fun_upd_idem)

lemma ring_node_not_self_linked: "rt_list h l xs \<Longrightarrow> n \<in> set xs \<Longrightarrow> \<not> self_linked h n"
proof
  assume ring: "rt_list h l xs" and "n \<in> set xs" and "self_linked h n"
  then obtain us vs where xs: "xs = us @ n # vs" by (auto simp: in_set_conv_decomp)
  with ring \<open>self_linked h n\<close> show False
    by (cases vs) (auto simp: rt_list_def self_linked_def)
qed

lemma rt_list_remove_other_ring:
  assumes "rt_list h l (xs @ n # ys)" and "rt_list h l' zs"
    and "set (l # xs @ n # ys) \<inter> set (l' # zs) = {}"
  shows "rt_list (rt_list_remove n h) l' zs"
proof -
  have "lnext h n \<in> set (l # ys)" and "lprev h n \<in> set (l # xs)"
    using assms(1) by (cases ys; cases xs rule: rev_cases; auto simp: rt_list_def)+
  then have "lnext h n \<notin> set (l' # zs)" and "lprev h n \<notin> set (l' # zs)"
    and "n \<notin> set (l' # zs)"
    using assms(3) by auto
  with assms(2) show ?thesis
    by (auto simp: rt_list_def rt_list_remove_def)
qed

lemma rt_list_len_loop_seg:
  "dseg (lnext h) (lprev h) a xs l \<Longrightarrow> l \<notin> set xs \<Longrightarrow>
   rt_list_len_loop h l a k = Some (k + of_nat (length xs))"
proof (induction xs arbitrary: a k)
  case Nil
  then show ?case by (simp add: rt_list_len_loop.simps)
next
  case (Cons x xs)
  then show ?case
    by (subst rt_list_len_loop.simps) (auto simp: add.assoc)
qed

theorem rt_list_len_ring: "rt_list h l xs \<Longrightarrow> rt_list_len l h = Some (of_nat (length xs))"
  using rt_list_len_loop_seg [of h l xs l 0] by (simp add: rt_list_len_def rt_list_def)


section \<open>Families of queues\<close>

text \<open>
  What the kernel needs of its queues. \<open>rep s F\<close>: the store \<open>s\<close> holds the queues \<open>F\<close>;
  \<open>idle s n\<close>: the node \<open>n\<close> is linked to itself only, so in no queue.
\<close>

locale node_queues =
  fixes rep :: "'s \<Rightarrow> ('q \<Rightarrow> ptr list) \<Rightarrow> bool"
    and isq :: "'q \<Rightarrow> bool"
    and node :: "ptr \<Rightarrow> bool"
    and idle :: "'s \<Rightarrow> ptr \<Rightarrow> bool"
    and push_front :: "'q \<Rightarrow> ptr \<Rightarrow> 's \<Rightarrow> 's"
    and push_back :: "'q \<Rightarrow> ptr \<Rightarrow> 's \<Rightarrow> 's"
    and insert_at :: "'q \<Rightarrow> ptr \<Rightarrow> ptr \<Rightarrow> 's \<Rightarrow> 's"
    and unlink :: "ptr \<Rightarrow> 's \<Rightarrow> 's"
  assumes rep_distinct: "rep s F \<Longrightarrow> isq q \<Longrightarrow> distinct (F q)"
    and rep_disjoint:
      "rep s F \<Longrightarrow> isq q \<Longrightarrow> isq q' \<Longrightarrow> q \<noteq> q' \<Longrightarrow> set (F q) \<inter> set (F q') = {}"
    and idle_notin: "rep s F \<Longrightarrow> isq q \<Longrightarrow> idle s n \<Longrightarrow> n \<notin> set (F q)"
    and rep_front:
      "rep s F \<Longrightarrow> isq q \<Longrightarrow> node n \<Longrightarrow> idle s n \<Longrightarrow> rep (push_front q n s) (F(q := n # F q))"
    and rep_back:
      "rep s F \<Longrightarrow> isq q \<Longrightarrow> node n \<Longrightarrow> idle s n \<Longrightarrow> rep (push_back q n s) (F(q := F q @ [n]))"
    and rep_at:
      "rep s F \<Longrightarrow> isq q \<Longrightarrow> node n \<Longrightarrow> idle s n \<Longrightarrow> F q = xs @ m # ys \<Longrightarrow>
       rep (insert_at q m n s) (F(q := xs @ n # m # ys))"
    and rep_unlink:
      "rep s F \<Longrightarrow> isq q \<Longrightarrow> F q = xs @ n # ys \<Longrightarrow> rep (unlink n s) (F(q := xs @ ys))"
    and idle_unlink: "idle (unlink n s) n"
    and unlink_idle: "idle s n \<Longrightarrow> unlink n s = s"
begin

text \<open>Taking the first node of a queue leaves the rest, and makes the node idle again.\<close>

lemma take_first:
  assumes "rep s F" and "isq q" and "F q = n # xs"
  shows "rep (unlink n s) (F(q := xs)) \<and> idle (unlink n s) n"
  using rep_unlink [of s F q "[]" n xs] assms idle_unlink by simp

text \<open>A node put at the back and taken from a queue again: the queue is as before.\<close>

lemma back_unlink:
  assumes "rep s F" and "isq q" and "node n" and "idle s n"
  shows "rep (unlink n (push_back q n s)) F"
  using rep_unlink [OF rep_back [OF assms] assms(2), of "F q" n "[]"] by simp

text \<open>
  Insertion by priority, the way \<open>rt_ipc_list_suspend\<close> does it: in front of the first node
  whose key is greater, at the end when there is none.
\<close>

lemma insert_by_key:
  assumes "rep s F" and "isq q" and "node n" and "idle s n"
  shows "rep (case find (\<lambda>m. key n < key m) (F q) of
                Some m \<Rightarrow> insert_at q m n s | None \<Rightarrow> push_back q n s)
             (F(q := takeWhile (\<lambda>m. \<not> key n < (key m :: 'k :: linorder)) (F q) @ n #
                      dropWhile (\<lambda>m. \<not> key n < key m) (F q)))"
proof (cases "find (\<lambda>m. key n < key m) (F q)")
  case None
  then have "takeWhile (\<lambda>m. \<not> key n < key m) (F q) @ n #
      dropWhile (\<lambda>m. \<not> key n < key m) (F q) = F q @ [n]"
    by (simp add: find_None_iff)
  then show ?thesis
    by (simp only: None option.case) (rule rep_back [OF assms])
next
  case (Some m)
  then obtain ys where "dropWhile (\<lambda>m. \<not> key n < key m) (F q) = m # ys"
    by (auto simp: find_dropWhile comp_def split: list.splits)
  then have "F q = takeWhile (\<lambda>m. \<not> key n < key m) (F q) @ m # ys"
    by (metis takeWhile_dropWhile_id)
  from rep_at [OF assms this] Some show ?thesis
    using \<open>dropWhile (\<lambda>m. \<not> key n < key m) (F q) = m # ys\<close> by simp
qed

end


text \<open>
  The pointer lists provide it: the heads are a fixed set of list heads, every other address
  is a node, and the rings through the heads are disjoint.
\<close>

definition rings :: "ptr set \<Rightarrow> dlinks \<Rightarrow> (ptr \<Rightarrow> ptr list) \<Rightarrow> bool" where
  "rings heads h F \<longleftrightarrow>
     (\<forall>l \<in> heads. rt_list h l (F l) \<and> set (F l) \<inter> heads = {}) \<and>
     (\<forall>l \<in> heads. \<forall>l' \<in> heads. l \<noteq> l' \<longrightarrow> set (F l) \<inter> set (F l') = {})"

lemma rings_update:
  assumes "rings heads h F" and "l \<in> heads" and "rt_list h' l xs" and "set xs \<inter> heads = {}"
    and "\<And>l'. l' \<in> heads \<Longrightarrow> l' \<noteq> l \<Longrightarrow> rt_list h' l' (F l') \<and> set xs \<inter> set (F l') = {}"
  shows "rings heads h' (F(l := xs))"
  using assms by (fastforce simp: rings_def)

lemma rings_link_between:
  assumes "rings heads h F" and "l \<in> heads" and "n \<notin> heads" and "self_linked h n"
    and split: "F l = xs @ ys"
  shows "rings heads (link_between (last (l # xs)) n (hd (ys @ [l])) h) (F(l := xs @ n # ys))"
proof (rule rings_update [OF assms(1,2)])
  have fresh: "n \<notin> set (F l')" if "l' \<in> heads" for l'
    using assms(1,4) that ring_node_not_self_linked by (auto simp: rings_def)
  have ring: "rt_list h l (xs @ ys)"
    using assms(1,2) split by (auto simp: rings_def)
  then show "rt_list (link_between (last (l # xs)) n (hd (ys @ [l])) h) l (xs @ n # ys)"
    using fresh [OF assms(2)] assms(2,3) split by (intro link_between_ring) auto
  have "set (F l) \<inter> heads = {}"
    using assms(1,2) by (simp add: rings_def)
  then show "set (xs @ n # ys) \<inter> heads = {}"
    using assms(3) split by auto
  fix l'
  assume l': "l' \<in> heads" "l' \<noteq> l"
  have disj: "set (l # F l) \<inter> set (l' # F l') = {}"
    using assms(1,2) l' by (auto simp: rings_def)
  have "last (l # xs) \<in> set (l # F l)" and "hd (ys @ [l]) \<in> set (l # F l)"
    using split by (cases xs rule: rev_cases; cases ys; auto)+
  then have "{last (l # xs), n, hd (ys @ [l])} \<inter> set (l' # F l') = {}"
    using disj fresh [OF l'(1)] l'(1) assms(3) by auto
  then have "rt_list (link_between (last (l # xs)) n (hd (ys @ [l])) h) l' (F l')"
    using assms(1) l'(1) by (intro link_between_other_ring) (auto simp: rings_def)
  then show "rt_list (link_between (last (l # xs)) n (hd (ys @ [l])) h) l' (F l') \<and>
      set (xs @ n # ys) \<inter> set (F l') = {}"
    using disj fresh [OF l'(1)] split by auto
qed

lemma rings_remove:
  assumes "rings heads h F" and "l \<in> heads" and split: "F l = xs @ n # ys"
  shows "rings heads (rt_list_remove n h) (F(l := xs @ ys))"
proof (rule rings_update [OF assms(1,2)])
  have ring: "rt_list h l (xs @ n # ys)" and away: "set (xs @ n # ys) \<inter> heads = {}"
    using assms(1,2) by (auto simp: rings_def simp flip: split)
  show "rt_list (rt_list_remove n h) l (xs @ ys)"
    using ring by (rule rt_list_remove_ring)
  show "set (xs @ ys) \<inter> heads = {}"
    using away by auto
  fix l'
  assume l': "l' \<in> heads" "l' \<noteq> l"
  have "set (l # xs @ n # ys) \<inter> set (l' # F l') = {}"
    using assms(1,2) l' away by (auto simp: rings_def simp flip: split)
  then show "rt_list (rt_list_remove n h) l' (F l') \<and> set (xs @ ys) \<inter> set (F l') = {}"
    using rt_list_remove_other_ring [OF ring] assms(1) l'(1) by (auto simp: rings_def)
qed

interpretation ptrq: node_queues
  "rings heads" "\<lambda>l. l \<in> heads" "\<lambda>n. n \<notin> heads" self_linked
  rt_list_insert_after rt_list_insert_before "\<lambda>_. rt_list_insert_before" rt_list_remove
  for heads
proof
  fix h F q q' n m xs ys
  show "rings heads h F \<Longrightarrow> q \<in> heads \<Longrightarrow> distinct (F q)"
    by (auto simp: rings_def rt_list_def)
  show "rings heads h F \<Longrightarrow> q \<in> heads \<Longrightarrow> q' \<in> heads \<Longrightarrow> q \<noteq> q' \<Longrightarrow> set (F q) \<inter> set (F q') = {}"
    by (simp add: rings_def)
  show "rings heads h F \<Longrightarrow> q \<in> heads \<Longrightarrow> self_linked h n \<Longrightarrow> n \<notin> set (F q)"
    using ring_node_not_self_linked by (auto simp: rings_def)
  have nb: "lnext h (last (q # us)) = hd (vs @ [q]) \<and> lprev h (hd (vs @ [q])) = last (q # us)"
    if "rings heads h F" "q \<in> heads" "F q = us @ vs" for us vs
    using ring_neighbours [of h q us vs] that by (auto simp: rings_def)
  show "rings heads (rt_list_insert_after q n h) (F(q := n # F q))"
    if "rings heads h F" "q \<in> heads" "n \<notin> heads" "self_linked h n"
  proof -
    have "n \<noteq> q" using that by auto
    then show ?thesis
      using rings_link_between [OF that, of "[]"] nb [OF that(1,2), of "[]"]
      by (simp add: insert_after_between)
  qed
  show "rings heads (rt_list_insert_before q n h) (F(q := F q @ [n]))"
    if "rings heads h F" "q \<in> heads" "n \<notin> heads" "self_linked h n"
  proof -
    have "n \<noteq> q" using that by auto
    then show ?thesis
      using rings_link_between [OF that, of "F q" "[]"] nb [OF that(1,2), of "F q" "[]"]
      by (simp add: insert_before_between)
  qed
  show "rings heads (rt_list_insert_before m n h) (F(q := xs @ n # m # ys))"
    if "rings heads h F" "q \<in> heads" "n \<notin> heads" "self_linked h n" "F q = xs @ m # ys"
  proof -
    have "n \<noteq> m"
      using that ring_node_not_self_linked [of h q "F q" n] by (auto simp: rings_def)
    then show ?thesis
      using rings_link_between [OF that] nb [OF that(1,2,5)] by (simp add: insert_before_between)
  qed
  show "rings heads (rt_list_remove n h) (F(q := xs @ ys))"
    if "rings heads h F" "q \<in> heads" "F q = xs @ n # ys"
    using that by (rule rings_remove)
  show "self_linked (rt_list_remove n h) n"
    by (rule rt_list_remove_self_linked)
  show "self_linked h n \<Longrightarrow> rt_list_remove n h = h"
    by (rule rt_list_remove_idle)
qed

end
