(* ===== verification/RTT_Slist.thy ===== *)
theory RTT_Slist
  imports RTT_Prelude
begin

text \<open>
  The singly linked lists of \<open>include/rtservice.h\<close>: a list is a node whose \<open>next\<close> pointers lead through the
  elements to \<open>RT_NULL\<close>. The memory of the nodes is a map \<open>nx\<close> from a node to its \<open>next\<close>. The walks to the end or to
  a node are loops that follow the pointers, so they are partial functions; on a list (\<open>slist\<close>) they return.
\<close>

section \<open>Operations\<close>

type_synonym 'a slinks = "'a \<Rightarrow> 'a option"

definition rt_slist_init :: "'a \<Rightarrow> 'a slinks \<Rightarrow> 'a slinks" where
  "rt_slist_init l nx = nx(l := None)"

partial_function (option) rt_slist_tail :: "'a slinks \<Rightarrow> 'a \<Rightarrow> 'a option" where
  "rt_slist_tail nx l = (case nx l of None \<Rightarrow> Some l | Some n \<Rightarrow> rt_slist_tail nx n)"

definition rt_slist_append :: "'a \<Rightarrow> 'a \<Rightarrow> 'a slinks \<Rightarrow> 'a slinks option" where
  "rt_slist_append l n nx = do {
     node \<leftarrow> rt_slist_tail nx l;
     let nx = nx(node := Some n);
     Some (nx(n := None))
   }"

definition rt_slist_insert :: "'a \<Rightarrow> 'a \<Rightarrow> 'a slinks \<Rightarrow> 'a slinks" where
  "rt_slist_insert l n nx = (let nx = nx(n := nx l) in nx(l := Some n))"

partial_function (option) slist_count :: "'a slinks \<Rightarrow> 'a option \<Rightarrow> nat \<Rightarrow> nat option" where
  "slist_count nx a n = (case a of None \<Rightarrow> Some n | Some b \<Rightarrow> slist_count nx (nx b) (n + 1))"

definition rt_slist_len :: "'a \<Rightarrow> 'a slinks \<Rightarrow> nat option" where
  "rt_slist_len l nx = slist_count nx (nx l) 0"

text \<open>The node before \<open>n\<close>, or the last one.\<close>

partial_function (option) slist_before :: "'a slinks \<Rightarrow> 'a \<Rightarrow> 'a \<Rightarrow> 'a option" where
  "slist_before nx n l =
     (case nx l of None \<Rightarrow> Some l | Some b \<Rightarrow> if b = n then Some l else slist_before nx n b)"

definition rt_slist_remove :: "'a \<Rightarrow> 'a \<Rightarrow> 'a slinks \<Rightarrow> 'a slinks option" where
  "rt_slist_remove l n nx = do {
     node \<leftarrow> slist_before nx n l;
     Some (case nx node of None \<Rightarrow> nx | Some b \<Rightarrow> nx(node := nx b))
   }"

definition rt_slist_first :: "'a \<Rightarrow> 'a slinks \<Rightarrow> 'a option" where "rt_slist_first l nx = nx l"

definition rt_slist_next :: "'a \<Rightarrow> 'a slinks \<Rightarrow> 'a option" where "rt_slist_next n nx = nx n"

definition rt_slist_isempty :: "'a \<Rightarrow> 'a slinks \<Rightarrow> bool" where "rt_slist_isempty l nx \<longleftrightarrow> nx l = None"


section \<open>Lists of nodes\<close>

definition slist :: "'a slinks \<Rightarrow> 'a \<Rightarrow> 'a list \<Rightarrow> bool" where
  "slist nx l xs \<longleftrightarrow> chain nx (nx l) xs \<and> distinct (l # xs)"

lemma chain_suffix: "chain nx a (xs @ y # ys) \<Longrightarrow> chain nx (Some y) (y # ys)"
  by (induction xs arbitrary: a) auto

lemma slist_empty [simp]: "slist nx l [] \<longleftrightarrow> nx l = None"
  by (simp add: slist_def)

lemma slist_init: "slist (rt_slist_init l nx) l []"
  by (simp add: rt_slist_init_def)

lemma slist_first: "slist nx l xs \<Longrightarrow> nx l = (if xs = [] then None else Some (hd xs))"
  by (cases xs) (auto simp: slist_def)

lemma slist_isempty: "slist nx l xs \<Longrightarrow> rt_slist_isempty l nx \<longleftrightarrow> xs = []"
  by (simp add: rt_slist_isempty_def slist_first)

lemma slist_next: "slist nx l (us @ x # vs) \<Longrightarrow> nx x = (if vs = [] then None else Some (hd vs))"
  using chain_suffix [of nx "nx l" us x vs] by (cases vs) (auto simp: slist_def)

lemma tail_chain: "chain nx (nx l) xs \<Longrightarrow> rt_slist_tail nx l = Some (last (l # xs))"
proof (induction xs arbitrary: l)
  case Nil
  then show ?case by (subst rt_slist_tail.simps) simp
next
  case (Cons x xs)
  then have "rt_slist_tail nx l = rt_slist_tail nx x" by (subst rt_slist_tail.simps) simp
  then show ?case using Cons by simp
qed

lemma slist_tail: "slist nx l xs \<Longrightarrow> rt_slist_tail nx l = Some (last (l # xs))"
  by (simp add: slist_def tail_chain del: last.simps)

lemma count_chain: "chain nx a xs \<Longrightarrow> slist_count nx a n = Some (n + length xs)"
proof (induction xs arbitrary: a n)
  case Nil
  then show ?case by (subst slist_count.simps) simp
next
  case (Cons x xs)
  then show ?case by (subst slist_count.simps) simp
qed

lemma slist_len: "slist nx l xs \<Longrightarrow> rt_slist_len l nx = Some (length xs)"
  using count_chain [of nx "nx l" xs 0] by (simp add: rt_slist_len_def slist_def)

lemma chain_link_snoc: "chain nx a xs \<Longrightarrow> distinct xs \<Longrightarrow> n \<notin> set xs \<Longrightarrow> xs \<noteq> [] \<Longrightarrow>
   chain (nx(last xs := Some n, n := None)) a (xs @ [n])"
proof (induction xs arbitrary: a)
  case (Cons x xs)
  show ?case
  proof (cases "xs = []")
    case False
    then have "last xs \<noteq> x" using Cons.prems(2) last_in_set [of xs] by auto
    then show ?thesis using Cons False by auto
  qed (use Cons.prems in auto)
qed simp

lemma slist_append:
  assumes "slist nx l xs" and "n \<notin> set (l # xs)"
  shows "\<exists>nx'. rt_slist_append l n nx = Some nx' \<and> slist nx' l (xs @ [n]) \<and> (\<forall>x. x \<notin> set (l # xs) \<longrightarrow> x \<noteq> n \<longrightarrow> nx' x = nx x)"
proof -
  let ?nx = "nx(last (l # xs) := Some n, n := None)"
  have "rt_slist_append l n nx = Some ?nx" using slist_tail [OF assms(1)] by (simp add: rt_slist_append_def)
  moreover have "slist ?nx l (xs @ [n])"
  proof (cases "xs = []")
    case True
    then show ?thesis using assms by (simp add: slist_def)
  next
    case False
    then have "?nx l = nx l" using assms last_in_set [of xs] by (auto simp: slist_def)
    then show ?thesis using chain_link_snoc [of nx "nx l" xs n] assms False by (auto simp: slist_def)
  qed
  moreover have "?nx x = nx x" if "x \<notin> set (l # xs)" "x \<noteq> n" for x
    using that last_in_set [of "l # xs"] by auto
  ultimately show ?thesis by blast
qed

lemma slist_insert:
  assumes "slist nx l xs" and "n \<notin> set (l # xs)"
  shows "slist (rt_slist_insert l n nx) l (n # xs)"
proof -
  have "chain (nx(n := nx l, l := Some n)) (nx l) xs = chain nx (nx l) xs"
    by (rule chain_cong) (use assms in \<open>auto simp: slist_def\<close>)
  then show ?thesis using assms by (auto simp: slist_def rt_slist_insert_def)
qed

lemma before_chain:
  "chain nx (nx l) xs \<Longrightarrow> distinct (l # xs) \<Longrightarrow>
   slist_before nx n l = Some (last (l # takeWhile (\<lambda>x. x \<noteq> n) xs))"
proof (induction xs arbitrary: l)
  case Nil
  then show ?case by (subst slist_before.simps) simp
next
  case (Cons x xs)
  then show ?case by (subst slist_before.simps) simp
qed

lemma chain_bypass:
  "chain nx a (us @ n # vs) \<Longrightarrow> us \<noteq> [] \<Longrightarrow> distinct (us @ n # vs) \<Longrightarrow> chain (nx(last us := nx n)) a (us @ vs)"
proof (induction us arbitrary: a)
  case (Cons u us)
  show ?case
  proof (cases "us = []")
    case True
    have "chain (nx(u := nx n)) (nx n) vs = chain nx (nx n) vs"
      by (rule chain_cong) (use Cons.prems True in auto)
    then show ?thesis using Cons.prems True by (simp add: fun_upd_def)
  next
    case False
    then have "last us \<noteq> u" using Cons.prems(3) last_in_set [of us] by auto
    then show ?thesis using Cons False by auto
  qed
qed simp

lemma slist_remove:
  assumes "slist nx l xs"
  shows "\<exists>nx'. rt_slist_remove l n nx = Some nx' \<and> slist nx' l (remove1 n xs) \<and> nx' n = nx n"
proof (cases "n \<in> set xs")
  case True
  then obtain us vs where xs: "xs = us @ n # vs" "n \<notin> set us" by (meson split_list_first)
  then have tw: "takeWhile (\<lambda>x. x \<noteq> n) xs = us" by (induction us arbitrary: xs) auto
  have d: "chain nx (nx l) (us @ n # vs)" "distinct (l # us @ n # vs)" using assms xs by (simp_all add: slist_def)
  have b: "slist_before nx n l = Some (last (l # us))" using before_chain [of nx l xs n] assms tw by (simp add: slist_def)
  have nl: "nx (last (l # us)) = Some n"
  proof (cases us rule: rev_cases)
    case (snoc us' u)
    then show ?thesis using slist_next [of nx l us' u "n # vs"] assms xs by simp
  qed (use d in simp)
  let ?nx = "nx(last (l # us) := nx n)"
  have e: "rt_slist_remove l n nx = Some ?nx" using b nl by (simp add: rt_slist_remove_def)
  have "slist ?nx l (us @ vs)"
  proof (cases "us = []")
    case True
    have "chain (nx(l := nx n)) (nx n) vs = chain nx (nx n) vs"
      by (rule chain_cong) (use d True in auto)
    then show ?thesis using d True by (simp add: slist_def)
  next
    case False
    then have "last us \<noteq> l" using d(2) last_in_set [of us] by auto
    then show ?thesis using chain_bypass [OF d(1) False] d(2) False by (auto simp: slist_def)
  qed
  moreover have "last (l # us) \<in> set (l # xs)" using xs(1) last_in_set [of "l # us"] by auto
  moreover have "last (l # us) \<noteq> n" using d(2) last_in_set [of "l # us"] by auto
  moreover have "remove1 n xs = us @ vs" using xs by (simp add: remove1_append)
  ultimately show ?thesis using e by (intro exI [of _ ?nx]) (auto simp del: last.simps)
next
  case False
  then have tw: "takeWhile (\<lambda>x. x \<noteq> n) xs = xs" by (induction xs) auto
  have b: "slist_before nx n l = Some (last (l # xs))"
    using before_chain [of nx l xs n] assms unfolding tw slist_def by blast
  have "nx (last (l # xs)) = None"
  proof (cases xs rule: rev_cases)
    case (snoc us u)
    then show ?thesis using slist_next [of nx l us u "[]"] assms by simp
  qed (use assms in simp)
  then have "rt_slist_remove l n nx = Some nx" using b by (simp add: rt_slist_remove_def)
  then show ?thesis using assms False by (intro exI [of _ nx]) (simp add: remove1_idem)
qed

end
