(* ===== verification/RTT_Fifo.thy ===== *)
theory RTT_Fifo
  imports RTT_Prelude
begin

text \<open>
  The interface of a bounded first-in first-out buffer: what the users of a ring buffer, a
  mailbox or a message queue rely on. A run of puts and gets is compared with the same run on a
  plain list of at most \<open>cap\<close> elements. \<open>RTT_Ring\<close>, \<open>RTT_Mailbox\<close> and \<open>RTT_MsgQueue\<close> interpret the
  locale on the operations of the code.
\<close>

datatype 'a fifo_op = Put 'a | Get

datatype 'a fifo_out = Stored bool | Got "'a option"

text \<open>\<open>enq\<close> answers \<open>None\<close> when nothing was stored, \<open>deq\<close> when there was nothing to take.\<close>

fun fifo_run ::
  "('s \<Rightarrow> 'a \<Rightarrow> 's option) \<Rightarrow> ('s \<Rightarrow> ('s \<times> 'a) option) \<Rightarrow> 's \<Rightarrow> 'a fifo_op list \<Rightarrow> 's \<times> 'a fifo_out list"
where
  "fifo_run enq deq s [] = (s, [])"
| "fifo_run enq deq s (Put x # ops) =
     (case enq s x of
        None \<Rightarrow> let (s', out) = fifo_run enq deq s ops in (s', Stored False # out)
      | Some s1 \<Rightarrow> let (s', out) = fifo_run enq deq s1 ops in (s', Stored True # out))"
| "fifo_run enq deq s (Get # ops) =
     (case deq s of
        None \<Rightarrow> let (s', out) = fifo_run enq deq s ops in (s', Got None # out)
      | Some (s1, x) \<Rightarrow> let (s', out) = fifo_run enq deq s1 ops in (s', Got (Some x) # out))"

text \<open>The specification: a list with at most \<open>n\<close> elements.\<close>

definition list_enq :: "nat \<Rightarrow> 'a list \<Rightarrow> 'a \<Rightarrow> 'a list option" where
  "list_enq n xs x = (if length xs < n then Some (xs @ [x]) else None)"

lemma list_enq_room: "length xs < n \<Longrightarrow> list_enq n xs x = Some (xs @ [x])"
  and list_enq_full: "\<not> length xs < n \<Longrightarrow> list_enq n xs x = None"
  by (simp_all add: list_enq_def)

fun list_deq :: "'a list \<Rightarrow> ('a list \<times> 'a) option" where
  "list_deq [] = None"
| "list_deq (x # xs) = Some (xs, x)"

text \<open>\<open>msg\<close> says which elements can be stored (the messages of the right length, say).\<close>

locale bounded_fifo =
  fixes msg :: "'a \<Rightarrow> bool"
    and inv :: "'s \<Rightarrow> bool"
    and cap :: "'s \<Rightarrow> nat"
    and data :: "'s \<Rightarrow> 'a list"
    and enq :: "'s \<Rightarrow> 'a \<Rightarrow> 's option"
    and deq :: "'s \<Rightarrow> ('s \<times> 'a) option"
  assumes data_bound: "inv s \<Longrightarrow> length (data s) \<le> cap s"
    and enq_room: "inv s \<Longrightarrow> msg x \<Longrightarrow> length (data s) < cap s \<Longrightarrow>
      \<exists>s'. enq s x = Some s' \<and> inv s' \<and> cap s' = cap s \<and> data s' = data s @ [x]"
    and enq_full: "inv s \<Longrightarrow> length (data s) = cap s \<Longrightarrow> enq s x = None"
    and deq_first: "inv s \<Longrightarrow> data s = x # xs \<Longrightarrow>
      \<exists>s'. deq s = Some (s', x) \<and> inv s' \<and> cap s' = cap s \<and> data s' = xs"
    and deq_empty: "inv s \<Longrightarrow> data s = [] \<Longrightarrow> deq s = None"
begin

text \<open>Every run is a run of the specification.\<close>

lemma run_refines:
  "inv s \<Longrightarrow> (\<And>x. Put x \<in> set ops \<Longrightarrow> msg x) \<Longrightarrow> fifo_run enq deq s ops = (s', out) \<Longrightarrow>
   inv s' \<and> cap s' = cap s \<and> fifo_run (list_enq (cap s)) list_deq (data s) ops = (data s', out)"
proof (induction ops arbitrary: s out)
  case Nil
  then show ?case by simp
next
  case (Cons a ops)
  have ops: "\<And>x. Put x \<in> set ops \<Longrightarrow> msg x" using Cons.prems(2) by simp
  show ?case
  proof (cases a)
    case (Put x)
    then have "msg x" using Cons.prems(2) by simp
    show ?thesis
    proof (cases "length (data s) < cap s")
      case True
      then obtain s1 where "enq s x = Some s1" "inv s1" "cap s1 = cap s" "data s1 = data s @ [x]"
        using enq_room [OF Cons.prems(1) \<open>msg x\<close>] by blast
      then show ?thesis
        using Cons.IH [of s1, OF _ ops] Cons.prems(3) Put True by (auto simp: list_enq_room split: prod.splits)
    next
      case False
      then have "enq s x = None"
        using enq_full Cons.prems(1) data_bound [OF Cons.prems(1)] by simp
      then show ?thesis
        using Cons.IH [of s, OF _ ops] Cons.prems(1,3) Put False by (auto simp: list_enq_full split: prod.splits)
    qed
  next
    case Get
    show ?thesis
    proof (cases "data s")
      case Nil
      then show ?thesis
        using Cons.IH [of s, OF _ ops] Cons.prems(1,3) Get deq_empty Nil by (auto split: prod.splits)
    next
      case (Cons x xs)
      then obtain s1 where "deq s = Some (s1, x)" "inv s1" "cap s1 = cap s" "data s1 = xs"
        using deq_first Cons.prems(1) by blast
      then show ?thesis
        using Cons Cons.IH [of s1, OF _ ops] Cons.prems(3) Get by (auto split: prod.splits)
    qed
  qed
qed

text \<open>What is put while there is room comes out again, in order, after what was there.\<close>

lemma put_all:
  "inv s \<Longrightarrow> list_all msg xs \<Longrightarrow> length (data s) + length xs \<le> cap s \<Longrightarrow>
   \<exists>s'. fifo_run enq deq s (map Put xs) = (s', replicate (length xs) (Stored True)) \<and>
        inv s' \<and> cap s' = cap s \<and> data s' = data s @ xs"
proof (induction xs arbitrary: s)
  case Nil
  then show ?case by simp
next
  case (Cons x xs)
  then obtain s1 where "enq s x = Some s1" "inv s1" "cap s1 = cap s" "data s1 = data s @ [x]"
    using enq_room [of s x] by auto
  then show ?case
    using Cons.IH [of s1] Cons.prems by auto
qed

lemma get_all:
  "inv s \<Longrightarrow> data s = xs \<Longrightarrow>
   \<exists>s'. fifo_run enq deq s (replicate (length xs) Get) = (s', map (Got \<circ> Some) xs) \<and>
        inv s' \<and> cap s' = cap s \<and> data s' = []"
proof (induction xs arbitrary: s)
  case Nil
  then show ?case by simp
next
  case (Cons x xs)
  then obtain s1 where "deq s = Some (s1, x)" "inv s1" "cap s1 = cap s" "data s1 = xs"
    using deq_first by blast
  then show ?case
    using Cons.IH [of s1] Cons.prems by auto
qed

end

end
