(* ===== verification/RTT_Alloc.thy ===== *)
theory RTT_Alloc
  imports RTT_Prelude
begin

text \<open>
  The interface of an allocator: a client asks for blocks, with a request the allocator understands
  (the number of bytes; nothing for a pool of equal blocks), and gives back blocks it holds. The run
  records the blocks the client has been handed and not given back; if no block is ever handed out
  twice, the record has no duplicates. \<open>RTT_MemPool\<close> and \<open>RTT_MemHeap\<close> interpret the locale on the
  operations of the code.
\<close>

datatype ('r, 'b) alloc_op = Take 'r | Give 'b

fun alloc_run ::
  "('r \<Rightarrow> 's \<Rightarrow> ('b \<times> 's) option) \<Rightarrow> ('b \<Rightarrow> 's \<Rightarrow> 's option) \<Rightarrow> 's \<Rightarrow> 'b list \<Rightarrow> ('r, 'b) alloc_op list \<Rightarrow>
   ('s \<times> 'b list) option"
where
  "alloc_run alloc free s given [] = Some (s, given)"
| "alloc_run alloc free s given (Take r # ops) =
     (case alloc r s of
        None \<Rightarrow> alloc_run alloc free s given ops
      | Some (b, s) \<Rightarrow> alloc_run alloc free s (b # given) ops)"
| "alloc_run alloc free s given (Give b # ops) =
     (if b \<in> set given
      then (case free b s of None \<Rightarrow> None | Some s \<Rightarrow> alloc_run alloc free s (remove1 b given) ops)
      else alloc_run alloc free s given ops)"

text \<open>\<open>alloc\<close> answers \<open>None\<close> when it has no block; \<open>free\<close> faults on a block nobody holds.\<close>

locale allocator =
  fixes inv :: "'s \<Rightarrow> bool"
    and held :: "'s \<Rightarrow> 'b set"
    and alloc :: "'r \<Rightarrow> 's \<Rightarrow> ('b \<times> 's) option"
    and free :: "'b \<Rightarrow> 's \<Rightarrow> 's option"
  assumes alloc_fresh: "inv s \<Longrightarrow> alloc r s = Some (b, s') \<Longrightarrow> inv s' \<and> b \<notin> held s \<and> held s' = insert b (held s)"
    and free_held: "inv s \<Longrightarrow> b \<in> held s \<Longrightarrow> \<exists>s'. free b s = Some s' \<and> inv s' \<and> held s' = held s - {b}"
begin

text \<open>A run does not fault, hands no block to two clients, and the allocator's own idea of what is
  held is the record.\<close>

lemma run_sound:
  "inv s \<Longrightarrow> distinct given \<Longrightarrow> set given = held s \<Longrightarrow>
   \<exists>s' given'. alloc_run alloc free s given ops = Some (s', given') \<and> inv s' \<and> distinct given' \<and>
     set given' = held s'"
proof (induction ops arbitrary: s given)
  case (Cons a ops)
  show ?case
  proof (cases a)
    case (Take r)
    show ?thesis
    proof (cases "alloc r s")
      case (Some x)
      then obtain b s1 where "alloc r s = Some (b, s1)" by (cases x) auto
      then show ?thesis using Cons.IH [of s1 "b # given"] Cons.prems alloc_fresh Take by auto
    qed (use Cons Take in auto)
  next
    case (Give b)
    show ?thesis
    proof (cases "b \<in> set given")
      case True
      then obtain s1 where "free b s = Some s1" "inv s1" "held s1 = held s - {b}"
        using free_held [of s b] Cons.prems by auto
      then show ?thesis using Cons.IH [of s1 "remove1 b given"] Cons.prems Give True by auto
    qed (use Cons Give in auto)
  qed
qed simp

end

end
