(* ===== verification/RTT_Ring.thy ===== *)
theory RTT_Ring
  imports RTT_Prelude RTT_Fifo
begin

text \<open>
  The byte ring buffer of \<open>components/drivers/src/ringbuffer.c\<close>. Indices are 15-bit fields, each
  with a one-bit mirror; \<open>buffer_size\<close> is a signed 16-bit field. \<open>buffer_ptr\<close> is the memory the
  pool pointer leads to. The abstraction \<open>rb_data\<close> is the byte sequence in the buffer; the lemmas
  show every operation as an operation on that sequence, and where \<open>rt_ringbuffer_put_force\<close>
  fails to be one.
\<close>

section \<open>State and operations\<close>

record rt_ringbuffer =
  buffer_ptr :: "u8 list"
  read_mirror :: "1 word"
  read_index :: "15 word"
  write_mirror :: "1 word"
  write_index :: "15 word"
  buffer_size :: "16 word"

datatype rt_ringbuffer_state =
  RT_RINGBUFFER_EMPTY | RT_RINGBUFFER_FULL | RT_RINGBUFFER_HALFFULL

definition rt_ringbuffer_status :: "rt_ringbuffer \<Rightarrow> rt_ringbuffer_state" where
  "rt_ringbuffer_status rb =
     (if read_index rb = write_index rb
      then (if read_mirror rb = write_mirror rb then RT_RINGBUFFER_EMPTY else RT_RINGBUFFER_FULL)
      else RT_RINGBUFFER_HALFFULL)"

definition rt_ringbuffer_init :: "rt_ringbuffer \<Rightarrow> u8 list \<Rightarrow> 16 word \<Rightarrow> rt_ringbuffer option" where
  "rt_ringbuffer_init rb pool sz = do {
     rt_assert (sint sz > 0);
     Some (rb\<lparr>read_mirror := 0, read_index := 0, write_mirror := 0, write_index := 0,
              buffer_ptr := pool, buffer_size := RT_ALIGN_DOWN sz 4\<rparr>)
   }"

definition rt_ringbuffer_reset :: "rt_ringbuffer \<Rightarrow> rt_ringbuffer" where
  "rt_ringbuffer_reset rb =
     rb\<lparr>read_mirror := 0, read_index := 0, write_mirror := 0, write_index := 0\<rparr>"

definition rt_ringbuffer_data_len :: "rt_ringbuffer \<Rightarrow> u32" where
  "rt_ringbuffer_data_len rb =
     (case rt_ringbuffer_status rb of
        RT_RINGBUFFER_EMPTY \<Rightarrow> 0
      | RT_RINGBUFFER_FULL \<Rightarrow> word_of_int (sint (buffer_size rb))
      | RT_RINGBUFFER_HALFFULL \<Rightarrow>
          (if write_index rb > read_index rb
           then word_of_int (uint (write_index rb) - uint (read_index rb))
           else word_of_int (sint (buffer_size rb) -
                  (uint (read_index rb) - uint (write_index rb)))))"

definition rt_ringbuffer_space_len :: "rt_ringbuffer \<Rightarrow> u32" where
  "rt_ringbuffer_space_len rb = word_of_int (sint (buffer_size rb)) - rt_ringbuffer_data_len rb"

definition rt_ringbuffer_get_size :: "rt_ringbuffer \<Rightarrow> u16" where
  "rt_ringbuffer_get_size rb = buffer_size rb"

definition rt_ringbuffer_put :: "rt_ringbuffer \<Rightarrow> u8 list \<Rightarrow> u16 \<Rightarrow> (rt_ringbuffer \<times> u32) option" where
  "rt_ringbuffer_put rb src len =
     (let space = ucast (rt_ringbuffer_space_len rb) :: u16 in
      if space = 0 then Some (rb, 0)
      else
        let len = (if space < len then space else len);
            tail = sint (buffer_size rb) - uint (write_index rb) in
        if tail > uint len
        then do {
          buf \<leftarrow> memcpy (buffer_ptr rb) (unat (write_index rb)) src 0 (uint len);
          Some (rb\<lparr>buffer_ptr := buf, write_index := write_index rb + ucast len\<rparr>, ucast len)
        }
        else do {
          buf \<leftarrow> memcpy (buffer_ptr rb) (unat (write_index rb)) src 0 tail;
          buf \<leftarrow> memcpy buf 0 src (nat tail) (uint len - tail);
          Some (rb\<lparr>buffer_ptr := buf, write_mirror := NOT (write_mirror rb),
                   write_index := word_of_int (uint len - tail)\<rparr>, ucast len)
        })"

definition rt_ringbuffer_put_force ::
  "rt_ringbuffer \<Rightarrow> u8 list \<Rightarrow> u16 \<Rightarrow> (rt_ringbuffer \<times> u32) option" where
  "rt_ringbuffer_put_force rb src len =
     (let space = ucast (rt_ringbuffer_space_len rb) :: u16;
          over = uint len > sint (buffer_size rb);
          src = (if over then drop (nat (uint len - sint (buffer_size rb))) src else src);
          len' = (if over then buffer_size rb else len);
          tail = sint (buffer_size rb) - uint (write_index rb) in
      if tail > uint len'
      then do {
        buf \<leftarrow> memcpy (buffer_ptr rb) (unat (write_index rb)) src 0 (uint len');
        let rb' = rb\<lparr>buffer_ptr := buf, write_index := write_index rb + ucast len'\<rparr>;
        Some (if len' > space then rb'\<lparr>read_index := write_index rb'\<rparr> else rb', ucast len')
      }
      else do {
        buf \<leftarrow> memcpy (buffer_ptr rb) (unat (write_index rb)) src 0 tail;
        buf \<leftarrow> memcpy buf 0 src (nat tail) (uint len' - tail);
        let rb' = rb\<lparr>buffer_ptr := buf, write_mirror := NOT (write_mirror rb),
                     write_index := word_of_int (uint len' - tail)\<rparr>;
        Some (if len' > space
              then rb'\<lparr>read_mirror := NOT (read_mirror rb'), read_index := write_index rb'\<rparr>
              else rb', ucast len')
      })"

definition rt_ringbuffer_get ::
  "rt_ringbuffer \<Rightarrow> u8 list \<Rightarrow> u16 \<Rightarrow> (rt_ringbuffer \<times> u8 list \<times> u32) option" where
  "rt_ringbuffer_get rb dst len =
     (let avail = rt_ringbuffer_data_len rb in
      if avail = 0 then Some (rb, dst, 0)
      else
        let len = (if avail < ucast len then ucast avail else len);
            tail = sint (buffer_size rb) - uint (read_index rb) in
        if tail > uint len
        then do {
          dst \<leftarrow> memcpy dst 0 (buffer_ptr rb) (unat (read_index rb)) (uint len);
          Some (rb\<lparr>read_index := read_index rb + ucast len\<rparr>, dst, ucast len)
        }
        else do {
          dst \<leftarrow> memcpy dst 0 (buffer_ptr rb) (unat (read_index rb)) tail;
          dst \<leftarrow> memcpy dst (nat tail) (buffer_ptr rb) 0 (uint len - tail);
          Some (rb\<lparr>read_mirror := NOT (read_mirror rb),
                   read_index := word_of_int (uint len - tail)\<rparr>, dst, ucast len)
        })"

text \<open>A store of one byte: \<open>None\<close> outside the pool.\<close>

definition store_byte :: "u8 list \<Rightarrow> nat \<Rightarrow> u8 \<Rightarrow> u8 list option" where
  "store_byte buf i ch = (if i < length buf then Some (buf[i := ch]) else None)"

definition load_byte :: "u8 list \<Rightarrow> nat \<Rightarrow> u8 option" where
  "load_byte buf i = (if i < length buf then Some (buf ! i) else None)"

definition rt_ringbuffer_putchar :: "rt_ringbuffer \<Rightarrow> u8 \<Rightarrow> (rt_ringbuffer \<times> u32) option" where
  "rt_ringbuffer_putchar rb ch =
     (if rt_ringbuffer_space_len rb = 0 then Some (rb, 0)
      else do {
        buf \<leftarrow> store_byte (buffer_ptr rb) (unat (write_index rb)) ch;
        let rb = rb\<lparr>buffer_ptr := buf\<rparr>;
        Some (if uint (write_index rb) = sint (buffer_size rb) - 1
              then rb\<lparr>write_mirror := NOT (write_mirror rb), write_index := 0\<rparr>
              else rb\<lparr>write_index := write_index rb + 1\<rparr>, 1)
      })"

definition rt_ringbuffer_putchar_force :: "rt_ringbuffer \<Rightarrow> u8 \<Rightarrow> (rt_ringbuffer \<times> u32) option" where
  "rt_ringbuffer_putchar_force rb ch =
     (let old_state = rt_ringbuffer_status rb in do {
        buf \<leftarrow> store_byte (buffer_ptr rb) (unat (write_index rb)) ch;
        let rb = rb\<lparr>buffer_ptr := buf\<rparr>;
        Some (if uint (write_index rb) = sint (buffer_size rb) - 1
              then let rb = rb\<lparr>write_mirror := NOT (write_mirror rb), write_index := 0\<rparr> in
                   if old_state = RT_RINGBUFFER_FULL
                   then rb\<lparr>read_mirror := NOT (read_mirror rb), read_index := write_index rb\<rparr>
                   else rb
              else let rb = rb\<lparr>write_index := write_index rb + 1\<rparr> in
                   if old_state = RT_RINGBUFFER_FULL
                   then rb\<lparr>read_index := write_index rb\<rparr> else rb, 1)
      })"

text \<open>\<open>rt_ringbuffer_getchar\<close>: the byte is \<open>None\<close> when nothing is stored through \<open>ch\<close>.\<close>

definition rt_ringbuffer_getchar ::
  "rt_ringbuffer \<Rightarrow> (rt_ringbuffer \<times> u8 option \<times> u32) option" where
  "rt_ringbuffer_getchar rb =
     (if rt_ringbuffer_data_len rb = 0 then Some (rb, None, 0)
      else do {
        ch \<leftarrow> load_byte (buffer_ptr rb) (unat (read_index rb));
        Some (if uint (read_index rb) = sint (buffer_size rb) - 1
              then rb\<lparr>read_mirror := NOT (read_mirror rb), read_index := 0\<rparr>
              else rb\<lparr>read_index := read_index rb + 1\<rparr>, Some ch, 1)
      })"


section \<open>Well-formed buffers and the bytes they hold\<close>

definition rb_cap :: "rt_ringbuffer \<Rightarrow> nat" where
  "rb_cap rb = nat (sint (buffer_size rb))"

text \<open>The write index is never behind the read index in the same mirror, and never ahead of it
  in the other one.\<close>

definition rb_wf :: "rt_ringbuffer \<Rightarrow> bool" where
  "rb_wf rb \<longleftrightarrow>
     0 < rb_cap rb \<and> rb_cap rb \<le> length (buffer_ptr rb) \<and>
     unat (read_index rb) < rb_cap rb \<and> unat (write_index rb) < rb_cap rb \<and>
     (if read_mirror rb = write_mirror rb then unat (read_index rb) \<le> unat (write_index rb)
      else unat (write_index rb) \<le> unat (read_index rb))"

definition rb_count :: "rt_ringbuffer \<Rightarrow> nat" where
  "rb_count rb =
     (if read_mirror rb = write_mirror rb then unat (write_index rb) - unat (read_index rb)
      else rb_cap rb - (unat (read_index rb) - unat (write_index rb)))"

definition rb_data :: "rt_ringbuffer \<Rightarrow> u8 list" where
  "rb_data rb = ring_seq (buffer_ptr rb) (rb_cap rb) (unat (read_index rb)) (rb_count rb)"

lemma length_rb_data [simp]: "length (rb_data rb) = rb_count rb"
  by (simp add: rb_data_def)

lemma sint_size [simp]: "rb_wf rb \<Longrightarrow> sint (buffer_size rb) = int (rb_cap rb)"
  by (simp add: rb_wf_def rb_cap_def)

lemma rb_cap_bound: "rb_cap rb < 32768"
proof -
  have "sint (buffer_size rb) < 2 ^ 15"
    using sint_lt [of "buffer_size rb"] by simp
  then show ?thesis by (simp add: rb_cap_def)
qed

lemma rb_wfD:
  assumes "rb_wf rb"
  shows "0 < rb_cap rb" and "rb_cap rb \<le> length (buffer_ptr rb)"
    and "unat (read_index rb) < rb_cap rb" and "unat (write_index rb) < rb_cap rb"
    and "rb_count rb \<le> rb_cap rb"
    and "(unat (read_index rb) + rb_count rb) mod rb_cap rb = unat (write_index rb)"
proof -
  show "(unat (read_index rb) + rb_count rb) mod rb_cap rb = unat (write_index rb)"
  proof (cases "read_mirror rb = write_mirror rb")
    case False
    then have "unat (read_index rb) + rb_count rb = unat (write_index rb) + rb_cap rb"
      using assms by (auto simp: rb_wf_def rb_count_def)
    then show ?thesis using assms by (simp add: rb_wf_def)
  qed (use assms in \<open>auto simp: rb_wf_def rb_count_def\<close>)
qed (use assms in \<open>auto simp: rb_wf_def rb_count_def\<close>)

lemma data_len_count:
  assumes "rb_wf rb"
  shows "rt_ringbuffer_data_len rb = word_of_nat (rb_count rb)"
proof (cases "read_index rb = write_index rb")
  case True
  with assms sint_size [OF assms] show ?thesis
    by (simp add: rt_ringbuffer_data_len_def rt_ringbuffer_status_def rb_count_def)
next
  case False
  then have half: "rt_ringbuffer_status rb = RT_RINGBUFFER_HALFFULL"
    by (simp add: rt_ringbuffer_status_def)
  have ne: "unat (read_index rb) \<noteq> unat (write_index rb)"
    using False by (simp add: word_unat_eq_iff)
  show ?thesis
  proof (cases "read_mirror rb = write_mirror rb")
    case True
    with assms ne have "unat (read_index rb) < unat (write_index rb)"
      by (simp add: rb_wf_def)
    moreover from this have "uint (write_index rb) - uint (read_index rb) = int (rb_count rb)"
      using True by (simp add: rb_count_def of_nat_diff)
    ultimately show ?thesis
      by (simp add: rt_ringbuffer_data_len_def half word_less_nat_alt)
  next
    case other: False
    with assms ne have "unat (write_index rb) < unat (read_index rb)"
      by (simp add: rb_wf_def)
    moreover from this have
      "sint (buffer_size rb) - (uint (read_index rb) - uint (write_index rb)) = int (rb_count rb)"
      using other assms sint_size [OF assms] by (simp add: rb_count_def of_nat_diff rb_wf_def)
    ultimately show ?thesis
      by (simp add: rt_ringbuffer_data_len_def half word_less_nat_alt)
  qed
qed

lemma unat_data_len: "rb_wf rb \<Longrightarrow> unat (rt_ringbuffer_data_len rb) = rb_count rb"
  using rb_cap_bound [of rb] rb_wfD(5) [of rb] by (simp add: data_len_count unat_word_of_nat)

lemma unat_space_len: "rb_wf rb \<Longrightarrow> unat (rt_ringbuffer_space_len rb) = rb_cap rb - rb_count rb"
  using rb_cap_bound [of rb] rb_wfD(5) [of rb]
  by (simp add: rt_ringbuffer_space_len_def data_len_count unat_word_of_nat flip: of_nat_diff)


section \<open>Writing and reading through the wrap\<close>

text \<open>The bytes \<open>xs\<close> written into the ring at index \<open>w\<close>, as a function of the old pool.\<close>

definition ring_written :: "'a list \<Rightarrow> 'a list \<Rightarrow> nat \<Rightarrow> nat \<Rightarrow> 'a list \<Rightarrow> bool" where
  "ring_written buf' buf N w xs \<longleftrightarrow>
     (\<forall>j < N. buf' ! j = (if (j + N - w) mod N < length xs then xs ! ((j + N - w) mod N)
                          else buf ! j))"

lemma ring_offset:
  fixes w :: nat
  assumes "w < N" and "j < N"
  shows "(j + N - w) mod N = (if w \<le> j then j - w else j + N - w)"
proof (cases "w \<le> j")
  case True
  then have "j + N - w = (j - w) + N" by simp
  then have "(j + N - w) mod N = (j - w) mod N" by simp
  also have "\<dots> = j - w" using assms by simp
  finally show ?thesis using True by simp
qed (use assms in simp)

lemma ring_position:
  "r < N \<Longrightarrow> i \<le> N \<Longrightarrow> (r + i) mod N = (if r + i < N then r + i else r + i - N)" for r :: nat
  by (auto simp: mod_if)

lemma ring_distance:
  fixes r :: nat
  assumes "r < N" and "i < N" and "c \<le> N"
  shows "((r + i) mod N + N - (r + c) mod N) mod N = (if c \<le> i then i - c else i + N - c)"
proof -
  have "(r + i) mod N < N" and "(r + c) mod N < N" using assms by simp_all
  then show ?thesis
    using assms ring_position [of r N i] ring_position [of r N c]
    by (simp only: ring_offset) (auto split: if_splits)
qed

lemma ring_put:
  assumes r: "r < N" and fits: "c + length xs \<le> N" and w: "w = (r + c) mod N"
    and written: "ring_written buf' buf N w xs"
  shows "ring_seq buf' N r (c + length xs) = ring_seq buf N r c @ xs"
proof (rule ring_seq_append)
  have "w < N" using assms by simp
  fix i
  assume "i < c"
  then have "((r + i) mod N + N - w) mod N = i + N - c"
    using assms(1,2) by (simp add: w ring_distance)
  moreover have "\<not> i + N - c < length xs"
    using fits \<open>i < c\<close> by simp
  ultimately show "buf' ! ((r + i) mod N) = buf ! ((r + i) mod N)"
    using written r by (simp add: ring_written_def)
next
  fix j
  assume "j < length xs"
  then have "((r + (c + j)) mod N + N - w) mod N = j"
    using assms(1,2) by (simp add: w ring_distance)
  then show "buf' ! ((r + (c + j)) mod N) = xs ! j"
    using written assms(1) \<open>j < length xs\<close> by (simp add: ring_written_def)
qed

lemma written_straight:
  assumes "w < N" and "N \<le> length buf" and "n \<le> length src" and "w + n < N"
  shows "\<exists>buf'. memcpy buf w src 0 (int n) = Some buf' \<and> length buf' = length buf \<and>
           ring_written buf' buf N w (take n src)"
proof -
  obtain buf' where buf': "memcpy buf w src 0 (int n) = Some buf'"
    using assms by simp
  have "buf' ! j = (if (j + N - w) mod N < n then src ! ((j + N - w) mod N) else buf ! j)"
    if "j < N" for j
    using assms that memcpy_nth [OF buf', of j] by (auto simp: ring_offset)
  then have "ring_written buf' buf N w (take n src)"
    using assms by (simp add: ring_written_def)
  with buf' memcpy_length [OF buf'] show ?thesis by blast
qed

lemma written_wrapped:
  assumes "w < N" and "N \<le> length buf" and "n \<le> length src" and "N \<le> w + n" and "n \<le> N"
  shows "\<exists>buf1 buf'. memcpy buf w src 0 (int (N - w)) = Some buf1 \<and>
           memcpy buf1 0 src (N - w) (int (n - (N - w))) = Some buf' \<and>
           length buf' = length buf \<and> ring_written buf' buf N w (take n src)"
proof -
  obtain buf1 where buf1: "memcpy buf w src 0 (int (N - w)) = Some buf1"
    using assms memcpy_Some [of w "N - w" buf 0 src] by auto
  have len1: "length buf1 = length buf"
    using memcpy_length [OF buf1] .
  obtain buf' where buf': "memcpy buf1 0 src (N - w) (int (n - (N - w))) = Some buf'"
    using assms len1 memcpy_Some [of 0 "n - (N - w)" buf1 "N - w" src] by auto
  have "buf' ! j = (if (j + N - w) mod N < n then src ! ((j + N - w) mod N) else buf ! j)"
    if "j < N" for j
  proof -
    have "N - w + j = j + N - w" using assms(1) by simp
    then have "buf' ! j = (if j < n - (N - w) then src ! (j + N - w) else buf1 ! j)"
      using memcpy_nth [OF buf', of j] assms(2) len1 that by (simp only: nat_int) auto
    moreover have "buf1 ! j = (if w \<le> j then src ! (j - w) else buf ! j)"
      using memcpy_nth [OF buf1, of j] assms(1,2) that by (simp only: nat_int) auto
    ultimately show ?thesis
      using assms that by (simp add: ring_offset) arith
  qed
  then have "ring_written buf' buf N w (take n src)"
    using assms by (simp add: ring_written_def)
  with buf1 buf' memcpy_length [OF buf'] len1 show ?thesis by auto
qed

lemma index_add:
  "unat i + unat n < 32768 \<Longrightarrow> unat (i + ucast n :: 15 word) = unat i + unat n" for n :: u16
  by (simp add: unat_word_ariths unsigned_ucast_eq take_bit_nat_eq_self)


text \<open>Flipping a mirror bit.\<close>

lemma mirror_cases: "m = 0 \<or> m = 1" for m :: "1 word"
proof -
  have "unat m < 2" using unsigned_less [of m] by simp
  then have "unat m = unat (0 :: 1 word) \<or> unat m = unat (1 :: 1 word)" by auto
  then show ?thesis by (simp only: word_unat_eq_iff)
qed

lemma not_mirror [simp]: "NOT m = m' \<longleftrightarrow> m \<noteq> m'" for m m' :: "1 word"
  using mirror_cases [of m] mirror_cases [of m'] by auto

lemma mirror_not [simp]: "m' = NOT m \<longleftrightarrow> m \<noteq> m'" for m m' :: "1 word"
  using mirror_cases [of m] mirror_cases [of m'] by auto

lemma write_straight_wf:
  assumes "rb_wf rb" and "rb_count rb + n \<le> rb_cap rb" and "unat (write_index rb) + n < rb_cap rb"
    and "unat wi = unat (write_index rb) + n" and "length buf = length (buffer_ptr rb)"
    and "rb' = rb\<lparr>buffer_ptr := buf, write_index := wi\<rparr>"
  shows "rb_wf rb' \<and> rb_count rb' = rb_count rb + n \<and> rb_cap rb' = rb_cap rb"
proof -
  have cap: "rb_cap rb' = rb_cap rb" by (simp add: assms(6) rb_cap_def)
  show ?thesis
  proof (cases "read_mirror rb = write_mirror rb")
    case True
    with assms show ?thesis by (simp add: rb_wf_def rb_count_def cap [unfolded assms(6)])
  next
    case False
    with assms show ?thesis by (simp add: rb_wf_def rb_count_def cap [unfolded assms(6)]; arith)
  qed
qed

lemma write_wrapped_wf:
  assumes "rb_wf rb" and "rb_count rb + n \<le> rb_cap rb" and "rb_cap rb \<le> unat (write_index rb) + n"
    and "unat wi = unat (write_index rb) + n - rb_cap rb" and "length buf = length (buffer_ptr rb)"
    and "rb' = rb\<lparr>buffer_ptr := buf, write_mirror := NOT (write_mirror rb), write_index := wi\<rparr>"
  shows "rb_wf rb' \<and> rb_count rb' = rb_count rb + n \<and> rb_cap rb' = rb_cap rb"
proof -
  have cap: "rb_cap rb' = rb_cap rb" by (simp add: assms(6) rb_cap_def)
  have r: "unat (read_index rb) < rb_cap rb" and w: "unat (write_index rb) < rb_cap rb"
    using rb_wfD [OF assms(1)] by auto
  show ?thesis
  proof (cases "read_mirror rb = write_mirror rb")
    case True
    with assms r w show ?thesis by (simp add: rb_wf_def rb_count_def cap [unfolded assms(6)]; arith)
  next
    case False
    with assms r w show ?thesis by (simp add: rb_wf_def rb_count_def cap [unfolded assms(6)])
  qed
qed

lemma rb_data_written:
  assumes "rb_wf rb" and "rb_count rb + length xs \<le> rb_cap rb"
    and "ring_written (buffer_ptr rb') (buffer_ptr rb) (rb_cap rb) (unat (write_index rb)) xs"
    and "rb_count rb' = rb_count rb + length xs" and "rb_cap rb' = rb_cap rb"
    and "read_index rb' = read_index rb"
  shows "rb_data rb' = rb_data rb @ xs"
  using ring_put [OF _ assms(2) _ assms(3)] rb_wfD(3,6) [OF assms(1)] assms(4-6)
  by (simp add: rb_data_def)

lemma unat_index_of_int:
  "0 \<le> k \<Longrightarrow> k < 32768 \<Longrightarrow> unat (word_of_int k :: 15 word) = nat k"
  by (simp add: unat_eq_nat_uint uint_word_of_int_eq take_bit_int_eq_self)

lemma unat_space16: "rb_wf rb \<Longrightarrow>
   unat (ucast (rt_ringbuffer_space_len rb) :: u16) = rb_cap rb - rb_count rb"
  using unat_space_len [of rb] rb_cap_bound [of rb]
  by (simp add: unsigned_ucast_eq take_bit_nat_eq_self)

text \<open>\<open>rt_ringbuffer_put\<close> on a well-formed buffer never faults, keeps it well formed, and
  appends the longest prefix of the source that fits; the return value is its length.\<close>

theorem rt_ringbuffer_put_appends:
  assumes wf: "rb_wf rb" and src: "unat len \<le> length src"
  shows "\<exists>rb'. rt_ringbuffer_put rb src len =
            Some (rb', word_of_nat (min (unat len) (rb_cap rb - rb_count rb))) \<and>
          rb_wf rb' \<and> rb_cap rb' = rb_cap rb \<and>
          rb_data rb' = rb_data rb @ take (min (unat len) (rb_cap rb - rb_count rb)) src"
proof -
  define n where "n = min (unat len) (rb_cap rb - rb_count rb)"
  define L where "L = (if ucast (rt_ringbuffer_space_len rb) < len
      then ucast (rt_ringbuffer_space_len rb) else len)"
  have L: "unat L = n"
    using unat_space16 [OF wf] by (simp add: L_def n_def word_less_nat_alt min_def)
  have uL: "uint L = int n" by (simp flip: L)
  have N: "rb_cap rb < 32768" "rb_count rb \<le> rb_cap rb" "unat (write_index rb) < rb_cap rb"
    using rb_cap_bound rb_wfD [OF wf] by auto
  have n: "rb_count rb + n \<le> rb_cap rb" "n \<le> length src" "n \<le> rb_cap rb"
    using src N by (auto simp: n_def)
  define t where "t = rb_cap rb - unat (write_index rb)"
  have tail: "sint (buffer_size rb) - uint (write_index rb) = int t"
    using N wf by (simp add: t_def of_nat_diff)
  show ?thesis
  proof (cases "ucast (rt_ringbuffer_space_len rb) = (0 :: u16)")
    case True
    then have "n = 0" using unat_space16 [OF wf] by (simp add: n_def)
    with True wf show ?thesis by (simp add: rt_ringbuffer_put_def flip: n_def)
  next
    case space: False
    show ?thesis
    proof (cases "unat (write_index rb) + n < rb_cap rb")
      case True
      obtain buf where buf: "memcpy (buffer_ptr rb) (unat (write_index rb)) src 0 (int n) = Some buf"
        "length buf = length (buffer_ptr rb)"
        "ring_written buf (buffer_ptr rb) (rb_cap rb) (unat (write_index rb)) (take n src)"
        using written_straight [OF N(3) rb_wfD(2) [OF wf] n(2) True] by blast
      let ?rb' = "rb\<lparr>buffer_ptr := buf, write_index := write_index rb + ucast L\<rparr>"
      have lt: "n < t" using True by (simp add: t_def)
      have put: "rt_ringbuffer_put rb src len = Some (?rb', ucast L)"
        unfolding rt_ringbuffer_put_def Let_def L_def [symmetric] tail uL
        using space lt buf(1) by simp
      have wf': "rb_wf ?rb' \<and> rb_count ?rb' = rb_count rb + n \<and> rb_cap ?rb' = rb_cap rb"
        using write_straight_wf [OF wf n(1) True _ buf(2)] index_add [of "write_index rb" L] L True N
        by simp
      moreover have "rb_data ?rb' = rb_data rb @ take n src"
        using wf' buf(3) n by (intro rb_data_written [OF wf]) simp_all
      moreover have "(ucast L :: u32) = word_of_nat n"
        by (simp flip: L)
      ultimately show ?thesis using put by (simp flip: n_def)
    next
      case False
      then have wrap: "rb_cap rb \<le> unat (write_index rb) + n" by simp
      obtain buf1 buf where buf:
        "memcpy (buffer_ptr rb) (unat (write_index rb)) src 0
           (int t) = Some buf1"
        "memcpy buf1 0 src t
           (int (n - t)) = Some buf"
        "length buf = length (buffer_ptr rb)"
        "ring_written buf (buffer_ptr rb) (rb_cap rb) (unat (write_index rb)) (take n src)"
        using written_wrapped [OF N(3) rb_wfD(2) [OF wf] n(2) wrap n(3), folded t_def] by blast
      let ?wi = "word_of_int (int (n - t)) :: 15 word"
      let ?rb' = "rb\<lparr>buffer_ptr := buf, write_mirror := NOT (write_mirror rb), write_index := ?wi\<rparr>"
      have rest: "int n - int t =
          int (n - t)"
        using wrap by (simp add: t_def of_nat_diff)
      have nlt: "\<not> n < t" using False by (simp add: t_def)
      have put: "rt_ringbuffer_put rb src len = Some (?rb', ucast L)"
        unfolding rt_ringbuffer_put_def Let_def L_def [symmetric] tail uL rest
        using space buf(1,2) nlt by (simp del: of_nat_diff)
      have "unat ?wi = unat (write_index rb) + n - rb_cap rb"
        using N n wrap unat_word_of_nat [of "n - t", where 'a = 15]
        by (simp add: t_def del: of_nat_diff)
      then have wf': "rb_wf ?rb' \<and> rb_count ?rb' = rb_count rb + n \<and> rb_cap ?rb' = rb_cap rb"
        by (rule write_wrapped_wf [OF wf n(1) wrap _ buf(3) refl])
      moreover have "rb_data ?rb' = rb_data rb @ take n src"
        using wf' buf(4) n by (intro rb_data_written [OF wf]) simp_all
      moreover have "(ucast L :: u32) = word_of_nat n"
        by (simp flip: L)
      ultimately show ?thesis using put by (simp flip: n_def)
    qed
  qed
qed


text \<open>The same for reading: the bytes at the front of the ring, in one piece or two.\<close>

lemma ring_seq_straight:
  "r + n \<le> N \<Longrightarrow> N \<le> length buf \<Longrightarrow> ring_seq buf N r n = take n (drop r buf)"
  by (rule nth_equalityI) (auto simp: ring_seq_def)

lemma ring_seq_wrapped:
  assumes "r < N" and "N \<le> r + n" and "n \<le> N" and "N \<le> length buf"
  shows "ring_seq buf N r n = take (N - r) (drop r buf) @ take (n - (N - r)) buf"
proof (rule nth_equalityI)
  fix i
  assume "i < length (ring_seq buf N r n)"
  then show "ring_seq buf N r n ! i = (take (N - r) (drop r buf) @ take (n - (N - r)) buf) ! i"
    using assms ring_position [of r N i] by (auto simp: ring_seq_def nth_append algebra_simps)
qed (use assms in auto)

lemma read_straight:
  assumes "r + n \<le> N" and "N \<le> length buf" and "n \<le> length dst"
  shows "\<exists>dst'. memcpy dst 0 buf r (int n) = Some dst' \<and> length dst' = length dst \<and>
           take n dst' = ring_seq buf N r n"
  using assms by (simp add: ring_seq_straight)

lemma read_wrapped:
  assumes "r < N" and "N \<le> r + n" and "n \<le> N" and "N \<le> length buf" and "n \<le> length dst"
  shows "\<exists>dst1 dst'. memcpy dst 0 buf r (int (N - r)) = Some dst1 \<and>
           memcpy dst1 (N - r) buf 0 (int (n - (N - r))) = Some dst' \<and>
           length dst' = length dst \<and> take n dst' = ring_seq buf N r n"
proof -
  have 1: "memcpy dst 0 buf r (int (N - r)) =
      Some (take (N - r) (drop r buf) @ drop (N - r) dst)" (is "_ = Some ?d1")
    using assms memcpy_Some [of 0 "N - r" dst r buf] by (simp del: of_nat_diff)
  have 2: "memcpy ?d1 (N - r) buf 0 (int (n - (N - r))) =
      Some (take (N - r) ?d1 @ take (n - (N - r)) buf @ drop n ?d1)"
    using assms memcpy_Some [of "N - r" "n - (N - r)" ?d1 0 buf] by (simp del: of_nat_diff)
  show ?thesis
    unfolding 1 option.inject ex_simps simp_thms 2 using assms by (simp add: ring_seq_wrapped)
qed

lemma read_straight_wf:
  assumes "rb_wf rb" and "n \<le> rb_count rb" and "unat (read_index rb) + n < rb_cap rb"
    and "unat ri = unat (read_index rb) + n" and "rb' = rb\<lparr>read_index := ri\<rparr>"
  shows "rb_wf rb' \<and> rb_count rb' = rb_count rb - n \<and> rb_cap rb' = rb_cap rb"
proof -
  have cap: "rb_cap rb' = rb_cap rb" by (simp add: assms(5) rb_cap_def)
  show ?thesis
  proof (cases "read_mirror rb = write_mirror rb")
    case True
    with assms show ?thesis by (simp add: rb_wf_def rb_count_def cap [unfolded assms(5)]; arith)
  next
    case False
    with assms show ?thesis by (simp add: rb_wf_def rb_count_def cap [unfolded assms(5)]; arith)
  qed
qed

lemma read_wrapped_wf:
  assumes "rb_wf rb" and "n \<le> rb_count rb" and "rb_cap rb \<le> unat (read_index rb) + n"
    and "unat ri = unat (read_index rb) + n - rb_cap rb"
    and "rb' = rb\<lparr>read_mirror := NOT (read_mirror rb), read_index := ri\<rparr>"
  shows "rb_wf rb' \<and> rb_count rb' = rb_count rb - n \<and> rb_cap rb' = rb_cap rb"
proof -
  have cap: "rb_cap rb' = rb_cap rb" by (simp add: assms(5) rb_cap_def)
  have r: "unat (read_index rb) < rb_cap rb" and w: "unat (write_index rb) < rb_cap rb"
    using rb_wfD [OF assms(1)] by auto
  show ?thesis
  proof (cases "read_mirror rb = write_mirror rb")
    case True
    with assms(1-3) w have False by (simp add: rb_wf_def rb_count_def; arith)
    then show ?thesis ..
  next
    case False
    with assms r w show ?thesis by (simp add: rb_wf_def rb_count_def cap [unfolded assms(5)]; arith)
  qed
qed

lemma rb_data_read:
  assumes "rb_wf rb" and "n \<le> rb_count rb" and "rb_count rb' = rb_count rb - n"
    and "rb_cap rb' = rb_cap rb" and "buffer_ptr rb' = buffer_ptr rb"
    and "unat (read_index rb') = (unat (read_index rb) + n) mod rb_cap rb"
  shows "rb_data rb' = drop n (rb_data rb)"
  using assms by (simp add: rb_data_def drop_ring_seq)


text \<open>\<open>rt_ringbuffer_get\<close> on a well-formed buffer moves the longest prefix of the stored
  bytes that the caller asked for into the destination and removes exactly it.\<close>

theorem rt_ringbuffer_get_takes:
  assumes wf: "rb_wf rb" and dst: "unat len \<le> length dst"
  shows "\<exists>rb' dst'. rt_ringbuffer_get rb dst len =
            Some (rb', dst', word_of_nat (min (unat len) (rb_count rb))) \<and>
          rb_wf rb' \<and> rb_cap rb' = rb_cap rb \<and> length dst' = length dst \<and>
          take (min (unat len) (rb_count rb)) dst' = take (unat len) (rb_data rb) \<and>
          rb_data rb' = drop (unat len) (rb_data rb)"
proof -
  define n where "n = min (unat len) (rb_count rb)"
  define L where "L = (if rt_ringbuffer_data_len rb < ucast len
      then ucast (rt_ringbuffer_data_len rb) else len)"
  have N: "rb_cap rb < 32768" "rb_count rb \<le> rb_cap rb" "unat (read_index rb) < rb_cap rb"
    "rb_cap rb \<le> length (buffer_ptr rb)"
    using rb_cap_bound rb_wfD [OF wf] by auto
  have L: "unat L = n"
    using unat_data_len [OF wf] N unat_ucast_up [of len, where 'b = 32]
    by (simp add: L_def n_def word_less_nat_alt min_def unsigned_ucast_eq take_bit_nat_eq_self)
  have uL: "uint L = int n" by (simp flip: L)
  have cL: "(ucast L :: u32) = word_of_nat n" by (simp flip: L)
  have n: "n \<le> rb_count rb" "n \<le> length dst" "n \<le> rb_cap rb"
    using dst N by (auto simp: n_def)
  have seqs: "take n (rb_data rb) = take (unat len) (rb_data rb)"
    "drop n (rb_data rb) = drop (unat len) (rb_data rb)"
    by (simp_all add: n_def min_def)
  have front: "take n (rb_data rb) = ring_seq (buffer_ptr rb) (rb_cap rb) (unat (read_index rb)) n"
    using n by (simp add: rb_data_def take_ring_seq)
  define t where "t = rb_cap rb - unat (read_index rb)"
  have tail: "sint (buffer_size rb) - uint (read_index rb) = int t"
    using N wf by (simp add: t_def of_nat_diff)
  show ?thesis
  proof (cases "rt_ringbuffer_data_len rb = 0")
    case True
    then have "rb_count rb = 0" using unat_data_len [OF wf] by simp
    moreover from this have "rb_data rb = []" by (simp flip: length_0_conv)
    ultimately show ?thesis using True wf by (simp add: rt_ringbuffer_get_def)
  next
    case avail: False
    show ?thesis
    proof (cases "unat (read_index rb) + n < rb_cap rb")
      case True
      obtain dst' where d: "memcpy dst 0 (buffer_ptr rb) (unat (read_index rb)) (int n) = Some dst'"
        "length dst' = length dst" "take n dst' = take n (rb_data rb)"
        using read_straight [of "unat (read_index rb)" n "rb_cap rb" "buffer_ptr rb" dst]
          True N n by (auto simp: front)
      let ?rb' = "rb\<lparr>read_index := read_index rb + ucast L\<rparr>"
      have lt: "n < t" using True by (simp add: t_def)
      have get: "rt_ringbuffer_get rb dst len = Some (?rb', dst', ucast L)"
        unfolding rt_ringbuffer_get_def Let_def L_def [symmetric] tail uL
        using avail lt d(1) by simp
      have ri: "unat (read_index rb + ucast L) = unat (read_index rb) + n"
        using index_add [of "read_index rb" L] L True N by simp
      note wf' = read_straight_wf [OF wf n(1) True ri refl]
      moreover have "rb_data ?rb' = drop n (rb_data rb)"
        using wf' ri True n by (intro rb_data_read [OF wf]) simp_all
      ultimately show ?thesis using get d cL by (simp add: seqs flip: n_def)
    next
      case False
      then have wrap: "rb_cap rb \<le> unat (read_index rb) + n" by simp
      obtain dst1 dst' where d:
        "memcpy dst 0 (buffer_ptr rb) (unat (read_index rb)) (int t) = Some dst1"
        "memcpy dst1 t (buffer_ptr rb) 0 (int (n - t)) = Some dst'"
        "length dst' = length dst" "take n dst' = take n (rb_data rb)"
        using read_wrapped [OF N(3) wrap n(3) N(4) n(2), folded t_def] by (auto simp: front)
      let ?ri = "word_of_int (int (n - t)) :: 15 word"
      let ?rb' = "rb\<lparr>read_mirror := NOT (read_mirror rb), read_index := ?ri\<rparr>"
      have rest: "int n - int t = int (n - t)"
        using wrap by (simp add: t_def of_nat_diff)
      have nlt: "\<not> n < t" using False by (simp add: t_def)
      have get: "rt_ringbuffer_get rb dst len = Some (?rb', dst', ucast L)"
        unfolding rt_ringbuffer_get_def Let_def L_def [symmetric] tail uL rest
        using avail d(1,2) nlt by (simp del: of_nat_diff)
      have ri: "unat ?ri = unat (read_index rb) + n - rb_cap rb"
        using N n wrap unat_word_of_nat [of "n - t", where 'a = 15]
        by (simp add: t_def del: of_nat_diff)
      note wf' = read_wrapped_wf [OF wf n(1) wrap ri refl]
      moreover have "rb_data ?rb' = drop n (rb_data rb)"
        using wf' ri wrap n N ring_position [of "unat (read_index rb)" "rb_cap rb" n]
        by (intro rb_data_read [OF wf]) simp_all
      ultimately show ?thesis using get d cL by (simp add: seqs flip: n_def)
    qed
  qed
qed


section \<open>Forced writing\<close>

lemma force_full_wf:
  assumes "rb_wf rb" and "unat i < rb_cap rb" and "length buf = length (buffer_ptr rb)"
    and "rm \<noteq> wm"
    and "rb' = rb\<lparr>buffer_ptr := buf, read_mirror := rm, read_index := i, write_mirror := wm,
                  write_index := i\<rparr>"
  shows "rb_wf rb' \<and> rb_count rb' = rb_cap rb \<and> rb_cap rb' = rb_cap rb"
proof -
  have cap: "rb_cap rb' = rb_cap rb" by (simp add: assms(5) rb_cap_def)
  show ?thesis
    using assms rb_wfD(1,2) [OF assms(1)]
    by (simp add: rb_wf_def rb_count_def cap [unfolded assms(5)])
qed

text \<open>After a full turn the ring holds the tail of the old bytes and then the new ones.\<close>

lemma ring_full_turn:
  assumes "r < N" and "c \<le> N" and "length xs \<le> N" and "N \<le> c + length xs"
    and "w = (r + c) mod N" and "ring_written buf' buf N w xs"
  shows "ring_seq buf' N ((w + length xs) mod N) N = drop (c + length xs - N) (ring_seq buf N r c) @ xs"
proof -
  define k where "k = c + length xs - N"
  have k: "k \<le> c" "c - k = N - length xs" "c + length xs = k + N"
    using assms(2-4) by (auto simp: k_def)
  have start: "(w + length xs) mod N = (r + k) mod N"
  proof -
    have "(w + length xs) mod N = (r + (c + length xs)) mod N"
      by (simp add: assms(5) mod_simps add.assoc)
    also have "\<dots> = (r + k) mod N"
      by (simp add: k(3) flip: add.assoc)
    finally show ?thesis .
  qed
  have "w = ((r + k) mod N + (N - length xs)) mod N"
  proof -
    have "((r + k) mod N + (N - length xs)) mod N = (r + (k + (c - k))) mod N"
      by (simp add: mod_simps k(2) add.assoc)
    then show ?thesis using k(1) by (simp add: assms(5))
  qed
  then have "ring_seq buf' N ((r + k) mod N) (N - length xs + length xs) =
      ring_seq buf N ((r + k) mod N) (N - length xs) @ xs"
    using assms by (intro ring_put) auto
  also have "ring_seq buf N ((r + k) mod N) (N - length xs) = drop k (ring_seq buf N r c)"
    using k by (simp add: drop_ring_seq)
  finally show ?thesis
    using assms(3) by (simp add: start k_def)
qed

text \<open>What the two copies of \<open>rt_ringbuffer_put_force\<close> leave in the pool.\<close>

lemma force_copies:
  assumes wf: "rb_wf rb" and n: "n \<le> length src" "n \<le> rb_cap rb"
    and tail: "t = rb_cap rb - unat (write_index rb)"
  obtains (straight) buf where "n < t"
      "memcpy (buffer_ptr rb) (unat (write_index rb)) src 0 (int n) = Some buf"
      "length buf = length (buffer_ptr rb)"
      "ring_written buf (buffer_ptr rb) (rb_cap rb) (unat (write_index rb)) (take n src)"
  | (wrapped) buf1 buf where "t \<le> n"
      "memcpy (buffer_ptr rb) (unat (write_index rb)) src 0 (int t) = Some buf1"
      "memcpy buf1 0 src t (int (n - t)) = Some buf"
      "length buf = length (buffer_ptr rb)"
      "ring_written buf (buffer_ptr rb) (rb_cap rb) (unat (write_index rb)) (take n src)"
proof (cases "n < t")
  case True
  then show ?thesis
    using straight written_straight [OF rb_wfD(4,2) [OF wf] n(1)] tail by force
next
  case False
  then show ?thesis
    using wrapped written_wrapped [OF rb_wfD(4,2) [OF wf] n(1) _ n(2)] tail
    by (metis le_diff_conv add.commute not_less)
qed


lemma put_force_eval:
  assumes wf: "rb_wf rb" and src: "unat len \<le> length src"
    and n: "n = min (unat len) (rb_cap rb)" and xs: "xs = take n (drop (unat len - rb_cap rb) src)"
  obtains (straight) buf wi where "unat (write_index rb) + n < rb_cap rb"
      "length buf = length (buffer_ptr rb)"
      "ring_written buf (buffer_ptr rb) (rb_cap rb) (unat (write_index rb)) xs"
      "unat wi = unat (write_index rb) + n"
      "rt_ringbuffer_put_force rb src len = Some (let rb' = rb\<lparr>buffer_ptr := buf, write_index := wi\<rparr> in
         if rb_cap rb - rb_count rb < n then rb'\<lparr>read_index := wi\<rparr> else rb', word_of_nat n)"
  | (wrapped) buf wi where "rb_cap rb \<le> unat (write_index rb) + n"
      "length buf = length (buffer_ptr rb)"
      "ring_written buf (buffer_ptr rb) (rb_cap rb) (unat (write_index rb)) xs"
      "unat wi = unat (write_index rb) + n - rb_cap rb"
      "rt_ringbuffer_put_force rb src len = Some (let rb' = rb\<lparr>buffer_ptr := buf,
           write_mirror := NOT (write_mirror rb), write_index := wi\<rparr> in
         if rb_cap rb - rb_count rb < n
         then rb'\<lparr>read_mirror := NOT (read_mirror rb), read_index := wi\<rparr> else rb', word_of_nat n)"
proof -
  define L where "L = (if uint len > sint (buffer_size rb) then buffer_size rb else len)"
  define src' where "src' = (if uint len > sint (buffer_size rb)
      then drop (nat (uint len - sint (buffer_size rb))) src else src)"
  define t where "t = rb_cap rb - unat (write_index rb)"
  have N: "rb_cap rb < 32768" "unat (write_index rb) < rb_cap rb" "rb_cap rb \<le> length (buffer_ptr rb)"
    using rb_cap_bound rb_wfD [OF wf] by auto
  have ulen: "uint len = int (unat len)" by simp
  have over: "uint len > sint (buffer_size rb) \<longleftrightarrow> rb_cap rb < unat len"
    unfolding ulen sint_size [OF wf] by (rule of_nat_less_iff)
  have excess: "nat (uint len - sint (buffer_size rb)) = unat len - rb_cap rb"
    unfolding ulen sint_size [OF wf] by (simp only: nat_minus_as_int)
  have cap: "unat (buffer_size rb) = rb_cap rb"
    using N(1) by (simp add: unat_eq_nat_uint uint_sint sint_size [OF wf] take_bit_int_eq_self)
  have L: "unat L = n" using over cap by (simp add: L_def n min_def)
  have src': "src' = drop (unat len - rb_cap rb) src"
    by (simp only: src'_def over excess) auto
  have bounds: "n \<le> length src'" "n \<le> rb_cap rb" "take n src' = xs"
    using src by (auto simp: n src' xs)
  have space: "unat (ucast (rt_ringbuffer_space_len rb) :: u16) = rb_cap rb - rb_count rb"
    by (rule unat_space16 [OF wf])
  have cmp: "(ucast (rt_ringbuffer_space_len rb) :: u16) < L \<longleftrightarrow> rb_cap rb - rb_count rb < n"
    by (simp add: word_less_nat_alt space L)
  have tail: "sint (buffer_size rb) - uint (write_index rb) = int t"
    using N wf by (simp add: t_def of_nat_diff)
  have uL: "uint L = int n" and cL: "(ucast L :: u32) = word_of_nat n" by (simp_all flip: L)
  show thesis
  proof (rule force_copies [OF wf bounds(1,2) t_def])
    fix buf
    assume lt: "n < t" and buf: "memcpy (buffer_ptr rb) (unat (write_index rb)) src' 0 (int n) = Some buf"
      "length buf = length (buffer_ptr rb)"
      "ring_written buf (buffer_ptr rb) (rb_cap rb) (unat (write_index rb)) (take n src')"
    have wi: "unat (write_index rb + ucast L) = unat (write_index rb) + n"
      using N index_add [of "write_index rb" L] L lt by (simp add: t_def)
    have "rt_ringbuffer_put_force rb src len = Some (let rb' = rb\<lparr>buffer_ptr := buf,
        write_index := write_index rb + ucast L\<rparr> in
        if rb_cap rb - rb_count rb < n then rb'\<lparr>read_index := write_index rb + ucast L\<rparr> else rb',
        word_of_nat n)"
      unfolding rt_ringbuffer_put_force_def Let_def L_def [symmetric] src'_def [symmetric] tail uL cmp cL
      using lt buf(1) by simp
    from that(1) [OF _ buf(2) _ wi this] show thesis
      using buf(3) lt bounds(3) by (simp add: t_def)
  next
    fix buf1 buf
    assume le: "t \<le> n" and buf:
      "memcpy (buffer_ptr rb) (unat (write_index rb)) src' 0 (int t) = Some buf1"
      "memcpy buf1 0 src' t (int (n - t)) = Some buf"
      "length buf = length (buffer_ptr rb)"
      "ring_written buf (buffer_ptr rb) (rb_cap rb) (unat (write_index rb)) (take n src')"
    let ?wi = "word_of_int (int (n - t)) :: 15 word"
    have rest: "int n - int t = int (n - t)" using le by simp
    have wi: "unat ?wi = unat (write_index rb) + n - rb_cap rb"
      using N bounds unat_word_of_nat [of "n - t", where 'a = 15]
      by (simp add: t_def del: of_nat_diff)
    have nlt: "\<not> n < t" using le by simp
    have "rt_ringbuffer_put_force rb src len = Some (let rb' = rb\<lparr>buffer_ptr := buf,
        write_mirror := NOT (write_mirror rb), write_index := ?wi\<rparr> in
        if rb_cap rb - rb_count rb < n
        then rb'\<lparr>read_mirror := NOT (read_mirror rb), read_index := ?wi\<rparr> else rb', word_of_nat n)"
      unfolding rt_ringbuffer_put_force_def Let_def L_def [symmetric] src'_def [symmetric] tail uL
        cmp cL rest
      using nlt buf(1,2) by (simp del: of_nat_diff)
    from that(2) [OF _ buf(3) _ wi this] show thesis
      using buf(4) le bounds(3) N by (simp add: t_def)
  qed
qed

lemma force_fits:
  assumes wf: "rb_wf rb" and fits: "rb_count rb + n \<le> rb_cap rb" and xs: "length xs = n"
    and put: "(unat (write_index rb) + n < rb_cap rb \<and> unat wi = unat (write_index rb) + n \<and>
               rb' = rb\<lparr>buffer_ptr := buf, write_index := wi\<rparr>) \<or>
              (rb_cap rb \<le> unat (write_index rb) + n \<and>
               unat wi = unat (write_index rb) + n - rb_cap rb \<and>
               rb' = rb\<lparr>buffer_ptr := buf, write_mirror := NOT (write_mirror rb), write_index := wi\<rparr>)"
    and buf: "length buf = length (buffer_ptr rb)"
      "ring_written buf (buffer_ptr rb) (rb_cap rb) (unat (write_index rb)) xs"
  shows "rb_wf rb' \<and> rb_cap rb' = rb_cap rb \<and> rb_data rb' = rb_data rb @ xs"
proof -
  have wf': "rb_wf rb' \<and> rb_count rb' = rb_count rb + n \<and> rb_cap rb' = rb_cap rb"
    using put
  proof
    assume p: "unat (write_index rb) + n < rb_cap rb \<and> unat wi = unat (write_index rb) + n \<and>
               rb' = rb\<lparr>buffer_ptr := buf, write_index := wi\<rparr>"
    show ?thesis
      by (rule write_straight_wf [OF wf fits _ _ buf(1)]) (use p in blast)+
  next
    assume p: "rb_cap rb \<le> unat (write_index rb) + n \<and>
               unat wi = unat (write_index rb) + n - rb_cap rb \<and>
               rb' = rb\<lparr>buffer_ptr := buf, write_mirror := NOT (write_mirror rb), write_index := wi\<rparr>"
    show ?thesis
      by (rule write_wrapped_wf [OF wf fits _ _ buf(1)]) (use p in blast)+
  qed
  moreover have "rb_data rb' = rb_data rb @ xs"
    using wf' put buf(2) xs fits by (intro rb_data_written [OF wf]) auto
  ultimately show ?thesis by blast
qed

lemma force_over:
  assumes wf: "rb_wf rb" and n: "n \<le> rb_cap rb" "rb_cap rb \<le> rb_count rb + n" "length xs = n"
    and wi: "unat wi = (unat (write_index rb) + n) mod rb_cap rb"
    and buf: "length buf = length (buffer_ptr rb)"
      "ring_written buf (buffer_ptr rb) (rb_cap rb) (unat (write_index rb)) xs"
    and rb': "rb' = rb\<lparr>buffer_ptr := buf, read_mirror := rm, read_index := wi, write_mirror := wm,
                  write_index := wi\<rparr>" "rm \<noteq> wm"
  shows "rb_wf rb' \<and> rb_cap rb' = rb_cap rb \<and>
         rb_data rb' = drop (rb_count rb + n - rb_cap rb) (rb_data rb) @ xs"
proof -
  have wi_lt: "unat wi < rb_cap rb" using wi rb_wfD(1) [OF wf] by simp
  have wf': "rb_wf rb' \<and> rb_count rb' = rb_cap rb \<and> rb_cap rb' = rb_cap rb"
    by (rule force_full_wf [OF wf wi_lt buf(1) rb'(2,1)])
  moreover have "ring_seq buf (rb_cap rb) (unat wi) (rb_cap rb) =
      drop (rb_count rb + n - rb_cap rb) (rb_data rb) @ xs"
    using ring_full_turn [OF rb_wfD(3,5) [OF wf] _ _ _ buf(2)] rb_wfD(6) [OF wf] n wi
    by (simp add: rb_data_def)
  moreover have "rb_data rb' = ring_seq buf (rb_cap rb) (unat wi) (rb_cap rb)"
    using wf' by (simp add: rb_data_def [of rb']) (simp add: rb'(1))
  ultimately show ?thesis by simp
qed

text \<open>The bytes that survive are the last ones of the old bytes followed by the source.\<close>

lemma newest_bytes:
  assumes "n = min k N" and "xs = take n (drop (k - N) src)" and "length d = c" and "c \<le> N"
    and "N \<le> c + k" and "k \<le> length src"
  shows "drop (c + n - N) d @ xs = drop (c + k - N) (d @ take k src)"
proof (cases "k \<le> N")
  case True
  with assms show ?thesis by (simp add: min_def)
next
  case False
  with assms show ?thesis by (simp add: min_def drop_take)
qed

lemma mirrors_differ_count: "rb_wf rb \<Longrightarrow> read_mirror rb \<noteq> write_mirror rb \<Longrightarrow> 0 < rb_count rb"
  by (auto simp: rb_wf_def rb_count_def)

text \<open>\<open>rt_ringbuffer_put_force\<close>: when the new bytes fit they are appended, and when they
  do not and the writer has already wrapped (the mirrors differ) the oldest bytes make room.\<close>

theorem rt_ringbuffer_put_force_newest:
  assumes wf: "rb_wf rb" and src: "unat len \<le> length src"
    and room: "rb_count rb + unat len \<le> rb_cap rb \<or> read_mirror rb \<noteq> write_mirror rb"
  shows "\<exists>rb'. rt_ringbuffer_put_force rb src len =
             Some (rb', word_of_nat (min (unat len) (rb_cap rb))) \<and>
           rb_wf rb' \<and> rb_cap rb' = rb_cap rb \<and>
           rb_data rb' = drop (rb_count rb + unat len - rb_cap rb) (rb_data rb @ take (unat len) src)"
proof -
  define n where "n = min (unat len) (rb_cap rb)"
  define xs where "xs = take n (drop (unat len - rb_cap rb) src)"
  have N: "unat (write_index rb) < rb_cap rb" "rb_count rb \<le> rb_cap rb"
    using rb_wfD [OF wf] by auto
  have lenxs: "length xs = n" using src by (auto simp: xs_def n_def)
  show ?thesis
  proof (cases "rb_count rb + unat len \<le> rb_cap rb")
    case True
    then have n: "n = unat len" "rb_count rb + n \<le> rb_cap rb" "\<not> rb_cap rb - rb_count rb < n"
      by (auto simp: n_def)
    have xs: "xs = take (unat len) src" using True by (simp add: xs_def n)
    have res: ?thesis
      if "rt_ringbuffer_put_force rb src len = Some (rb', word_of_nat n)"
        and "rb_wf rb' \<and> rb_cap rb' = rb_cap rb \<and> rb_data rb' = rb_data rb @ xs" for rb'
      using that True by (simp add: xs flip: n_def)
    show ?thesis
    proof (rule put_force_eval [OF wf src n_def xs_def])
      fix buf and wi :: "15 word"
      assume a: "unat (write_index rb) + n < rb_cap rb" "length buf = length (buffer_ptr rb)"
        "ring_written buf (buffer_ptr rb) (rb_cap rb) (unat (write_index rb)) xs"
        "unat wi = unat (write_index rb) + n"
      assume "rt_ringbuffer_put_force rb src len = Some (let rb' = rb\<lparr>buffer_ptr := buf, write_index := wi\<rparr> in
           if rb_cap rb - rb_count rb < n then rb'\<lparr>read_index := wi\<rparr> else rb', word_of_nat n)"
      then have "rt_ringbuffer_put_force rb src len =
          Some (rb\<lparr>buffer_ptr := buf, write_index := wi\<rparr>, word_of_nat n)"
        using n(3) by (simp only: Let_def if_False)
      then show ?thesis
        by (rule res) (rule force_fits [OF wf n(2) lenxs disjI1 a(2,3)], use a in blast)
    next
      fix buf and wi :: "15 word"
      assume a: "rb_cap rb \<le> unat (write_index rb) + n" "length buf = length (buffer_ptr rb)"
        "ring_written buf (buffer_ptr rb) (rb_cap rb) (unat (write_index rb)) xs"
        "unat wi = unat (write_index rb) + n - rb_cap rb"
      assume "rt_ringbuffer_put_force rb src len = Some (let rb' = rb\<lparr>buffer_ptr := buf,
             write_mirror := NOT (write_mirror rb), write_index := wi\<rparr> in
           if rb_cap rb - rb_count rb < n
           then rb'\<lparr>read_mirror := NOT (read_mirror rb), read_index := wi\<rparr> else rb', word_of_nat n)"
      then have "rt_ringbuffer_put_force rb src len =
          Some (rb\<lparr>buffer_ptr := buf, write_mirror := NOT (write_mirror rb), write_index := wi\<rparr>, word_of_nat n)"
        using n(3) by (simp only: Let_def if_False)
      then show ?thesis
        by (rule res) (rule force_fits [OF wf n(2) lenxs disjI2 a(2,3)], use a in blast)
    qed
  next
    case False
    then have differ: "read_mirror rb \<noteq> write_mirror rb" using room by simp
    then have n: "rb_cap rb - rb_count rb < n" "n \<le> rb_cap rb" "rb_cap rb \<le> rb_count rb + n"
      using False mirrors_differ_count [OF wf] N(2) by (auto simp: n_def)
    have data: "drop (rb_count rb + n - rb_cap rb) (rb_data rb) @ xs =
        drop (rb_count rb + unat len - rb_cap rb) (rb_data rb @ take (unat len) src)"
      using newest_bytes [OF n_def xs_def length_rb_data N(2) _ src] False by simp
    show ?thesis
    proof (rule put_force_eval [OF wf src n_def xs_def])
      fix buf and wi :: "15 word"
      assume a: "unat (write_index rb) + n < rb_cap rb" "length buf = length (buffer_ptr rb)"
        "ring_written buf (buffer_ptr rb) (rb_cap rb) (unat (write_index rb)) xs"
        "unat wi = unat (write_index rb) + n"
        "rt_ringbuffer_put_force rb src len = Some (let rb' = rb\<lparr>buffer_ptr := buf, write_index := wi\<rparr> in
           if rb_cap rb - rb_count rb < n then rb'\<lparr>read_index := wi\<rparr> else rb', word_of_nat n)"
      have "rb\<lparr>buffer_ptr := buf, write_index := wi, read_index := wi\<rparr> =
          rb\<lparr>buffer_ptr := buf, read_mirror := read_mirror rb, read_index := wi,
             write_mirror := write_mirror rb, write_index := wi\<rparr>" by simp
      from force_over [OF wf n(2,3) lenxs _ a(2,3) this differ] show ?thesis
        using a(1,4,5) n(1) by (simp add: data n_def [symmetric])
    next
      fix buf and wi :: "15 word"
      assume a: "rb_cap rb \<le> unat (write_index rb) + n" "length buf = length (buffer_ptr rb)"
        "ring_written buf (buffer_ptr rb) (rb_cap rb) (unat (write_index rb)) xs"
        "unat wi = unat (write_index rb) + n - rb_cap rb"
        "rt_ringbuffer_put_force rb src len = Some (let rb' = rb\<lparr>buffer_ptr := buf,
             write_mirror := NOT (write_mirror rb), write_index := wi\<rparr> in
           if rb_cap rb - rb_count rb < n
           then rb'\<lparr>read_mirror := NOT (read_mirror rb), read_index := wi\<rparr> else rb', word_of_nat n)"
      have wi: "unat wi = (unat (write_index rb) + n) mod rb_cap rb"
        using ring_position [OF N(1) n(2)] a(1,4) by simp
      have differ': "NOT (read_mirror rb) \<noteq> NOT (write_mirror rb)" using differ by simp
      have "rb\<lparr>buffer_ptr := buf, write_mirror := NOT (write_mirror rb), write_index := wi,
             read_mirror := NOT (read_mirror rb), read_index := wi\<rparr> =
          rb\<lparr>buffer_ptr := buf, read_mirror := NOT (read_mirror rb), read_index := wi,
             write_mirror := NOT (write_mirror rb), write_index := wi\<rparr>" by simp
      from force_over [OF wf n(2,3) lenxs wi a(2,3) this differ'] show ?thesis
        using a(5) n(1) by (simp add: data n_def [symmetric] del: not_mirror mirror_not)
    qed
  qed
qed

text \<open>The remaining case loses data: when the writer has not wrapped yet, the buffer holds
  bytes and the new ones do not all fit, \<open>rt_ringbuffer_put_force\<close> leaves the buffer empty,
  although it returns the number of bytes it stored.\<close>

theorem rt_ringbuffer_put_force_empties:
  assumes wf: "rb_wf rb" and src: "unat len \<le> length src"
    and over: "rb_cap rb < rb_count rb + unat len" and "read_mirror rb = write_mirror rb"
    and "0 < rb_count rb"
  shows "\<exists>rb'. rt_ringbuffer_put_force rb src len =
             Some (rb', word_of_nat (min (unat len) (rb_cap rb))) \<and>
           rt_ringbuffer_status rb' = RT_RINGBUFFER_EMPTY \<and> rb_data rb' = []"
proof -
  define n where "n = min (unat len) (rb_cap rb)"
  have n: "rb_cap rb - rb_count rb < n" "rb_cap rb < rb_count rb + n"
    using over assms(5) rb_wfD(5) [OF wf] by (auto simp: n_def)
  have "rb_count rb \<le> unat (write_index rb)"
    using assms(4) by (simp add: rb_count_def)
  then have wrap: "\<not> unat (write_index rb) + n < rb_cap rb" using n(2) by simp
  show ?thesis
    by (rule put_force_eval [OF wf src n_def refl])
      (use n wrap assms(4) in \<open>simp_all add: rt_ringbuffer_status_def rb_data_def rb_count_def ring_seq_def
         Let_def flip: n_def\<close>)
qed


section \<open>Single bytes\<close>

lemma ring_written_byte:
  assumes "w < N" and "N \<le> length buf"
  shows "ring_written (buf[w := ch]) buf N w [ch]"
  using assms by (auto simp: ring_written_def ring_offset nth_list_update)

lemma index_suc: "unat i + 1 < 32768 \<Longrightarrow> unat (i + 1) = unat i + 1" for i :: "15 word"
  by (simp add: unat_word_ariths)

lemma last_index:
  fixes i :: "15 word"
  assumes "rb_wf rb"
  shows "uint i = sint (buffer_size rb) - 1 \<longleftrightarrow> unat i + 1 = rb_cap rb"
proof -
  have "uint i = int (unat i)" by simp
  then show ?thesis
    unfolding sint_size [OF assms] by (simp only:) (use rb_wfD(1) [OF assms] in linarith)
qed

lemma putchar_room:
  assumes wf: "rb_wf rb" and room: "rb_count rb < rb_cap rb"
  shows "\<exists>rb'. rt_ringbuffer_putchar rb ch = Some (rb', 1) \<and> rb_wf rb' \<and> rb_cap rb' = rb_cap rb \<and>
           rb_data rb' = rb_data rb @ [ch]"
proof -
  let ?w = "unat (write_index rb)" and ?buf = "(buffer_ptr rb)[unat (write_index rb) := ch]"
  have N: "?w < rb_cap rb" "rb_cap rb \<le> length (buffer_ptr rb)" "rb_cap rb < 32768"
    using rb_wfD [OF wf] rb_cap_bound by auto
  have space: "rt_ringbuffer_space_len rb \<noteq> 0"
    using unat_space_len [OF wf] room by auto
  have buf: "length ?buf = length (buffer_ptr rb)"
    "ring_written ?buf (buffer_ptr rb) (rb_cap rb) ?w [ch]"
    using ring_written_byte N by auto
  have fits: "rb_count rb + 1 \<le> rb_cap rb" using room by simp
  define rb' where "rb' = (if ?w + 1 = rb_cap rb
      then rb\<lparr>buffer_ptr := ?buf, write_mirror := NOT (write_mirror rb), write_index := 0\<rparr>
      else rb\<lparr>buffer_ptr := ?buf, write_index := write_index rb + 1\<rparr>)"
  have "rt_ringbuffer_putchar rb ch = Some (rb', 1)"
    using space N by (simp add: rt_ringbuffer_putchar_def store_byte_def last_index [OF wf] rb'_def
        Let_def)
  moreover have "rb_wf rb' \<and> rb_cap rb' = rb_cap rb \<and> rb_data rb' = rb_data rb @ [ch]"
  proof (cases "?w + 1 = rb_cap rb")
    case True
    then show ?thesis
      by (intro force_fits [where wi = 0, OF wf fits _ disjI2 buf]) (simp_all add: rb'_def)
  next
    case False
    then show ?thesis
      using N index_suc [of "write_index rb"]
      by (intro force_fits [OF wf fits _ disjI1 buf]) (simp_all add: rb'_def)
  qed
  ultimately show ?thesis by blast
qed

lemma putchar_full: "rb_wf rb \<Longrightarrow> rb_count rb = rb_cap rb \<Longrightarrow> rt_ringbuffer_putchar rb ch = Some (rb, 0)"
  using unat_space_len [of rb] by (simp add: rt_ringbuffer_putchar_def unat_eq_zero)

lemma getchar_some:
  assumes wf: "rb_wf rb" and some: "rb_data rb = ch # xs"
  shows "\<exists>rb'. rt_ringbuffer_getchar rb = Some (rb', Some ch, 1) \<and> rb_wf rb' \<and>
           rb_cap rb' = rb_cap rb \<and> rb_data rb' = xs"
proof -
  let ?r = "unat (read_index rb)"
  have N: "?r < rb_cap rb" "rb_cap rb \<le> length (buffer_ptr rb)" "rb_cap rb < 32768"
    using rb_wfD [OF wf] rb_cap_bound by auto
  have c: "1 \<le> rb_count rb" using some by (simp flip: length_rb_data)
  have avail: "rt_ringbuffer_data_len rb \<noteq> 0" using unat_data_len [OF wf] c by auto
  have "rb_data rb ! 0 = buffer_ptr rb ! ?r"
    using c N by (simp add: rb_data_def ring_seq_def)
  then have ch: "buffer_ptr rb ! ?r = ch" using some by simp
  define rb' where "rb' = (if ?r + 1 = rb_cap rb
      then rb\<lparr>read_mirror := NOT (read_mirror rb), read_index := 0\<rparr>
      else rb\<lparr>read_index := read_index rb + 1\<rparr>)"
  have get: "rt_ringbuffer_getchar rb = Some (rb', Some ch, 1)"
    using avail N by (simp add: rt_ringbuffer_getchar_def load_byte_def last_index [OF wf] rb'_def ch)
  have ri: "unat (read_index rb') = (?r + 1) mod rb_cap rb" and
    wf': "rb_wf rb' \<and> rb_count rb' = rb_count rb - 1 \<and> rb_cap rb' = rb_cap rb"
  proof -
    show "unat (read_index rb') = (?r + 1) mod rb_cap rb"
      using N index_suc [of "read_index rb"] by (auto simp: rb'_def)
    show "rb_wf rb' \<and> rb_count rb' = rb_count rb - 1 \<and> rb_cap rb' = rb_cap rb"
    proof (cases "?r + 1 = rb_cap rb")
      case True
      then show ?thesis
        by (intro read_wrapped_wf [OF wf c]) (simp_all add: rb'_def)
    next
      case False
      then show ?thesis
        using N index_suc [of "read_index rb"]
        by (intro read_straight_wf [OF wf c]) (simp_all add: rb'_def)
    qed
  qed
  have "rb_data rb' = drop 1 (rb_data rb)"
    using wf' ri by (intro rb_data_read [OF wf c]) (simp_all add: rb'_def)
  with get wf' some show ?thesis by simp
qed

lemma getchar_empty: "rb_wf rb \<Longrightarrow> rb_data rb = [] \<Longrightarrow> rt_ringbuffer_getchar rb = Some (rb, None, 0)"
  using unat_data_len [of rb] length_rb_data [of rb]
  by (simp add: rt_ringbuffer_getchar_def unat_eq_zero)

text \<open>The byte interface is a bounded buffer. A fault of the code would show as a byte refused
  or not found, which the laws exclude.\<close>

definition rb_enq :: "rt_ringbuffer \<Rightarrow> u8 \<Rightarrow> rt_ringbuffer option" where
  "rb_enq rb ch = (case rt_ringbuffer_putchar rb ch of
     Some (rb', n) \<Rightarrow> if n = 1 then Some rb' else None | None \<Rightarrow> None)"

definition rb_deq :: "rt_ringbuffer \<Rightarrow> (rt_ringbuffer \<times> u8) option" where
  "rb_deq rb = (case rt_ringbuffer_getchar rb of
     Some (rb', Some ch, n) \<Rightarrow> if n = 1 then Some (rb', ch) else None | _ \<Rightarrow> None)"

interpretation ring: bounded_fifo "\<lambda>_. True" rb_wf rb_cap rb_data rb_enq rb_deq
proof
  fix rb :: rt_ringbuffer and ch xs
  assume wf: "rb_wf rb"
  show "length (rb_data rb) \<le> rb_cap rb"
    using rb_wfD(5) [OF wf] by simp
  show "\<exists>rb'. rb_enq rb ch = Some rb' \<and> rb_wf rb' \<and> rb_cap rb' = rb_cap rb \<and>
      rb_data rb' = rb_data rb @ [ch]" if "length (rb_data rb) < rb_cap rb"
    using putchar_room [OF wf, of ch] that by (auto simp: rb_enq_def)
  show "rb_enq rb ch = None" if "length (rb_data rb) = rb_cap rb"
    using putchar_full [OF wf, of ch] that by (simp add: rb_enq_def)
  show "\<exists>rb'. rb_deq rb = Some (rb', ch) \<and> rb_wf rb' \<and> rb_cap rb' = rb_cap rb \<and> rb_data rb' = xs"
    if "rb_data rb = ch # xs"
    using getchar_some [OF wf that] by (auto simp: rb_deq_def)
  show "rb_deq rb = None" if "rb_data rb = []"
    using getchar_empty [OF wf that] by (simp add: rb_deq_def)
qed

text \<open>C21: any sequence of \<open>rt_ringbuffer_putchar\<close> and \<open>rt_ringbuffer_getchar\<close> calls on a
  well-formed buffer answers as the same calls on a list bounded by the buffer's capacity.\<close>

theorem rt_ringbuffer_bytes_fifo:
  assumes "rb_wf rb" and "fifo_run rb_enq rb_deq rb ops = (rb', out)"
  shows "fifo_run (list_enq (rb_cap rb)) list_deq (rb_data rb) ops = (rb_data rb', out)"
  using ring.run_refines [OF assms(1) TrueI assms(2)] by blast

text \<open>\<open>rt_ringbuffer_putchar_force\<close> on a well-formed buffer always stores the byte, drops
  the oldest one exactly when the buffer was full, and keeps the buffer well formed.\<close>

theorem rt_ringbuffer_putchar_force_newest:
  assumes wf: "rb_wf rb"
  shows "\<exists>rb'. rt_ringbuffer_putchar_force rb ch = Some (rb', 1) \<and> rb_wf rb' \<and> rb_cap rb' = rb_cap rb \<and>
           rb_data rb' = (if rb_count rb = rb_cap rb then tl (rb_data rb) else rb_data rb) @ [ch]"
proof -
  let ?w = "unat (write_index rb)" and ?buf = "(buffer_ptr rb)[unat (write_index rb) := ch]"
  have N: "?w < rb_cap rb" "rb_cap rb \<le> length (buffer_ptr rb)" "rb_cap rb < 32768"
    using rb_wfD [OF wf] rb_cap_bound by auto
  have full: "rt_ringbuffer_status rb = RT_RINGBUFFER_FULL \<longleftrightarrow> rb_count rb = rb_cap rb"
    and differ: "rb_count rb = rb_cap rb \<Longrightarrow> read_mirror rb \<noteq> write_mirror rb"
    using wf by (auto simp: rt_ringbuffer_status_def rb_wf_def rb_count_def word_unat_eq_iff)
  have buf: "length ?buf = length (buffer_ptr rb)"
    "ring_written ?buf (buffer_ptr rb) (rb_cap rb) ?w [ch]"
    using ring_written_byte N by auto
  define rb1 where "rb1 = (if ?w + 1 = rb_cap rb
      then rb\<lparr>buffer_ptr := ?buf, write_mirror := NOT (write_mirror rb), write_index := 0\<rparr>
      else rb\<lparr>buffer_ptr := ?buf, write_index := write_index rb + 1\<rparr>)"
  define rb2 where "rb2 = (if ?w + 1 = rb_cap rb
      then rb\<lparr>buffer_ptr := ?buf, read_mirror := NOT (read_mirror rb), read_index := 0,
              write_mirror := NOT (write_mirror rb), write_index := 0\<rparr>
      else rb\<lparr>buffer_ptr := ?buf, read_mirror := read_mirror rb, read_index := write_index rb + 1,
              write_mirror := write_mirror rb, write_index := write_index rb + 1\<rparr>)"
  have force: "rt_ringbuffer_putchar_force rb ch =
      Some (if rb_count rb = rb_cap rb then rb2 else rb1, 1)"
    using N by (simp add: rt_ringbuffer_putchar_force_def store_byte_def last_index [OF wf] full
        rb1_def rb2_def Let_def)
  show ?thesis
  proof (cases "rb_count rb = rb_cap rb")
    case True
    have "rb_wf rb2 \<and> rb_cap rb2 = rb_cap rb \<and>
        rb_data rb2 = drop (rb_count rb + 1 - rb_cap rb) (rb_data rb) @ [ch]"
    proof (cases "?w + 1 = rb_cap rb")
      case wrap: True
      show ?thesis
        by (rule force_over [where wi = 0 and rm = "NOT (read_mirror rb)" and
              wm = "NOT (write_mirror rb)", OF wf _ _ _ _ buf])
          (use True N wrap differ in \<open>simp_all add: rb2_def\<close>)
    next
      case False
      then show ?thesis
        using True N differ index_suc [of "write_index rb"]
        by (intro force_over [where wi = "write_index rb + 1" and rm = "read_mirror rb" and
              wm = "write_mirror rb", OF wf _ _ _ _ buf]) (simp_all add: rb2_def)
    qed
    then show ?thesis using True by (simp add: force drop_Suc)
  next
    case room: False
    then have fits: "rb_count rb + 1 \<le> rb_cap rb" using rb_wfD(5) [OF wf] by simp
    have "rb_wf rb1 \<and> rb_cap rb1 = rb_cap rb \<and> rb_data rb1 = rb_data rb @ [ch]"
    proof (cases "?w + 1 = rb_cap rb")
      case True
      then show ?thesis
        by (intro force_fits [where wi = 0, OF wf fits _ disjI2 buf]) (simp_all add: rb1_def)
    next
      case False
      then show ?thesis
        using N index_suc [of "write_index rb"]
        by (intro force_fits [OF wf fits _ disjI1 buf]) (simp_all add: rb1_def)
    qed
    then show ?thesis using room by (simp add: force)
  qed
qed

text \<open>\<open>rt_ringbuffer_init\<close> on a pool that is large enough makes an empty, well-formed
  buffer, for every size from 4 up; the capacity is the size rounded down to a multiple of 4.\<close>

theorem rt_ringbuffer_init_empty:
  assumes "4 \<le> sint sz" and "nat (sint sz) \<le> length pool"
  shows "\<exists>rb'. rt_ringbuffer_init rb pool sz = Some rb' \<and> rb_wf rb' \<and> rb_data rb' = [] \<and>
           rb_cap rb' = nat (sint sz) div 4 * 4"
proof -
  have u: "unat sz = nat (sint sz)"
    using assms(1) sint_lt [of sz]
    by (simp add: unat_eq_nat_uint uint_sint take_bit_int_eq_self)
  define k where "k = nat (sint sz) div 4 * 4"
  have "unat (RT_ALIGN_DOWN sz 4) = k"
    by (simp only: unat_RT_ALIGN_DOWN u k_def)
  then have uk: "uint (RT_ALIGN_DOWN sz 4) = int k"
    by (metis uint_nat)
  have "k \<le> nat (sint sz)" by (simp add: k_def)
  then have "k < 32768" using sint_lt [of sz] by simp
  then have cap: "sint (RT_ALIGN_DOWN sz 4) = int k"
    by (simp add: sint_uint uk signed_take_bit_int_eq_self)
  have "4 \<le> nat (sint sz)" using assms(1) by simp
  then have "0 < k" by (simp add: k_def div_greater_zero_iff)
  moreover have "k \<le> length pool"
    using \<open>k \<le> nat (sint sz)\<close> assms(2) by simp
  moreover let ?rb = "rb\<lparr>read_mirror := 0, read_index := 0, write_mirror := 0, write_index := 0,
                buffer_ptr := pool, buffer_size := RT_ALIGN_DOWN sz 4\<rparr>"
  have kc: "rb_cap ?rb = k" by (simp add: rb_cap_def cap)
  moreover have "rb_count ?rb = 0" by (simp add: rb_count_def)
  moreover have "rt_ringbuffer_init rb pool sz = Some ?rb"
    using assms(1) by (simp add: rt_ringbuffer_init_def)
  ultimately have "rb_wf ?rb \<and> rb_data ?rb = [] \<and> rb_cap ?rb = nat (sint sz) div 4 * 4"
    unfolding k_def [symmetric] rb_wf_def by (simp add: kc rb_data_def ring_seq_def)
  with \<open>rt_ringbuffer_init rb pool sz = Some ?rb\<close> show ?thesis by blast
qed

text \<open>A buffer initialised with a pool of one byte has capacity 0: no byte is ever accepted
  by \<open>rt_ringbuffer_put\<close>, and the second forced byte is stored outside the pool.\<close>

theorem rt_ringbuffer_init_tiny:
  "\<exists>rb1 rb2. rt_ringbuffer_init rb [b] 1 = Some rb1 \<and> rb_cap rb1 = 0 \<and>
     rt_ringbuffer_put rb1 src len = Some (rb1, 0) \<and>
     rt_ringbuffer_putchar_force rb1 c1 = Some (rb2, 1) \<and> rt_ringbuffer_putchar_force rb2 c2 = None"
proof -
  let ?rb1 = "rb\<lparr>read_mirror := 0, read_index := 0, write_mirror := 0, write_index := 0,
                buffer_ptr := [b], buffer_size := 0\<rparr>"
  let ?rb2 = "?rb1\<lparr>buffer_ptr := [c1], write_index := 1\<rparr>"
  have "RT_ALIGN_DOWN 1 4 = (0 :: 16 word)"
    by (simp add: word_unat_eq_iff unat_RT_ALIGN_DOWN)
  then have init: "rt_ringbuffer_init rb [b] 1 = Some ?rb1"
    by (simp add: rt_ringbuffer_init_def)
  have space: "rt_ringbuffer_space_len ?rb1 = 0"
    by (simp add: rt_ringbuffer_space_len_def rt_ringbuffer_data_len_def rt_ringbuffer_status_def)
  have put: "rt_ringbuffer_put ?rb1 src len = Some (?rb1, 0)"
    unfolding rt_ringbuffer_put_def space by (simp only: Let_def) simp
  have f1: "rt_ringbuffer_putchar_force ?rb1 c1 = Some (?rb2, 1)"
    by (simp add: rt_ringbuffer_putchar_force_def store_byte_def Let_def rt_ringbuffer_status_def)
  have f2: "rt_ringbuffer_putchar_force ?rb2 c2 = None"
    by (simp add: rt_ringbuffer_putchar_force_def store_byte_def)
  have "rb_cap ?rb1 = 0" by (simp add: rb_cap_def)
  with init put f1 f2 show ?thesis by blast
qed

end
