(* ===== verification/RTT_Rbb.thy ===== *)
theory RTT_Rbb
  imports RTT_Slist RTT_Alloc
begin

text \<open>
  The ring block buffers of \<open>components/drivers/src/ringblk_buf.c\<close>: blocks of different sizes, laid one
  after the other in a buffer that is used as a ring, and listed in the order they were allocated in. A
  block of the block set is named by its index; its \<open>list\<close> member is the node \<open>Blk i\<close> of the singly linked
  list whose head, in the \<open>rt_rbb\<close> itself, is the node \<open>Head\<close>. Addresses are natural numbers. Each
  operation runs with interrupts disabled, so it is one step. \<open>rt_rbb_create\<close> and \<open>rt_rbb_destroy\<close>, which
  only call the heap around \<open>rt_rbb_init\<close>, are left out.
\<close>

section \<open>State and operations\<close>

datatype rt_rbb_status = RT_RBB_BLK_UNUSED | RT_RBB_BLK_INITED | RT_RBB_BLK_PUT | RT_RBB_BLK_GET

record rt_rbb_blk =
  blk_status :: rt_rbb_status
  blk_size :: "24 word"
  blk_buf :: ptr

datatype rbb_node = Head | Blk nat

record rt_rbb =
  rbb_buf :: ptr
  rbb_buf_size :: u32
  rbb_blk_set :: "rt_rbb_blk list"
  rbb_blk_max_num :: u32
  rbb_links :: "rbb_node slinks"

record rt_rbb_blk_queue =
  rbq_blocks :: nat
  rbq_blk_num :: u32

fun rt_slist_entry :: "rbb_node \<Rightarrow> nat option" where
  "rt_slist_entry (Blk i) = Some i"
| "rt_slist_entry Head = None"

definition rbb_blk :: "rt_rbb \<Rightarrow> nat \<Rightarrow> rt_rbb_blk option" where
  "rbb_blk r i = (if i < length (rbb_blk_set r) then Some (rbb_blk_set r ! i) else None)"

definition set_rbb_blk :: "nat \<Rightarrow> (rt_rbb_blk \<Rightarrow> rt_rbb_blk) \<Rightarrow> rt_rbb \<Rightarrow> rt_rbb" where
  "set_rbb_blk i f r = r\<lparr>rbb_blk_set := (rbb_blk_set r)[i := f (rbb_blk_set r ! i)]\<rparr>"



fun find_empty_loop :: "rt_rbb \<Rightarrow> nat \<Rightarrow> nat \<Rightarrow> nat option option" where
  "find_empty_loop r i 0 = Some None"
| "find_empty_loop r i (Suc n) = do {
     b \<leftarrow> rbb_blk r i;
     if blk_status b = RT_RBB_BLK_UNUSED then Some (Some i) else find_empty_loop r (i + 1) n
   }"

definition find_empty_blk_in_set :: "rt_rbb \<Rightarrow> nat option option" where
  "find_empty_blk_in_set r = find_empty_loop r 0 (unat (rbb_blk_max_num r))"

text \<open>Block \<open>i\<close> is appended to the list and takes \<open>sz\<close> bytes at \<open>addr\<close>.\<close>

definition rbb_place :: "nat \<Rightarrow> ptr \<Rightarrow> u32 \<Rightarrow> rt_rbb \<Rightarrow> (nat option \<times> rt_rbb) option" where
  "rbb_place i addr sz r = do {
     links \<leftarrow> rt_slist_append Head (Blk i) (rbb_links r);
     Some (Some i, set_rbb_blk i (\<lambda>b. b\<lparr>blk_status := RT_RBB_BLK_INITED, blk_buf := addr, blk_size := ucast sz\<rparr>)
       (r\<lparr>rbb_links := links\<rparr>))
   }"

definition blk_end :: "rt_rbb_blk \<Rightarrow> nat" where "blk_end b = blk_buf b + unat (blk_size b)"

definition ptr_diff :: "nat \<Rightarrow> nat \<Rightarrow> u32" where "ptr_diff a b = word_of_int (int a - int b)"

definition rt_rbb_blk_alloc :: "u32 \<Rightarrow> rt_rbb \<Rightarrow> (nat option \<times> rt_rbb) option" where
  "rt_rbb_blk_alloc sz r = do {
     rt_assert (sz < 2 ^ 24);
     new \<leftarrow> find_empty_blk_in_set r;
     len \<leftarrow> rt_slist_len Head (rbb_links r);
     case new of
       None \<Rightarrow> Some (None, r)
     | Some i \<Rightarrow>
         if len < unat (rbb_blk_max_num r) then
           if len > 0 then do {
             h \<leftarrow> rt_slist_first Head (rbb_links r);
             head \<leftarrow> Option.bind (rt_slist_entry h) (rbb_blk r);
             t \<leftarrow> rt_slist_tail (rbb_links r) Head;
             tail \<leftarrow> Option.bind (rt_slist_entry t) (rbb_blk r);
             if blk_buf head \<le> blk_buf tail then
               let empty1 = ptr_diff (rbb_buf r + unat (rbb_buf_size r)) (blk_end tail);
                   empty2 = ptr_diff (blk_buf head) (rbb_buf r)
               in if empty1 \<ge> sz then rbb_place i (blk_end tail) sz r
                  else if empty2 \<ge> sz then rbb_place i (rbb_buf r) sz r
                  else Some (None, r)
             else
               let empty1 = ptr_diff (blk_buf head) (blk_end tail)
               in if empty1 \<ge> sz then rbb_place i (blk_end tail) sz r else Some (None, r)
           }
           else rbb_place i (rbb_buf r) sz r
         else Some (None, r)
   }"

definition rt_rbb_blk_put :: "nat \<Rightarrow> rt_rbb \<Rightarrow> rt_rbb option" where
  "rt_rbb_blk_put i r = do {
     b \<leftarrow> rbb_blk r i;
     rt_assert (blk_status b = RT_RBB_BLK_INITED);
     Some (set_rbb_blk i (\<lambda>b. b\<lparr>blk_status := RT_RBB_BLK_PUT\<rparr>) r)
   }"

partial_function (option) rbb_get_loop :: "rt_rbb \<Rightarrow> rbb_node option \<Rightarrow> (nat option \<times> rt_rbb) option" where
  "rbb_get_loop r node =
     (case node of
        None \<Rightarrow> Some (None, r)
      | Some n \<Rightarrow> do {
          i \<leftarrow> rt_slist_entry n;
          b \<leftarrow> rbb_blk r i;
          if blk_status b = RT_RBB_BLK_PUT
          then Some (Some i, set_rbb_blk i (\<lambda>b. b\<lparr>blk_status := RT_RBB_BLK_GET\<rparr>) r)
          else rbb_get_loop r (rt_slist_next n (rbb_links r))
        })"

definition rt_rbb_blk_get :: "rt_rbb \<Rightarrow> (nat option \<times> rt_rbb) option" where
  "rt_rbb_blk_get r =
     (if rt_slist_isempty Head (rbb_links r) then Some (None, r)
      else rbb_get_loop r (rt_slist_first Head (rbb_links r)))"

definition rt_rbb_blk_size :: "nat \<Rightarrow> rt_rbb \<Rightarrow> u32 option" where
  "rt_rbb_blk_size i r = map_option (\<lambda>b. ucast (blk_size b)) (rbb_blk r i)"

definition rt_rbb_blk_buf :: "nat \<Rightarrow> rt_rbb \<Rightarrow> ptr option" where
  "rt_rbb_blk_buf i r = map_option blk_buf (rbb_blk r i)"

definition rt_rbb_blk_free :: "nat \<Rightarrow> rt_rbb \<Rightarrow> rt_rbb option" where
  "rt_rbb_blk_free i r = do {
     b \<leftarrow> rbb_blk r i;
     rt_assert (blk_status b \<noteq> RT_RBB_BLK_UNUSED);
     links \<leftarrow> rt_slist_remove Head (Blk i) (rbb_links r);
     Some (set_rbb_blk i (\<lambda>b. b\<lparr>blk_status := RT_RBB_BLK_UNUSED\<rparr>) (r\<lparr>rbb_links := links\<rparr>))
   }"

text \<open>The end of the loop body of \<open>rt_rbb_blk_queue_get\<close>: block \<open>i\<close> leaves the list and is counted.\<close>

definition rbb_queue_take ::
  "nat \<Rightarrow> u32 \<Rightarrow> rt_rbb_blk_queue \<Rightarrow> rt_rbb \<Rightarrow> (u32 \<times> rt_rbb_blk_queue \<times> rt_rbb) option" where
  "rbb_queue_take i data_total q r = do {
     links \<leftarrow> rt_slist_remove Head (Blk i) (rbb_links r);
     let r = r\<lparr>rbb_links := links\<rparr>;
     b \<leftarrow> rbb_blk r i;
     Some (data_total + ucast (blk_size b), q\<lparr>rbq_blk_num := rbq_blk_num q + 1\<rparr>,
       set_rbb_blk i (\<lambda>b. b\<lparr>blk_status := RT_RBB_BLK_GET\<rparr>) r)
   }"

partial_function (option) rbb_queue_loop ::
  "u32 \<Rightarrow> rbb_node option \<Rightarrow> nat option \<Rightarrow> u32 \<Rightarrow> rt_rbb_blk_queue \<Rightarrow> rt_rbb \<Rightarrow> (u32 \<times> rt_rbb_blk_queue \<times> rt_rbb) option"
where
  "rbb_queue_loop len node last_block data_total q r =
     (case node of
        None \<Rightarrow> Some (data_total, q, r)
      | Some n \<Rightarrow> do {
          i \<leftarrow> rt_slist_entry n;
          b \<leftarrow> rbb_blk r i;
          case last_block of
            None \<Rightarrow>
              if blk_status b = RT_RBB_BLK_PUT then do {
                (data_total, q, r) \<leftarrow> rbb_queue_take i data_total (q\<lparr>rbq_blocks := i, rbq_blk_num := 0\<rparr>) r;
                rbb_queue_loop len (rt_slist_next n (rbb_links r)) (Some i) data_total q r
              }
              else rbb_queue_loop len (rt_slist_next n (rbb_links r)) None data_total q r
          | Some l \<Rightarrow> do {
              lb \<leftarrow> rbb_blk r l;
              if blk_status b \<noteq> RT_RBB_BLK_PUT \<or> blk_buf lb > blk_buf b \<or> data_total + ucast (blk_size b) > len
              then Some (data_total, q, r)
              else do {
                (data_total, q, r) \<leftarrow> rbb_queue_take i data_total q r;
                rbb_queue_loop len (rt_slist_next n (rbb_links r)) (Some i) data_total q r
              }
            }
        })"

definition rt_rbb_blk_queue_get ::
  "u32 \<Rightarrow> rt_rbb_blk_queue \<Rightarrow> rt_rbb \<Rightarrow> (u32 \<times> rt_rbb_blk_queue \<times> rt_rbb) option" where
  "rt_rbb_blk_queue_get queue_data_len q r =
     (if rt_slist_isempty Head (rbb_links r) then Some (0, q, r)
      else rbb_queue_loop queue_data_len (rt_slist_first Head (rbb_links r)) None 0 q r)"

fun queue_len_loop :: "rt_rbb \<Rightarrow> nat \<Rightarrow> nat \<Rightarrow> u32 \<Rightarrow> u32 option" where
  "queue_len_loop r i 0 data_total = Some data_total"
| "queue_len_loop r i (Suc n) data_total = do {
     b \<leftarrow> rbb_blk r i;
     queue_len_loop r (i + 1) n (data_total + ucast (blk_size b))
   }"

definition rt_rbb_blk_queue_len :: "rt_rbb_blk_queue \<Rightarrow> rt_rbb \<Rightarrow> u32 option" where
  "rt_rbb_blk_queue_len q r = queue_len_loop r (rbq_blocks q) (unat (rbq_blk_num q)) 0"

definition rt_rbb_blk_queue_buf :: "rt_rbb_blk_queue \<Rightarrow> rt_rbb \<Rightarrow> ptr option" where
  "rt_rbb_blk_queue_buf q r = map_option blk_buf (rbb_blk r (rbq_blocks q))"

fun queue_free_loop :: "nat \<Rightarrow> nat \<Rightarrow> rt_rbb \<Rightarrow> rt_rbb option" where
  "queue_free_loop i 0 r = Some r"
| "queue_free_loop i (Suc n) r = do { r \<leftarrow> rt_rbb_blk_free i r; queue_free_loop (i + 1) n r }"

definition rt_rbb_blk_queue_free :: "rt_rbb_blk_queue \<Rightarrow> rt_rbb \<Rightarrow> rt_rbb option" where
  "rt_rbb_blk_queue_free q r = queue_free_loop (rbq_blocks q) (unat (rbq_blk_num q)) r"

partial_function (option) next_len_loop :: "rt_rbb \<Rightarrow> rbb_node option \<Rightarrow> nat option \<Rightarrow> u32 \<Rightarrow> u32 option" where
  "next_len_loop r node last_block data_len =
     (case node of
        None \<Rightarrow> Some data_len
      | Some n \<Rightarrow> do {
          i \<leftarrow> rt_slist_entry n;
          b \<leftarrow> rbb_blk r i;
          case last_block of
            None \<Rightarrow>
              if blk_status b \<noteq> RT_RBB_BLK_PUT then next_len_loop r (rt_slist_next n (rbb_links r)) None data_len
              else next_len_loop r (rt_slist_next n (rbb_links r)) (Some i) (data_len + ucast (blk_size b))
          | Some l \<Rightarrow> do {
              lb \<leftarrow> rbb_blk r l;
              if blk_status b \<noteq> RT_RBB_BLK_PUT \<or> blk_buf lb > blk_buf b then Some data_len
              else next_len_loop r (rt_slist_next n (rbb_links r)) (Some i) (data_len + ucast (blk_size b))
            }
        })"

definition rt_rbb_next_blk_queue_len :: "rt_rbb \<Rightarrow> u32 option" where
  "rt_rbb_next_blk_queue_len r =
     (if rt_slist_isempty Head (rbb_links r) then Some 0
      else next_len_loop r (rt_slist_first Head (rbb_links r)) None 0)"

definition rt_rbb_get_buf_size :: "rt_rbb \<Rightarrow> u32" where
  "rt_rbb_get_buf_size r = rbb_buf_size r"


section \<open>Blocks in a ring\<close>

text \<open>Blocks that lie in ascending order, apart from each other, between \<open>a\<close> and \<open>e\<close>.\<close>

fun packed :: "nat \<Rightarrow> rt_rbb_blk list \<Rightarrow> nat \<Rightarrow> bool" where
  "packed a [] e \<longleftrightarrow> a \<le> e"
| "packed a (b # bs) e \<longleftrightarrow> a \<le> blk_buf b \<and> 0 < blk_size b \<and> packed (blk_end b) bs e"

lemma blk_end_le: "blk_buf b \<le> blk_end b"
  by (simp add: blk_end_def)

lemma blk_end_less: "0 < blk_size b \<Longrightarrow> blk_buf b < blk_end b"
  by (simp add: blk_end_def word_less_nat_alt)

lemma packed_le: "packed a bs e \<Longrightarrow> a \<le> e"
proof (induction bs arbitrary: a)
  case (Cons b bs)
  then show ?case using blk_end_le [of b] by (auto dest: Cons.IH)
qed simp

lemma packed_from: "packed m bs e \<Longrightarrow> a \<le> m \<Longrightarrow> packed a bs e"
  by (cases bs) auto

lemma packed_upto: "packed a bs e \<Longrightarrow> e \<le> e' \<Longrightarrow> packed a bs e'"
  by (induction bs arbitrary: a) auto

lemma packed_snoc:
  "packed a (bs @ [b]) e \<longleftrightarrow> packed a bs (blk_buf b) \<and> 0 < blk_size b \<and> blk_end b \<le> e"
  by (induction bs arbitrary: a) auto

lemma packed_own_start: "packed a (b # bs) e \<Longrightarrow> packed (blk_buf b) (b # bs) e"
  by simp

lemma packed_del: "packed a (xs @ y # ys) e \<Longrightarrow> packed a (xs @ ys) e"
proof (induction xs arbitrary: a)
  case Nil
  then show ?case using packed_from [of "blk_end y" ys e a] blk_end_le [of y] by simp
qed simp

lemma packed_in: "packed a bs e \<Longrightarrow> b \<in> set bs \<Longrightarrow> a \<le> blk_buf b \<and> 0 < blk_size b \<and> blk_end b \<le> e"
proof (induction bs arbitrary: a)
  case (Cons c bs)
  then show ?case using blk_end_le [of c] packed_le [of "blk_end c" bs e] by (auto dest!: Cons.IH)
qed simp

lemma packed_last: "packed a bs e \<Longrightarrow> bs \<noteq> [] \<Longrightarrow> packed a bs (blk_end (last bs)) \<and> blk_end (last bs) \<le> e"
  by (cases bs rule: rev_cases) (auto simp: packed_snoc)


lemma packed_sum: "packed a bs e \<Longrightarrow> a + (\<Sum>b\<leftarrow>bs. unat (blk_size b)) \<le> e"
proof (induction bs arbitrary: a)
  case (Cons b bs)
  then show ?case by (fastforce simp: blk_end_def)
qed simp

text \<open>The ring: an older part, and after a turn at the end of the buffer a newer part below it.\<close>

definition ring_laid :: "nat \<Rightarrow> nat \<Rightarrow> rt_rbb_blk list \<Rightarrow> bool" where
  "ring_laid a e bs \<longleftrightarrow> a \<le> e \<and> (bs = [] \<or>
     (\<exists>us vs. bs = us @ vs \<and> us \<noteq> [] \<and> packed a vs (blk_buf (hd us)) \<and> packed (blk_buf (hd us)) us e))"

lemma ring_laidI:
  assumes "packed a vs (blk_buf (hd us))" and "packed (blk_buf (hd us)) us e" and "us \<noteq> []"
  shows "ring_laid a e (us @ vs)"
proof -
  have "a \<le> e" using packed_le [OF assms(1)] packed_le [OF assms(2)] by simp
  then show ?thesis using assms unfolding ring_laid_def by blast
qed

lemma ring_laidE:
  assumes "ring_laid a e bs" and "bs \<noteq> []"
  obtains us vs where "bs = us @ vs" "us \<noteq> []" "packed a vs (blk_buf (hd us))" "packed (blk_buf (hd us)) us e"
  using assms unfolding ring_laid_def by blast

lemma ring_laid_straight: "packed a bs e \<Longrightarrow> ring_laid a e bs"
proof (cases bs)
  case (Cons b cs)
  assume "packed a bs e"
  then show ?thesis using ring_laidI [of a "[]" bs e] Cons by auto
qed (auto simp: ring_laid_def)

lemma ring_laid_in:
  assumes "ring_laid a e bs" and "b \<in> set bs"
  shows "a \<le> blk_buf b \<and> 0 < blk_size b \<and> blk_end b \<le> e"
proof -
  have ne: "bs \<noteq> []" using assms(2) by auto
  obtain us vs where l: "bs = us @ vs" "us \<noteq> []" "packed a vs (blk_buf (hd us))" "packed (blk_buf (hd us)) us e"
    by (rule ring_laidE [OF assms(1) ne])
  show ?thesis using packed_in [OF l(3), of b] packed_in [OF l(4), of b] packed_le [OF l(3)] packed_le [OF l(4)]
      assms(2) l(1) by auto
qed


lemma ring_laid_sum:
  assumes "ring_laid a e bs"
  shows "a + (\<Sum>b\<leftarrow>bs. unat (blk_size b)) \<le> e"
proof (cases "bs = []")
  case False
  then have ne: "bs \<noteq> []" .
  obtain us vs where l: "bs = us @ vs" "us \<noteq> []" "packed a vs (blk_buf (hd us))" "packed (blk_buf (hd us)) us e"
    by (rule ring_laidE [OF assms(1) ne])
  then show ?thesis using packed_sum [OF l(3)] packed_sum [OF l(4)] by simp
qed (use assms in \<open>simp add: ring_laid_def\<close>)

lemma ring_laid_del:
  assumes "ring_laid a e (xs @ y # ys)"
  shows "ring_laid a e (xs @ ys)"
proof -
  have ne: "xs @ y # ys \<noteq> []" by simp
  obtain us vs where l: "xs @ y # ys = us @ vs" "us \<noteq> []" "packed a vs (blk_buf (hd us))" "packed (blk_buf (hd us)) us e"
    by (rule ring_laidE [OF assms(1) ne])
  consider zs where "xs = us @ zs" "vs = zs @ y # ys" | zs where "us = xs @ y # zs" "ys = zs @ vs"
  proof -
    from l(1) obtain ws where "xs = us @ ws \<and> ws @ y # ys = vs \<or> xs @ ws = us \<and> y # ys = ws @ vs"
      unfolding append_eq_append_conv2 by blast
    then show ?thesis using that(1) [of ws] that(1) [of "[]"] that(2) [of "tl ws"] by (cases ws) auto
  qed
  then show ?thesis
  proof cases
    case 1
    then have "packed a (zs @ ys) (blk_buf (hd us))" using l(3) packed_del by blast
    then show ?thesis using ring_laidI [OF _ l(4,2)] 1 by simp
  next
    case 2
    show ?thesis
    proof (cases xs)
      case (Cons x xs')
      then have "packed (blk_buf x) (xs @ zs) e" using l(4) 2 packed_del [of "blk_buf x" xs y zs e] by simp
      then show ?thesis using ring_laidI [of a vs "xs @ zs" e] l(3) 2 Cons by simp
    next
      case Nil
      have ve: "packed a vs (blk_buf y)" "packed (blk_end y) zs e" "blk_buf y \<le> e"
        using l(3,4) 2 Nil packed_le [OF l(4)] by simp_all
      show ?thesis
      proof (cases zs)
        case Nil
        then show ?thesis using ring_laid_straight packed_upto [OF ve(1,3)] 2 \<open>xs = []\<close> by simp
      next
        case (Cons z zs')
        then have "packed (blk_buf z) zs e" "blk_buf y \<le> blk_buf z" using ve(2) blk_end_le [of y] by auto
        then show ?thesis using ring_laidI [of a vs zs e] packed_upto [OF ve(1)] 2 Nil Cons by simp
      qed
    qed
  qed
qed

text \<open>The comparison of the code tells whether the ring has turned.\<close>

lemma ring_laid_not_turned:
  assumes "ring_laid a e bs" and "bs \<noteq> []" and "blk_buf (hd bs) \<le> blk_buf (last bs)"
  shows "a \<le> blk_buf (hd bs) \<and> packed (blk_buf (hd bs)) bs e"
proof -
  obtain us vs where l: "bs = us @ vs" "us \<noteq> []" "packed a vs (blk_buf (hd us))" "packed (blk_buf (hd us)) us e"
    by (rule ring_laidE [OF assms(1) assms(2)])
  have "vs = []"
  proof (rule ccontr)
    assume "vs \<noteq> []"
    then show False using packed_in [OF l(3), of "last vs"] blk_end_less [of "last vs"] assms(3) l(1,2) by simp
  qed
  then show ?thesis using l packed_le [OF l(3)] by simp
qed

lemma ring_laid_turned:
  assumes "ring_laid a e bs" and "bs \<noteq> []" and "blk_buf (last bs) < blk_buf (hd bs)"
  obtains us vs where "bs = us @ vs" "us \<noteq> []" "vs \<noteq> []" "packed a vs (blk_buf (hd us))" "packed (blk_buf (hd us)) us e"
proof -
  obtain us vs where l: "bs = us @ vs" "us \<noteq> []" "packed a vs (blk_buf (hd us))" "packed (blk_buf (hd us)) us e"
    by (rule ring_laidE [OF assms(1) assms(2)])
  have "vs \<noteq> []"
  proof
    assume "vs = []"
    then show False using packed_in [OF l(4), of "last us"] assms(3) l(1,2) by simp
  qed
  then show ?thesis using that l by blast
qed

lemma ring_laid_end:
  assumes "ring_laid a e bs" and "bs \<noteq> []" and "blk_buf (hd bs) \<le> blk_buf (last bs)"
    and "blk_buf b = blk_end (last bs)" and "0 < blk_size b" and "blk_end b \<le> e"
  shows "ring_laid a e (bs @ [b])"
proof -
  note s = ring_laid_not_turned [OF assms(1-3)]
  have "packed (blk_buf (hd bs)) (bs @ [b]) e"
    using packed_last [of "blk_buf (hd bs)" bs e] s assms(2,4-6) by (simp add: packed_snoc)
  then show ?thesis using packed_from [THEN ring_laid_straight] s by blast
qed

lemma ring_laid_turn:
  assumes "ring_laid a e bs" and "bs \<noteq> []" and "blk_buf (hd bs) \<le> blk_buf (last bs)"
    and "blk_buf b = a" and "0 < blk_size b" and "blk_end b \<le> blk_buf (hd bs)"
  shows "ring_laid a e (bs @ [b])"
  using ring_laidI [of a "[b]" bs e] ring_laid_not_turned [OF assms(1-3)] assms by simp

lemma ring_laid_gap:
  assumes "ring_laid a e bs" and "bs \<noteq> []" and "blk_buf (last bs) < blk_buf (hd bs)"
    and "blk_buf b = blk_end (last bs)" and "0 < blk_size b" and "blk_end b \<le> blk_buf (hd bs)"
  shows "ring_laid a e (bs @ [b])"
proof -
  obtain us vs where l: "bs = us @ vs" "us \<noteq> []" "vs \<noteq> []" "packed a vs (blk_buf (hd us))" "packed (blk_buf (hd us)) us e"
    using ring_laid_turned [OF assms(1-3)] by metis
  then have "packed a (vs @ [b]) (blk_buf (hd us))"
    using packed_last [OF l(4,3)] assms(4-6) by (simp add: packed_snoc)
  then show ?thesis using ring_laidI [OF _ l(5,2)] l(1) by simp
qed

lemma ring_laid_room: "ring_laid a e bs \<Longrightarrow> bs \<noteq> [] \<Longrightarrow> blk_buf (last bs) < blk_buf (hd bs) \<Longrightarrow> blk_end (last bs) \<le> blk_buf (hd bs)"
  by (erule ring_laid_turned) (auto dest: packed_last)


section \<open>Well-formed ring block buffers\<close>

abbreviation rbb_end :: "rt_rbb \<Rightarrow> nat" where "rbb_end r \<equiv> rbb_buf r + unat (rbb_buf_size r)"

text \<open>\<open>xs\<close> are the listed blocks, in the order of the list.\<close>

definition rbb_rep :: "rt_rbb \<Rightarrow> nat list \<Rightarrow> bool" where
  "rbb_rep r xs \<longleftrightarrow>
     slist (rbb_links r) Head (map Blk xs) \<and> length (rbb_blk_set r) = unat (rbb_blk_max_num r) \<and>
     (\<forall>i \<in> set xs. i < length (rbb_blk_set r) \<and> blk_status (rbb_blk_set r ! i) \<noteq> RT_RBB_BLK_UNUSED) \<and>
     ring_laid (rbb_buf r) (rbb_end r) (map ((!) (rbb_blk_set r)) xs) \<and> rbb_end r < 2 ^ 32"

definition rbb_held :: "rt_rbb \<Rightarrow> nat set" where
  "rbb_held r = {i. i < length (rbb_blk_set r) \<and> blk_status (rbb_blk_set r ! i) \<noteq> RT_RBB_BLK_UNUSED}"

text \<open>Every block in use is listed: what \<open>rt_rbb_blk_queue_get\<close> alone breaks.\<close>

definition rbb_wf :: "rt_rbb \<Rightarrow> bool" where
  "rbb_wf r \<longleftrightarrow> (\<exists>xs. rbb_rep r xs \<and> set xs = rbb_held r)"

lemma set_rbb_blk_simps [simp]:
  "rbb_buf (set_rbb_blk i f r) = rbb_buf r" "rbb_buf_size (set_rbb_blk i f r) = rbb_buf_size r"
  "rbb_blk_max_num (set_rbb_blk i f r) = rbb_blk_max_num r" "rbb_links (set_rbb_blk i f r) = rbb_links r"
  "rbb_blk_set (set_rbb_blk i f r) = (rbb_blk_set r)[i := f (rbb_blk_set r ! i)]"
  by (simp_all add: set_rbb_blk_def)

lemma rbb_blk_Some [simp]: "i < length (rbb_blk_set r) \<Longrightarrow> rbb_blk r i = Some (rbb_blk_set r ! i)"
  by (simp add: rbb_blk_def)

lemma rbb_repD:
  assumes "rbb_rep r xs"
  shows "slist (rbb_links r) Head (map Blk xs)" "length (rbb_blk_set r) = unat (rbb_blk_max_num r)"
    "i \<in> set xs \<Longrightarrow> i < length (rbb_blk_set r)" "i \<in> set xs \<Longrightarrow> blk_status (rbb_blk_set r ! i) \<noteq> RT_RBB_BLK_UNUSED"
    "ring_laid (rbb_buf r) (rbb_end r) (map ((!) (rbb_blk_set r)) xs)" "rbb_end r < 2 ^ 32" "distinct xs"
  using assms by (auto simp: rbb_rep_def slist_def distinct_map)

lemma rbb_rep_held: "rbb_rep r xs \<Longrightarrow> set xs \<subseteq> rbb_held r"
  by (auto simp: rbb_held_def dest: rbb_repD)

lemma find_empty_loop:
  "i + n \<le> length (rbb_blk_set r) \<Longrightarrow>
   find_empty_loop r i n = Some (find (\<lambda>i. blk_status (rbb_blk_set r ! i) = RT_RBB_BLK_UNUSED) [i..<i + n])"
  by (induction n arbitrary: i) (simp_all add: upt_conv_Cons del: upt_Suc)

lemma find_empty_rep:
  "rbb_rep r xs \<Longrightarrow> find_empty_blk_in_set r =
     Some (find (\<lambda>i. blk_status (rbb_blk_set r ! i) = RT_RBB_BLK_UNUSED) [0..<length (rbb_blk_set r)])"
  using find_empty_loop [of 0 "length (rbb_blk_set r)" r] by (simp add: find_empty_blk_in_set_def rbb_repD(2))

lemma rbb_len: "rbb_rep r xs \<Longrightarrow> rt_slist_len Head (rbb_links r) = Some (length xs)"
  using slist_len [OF rbb_repD(1)] by simp

lemma rbb_first: "rbb_rep r xs \<Longrightarrow> xs \<noteq> [] \<Longrightarrow> rt_slist_first Head (rbb_links r) = Some (Blk (hd xs))"
  using slist_first [OF rbb_repD(1)] by (simp add: rt_slist_first_def hd_map)

lemma rbb_tail: "rbb_rep r xs \<Longrightarrow> xs \<noteq> [] \<Longrightarrow> rt_slist_tail (rbb_links r) Head = Some (Blk (last xs))"
  using slist_tail [OF rbb_repD(1)] by (simp add: last_map)

lemma rbb_isempty: "rbb_rep r xs \<Longrightarrow> rt_slist_isempty Head (rbb_links r) \<longleftrightarrow> xs = []"
  using slist_isempty [OF rbb_repD(1)] by simp

lemma unat_ptr_diff: "b \<le> a \<Longrightarrow> a < 2 ^ 32 \<Longrightarrow> unat (ptr_diff a b) = a - b"
proof -
  assume "b \<le> a" "a < 2 ^ 32"
  then have "ptr_diff a b = word_of_nat (a - b)" by (simp add: ptr_diff_def of_nat_diff)
  then show ?thesis using \<open>a < 2 ^ 32\<close> unat_word_of_nat [of "a - b", where 'a = 32] by simp
qed

lemma unat_ucast_24: "sz < 2 ^ 24 \<Longrightarrow> unat (ucast sz :: 24 word) = unat sz" for sz :: u32
  by (simp add: unsigned_ucast_eq word_less_nat_alt take_bit_nat_eq_self)


section \<open>Allocation\<close>

abbreviation placed :: "u32 \<Rightarrow> ptr \<Rightarrow> rt_rbb_blk" where
  "placed sz addr \<equiv> \<lparr>blk_status = RT_RBB_BLK_INITED, blk_size = ucast sz, blk_buf = addr\<rparr>"

text \<open>Where a block of \<open>n\<close> bytes goes, if there is room for it.\<close>

definition rbb_room :: "rt_rbb \<Rightarrow> nat list \<Rightarrow> nat \<Rightarrow> ptr option" where
  "rbb_room r xs n =
     (if xs = [] then Some (rbb_buf r)
      else let h = rbb_blk_set r ! hd xs; t = rbb_blk_set r ! last xs in
        if blk_buf h \<le> blk_buf t
        then if n \<le> rbb_end r - blk_end t then Some (blk_end t)
             else if n \<le> blk_buf h - rbb_buf r then Some (rbb_buf r) else None
        else if n \<le> blk_buf h - blk_end t then Some (blk_end t) else None)"

lemma rbb_place:
  assumes r: "rbb_rep r xs" and i: "i \<notin> set xs"
  shows "\<exists>l. rbb_place i addr sz r = Some (Some i, r\<lparr>rbb_links := l, rbb_blk_set := (rbb_blk_set r)[i := placed sz addr]\<rparr>) \<and>
    slist l Head (map Blk (xs @ [i]))"
proof -
  obtain l where "rt_slist_append Head (Blk i) (rbb_links r) = Some l" "slist l Head (map Blk xs @ [Blk i])"
    using slist_append [OF rbb_repD(1) [OF r], of "Blk i"] i by auto
  then show ?thesis by (cases "rbb_blk_set r ! i") (auto simp: rbb_place_def set_rbb_blk_def)
qed

lemma rbb_rep_place:
  assumes r: "rbb_rep r xs" and i: "i \<notin> set xs" "i < length (rbb_blk_set r)"
    and l: "slist l Head (map Blk (xs @ [i]))"
    and g: "ring_laid (rbb_buf r) (rbb_end r) (map ((!) (rbb_blk_set r)) xs @ [placed sz addr])"
  shows "rbb_rep (r\<lparr>rbb_links := l, rbb_blk_set := (rbb_blk_set r)[i := placed sz addr]\<rparr>) (xs @ [i])"
proof -
  have m: "map ((!) ((rbb_blk_set r)[i := placed sz addr])) xs = map ((!) (rbb_blk_set r)) xs"
    by (intro map_cong refl nth_list_update_neq) (use i(1) in auto)
  show ?thesis using rbb_repD [OF r] i l g by (auto simp: rbb_rep_def m nth_list_update)
qed

lemma rbb_room_laid:
  assumes r: "rbb_rep r xs" and sz: "0 < sz" "sz < 2 ^ 24" "unat sz \<le> unat (rbb_buf_size r)"
    and a: "rbb_room r xs (unat sz) = Some addr"
  shows "ring_laid (rbb_buf r) (rbb_end r) (map ((!) (rbb_blk_set r)) xs @ [placed sz addr])"
proof -
  let ?bs = "map ((!) (rbb_blk_set r)) xs" and ?b = "placed sz addr"
  note g = rbb_repD(5) [OF r]
  have e: "blk_end ?b = addr + unat sz" using sz by (simp add: blk_end_def unat_ucast_24)
  have p: "0 < blk_size ?b" using sz unat_ucast_24 [OF sz(2)] by (simp add: word_less_nat_alt)
  show ?thesis
  proof (cases "xs = []")
    case True
    then show ?thesis using ring_laid_straight [of "rbb_buf r" "[?b]" "rbb_end r"] p e a sz(3) by (simp add: rbb_room_def)
  next
    case False
    then have ht: "hd ?bs = rbb_blk_set r ! hd xs" "last ?bs = rbb_blk_set r ! last xs" "?bs \<noteq> []"
      by (simp_all add: hd_map last_map)
    have le: "blk_end (last ?bs) \<le> rbb_end r" "rbb_buf r \<le> blk_buf (hd ?bs)"
      using ring_laid_in [OF g last_in_set [OF ht(3)]] ring_laid_in [OF g hd_in_set [OF ht(3)]] by simp_all
    show ?thesis
    proof (cases "blk_buf (hd ?bs) \<le> blk_buf (last ?bs)")
      case True
      consider "addr = blk_end (last ?bs)" "unat sz \<le> rbb_end r - blk_end (last ?bs)"
        | "addr = rbb_buf r" "unat sz \<le> blk_buf (hd ?bs) - rbb_buf r"
        using a False True unfolding rbb_room_def ht by (auto simp: Let_def split: if_splits)
      then show ?thesis
      proof cases
        case 1
        then show ?thesis using ring_laid_end [OF g ht(3) True, of ?b] p e le by simp
      next
        case 2
        then show ?thesis using ring_laid_turn [OF g ht(3) True, of ?b] p e le by simp
      qed
    next
      case turned: False
      then have "addr = blk_end (last ?bs)" "unat sz \<le> blk_buf (hd ?bs) - blk_end (last ?bs)"
        using a False unfolding rbb_room_def ht by (auto simp: Let_def split: if_splits)
      then show ?thesis using ring_laid_gap [OF g ht(3), of ?b] ring_laid_room [OF g ht(3)] p e turned by simp
    qed
  qed
qed


definition rbb_unused :: "rt_rbb \<Rightarrow> nat option" where
  "rbb_unused r = find (\<lambda>i. blk_status (rbb_blk_set r ! i) = RT_RBB_BLK_UNUSED) [0..<length (rbb_blk_set r)]"

lemma rbb_unused_Some:
  "rbb_unused r = Some i \<Longrightarrow> i < length (rbb_blk_set r) \<and> blk_status (rbb_blk_set r ! i) = RT_RBB_BLK_UNUSED"
  by (auto simp: rbb_unused_def find_Some_iff)

lemma rbb_unused_None: "rbb_unused r = None \<longleftrightarrow> rbb_held r = {..<length (rbb_blk_set r)}"
  by (auto simp: rbb_unused_def find_None_iff rbb_held_def)

lemma rbb_unused_fresh:
  assumes r: "rbb_rep r xs" and i: "rbb_unused r = Some i"
  shows "i \<notin> set xs" "length xs < unat (rbb_blk_max_num r)"
proof -
  show n: "i \<notin> set xs" using rbb_unused_Some [OF i] rbb_repD(4) [OF r] by blast
  have "set (i # xs) \<subseteq> {..<length (rbb_blk_set r)}" using rbb_unused_Some [OF i] rbb_repD(3) [OF r] by auto
  then have "length (i # xs) \<le> length (rbb_blk_set r)"
    using distinct_card [of "i # xs"] card_mono [of "{..<length (rbb_blk_set r)}" "set (i # xs)"] n rbb_repD(7) [OF r] by simp
  then show "length xs < unat (rbb_blk_max_num r)" using rbb_repD(2) [OF r] by simp
qed

lemma rbb_alloc_result:
  assumes r: "rbb_rep r xs" and sz: "sz < 2 ^ 24"
  shows "rt_rbb_blk_alloc sz r =
    (case rbb_unused r of
       None \<Rightarrow> Some (None, r)
     | Some i \<Rightarrow> (case rbb_room r xs (unat sz) of None \<Rightarrow> Some (None, r) | Some addr \<Rightarrow> rbb_place i addr sz r))"
proof (cases "rbb_unused r")
  case None
  then show ?thesis using find_empty_rep [OF r] rbb_len [OF r] sz by (simp add: rt_rbb_blk_alloc_def rbb_unused_def)
next
  case (Some i)
  note f = find_empty_rep [OF r, folded rbb_unused_def] rbb_len [OF r] rbb_unused_fresh [OF r Some]
  show ?thesis
  proof (cases "xs = []")
    case True
    then show ?thesis using f sz Some by (simp add: rt_rbb_blk_alloc_def rbb_room_def)
  next
    case False
    let ?bs = "map ((!) (rbb_blk_set r)) xs" and ?h = "rbb_blk_set r ! hd xs" and ?t = "rbb_blk_set r ! last xs"
    note g = rbb_repD(5) [OF r]
    have ht: "hd ?bs = ?h" "last ?bs = ?t" "?bs \<noteq> []" using False by (simp_all add: hd_map last_map)
    have le: "blk_end ?t \<le> rbb_end r" "rbb_buf r \<le> blk_buf ?h" "blk_end ?h \<le> rbb_end r"
      using ring_laid_in [OF g last_in_set [OF ht(3)]] ring_laid_in [OF g hd_in_set [OF ht(3)]] unfolding ht by simp_all
    have lt: "rbb_end r < 2 ^ 32" "blk_buf ?h < 2 ^ 32" using rbb_repD(6) [OF r] le(3) blk_end_le [of ?h] by simp_all
    have e: "rt_slist_first Head (rbb_links r) = Some (Blk (hd xs))" "rbb_blk r (hd xs) = Some ?h"
      "rt_slist_tail (rbb_links r) Head = Some (Blk (last xs))" "rbb_blk r (last xs) = Some ?t"
      using rbb_first [OF r False] rbb_tail [OF r False] rbb_repD(3) [OF r] False by simp_all
    have d: "sz \<le> ptr_diff (rbb_end r) (blk_end ?t) \<longleftrightarrow> unat sz \<le> rbb_end r - blk_end ?t"
      "sz \<le> ptr_diff (blk_buf ?h) (rbb_buf r) \<longleftrightarrow> unat sz \<le> blk_buf ?h - rbb_buf r"
      using le lt by (simp_all add: word_le_nat_alt unat_ptr_diff)
    have dt: "sz \<le> ptr_diff (blk_buf ?h) (blk_end ?t) \<longleftrightarrow> unat sz \<le> blk_buf ?h - blk_end ?t" if "blk_buf ?t < blk_buf ?h"
      using ring_laid_room [OF g ht(3)] that lt unfolding ht by (simp add: word_le_nat_alt unat_ptr_diff)
    show ?thesis
      using f sz Some False e d dt by (simp add: rt_rbb_blk_alloc_def rbb_room_def Let_def)
  qed
qed

text \<open>A block that is handed out is listed last; the others keep their place.\<close>

lemma rbb_alloc_gives:
  assumes r: "rbb_rep r xs" and sz: "0 < sz" "sz < 2 ^ 24" "unat sz \<le> unat (rbb_buf_size r)"
    and u: "rbb_unused r = Some i" and a: "rbb_room r xs (unat sz) = Some addr"
  shows "\<exists>r'. rt_rbb_blk_alloc sz r = Some (Some i, r') \<and> rbb_rep r' (xs @ [i]) \<and>
    rbb_blk_set r' = (rbb_blk_set r)[i := placed sz addr] \<and> rbb_buf r' = rbb_buf r \<and> rbb_buf_size r' = rbb_buf_size r"
proof -
  note n = rbb_unused_fresh(1) [OF r u] and i = rbb_unused_Some [OF u, THEN conjunct1]
  obtain l where l: "rbb_place i addr sz r = Some (Some i, r\<lparr>rbb_links := l, rbb_blk_set := (rbb_blk_set r)[i := placed sz addr]\<rparr>)"
    "slist l Head (map Blk (xs @ [i]))"
    using rbb_place [OF r n] by blast
  show ?thesis
    using rbb_alloc_result [OF r sz(2)] u a l(1) rbb_rep_place [OF r n i l(2) rbb_room_laid [OF r sz a]] by simp
qed

lemma rbb_alloc_refused:
  "rbb_rep r xs \<Longrightarrow> sz < 2 ^ 24 \<Longrightarrow> rbb_unused r = None \<or> rbb_room r xs (unat sz) = None \<Longrightarrow>
   rt_rbb_blk_alloc sz r = Some (None, r)"
  by (auto simp: rbb_alloc_result split: option.splits)


section \<open>Free, put and get\<close>

lemma map_nth_upd: "i \<notin> set xs \<Longrightarrow> map ((!) (bs[i := b])) xs = map ((!) bs) xs"
  by (intro map_cong refl nth_list_update_neq) auto

lemma rbb_free_ok:
  assumes r: "rbb_rep r xs" and i: "i \<in> rbb_held r"
  shows "\<exists>r'. rt_rbb_blk_free i r = Some r' \<and> rbb_rep r' (remove1 i xs) \<and> rbb_held r' = rbb_held r - {i} \<and>
    rbb_blk_set r' = (rbb_blk_set r)[i := (rbb_blk_set r ! i)\<lparr>blk_status := RT_RBB_BLK_UNUSED\<rparr>] \<and>
    rbb_buf r' = rbb_buf r \<and> rbb_buf_size r' = rbb_buf_size r"
proof -
  note d = rbb_repD [OF r]
  obtain l where l: "rt_slist_remove Head (Blk i) (rbb_links r) = Some l" "slist l Head (remove1 (Blk i) (map Blk xs))"
    using slist_remove [OF d(1), of "Blk i"] by auto
  have m: "remove1 (Blk i) (map Blk xs) = map Blk (remove1 i xs)" by (induction xs) auto
  let ?r = "set_rbb_blk i (\<lambda>b. b\<lparr>blk_status := RT_RBB_BLK_UNUSED\<rparr>) (r\<lparr>rbb_links := l\<rparr>)"
  have il: "i < length (rbb_blk_set r)" "blk_status (rbb_blk_set r ! i) \<noteq> RT_RBB_BLK_UNUSED"
    using i by (simp_all add: rbb_held_def)
  have n: "i \<notin> set (remove1 i xs)" using d(7) by simp
  have "ring_laid (rbb_buf r) (rbb_end r) (map ((!) (rbb_blk_set r)) (remove1 i xs))"
  proof (cases "i \<in> set xs")
    case True
    then obtain us vs where "xs = us @ i # vs" "i \<notin> set us" by (meson split_list_first)
    then show ?thesis using d(5) ring_laid_del by (simp add: remove1_append)
  qed (use d(5) in \<open>simp add: remove1_idem\<close>)
  then have "rbb_rep ?r (remove1 i xs)"
    using d l(2) n by (auto simp: rbb_rep_def m map_nth_upd nth_list_update set_remove1_eq dest: notin_set_remove1)
  moreover have "rbb_held ?r = rbb_held r - {i}" using il(1) by (auto simp: rbb_held_def nth_list_update split: if_splits)
  ultimately show ?thesis using l(1) il by (auto simp: rt_rbb_blk_free_def)
qed

lemma rbb_rep_status:
  assumes r: "rbb_rep r xs" and i: "i < length (rbb_blk_set r)" and s: "st \<noteq> RT_RBB_BLK_UNUSED"
  shows "rbb_rep (set_rbb_blk i (\<lambda>b. b\<lparr>blk_status := st\<rparr>) r) xs"
    and "blk_status (rbb_blk_set r ! i) \<noteq> RT_RBB_BLK_UNUSED \<Longrightarrow>
      rbb_held (set_rbb_blk i (\<lambda>b. b\<lparr>blk_status := st\<rparr>) r) = rbb_held r"
proof -
  have p: "packed a (map f xs) e \<longleftrightarrow> packed a (map g xs) e"
    if "\<And>x. blk_buf (f x) = blk_buf (g x) \<and> blk_size (f x) = blk_size (g x)" for f g :: "nat \<Rightarrow> rt_rbb_blk" and xs a e
    using that by (induction xs arbitrary: a) (simp_all add: blk_end_def)
  let ?f = "(!) ((rbb_blk_set r)[i := (rbb_blk_set r ! i)\<lparr>blk_status := st\<rparr>])"
  have f: "blk_buf (?f x) = blk_buf (rbb_blk_set r ! x) \<and> blk_size (?f x) = blk_size (rbb_blk_set r ! x)" for x
    using i by (cases "x = i") simp_all
  have "ring_laid a e (map ?f xs)" if g: "ring_laid a e (map ((!) (rbb_blk_set r)) xs)" for a e
  proof (cases "xs = []")
    case False
    then have ne: "map ((!) (rbb_blk_set r)) xs \<noteq> []" by simp
    obtain us' vs' where l': "map ((!) (rbb_blk_set r)) xs = us' @ vs'" "us' \<noteq> []" "packed a vs' (blk_buf (hd us'))"
      "packed (blk_buf (hd us')) us' e"
      by (rule ring_laidE [OF g ne])
    then obtain us vs where uv: "xs = us @ vs" "us' = map ((!) (rbb_blk_set r)) us" "vs' = map ((!) (rbb_blk_set r)) vs"
      by (auto simp: map_eq_append_conv)
    then have l: "xs = us @ vs" "us \<noteq> []" "packed a (map ((!) (rbb_blk_set r)) vs) (blk_buf (rbb_blk_set r ! hd us))"
      "packed (blk_buf (rbb_blk_set r ! hd us)) (map ((!) (rbb_blk_set r)) us) e"
      using l'(2-4) by (simp_all add: hd_map)
    have "packed a (map ?f vs) (blk_buf (?f (hd us)))" "packed (blk_buf (?f (hd us))) (map ?f us) e"
      using l(3,4) f p [of ?f "(!) (rbb_blk_set r)"] by simp_all
    then show ?thesis using ring_laidI [of a "map ?f vs" "map ?f us" e] l(1,2) by (simp add: hd_map)
  qed (use g in simp)
  then show "rbb_rep (set_rbb_blk i (\<lambda>b. b\<lparr>blk_status := st\<rparr>) r) xs"
    using rbb_repD [OF r] s by (auto simp: rbb_rep_def nth_list_update [OF i])
  show "rbb_held (set_rbb_blk i (\<lambda>b. b\<lparr>blk_status := st\<rparr>) r) = rbb_held r"
    if "blk_status (rbb_blk_set r ! i) \<noteq> RT_RBB_BLK_UNUSED"
    using that s i by (auto simp: rbb_held_def nth_list_update [OF i])
qed


lemma rbb_get_loop:
  "chain (rbb_links r) a (map Blk ys) \<Longrightarrow> \<forall>i \<in> set ys. i < length (rbb_blk_set r) \<Longrightarrow>
   rbb_get_loop r a = Some (case find (\<lambda>i. blk_status (rbb_blk_set r ! i) = RT_RBB_BLK_PUT) ys of
     None \<Rightarrow> (None, r)
   | Some i \<Rightarrow> (Some i, set_rbb_blk i (\<lambda>b. b\<lparr>blk_status := RT_RBB_BLK_GET\<rparr>) r))"
proof (induction ys arbitrary: a)
  case Nil
  then show ?case by (subst rbb_get_loop.simps) simp
next
  case (Cons y ys)
  then show ?case by (subst rbb_get_loop.simps) (simp add: rt_slist_next_def)
qed

lemma rbb_get_result:
  assumes r: "rbb_rep r xs"
  shows "rt_rbb_blk_get r = Some (case find (\<lambda>i. blk_status (rbb_blk_set r ! i) = RT_RBB_BLK_PUT) xs of
     None \<Rightarrow> (None, r)
   | Some i \<Rightarrow> (Some i, set_rbb_blk i (\<lambda>b. b\<lparr>blk_status := RT_RBB_BLK_GET\<rparr>) r))"
proof (cases "xs = []")
  case True
  then show ?thesis using rbb_isempty [OF r] by (simp add: rt_rbb_blk_get_def)
next
  case False
  then show ?thesis using rbb_isempty [OF r] rbb_get_loop [of r "rbb_links r Head" xs] rbb_repD [OF r]
    by (simp add: rt_rbb_blk_get_def rt_slist_first_def slist_def)
qed


section \<open>Queues of blocks\<close>

text \<open>The blocks a queue takes: from the first block that was put, as long as the next one was put as well,
  lies above it and does not lead over the limit.\<close>

fun rbb_grow :: "rt_rbb_blk list \<Rightarrow> nat \<Rightarrow> nat \<Rightarrow> nat \<Rightarrow> nat list \<Rightarrow> nat list" where
  "rbb_grow bs lim l t [] = []"
| "rbb_grow bs lim l t (i # is) =
     (if blk_status (bs ! i) = RT_RBB_BLK_PUT \<and> blk_buf (bs ! l) \<le> blk_buf (bs ! i) \<and> t + unat (blk_size (bs ! i)) \<le> lim
      then i # rbb_grow bs lim i (t + unat (blk_size (bs ! i))) is else [])"

fun rbb_run :: "rt_rbb_blk list \<Rightarrow> nat \<Rightarrow> nat list \<Rightarrow> nat list" where
  "rbb_run bs lim [] = []"
| "rbb_run bs lim (i # is) =
     (if blk_status (bs ! i) = RT_RBB_BLK_PUT then i # rbb_grow bs lim i (unat (blk_size (bs ! i))) is
      else rbb_run bs lim is)"

abbreviation sizes :: "rt_rbb_blk list \<Rightarrow> nat list \<Rightarrow> nat" where
  "sizes bs is \<equiv> (\<Sum>i\<leftarrow>is. unat (blk_size (bs ! i)))"

fun mark_get :: "nat list \<Rightarrow> rt_rbb_blk list \<Rightarrow> rt_rbb_blk list" where
  "mark_get [] bs = bs"
| "mark_get (i # is) bs = mark_get is (bs[i := (bs ! i)\<lparr>blk_status := RT_RBB_BLK_GET\<rparr>])"

lemma grow_cong:
  "\<forall>i \<in> set is. bs' ! i = bs ! i \<Longrightarrow> blk_buf (bs' ! l) = blk_buf (bs ! l) \<Longrightarrow> rbb_grow bs' lim l t is = rbb_grow bs lim l t is"
  by (induction "is" arbitrary: l t) auto

lemma grow_prefix: "is = rbb_grow bs lim l t is @ drop (length (rbb_grow bs lim l t is)) is"
  by (induction "is" arbitrary: l t) auto

lemma length_mark_get [simp]: "length (mark_get is bs) = length bs"
  by (induction "is" arbitrary: bs) auto

lemma mark_get_nth:
  "j < length bs \<Longrightarrow> mark_get is bs ! j = (if j \<in> set is then (bs ! j)\<lparr>blk_status := RT_RBB_BLK_GET\<rparr> else bs ! j)"
proof (induction "is" arbitrary: bs)
  case (Cons a "is")
  then show ?case by (cases "j = a") simp_all
qed simp

lemma sizes_append [simp]: "sizes bs (is @ js) = sizes bs is + sizes bs js"
  by simp

lemma grow_subset: "set (rbb_grow bs lim l t is) \<subseteq> set is"
  by (induction "is" arbitrary: l t) auto

text \<open>A block that was taken does not change what follows it.\<close>

lemma mark_other: "i \<notin> set js \<Longrightarrow> j \<in> set js \<Longrightarrow> mark_get [i] bs ! j = bs ! j"
  by (cases "j = i") simp_all

lemma mark_sizes: "i \<notin> set js \<Longrightarrow> sizes (mark_get [i] bs) js = sizes bs js"
  by (metis (mono_tags, lifting) map_cong mark_other)

lemma mark_grow:
  "i \<notin> set js \<Longrightarrow> i < length bs \<Longrightarrow> rbb_grow (mark_get [i] bs) lim i t js = rbb_grow bs lim i t js"
  using mark_other [of i js _ bs] by (intro grow_cong ballI) simp_all

abbreviation first_node :: "nat list \<Rightarrow> rbb_node option" where
  "first_node zs \<equiv> (if zs = [] then None else Some (Blk (hd zs)))"

lemma rbb_queue_take:
  assumes s: "slist (rbb_links r) Head (map Blk (us @ i # zs))" and i: "i < length (rbb_blk_set r)"
  shows "\<exists>l. rbb_queue_take i t q r = Some (t + ucast (blk_size (rbb_blk_set r ! i)), q\<lparr>rbq_blk_num := rbq_blk_num q + 1\<rparr>,
      r\<lparr>rbb_links := l, rbb_blk_set := mark_get [i] (rbb_blk_set r)\<rparr>) \<and> slist l Head (map Blk (us @ zs)) \<and> l (Blk i) = first_node zs"
proof -
  obtain l where l: "rt_slist_remove Head (Blk i) (rbb_links r) = Some l" "slist l Head (remove1 (Blk i) (map Blk (us @ i # zs)))"
    "l (Blk i) = rbb_links r (Blk i)"
    using slist_remove [OF s, of "Blk i"] by blast
  have "remove1 (Blk i) (map Blk (us @ i # zs)) = map Blk (us @ zs)"
    using s by (auto simp: slist_def remove1_append)
  moreover have "rbb_links r (Blk i) = first_node zs"
    using slist_next [of "rbb_links r" Head "map Blk us" "Blk i" "map Blk zs"] s by (simp add: hd_map)
  ultimately show ?thesis using l i by (intro exI [of _ l]) (simp add: rbb_queue_take_def set_rbb_blk_def rbb_blk_def)
qed

lemma unat_add_ucast:
  "unat t + unat b < 2 ^ 32 \<Longrightarrow> unat (t + ucast b :: u32) = unat t + unat b" for b :: "24 word"
  by (simp add: unat_word_ariths)


lemma queue_loop_grow:
  assumes "slist (rbb_links r) Head (map Blk (us @ zs))" and "\<forall>i \<in> set zs. i < length (rbb_blk_set r)"
    and "l < length (rbb_blk_set r)" and "unat t + sizes (rbb_blk_set r) zs < 2 ^ 32"
    and "run = rbb_grow (rbb_blk_set r) (unat len) l (unat t) zs"
  shows "\<exists>t' links. rbb_queue_loop len (first_node zs) (Some l) t q r =
      Some (t', q\<lparr>rbq_blk_num := rbq_blk_num q + of_nat (length run)\<rparr>,
        r\<lparr>rbb_links := links, rbb_blk_set := mark_get run (rbb_blk_set r)\<rparr>) \<and>
    unat t' = unat t + sizes (rbb_blk_set r) run \<and> slist links Head (map Blk (us @ drop (length run) zs))"
  using assms
proof (induction zs arbitrary: l t r q run)
  case Nil
  show ?case using Nil.prems by (subst rbb_queue_loop.simps) (intro exI [of _ t] exI [of _ "rbb_links r"], simp)
next
  case (Cons i zs)
  let ?b = "rbb_blk_set r ! i"
  have i: "i < length (rbb_blk_set r)" using Cons.prems(2) by simp
  have u: "unat (t + ucast (blk_size ?b) :: u32) = unat t + unat (blk_size ?b)"
    using Cons.prems(4) by (intro unat_add_ucast) simp
  let ?go = "blk_status ?b = RT_RBB_BLK_PUT \<and> blk_buf (rbb_blk_set r ! l) \<le> blk_buf ?b \<and> unat t + unat (blk_size ?b) \<le> unat len"
  show ?case
  proof (cases ?go)
    case False
    then have "rbb_queue_loop len (first_node (i # zs)) (Some l) t q r = Some (t, q, r)"
      using i Cons.prems(3) u by (subst rbb_queue_loop.simps) (auto simp: word_less_nat_alt)
    then show ?thesis using Cons.prems(1,5) False by (intro exI [of _ t] exI [of _ "rbb_links r"]) auto
  next
    case True
    obtain ln where tk: "rbb_queue_take i t q r = Some (t + ucast (blk_size ?b), q\<lparr>rbq_blk_num := rbq_blk_num q + 1\<rparr>,
        r\<lparr>rbb_links := ln, rbb_blk_set := mark_get [i] (rbb_blk_set r)\<rparr>)"
      "slist ln Head (map Blk (us @ zs))" "ln (Blk i) = first_node zs"
      using rbb_queue_take [OF Cons.prems(1) i] by metis
    let ?r = "r\<lparr>rbb_links := ln, rbb_blk_set := mark_get [i] (rbb_blk_set r)\<rparr>"
    let ?t = "t + ucast (blk_size ?b)" and ?q = "q\<lparr>rbq_blk_num := rbq_blk_num q + 1\<rparr>"
    have e: "rbb_queue_loop len (first_node (i # zs)) (Some l) t q r = rbb_queue_loop len (first_node zs) (Some i) ?t ?q ?r"
      using True i Cons.prems(3) u tk(1,3)
      by (subst rbb_queue_loop.simps) (auto simp: word_less_nat_alt rt_slist_next_def)
    have ni: "i \<notin> set zs" using Cons.prems(1) by (auto simp: slist_def)
    let ?run = "rbb_grow (rbb_blk_set r) (unat len) i (unat ?t) zs"
    have run: "?run = rbb_grow (rbb_blk_set ?r) (unat len) i (unat ?t) zs" using mark_grow [OF ni i] by simp
    have sz: "sizes (rbb_blk_set ?r) zs = sizes (rbb_blk_set r) zs" using mark_sizes [OF ni] by simp
    have sr: "sizes (rbb_blk_set ?r) ?run = sizes (rbb_blk_set r) ?run"
      using mark_sizes [of i ?run] grow_subset ni by fastforce
    have pre: "slist (rbb_links ?r) Head (map Blk (us @ zs))" "\<forall>i \<in> set zs. i < length (rbb_blk_set ?r)"
      "i < length (rbb_blk_set ?r)" "unat ?t + sizes (rbb_blk_set ?r) zs < 2 ^ 32"
      using tk(2) Cons.prems(2,4) i u sz by simp_all
    obtain t' links where IH: "rbb_queue_loop len (first_node zs) (Some i) ?t ?q ?r =
      Some (t', ?q\<lparr>rbq_blk_num := rbq_blk_num ?q + of_nat (length ?run)\<rparr>,
        ?r\<lparr>rbb_links := links, rbb_blk_set := mark_get ?run (rbb_blk_set ?r)\<rparr>)"
      "unat t' = unat ?t + sizes (rbb_blk_set ?r) ?run" "slist links Head (map Blk (us @ drop (length ?run) zs))"
      using Cons.IH [OF pre run] by blast
    have "run = i # ?run" using Cons.prems(5) True u by simp
    then show ?thesis using IH e u sr by (intro exI [of _ t'] exI [of _ links]) (simp add: add.assoc)
  qed
qed


lemma queue_loop_run:
  assumes "slist (rbb_links r) Head (map Blk (us @ zs))" and "\<forall>i \<in> set zs. i < length (rbb_blk_set r)"
    and "sizes (rbb_blk_set r) zs < 2 ^ 32" and "run = rbb_run (rbb_blk_set r) (unat len) zs"
  shows "\<exists>t' links ws vs. rbb_queue_loop len (first_node zs) None 0 q r =
      Some (t', (if run = [] then q else q\<lparr>rbq_blocks := hd run, rbq_blk_num := of_nat (length run)\<rparr>),
        r\<lparr>rbb_links := links, rbb_blk_set := mark_get run (rbb_blk_set r)\<rparr>) \<and>
    unat t' = sizes (rbb_blk_set r) run \<and> zs = ws @ run @ vs \<and> slist links Head (map Blk (us @ ws @ vs))"
  using assms
proof (induction zs arbitrary: us)
  case Nil
  show ?case using Nil.prems
    by (subst rbb_queue_loop.simps) (intro exI [of _ 0] exI [of _ "rbb_links r"] exI [of _ "[]"], simp)
next
  case (Cons i zs)
  let ?b = "rbb_blk_set r ! i"
  have i: "i < length (rbb_blk_set r)" using Cons.prems(2) by simp
  show ?case
  proof (cases "blk_status ?b = RT_RBB_BLK_PUT")
    case False
    have nx: "rbb_links r (Blk i) = first_node zs"
      using slist_next [of "rbb_links r" Head "map Blk us" "Blk i" "map Blk zs"] Cons.prems(1) by (simp add: hd_map)
    have e: "rbb_queue_loop len (first_node (i # zs)) None 0 q r = rbb_queue_loop len (first_node zs) None 0 q r"
      using False i nx by (subst rbb_queue_loop.simps) (simp add: rt_slist_next_def)
    have "\<exists>t' links ws vs. rbb_queue_loop len (first_node zs) None 0 q r =
      Some (t', (if run = [] then q else q\<lparr>rbq_blocks := hd run, rbq_blk_num := of_nat (length run)\<rparr>),
        r\<lparr>rbb_links := links, rbb_blk_set := mark_get run (rbb_blk_set r)\<rparr>) \<and>
      unat t' = sizes (rbb_blk_set r) run \<and> zs = ws @ run @ vs \<and> slist links Head (map Blk ((us @ [i]) @ ws @ vs))"
      using Cons.prems False by (intro Cons.IH) simp_all
    then obtain t' links ws vs where "rbb_queue_loop len (first_node zs) None 0 q r =
      Some (t', (if run = [] then q else q\<lparr>rbq_blocks := hd run, rbq_blk_num := of_nat (length run)\<rparr>),
        r\<lparr>rbb_links := links, rbb_blk_set := mark_get run (rbb_blk_set r)\<rparr>)"
      "unat t' = sizes (rbb_blk_set r) run" "zs = ws @ run @ vs" "slist links Head (map Blk ((us @ [i]) @ ws @ vs))"
      by blast
    then show ?thesis using e by (intro exI [of _ t'] exI [of _ links] exI [of _ "i # ws"] exI [of _ vs]) simp
  next
    case True
    let ?q = "q\<lparr>rbq_blocks := i, rbq_blk_num := 0\<rparr>"
    obtain ln where tk: "rbb_queue_take i 0 ?q r = Some (0 + ucast (blk_size ?b), ?q\<lparr>rbq_blk_num := rbq_blk_num ?q + 1\<rparr>,
        r\<lparr>rbb_links := ln, rbb_blk_set := mark_get [i] (rbb_blk_set r)\<rparr>)"
      "slist ln Head (map Blk (us @ zs))" "ln (Blk i) = first_node zs"
      using rbb_queue_take [OF Cons.prems(1) i] by blast
    let ?r = "r\<lparr>rbb_links := ln, rbb_blk_set := mark_get [i] (rbb_blk_set r)\<rparr>"
    let ?t = "ucast (blk_size ?b) :: u32" and ?q' = "?q\<lparr>rbq_blk_num := 1\<rparr>"
    have e: "rbb_queue_loop len (first_node (i # zs)) None 0 q r = rbb_queue_loop len (first_node zs) (Some i) ?t ?q' ?r"
      using True i tk(1,3) by (subst rbb_queue_loop.simps) (simp add: rt_slist_next_def)
    have ni: "i \<notin> set zs" using Cons.prems(1) by (auto simp: slist_def)
    let ?run = "rbb_grow (rbb_blk_set r) (unat len) i (unat ?t) zs"
    have run: "?run = rbb_grow (rbb_blk_set ?r) (unat len) i (unat ?t) zs" using mark_grow [OF ni i] by simp
    have sz: "sizes (rbb_blk_set ?r) zs = sizes (rbb_blk_set r) zs" using mark_sizes [OF ni] by simp
    have sr: "sizes (rbb_blk_set ?r) ?run = sizes (rbb_blk_set r) ?run"
      using mark_sizes [of i ?run] grow_subset ni by fastforce
    have pre: "slist (rbb_links ?r) Head (map Blk (us @ zs))" "\<forall>i \<in> set zs. i < length (rbb_blk_set ?r)"
      "i < length (rbb_blk_set ?r)" "unat ?t + sizes (rbb_blk_set ?r) zs < 2 ^ 32"
      using tk(2) Cons.prems(2,3) i sz by simp_all
    obtain t' links where q: "rbb_queue_loop len (first_node zs) (Some i) ?t ?q' ?r =
      Some (t', ?q'\<lparr>rbq_blk_num := rbq_blk_num ?q' + of_nat (length ?run)\<rparr>,
        ?r\<lparr>rbb_links := links, rbb_blk_set := mark_get ?run (rbb_blk_set ?r)\<rparr>)"
      "unat t' = unat ?t + sizes (rbb_blk_set ?r) ?run" "slist links Head (map Blk (us @ drop (length ?run) zs))"
      using queue_loop_grow [OF pre run] by blast
    have "run = i # ?run" using Cons.prems(4) True by simp
    moreover have "zs = ?run @ drop (length ?run) zs" by (rule grow_prefix)
    ultimately show ?thesis using q e sr
      by (intro exI [of _ t'] exI [of _ links] exI [of _ "[]"] exI [of _ "drop (length ?run) zs"]) (simp add: add.assoc)
  qed
qed


lemma next_len_grow:
  assumes "chain (rbb_links r) a (map Blk zs)" and "\<forall>i \<in> set zs. i < length (rbb_blk_set r)"
    and "l < length (rbb_blk_set r)" and "unat t + sizes (rbb_blk_set r) zs < 2 ^ 32"
    and "unat t + sizes (rbb_blk_set r) zs \<le> lim"
  shows "\<exists>t'. next_len_loop r a (Some l) t = Some t' \<and>
    unat t' = unat t + sizes (rbb_blk_set r) (rbb_grow (rbb_blk_set r) lim l (unat t) zs)"
  using assms
proof (induction zs arbitrary: a l t)
  case Nil
  then show ?case by (subst next_len_loop.simps) simp
next
  case (Cons i zs)
  let ?b = "rbb_blk_set r ! i"
  have u: "unat (t + ucast (blk_size ?b) :: u32) = unat t + unat (blk_size ?b)"
    using Cons.prems(4) by (intro unat_add_ucast) simp
  show ?case
  proof (cases "blk_status ?b = RT_RBB_BLK_PUT \<and> blk_buf (rbb_blk_set r ! l) \<le> blk_buf ?b")
    case False
    then have "next_len_loop r a (Some l) t = Some t"
      using Cons.prems(1-3) by (subst next_len_loop.simps) auto
    then show ?thesis using False by auto
  next
    case True
    then have "next_len_loop r a (Some l) t = next_len_loop r (rbb_links r (Blk i)) (Some i) (t + ucast (blk_size ?b))"
      using Cons.prems(1-3) by (subst next_len_loop.simps) (auto simp: rt_slist_next_def)
    then show ?thesis
      using Cons.IH [of "rbb_links r (Blk i)" i "t + ucast (blk_size ?b)"] Cons.prems True u by (simp add: add.assoc)
  qed
qed

lemma next_len_run:
  assumes "chain (rbb_links r) a (map Blk zs)" and "\<forall>i \<in> set zs. i < length (rbb_blk_set r)"
    and "sizes (rbb_blk_set r) zs < 2 ^ 32" and "sizes (rbb_blk_set r) zs \<le> lim"
  shows "\<exists>t'. next_len_loop r a None 0 = Some t' \<and> unat t' = sizes (rbb_blk_set r) (rbb_run (rbb_blk_set r) lim zs)"
  using assms
proof (induction zs arbitrary: a)
  case Nil
  then show ?case by (subst next_len_loop.simps) simp
next
  case (Cons i zs)
  show ?case
  proof (cases "blk_status (rbb_blk_set r ! i) = RT_RBB_BLK_PUT")
    case False
    then have "next_len_loop r a None 0 = next_len_loop r (rbb_links r (Blk i)) None 0"
      using Cons.prems(1,2) by (subst next_len_loop.simps) (simp add: rt_slist_next_def)
    then show ?thesis using Cons.IH [of "rbb_links r (Blk i)"] Cons.prems False by simp
  next
    case True
    let ?t = "ucast (blk_size (rbb_blk_set r ! i)) :: u32"
    have "next_len_loop r a None 0 = next_len_loop r (rbb_links r (Blk i)) (Some i) ?t"
      using Cons.prems(1,2) True by (subst next_len_loop.simps) (simp add: rt_slist_next_def)
    then show ?thesis using next_len_grow [of r "rbb_links r (Blk i)" zs i ?t lim] Cons.prems True by simp
  qed
qed








text \<open>Where a queue starts and why it ends.\<close>

definition run_stops :: "rt_rbb_blk list \<Rightarrow> nat \<Rightarrow> nat list \<Rightarrow> nat \<Rightarrow> bool" where
  "run_stops bs lim run i \<longleftrightarrow> blk_status (bs ! i) \<noteq> RT_RBB_BLK_PUT \<or> blk_buf (bs ! i) < blk_buf (bs ! last run) \<or>
     lim < sizes bs run + unat (blk_size (bs ! i))"

lemma grow_split:
  assumes "g = rbb_grow bs lim l t is"
  shows "\<exists>vs. is = g @ vs \<and> (vs = [] \<or> blk_status (bs ! hd vs) \<noteq> RT_RBB_BLK_PUT \<or>
     blk_buf (bs ! hd vs) < blk_buf (bs ! last (l # g)) \<or> lim < t + sizes bs g + unat (blk_size (bs ! hd vs)))"
  using assms
proof (induction "is" arbitrary: l t g)
  case (Cons i "is")
  let ?t = "t + unat (blk_size (bs ! i))"
  show ?case
  proof (cases "blk_status (bs ! i) = RT_RBB_BLK_PUT \<and> blk_buf (bs ! l) \<le> blk_buf (bs ! i) \<and> ?t \<le> lim")
    case True
    obtain h where h: "h = rbb_grow bs lim i ?t is" by blast
    obtain vs where vs: "is = h @ vs" "vs = [] \<or> blk_status (bs ! hd vs) \<noteq> RT_RBB_BLK_PUT \<or>
     blk_buf (bs ! hd vs) < blk_buf (bs ! last (i # h)) \<or> lim < ?t + sizes bs h + unat (blk_size (bs ! hd vs))"
      using Cons.IH [OF h] by blast
    have "g = i # h" using Cons.prems True h by simp
    then show ?thesis using vs by (intro exI [of _ vs]) (simp add: add.assoc)
  next
    case False
    then have "g = []" using Cons.prems by auto
    then show ?thesis using False by (intro exI [of _ "i # is"]) auto
  qed
qed simp

lemma run_split:
  "\<exists>ws vs. is = ws @ rbb_run bs lim is @ vs \<and> (\<forall>i \<in> set ws. blk_status (bs ! i) \<noteq> RT_RBB_BLK_PUT) \<and>
     (vs = [] \<or> rbb_run bs lim is \<noteq> [] \<and> run_stops bs lim (rbb_run bs lim is) (hd vs))"
proof (induction "is")
  case (Cons i "is")
  show ?case
  proof (cases "blk_status (bs ! i) = RT_RBB_BLK_PUT")
    case True
    obtain g where g: "g = rbb_grow bs lim i (unat (blk_size (bs ! i))) is" by blast
    obtain vs where vs: "is = g @ vs" "vs = [] \<or> run_stops bs lim (i # g) (hd vs)"
      using grow_split [OF g] unfolding run_stops_def by auto
    have "rbb_run bs lim (i # is) = i # g" using True g by simp
    then show ?thesis using vs by (intro exI [of _ "[]"] exI [of _ vs]) simp
  next
    case False
    then obtain ws vs where "is = ws @ rbb_run bs lim is @ vs" "\<forall>i \<in> set ws. blk_status (bs ! i) \<noteq> RT_RBB_BLK_PUT"
      "vs = [] \<or> rbb_run bs lim is \<noteq> [] \<and> run_stops bs lim (rbb_run bs lim is) (hd vs)"
      using Cons.IH by blast
    then show ?thesis using False by (intro exI [of _ "i # ws"] exI [of _ vs]) simp
  qed
qed simp

lemma ring_laid_del_list: "ring_laid a e (xs @ ys @ zs) \<Longrightarrow> ring_laid a e (xs @ zs)"
  by (induction ys) (auto dest: ring_laid_del)


lemma rbb_sizes_bound: "rbb_rep r xs \<Longrightarrow> sizes (rbb_blk_set r) xs \<le> unat (rbb_buf_size r) \<and> sizes (rbb_blk_set r) xs < 2 ^ 32"
  using ring_laid_sum [OF rbb_repD(5)] rbb_repD(6) [of r xs] by (fastforce simp: o_def)

lemma mark_get_held:
  assumes "\<forall>i \<in> set js. blk_status (rbb_blk_set r ! i) \<noteq> RT_RBB_BLK_UNUSED"
  shows "rbb_held (r\<lparr>rbb_links := l, rbb_blk_set := mark_get js (rbb_blk_set r)\<rparr>) = rbb_held r"
  using assms by (auto simp: rbb_held_def mark_get_nth split: if_splits)

lemma rbb_rep_mark:
  assumes r: "rbb_rep r (ws @ run @ vs)" and l: "slist l Head (map Blk (ws @ vs))"
  shows "rbb_rep (r\<lparr>rbb_links := l, rbb_blk_set := mark_get run (rbb_blk_set r)\<rparr>) (ws @ vs)"
proof -
  note d = rbb_repD [OF r]
  have n: "j \<notin> set run \<and> j < length (rbb_blk_set r)" if "j \<in> set (ws @ vs)" for j using that d(3) [of j] d(7) by auto
  then have m: "map ((!) (mark_get run (rbb_blk_set r))) (ws @ vs) = map ((!) (rbb_blk_set r)) (ws @ vs)"
    by (intro map_cong refl) (simp add: mark_get_nth)
  have "ring_laid (rbb_buf r) (rbb_end r) (map ((!) (rbb_blk_set r)) (ws @ vs))"
    using d(5) ring_laid_del_list by simp
  then have "ring_laid (rbb_buf r) (rbb_end r) (map ((!) (mark_get run (rbb_blk_set r))) (ws @ vs))" unfolding m .
  then show ?thesis using l n d(2,4,6) unfolding rbb_rep_def by (simp add: mark_get_nth)
qed

lemma rbb_queue_get_ok:
  assumes r: "rbb_rep r xs" and run: "run = rbb_run (rbb_blk_set r) (unat len) xs"
  shows "\<exists>n l ws vs. rt_rbb_blk_queue_get len q r =
      Some (n, (if run = [] then q else q\<lparr>rbq_blocks := hd run, rbq_blk_num := of_nat (length run)\<rparr>),
        r\<lparr>rbb_links := l, rbb_blk_set := mark_get run (rbb_blk_set r)\<rparr>) \<and>
    unat n = sizes (rbb_blk_set r) run \<and> xs = ws @ run @ vs \<and> slist l Head (map Blk (ws @ vs)) \<and>
    (\<forall>i \<in> set ws. blk_status (rbb_blk_set r ! i) \<noteq> RT_RBB_BLK_PUT) \<and>
    (vs = [] \<or> run \<noteq> [] \<and> run_stops (rbb_blk_set r) (unat len) run (hd vs))"
proof -
  note d = rbb_repD [OF r]
  have f: "first_node xs = rt_slist_first Head (rbb_links r)"
    using rbb_first [OF r] rbb_isempty [OF r] by (auto simp: rt_slist_first_def rt_slist_isempty_def)
  have pre: "slist (rbb_links r) Head (map Blk ([] @ xs))" "\<forall>i \<in> set xs. i < length (rbb_blk_set r)"
    "sizes (rbb_blk_set r) xs < 2 ^ 32"
    using d(1,3) rbb_sizes_bound [OF r] by simp_all
  obtain n l ws vs where q: "rbb_queue_loop len (first_node xs) None 0 q r =
      Some (n, (if run = [] then q else q\<lparr>rbq_blocks := hd run, rbq_blk_num := of_nat (length run)\<rparr>),
        r\<lparr>rbb_links := l, rbb_blk_set := mark_get run (rbb_blk_set r)\<rparr>)"
    "unat n = sizes (rbb_blk_set r) run" "xs = ws @ run @ vs" "slist l Head (map Blk (ws @ vs))"
    using queue_loop_run [OF pre run, of q] by auto
  have e: "rt_rbb_blk_queue_get len q r = rbb_queue_loop len (first_node xs) None 0 q r"
    using f rbb_isempty [OF r] by (subst rbb_queue_loop.simps) (auto simp: rt_rbb_blk_queue_get_def rbb_queue_loop.simps)
  obtain ws' vs' where s: "xs = ws' @ run @ vs'" "\<forall>i \<in> set ws'. blk_status (rbb_blk_set r ! i) \<noteq> RT_RBB_BLK_PUT"
    "vs' = [] \<or> run \<noteq> [] \<and> run_stops (rbb_blk_set r) (unat len) run (hd vs')"
    using run_split [of xs "rbb_blk_set r" "unat len"] run by blast
  have "ws @ vs = filter (\<lambda>i. i \<notin> set run) xs" if "xs = ws @ run @ vs" for ws vs
  proof -
    have "filter (\<lambda>i. i \<notin> set run) ws = ws" "filter (\<lambda>i. i \<notin> set run) vs = vs"
      using d(7) unfolding that by (auto simp: filter_id_conv)
    then show ?thesis unfolding that by simp
  qed
  then have "ws @ vs = ws' @ vs'" using q(3) s(1) by metis
  then show ?thesis using q e s by (intro exI [of _ n] exI [of _ l] exI [of _ ws'] exI [of _ vs']) simp
qed

lemma rbb_next_len_ok:
  assumes r: "rbb_rep r xs" and lim: "sizes (rbb_blk_set r) xs \<le> lim"
  shows "\<exists>n. rt_rbb_next_blk_queue_len r = Some n \<and> unat n = sizes (rbb_blk_set r) (rbb_run (rbb_blk_set r) lim xs)"
proof (cases "xs = []")
  case True
  then show ?thesis using rbb_isempty [OF r] by (simp add: rt_rbb_next_blk_queue_len_def)
next
  case False
  then show ?thesis
    using next_len_run [of r "rbb_links r Head" xs lim] rbb_repD [OF r] rbb_isempty [OF r] rbb_sizes_bound [OF r] lim
    by (simp add: rt_rbb_next_blk_queue_len_def rt_slist_first_def slist_def)
qed


section \<open>The life of a ring block buffer\<close>











text \<open>An allocation fails, and changes nothing, exactly when every block of the set is in use or when
  neither the space behind the newest block nor the space below the oldest one is large enough; otherwise it
  takes the first unused block of the set and lists it last.\<close>

theorem rt_rbb_blk_alloc_places:
  assumes "rbb_rep r xs" and "0 < sz" and "sz < 2 ^ 24" and "unat sz \<le> unat (rbb_buf_size r)"
  shows "case (rbb_unused r, rbb_room r xs (unat sz)) of
      (Some i, Some addr) \<Rightarrow> \<exists>r'. rt_rbb_blk_alloc sz r = Some (Some i, r') \<and> rbb_rep r' (xs @ [i]) \<and>
        rbb_blk_set r' = (rbb_blk_set r)[i := placed sz addr]
    | _ \<Rightarrow> rt_rbb_blk_alloc sz r = Some (None, r)"
  using rbb_alloc_gives [OF assms] rbb_alloc_refused [OF assms(1,3)] by (fastforce split: option.splits)

text \<open>A get returns the oldest block that was put, and no other block changes.\<close>

theorem rt_rbb_blk_get_oldest:
  assumes "rbb_rep r xs"
  shows "case find (\<lambda>i. blk_status (rbb_blk_set r ! i) = RT_RBB_BLK_PUT) xs of
      None \<Rightarrow> rt_rbb_blk_get r = Some (None, r)
    | Some i \<Rightarrow> \<exists>r'. rt_rbb_blk_get r = Some (Some i, r') \<and> rbb_rep r' xs \<and> rbb_held r' = rbb_held r \<and>
        rbb_blk_set r' = (rbb_blk_set r)[i := (rbb_blk_set r ! i)\<lparr>blk_status := RT_RBB_BLK_GET\<rparr>]"
proof (cases "find (\<lambda>i. blk_status (rbb_blk_set r ! i) = RT_RBB_BLK_PUT) xs")
  case (Some i)
  then have "i \<in> set xs" by (auto simp: find_Some_iff)
  then show ?thesis using rbb_get_result [OF assms] rbb_rep_status [OF assms, of i RT_RBB_BLK_GET] rbb_repD [OF assms] Some by simp
qed (use rbb_get_result [OF assms] in simp)



text \<open>The length a queue will have is the one \<open>rt_rbb_next_blk_queue_len\<close> announces, unless the limit is
  smaller than the listed blocks together.\<close>

theorem rt_rbb_next_blk_queue_len_agrees:
  assumes "rbb_rep r xs" and "sizes (rbb_blk_set r) xs \<le> unat len"
  shows "rt_rbb_next_blk_queue_len r = map_option fst (rt_rbb_blk_queue_get len q r)"
proof -
  obtain n where n: "rt_rbb_next_blk_queue_len r = Some n" "unat n = sizes (rbb_blk_set r) (rbb_run (rbb_blk_set r) (unat len) xs)"
    using rbb_next_len_ok [OF assms] by blast
  obtain m q' r' where m: "rt_rbb_blk_queue_get len q r = Some (m, q', r')" "unat m = sizes (rbb_blk_set r) (rbb_run (rbb_blk_set r) (unat len) xs)"
    using rbb_queue_get_ok [OF assms(1) refl, of len q] by metis
  have "m = n" using n(2) m(2) by (simp add: word_unat_eq_iff)
  then show ?thesis using n(1) m(1) by simp
qed


section \<open>The blocks of a queue as an array\<close>

text \<open>\<open>rt_rbb_blk_queue_len\<close> and \<open>rt_rbb_blk_queue_free\<close> take the blocks of a queue to be neighbours in the block
  set, too.\<close>

lemma queue_len_loop:
  "i + n \<le> length (rbb_blk_set r) \<Longrightarrow> unat t + sizes (rbb_blk_set r) [i..<i + n] < 2 ^ 32 \<Longrightarrow>
   \<exists>t'. queue_len_loop r i n t = Some t' \<and> unat t' = unat t + sizes (rbb_blk_set r) [i..<i + n]"
proof (induction n arbitrary: i t)
  case (Suc n)
  have u: "[i..<i + Suc n] = i # [i + 1..<i + 1 + n]" by (simp add: upt_conv_Cons del: upt_Suc)
  have t: "unat (t + ucast (blk_size (rbb_blk_set r ! i)) :: u32) = unat t + unat (blk_size (rbb_blk_set r ! i))"
    using Suc.prems(2) unfolding u by (intro unat_add_ucast) simp
  show ?case using Suc.IH [of "i + 1" "t + ucast (blk_size (rbb_blk_set r ! i))"] Suc.prems t unfolding u
    by (simp add: add.assoc)
qed simp

lemma queue_len_loop_past: "length (rbb_blk_set r) < i + n \<Longrightarrow> 0 < n \<Longrightarrow> queue_len_loop r i n t = None"
proof (induction n arbitrary: i t)
  case (Suc n)
  then show ?case by (cases n) (auto simp: rbb_blk_def)
qed simp

lemma queue_free_loop:
  "rbb_rep r xs \<Longrightarrow> {i..<i + n} \<subseteq> rbb_held r \<Longrightarrow>
   \<exists>r'. queue_free_loop i n r = Some r' \<and> rbb_rep r' (filter (\<lambda>j. j \<notin> {i..<i + n}) xs) \<and> rbb_held r' = rbb_held r - {i..<i + n}"
proof (induction n arbitrary: i r xs)
  case (Suc n)
  obtain r1 where r1: "rt_rbb_blk_free i r = Some r1" "rbb_rep r1 (remove1 i xs)" "rbb_held r1 = rbb_held r - {i}"
    using rbb_free_ok [OF Suc.prems(1), of i] subsetD [OF Suc.prems(2), of i] by auto
  then obtain r' where r': "queue_free_loop (i + 1) n r1 = Some r'"
    "rbb_rep r' (filter (\<lambda>j. j \<notin> {i + 1..<i + 1 + n}) (remove1 i xs))" "rbb_held r' = rbb_held r1 - {i + 1..<i + 1 + n}"
    using Suc.IH [OF r1(2), of "i + 1"] Suc.prems(2) by fastforce
  have s: "{i..<i + Suc n} = insert i {i + 1..<i + 1 + n}" by auto
  have "filter (\<lambda>j. j \<notin> {i + 1..<i + 1 + n}) (remove1 i xs) = filter (\<lambda>j. j \<notin> {i..<i + Suc n}) xs"
    unfolding s using rbb_repD(7) [OF Suc.prems(1)]
    by (simp add: distinct_remove1_removeAll removeAll_filter_not_eq conj_commute del: atLeastLessThan_iff)
      (rule filter_cong; auto)
  moreover have "rbb_held r' = rbb_held r - {i..<i + Suc n}" unfolding s using r'(3) r1(3) by blast
  ultimately show ?case using r1(1) r' by simp
qed simp

lemma mark_get_sizes: "sizes (mark_get js bs) is = sizes bs is"
proof (induction js arbitrary: bs)
  case (Cons j js)
  have "unat (blk_size (bs[j := (bs ! j)\<lparr>blk_status := RT_RBB_BLK_GET\<rparr>] ! i)) = unat (blk_size (bs ! i))" for i
    by (cases "j < length bs") (auto simp: nth_list_update list_update_beyond)
  then show ?case using Cons by simp
qed simp

text \<open>C25: Where the blocks of a queue are neighbours in the block set, in the order of the list, its length is the one
  that was returned, and freeing the queue frees exactly its blocks: the buffer is well formed again.\<close>

theorem rt_rbb_blk_queue_free_returns:
  assumes "rbb_rep r xs" and "set xs = rbb_held r" and "rbb_run (rbb_blk_set r) (unat len) xs = [b..<b + k]" and "0 < k"
  shows "\<exists>n q' r' r''. rt_rbb_blk_queue_get len q r = Some (n, q', r') \<and> rt_rbb_blk_queue_len q' r' = Some n \<and>
     rt_rbb_blk_queue_free q' r' = Some r'' \<and> rbb_wf r'' \<and> rbb_held r'' = rbb_held r - {b..<b + k}"
proof -
  have ne: "[b..<b + k] \<noteq> []" "hd [b..<b + k] = b" using assms(4) by simp_all
  obtain n l ws vs where q: "rt_rbb_blk_queue_get len q r = Some (n, q\<lparr>rbq_blocks := b, rbq_blk_num := of_nat k\<rparr>,
      r\<lparr>rbb_links := l, rbb_blk_set := mark_get [b..<b + k] (rbb_blk_set r)\<rparr>)"
    "unat n = sizes (rbb_blk_set r) [b..<b + k]" "xs = ws @ [b..<b + k] @ vs" "slist l Head (map Blk (ws @ vs))"
    using rbb_queue_get_ok [OF assms(1) assms(3) [symmetric], of q] ne by auto
  let ?r = "r\<lparr>rbb_links := l, rbb_blk_set := mark_get [b..<b + k] (rbb_blk_set r)\<rparr>"
  let ?q = "q\<lparr>rbq_blocks := b, rbq_blk_num := of_nat k\<rparr>"
  note d = rbb_repD [OF assms(1)]
  have in_run: "{b..<b + k} \<subseteq> set xs" using q(3) by auto
  then have "b + (k - 1) < length (rbb_blk_set r)" using d(3) [of "b + (k - 1)"] subsetD [of _ _ "b + (k - 1)"] assms(4) by simp
  then have bk: "b + k \<le> length (rbb_blk_set r)" by simp
  then have "k < 2 ^ 32" using d(2) unsigned_less [of "rbb_blk_max_num r", where 'a = nat] by simp
  then have uk: "unat (of_nat k :: u32) = k" by (intro unat_word_of_nat) simp
  have rep: "rbb_rep ?r (ws @ vs)" using rbb_rep_mark [OF _ q(4)] assms(1) q(3) by metis
  have held: "rbb_held ?r = rbb_held r" by (rule mark_get_held) (use in_run d(4) in auto)
  obtain r'' where r'': "queue_free_loop b k ?r = Some r''" "rbb_rep r'' (filter (\<lambda>j. j \<notin> {b..<b + k}) (ws @ vs))"
    "rbb_held r'' = rbb_held r - {b..<b + k}"
    using queue_free_loop [OF rep, of b k] in_run held assms(2) by auto
  have "sizes (rbb_blk_set r) [b..<b + k] < 2 ^ 32" using q(2) unsigned_less [of n, where 'a = nat] by simp
  then obtain t where t: "queue_len_loop ?r b k 0 = Some t" "unat t = sizes (rbb_blk_set r) [b..<b + k]"
    using queue_len_loop [of b k ?r 0] bk by (auto simp: mark_get_sizes)
  have "t = n" using t(2) q(2) by (simp add: word_unat_eq_iff)
  moreover have "set (filter (\<lambda>j. j \<notin> {b..<b + k}) (ws @ vs)) = rbb_held r''"
    using q(3) r''(3) assms(2) by auto
  then have "rbb_wf r''" using r''(2) unfolding rbb_wf_def by blast
  ultimately show ?thesis using q(1) t(1) r''(1,3) uk
    by (intro exI [of _ n] exI [of _ ?q] exI [of _ ?r] exI [of _ r'']) (simp add: rt_rbb_blk_queue_len_def rt_rbb_blk_queue_free_def)
qed

text \<open>Where the first block of a queue stands too near to the end of the block set, both read past it.\<close>

theorem rt_rbb_blk_queue_len_past_set:
  assumes "rbb_rep r xs" and "rbb_run (rbb_blk_set r) (unat len) xs = run" and "run \<noteq> []"
    and "length (rbb_blk_set r) < hd run + length run"
  shows "\<exists>n q' r'. rt_rbb_blk_queue_get len q r = Some (n, q', r') \<and> rt_rbb_blk_queue_len q' r' = None"
proof -
  obtain n l ws vs where q: "rt_rbb_blk_queue_get len q r = Some (n, q\<lparr>rbq_blocks := hd run, rbq_blk_num := of_nat (length run)\<rparr>,
      r\<lparr>rbb_links := l, rbb_blk_set := mark_get run (rbb_blk_set r)\<rparr>)" "xs = ws @ run @ vs"
    using rbb_queue_get_ok [OF assms(1) assms(2) [symmetric], of q] assms(3) by auto
  note d = rbb_repD [OF assms(1)]
  have "set run \<subseteq> {..<unat (rbb_blk_max_num r)}" "distinct run" using d(2,3,7) unfolding q(2) by auto
  then have "length run \<le> unat (rbb_blk_max_num r)" using card_mono [of "{..<unat (rbb_blk_max_num r)}" "set run"]
    by (simp add: distinct_card)
  then have "unat (of_nat (length run) :: u32) = length run"
    using unsigned_less [of "rbb_blk_max_num r", where 'a = nat] by (intro unat_word_of_nat) simp
  then show ?thesis using q(1) assms(3,4) by (simp add: rt_rbb_blk_queue_len_def queue_len_loop_past)
qed

text \<open>A block that was taken with a queue is still in use but no longer listed, so it is not taken into account
  when the next block is placed: the new block overlaps it.\<close>

theorem rt_rbb_queue_get_overlaps:
  assumes "rbb_rep r [i]" and "blk_status (rbb_blk_set r ! i) = RT_RBB_BLK_PUT" and "blk_buf (rbb_blk_set r ! i) = rbb_buf r"
    and "rbb_unused r = Some j" and "0 < sz" and "sz < 2 ^ 24" and "unat sz \<le> unat (rbb_buf_size r)"
  shows "\<exists>n q' r' r''. rt_rbb_blk_queue_get len q r = Some (n, q', r') \<and> rt_rbb_blk_alloc sz r' = Some (Some j, r'') \<and> i \<noteq> j \<and>
     blk_status (rbb_blk_set r'' ! i) = RT_RBB_BLK_GET \<and> blk_buf (rbb_blk_set r'' ! i) = blk_buf (rbb_blk_set r'' ! j)"
proof -
  obtain n l q' where q: "rt_rbb_blk_queue_get len q r = Some (n, q', r\<lparr>rbb_links := l, rbb_blk_set := mark_get [i] (rbb_blk_set r)\<rparr>)"
    "slist l Head (map Blk [])"
    using rbb_queue_get_ok [OF assms(1), of "[i]" len q] assms(2) by (auto simp: Cons_eq_append_conv)
  let ?r = "r\<lparr>rbb_links := l, rbb_blk_set := mark_get [i] (rbb_blk_set r)\<rparr>"
  note d = rbb_repD [OF assms(1)] and u = rbb_unused_Some [OF assms(4)]
  have ij: "i \<noteq> j" using u assms(2) by auto
  have rep: "rbb_rep ?r []" using rbb_rep_mark [of r "[]" "[i]" "[]" l] assms(1) q(2) by simp
  have "rbb_unused ?r = rbb_unused r"
    unfolding rbb_unused_def using assms(2) d(3) [of i] by (intro find_cong) (auto simp: nth_list_update)
  then obtain r'' where r'': "rt_rbb_blk_alloc sz ?r = Some (Some j, r'')" "rbb_blk_set r'' = (rbb_blk_set ?r)[j := placed sz (rbb_buf r)]"
    using rbb_alloc_gives [OF rep assms(5,6), of j "rbb_buf r"] assms(4,7) by (auto simp: rbb_room_def)
  then show ?thesis using q(1) ij d(3) [of i] u assms(3)
    by (intro exI [of _ n] exI [of _ q'] exI [of _ ?r] exI [of _ r'']) (simp add: nth_list_update)
qed

text \<open>The first block is placed without a look at the size of the buffer.\<close>

theorem rt_rbb_blk_alloc_oversized:
  assumes "rbb_rep r []" and "rbb_unused r = Some i" and "sz < 2 ^ 24" and "unat (rbb_buf_size r) < unat sz"
  shows "\<exists>r'. rt_rbb_blk_alloc sz r = Some (Some i, r') \<and> rbb_end r' < blk_end (rbb_blk_set r' ! i)"
proof -
  obtain l where "rbb_place i (rbb_buf r) sz r =
      Some (Some i, r\<lparr>rbb_links := l, rbb_blk_set := (rbb_blk_set r)[i := placed sz (rbb_buf r)]\<rparr>)"
    using rbb_place [OF assms(1), of i] by auto
  then show ?thesis using rbb_alloc_result [OF assms(1,3)] assms rbb_unused_Some [OF assms(2)]
    by (simp add: rbb_room_def blk_end_def unat_ucast_24)
qed

end
