(* ===== verification/RTT_Ffs.thy ===== *)
theory RTT_Ffs
  imports RTT_Prelude
begin

text \<open>
  The find-first-set routine of \<open>src/kservice.c\<close>, which looks the lowest set bit up in a byte
  table, against the function the Cortex-M4 port (\<open>libcpu/arm/cortex-m4/cpuport.c\<close>) uses
  instead, the compiler's \<open>__builtin_ffs\<close>: one plus the index of the least significant bit
  that is set, and 0 for 0. The scheduler and its priority bitmap rest on the latter.
\<close>

section \<open>The two routines\<close>

definition lowest_bit_bitmap :: "nat list" where
  "lowest_bit_bitmap =
    [0, 0, 1, 0, 2, 0, 1, 0, 3, 0, 1, 0, 2, 0, 1, 0,
     4, 0, 1, 0, 2, 0, 1, 0, 3, 0, 1, 0, 2, 0, 1, 0,
     5, 0, 1, 0, 2, 0, 1, 0, 3, 0, 1, 0, 2, 0, 1, 0,
     4, 0, 1, 0, 2, 0, 1, 0, 3, 0, 1, 0, 2, 0, 1, 0,
     6, 0, 1, 0, 2, 0, 1, 0, 3, 0, 1, 0, 2, 0, 1, 0,
     4, 0, 1, 0, 2, 0, 1, 0, 3, 0, 1, 0, 2, 0, 1, 0,
     5, 0, 1, 0, 2, 0, 1, 0, 3, 0, 1, 0, 2, 0, 1, 0,
     4, 0, 1, 0, 2, 0, 1, 0, 3, 0, 1, 0, 2, 0, 1, 0,
     7, 0, 1, 0, 2, 0, 1, 0, 3, 0, 1, 0, 2, 0, 1, 0,
     4, 0, 1, 0, 2, 0, 1, 0, 3, 0, 1, 0, 2, 0, 1, 0,
     5, 0, 1, 0, 2, 0, 1, 0, 3, 0, 1, 0, 2, 0, 1, 0,
     4, 0, 1, 0, 2, 0, 1, 0, 3, 0, 1, 0, 2, 0, 1, 0,
     6, 0, 1, 0, 2, 0, 1, 0, 3, 0, 1, 0, 2, 0, 1, 0,
     4, 0, 1, 0, 2, 0, 1, 0, 3, 0, 1, 0, 2, 0, 1, 0,
     5, 0, 1, 0, 2, 0, 1, 0, 3, 0, 1, 0, 2, 0, 1, 0,
     4, 0, 1, 0, 2, 0, 1, 0, 3, 0, 1, 0, 2, 0, 1, 0]"

definition rt_ffs_table :: "u32 \<Rightarrow> nat" where
  "rt_ffs_table v =
     (if v = 0 then 0
      else if v AND 0xff \<noteq> 0 then lowest_bit_bitmap ! unat (v AND 0xff) + 1
      else if v AND 0xff00 \<noteq> 0 then lowest_bit_bitmap ! unat (drop_bit 8 (v AND 0xff00)) + 9
      else if v AND 0xff0000 \<noteq> 0 then lowest_bit_bitmap ! unat (drop_bit 16 (v AND 0xff0000)) + 17
      else lowest_bit_bitmap ! unat (drop_bit 24 (v AND 0xff000000)) + 25)"

definition rt_ffs :: "u32 \<Rightarrow> nat" where
  "rt_ffs v = (case find (bit v) [0..<32] of None \<Rightarrow> 0 | Some i \<Rightarrow> i + 1)"


section \<open>The lowest set bit\<close>

lemma find_upt_Some:
  "find P [0..<n] = Some i \<longleftrightarrow> i < n \<and> P i \<and> (\<forall>j < i. \<not> P j)"
proof -
  have "find P [0..<n] = Some i \<longleftrightarrow> (\<exists>k < n. P k \<and> i = k \<and> (\<forall>j < k. \<not> P j))"
    unfolding find_Some_iff by auto
  then show ?thesis by auto
qed

lemma rt_ffs_pos:
  "rt_ffs v = Suc i \<longleftrightarrow> i < 32 \<and> bit v i \<and> (\<forall>j < i. \<not> bit v j)"
proof -
  have "rt_ffs v = Suc i \<longleftrightarrow> find (bit v) [0..<32] = Some i"
    by (simp add: rt_ffs_def split: option.splits)
  then show ?thesis by (simp only: find_upt_Some)
qed

lemma rt_ffs_zero: "rt_ffs v = 0 \<longleftrightarrow> v = 0"
proof -
  have "rt_ffs v = 0 \<longleftrightarrow> (\<forall>i < 32. \<not> bit v i)"
  proof (cases "find (bit v) [0..<32]")
    case None
    then have "\<forall>i < 32. \<not> bit v i" by (auto simp add: find_None_iff simp del: upt_rec_numeral)
    with None show ?thesis by (simp only: rt_ffs_def option.case) simp
  next
    case (Some i)
    then have "i < 32 \<and> bit v i" by (simp add: find_upt_Some)
    with Some show ?thesis by (auto simp only: rt_ffs_def option.case)
  qed
  also have "\<dots> \<longleftrightarrow> v = 0"
    using bit_imp_le_length [of v] by (auto simp: bit_eq_iff)
  finally show ?thesis .
qed

lemma table_checked:
  "list_all2 (\<lambda>b t. b = 0 \<or> odd (b div 2 ^ t) \<and> 2 ^ t dvd b \<and> t < 8) [0..255 :: int] lowest_bit_bitmap"
  by code_simp

lemma table_lowest:
  assumes "0 < b" and "b < 256"
  shows "bit b (lowest_bit_bitmap ! b)" and "lowest_bit_bitmap ! b < 8"
    and "j < lowest_bit_bitmap ! b \<Longrightarrow> \<not> bit b j"
proof -
  let ?t = "lowest_bit_bitmap ! b"
  have "[0..255 :: int] ! b = int b" using assms by (subst nth_upto) auto
  then have t: "odd (int b div 2 ^ ?t) \<and> 2 ^ ?t dvd int b \<and> ?t < 8"
    using list_all2_nthD [OF table_checked, of b] assms by simp
  have "int (b div 2 ^ ?t) = int b div 2 ^ ?t" by (simp add: zdiv_int)
  then have "odd (b div 2 ^ ?t)" using t by (metis even_of_nat_iff)
  then show "bit b ?t" by (simp add: bit_iff_odd)
  show "?t < 8" using t by simp
  assume "j < ?t"
  have "int b mod 2 ^ ?t = 0" using t by (simp add: mod_eq_0_iff_dvd)
  then have "take_bit ?t (int b) = 0" by (simp add: take_bit_eq_mod)
  then have "\<not> bit (int b) j"
    using \<open>j < ?t\<close> by (metis bit_0_eq bit_take_bit_iff bot_apply bot_bool_def)
  then show "\<not> bit b j" by (simp add: bit_of_nat_iff_bit [where 'a = int])
qed

text \<open>The byte at offset \<open>k\<close> decides when the bits below it are clear.\<close>

lemma rt_ffs_byte:
  assumes low: "take_bit k v = 0" and byte: "take_bit 8 (drop_bit k v) \<noteq> 0" and k: "k + 8 \<le> 32"
  shows "rt_ffs v = lowest_bit_bitmap ! unat (take_bit 8 (drop_bit k v)) + Suc k"
proof -
  define b where "b = unat (take_bit 8 (drop_bit k v))"
  have b: "0 < b" "b < 256"
    using byte take_bit_nat_less_exp [of 8 "unat (drop_bit k v)"]
    by (simp_all add: b_def unat_gt_0) (simp add: unsigned_take_bit_eq)
  have bits: "bit b j \<longleftrightarrow> bit v (k + j)" if "j < 8" for j
    using that k by (simp add: b_def bit_unsigned_iff bit_take_bit_iff bit_drop_bit_eq)
  have "\<not> bit v j" if "j < k + lowest_bit_bitmap ! b" for j
  proof (cases "j < k")
    case True
    then show ?thesis using low by (metis bit_0_eq bit_take_bit_iff bot_apply bot_bool_def)
  next
    case False
    then show ?thesis
      using bits [of "j - k"] table_lowest(2) [OF b] table_lowest(3) [OF b, of "j - k"] that by simp
  qed
  moreover have "bit v (k + lowest_bit_bitmap ! b)"
    using bits [of "lowest_bit_bitmap ! b"] table_lowest(1,2) [OF b] by simp
  ultimately have "rt_ffs v = Suc (k + lowest_bit_bitmap ! b)"
    using table_lowest(2) [OF b] k by (simp add: rt_ffs_pos)
  then show ?thesis by (simp add: b_def)
qed

lemma byte_masks:
  fixes v :: u32
  shows "v AND 0xff = take_bit 8 v"
    and "drop_bit 8 (v AND 0xff00) = take_bit 8 (drop_bit 8 v)"
    and "drop_bit 16 (v AND 0xff0000) = take_bit 8 (drop_bit 16 v)"
    and "drop_bit 24 (v AND 0xff000000) = take_bit 8 (drop_bit 24 v)"
proof -
  have m: "0xff = (mask 8 :: u32)" "0xff00 = push_bit 8 (mask 8 :: u32)"
    "0xff0000 = push_bit 16 (mask 8 :: u32)" "0xff000000 = push_bit 24 (mask 8 :: u32)"
    by (simp_all add: mask_eq_exp_minus_1 push_bit_eq_mult)
  show "v AND 0xff = take_bit 8 v"
    "drop_bit 8 (v AND 0xff00) = take_bit 8 (drop_bit 8 v)"
    "drop_bit 16 (v AND 0xff0000) = take_bit 8 (drop_bit 16 v)"
    "drop_bit 24 (v AND 0xff000000) = take_bit 8 (drop_bit 24 v)"
    unfolding m by (auto intro!: bit_word_eqI simp: bit_simps)
qed

lemma byte_clear:
  fixes v :: u32
  assumes "v AND push_bit k (mask 8) = 0" and "take_bit k v = 0"
  shows "take_bit (k + 8) v = 0"
proof (rule bit_word_eqI)
  fix j
  assume j: "j < LENGTH(32)"
  have "\<not> bit v j" if "j < k"
    using assms(2) that by (metis bit_0_eq bit_take_bit_iff bot_apply bot_bool_def)
  moreover have "\<not> bit v j" if "k \<le> j" "j < k + 8"
  proof -
    have "bit (v AND push_bit k (mask 8)) j \<longleftrightarrow> bit v j"
      using that j by (auto simp: bit_simps)
    then show ?thesis using assms(1) by simp
  qed
  ultimately show "bit (take_bit (k + 8) v) j = bit (0 :: u32) j"
    using linorder_not_less [of j k] by (auto simp: bit_take_bit_iff)
qed

text \<open>C22: the byte-table routine of \<open>kservice.c\<close> is \<open>__builtin_ffs\<close>, on every 32-bit value.\<close>

theorem rt_ffs_table_correct: "rt_ffs_table v = rt_ffs v"
proof -
  have m: "0xff = push_bit 0 (mask 8 :: u32)" "0xff00 = push_bit 8 (mask 8 :: u32)"
    "0xff0000 = push_bit 16 (mask 8 :: u32)"
    by (simp_all add: mask_eq_exp_minus_1 push_bit_eq_mult)
  have slice: "v AND push_bit k (mask 8) = push_bit k (take_bit 8 (drop_bit k v))" for k
    by (rule bit_word_eqI) (auto simp: bit_simps)
  then have nz: "take_bit 8 (drop_bit k v) \<noteq> 0" if "v AND push_bit k (mask 8) \<noteq> 0" for k
    using that by auto
  consider "v = 0" | "v AND 0xff \<noteq> 0" | "v \<noteq> 0" "v AND 0xff = 0" by blast
  then show ?thesis
  proof cases
    case 1
    then show ?thesis by (simp add: rt_ffs_table_def rt_ffs_zero)
  next
    case 2
    then show ?thesis
      using rt_ffs_byte [of 0 v] by (auto simp: rt_ffs_table_def byte_masks)
  next
    case 3
    then have l8: "take_bit 8 v = 0" by (simp add: byte_masks)
    show ?thesis
    proof (cases "v AND 0xff00 = 0")
      case False
      then show ?thesis
        using rt_ffs_byte [OF l8] nz [of 8] 3 byte_masks(2) [of v] False
        by (simp add: rt_ffs_table_def flip: m(2))
    next
      case z8: True
      then have l16: "take_bit 16 v = 0" using byte_clear [of v 8] l8 by (simp add: m(2))
      show ?thesis
      proof (cases "v AND 0xff0000 = 0")
        case False
        then show ?thesis
          using rt_ffs_byte [OF l16] nz [of 16] 3 z8 byte_masks(3) [of v]
          by (simp add: rt_ffs_table_def flip: m(3))
      next
        case z16: True
        then have l24: "take_bit 24 v = 0" using byte_clear [of v 16] l16 by (simp add: m(3))
        have "take_bit 8 (drop_bit 24 v) \<noteq> 0"
          using byte_clear [of v 24, OF _ l24] slice [of 24] 3 by (auto simp: take_bit_word_eq_self)
        then show ?thesis
          using rt_ffs_byte [OF l24] 3 z8 z16 byte_masks(4) [of v] by (simp add: rt_ffs_table_def)
      qed
    qed
  qed
qed

end
