(* ===== verification/RTT_Kernel.thy ===== *)
theory RTT_Kernel
  imports RTT_Prelude RTT_List RTT_Ffs
begin

text \<open>
  The state the kernel components share, as one record, and the queues threads wait in.

  Kernel objects are named by an \<open>oref\<close>: the object at an address, or the timer embedded in the
  thread at an address. \<open>k_obj\<close> holds the header (\<open>struct rt_object\<close>) of each, \<open>k_container\<close> the
  object lists of \<open>object.c\<close>. The intrusive thread lists of \<open>rtservice.h\<close> (the ready table of
  \<open>scheduler.c\<close>, the defunct list, the suspend lists of the IPC objects) are the queues \<open>k_q\<close>;
  \<open>t_tlist\<close> says in which of them the \<open>tlist\<close> node of a thread is linked, \<open>None\<close> when it is linked
  to itself. \<open>RTT_List\<close> shows that the pointer lists implement such queues; here the locale
  \<open>node_queues\<close> is interpreted on the record, so both sides obey the same laws. Linking a node that
  is already linked would corrupt two rings in the code, and is a fault (\<open>None\<close>) here.

  Interrupts: the code runs its critical sections with interrupts disabled on a single core, so an
  operation is one step on this state; \<open>k_irq\<close> is \<open>rt_interrupt_nest\<close>. The hook pointers
  (\<open>RT_USING_HOOK\<close>) are taken as unset and the debug log as silent.
\<close>

section \<open>Objects, threads, timers\<close>

datatype oref = Obj ptr | TimerOf ptr

record rt_object =
  o_name :: string
  o_type :: u8
  o_flag :: u8

text \<open>\<open>enum rt_object_class_type\<close>.\<close>

abbreviation (input) Class_Thread :: u8 where "Class_Thread \<equiv> 1"
abbreviation (input) Class_Semaphore :: u8 where "Class_Semaphore \<equiv> 2"
abbreviation (input) Class_Mutex :: u8 where "Class_Mutex \<equiv> 3"
abbreviation (input) Class_Event :: u8 where "Class_Event \<equiv> 4"
abbreviation (input) Class_MailBox :: u8 where "Class_MailBox \<equiv> 5"
abbreviation (input) Class_MessageQueue :: u8 where "Class_MessageQueue \<equiv> 6"
abbreviation (input) Class_MemHeap :: u8 where "Class_MemHeap \<equiv> 7"
abbreviation (input) Class_MemPool :: u8 where "Class_MemPool \<equiv> 8"
abbreviation (input) Class_Device :: u8 where "Class_Device \<equiv> 9"
abbreviation (input) Class_Timer :: u8 where "Class_Timer \<equiv> 10"
abbreviation (input) Class_Static :: u8 where "Class_Static \<equiv> 0x80"

text \<open>The lists a thread can be linked in.\<close>

datatype qid = Ready nat | Defunct | Susp ptr | Sender ptr

record rt_thread =
  t_tlist :: "qid option"
  t_error :: rt_err
  t_stat :: u8
  t_current_priority :: u8
  t_init_priority :: u8
  t_number_mask :: u32
  t_event_set :: u32
  t_event_info :: u8
  t_init_tick :: u32
  t_remaining_tick :: u32
  t_cleanup :: bool

record rt_timer =
  tm_init_tick :: u32
  tm_timeout_tick :: u32

record rt_semaphore =
  sem_value :: u16

record rt_mutex =
  mtx_value :: u16
  mtx_original_priority :: u8
  mtx_hold :: u8
  mtx_owner :: ptr

record rt_event =
  ev_set :: u32

record rt_mailbox =
  mb_pool :: "u32 list"
  mb_size :: u16
  mb_entry :: u16
  mb_in_offset :: u16
  mb_out_offset :: u16

text \<open>The pool of a message queue as its blocks: the \<open>next\<close> pointer (the index of a block, \<open>None\<close>
  for \<open>RT_NULL\<close>) and the bytes of the message after it.\<close>

record mq_block =
  blk_next :: "nat option"
  blk_data :: "u8 list"

record rt_messagequeue =
  mq_pool :: "mq_block list"
  mq_msg_size :: u16
  mq_max_msgs :: u16
  mq_entry :: u16
  mq_head :: "nat option"
  mq_tail :: "nat option"
  mq_free :: "nat option"

text \<open>A memory pool as its blocks: the first word of a block holds the link to the next free
  block, or the address of the pool while the block is allocated.\<close>

datatype mp_word = FreeNext "nat option" | OwnedBy ptr

record rt_mempool =
  mp_blocks :: "mp_word list"
  mp_size :: u32
  mp_block_size :: u32
  mp_block_total_count :: u32
  mp_block_free_count :: u32
  mp_block_list :: "nat option"

record kstate =
  k_obj :: "oref \<Rightarrow> rt_object"
  k_container :: "u8 \<Rightarrow> oref list"
  k_thr :: "ptr \<Rightarrow> rt_thread"
  k_q :: "qid \<Rightarrow> ptr list"
  k_group :: u32
  k_cur :: ptr
  k_cur_prio :: u8
  k_lock :: "16 word"
  k_irq :: u8
  k_tick :: u32
  k_tmr :: "oref \<Rightarrow> rt_timer"
  k_tlist :: "oref list"
  k_sem :: "ptr \<Rightarrow> rt_semaphore"
  k_mutex :: "ptr \<Rightarrow> rt_mutex"
  k_event :: "ptr \<Rightarrow> rt_event"
  k_mb :: "ptr \<Rightarrow> rt_mailbox"
  k_mq :: "ptr \<Rightarrow> rt_messagequeue"
  k_mp :: "ptr \<Rightarrow> rt_mempool"

definition set_thr :: "ptr \<Rightarrow> (rt_thread \<Rightarrow> rt_thread) \<Rightarrow> kstate \<Rightarrow> kstate" where
  "set_thr t f s = s\<lparr>k_thr := (k_thr s)(t := f (k_thr s t))\<rparr>"


section \<open>Thread status\<close>

text \<open>The status constants of rtdef.h; the low three bits of \<open>stat\<close> are the status, bit 3 is the
  yield flag.\<close>

abbreviation (input) RT_THREAD_INIT :: u8 where "RT_THREAD_INIT \<equiv> 0"
abbreviation (input) RT_THREAD_READY :: u8 where "RT_THREAD_READY \<equiv> 1"
abbreviation (input) RT_THREAD_SUSPEND :: u8 where "RT_THREAD_SUSPEND \<equiv> 2"
abbreviation (input) RT_THREAD_RUNNING :: u8 where "RT_THREAD_RUNNING \<equiv> 3"
abbreviation (input) RT_THREAD_CLOSE :: u8 where "RT_THREAD_CLOSE \<equiv> 4"

definition RT_THREAD_STAT_MASK :: u8 where "RT_THREAD_STAT_MASK = 7"
definition RT_THREAD_STAT_YIELD :: u8 where "RT_THREAD_STAT_YIELD = 8"

definition stat_of :: "rt_thread \<Rightarrow> u8" where
  "stat_of th = t_stat th AND RT_THREAD_STAT_MASK"

definition set_stat :: "u8 \<Rightarrow> rt_thread \<Rightarrow> rt_thread" where
  "set_stat v th = th\<lparr>t_stat := v OR (t_stat th AND NOT RT_THREAD_STAT_MASK)\<rparr>"

definition yielding :: "rt_thread \<Rightarrow> bool" where
  "yielding th \<longleftrightarrow> t_stat th AND RT_THREAD_STAT_YIELD \<noteq> 0"

lemma stat_mask_mask: "RT_THREAD_STAT_MASK = mask 3"
  by (simp add: RT_THREAD_STAT_MASK_def mask_eq_exp_minus_1)

lemma stat_yield_bit: "bit RT_THREAD_STAT_YIELD n \<longleftrightarrow> n = 3"
proof -
  have y: "RT_THREAD_STAT_YIELD = 2 ^ 3" by (simp add: RT_THREAD_STAT_YIELD_def)
  show ?thesis unfolding y bit_exp_iff by auto
qed

lemma stat_of_set_stat: "v AND RT_THREAD_STAT_MASK = v \<Longrightarrow> stat_of (set_stat v th) = v"
proof -
  assume v: "v AND RT_THREAD_STAT_MASK = v"
  have "stat_of (set_stat v th) = v AND RT_THREAD_STAT_MASK"
    by (rule bit_word_eqI) (auto simp: stat_of_def set_stat_def bit_simps)
  with v show ?thesis by simp
qed

lemma stat_of_set_stats [simp]:
  "stat_of (set_stat 1 th) = 1" "stat_of (set_stat 2 th) = 2" "stat_of (set_stat 3 th) = 3"
  by (simp_all add: stat_of_set_stat RT_THREAD_STAT_MASK_def)

lemma stat_of_close [simp]: "stat_of (th\<lparr>t_stat := 4\<rparr>) = 4"
  by (simp add: stat_of_def RT_THREAD_STAT_MASK_def)

lemma stat_of_init [simp]: "stat_of (th\<lparr>t_stat := 0\<rparr>) = 0"
  by (simp add: stat_of_def)

lemma stat_of_clear_yield [simp]:
  "stat_of (th\<lparr>t_stat := t_stat th AND NOT RT_THREAD_STAT_YIELD\<rparr>) = stat_of th"
  by (rule bit_word_eqI)
    (auto simp: stat_of_def stat_mask_mask stat_yield_bit bit_simps)

lemma stat_of_set_yield [simp]:
  "stat_of (th\<lparr>t_stat := t_stat th OR RT_THREAD_STAT_YIELD\<rparr>) = stat_of th"
  by (rule bit_word_eqI)
    (auto simp: stat_of_def stat_mask_mask stat_yield_bit bit_simps)

lemma set_stat_fields [simp]:
  "t_tlist (set_stat v th) = t_tlist th" "t_error (set_stat v th) = t_error th"
  "t_current_priority (set_stat v th) = t_current_priority th"
  "t_init_priority (set_stat v th) = t_init_priority th"
  "t_number_mask (set_stat v th) = t_number_mask th"
  by (simp_all add: set_stat_def)

text \<open>A field update that does not touch \<open>stat\<close> keeps the status.\<close>

lemma stat_of_other [simp]:
  "stat_of (th\<lparr>t_tlist := a\<rparr>) = stat_of th" "stat_of (th\<lparr>t_error := b\<rparr>) = stat_of th"
  "stat_of (th\<lparr>t_current_priority := c\<rparr>) = stat_of th" "stat_of (th\<lparr>t_number_mask := d\<rparr>) = stat_of th"
  "stat_of (th\<lparr>t_event_set := d\<rparr>) = stat_of th" "stat_of (th\<lparr>t_event_info := c\<rparr>) = stat_of th"
  "stat_of (th\<lparr>t_remaining_tick := d\<rparr>) = stat_of th"
  by (simp_all add: stat_of_def)


section \<open>Queues of threads\<close>

definition tlist_remove :: "ptr \<Rightarrow> kstate \<Rightarrow> kstate" where
  "tlist_remove t s =
     (case t_tlist (k_thr s t) of
        None \<Rightarrow> s
      | Some q \<Rightarrow> set_thr t (\<lambda>th. th\<lparr>t_tlist := None\<rparr>)
                    (s\<lparr>k_q := (k_q s)(q := remove1 t (k_q s q))\<rparr>))"

definition q_put :: "qid \<Rightarrow> ptr list \<Rightarrow> ptr \<Rightarrow> kstate \<Rightarrow> kstate" where
  "q_put q xs t s = set_thr t (\<lambda>th. th\<lparr>t_tlist := Some q\<rparr>) (s\<lparr>k_q := (k_q s)(q := xs)\<rparr>)"

definition q_push_front :: "qid \<Rightarrow> ptr \<Rightarrow> kstate \<Rightarrow> kstate" where
  "q_push_front q t s = q_put q (t # k_q s q) t s"

definition q_push_back :: "qid \<Rightarrow> ptr \<Rightarrow> kstate \<Rightarrow> kstate" where
  "q_push_back q t s = q_put q (k_q s q @ [t]) t s"

definition q_insert_at :: "qid \<Rightarrow> ptr \<Rightarrow> ptr \<Rightarrow> kstate \<Rightarrow> kstate" where
  "q_insert_at q m t s =
     q_put q (takeWhile ((\<noteq>) m) (k_q s q) @ t # dropWhile ((\<noteq>) m) (k_q s q)) t s"

text \<open>Linking a node that is in a list already is a fault.\<close>

definition link_ok :: "ptr \<Rightarrow> kstate \<Rightarrow> bool" where
  "link_ok t s \<longleftrightarrow> t_tlist (k_thr s t) = None"

definition tlist_insert_after_head :: "qid \<Rightarrow> ptr \<Rightarrow> kstate \<Rightarrow> kstate option" where
  "tlist_insert_after_head q t s = (if link_ok t s then Some (q_push_front q t s) else None)"

definition tlist_insert_before_head :: "qid \<Rightarrow> ptr \<Rightarrow> kstate \<Rightarrow> kstate option" where
  "tlist_insert_before_head q t s = (if link_ok t s then Some (q_push_back q t s) else None)"

definition tlist_insert_before_node :: "qid \<Rightarrow> ptr \<Rightarrow> ptr \<Rightarrow> kstate \<Rightarrow> kstate option" where
  "tlist_insert_before_node q m t s = (if link_ok t s then Some (q_insert_at q m t s) else None)"

text \<open>The links and the queues agree.\<close>

definition links_ok :: "kstate \<Rightarrow> bool" where
  "links_ok s \<longleftrightarrow>
     (\<forall>q. distinct (k_q s q)) \<and> (\<forall>q t. t \<in> set (k_q s q) \<longleftrightarrow> t_tlist (k_thr s t) = Some q)"

definition kq_rep :: "kstate \<Rightarrow> (qid \<Rightarrow> ptr list) \<Rightarrow> bool" where
  "kq_rep s F \<longleftrightarrow> links_ok s \<and> k_q s = F"

lemma set_thr_thr [simp]: "k_thr (set_thr t f s) u = (if u = t then f (k_thr s t) else k_thr s u)"
  by (simp add: set_thr_def)

lemma set_thr_fields [simp]:
  "k_q (set_thr t f s) = k_q s" "k_group (set_thr t f s) = k_group s"
  "k_cur (set_thr t f s) = k_cur s" "k_lock (set_thr t f s) = k_lock s"
  "k_irq (set_thr t f s) = k_irq s" "k_tick (set_thr t f s) = k_tick s"
  "k_obj (set_thr t f s) = k_obj s" "k_container (set_thr t f s) = k_container s"
  "k_tmr (set_thr t f s) = k_tmr s" "k_tlist (set_thr t f s) = k_tlist s"
  "k_sem (set_thr t f s) = k_sem s" "k_mutex (set_thr t f s) = k_mutex s"
  "k_event (set_thr t f s) = k_event s" "k_mb (set_thr t f s) = k_mb s"
  "k_mq (set_thr t f s) = k_mq s" "k_mp (set_thr t f s) = k_mp s"
  by (simp_all add: set_thr_def)

lemma q_put_q [simp]: "k_q (q_put q xs t s) = (k_q s)(q := xs)"
  by (simp add: q_put_def)

lemma q_put_thr [simp]:
  "k_thr (q_put q xs t s) u = (if u = t then (k_thr s t)\<lparr>t_tlist := Some q\<rparr> else k_thr s u)"
  by (simp add: q_put_def)

lemma q_put_fields [simp]:
  "k_group (q_put q xs t s) = k_group s" "k_cur (q_put q xs t s) = k_cur s"
  "k_lock (q_put q xs t s) = k_lock s" "k_irq (q_put q xs t s) = k_irq s"
  "k_tick (q_put q xs t s) = k_tick s" "k_obj (q_put q xs t s) = k_obj s"
  "k_container (q_put q xs t s) = k_container s"
  "k_tmr (q_put q xs t s) = k_tmr s" "k_tlist (q_put q xs t s) = k_tlist s"
  "k_sem (q_put q xs t s) = k_sem s" "k_mutex (q_put q xs t s) = k_mutex s"
  "k_event (q_put q xs t s) = k_event s" "k_mb (q_put q xs t s) = k_mb s"
  "k_mq (q_put q xs t s) = k_mq s" "k_mp (q_put q xs t s) = k_mp s"
  by (simp_all add: q_put_def)

lemma tlist_remove_q [simp]:
  "k_q (tlist_remove t s) =
     (case t_tlist (k_thr s t) of None \<Rightarrow> k_q s | Some q \<Rightarrow> (k_q s)(q := remove1 t (k_q s q)))"
  by (simp add: tlist_remove_def split: option.splits)

lemma tlist_remove_thr [simp]:
  "k_thr (tlist_remove t s) u = (if u = t then (k_thr s t)\<lparr>t_tlist := None\<rparr> else k_thr s u)"
  by (simp add: tlist_remove_def split: option.splits)

lemma tlist_remove_fields [simp]:
  "k_group (tlist_remove t s) = k_group s" "k_cur (tlist_remove t s) = k_cur s"
  "k_lock (tlist_remove t s) = k_lock s" "k_irq (tlist_remove t s) = k_irq s"
  "k_tick (tlist_remove t s) = k_tick s" "k_obj (tlist_remove t s) = k_obj s"
  "k_container (tlist_remove t s) = k_container s"
  "k_tmr (tlist_remove t s) = k_tmr s" "k_tlist (tlist_remove t s) = k_tlist s"
  "k_sem (tlist_remove t s) = k_sem s" "k_mutex (tlist_remove t s) = k_mutex s"
  "k_event (tlist_remove t s) = k_event s" "k_mb (tlist_remove t s) = k_mb s"
  "k_mq (tlist_remove t s) = k_mq s" "k_mp (tlist_remove t s) = k_mp s"
  by (simp_all add: tlist_remove_def split: option.splits)

lemma links_okD:
  assumes "links_ok s"
  shows "distinct (k_q s q)" and "t \<in> set (k_q s q) \<longleftrightarrow> t_tlist (k_thr s t) = Some q"
  using assms by (auto simp: links_ok_def)

lemma links_ok_put:
  assumes "links_ok s" and "link_ok t s" and "distinct xs" and "set xs = insert t (set (k_q s q))"
  shows "links_ok (q_put q xs t s)"
  using assms by (auto simp: links_ok_def link_ok_def)

lemma links_ok_remove:
  assumes "links_ok s"
  shows "links_ok (tlist_remove t s)"
  using assms by (auto simp: links_ok_def split: option.splits)

lemma split_at_mem: "m \<in> set xs \<Longrightarrow> xs = takeWhile ((\<noteq>) m) xs @ m # tl (dropWhile ((\<noteq>) m) xs)"
  by (induction xs) auto

lemma insert_split:
  assumes "distinct (xs @ m # ys)"
  shows "takeWhile ((\<noteq>) m) (xs @ m # ys) = xs" and "dropWhile ((\<noteq>) m) (xs @ m # ys) = m # ys"
proof -
  have "m \<notin> set xs" using assms by auto
  then show "takeWhile ((\<noteq>) m) (xs @ m # ys) = xs" "dropWhile ((\<noteq>) m) (xs @ m # ys) = m # ys"
    by (induction xs) auto
qed

interpretation kq: node_queues kq_rep "\<lambda>_. True" "\<lambda>_. True" "\<lambda>s t. link_ok t s"
  q_push_front q_push_back q_insert_at tlist_remove
proof
  fix s F n m xs ys and q q' :: qid
  show "kq_rep s F \<Longrightarrow> distinct (F q)"
    by (auto simp: kq_rep_def links_ok_def)
  show "kq_rep s F \<Longrightarrow> q \<noteq> q' \<Longrightarrow> set (F q) \<inter> set (F q') = {}"
    by (auto simp: kq_rep_def links_ok_def)
  show "kq_rep s F \<Longrightarrow> link_ok n s \<Longrightarrow> n \<notin> set (F q)"
    by (auto simp: kq_rep_def links_ok_def link_ok_def)
  show "kq_rep (q_push_front q n s) (F(q := n # F q))" if "kq_rep s F" "link_ok n s"
    using that by (auto simp: kq_rep_def q_push_front_def links_ok_def link_ok_def)
  show "kq_rep (q_push_back q n s) (F(q := F q @ [n]))" if "kq_rep s F" "link_ok n s"
    using that by (auto simp: kq_rep_def q_push_back_def links_ok_def link_ok_def)
  show "kq_rep (q_insert_at q m n s) (F(q := xs @ n # m # ys))"
    if "kq_rep s F" "link_ok n s" "F q = xs @ m # ys"
  proof -
    have q: "k_q s q = xs @ m # ys" using that by (auto simp: kq_rep_def)
    then have d: "distinct (xs @ m # ys)"
      using that(1) links_okD(1) [of s q] by (simp add: kq_rep_def)
    have "n \<notin> set (xs @ m # ys)"
      using that(1,2) links_okD(2) [of s n q] q by (auto simp: kq_rep_def link_ok_def)
    then have "links_ok (q_put q (xs @ n # m # ys) n s)"
      using that(1,2) d q by (intro links_ok_put) (auto simp: kq_rep_def)
    then show ?thesis
      using that(1) unfolding q_insert_at_def q insert_split [OF d] kq_rep_def by simp
  qed
  show "kq_rep (tlist_remove n s) (F(q := xs @ ys))" if "kq_rep s F" "F q = xs @ n # ys"
  proof -
    have l: "links_ok s" and q: "k_q s q = xs @ n # ys" using that by (auto simp: kq_rep_def)
    then have "t_tlist (k_thr s n) = Some q" and "distinct (xs @ n # ys)"
      using links_okD(2) [OF l, of n q] links_okD(1) [OF l, of q] by auto
    then show ?thesis
      using that l q links_ok_remove [OF l] distinct_split_remove1 [of xs n ys]
      by (auto simp: kq_rep_def)
  qed
  show "link_ok n (tlist_remove n s)"
    by (simp add: link_ok_def)
  show "link_ok n s \<Longrightarrow> tlist_remove n s = s"
    by (simp add: link_ok_def tlist_remove_def)
qed


section \<open>The scheduling invariant\<close>

definition prio_mask :: "u8 \<Rightarrow> u32" where
  "prio_mask p = push_bit (unat p) 1"

lemma bit_prio_mask: "bit (prio_mask p) n \<longleftrightarrow> n < 32 \<and> n = unat p"
  by (auto simp: prio_mask_def bit_exp_iff)

text \<open>What the status of a thread says about its node, and the bitmap mask of its priority.\<close>

definition node_ok :: "rt_thread \<Rightarrow> bool" where
  "node_ok th \<longleftrightarrow>
     (if stat_of th = RT_THREAD_READY then t_tlist th = Some (Ready (unat (t_current_priority th)))
      else if stat_of th = RT_THREAD_SUSPEND
        then (\<forall>p. t_tlist th \<noteq> Some (Ready p)) \<and> t_tlist th \<noteq> Some Defunct
      else if stat_of th = RT_THREAD_CLOSE then t_tlist th = None \<or> t_tlist th = Some Defunct
      else t_tlist th = None)"

lemma node_ok_stat:
  "stat_of th = RT_THREAD_READY \<Longrightarrow>
     node_ok th \<longleftrightarrow> t_tlist th = Some (Ready (unat (t_current_priority th)))"
  "stat_of th = RT_THREAD_SUSPEND \<Longrightarrow>
     node_ok th \<longleftrightarrow> (\<forall>p. t_tlist th \<noteq> Some (Ready p)) \<and> t_tlist th \<noteq> Some Defunct"
  "stat_of th = RT_THREAD_CLOSE \<Longrightarrow> node_ok th \<longleftrightarrow> t_tlist th = None \<or> t_tlist th = Some Defunct"
  "stat_of th = RT_THREAD_RUNNING \<Longrightarrow> node_ok th \<longleftrightarrow> t_tlist th = None"
  "stat_of th = RT_THREAD_INIT \<Longrightarrow> node_ok th \<longleftrightarrow> t_tlist th = None"
  by (simp_all add: node_ok_def)

definition prio_ok :: "rt_thread \<Rightarrow> bool" where
  "prio_ok th \<longleftrightarrow> t_current_priority th < 32 \<and> t_init_priority th < 32 \<and>
     (t_number_mask th = prio_mask (t_current_priority th) \<or>
      t_number_mask th = 0 \<and> stat_of th \<notin> {RT_THREAD_READY, RT_THREAD_SUSPEND, RT_THREAD_RUNNING})"

definition group_ok :: "kstate \<Rightarrow> bool" where
  "group_ok s \<longleftrightarrow> (\<forall>p < 32. bit (k_group s) p \<longleftrightarrow> k_q s (Ready p) \<noteq> [])"

text \<open>\<open>kinv_but X s\<close>: the invariant, but for the status of the threads of \<open>X\<close>, which an
  operation is moving from one queue to another; their nodes are in no queue.\<close>

definition kinv_but :: "ptr set \<Rightarrow> kstate \<Rightarrow> bool" where
  "kinv_but X s \<longleftrightarrow> links_ok s \<and> group_ok s \<and>
     (\<forall>t. prio_ok (k_thr s t)) \<and>
     (\<forall>t. if t \<in> X then link_ok t s
          else node_ok (k_thr s t) \<and> (stat_of (k_thr s t) = RT_THREAD_RUNNING \<longrightarrow> t = k_cur s)) \<and>
     stat_of (k_thr s RT_NULL) = RT_THREAD_INIT"

definition kinv :: "kstate \<Rightarrow> bool" where
  "kinv s \<longleftrightarrow> kinv_but {} s"

lemma kinv_butD:
  assumes "kinv_but X s"
  shows "links_ok s" and "group_ok s" and "prio_ok (k_thr s t)"
    and "t \<in> X \<Longrightarrow> link_ok t s" and "t \<notin> X \<Longrightarrow> node_ok (k_thr s t)"
    and "t \<notin> X \<Longrightarrow> stat_of (k_thr s t) = RT_THREAD_RUNNING \<Longrightarrow> t = k_cur s"
    and "stat_of (k_thr s RT_NULL) = RT_THREAD_INIT"
  using assms unfolding kinv_but_def by presburger+

lemma kinv_butI:
  assumes "links_ok s" and "group_ok s" and "\<And>t. prio_ok (k_thr s t)"
    and "\<And>t. t \<in> X \<Longrightarrow> link_ok t s" and "\<And>t. t \<notin> X \<Longrightarrow> node_ok (k_thr s t)"
    and "\<And>t. t \<notin> X \<Longrightarrow> stat_of (k_thr s t) = RT_THREAD_RUNNING \<Longrightarrow> t = k_cur s"
    and "stat_of (k_thr s RT_NULL) = RT_THREAD_INIT"
  shows "kinv_but X s"
  using assms unfolding kinv_but_def by presburger

text \<open>A thread in a ready queue is READY at that priority; the ready queues hold exactly the
  READY threads.\<close>

lemma ready_queue:
  assumes "kinv_but X s" and "t \<in> set (k_q s (Ready p))"
  shows "t \<notin> X" and "stat_of (k_thr s t) = RT_THREAD_READY"
    and "unat (t_current_priority (k_thr s t)) = p" and "p < 32" and "t \<noteq> RT_NULL"
proof -
  have tl: "t_tlist (k_thr s t) = Some (Ready p)"
    using links_okD(2) [OF kinv_butD(1) [OF assms(1)]] assms(2) by blast
  show tX: "t \<notin> X"
    using kinv_butD(4) [OF assms(1)] tl by (auto simp: link_ok_def)
  show r: "stat_of (k_thr s t) = RT_THREAD_READY"
    using kinv_butD(5) [OF assms(1) tX] tl by (auto simp: node_ok_def split: if_splits)
  show "unat (t_current_priority (k_thr s t)) = p"
    using kinv_butD(5) [OF assms(1) tX] tl r by (simp add: node_ok_def)
  then show "p < 32"
    using kinv_butD(3) [OF assms(1), of t] by (simp add: prio_ok_def word_less_nat_alt)
  show "t \<noteq> RT_NULL"
    using r kinv_butD(7) [OF assms(1)] by (cases "t = RT_NULL") simp_all
qed

lemma ready_member:
  assumes "kinv_but X s" and "t \<notin> X" and "stat_of (k_thr s t) = RT_THREAD_READY"
  shows "t \<in> set (k_q s (Ready (unat (t_current_priority (k_thr s t)))))"
  using kinv_butD(5) [OF assms(1,2)] links_okD(2) [OF kinv_butD(1) [OF assms(1)]] assms(3)
  by (simp add: node_ok_def)

end
