(* ===== verification/RTT_Sched.thy ===== *)
theory RTT_Sched
  imports RTT_Kernel
begin

text \<open>
  The scheduler (\<open>src/scheduler.c\<close>, single core) and the interrupt nesting of \<open>src/irq.c\<close>: the
  ready table with its priority bitmap, the choice of the next thread, and the scheduler lock.
  The state after \<open>rt_schedule\<close> is the state at the context switch: \<open>k_cur\<close> is the thread the
  processor continues with. The lemmas show that the invariant of \<open>RTT_Kernel\<close> is kept, that the
  thread that runs has the highest priority, and that equal priorities take turns.
\<close>

section \<open>Operations\<close>

text \<open>An index into \<open>rt_thread_priority_table\<close> has to be below \<open>RT_THREAD_PRIORITY_MAX\<close>.\<close>

definition prio_index :: "ptr \<Rightarrow> kstate \<Rightarrow> nat" where
  "prio_index t s = unat (t_current_priority (k_thr s t))"

definition rt_schedule_insert_thread :: "ptr \<Rightarrow> kstate \<Rightarrow> kstate option" where
  "rt_schedule_insert_thread t s = do {
     rt_assert (t \<noteq> RT_NULL);
     if t = k_cur s then Some (set_thr t (set_stat RT_THREAD_RUNNING) s)
     else do {
       let s = set_thr t (set_stat RT_THREAD_READY) s;
       rt_assert (prio_index t s < 32);
       s \<leftarrow> tlist_insert_before_head (Ready (prio_index t s)) t s;
       Some (s\<lparr>k_group := k_group s OR t_number_mask (k_thr s t)\<rparr>)
     }
   }"

definition rt_schedule_remove_thread :: "ptr \<Rightarrow> kstate \<Rightarrow> kstate option" where
  "rt_schedule_remove_thread t s = do {
     rt_assert (t \<noteq> RT_NULL);
     let s = tlist_remove t s;
     rt_assert (prio_index t s < 32);
     Some (if k_q s (Ready (prio_index t s)) = []
           then s\<lparr>k_group := k_group s AND NOT (t_number_mask (k_thr s t))\<rparr> else s)
   }"

definition get_highest_priority_thread :: "kstate \<Rightarrow> (ptr \<times> nat) option" where
  "get_highest_priority_thread s =
     (case rt_ffs (k_group s) of
        0 \<Rightarrow> None
      | Suc p \<Rightarrow> (case k_q s (Ready p) of [] \<Rightarrow> None | t # _ \<Rightarrow> Some (t, p)))"

definition rt_system_scheduler_init :: "kstate \<Rightarrow> kstate" where
  "rt_system_scheduler_init s =
     s\<lparr>k_lock := 0,
       k_q := (\<lambda>q. case q of Ready p \<Rightarrow> if p < 32 then [] else k_q s q
                            | Defunct \<Rightarrow> [] | _ \<Rightarrow> k_q s q),
       k_group := 0\<rparr>"

definition rt_system_scheduler_start :: "kstate \<Rightarrow> kstate option" where
  "rt_system_scheduler_start s = do {
     (to, p) \<leftarrow> get_highest_priority_thread s;
     let s = s\<lparr>k_cur := to\<rparr>;
     s \<leftarrow> rt_schedule_remove_thread to s;
     Some (set_thr to (\<lambda>th. th\<lparr>t_stat := RT_THREAD_RUNNING\<rparr>) s)
   }"

definition rt_schedule :: "kstate \<Rightarrow> kstate option" where
  "rt_schedule s =
     (if k_lock s = 0 \<and> k_group s \<noteq> 0
      then do {
        (highest, p) \<leftarrow> get_highest_priority_thread s;
        let cur = k_cur s;
        rt_assert (cur \<noteq> RT_NULL);
        let keep = (stat_of (k_thr s cur) = RT_THREAD_RUNNING \<and>
                    (prio_index cur s < p \<or> prio_index cur s = p \<and> \<not> yielding (k_thr s cur)));
        let need_insert = (stat_of (k_thr s cur) = RT_THREAD_RUNNING \<and> \<not> keep);
        let s = (if need_insert
                 then set_thr cur (\<lambda>th. th\<lparr>t_stat := t_stat th AND NOT RT_THREAD_STAT_YIELD\<rparr>) s
                 else s);
        let to = (if keep then cur else highest);
        if to \<noteq> cur
        then do {
          let s = s\<lparr>k_cur_prio := of_nat p, k_cur := to\<rparr>;
          s \<leftarrow> (if need_insert then rt_schedule_insert_thread cur s else Some s);
          s \<leftarrow> rt_schedule_remove_thread to s;
          Some (set_thr to (set_stat RT_THREAD_RUNNING) s)
        }
        else do {
          s \<leftarrow> rt_schedule_remove_thread cur s;
          Some (set_thr cur (set_stat RT_THREAD_RUNNING) s)
        }
      }
      else Some s)"

definition rt_enter_critical :: "kstate \<Rightarrow> kstate" where
  "rt_enter_critical s = s\<lparr>k_lock := k_lock s + 1\<rparr>"

definition rt_exit_critical :: "kstate \<Rightarrow> kstate option" where
  "rt_exit_critical s =
     (let s = s\<lparr>k_lock := k_lock s - 1\<rparr> in
      if sint (k_lock s) \<le> 0
      then let s = s\<lparr>k_lock := 0\<rparr> in if k_cur s \<noteq> RT_NULL then rt_schedule s else Some s
      else Some s)"

definition rt_critical_level :: "kstate \<Rightarrow> u16" where
  "rt_critical_level s = k_lock s"

definition rt_interrupt_enter :: "kstate \<Rightarrow> kstate" where
  "rt_interrupt_enter s = s\<lparr>k_irq := k_irq s + 1\<rparr>"

definition rt_interrupt_leave :: "kstate \<Rightarrow> kstate" where
  "rt_interrupt_leave s = s\<lparr>k_irq := k_irq s - 1\<rparr>"

definition rt_interrupt_get_nest :: "kstate \<Rightarrow> u8" where
  "rt_interrupt_get_nest s = k_irq s"


section \<open>The ready table\<close>

lemma prio_index_bound: "kinv_but X s \<Longrightarrow> prio_index t s < 32"
  using kinv_butD(3) [of X s t] by (simp add: prio_ok_def prio_index_def word_less_nat_alt)

lemma prio_ok_update [simp]:
  "prio_ok (th\<lparr>t_tlist := a\<rparr>) = prio_ok th"
  "prio_ok (th\<lparr>t_error := b\<rparr>) = prio_ok th"
  "prio_ok (th\<lparr>t_stat := t_stat th AND NOT RT_THREAD_STAT_YIELD\<rparr>) = prio_ok th"
  "prio_ok (th\<lparr>t_stat := t_stat th OR RT_THREAD_STAT_YIELD\<rparr>) = prio_ok th"
  by (simp_all add: prio_ok_def)

lemma node_ok_update [simp]:
  "node_ok (th\<lparr>t_error := b\<rparr>) = node_ok th"
  "node_ok (th\<lparr>t_stat := t_stat th AND NOT RT_THREAD_STAT_YIELD\<rparr>) = node_ok th"
  "node_ok (th\<lparr>t_stat := t_stat th OR RT_THREAD_STAT_YIELD\<rparr>) = node_ok th"
  by (simp_all add: node_ok_def)

lemma prio_ok_live:
  "prio_ok th \<Longrightarrow> t_number_mask th = prio_mask (t_current_priority th) \<Longrightarrow> prio_ok (set_stat v th)"
  by (simp add: prio_ok_def)

lemma live_mask:
  "prio_ok th \<Longrightarrow> stat_of th \<in> {RT_THREAD_READY, RT_THREAD_SUSPEND, RT_THREAD_RUNNING} \<Longrightarrow>
   t_number_mask th = prio_mask (t_current_priority th)"
  by (auto simp: prio_ok_def)

text \<open>The states the two operations lead to when they do not fault.\<close>

definition inserted :: "ptr \<Rightarrow> kstate \<Rightarrow> kstate" where
  "inserted t s =
     (q_push_back (Ready (prio_index t s)) t (set_thr t (set_stat RT_THREAD_READY) s))
       \<lparr>k_group := k_group s OR t_number_mask (k_thr s t)\<rparr>"

definition removed :: "ptr \<Rightarrow> kstate \<Rightarrow> kstate" where
  "removed t s =
     (tlist_remove t s)\<lparr>k_group :=
        (if k_q (tlist_remove t s) (Ready (prio_index t s)) = []
         then k_group s AND NOT (t_number_mask (k_thr s t)) else k_group s)\<rparr>"

lemma inserted_thr [simp]:
  "k_thr (inserted t s) u =
     (if u = t then (set_stat RT_THREAD_READY (k_thr s t))\<lparr>t_tlist := Some (Ready (prio_index t s))\<rparr>
      else k_thr s u)"
  by (simp add: inserted_def q_push_back_def)

lemma inserted_q [simp]:
  "k_q (inserted t s) = (k_q s)(Ready (prio_index t s) := k_q s (Ready (prio_index t s)) @ [t])"
  by (simp add: inserted_def q_push_back_def)

lemma inserted_fields [simp]:
  "k_cur (inserted t s) = k_cur s" "k_lock (inserted t s) = k_lock s" "k_irq (inserted t s) = k_irq s"
  "k_tick (inserted t s) = k_tick s" "k_obj (inserted t s) = k_obj s"
  "k_container (inserted t s) = k_container s" "k_tmr (inserted t s) = k_tmr s"
  "k_tlist (inserted t s) = k_tlist s" "k_sem (inserted t s) = k_sem s"
  "k_mutex (inserted t s) = k_mutex s" "k_event (inserted t s) = k_event s" "k_mb (inserted t s) = k_mb s"
  "k_mq (inserted t s) = k_mq s" "k_mp (inserted t s) = k_mp s"
  by (simp_all add: inserted_def q_push_back_def)

lemma removed_thr [simp]:
  "k_thr (removed t s) u = (if u = t then (k_thr s t)\<lparr>t_tlist := None\<rparr> else k_thr s u)"
  by (simp add: removed_def)

lemma removed_q [simp]: "k_q (removed t s) = k_q (tlist_remove t s)"
  by (simp add: removed_def del: tlist_remove_q)

lemma removed_fields [simp]:
  "k_cur (removed t s) = k_cur s" "k_lock (removed t s) = k_lock s" "k_irq (removed t s) = k_irq s"
  "k_tick (removed t s) = k_tick s" "k_obj (removed t s) = k_obj s"
  "k_container (removed t s) = k_container s" "k_tmr (removed t s) = k_tmr s"
  "k_tlist (removed t s) = k_tlist s" "k_sem (removed t s) = k_sem s"
  "k_mutex (removed t s) = k_mutex s" "k_event (removed t s) = k_event s" "k_mb (removed t s) = k_mb s"
  "k_mq (removed t s) = k_mq s" "k_mp (removed t s) = k_mp s"
  by (simp_all add: removed_def)

text \<open>Inserting a thread whose node is free makes it READY, at the end of its queue.\<close>

lemma insert_thread_but:
  assumes inv: "kinv_but X s" and t: "t \<in> X" "t \<noteq> RT_NULL" "t \<noteq> k_cur s"
    and mask: "t_number_mask (k_thr s t) = prio_mask (t_current_priority (k_thr s t))"
  shows "rt_schedule_insert_thread t s = Some (inserted t s)" and "kinv_but (X - {t}) (inserted t s)"
proof -
  let ?p = "prio_index t s"
  have free: "t_tlist (k_thr s t) = None"
    using kinv_butD(4) [OF inv t(1)] by (simp add: link_ok_def)
  have pr: "prio_index t (set_thr t (set_stat RT_THREAD_READY) s) = ?p"
    by (simp add: prio_index_def)
  define s' where "s' = inserted t s"
  show "rt_schedule_insert_thread t s = Some (inserted t s)"
    using t free prio_index_bound [OF inv]
    by (simp add: rt_schedule_insert_thread_def tlist_insert_before_head_def link_ok_def pr Let_def
        inserted_def q_push_back_def)
  have notin: "t \<notin> set (k_q s q)" for q
    using links_okD(2) [OF kinv_butD(1) [OF inv]] free by simp
  have thr: "k_thr s' u = (if u = t then (set_stat RT_THREAD_READY (k_thr s t))\<lparr>t_tlist := Some (Ready ?p)\<rparr>
      else k_thr s u)" for u
    by (simp add: s'_def)
  have q: "k_q s' = (k_q s)(Ready ?p := k_q s (Ready ?p) @ [t])"
    by (simp add: s'_def)
  show "kinv_but (X - {t}) (inserted t s)"
    unfolding s'_def [symmetric]
  proof (rule kinv_butI)
    show "links_ok s'"
      using links_okD [OF kinv_butD(1) [OF inv]] free notin by (auto simp: links_ok_def thr q)
    have "bit (k_group s') n \<longleftrightarrow> bit (k_group s) n \<or> n = ?p" if "n < 32" for n
      using that prio_index_bound [OF inv]
      by (auto simp: s'_def inserted_def q_push_back_def bit_or_iff mask bit_prio_mask prio_index_def)
    then show "group_ok s'"
      using kinv_butD(2) [OF inv] by (auto simp: group_ok_def q)
    fix u
    show "prio_ok (k_thr s' u)"
      using kinv_butD(3) [OF inv] mask by (simp add: thr prio_ok_live)
    show "u \<in> X - {t} \<Longrightarrow> link_ok u s'"
      using kinv_butD(4) [OF inv] by (simp add: thr link_ok_def)
    show "node_ok (k_thr s' u)" if "u \<notin> X - {t}"
      using that kinv_butD(5) [OF inv, of u] by (auto simp: thr node_ok_stat prio_index_def)
    show "u = k_cur s'" if "u \<notin> X - {t}" "stat_of (k_thr s' u) = RT_THREAD_RUNNING"
      using that kinv_butD(6) [OF inv] by (auto simp: thr s'_def split: if_splits)
  next
    show "stat_of (k_thr s' RT_NULL) = RT_THREAD_INIT"
      using kinv_butD(7) [OF inv] t(2) by (simp add: thr)
  qed
qed


text \<open>Removing a thread frees its node and keeps the bitmap exact.\<close>

lemma remove_thread_but:
  assumes inv: "kinv_but X s" and t: "t \<noteq> RT_NULL"
  shows "rt_schedule_remove_thread t s = Some (removed t s)" and "kinv_but (insert t X) (removed t s)"
proof -
  define s' where "s' = removed t s"
  let ?p = "prio_index t s" and ?s1 = "tlist_remove t s"
  have pr: "prio_index t ?s1 = ?p" by (simp add: prio_index_def)
  show "rt_schedule_remove_thread t s = Some (removed t s)"
    using t prio_index_bound [OF inv]
    by (auto simp: rt_schedule_remove_thread_def Let_def pr removed_def)
  have thr: "k_thr s' u = (if u = t then (k_thr s t)\<lparr>t_tlist := None\<rparr> else k_thr s u)" for u
    by (simp add: s'_def)
  have q: "k_q s' = k_q ?s1" by (simp add: s'_def)
  show "kinv_but (insert t X) (removed t s)"
    unfolding s'_def [symmetric]
  proof (rule kinv_butI)
    show "links_ok s'"
      using links_ok_remove [OF kinv_butD(1) [OF inv], of t] unfolding links_ok_def q thr by simp
    have other: "k_q s' (Ready n) \<noteq> [] \<longleftrightarrow> k_q s (Ready n) \<noteq> []" if "n \<noteq> ?p" for n
    proof (cases "t_tlist (k_thr s t) = Some (Ready n)")
      case True
      then have "t \<in> set (k_q s (Ready n))"
        using links_okD(2) [OF kinv_butD(1) [OF inv]] by simp
      then have "n = ?p" using ready_queue(3) [OF inv] by (simp add: prio_index_def)
      with that show ?thesis by simp
    qed (auto simp: q split: option.splits)
    have gone: "k_q s (Ready ?p) \<noteq> [] \<Longrightarrow> k_q s' (Ready ?p) = [] \<Longrightarrow>
        t_number_mask (k_thr s t) = prio_mask (t_current_priority (k_thr s t))"
    proof -
      assume ne: "k_q s (Ready ?p) \<noteq> []" and em: "k_q s' (Ready ?p) = []"
      then have "t_tlist (k_thr s t) = Some (Ready ?p)"
        by (auto simp: q split: option.splits if_splits)
      then have "t \<in> set (k_q s (Ready ?p))"
        using links_okD(2) [OF kinv_butD(1) [OF inv]] by simp
      from ready_queue(2) [OF inv this] show ?thesis
        using live_mask [OF kinv_butD(3) [OF inv, of t]] by simp
    qed
    have sub: "k_q s' (Ready ?p) \<noteq> [] \<Longrightarrow> k_q s (Ready ?p) \<noteq> []"
      by (auto simp: q split: option.splits if_splits)
    have mask: "bit (t_number_mask (k_thr s t)) n \<Longrightarrow> n = ?p" for n
      using kinv_butD(3) [OF inv, of t] by (auto simp: prio_ok_def bit_prio_mask prio_index_def)
    have "bit (k_group s') n \<longleftrightarrow> k_q s' (Ready n) \<noteq> []" if "n < 32" for n
    proof (cases "n = ?p")
      case False
      then show ?thesis
        using other that mask [of n] kinv_butD(2) [OF inv]
        by (auto simp: group_ok_def s'_def removed_def bit_and_iff bit_not_iff)
    next
      case True
      have old: "bit (k_group s) n \<longleftrightarrow> k_q s (Ready ?p) \<noteq> []"
        using that True kinv_butD(2) [OF inv] by (simp add: group_ok_def)
      show ?thesis
      proof (cases "k_q s' (Ready ?p) = []")
        case em: True
        then have "k_group s' = k_group s AND NOT (t_number_mask (k_thr s t))"
          by (simp add: s'_def removed_def)
        moreover have "k_q s (Ready ?p) \<noteq> [] \<Longrightarrow> bit (t_number_mask (k_thr s t)) n"
          using gone em True that by (simp add: bit_prio_mask prio_index_def)
        ultimately show ?thesis
          using em old True by (auto simp: bit_and_iff bit_not_iff)
      next
        case ne: False
        then have "k_group s' = k_group s" by (simp add: s'_def removed_def)
        then show ?thesis using ne sub old True by simp
      qed
    qed
    then show "group_ok s'" by (simp add: group_ok_def)
    fix u
    show "prio_ok (k_thr s' u)"
      using kinv_butD(3) [OF inv] by (simp add: thr)
    show "u \<in> insert t X \<Longrightarrow> link_ok u s'"
      using kinv_butD(4) [OF inv, of u] by (auto simp: thr link_ok_def)
    show "node_ok (k_thr s' u)" if "u \<notin> insert t X"
      using that kinv_butD(5) [OF inv, of u] by (simp add: thr)
    show "u = k_cur s'" if "u \<notin> insert t X" "stat_of (k_thr s' u) = RT_THREAD_RUNNING"
      using that kinv_butD(6) [OF inv, of u] by (simp add: thr s'_def)
  next
    show "stat_of (k_thr s' RT_NULL) = RT_THREAD_INIT"
      using kinv_butD(7) [OF inv] by (simp add: thr)
  qed
qed

text \<open>A status change that settles a thread whose node is free.\<close>

lemma settle_thread:
  assumes inv: "kinv_but X s" and "t \<noteq> RT_NULL"
    and f: "node_ok (f (k_thr s t))" "prio_ok (f (k_thr s t))" "t_tlist (f (k_thr s t)) = None"
    and run: "stat_of (f (k_thr s t)) = RT_THREAD_RUNNING \<Longrightarrow> t = k_cur s"
    and free: "link_ok t s"
  shows "kinv_but (X - {t}) (set_thr t f s)"
proof (rule kinv_butI)
  have tl: "t_tlist (k_thr s t) = None" using free by (simp add: link_ok_def)
  show "links_ok (set_thr t f s)"
    using links_okD [OF kinv_butD(1) [OF inv]] f(3) tl by (simp add: links_ok_def)
  show "group_ok (set_thr t f s)"
    using kinv_butD(2) [OF inv] by (simp add: group_ok_def)
  fix u
  show "prio_ok (k_thr (set_thr t f s) u)"
    using kinv_butD(3) [OF inv] f by simp
  show "link_ok u (set_thr t f s)" if "u \<in> X - {t}"
    using that kinv_butD(4) [OF inv, of u] by (simp add: link_ok_def)
  show "node_ok (k_thr (set_thr t f s) u)" if "u \<notin> X - {t}"
    using that kinv_butD(5) [OF inv, of u] f by auto
  show "u = k_cur (set_thr t f s)"
    if "u \<notin> X - {t}" "stat_of (k_thr (set_thr t f s) u) = RT_THREAD_RUNNING"
    using that kinv_butD(6) [OF inv, of u] run by (auto split: if_splits)
next
  show "stat_of (k_thr (set_thr t f s) RT_NULL) = RT_THREAD_INIT"
    using kinv_butD(7) [OF inv] assms(2) by simp
qed


section \<open>Choosing the next thread\<close>

text \<open>When a thread is ready, the bitmap leads to the first thread of the highest non-empty
  priority: it is READY, first in its queue, and no READY thread has a smaller priority number.\<close>

lemma highest_priority_thread:
  assumes inv: "kinv_but X s" and "k_group s \<noteq> 0"
  obtains t p ts where "get_highest_priority_thread s = Some (t, p)" "k_q s (Ready p) = t # ts"
    "p < 32" "\<And>q. q < p \<Longrightarrow> k_q s (Ready q) = []"
proof -
  obtain p where p: "rt_ffs (k_group s) = Suc p"
    using assms(2) rt_ffs_zero [of "k_group s"] by (cases "rt_ffs (k_group s)") auto
  then have b: "p < 32" "bit (k_group s) p" "\<And>q. q < p \<Longrightarrow> \<not> bit (k_group s) q"
    by (auto simp: rt_ffs_pos)
  then have "k_q s (Ready p) \<noteq> []"
    using kinv_butD(2) [OF inv] by (auto simp: group_ok_def)
  then obtain t ts where ts: "k_q s (Ready p) = t # ts" by (cases "k_q s (Ready p)") auto
  moreover have "k_q s (Ready q) = []" if "q < p" for q
    using kinv_butD(2) [OF inv] b(1) b(3) [OF that] that by (auto simp: group_ok_def)
  ultimately show thesis
    using that b(1) p by (simp add: get_highest_priority_thread_def)
qed

lemma highest_le:
  assumes inv: "kinv_but X s" and none: "\<And>q. q < p \<Longrightarrow> k_q s (Ready q) = []"
    and "u \<notin> X" and "stat_of (k_thr s u) = RT_THREAD_READY"
  shows "p \<le> prio_index u s"
  using ready_member [OF inv assms(3,4)] none [of "prio_index u s"]
  by (fastforce simp: prio_index_def)

text \<open>The state after a switch to the thread \<open>t\<close>, taken off its queue.\<close>

definition running :: "ptr \<Rightarrow> kstate \<Rightarrow> kstate" where
  "running t s = set_thr t (set_stat RT_THREAD_RUNNING) (removed t s)"

lemma running_thr [simp]:
  "k_thr (running t s) u =
     (if u = t then set_stat RT_THREAD_RUNNING ((k_thr s t)\<lparr>t_tlist := None\<rparr>) else k_thr s u)"
  by (simp add: running_def)

lemma running_fields [simp]:
  "k_cur (running t s) = k_cur s" "k_lock (running t s) = k_lock s" "k_irq (running t s) = k_irq s"
  "k_tick (running t s) = k_tick s" "k_obj (running t s) = k_obj s"
  "k_container (running t s) = k_container s" "k_tmr (running t s) = k_tmr s"
  "k_tlist (running t s) = k_tlist s" "k_sem (running t s) = k_sem s"
  "k_mutex (running t s) = k_mutex s" "k_event (running t s) = k_event s" "k_mb (running t s) = k_mb s"
  "k_mq (running t s) = k_mq s" "k_mp (running t s) = k_mp s"
  "k_q (running t s) = k_q (tlist_remove t s)"
  by (simp_all add: running_def)

lemma running_inv:
  assumes inv: "kinv_but {} s" and t: "t = k_cur s" "t \<noteq> RT_NULL"
    and "stat_of (k_thr s t) \<in> {RT_THREAD_READY, RT_THREAD_RUNNING}"
  shows "kinv (running t s)"
proof -
  have "prio_ok (set_stat RT_THREAD_RUNNING (k_thr (removed t s) t))"
    using kinv_butD(3) [OF inv, of t] live_mask [OF kinv_butD(3) [OF inv, of t]] assms(4)
    by (intro prio_ok_live) auto
  then have "kinv_but (insert t {} - {t}) (running t s)"
    unfolding running_def using t
    by (intro settle_thread remove_thread_but(2) [OF inv]) (auto simp: node_ok_stat link_ok_def)
  then show ?thesis by (simp add: kinv_def)
qed

text \<open>The four ways through \<open>rt_schedule\<close>.\<close>

definition keeps :: "kstate \<Rightarrow> nat \<Rightarrow> bool" where
  "keeps s p \<longleftrightarrow> stat_of (k_thr s (k_cur s)) = RT_THREAD_RUNNING \<and>
     (prio_index (k_cur s) s < p \<or> prio_index (k_cur s) s = p \<and> \<not> yielding (k_thr s (k_cur s)))"

definition preempted :: "ptr \<Rightarrow> nat \<Rightarrow> kstate \<Rightarrow> kstate" where
  "preempted t p s =
     inserted (k_cur s)
       ((set_thr (k_cur s) (\<lambda>th. th\<lparr>t_stat := t_stat th AND NOT RT_THREAD_STAT_YIELD\<rparr>) s)
          \<lparr>k_cur_prio := of_nat p, k_cur := t\<rparr>)"

lemma preempted_thr [simp]:
  "k_thr (preempted t p s) u =
     (if u = k_cur s
      then (set_stat RT_THREAD_READY ((k_thr s u)\<lparr>t_stat := t_stat (k_thr s u) AND NOT RT_THREAD_STAT_YIELD\<rparr>))
             \<lparr>t_tlist := Some (Ready (prio_index (k_cur s) s))\<rparr>
      else k_thr s u)"
  by (simp add: preempted_def prio_index_def)

lemma preempted_fields [simp]:
  "k_cur (preempted t p s) = t" "k_lock (preempted t p s) = k_lock s" "k_irq (preempted t p s) = k_irq s"
  "k_tick (preempted t p s) = k_tick s" "k_obj (preempted t p s) = k_obj s"
  "k_container (preempted t p s) = k_container s" "k_tmr (preempted t p s) = k_tmr s"
  "k_tlist (preempted t p s) = k_tlist s" "k_sem (preempted t p s) = k_sem s"
  "k_mutex (preempted t p s) = k_mutex s" "k_event (preempted t p s) = k_event s"
  "k_mb (preempted t p s) = k_mb s"
  "k_mq (preempted t p s) = k_mq s" "k_mp (preempted t p s) = k_mp s"
  "k_q (preempted t p s) = (k_q s)(Ready (prio_index (k_cur s) s) :=
     k_q s (Ready (prio_index (k_cur s) s)) @ [k_cur s])"
  by (simp_all add: preempted_def prio_index_def)

lemma cur_update_but:
  "kinv_but {} s \<Longrightarrow> stat_of (k_thr s (k_cur s)) \<noteq> RT_THREAD_RUNNING \<Longrightarrow>
   kinv_but {} (s\<lparr>k_cur_prio := cp, k_cur := t\<rparr>)"
  by (rule kinv_butI)
    (auto simp: links_ok_def group_ok_def link_ok_def dest: kinv_butD)

lemma preempted_inv:
  assumes inv: "kinv_but {} s" and cur: "k_cur s \<noteq> RT_NULL" "t \<noteq> k_cur s"
    and run: "stat_of (k_thr s (k_cur s)) = RT_THREAD_RUNNING"
  shows "rt_schedule_insert_thread (k_cur s)
           ((set_thr (k_cur s) (\<lambda>th. th\<lparr>t_stat := t_stat th AND NOT RT_THREAD_STAT_YIELD\<rparr>) s)
              \<lparr>k_cur_prio := of_nat p, k_cur := t\<rparr>) = Some (preempted t p s)"
    and "kinv_but {} (preempted t p s)"
proof -
  let ?c = "k_cur s"
  let ?s1 = "(set_thr ?c (\<lambda>th. th\<lparr>t_stat := t_stat th AND NOT RT_THREAD_STAT_YIELD\<rparr>) s)
              \<lparr>k_cur_prio := of_nat p, k_cur := t\<rparr>"
  have free: "link_ok ?c s"
    using kinv_butD(5) [OF inv, of ?c] run by (simp add: node_ok_stat link_ok_def)
  have but: "kinv_but {?c} ?s1"
  proof (rule kinv_butI)
    show "links_ok ?s1"
      using links_okD [OF kinv_butD(1) [OF inv]] by (simp add: links_ok_def)
    show "group_ok ?s1"
      using kinv_butD(2) [OF inv] by (simp add: group_ok_def)
    fix u
    show "prio_ok (k_thr ?s1 u)" using kinv_butD(3) [OF inv] by simp
    show "u \<in> {?c} \<Longrightarrow> link_ok u ?s1" using free by (simp add: link_ok_def)
    show "u \<notin> {?c} \<Longrightarrow> node_ok (k_thr ?s1 u)" using kinv_butD(5) [OF inv, of u] by simp
    show "u \<notin> {?c} \<Longrightarrow> stat_of (k_thr ?s1 u) = RT_THREAD_RUNNING \<Longrightarrow> u = k_cur ?s1"
      using kinv_butD(6) [OF inv, of u] by simp
  next
    show "stat_of (k_thr ?s1 RT_NULL) = RT_THREAD_INIT" using kinv_butD(7) [OF inv] cur(1) by simp
  qed
  have mask: "t_number_mask (k_thr ?s1 ?c) = prio_mask (t_current_priority (k_thr ?s1 ?c))"
    using live_mask [OF kinv_butD(3) [OF inv, of ?c]] run by simp
  show "rt_schedule_insert_thread ?c ?s1 = Some (preempted t p s)"
    unfolding preempted_def using cur by (intro insert_thread_but(1) [OF but _ _ _ mask]) auto
  have "kinv_but ({?c} - {?c}) (preempted t p s)"
    unfolding preempted_def using cur by (intro insert_thread_but(2) [OF but _ _ _ mask]) auto
  then show "kinv_but {} (preempted t p s)" by simp
qed

lemma rt_schedule_eval:
  assumes inv: "kinv s" and cur: "k_cur s \<noteq> RT_NULL"
  obtains (off) "k_lock s \<noteq> 0 \<or> k_group s = 0" "rt_schedule s = Some s"
  | (keep) t p ts where "k_lock s = 0" "k_group s \<noteq> 0" "k_q s (Ready p) = t # ts"
      "\<And>q. q < p \<Longrightarrow> k_q s (Ready q) = []" "keeps s p" "rt_schedule s = Some (running (k_cur s) s)"
  | (same) p ts where "k_lock s = 0" "k_group s \<noteq> 0" "k_q s (Ready p) = k_cur s # ts"
      "\<And>q. q < p \<Longrightarrow> k_q s (Ready q) = []" "rt_schedule s = Some (running (k_cur s) s)"
  | (wait) t p ts where "k_lock s = 0" "k_group s \<noteq> 0" "k_q s (Ready p) = t # ts"
      "\<And>q. q < p \<Longrightarrow> k_q s (Ready q) = []" "t \<noteq> k_cur s"
      "stat_of (k_thr s (k_cur s)) \<noteq> RT_THREAD_RUNNING"
      "rt_schedule s = Some (running t (s\<lparr>k_cur_prio := of_nat p, k_cur := t\<rparr>))"
  | (preempt) t p ts where "k_lock s = 0" "k_group s \<noteq> 0" "k_q s (Ready p) = t # ts"
      "\<And>q. q < p \<Longrightarrow> k_q s (Ready q) = []" "t \<noteq> k_cur s" "\<not> keeps s p"
      "stat_of (k_thr s (k_cur s)) = RT_THREAD_RUNNING"
      "rt_schedule s = Some (running t (preempted t p s))"
proof (cases "k_lock s = 0 \<and> k_group s \<noteq> 0")
  case False
  then show thesis using off by (auto simp: rt_schedule_def)
next
  case True
  have inv0: "kinv_but {} s" using inv by (simp add: kinv_def)
  obtain t p ts where h: "get_highest_priority_thread s = Some (t, p)" "k_q s (Ready p) = t # ts"
    "p < 32" "\<And>q. q < p \<Longrightarrow> k_q s (Ready q) = []"
    using highest_priority_thread [OF inv0] True by metis
  have t: "t \<noteq> RT_NULL" "stat_of (k_thr s t) = RT_THREAD_READY"
    using ready_queue(2,5) [OF inv0, of t p] h(2) by auto
  let ?run = "stat_of (k_thr s (k_cur s)) = RT_THREAD_RUNNING"
  consider "keeps s p" | "\<not> keeps s p" "t = k_cur s" | "\<not> keeps s p" "t \<noteq> k_cur s" "?run"
    | "\<not> keeps s p" "t \<noteq> k_cur s" "\<not> ?run" by blast
  then show thesis
  proof cases
    case 1
    then have "rt_schedule s = Some (running (k_cur s) s)"
      using True h(1) cur remove_thread_but(1) [OF inv0 cur]
      by (simp add: rt_schedule_def keeps_def running_def Let_def)
    then show thesis using keep True h 1 by blast
  next
    case 2
    then have "\<not> ?run" using t(2) by auto
    then have "rt_schedule s = Some (running (k_cur s) s)"
      using True h(1) cur remove_thread_but(1) [OF inv0 cur] 2
      by (simp add: rt_schedule_def running_def Let_def)
    then show thesis using same True h 2 by blast
  next
    case 3
    then have "rt_schedule s = Some (running t (preempted t p s))"
      using True h(1) cur t(1) preempted_inv [OF inv0 cur 3(2,3), of p]
        remove_thread_but(1) [OF preempted_inv(2) [OF inv0 cur 3(2,3), of p] t(1)]
      by (simp add: rt_schedule_def keeps_def running_def Let_def) blast
    then show thesis using preempt True h 3 by blast
  next
    case 4
    then have "rt_schedule s = Some (running t (s\<lparr>k_cur_prio := of_nat p, k_cur := t\<rparr>))"
      using True h(1) cur t(1) remove_thread_but(1) [OF cur_update_but [OF inv0 4(3)] t(1)]
      by (simp add: rt_schedule_def keeps_def running_def Let_def)
    then show thesis using wait True h 4 by blast
  qed
qed


text \<open>Every path keeps the invariant, the thread that runs is RUNNING, and only the status
  and the nodes of the two threads involved change.\<close>

lemma rt_schedule_prio_index [simp]:
  "prio_index u (running t s) = prio_index u s" "prio_index u (preempted t p s) = prio_index u s"
  "prio_index u (s\<lparr>k_cur_prio := cp, k_cur := t\<rparr>) = prio_index u s"
  by (simp_all add: prio_index_def)

lemma running_ready:
  "stat_of (k_thr (running t s) u) = RT_THREAD_READY \<longleftrightarrow>
   u \<noteq> t \<and> stat_of (k_thr s u) = RT_THREAD_READY"
  by simp

lemma rt_schedule_total:
  assumes inv: "kinv s" and cur: "k_cur s \<noteq> RT_NULL"
  shows "\<exists>s'. rt_schedule s = Some s' \<and> kinv s' \<and> k_cur s' \<noteq> RT_NULL \<and> k_lock s' = k_lock s"
proof -
  have inv0: "kinv_but {} s" using inv by (simp add: kinv_def)
  show ?thesis
  proof (rule rt_schedule_eval [OF inv cur], goal_cases)
    case 1
    then show ?thesis using inv cur by simp
  next
    case (2 t p ts)
    then have "kinv (running (k_cur s) s)"
      using inv0 cur by (intro running_inv) (auto simp: keeps_def)
    then show ?thesis using 2 cur by simp
  next
    case (3 p ts)
    then have "stat_of (k_thr s (k_cur s)) = RT_THREAD_READY"
      using ready_queue(2) [OF inv0, of "k_cur s" p] by simp
    then have "kinv (running (k_cur s) s)"
      using inv0 cur by (intro running_inv) auto
    then show ?thesis using 3 cur by simp
  next
    case (4 t p ts)
    then have t: "t \<noteq> RT_NULL" "stat_of (k_thr s t) = RT_THREAD_READY"
      using ready_queue(2,5) [OF inv0, of t p] by auto
    have "kinv (running t (s\<lparr>k_cur_prio := of_nat p, k_cur := t\<rparr>))"
      using t 4(6) by (intro running_inv cur_update_but [OF inv0]) auto
    then show ?thesis using 4 t by simp
  next
    case (5 t p ts)
    then have t: "t \<noteq> RT_NULL" "stat_of (k_thr s t) = RT_THREAD_READY"
      using ready_queue(2,5) [OF inv0, of t p] by auto
    have "kinv (running t (preempted t p s))"
      using t 5(5) by (intro running_inv preempted_inv(2) [OF inv0 cur 5(5,7)]) auto
    then show ?thesis using 5 t by simp
  qed
qed

lemma schedule_highest:
  assumes inv: "kinv s" and cur: "k_cur s \<noteq> RT_NULL" and "k_lock s = 0" and "k_group s \<noteq> 0"
  shows "\<exists>s'. rt_schedule s = Some s' \<and> kinv s' \<and>
           stat_of (k_thr s' (k_cur s')) = RT_THREAD_RUNNING \<and>
           (\<forall>u. stat_of (k_thr s' u) = RT_THREAD_READY \<longrightarrow> prio_index (k_cur s') s' \<le> prio_index u s')"
proof -
  have inv0: "kinv_but {} s" using inv by (simp add: kinv_def)
  obtain s' where s': "rt_schedule s = Some s'" "kinv s'"
    using rt_schedule_total [OF inv cur] by blast
  have "stat_of (k_thr s' (k_cur s')) = RT_THREAD_RUNNING \<and>
     (\<forall>u. stat_of (k_thr s' u) = RT_THREAD_READY \<longrightarrow> prio_index (k_cur s') s' \<le> prio_index u s')"
  proof (rule rt_schedule_eval [OF inv cur], goal_cases)
    case 1
    then show ?case using assms by simp
  next
    case (2 t p ts)
    then have "prio_index (k_cur s) s \<le> p" by (auto simp: keeps_def)
    then show ?case
      using 2 s'(1) highest_le [OF inv0 2(4)] by (auto intro: le_trans)
  next
    case (3 p ts)
    then have "prio_index (k_cur s) s = p"
      using ready_queue(3) [OF inv0, of "k_cur s" p] by (simp add: prio_index_def)
    then show ?case
      using 3 s'(1) highest_le [OF inv0 3(4)] by auto
  next
    case (4 t p ts)
    then have "prio_index t s = p"
      using ready_queue(3) [OF inv0, of t p] by (simp add: prio_index_def)
    then show ?case
      using 4 s'(1) highest_le [OF inv0 4(4)] by auto
  next
    case (5 t p ts)
    then have "prio_index t s = p"
      using ready_queue(3) [OF inv0, of t p] by (simp add: prio_index_def)
    moreover have "p \<le> prio_index (k_cur s) s"
      using 5(6,7) by (auto simp: keeps_def)
    ultimately show ?case
      using 5 s'(1) highest_le [OF inv0 5(4)] by auto
  qed
  with s' show ?thesis by blast
qed

text \<open>C12: when the scheduler is not locked and some thread is ready, \<open>rt_schedule\<close> does not
  fault, keeps the invariant, and leaves a RUNNING thread on the processor such that no READY
  thread has a higher priority (a smaller priority number).\<close>

theorem rt_schedule_highest:
  assumes inv: "kinv s" and cur: "k_cur s \<noteq> RT_NULL" and "k_lock s = 0" and "k_group s \<noteq> 0"
  shows "\<exists>s'. rt_schedule s = Some s' \<and> kinv s' \<and>
           stat_of (k_thr s' (k_cur s')) = RT_THREAD_RUNNING \<and>
           (\<forall>u. stat_of (k_thr s' u) = RT_THREAD_READY \<longrightarrow> prio_index (k_cur s') s' \<le> prio_index u s')"
  by (rule schedule_highest [OF assms])

section \<open>What a switch leaves alone\<close>

text \<open>Only the status, the node and the ready queues change: the waiting queues, the priorities,
  error numbers and everything outside the scheduler stay.\<close>

definition thr_frame :: "rt_thread \<Rightarrow> rt_thread \<Rightarrow> bool" where
  "thr_frame th th' \<longleftrightarrow> th' = th\<lparr>t_stat := t_stat th', t_tlist := t_tlist th'\<rparr>"

lemma thr_frame_refl [simp]: "thr_frame th th"
  by (simp add: thr_frame_def)

lemma thr_frame_update [simp]:
  "thr_frame th (th'\<lparr>t_stat := st\<rparr>) = thr_frame th th'"
  "thr_frame th (th'\<lparr>t_tlist := nd\<rparr>) = thr_frame th th'"
  "thr_frame th (set_stat st th') = thr_frame th th'"
  by (cases th; cases th'; simp add: thr_frame_def set_stat_def)+

lemma thr_frameD:
  assumes "thr_frame th th'"
  shows "t_error th' = t_error th" and "t_current_priority th' = t_current_priority th"
    and "t_init_priority th' = t_init_priority th" and "t_event_set th' = t_event_set th"
    and "t_event_info th' = t_event_info th" and "t_init_tick th' = t_init_tick th"
    and "t_remaining_tick th' = t_remaining_tick th" and "t_number_mask th' = t_number_mask th"
    and "t_cleanup th' = t_cleanup th"
  using assms by (cases th; cases th'; simp add: thr_frame_def)+

definition sched_frame :: "kstate \<Rightarrow> kstate \<Rightarrow> bool" where
  "sched_frame s s' \<longleftrightarrow>
     (\<exists>q th g c cp. s' = s\<lparr>k_q := q, k_thr := th, k_group := g, k_cur := c, k_cur_prio := cp\<rparr>) \<and>
     (\<forall>q. (\<forall>p. q \<noteq> Ready p) \<longrightarrow> k_q s' q = k_q s q) \<and>
     (\<forall>u. thr_frame (k_thr s u) (k_thr s' u))"

lemma sched_frame_refl: "sched_frame s s"
proof -
  have "s = s\<lparr>k_q := k_q s, k_thr := k_thr s, k_group := k_group s, k_cur := k_cur s,
              k_cur_prio := k_cur_prio s\<rparr>" by simp
  then show ?thesis unfolding sched_frame_def using thr_frame_refl by blast
qed

lemma sched_frameD:
  assumes "sched_frame s s'"
  shows "k_lock s' = k_lock s" and "k_irq s' = k_irq s" and "k_tick s' = k_tick s"
    and "k_obj s' = k_obj s" and "k_container s' = k_container s"
    and "k_tmr s' = k_tmr s" and "k_tlist s' = k_tlist s" and "k_sem s' = k_sem s"
    and "k_mutex s' = k_mutex s" and "k_event s' = k_event s" and "k_mb s' = k_mb s"
    and "k_q s' (Susp x) = k_q s (Susp x)" and "k_q s' (Sender x) = k_q s (Sender x)"
    and "k_q s' Defunct = k_q s Defunct"
    and "t_error (k_thr s' u) = t_error (k_thr s u)"
    and "t_current_priority (k_thr s' u) = t_current_priority (k_thr s u)"
    and "t_init_priority (k_thr s' u) = t_init_priority (k_thr s u)"
    and "t_event_set (k_thr s' u) = t_event_set (k_thr s u)"
    and "t_event_info (k_thr s' u) = t_event_info (k_thr s u)"
    and "t_init_tick (k_thr s' u) = t_init_tick (k_thr s u)"
    and "t_remaining_tick (k_thr s' u) = t_remaining_tick (k_thr s u)"
    and "k_mq s' = k_mq s" and "k_mp s' = k_mp s"
proof -
  have "thr_frame (k_thr s u) (k_thr s' u)"
    using assms by (auto simp: sched_frame_def)
  from thr_frameD [OF this] show "t_error (k_thr s' u) = t_error (k_thr s u)"
    "t_current_priority (k_thr s' u) = t_current_priority (k_thr s u)"
    "t_init_priority (k_thr s' u) = t_init_priority (k_thr s u)"
    "t_event_set (k_thr s' u) = t_event_set (k_thr s u)"
    "t_event_info (k_thr s' u) = t_event_info (k_thr s u)"
    "t_init_tick (k_thr s' u) = t_init_tick (k_thr s u)"
    "t_remaining_tick (k_thr s' u) = t_remaining_tick (k_thr s u)"
    by simp_all
qed (use assms in \<open>auto simp: sched_frame_def\<close>)

lemma removed_frame_q:
  "t_tlist (k_thr s t) = None \<or> (\<exists>p. t_tlist (k_thr s t) = Some (Ready p)) \<Longrightarrow> (\<forall>p. q \<noteq> Ready p) \<Longrightarrow>
   k_q (tlist_remove t s) q = k_q s q"
  by (auto split: option.splits)

lemma sched_frameI:
  assumes "k_obj s' = k_obj s" "k_container s' = k_container s" "k_lock s' = k_lock s"
    "k_irq s' = k_irq s" "k_tick s' = k_tick s" "k_tmr s' = k_tmr s" "k_tlist s' = k_tlist s"
    "k_sem s' = k_sem s" "k_mutex s' = k_mutex s" "k_event s' = k_event s" "k_mb s' = k_mb s"
    "k_mq s' = k_mq s" "k_mp s' = k_mp s"
    and "\<And>q. (\<forall>p. q \<noteq> Ready p) \<Longrightarrow> k_q s' q = k_q s q"
    and "\<And>u. thr_frame (k_thr s u) (k_thr s' u)"
  shows "sched_frame s s'"
proof -
  have "s' = s\<lparr>k_q := k_q s', k_thr := k_thr s', k_group := k_group s', k_cur := k_cur s',
              k_cur_prio := k_cur_prio s'\<rparr>"
    using assms(1-13) by (cases s; cases s') simp
  then show ?thesis using assms(14,15) unfolding sched_frame_def by blast
qed

lemma rt_schedule_frame:
  assumes inv: "kinv s" and cur: "k_cur s \<noteq> RT_NULL" and s': "rt_schedule s = Some s'"
  shows "sched_frame s s'"
proof -
  have inv0: "kinv_but {} s" using inv by (simp add: kinv_def)
  have f: "thr_frame (k_thr s u) (k_thr s' u)" for u
    by (rule rt_schedule_eval [OF inv cur]) (use s' in auto)
  have fields: "k_obj s' = k_obj s" "k_container s' = k_container s" "k_lock s' = k_lock s"
    "k_irq s' = k_irq s" "k_tick s' = k_tick s" "k_tmr s' = k_tmr s" "k_tlist s' = k_tlist s"
    "k_sem s' = k_sem s" "k_mutex s' = k_mutex s" "k_event s' = k_event s" "k_mb s' = k_mb s"
    "k_mq s' = k_mq s" "k_mp s' = k_mp s"
    by (rule rt_schedule_eval [OF inv cur]; use s' in simp)+
  have q: "k_q s' q = k_q s q" if "\<forall>p. q \<noteq> Ready p" for q
  proof (rule rt_schedule_eval [OF inv cur], goal_cases)
    case 1
    then show ?thesis using s' by simp
  next
    case (2 t p ts)
    then have "t_tlist (k_thr s (k_cur s)) = None"
      using kinv_butD(5) [OF inv0, of "k_cur s"] by (simp add: node_ok_stat keeps_def)
    then show ?thesis using 2 s' by simp
  next
    case (3 p ts)
    then have "t_tlist (k_thr s (k_cur s)) = Some (Ready p)"
      using links_okD(2) [OF kinv_butD(1) [OF inv0], of "k_cur s" "Ready p"] by simp
    then show ?thesis using 3 s' that by simp
  next
    case (4 t p ts)
    then have "t_tlist (k_thr s t) = Some (Ready p)"
      using links_okD(2) [OF kinv_butD(1) [OF inv0], of t "Ready p"] by simp
    then show ?thesis using 4 s' that by simp
  next
    case (5 t p ts)
    then have "t_tlist (k_thr s t) = Some (Ready p)"
      using links_okD(2) [OF kinv_butD(1) [OF inv0], of t "Ready p"] by simp
    then show ?thesis using 5 s' that by simp
  qed
  show ?thesis by (rule sched_frameI [OF fields q f])
qed


text \<open>A switch moves threads between READY and RUNNING only.\<close>

lemma rt_schedule_stat:
  assumes inv: "kinv s" and cur: "k_cur s \<noteq> RT_NULL" and s': "rt_schedule s = Some s'"
  shows "stat_of (k_thr s' u) = stat_of (k_thr s u) \<or>
    stat_of (k_thr s u) \<in> {RT_THREAD_READY, RT_THREAD_RUNNING} \<and>
    stat_of (k_thr s' u) \<in> {RT_THREAD_READY, RT_THREAD_RUNNING}"
proof -
  have inv0: "kinv_but {} s" using inv by (simp add: kinv_def)
  show ?thesis
  proof (rule rt_schedule_eval [OF inv cur], goal_cases)
    case 1
    then show ?thesis using s' by simp
  next
    case (2 t p ts)
    then show ?thesis using s' by (simp add: keeps_def)
  next
    case (3 p ts)
    then show ?thesis using s' ready_queue(2) [OF inv0, of "k_cur s" p] by simp
  next
    case (4 t p ts)
    then show ?thesis using s' ready_queue(2) [OF inv0, of t p] by simp
  next
    case (5 t p ts)
    then show ?thesis using s' ready_queue(2) [OF inv0, of t p] by simp
  qed
qed

section \<open>Equal priorities\<close>

lemma yielding_other [simp]:
  "yielding (th\<lparr>t_tlist := a\<rparr>) = yielding th" "yielding (th\<lparr>t_error := b\<rparr>) = yielding th"
  by (simp_all add: yielding_def)

lemma not_yielding_cleared [simp]:
  "\<not> yielding (set_stat v (th\<lparr>t_stat := t_stat th AND NOT RT_THREAD_STAT_YIELD\<rparr>))" if "v < 8"
proof -
  have "\<not> bit v 3"
  proof
    assume "bit v 3"
    then have "bit (unat v) 3" by (simp add: bit_unsigned_iff)
    then have "odd (unat v div 8)" by (simp add: bit_iff_odd)
    moreover have "unat v < 8" using that by (simp add: word_less_nat_alt)
    ultimately show False by simp
  qed
  then have "(v OR ((t_stat th AND NOT RT_THREAD_STAT_YIELD) AND NOT RT_THREAD_STAT_MASK))
      AND RT_THREAD_STAT_YIELD = 0"
    by (intro bit_word_eqI) (auto simp: stat_yield_bit bit_simps)
  then show ?thesis by (simp add: yielding_def set_stat_def)
qed

text \<open>C19: when the running thread has used up its time slice (the yield flag is set) and no READY
  thread has a higher priority, the first READY thread of the same priority runs next, and the
  old one goes to the end of that queue, its yield flag cleared: equal priorities take turns.\<close>

theorem rt_schedule_round_robin:
  assumes inv: "kinv s" and cur: "k_cur s \<noteq> RT_NULL" and "k_lock s = 0"
    and run: "stat_of (k_thr s (k_cur s)) = RT_THREAD_RUNNING" "yielding (k_thr s (k_cur s))"
    and p: "p = prio_index (k_cur s) s" "k_q s (Ready p) = t # ts" "\<forall>q < p. k_q s (Ready q) = []"
  shows "\<exists>s'. rt_schedule s = Some s' \<and> k_cur s' = t \<and> k_q s' (Ready p) = ts @ [k_cur s] \<and>
           stat_of (k_thr s' (k_cur s)) = RT_THREAD_READY \<and> \<not> yielding (k_thr s' (k_cur s))"
proof -
  have inv0: "kinv_but {} s" using inv by (simp add: kinv_def)
  have p32: "p < 32" using prio_index_bound [OF inv0] p(1) by simp
  then have "bit (k_group s) p"
    using kinv_butD(2) [OF inv0] p(2) by (simp add: group_ok_def)
  then have group: "k_group s \<noteq> 0" by auto
  have rdy: "t_tlist (k_thr s t) = Some (Ready p)" "distinct (t # ts)" "stat_of (k_thr s t) = RT_THREAD_READY"
    using links_okD(1) [OF kinv_butD(1) [OF inv0], of "Ready p"]
      links_okD(2) [OF kinv_butD(1) [OF inv0], of t "Ready p"] ready_queue(2) [OF inv0, of t p] p(2)
    by auto
  have top: "p' = p" if "k_q s (Ready p') = t' # ts'" "\<And>q. q < p' \<Longrightarrow> k_q s (Ready q) = []" for p' t' ts'
    using that p(2,3) by (metis linorder_neqE_nat list.distinct(1))
  show ?thesis
  proof (rule rt_schedule_eval [OF inv cur], goal_cases)
    case 1
    then show ?thesis using assms(3) group by simp
  next
    case (2 t' p' ts')
    then show ?thesis using top [OF 2(3,4)] run p(1) by (auto simp: keeps_def)
  next
    case (3 p' ts')
    then show ?thesis using ready_queue(2) [OF inv0, of "k_cur s" p'] run by simp
  next
    case (4 t' p' ts')
    then show ?thesis using run by simp
  next
    case (5 t' p' ts')
    then have eq: "p' = p" "t' = t" "ts' = ts" using top [OF 5(3,4)] p(2) by auto
    have "t_tlist (k_thr (preempted t p s) t) = Some (Ready p)"
      using rdy(1) 5(5) eq by simp
    then show ?thesis
      using 5(5,8) eq p(1,2) rdy by (simp add: stat_of_set_stats)
  qed
qed

text \<open>Without the yield flag a call of \<open>rt_schedule\<close> leaves the running thread on the processor
  when the ready threads have the same priority or a lower one.\<close>

lemma rt_schedule_keeps_running:
  assumes inv: "kinv s" and cur: "k_cur s \<noteq> RT_NULL"
    and run: "stat_of (k_thr s (k_cur s)) = RT_THREAD_RUNNING" "\<not> yielding (k_thr s (k_cur s))"
    and p: "\<forall>q < prio_index (k_cur s) s. k_q s (Ready q) = []"
  shows "\<exists>s'. rt_schedule s = Some s' \<and> k_cur s' = k_cur s \<and> k_q s' = k_q s"
proof -
  have inv0: "kinv_but {} s" using inv by (simp add: kinv_def)
  have free: "t_tlist (k_thr s (k_cur s)) = None"
    using kinv_butD(5) [OF inv0, of "k_cur s"] run by (simp add: node_ok_stat)
  show ?thesis
  proof (rule rt_schedule_eval [OF inv cur], goal_cases)
    case (3 p' ts')
    then show ?thesis using ready_queue(2) [OF inv0, of "k_cur s" p'] run by simp
  next
    case (5 t' p' ts')
    then have "\<not> p' < prio_index (k_cur s) s" using p by auto
    then have "keeps s p'" using run by (auto simp: keeps_def)
    with 5 show ?thesis by simp
  qed (use free run in simp_all)
qed

section \<open>Starting up, and the scheduler lock\<close>

text \<open>While the scheduler is locked no switch takes place.\<close>

theorem rt_schedule_locked: "k_lock s \<noteq> 0 \<Longrightarrow> rt_schedule s = Some s"
  by (simp add: rt_schedule_def)

lemma kinv_lock_irq [simp]:
  "kinv_but X (s\<lparr>k_lock := l\<rparr>) = kinv_but X s" "kinv_but X (s\<lparr>k_irq := i\<rparr>) = kinv_but X s"
  "kinv_but X (s\<lparr>k_tick := tk\<rparr>) = kinv_but X s"
  by (simp_all add: kinv_but_def links_ok_def group_ok_def link_ok_def)

lemma kinv_lock_irq' [simp]:
  "kinv (s\<lparr>k_lock := l\<rparr>) = kinv s" "kinv (s\<lparr>k_irq := i\<rparr>) = kinv s" "kinv (s\<lparr>k_tick := tk\<rparr>) = kinv s"
  by (simp_all add: kinv_def)

lemma critical_inv:
  assumes "kinv s"
  shows "kinv (rt_enter_critical s)"
    and "\<exists>s'. rt_exit_critical s = Some s' \<and> kinv s'"
proof -
  show "kinv (rt_enter_critical s)"
    using assms by (simp add: rt_enter_critical_def)
  show "\<exists>s'. rt_exit_critical s = Some s' \<and> kinv s'"
    using assms rt_schedule_total [of "s\<lparr>k_lock := 0\<rparr>"]
    by (cases "k_cur s = RT_NULL") (auto simp: rt_exit_critical_def Let_def)
qed

text \<open>A pair of \<open>rt_enter_critical\<close> and \<open>rt_exit_critical\<close> inside another pair changes nothing,
  as long as the nesting stays below 32767.\<close>

theorem critical_nesting:
  assumes "0 < sint (k_lock s)" and "sint (k_lock s) < 32767"
  shows "rt_exit_critical (rt_enter_critical s) = Some s"
  using assms by (simp add: rt_exit_critical_def rt_enter_critical_def)

text \<open>\<open>rt_system_scheduler_start\<close> puts the first thread of the highest ready priority on the
  processor and keeps the invariant.\<close>

theorem rt_system_scheduler_start_highest:
  assumes inv: "kinv s" and "k_cur s = RT_NULL" and "k_group s \<noteq> 0"
  shows "\<exists>s' t p ts. rt_system_scheduler_start s = Some s' \<and> kinv s' \<and> k_cur s' = t \<and>
           k_q s (Ready p) = t # ts \<and> (\<forall>q < p. k_q s (Ready q) = []) \<and>
           stat_of (k_thr s' t) = RT_THREAD_RUNNING"
proof -
  have inv0: "kinv_but {} s" using inv by (simp add: kinv_def)
  obtain t p ts where h: "get_highest_priority_thread s = Some (t, p)" "k_q s (Ready p) = t # ts"
    "p < 32" "\<And>q. q < p \<Longrightarrow> k_q s (Ready q) = []"
    using highest_priority_thread [OF inv0 assms(3)] by metis
  have t: "t \<noteq> RT_NULL" "stat_of (k_thr s t) = RT_THREAD_READY"
    using ready_queue(2,5) [OF inv0, of t p] h(2) by auto
  have inv1: "kinv_but {} (s\<lparr>k_cur := t\<rparr>)"
  proof (rule kinv_butI)
    fix u
    assume "stat_of (k_thr (s\<lparr>k_cur := t\<rparr>) u) = RT_THREAD_RUNNING"
    then have "u = k_cur s" using kinv_butD(6) [OF inv0, of u] by simp
    then show "u = k_cur (s\<lparr>k_cur := t\<rparr>)"
      using kinv_butD(7) [OF inv0] assms(2) \<open>stat_of _ = RT_THREAD_RUNNING\<close> by simp
  qed (use kinv_butD [OF inv0] in \<open>auto simp: links_ok_def group_ok_def\<close>)
  define s' where "s' = set_thr t (\<lambda>th. th\<lparr>t_stat := RT_THREAD_RUNNING\<rparr>) (removed t (s\<lparr>k_cur := t\<rparr>))"
  have st3: "stat_of (th\<lparr>t_stat := 3\<rparr>) = 3" for th
    by (simp add: stat_of_def RT_THREAD_STAT_MASK_def)
  have "t_number_mask (k_thr s t) = prio_mask (t_current_priority (k_thr s t))"
    using live_mask [OF kinv_butD(3) [OF inv0, of t]] t by simp
  then have pr: "prio_ok ((k_thr (removed t (s\<lparr>k_cur := t\<rparr>)) t)\<lparr>t_stat := 3\<rparr>)"
    using kinv_butD(3) [OF inv0, of t] by (simp add: prio_ok_def)
  have "kinv_but (insert t {} - {t}) s'"
    unfolding s'_def using t pr
    by (intro settle_thread remove_thread_but(2) [OF inv1]) (auto simp: node_ok_stat st3 link_ok_def)
  then have "kinv s'" by (simp add: kinv_def)
  moreover have "rt_system_scheduler_start s = Some s'"
    using h(1) remove_thread_but(1) [OF inv1 t(1)] by (simp add: rt_system_scheduler_start_def s'_def)
  ultimately show ?thesis using h(2,4) by (auto simp: s'_def st3)
qed

end
