(* ===== verification/RTT_Object.thy ===== *)
theory RTT_Object
  imports RTT_Sched
begin

text \<open>
  The object system of \<open>src/object.c\<close>: the header every kernel object starts with, and one list
  per object class. All ten classes are configured. A lookup compares the first \<open>RT_NAME_MAX\<close> = 16
  characters. \<open>rt_object_allocate\<close> takes the address its \<open>RT_KERNEL_MALLOC\<close> call returns as a
  parameter, \<open>RT_NULL\<close> when the heap is exhausted.
\<close>

section \<open>Operations\<close>

definition RT_NAME_MAX :: nat where "RT_NAME_MAX = 16"

definition rt_object_get_information :: "u8 \<Rightarrow> u8 option" where
  "rt_object_get_information ty = (if 1 \<le> ty \<and> ty \<le> 10 then Some ty else None)"

definition set_obj :: "oref \<Rightarrow> (rt_object \<Rightarrow> rt_object) \<Rightarrow> kstate \<Rightarrow> kstate" where
  "set_obj x f s = s\<lparr>k_obj := (k_obj s)(x := f (k_obj s x))\<rparr>"

definition container_insert :: "u8 \<Rightarrow> oref \<Rightarrow> kstate \<Rightarrow> kstate" where
  "container_insert ty x s = s\<lparr>k_container := (k_container s)(ty := x # k_container s ty)\<rparr>"

definition rt_object_init :: "oref \<Rightarrow> u8 \<Rightarrow> string \<Rightarrow> kstate \<Rightarrow> kstate option" where
  "rt_object_init x ty name s = do {
     ty \<leftarrow> rt_object_get_information ty;
     let s = rt_enter_critical s;
     rt_assert (x \<notin> set (k_container s ty));
     s \<leftarrow> rt_exit_critical s;
     let s = set_obj x (\<lambda>ob. ob\<lparr>o_type := ty OR Class_Static, o_name := take RT_NAME_MAX name\<rparr>) s;
     Some (container_insert ty x s)
   }"

text \<open>\<open>rt_list_remove (&object->list)\<close>: out of whichever list the node is in.\<close>

definition container_remove :: "oref \<Rightarrow> kstate \<Rightarrow> kstate" where
  "container_remove x s = s\<lparr>k_container := (\<lambda>ty. remove1 x (k_container s ty))\<rparr>"

definition rt_object_detach :: "oref \<Rightarrow> kstate \<Rightarrow> kstate" where
  "rt_object_detach x s = container_remove x (set_obj x (\<lambda>ob. ob\<lparr>o_type := 0\<rparr>) s)"

definition rt_object_allocate :: "ptr \<Rightarrow> u8 \<Rightarrow> string \<Rightarrow> kstate \<Rightarrow> (ptr \<times> kstate) option" where
  "rt_object_allocate mem ty name s = do {
     rt_assert (k_irq s = 0);
     ty \<leftarrow> rt_object_get_information ty;
     if mem = RT_NULL then Some (RT_NULL, s)
     else do {
       let s = set_obj (Obj mem) (\<lambda>_. \<lparr>o_name = take RT_NAME_MAX name, o_type = ty, o_flag = 0\<rparr>) s;
       Some (mem, container_insert ty (Obj mem) s)
     }
   }"

definition rt_object_is_systemobject :: "oref \<Rightarrow> kstate \<Rightarrow> bool" where
  "rt_object_is_systemobject x s \<longleftrightarrow> o_type (k_obj s x) AND Class_Static \<noteq> 0"

definition rt_object_delete :: "oref \<Rightarrow> kstate \<Rightarrow> kstate option" where
  "rt_object_delete x s = do {
     rt_assert (\<not> rt_object_is_systemobject x s);
     Some (container_remove x (set_obj x (\<lambda>ob. ob\<lparr>o_type := 0\<rparr>) s))
   }"

definition rt_object_get_type :: "oref \<Rightarrow> kstate \<Rightarrow> u8" where
  "rt_object_get_type x s = o_type (k_obj s x) AND NOT Class_Static"

definition same_name :: "string \<Rightarrow> string \<Rightarrow> bool" where
  "same_name a b \<longleftrightarrow> take RT_NAME_MAX a = take RT_NAME_MAX b"

definition rt_object_find :: "string \<Rightarrow> u8 \<Rightarrow> kstate \<Rightarrow> (oref option \<times> kstate) option" where
  "rt_object_find name ty s =
     (if ty > 12 then Some (None, s)
      else do {
        rt_assert (k_irq s = 0);
        let s = rt_enter_critical s;
        ty \<leftarrow> rt_object_get_information ty;
        let found = find (\<lambda>x. same_name (o_name (k_obj s x)) name) (k_container s ty);
        s \<leftarrow> rt_exit_critical s;
        Some (found, s)
      })"


section \<open>Headers and lists\<close>

lemma kinv_but_cong:
  "k_q s' = k_q s \<Longrightarrow> k_thr s' = k_thr s \<Longrightarrow> k_group s' = k_group s \<Longrightarrow> k_cur s' = k_cur s \<Longrightarrow>
   kinv_but X s' = kinv_but X s"
  by (simp add: kinv_but_def links_ok_def group_ok_def link_ok_def)

lemma set_obj_obj [simp]: "k_obj (set_obj x f s) y = (if y = x then f (k_obj s x) else k_obj s y)"
  by (simp add: set_obj_def)

lemma object_fields [simp]:
  "k_q (set_obj x f s) = k_q s" "k_thr (set_obj x f s) = k_thr s"
  "k_group (set_obj x f s) = k_group s" "k_cur (set_obj x f s) = k_cur s"
  "k_lock (set_obj x f s) = k_lock s" "k_irq (set_obj x f s) = k_irq s"
  "k_tick (set_obj x f s) = k_tick s" "k_container (set_obj x f s) = k_container s"
  "k_tmr (set_obj x f s) = k_tmr s" "k_tlist (set_obj x f s) = k_tlist s"
  "k_sem (set_obj x f s) = k_sem s" "k_mutex (set_obj x f s) = k_mutex s"
  "k_event (set_obj x f s) = k_event s" "k_mb (set_obj x f s) = k_mb s"
  "k_mq (set_obj x f s) = k_mq s" "k_mp (set_obj x f s) = k_mp s"
  by (simp_all add: set_obj_def)

lemma container_fields [simp]:
  "k_q (container_insert ty x s) = k_q s" "k_thr (container_insert ty x s) = k_thr s"
  "k_group (container_insert ty x s) = k_group s" "k_cur (container_insert ty x s) = k_cur s"
  "k_lock (container_insert ty x s) = k_lock s" "k_irq (container_insert ty x s) = k_irq s"
  "k_tick (container_insert ty x s) = k_tick s" "k_obj (container_insert ty x s) = k_obj s"
  "k_tmr (container_insert ty x s) = k_tmr s" "k_tlist (container_insert ty x s) = k_tlist s"
  "k_sem (container_insert ty x s) = k_sem s" "k_mutex (container_insert ty x s) = k_mutex s"
  "k_event (container_insert ty x s) = k_event s" "k_mb (container_insert ty x s) = k_mb s"
  "k_mq (container_insert ty x s) = k_mq s" "k_mp (container_insert ty x s) = k_mp s"
  "k_q (container_remove x s) = k_q s" "k_thr (container_remove x s) = k_thr s"
  "k_group (container_remove x s) = k_group s" "k_cur (container_remove x s) = k_cur s"
  "k_lock (container_remove x s) = k_lock s" "k_irq (container_remove x s) = k_irq s"
  "k_tick (container_remove x s) = k_tick s" "k_obj (container_remove x s) = k_obj s"
  "k_tmr (container_remove x s) = k_tmr s" "k_tlist (container_remove x s) = k_tlist s"
  "k_sem (container_remove x s) = k_sem s" "k_mutex (container_remove x s) = k_mutex s"
  "k_event (container_remove x s) = k_event s" "k_mb (container_remove x s) = k_mb s"
  "k_mq (container_remove x s) = k_mq s" "k_mp (container_remove x s) = k_mp s"
  by (simp_all add: container_insert_def container_remove_def)

lemma object_kinv [simp]:
  "kinv (set_obj x f s) = kinv s" "kinv (container_insert ty x s) = kinv s"
  "kinv (container_remove x s) = kinv s" "kinv (rt_object_detach x s) = kinv s"
  by (simp_all add: kinv_def rt_object_detach_def, (rule kinv_but_cong; simp)+)

lemma detach_fields [simp]:
  "k_q (rt_object_detach x s) = k_q s" "k_thr (rt_object_detach x s) = k_thr s"
  "k_group (rt_object_detach x s) = k_group s" "k_cur (rt_object_detach x s) = k_cur s"
  "k_lock (rt_object_detach x s) = k_lock s" "k_irq (rt_object_detach x s) = k_irq s"
  "k_tick (rt_object_detach x s) = k_tick s"
  "k_tmr (rt_object_detach x s) = k_tmr s" "k_tlist (rt_object_detach x s) = k_tlist s"
  "k_sem (rt_object_detach x s) = k_sem s" "k_mutex (rt_object_detach x s) = k_mutex s"
  "k_event (rt_object_detach x s) = k_event s" "k_mb (rt_object_detach x s) = k_mb s"
  "k_mq (rt_object_detach x s) = k_mq s" "k_mp (rt_object_detach x s) = k_mp s"
  by (simp_all add: rt_object_detach_def)

lemma rt_object_init_inv [rtt_inv]: "kinv s \<Longrightarrow> rt_object_init x ty name s = Some s' \<Longrightarrow> kinv s'"
  using critical_inv [of "rt_enter_critical s"] critical_inv(1) [of s]
  by (auto simp: rt_object_init_def bind_Some_iff Let_def split: if_splits)

text \<open>Type tests on a static object.\<close>

lemma static_type:
  assumes "1 \<le> ty" and "ty \<le> (10 :: u8)"
  shows "(ty OR Class_Static) AND NOT Class_Static = ty" and "(ty OR Class_Static) AND Class_Static \<noteq> 0"
proof -
  have n: "unat ty \<in> set [1..<11]" using assms by (simp add: word_le_nat_alt)
  have "ty = of_nat (unat ty)" by simp
  then have "ty \<in> {1, 2, 3, 4, 5, 6, 7, 8, 9, 10}"
    using n by (auto simp del: of_nat_unat simp: upt_rec word_unat_eq_iff)
  then show "(ty OR Class_Static) AND NOT Class_Static = ty" "(ty OR Class_Static) AND Class_Static \<noteq> 0"
    by auto
qed


lemma exit_critical_frame:
  assumes inv: "kinv s" and s': "rt_exit_critical (rt_enter_critical s) = Some s'"
  shows "\<exists>l. sched_frame (s\<lparr>k_lock := l\<rparr>) s'"
proof (cases "sint (k_lock s) \<le> 0 \<and> k_cur s \<noteq> RT_NULL")
  case True
  then have "rt_schedule (s\<lparr>k_lock := 0\<rparr>) = Some s'"
    using s' by (simp add: rt_exit_critical_def rt_enter_critical_def Let_def)
  then show ?thesis
    using rt_schedule_frame [of "s\<lparr>k_lock := 0\<rparr>" s'] inv True by auto
next
  case False
  then have "s' = s\<lparr>k_lock := k_lock s'\<rparr>"
    using s' by (auto simp: rt_exit_critical_def rt_enter_critical_def Let_def split: if_splits)
  then show ?thesis by (metis sched_frame_refl)
qed

text \<open>The object lists are disjoint, without repetition, and agree with the type field.\<close>

definition obj_wf :: "kstate \<Rightarrow> bool" where
  "obj_wf s \<longleftrightarrow> (\<forall>ty. distinct (k_container s ty) \<and>
     (\<forall>x \<in> set (k_container s ty). rt_object_get_type x s = ty))"

lemma obj_wf_cong: "k_obj s' = k_obj s \<Longrightarrow> k_container s' = k_container s \<Longrightarrow> obj_wf s' = obj_wf s"
  by (simp add: obj_wf_def rt_object_get_type_def)

lemma rt_object_init_state:
  assumes inv: "kinv s" and init: "rt_object_init x ty name s = Some s'"
  shows "1 \<le> ty \<and> ty \<le> 10 \<and> x \<notin> set (k_container s ty) \<and>
         k_container s' = (k_container s)(ty := x # k_container s ty) \<and>
         k_obj s' = (k_obj s)(x := (k_obj s x)\<lparr>o_type := ty OR Class_Static, o_name := take RT_NAME_MAX name\<rparr>)"
proof -
  obtain s1 where s1: "1 \<le> ty" "ty \<le> 10" "x \<notin> set (k_container s ty)"
    "rt_exit_critical (rt_enter_critical s) = Some s1"
    "s' = container_insert ty x (set_obj x (\<lambda>ob. ob\<lparr>o_type := ty OR Class_Static,
            o_name := take RT_NAME_MAX name\<rparr>) s1)"
    using init by (auto simp: rt_object_init_def rt_object_get_information_def bind_Some_iff Let_def
        rt_enter_critical_def split: if_splits)
  obtain l where "sched_frame (s\<lparr>k_lock := l\<rparr>) s1"
    using exit_critical_frame [OF inv s1(4)] by blast
  from sched_frameD(4,5) [OF this] s1 show ?thesis
    by (auto simp: container_insert_def set_obj_def)
qed

lemma rt_object_init_wf:
  assumes "kinv s" and "rt_object_init x ty name s = Some s'" and "obj_wf s"
    and "\<And>ty'. x \<notin> set (k_container s ty')"
  shows "obj_wf s'"
  using rt_object_init_state [OF assms(1,2)] assms(3,4) static_type [of ty]
  by (auto simp: obj_wf_def rt_object_get_type_def)

text \<open>An object that was initialised under a name is what a lookup of that name in its class
  finds, and \<open>rt_object_find\<close> keeps the kernel invariant.\<close>

theorem rt_object_init_find:
  assumes inv: "kinv s" and init: "rt_object_init x ty name s = Some s'" and "k_irq s' = 0"
  shows "\<exists>s''. rt_object_find name ty s' = Some (Some x, s'') \<and> kinv s''"
proof -
  note st = rt_object_init_state [OF inv init]
  have inv': "kinv s'" using rt_object_init_inv [OF inv init] .
  obtain s'' where s'': "rt_exit_critical (rt_enter_critical s') = Some s''" "kinv s''"
    using critical_inv [of "rt_enter_critical s'"] critical_inv(1) [OF inv'] by blast
  have "\<not> 12 < ty" using st by (auto simp: word_less_nat_alt word_le_nat_alt)
  moreover have "find (\<lambda>y. same_name (o_name (k_obj (rt_enter_critical s') y)) name)
      (k_container (rt_enter_critical s') ty) = Some x"
    using st by (simp add: same_name_def rt_enter_critical_def)
  ultimately show ?thesis
    using st s'' assms(3)
    by (simp add: rt_object_find_def rt_object_get_information_def rt_enter_critical_def)
qed

text \<open>\<open>rt_object_detach\<close> takes the object out of every list, clears its type and keeps the
  object system well formed; no other object is touched.\<close>

theorem rt_object_detach_gone:
  assumes wf: "obj_wf s"
  shows "obj_wf (rt_object_detach x s) \<and> (\<forall>ty. x \<notin> set (k_container (rt_object_detach x s) ty)) \<and>
         (\<forall>y ty. y \<noteq> x \<longrightarrow>
            (y \<in> set (k_container (rt_object_detach x s) ty) \<longleftrightarrow> y \<in> set (k_container s ty))) \<and>
         (\<forall>y. y \<noteq> x \<longrightarrow> k_obj (rt_object_detach x s) y = k_obj s y)"
  using wf
  by (auto simp: obj_wf_def rt_object_detach_def container_remove_def set_obj_def
      rt_object_get_type_def dest: in_set_remove1 [THEN iffD1, rotated])

end
