(* ===== verification/RTT_Timer.thy ===== *)
theory RTT_Timer
  imports RTT_Object
begin

text \<open>
  The timers of \<open>src/timer.c\<close>, with one skip list level and without the soft timer thread, as
  configured: a list of the running timers in the order they expire, kept under the wrapping
  32-bit tick. \<open>rt_timer_check\<close> is the loop the clock interrupt runs; the timeout functions are
  its parameter \<open>cb\<close> (\<open>RTT_Clock\<close> supplies \<open>rt_thread_timeout\<close> for the timers embedded in
  threads). A run of the loop that does not end, like an assertion that fails, is \<open>None\<close>.
\<close>

section \<open>Operations\<close>

text \<open>\<open>RT_TICK_MAX / 2\<close>.\<close>

definition RT_TICK_MAX :: u32 where "RT_TICK_MAX = 0xffffffff"

definition TICK_HALF :: u32 where "TICK_HALF = 0x7fffffff"

abbreviation (input) RT_TIMER_FLAG_ACTIVATED :: u8 where "RT_TIMER_FLAG_ACTIVATED \<equiv> 1"
abbreviation (input) RT_TIMER_FLAG_PERIODIC :: u8 where "RT_TIMER_FLAG_PERIODIC \<equiv> 2"

definition timer_flag :: "oref \<Rightarrow> kstate \<Rightarrow> u8" where
  "timer_flag x s = o_flag (k_obj s x)"

definition timer_activated :: "oref \<Rightarrow> kstate \<Rightarrow> bool" where
  "timer_activated x s \<longleftrightarrow> timer_flag x s AND RT_TIMER_FLAG_ACTIVATED \<noteq> 0"

definition timer_periodic :: "oref \<Rightarrow> kstate \<Rightarrow> bool" where
  "timer_periodic x s \<longleftrightarrow> timer_flag x s AND RT_TIMER_FLAG_PERIODIC \<noteq> 0"

definition set_timer_flag :: "oref \<Rightarrow> (u8 \<Rightarrow> u8) \<Rightarrow> kstate \<Rightarrow> kstate" where
  "set_timer_flag x f = set_obj x (\<lambda>ob. ob\<lparr>o_flag := f (o_flag ob)\<rparr>)"

definition timer_deactivate :: "oref \<Rightarrow> kstate \<Rightarrow> kstate" where
  "timer_deactivate x = set_timer_flag x (\<lambda>f. f AND NOT RT_TIMER_FLAG_ACTIVATED)"

definition set_tmr :: "oref \<Rightarrow> (rt_timer \<Rightarrow> rt_timer) \<Rightarrow> kstate \<Rightarrow> kstate" where
  "set_tmr x f s = s\<lparr>k_tmr := (k_tmr s)(x := f (k_tmr s x))\<rparr>"

text \<open>\<open>rt_list_init\<close> on the node of a timer that is linked would cut the list: a fault.\<close>

definition timer_init :: "oref \<Rightarrow> u32 \<Rightarrow> u8 \<Rightarrow> kstate \<Rightarrow> kstate option" where
  "timer_init x time flag s = do {
     let s = set_timer_flag x (\<lambda>_. flag AND NOT RT_TIMER_FLAG_ACTIVATED) s;
     let s = set_tmr x (\<lambda>tm. tm\<lparr>tm_timeout_tick := 0, tm_init_tick := time\<rparr>) s;
     rt_assert (x \<notin> set (k_tlist s));
     Some s
   }"

definition rt_timer_init :: "oref \<Rightarrow> string \<Rightarrow> u32 \<Rightarrow> u8 \<Rightarrow> kstate \<Rightarrow> kstate option" where
  "rt_timer_init x name time flag s = do {
     rt_assert (x \<noteq> Obj RT_NULL);
     s \<leftarrow> rt_object_init x Class_Timer name s;
     timer_init x time flag s
   }"

definition rt_timer_create :: "ptr \<Rightarrow> string \<Rightarrow> u32 \<Rightarrow> u8 \<Rightarrow> kstate \<Rightarrow> (ptr \<times> kstate) option" where
  "rt_timer_create mem name time flag s = do {
     (p, s) \<leftarrow> rt_object_allocate mem Class_Timer name s;
     if p = RT_NULL then Some (RT_NULL, s)
     else do { s \<leftarrow> timer_init (Obj p) time flag s; Some (p, s) }
   }"

definition timer_remove :: "oref \<Rightarrow> kstate \<Rightarrow> kstate" where
  "timer_remove x s = s\<lparr>k_tlist := remove1 x (k_tlist s)\<rparr>"

definition rt_timer_detach :: "oref \<Rightarrow> kstate \<Rightarrow> (rt_err \<times> kstate) option" where
  "rt_timer_detach x s = do {
     rt_assert (x \<noteq> Obj RT_NULL);
     rt_assert (rt_object_get_type x s = Class_Timer);
     rt_assert (rt_object_is_systemobject x s);
     Some (RT_EOK, rt_object_detach x (timer_remove x s))
   }"

definition rt_timer_delete :: "oref \<Rightarrow> kstate \<Rightarrow> (rt_err \<times> kstate) option" where
  "rt_timer_delete x s = do {
     rt_assert (x \<noteq> Obj RT_NULL);
     rt_assert (rt_object_get_type x s = Class_Timer);
     rt_assert (\<not> rt_object_is_systemobject x s);
     s \<leftarrow> rt_object_delete x (timer_remove x s);
     Some (RT_EOK, s)
   }"

text \<open>The loop of \<open>rt_timer_start\<close> that looks for the place: past the timers that time out at the
  same tick and the ones that time out before it.\<close>

definition timer_after :: "(oref \<Rightarrow> rt_timer) \<Rightarrow> u32 \<Rightarrow> oref \<Rightarrow> bool" where
  "timer_after tm tick y \<longleftrightarrow>
     tm_timeout_tick (tm y) - tick \<noteq> 0 \<and> tm_timeout_tick (tm y) - tick < TICK_HALF"

fun timer_insert :: "(oref \<Rightarrow> rt_timer) \<Rightarrow> oref \<Rightarrow> u32 \<Rightarrow> oref list \<Rightarrow> oref list" where
  "timer_insert tm x tick [] = [x]"
| "timer_insert tm x tick (y # ys) =
     (if timer_after tm tick y then x # y # ys else y # timer_insert tm x tick ys)"

definition rt_timer_start :: "oref \<Rightarrow> kstate \<Rightarrow> (rt_err \<times> kstate) option" where
  "rt_timer_start x s = do {
     rt_assert (x \<noteq> Obj RT_NULL);
     rt_assert (rt_object_get_type x s = Class_Timer);
     let s = timer_deactivate x (timer_remove x s);
     rt_assert (tm_init_tick (k_tmr s x) < TICK_HALF);
     let s = set_tmr x (\<lambda>tm. tm\<lparr>tm_timeout_tick := k_tick s + tm_init_tick tm\<rparr>) s;
     let s = s\<lparr>k_tlist := timer_insert (k_tmr s) x (tm_timeout_tick (k_tmr s x)) (k_tlist s)\<rparr>;
     Some (RT_EOK, set_timer_flag x (\<lambda>f. f OR RT_TIMER_FLAG_ACTIVATED) s)
   }"

definition rt_timer_stop :: "oref \<Rightarrow> kstate \<Rightarrow> (rt_err \<times> kstate) option" where
  "rt_timer_stop x s = do {
     rt_assert (x \<noteq> Obj RT_NULL);
     rt_assert (rt_object_get_type x s = Class_Timer);
     if \<not> timer_activated x s then Some (- RT_ERROR, s)
     else Some (RT_EOK, timer_deactivate x (timer_remove x s))
   }"

text \<open>The commands of \<open>rt_timer_control\<close>; \<open>GET_TIME\<close> stores through its argument.\<close>

datatype timer_cmd = TIMER_SET_TIME u32 | TIMER_GET_TIME | TIMER_SET_ONESHOT | TIMER_SET_PERIODIC

definition rt_timer_control ::
  "oref \<Rightarrow> timer_cmd \<Rightarrow> kstate \<Rightarrow> (rt_err \<times> u32 option \<times> kstate) option" where
  "rt_timer_control x cmd s = do {
     rt_assert (x \<noteq> Obj RT_NULL);
     rt_assert (rt_object_get_type x s = Class_Timer);
     Some (case cmd of
         TIMER_GET_TIME \<Rightarrow> (RT_EOK, Some (tm_init_tick (k_tmr s x)), s)
       | TIMER_SET_TIME t \<Rightarrow> (RT_EOK, None, set_tmr x (\<lambda>tm. tm\<lparr>tm_init_tick := t\<rparr>) s)
       | TIMER_SET_ONESHOT \<Rightarrow>
           (RT_EOK, None, set_timer_flag x (\<lambda>f. f AND NOT RT_TIMER_FLAG_PERIODIC) s)
       | TIMER_SET_PERIODIC \<Rightarrow>
           (RT_EOK, None, set_timer_flag x (\<lambda>f. f OR RT_TIMER_FLAG_PERIODIC) s))
   }"

definition rt_timer_next_timeout_tick :: "kstate \<Rightarrow> u32" where
  "rt_timer_next_timeout_tick s =
     (case k_tlist s of [] \<Rightarrow> RT_TICK_MAX | x # _ \<Rightarrow> tm_timeout_tick (k_tmr s x))"

text \<open>One turn of \<open>rt_timer_check\<close> on the first timer of the list, which has expired.\<close>

definition timer_fire ::
  "(oref \<Rightarrow> kstate \<Rightarrow> kstate option) \<Rightarrow> oref \<Rightarrow> kstate \<Rightarrow> kstate option" where
  "timer_fire cb x s = do {
     s \<leftarrow> cb x (timer_remove x s);
     if timer_periodic x s \<and> timer_activated x s
     then do { (_, s) \<leftarrow> rt_timer_start x (timer_deactivate x s); Some s }
     else Some (timer_deactivate x s)
   }"

definition timer_expired :: "u32 \<Rightarrow> oref \<Rightarrow> kstate \<Rightarrow> bool" where
  "timer_expired now x s \<longleftrightarrow> now - tm_timeout_tick (k_tmr s x) < TICK_HALF"

partial_function (option) timer_check_loop ::
  "(oref \<Rightarrow> kstate \<Rightarrow> kstate option) \<Rightarrow> u32 \<Rightarrow> kstate \<Rightarrow> kstate option" where
  "timer_check_loop cb now s =
     (case k_tlist s of
        [] \<Rightarrow> Some s
      | x # _ \<Rightarrow>
          if timer_expired now x s
          then do { s \<leftarrow> timer_fire cb x s; timer_check_loop cb (k_tick s) s }
          else Some s)"

definition rt_timer_check :: "(oref \<Rightarrow> kstate \<Rightarrow> kstate option) \<Rightarrow> kstate \<Rightarrow> kstate option" where
  "rt_timer_check cb s = timer_check_loop cb (k_tick s) s"

definition rt_system_timer_init :: "kstate \<Rightarrow> kstate" where
  "rt_system_timer_init s = s\<lparr>k_tlist := []\<rparr>"


section \<open>Time remaining under the wrapping tick\<close>

definition trem :: "kstate \<Rightarrow> oref \<Rightarrow> int" where
  "trem s x = sint (tm_timeout_tick (k_tmr s x) - k_tick s)"

lemma uint_of_sint32: "uint a = (if 0 \<le> sint a then sint a else sint a + 2 ^ 32)" for a :: u32
proof -
  have r: "- (2 ^ 31) \<le> sint a" "sint a < 2 ^ 31"
    using sint_ge [of a] sint_lt [of a] by simp_all
  have "uint a = sint a mod 2 ^ 32" by (simp add: uint_sint take_bit_eq_mod)
  then show ?thesis
  proof (cases "0 \<le> sint a")
    case False
    then have "sint a mod 2 ^ 32 = (sint a + 2 ^ 32) mod 2 ^ 32" by simp
    also have "\<dots> = sint a + 2 ^ 32" using False r by (intro mod_pos_pos_trivial) auto
    finally show ?thesis using False \<open>uint a = _\<close> by simp
  qed (use r in simp)
qed

lemma less_half: "a < TICK_HALF \<longleftrightarrow> 0 \<le> sint a \<and> sint a < 0x7fffffff" for a :: u32
proof -
  have r: "- (2 ^ 31) \<le> sint a" "sint a < 2 ^ 31"
    using sint_ge [of a] sint_lt [of a] by simp_all
  have "a < TICK_HALF \<longleftrightarrow> uint a < 0x7fffffff"
    by (simp add: word_less_def TICK_HALF_def)
  then show ?thesis using r uint_of_sint32 [of a] by (auto split: if_splits)
qed

lemma sint_diff:
  fixes a b :: u32
  assumes "- (2 ^ 31) \<le> sint a - sint b" and "sint a - sint b < 2 ^ 31"
  shows "sint (a - b) = sint a - sint b"
  using assms by (simp add: sint_word_ariths signed_take_bit_int_eq_self)

lemma sint_zero_iff: "sint a = 0 \<longleftrightarrow> a = 0" for a :: u32
  using uint_of_sint32 [of a] by (auto simp: uint_0_iff)

lemma timer_after_rem:
  assumes y: "-1 \<le> trem s y" "trem s y < 0x7fffffff" and i: "i < TICK_HALF"
  shows "timer_after (k_tmr s) (k_tick s + i) y \<longleftrightarrow> sint i < trem s y"
proof -
  define d w where "d = tm_timeout_tick (k_tmr s y) - k_tick s" and "w = d - i"
  have i': "0 \<le> sint i" "sint i < 0x7fffffff" using i less_half by auto
  have d: "sint d = trem s y" by (simp add: d_def trem_def)
  then have w: "sint w = trem s y - sint i"
    using y i' unfolding w_def by (subst sint_diff) auto
  have "timer_after (k_tmr s) (k_tick s + i) y \<longleftrightarrow> w \<noteq> 0 \<and> w < TICK_HALF"
    by (simp add: timer_after_def w_def d_def algebra_simps)
  then show ?thesis
    using w y i' sint_zero_iff [of w] less_half [of w] by auto
qed

lemma timer_expired_rem:
  assumes "-1 \<le> trem s y" "trem s y < 0x7fffffff"
  shows "timer_expired (k_tick s) y s \<longleftrightarrow> trem s y \<le> 0"
proof -
  define d w where "d = tm_timeout_tick (k_tmr s y) - k_tick s" and "w = 0 - d"
  have d: "sint d = trem s y" by (simp add: d_def trem_def)
  then have w: "sint w = - trem s y"
    using assms unfolding w_def by (subst sint_diff) auto
  have "timer_expired (k_tick s) y s \<longleftrightarrow> w < TICK_HALF"
    by (simp add: timer_expired_def w_def d_def)
  then show ?thesis
    using w assms less_half [of w] by auto
qed


section \<open>The timer list\<close>

text \<open>The list is in the order of the time remaining, none of which is below \<open>lo\<close>: 0 between two
  ticks, \<open>-1\<close> after a tick that has not been checked.\<close>

definition timers_wf :: "int \<Rightarrow> kstate \<Rightarrow> bool" where
  "timers_wf lo s \<longleftrightarrow> distinct (k_tlist s) \<and>
     sorted (map (trem s) (k_tlist s)) \<and>
     (\<forall>x \<in> set (k_tlist s). lo \<le> trem s x \<and> trem s x < 0x7fffffff)"

lemma timers_wf_weaken: "timers_wf a s \<Longrightarrow> b \<le> a \<Longrightarrow> timers_wf b s"
  by (auto simp: timers_wf_def)

lemma timers_wf_cong:
  "k_tlist s' = k_tlist s \<Longrightarrow> k_tick s' = k_tick s \<Longrightarrow> (\<And>x. x \<in> set (k_tlist s) \<Longrightarrow> k_tmr s' x = k_tmr s x) \<Longrightarrow>
   timers_wf lo s' = timers_wf lo s"
proof -
  assume a: "k_tlist s' = k_tlist s" "k_tick s' = k_tick s"
    "\<And>x. x \<in> set (k_tlist s) \<Longrightarrow> k_tmr s' x = k_tmr s x"
  then have "trem s' x = trem s x" if "x \<in> set (k_tlist s)" for x
    using that by (simp add: trem_def)
  then show ?thesis
    using a(1) by (simp add: timers_wf_def cong: map_cong)
qed

text \<open>A tick takes one from every time remaining.\<close>

lemma timers_wf_tick:
  assumes "timers_wf 0 s"
  shows "timers_wf (-1) (s\<lparr>k_tick := k_tick s + 1\<rparr>)"
proof -
  let ?s = "s\<lparr>k_tick := k_tick s + 1\<rparr>"
  have "trem ?s x = trem s x - 1" if "x \<in> set (k_tlist s)" for x
  proof -
    have r: "0 \<le> trem s x" "trem s x < 0x7fffffff"
      using that assms by (auto simp: timers_wf_def)
    define d where "d = tm_timeout_tick (k_tmr s x) - k_tick s"
    have "trem ?s x = sint (d - 1)" by (simp add: trem_def d_def algebra_simps)
    also have "\<dots> = sint d - sint (1 :: u32)"
      using r by (intro sint_diff) (auto simp: trem_def d_def)
    finally show ?thesis by (simp add: trem_def d_def)
  qed
  moreover have "sorted (map (\<lambda>x. trem s x - 1) (k_tlist s))"
    using assms unfolding timers_wf_def sorted_map by (auto elim!: sorted_wrt_mono_rel [rotated])
  ultimately show ?thesis
    using assms by (auto simp: timers_wf_def cong: map_cong)
qed

lemma timer_insert_split:
  assumes "sorted (map (f :: oref \<Rightarrow> int) ys)"
    and "\<And>y. y \<in> set ys \<Longrightarrow> timer_after tm tick y \<longleftrightarrow> k < f y"
  shows "timer_insert tm x tick ys = filter (\<lambda>y. f y \<le> k) ys @ x # filter (\<lambda>y. k < f y) ys"
  using assms
proof (induction ys)
  case Nil
  then show ?case by simp
next
  case (Cons y ys)
  show ?case
  proof (cases "k < f y")
    case True
    then have "\<forall>z \<in> set ys. k < f z" using Cons.prems(1) by fastforce
    then have "filter (\<lambda>y. f y \<le> k) ys = []" "filter (\<lambda>y. k < f y) ys = ys"
      by (auto simp: filter_empty_conv filter_id_conv not_le)
    then show ?thesis using True Cons.prems(2) [of y] by simp
  next
    case False
    then show ?thesis using Cons by simp
  qed
qed

lemma set_timer_insert [simp]: "set (timer_insert tm x tick ys) = insert x (set ys)"
  by (induction ys) auto


lemma timer_sets [simp]:
  "k_tlist (timer_remove x s) = remove1 x (k_tlist s)" "k_tmr (timer_remove x s) = k_tmr s"
  "k_obj (timer_remove x s) = k_obj s" "k_tick (timer_remove x s) = k_tick s"
  "k_q (timer_remove x s) = k_q s" "k_thr (timer_remove x s) = k_thr s"
  "k_group (timer_remove x s) = k_group s" "k_cur (timer_remove x s) = k_cur s"
  "k_lock (timer_remove x s) = k_lock s" "k_irq (timer_remove x s) = k_irq s"
  "k_container (timer_remove x s) = k_container s" "k_sem (timer_remove x s) = k_sem s"
  "k_mutex (timer_remove x s) = k_mutex s" "k_event (timer_remove x s) = k_event s"
  "k_mb (timer_remove x s) = k_mb s"
  "k_mq (timer_remove x s) = k_mq s" "k_mp (timer_remove x s) = k_mp s"
  by (simp_all add: timer_remove_def)

lemma set_tmr_sets [simp]:
  "k_tlist (set_tmr x g s) = k_tlist s"
  "k_obj (set_tmr x g s) = k_obj s" "k_tick (set_tmr x g s) = k_tick s"
  "k_q (set_tmr x g s) = k_q s" "k_thr (set_tmr x g s) = k_thr s"
  "k_group (set_tmr x g s) = k_group s" "k_cur (set_tmr x g s) = k_cur s"
  "k_lock (set_tmr x g s) = k_lock s" "k_irq (set_tmr x g s) = k_irq s"
  "k_container (set_tmr x g s) = k_container s" "k_sem (set_tmr x g s) = k_sem s"
  "k_mutex (set_tmr x g s) = k_mutex s" "k_event (set_tmr x g s) = k_event s"
  "k_mb (set_tmr x g s) = k_mb s"
  "k_mq (set_tmr x g s) = k_mq s" "k_mp (set_tmr x g s) = k_mp s"
  "k_tmr (set_tmr x g s) = (k_tmr s)(x := g (k_tmr s x))"
  by (simp_all add: set_tmr_def)

lemma set_timer_flag_sets [simp]:
  "k_tlist (set_timer_flag x f s) = k_tlist s" "k_tmr (set_timer_flag x f s) = k_tmr s"
  "k_tick (set_timer_flag x f s) = k_tick s"
  "k_q (set_timer_flag x f s) = k_q s" "k_thr (set_timer_flag x f s) = k_thr s"
  "k_group (set_timer_flag x f s) = k_group s" "k_cur (set_timer_flag x f s) = k_cur s"
  "k_lock (set_timer_flag x f s) = k_lock s" "k_irq (set_timer_flag x f s) = k_irq s"
  "k_container (set_timer_flag x f s) = k_container s" "k_sem (set_timer_flag x f s) = k_sem s"
  "k_mutex (set_timer_flag x f s) = k_mutex s" "k_event (set_timer_flag x f s) = k_event s"
  "k_mb (set_timer_flag x f s) = k_mb s"
  "k_mq (set_timer_flag x f s) = k_mq s" "k_mp (set_timer_flag x f s) = k_mp s"
  "k_obj (set_timer_flag x f s) y =
     (if y = x then (k_obj s x)\<lparr>o_flag := f (o_flag (k_obj s x))\<rparr> else k_obj s y)"
  by (simp_all add: set_timer_flag_def)

lemma deactivate_sets [simp]:
  "k_tlist (timer_deactivate x s) = k_tlist s" "k_tmr (timer_deactivate x s) = k_tmr s"
  "k_tick (timer_deactivate x s) = k_tick s"
  "k_q (timer_deactivate x s) = k_q s" "k_thr (timer_deactivate x s) = k_thr s"
  "k_group (timer_deactivate x s) = k_group s" "k_cur (timer_deactivate x s) = k_cur s"
  "k_lock (timer_deactivate x s) = k_lock s" "k_irq (timer_deactivate x s) = k_irq s"
  "k_container (timer_deactivate x s) = k_container s" "k_sem (timer_deactivate x s) = k_sem s"
  "k_mutex (timer_deactivate x s) = k_mutex s" "k_event (timer_deactivate x s) = k_event s"
  "k_mb (timer_deactivate x s) = k_mb s"
  "k_mq (timer_deactivate x s) = k_mq s" "k_mp (timer_deactivate x s) = k_mp s"
  by (simp_all add: timer_deactivate_def)

text \<open>The state a timer starts in.\<close>

definition timer_started :: "oref \<Rightarrow> kstate \<Rightarrow> kstate" where
  "timer_started x s =
     (let s = set_tmr x (\<lambda>tm. tm\<lparr>tm_timeout_tick := k_tick s + tm_init_tick tm\<rparr>)
                (timer_deactivate x (timer_remove x s))
      in set_timer_flag x (\<lambda>f. f OR RT_TIMER_FLAG_ACTIVATED)
           (s\<lparr>k_tlist := timer_insert (k_tmr s) x (tm_timeout_tick (k_tmr s x)) (k_tlist s)\<rparr>))"

lemma timer_started_sets [simp]:
  "k_tick (timer_started x s) = k_tick s"
  "k_q (timer_started x s) = k_q s" "k_thr (timer_started x s) = k_thr s"
  "k_group (timer_started x s) = k_group s" "k_cur (timer_started x s) = k_cur s"
  "k_lock (timer_started x s) = k_lock s" "k_irq (timer_started x s) = k_irq s"
  "k_container (timer_started x s) = k_container s" "k_sem (timer_started x s) = k_sem s"
  "k_mutex (timer_started x s) = k_mutex s" "k_event (timer_started x s) = k_event s"
  "k_mb (timer_started x s) = k_mb s"
  "k_mq (timer_started x s) = k_mq s" "k_mp (timer_started x s) = k_mp s"
  "k_tmr (timer_started x s) =
     (k_tmr s)(x := (k_tmr s x)\<lparr>tm_timeout_tick := k_tick s + tm_init_tick (k_tmr s x)\<rparr>)"
  by (simp_all add: timer_started_def Let_def)

lemma timer_get_type_sets [simp]:
  "rt_object_get_type y (timer_remove x s) = rt_object_get_type y s"
  "rt_object_get_type y (set_tmr x g s) = rt_object_get_type y s"
  "rt_object_get_type y (set_timer_flag x f s) = rt_object_get_type y s"
  "rt_object_get_type y (timer_deactivate x s) = rt_object_get_type y s"
  "rt_object_get_type y (timer_started x s) = rt_object_get_type y s"
  by (simp_all add: rt_object_get_type_def timer_deactivate_def timer_started_def Let_def)

lemma rt_timer_start_Some:
  "rt_timer_start x s = Some r \<longleftrightarrow>
     x \<noteq> Obj RT_NULL \<and> rt_object_get_type x s = Class_Timer \<and> tm_init_tick (k_tmr s x) < TICK_HALF \<and>
     r = (RT_EOK, timer_started x s)"
  by (auto simp: rt_timer_start_def timer_started_def Let_def)

lemma trem_started:
  "trem (timer_started x s) y =
     (if y = x then sint (tm_init_tick (k_tmr s x)) else trem s y)"
  by (simp add: trem_def)

lemma timer_started_list:
  assumes wf: "timers_wf (-1) s" and i: "tm_init_tick (k_tmr s x) < TICK_HALF"
  defines "k \<equiv> sint (tm_init_tick (k_tmr s x))" and "ys \<equiv> remove1 x (k_tlist s)"
  shows "k_tlist (timer_started x s) =
           filter (\<lambda>y. trem s y \<le> k) ys @ x # filter (\<lambda>y. k < trem s y) ys"
proof -
  have ne: "y \<noteq> x" if "y \<in> set ys" for y
    using that wf by (auto simp: ys_def timers_wf_def)
  have in_list: "y \<in> set (k_tlist s)" if "y \<in> set ys" for y
    using that notin_set_remove1 unfolding ys_def by fastforce
  have "sorted (map (trem s) ys)"
    using wf by (auto simp: ys_def timers_wf_def sorted_map_remove1)
  moreover have "timer_after (k_tmr (timer_started x s)) (k_tick s + tm_init_tick (k_tmr s x)) y \<longleftrightarrow> k < trem s y"
    if "y \<in> set ys" for y
    using timer_after_rem [of s y, OF _ _ i] in_list [OF that] ne [OF that] wf
    by (auto simp: timers_wf_def k_def timer_after_def)
  ultimately show ?thesis
    using timer_insert_split [of "trem s" ys "k_tmr (timer_started x s)"
        "k_tick s + tm_init_tick (k_tmr s x)" k x]
    by (simp add: timer_started_def Let_def ys_def)
qed

lemma timer_start_ordered:
  assumes wf: "timers_wf lo s" and lo: "-1 \<le> lo" "lo \<le> 0"
    and x: "x \<noteq> Obj RT_NULL" "rt_object_get_type x s = Class_Timer"
    and i: "tm_init_tick (k_tmr s x) < TICK_HALF"
  shows "\<exists>s'. rt_timer_start x s = Some (RT_EOK, s') \<and> timers_wf lo s' \<and> timer_activated x s' \<and>
           k_tlist s' = filter (\<lambda>y. trem s' y \<le> trem s' x) (remove1 x (k_tlist s)) @
                        x # filter (\<lambda>y. trem s' x < trem s' y) (remove1 x (k_tlist s))"
proof -
  let ?s = "timer_started x s" and ?k = "sint (tm_init_tick (k_tmr s x))"
  let ?ys = "remove1 x (k_tlist s)"
  have ne: "y \<noteq> x" if "y \<in> set ?ys" for y
    using that wf by (auto simp: timers_wf_def)
  have l: "k_tlist ?s = filter (\<lambda>y. trem s y \<le> ?k) ?ys @ x # filter (\<lambda>y. ?k < trem s y) ?ys"
    using timer_started_list [OF timers_wf_weaken [OF wf lo(1)] i] .
  also have "\<dots> = filter (\<lambda>y. trem ?s y \<le> trem ?s x) ?ys @ x # filter (\<lambda>y. trem ?s x < trem ?s y) ?ys"
    using ne by (simp add: trem_started cong: filter_cong)
  finally have l': "k_tlist ?s = \<dots>" .
  have k: "0 \<le> ?k" "?k < 0x7fffffff" using i less_half by auto
  have "timers_wf lo ?s"
    unfolding timers_wf_def
  proof (intro conjI ballI)
    show "distinct (k_tlist ?s)"
      using wf ne unfolding l by (auto simp: timers_wf_def)
    have s1: "sorted (map (trem s) (filter P ?ys))" for P
      using wf by (auto simp: timers_wf_def sorted_map_remove1 intro!: sorted_filter)
    have m: "map (trem ?s) (filter P ?ys) = map (trem s) (filter P ?ys)" for P
      using ne by (simp add: trem_started)
    have s2: "sorted (map (trem ?s) (filter P ?ys))" for P
      unfolding m by (rule s1)
    show "sorted (map (trem ?s) (k_tlist ?s))"
      unfolding l using s2 by (auto simp: sorted_append trem_started)
    fix y
    assume "y \<in> set (k_tlist ?s)"
    then consider "y = x" | "y \<in> set ?ys" unfolding l by auto
    then show "lo \<le> trem ?s y" "trem ?s y < 0x7fffffff"
      using k lo wf notin_set_remove1 [of y "k_tlist s" x] ne
      by (cases; auto simp: trem_started timers_wf_def)+
  qed
  moreover have "timer_activated x ?s"
    by (simp add: timer_activated_def timer_flag_def timer_started_def Let_def)
  ultimately show ?thesis
    using x i l' by (auto simp: rt_timer_start_Some)
qed

text \<open>\<open>rt_timer_start\<close> puts the timer into the list behind every timer that times out no later
  (also the ones that time out at the same tick) and in front of the others, which keep their
  order; the list stays sorted under the wrapping tick.\<close>

theorem rt_timer_start_ordered:
  assumes wf: "timers_wf lo s" and lo: "-1 \<le> lo" "lo \<le> 0"
    and x: "x \<noteq> Obj RT_NULL" "rt_object_get_type x s = Class_Timer"
    and i: "tm_init_tick (k_tmr s x) < TICK_HALF"
  shows "\<exists>s'. rt_timer_start x s = Some (RT_EOK, s') \<and> timers_wf lo s' \<and> timer_activated x s' \<and>
           k_tlist s' = filter (\<lambda>y. trem s' y \<le> trem s' x) (remove1 x (k_tlist s)) @
                        x # filter (\<lambda>y. trem s' x < trem s' y) (remove1 x (k_tlist s))"
  by (rule timer_start_ordered [OF assms])

section \<open>Stopping and checking\<close>

lemma timer_remove_wf: "timers_wf lo s \<Longrightarrow> timers_wf lo (timer_remove x s)"
  by (auto simp: timers_wf_def trem_def [abs_def] sorted_map_remove1 dest: notin_set_remove1 [rotated])

lemma timer_flag_wf [simp]:
  "timers_wf lo (timer_deactivate x s) = timers_wf lo s"
  "timers_wf lo (set_timer_flag x f s) = timers_wf lo s"
  by (simp_all add: timers_wf_def trem_def [abs_def])

text \<open>Stopping an activated timer takes it out of the list, and only it; stopping a timer that
  is not activated is an error and changes nothing.\<close>

theorem rt_timer_stop_removes:
  assumes "timers_wf lo s" and "x \<noteq> Obj RT_NULL" and "rt_object_get_type x s = Class_Timer"
  shows "if timer_activated x s
         then \<exists>s'. rt_timer_stop x s = Some (RT_EOK, s') \<and> k_tlist s' = filter ((\<noteq>) x) (k_tlist s) \<and>
                \<not> timer_activated x s' \<and> timers_wf lo s'
         else rt_timer_stop x s = Some (- RT_ERROR, s)"
proof -
  have "remove1 x (k_tlist s) = filter ((\<noteq>) x) (k_tlist s)"
    using assms(1) distinct_remove1_removeAll [of "k_tlist s" x]
    by (simp add: timers_wf_def removeAll_filter_not_eq)
  moreover have "(f AND NOT 1) AND 1 = (0 :: u8)" for f
    by (rule bit_word_eqI) (auto simp: bit_simps)
  ultimately show ?thesis
    using assms timer_remove_wf [OF assms(1), of x]
    by (auto simp: rt_timer_stop_def timer_activated_def timer_flag_def timer_deactivate_def)
qed

text \<open>Callbacks that do not disturb the order of the list.\<close>

definition cb_safe :: "(oref \<Rightarrow> kstate \<Rightarrow> kstate option) \<Rightarrow> bool" where
  "cb_safe cb \<longleftrightarrow> (\<forall>x s s'. timers_wf (-1) s \<longrightarrow> cb x s = Some s' \<longrightarrow>
     timers_wf (-1) s' \<and> k_tick s' = k_tick s)"

lemma timer_fire_wf:
  assumes "cb_safe cb" and "timers_wf (-1) s" and "timer_fire cb x s = Some s'"
  shows "timers_wf (-1) s' \<and> k_tick s' = k_tick s"
proof -
  obtain s1 where cb: "cb x (timer_remove x s) = Some s1"
    using assms(3) by (auto simp: timer_fire_def bind_Some_iff)
  then have wf: "timers_wf (-1) s1 \<and> k_tick s1 = k_tick s"
    using assms(1) timer_remove_wf [OF assms(2), of x] by (auto simp: cb_safe_def)
  show ?thesis
  proof (cases "timer_periodic x s1 \<and> timer_activated x s1")
    case True
    then obtain r where "rt_timer_start x (timer_deactivate x s1) = Some (r, s')"
      using assms(3) cb by (auto simp: timer_fire_def bind_Some_iff)
    moreover from this have "x \<noteq> Obj RT_NULL" "rt_object_get_type x (timer_deactivate x s1) = Class_Timer"
      "tm_init_tick (k_tmr (timer_deactivate x s1) x) < TICK_HALF"
      by (auto simp: rt_timer_start_Some)
    ultimately show ?thesis
      using timer_start_ordered [of "-1" "timer_deactivate x s1" x] wf
      by (auto simp: rt_timer_start_Some)
  next
    case False
    then show ?thesis using assms(3) cb wf by (auto simp: timer_fire_def)
  qed
qed


text \<open>When \<open>rt_timer_check\<close> returns, no timer in the list has expired, and the list is sorted:
  for all callbacks that keep the list sorted and do not set the tick.\<close>

theorem rt_timer_check_none_expired:
  assumes cb: "cb_safe cb" and wf: "timers_wf (-1) s" and check: "rt_timer_check cb s = Some s'"
  shows "timers_wf 1 s' \<and> k_tick s' = k_tick s"
proof -
  have "cb_safe cb \<longrightarrow> timers_wf (-1) s \<longrightarrow> now = k_tick s \<longrightarrow> timers_wf 1 s' \<and> k_tick s' = now"
    if "timer_check_loop cb now s = Some s'" for cb now s s'
  proof (rule timer_check_loop.raw_induct [OF _ that], goal_cases)
    case (1 loop cb now s y)
    show ?case
    proof (intro impI)
      assume a: "cb_safe cb" "timers_wf (-1) s" "now = k_tick s"
      show "timers_wf 1 y \<and> k_tick y = now"
      proof (cases "k_tlist s")
        case Nil
        then show ?thesis using 1(2) a by (auto simp: timers_wf_def)
      next
        case (Cons x xs)
        have x: "-1 \<le> trem s x" "trem s x < 0x7fffffff"
          using a(2) Cons by (auto simp: timers_wf_def)
        show ?thesis
        proof (cases "timer_expired now x s")
          case True
          then obtain s1 where "timer_fire cb x s = Some s1" "loop cb (k_tick s1) s1 = Some y"
            using 1(2) Cons by (auto simp: bind_Some_iff)
          then show ?thesis
            using 1(1) timer_fire_wf [OF a(1,2)] a by fastforce
        next
          case False
          then have "y = s" using 1(2) Cons by simp
          moreover have "0 < trem s x" using False timer_expired_rem [OF x] a(3) by simp
          ultimately show ?thesis
            using a Cons by (auto simp: timers_wf_def)
        qed
      qed
    qed
  qed
  then show ?thesis using assms by (simp add: rt_timer_check_def)
qed

text \<open>The interface between the loop and the owners of the timers: an expired timer can be fired,
  and firing leaves fewer expired ones.\<close>

definition expired_count :: "kstate \<Rightarrow> nat" where
  "expired_count s = length (filter (\<lambda>x. trem s x \<le> 0) (k_tlist s))"

locale timer_callbacks =
  fixes cb :: "oref \<Rightarrow> kstate \<Rightarrow> kstate option"
    and I :: "kstate \<Rightarrow> bool"
  assumes fires: "I s \<Longrightarrow> timers_wf (-1) s \<Longrightarrow> k_tlist s = x # xs \<Longrightarrow> trem s x \<le> 0 \<Longrightarrow>
      \<exists>s'. timer_fire cb x s = Some s' \<and> I s' \<and> k_tick s' = k_tick s \<and> timers_wf (-1) s' \<and>
           expired_count s' < expired_count s"
begin

lemma loop_total:
  "I s \<Longrightarrow> timers_wf (-1) s \<Longrightarrow>
   \<exists>s'. timer_check_loop cb (k_tick s) s = Some s' \<and> I s' \<and> timers_wf 1 s' \<and> k_tick s' = k_tick s"
proof (induction "expired_count s" arbitrary: s rule: less_induct)
  case less
  show ?case
  proof (cases "k_tlist s")
    case Nil
    then show ?thesis
      using less.prems by (subst timer_check_loop.simps) (auto simp: timers_wf_def)
  next
    case (Cons x xs)
    have x: "-1 \<le> trem s x" "trem s x < 0x7fffffff"
      using less.prems(2) Cons by (auto simp: timers_wf_def)
    show ?thesis
    proof (cases "trem s x \<le> 0")
      case True
      then obtain s1 where s1: "timer_fire cb x s = Some s1" "I s1" "k_tick s1 = k_tick s"
        "timers_wf (-1) s1" "expired_count s1 < expired_count s"
        using fires [OF less.prems Cons] by blast
      then show ?thesis
        using less.hyps [OF s1(5,2,4)] True Cons timer_expired_rem [OF x]
        by (subst timer_check_loop.simps) auto
    next
      case False
      then have "timers_wf 1 s"
        using less.prems(2) Cons by (auto simp: timers_wf_def)
      then show ?thesis
        using False Cons timer_expired_rem [OF x] less.prems
        by (subst timer_check_loop.simps) auto
    qed
  qed
qed

lemma check_total:
  "I s \<Longrightarrow> timers_wf (-1) s \<Longrightarrow>
   \<exists>s'. rt_timer_check cb s = Some s' \<and> I s' \<and> timers_wf 1 s' \<and> k_tick s' = k_tick s"
  using loop_total by (simp add: rt_timer_check_def)

end


section \<open>Two surprises\<close>

text \<open>A one-shot timer that its own callback starts again is left in the timer list but with
  the activated flag cleared, so that a later \<open>rt_timer_stop\<close> fails and leaves it running.\<close>

theorem one_shot_restart_unstoppable:
  assumes wf: "timers_wf (-1) s" and x: "x \<noteq> Obj RT_NULL" "rt_object_get_type x s = Class_Timer"
    and i: "tm_init_tick (k_tmr s x) < TICK_HALF" and one_shot: "\<not> timer_periodic x s"
    and restart: "cb x (timer_remove x s) = map_option snd (rt_timer_start x (timer_remove x s))"
  shows "\<exists>s'. timer_fire cb x s = Some s' \<and> x \<in> set (k_tlist s') \<and>
           rt_timer_stop x s' = Some (- RT_ERROR, s')"
proof -
  let ?s = "timer_started x (timer_remove x s)"
  have "rt_timer_start x (timer_remove x s) = Some (RT_EOK, ?s)"
    using x i by (auto simp: rt_timer_start_Some)
  then have cb: "cb x (timer_remove x s) = Some ?s" using restart by simp
  have m: "((f AND NOT 1) OR 1) AND 2 = f AND (2 :: u8)" "(f AND NOT 1) AND 1 = (0 :: u8)" for f
    by (rule bit_word_eqI; auto simp: bit_simps)+
  have "timer_periodic x ?s = timer_periodic x s"
    using m(1) by (simp add: timer_periodic_def timer_flag_def timer_started_def Let_def timer_deactivate_def)
  then have fire: "timer_fire cb x s = Some (timer_deactivate x ?s)"
    using cb one_shot by (simp add: timer_fire_def)
  have "x \<in> set (k_tlist ?s)" by (simp add: timer_started_def Let_def)
  moreover have "\<not> timer_activated x (timer_deactivate x ?s)"
    using m(2) by (simp add: timer_activated_def timer_flag_def timer_deactivate_def)
  ultimately show ?thesis
    using fire x by (simp add: rt_timer_stop_def)
qed

end
