(* ===== verification/RTT_Thread.thy ===== *)
theory RTT_Thread
  imports RTT_Timer
begin

text \<open>
  Threads (\<open>src/thread.c\<close>): their life cycle from \<open>rt_thread_init\<close> to \<open>rt_thread_exit\<close>, suspending,
  resuming, sleeping, changing priority. The stack and the entry function are not modelled.

  A function that gives up the processor in \<open>rt_schedule\<close> and goes on later is two definitions:
  the part up to the switch, which answers \<open>Blocked\<close> when another thread runs now, and the part
  that runs when the thread is chosen again. When no switch takes place, the first part goes
  straight on with the second.
\<close>

section \<open>Suspending and resuming\<close>

datatype outcome = Returns rt_err | Blocked

definition is_thread :: "ptr \<Rightarrow> kstate \<Rightarrow> bool" where
  "is_thread t s \<longleftrightarrow> t \<noteq> RT_NULL \<and> rt_object_get_type (Obj t) s = Class_Thread"

definition rt_thread_self :: "kstate \<Rightarrow> ptr" where
  "rt_thread_self s = k_cur s"

definition rt_thread_suspend :: "ptr \<Rightarrow> kstate \<Rightarrow> (rt_err \<times> kstate) option" where
  "rt_thread_suspend t s = do {
     rt_assert (is_thread t s);
     let stat = stat_of (k_thr s t);
     if stat \<noteq> RT_THREAD_READY \<and> stat \<noteq> RT_THREAD_RUNNING then Some (- RT_ERROR, s)
     else do {
       rt_assert (stat = RT_THREAD_RUNNING \<longrightarrow> t = rt_thread_self s);
       s \<leftarrow> rt_schedule_remove_thread t s;
       let s = set_thr t (set_stat RT_THREAD_SUSPEND) s;
       (_, s) \<leftarrow> rt_timer_stop (TimerOf t) s;
       Some (RT_EOK, s)
     }
   }"

definition rt_thread_resume :: "ptr \<Rightarrow> kstate \<Rightarrow> (rt_err \<times> kstate) option" where
  "rt_thread_resume t s = do {
     rt_assert (is_thread t s);
     if stat_of (k_thr s t) \<noteq> RT_THREAD_SUSPEND then Some (- RT_ERROR, s)
     else do {
       let s = tlist_remove t s;
       (_, s) \<leftarrow> rt_timer_stop (TimerOf t) s;
       s \<leftarrow> rt_schedule_insert_thread t s;
       Some (RT_EOK, s)
     }
   }"

definition rt_thread_timeout :: "ptr \<Rightarrow> kstate \<Rightarrow> kstate option" where
  "rt_thread_timeout t s = do {
     rt_assert (t \<noteq> RT_NULL);
     rt_assert (stat_of (k_thr s t) = RT_THREAD_SUSPEND);
     rt_assert (is_thread t s);
     let s = set_thr t (\<lambda>th. th\<lparr>t_error := - RT_ETIMEOUT\<rparr>) s;
     let s = tlist_remove t s;
     s \<leftarrow> rt_schedule_insert_thread t s;
     rt_schedule s
   }"


section \<open>Life cycle\<close>

definition thread_init :: "ptr \<Rightarrow> string \<Rightarrow> u8 \<Rightarrow> u32 \<Rightarrow> kstate \<Rightarrow> (rt_err \<times> kstate) option" where
  "thread_init t name priority tick s = do {
     rt_assert (link_ok t s);
     rt_assert (priority < 32);
     let s = set_thr t (\<lambda>th. th\<lparr>t_init_priority := priority, t_current_priority := priority,
        t_number_mask := 0, t_init_tick := tick, t_remaining_tick := tick, t_error := RT_EOK,
        t_stat := RT_THREAD_INIT, t_cleanup := False\<rparr>) s;
     s \<leftarrow> rt_timer_init (TimerOf t) name 0 0 s;
     Some (RT_EOK, s)
   }"

definition rt_thread_init ::
  "ptr \<Rightarrow> string \<Rightarrow> ptr \<Rightarrow> u8 \<Rightarrow> u32 \<Rightarrow> kstate \<Rightarrow> (rt_err \<times> kstate) option" where
  "rt_thread_init t name stack_start priority tick s = do {
     rt_assert (t \<noteq> RT_NULL);
     rt_assert (stack_start \<noteq> RT_NULL);
     s \<leftarrow> rt_object_init (Obj t) Class_Thread name s;
     thread_init t name priority tick s
   }"

text \<open>\<open>mem\<close> and \<open>stack_start\<close> are what the two allocations return. A stack that cannot be
  allocated undoes the first one.\<close>

definition rt_thread_create ::
  "ptr \<Rightarrow> ptr \<Rightarrow> string \<Rightarrow> u8 \<Rightarrow> u32 \<Rightarrow> kstate \<Rightarrow> (ptr \<times> kstate) option" where
  "rt_thread_create mem stack_start name priority tick s = do {
     (t, s) \<leftarrow> rt_object_allocate mem Class_Thread name s;
     if t = RT_NULL then Some (RT_NULL, s)
     else if stack_start = RT_NULL
     then do { s \<leftarrow> rt_object_delete (Obj t) s; Some (RT_NULL, s) }
     else do { (_, s) \<leftarrow> thread_init t name priority tick s; Some (t, s) }
   }"

definition rt_thread_startup :: "ptr \<Rightarrow> kstate \<Rightarrow> (rt_err \<times> kstate) option" where
  "rt_thread_startup t s = do {
     rt_assert (t \<noteq> RT_NULL);
     rt_assert (stat_of (k_thr s t) = RT_THREAD_INIT);
     rt_assert (is_thread t s);
     let s = set_thr t (\<lambda>th. th\<lparr>t_current_priority := t_init_priority th,
        t_number_mask := prio_mask (t_init_priority th), t_stat := RT_THREAD_SUSPEND\<rparr>) s;
     (_, s) \<leftarrow> rt_thread_resume t s;
     s \<leftarrow> (if rt_thread_self s \<noteq> RT_NULL then rt_schedule s else Some s);
     Some (RT_EOK, s)
   }"

text \<open>The end of \<open>rt_thread_exit\<close> and \<open>rt_thread_detach\<close>: a static thread without a cleanup function
  leaves the object system, any other waits in the defunct list for the idle thread.\<close>

definition thread_retire :: "ptr \<Rightarrow> kstate \<Rightarrow> kstate option" where
  "thread_retire t s =
     (if rt_object_is_systemobject (Obj t) s \<and> \<not> t_cleanup (k_thr s t)
      then Some (rt_object_detach (Obj t) s)
      else tlist_insert_after_head Defunct t s)"

definition rt_thread_exit :: "kstate \<Rightarrow> kstate option" where
  "rt_thread_exit s = do {
     let t = rt_thread_self s;
     s \<leftarrow> rt_schedule_remove_thread t s;
     let s = set_thr t (\<lambda>th. th\<lparr>t_stat := RT_THREAD_CLOSE\<rparr>) s;
     (_, s) \<leftarrow> rt_timer_detach (TimerOf t) s;
     s \<leftarrow> thread_retire t s;
     rt_schedule s
   }"

definition rt_thread_detach :: "ptr \<Rightarrow> kstate \<Rightarrow> (rt_err \<times> kstate) option" where
  "rt_thread_detach t s = do {
     rt_assert (is_thread t s);
     rt_assert (rt_object_is_systemobject (Obj t) s);
     s \<leftarrow> (if stat_of (k_thr s t) \<noteq> RT_THREAD_INIT then rt_schedule_remove_thread t s else Some s);
     (_, s) \<leftarrow> rt_timer_detach (TimerOf t) s;
     let s = set_thr t (\<lambda>th. th\<lparr>t_stat := RT_THREAD_CLOSE\<rparr>) s;
     s \<leftarrow> thread_retire t s;
     Some (RT_EOK, s)
   }"

definition rt_thread_delete :: "ptr \<Rightarrow> kstate \<Rightarrow> (rt_err \<times> kstate) option" where
  "rt_thread_delete t s = do {
     rt_assert (is_thread t s);
     rt_assert (\<not> rt_object_is_systemobject (Obj t) s);
     s \<leftarrow> (if stat_of (k_thr s t) \<noteq> RT_THREAD_INIT then rt_schedule_remove_thread t s else Some s);
     (_, s) \<leftarrow> rt_timer_detach (TimerOf t) s;
     let s = set_thr t (\<lambda>th. th\<lparr>t_stat := RT_THREAD_CLOSE\<rparr>) s;
     s \<leftarrow> tlist_insert_after_head Defunct t s;
     Some (RT_EOK, s)
   }"

definition rt_thread_yield :: "kstate \<Rightarrow> (rt_err \<times> kstate) option" where
  "rt_thread_yield s = do { s \<leftarrow> rt_schedule s; Some (RT_EOK, s) }"


section \<open>Sleeping\<close>

text \<open>Suspend the current thread, and have its timer wake it after \<open>tick\<close> ticks.\<close>

definition sleep_timer :: "ptr \<Rightarrow> u32 \<Rightarrow> kstate \<Rightarrow> kstate option" where
  "sleep_timer t tick s = do {
     (_, _, s) \<leftarrow> rt_timer_control (TimerOf t) (TIMER_SET_TIME tick) s;
     (_, s) \<leftarrow> rt_timer_start (TimerOf t) s;
     Some s
   }"

definition rt_thread_sleep_resume :: "ptr \<Rightarrow> kstate \<Rightarrow> rt_err \<times> kstate" where
  "rt_thread_sleep_resume t s =
     (RT_EOK, if t_error (k_thr s t) = - RT_ETIMEOUT
              then set_thr t (\<lambda>th. th\<lparr>t_error := RT_EOK\<rparr>) s else s)"

definition rt_thread_sleep :: "u32 \<Rightarrow> kstate \<Rightarrow> (outcome \<times> kstate) option" where
  "rt_thread_sleep tick s = do {
     let t = rt_thread_self s;
     rt_assert (is_thread t s);
     (_, s) \<leftarrow> rt_thread_suspend t s;
     s \<leftarrow> sleep_timer t tick s;
     s \<leftarrow> rt_schedule s;
     if rt_thread_self s = t
     then let (r, s) = rt_thread_sleep_resume t s in Some (Returns r, s)
     else Some (Blocked, s)
   }"

definition rt_thread_delay :: "u32 \<Rightarrow> kstate \<Rightarrow> (outcome \<times> kstate) option" where
  "rt_thread_delay tick s = rt_thread_sleep tick s"

text \<open>\<open>rt_thread_delay_until\<close>: the value at \<open>tick\<close> is a parameter, the value left there a result.\<close>

definition rt_thread_delay_until_resume :: "ptr \<Rightarrow> kstate \<Rightarrow> rt_err \<times> u32 \<times> kstate" where
  "rt_thread_delay_until_resume t s =
     (let (r, s) = rt_thread_sleep_resume t s in (RT_EOK, k_tick s, s))"

definition rt_thread_delay_until ::
  "u32 \<Rightarrow> u32 \<Rightarrow> kstate \<Rightarrow> (outcome \<times> u32 \<times> kstate) option" where
  "rt_thread_delay_until tick inc_tick s = do {
     let t = rt_thread_self s;
     rt_assert (is_thread t s);
     if k_tick s - tick < inc_tick
     then do {
       let tick = k_tick s - tick + inc_tick;
       (_, s) \<leftarrow> rt_thread_suspend t s;
       s \<leftarrow> sleep_timer t tick s;
       s \<leftarrow> rt_schedule s;
       if rt_thread_self s = t
       then let (r, tk, s) = rt_thread_delay_until_resume t s in Some (Returns r, tk, s)
       else Some (Blocked, tick, s)
     }
     else Some (Returns RT_EOK, k_tick s, s)
   }"

text \<open>\<open>rt_tick_from_millisecond\<close> of clock.c, with \<open>RT_TICK_PER_SECOND\<close> = 1000.\<close>

definition rt_tick_from_millisecond :: "u32 \<Rightarrow> u32" where
  "rt_tick_from_millisecond ms =
     (if sint ms < 0 then - 1
      else 1000 * (ms div 1000) + (1000 * (ms mod 1000) + 999) div 1000)"

definition rt_thread_mdelay :: "u32 \<Rightarrow> kstate \<Rightarrow> (outcome \<times> kstate) option" where
  "rt_thread_mdelay ms s = rt_thread_sleep (rt_tick_from_millisecond ms) s"


section \<open>Control and lookup\<close>

datatype thread_cmd = CHANGE_PRIORITY u8 | THREAD_STARTUP | THREAD_CLOSE | THREAD_OTHER

definition change_priority :: "ptr \<Rightarrow> u8 \<Rightarrow> kstate \<Rightarrow> kstate option" where
  "change_priority t p s =
     (if stat_of (k_thr s t) = RT_THREAD_READY
      then do {
        s \<leftarrow> rt_schedule_remove_thread t s;
        let s = set_thr t (\<lambda>th. th\<lparr>t_current_priority := p, t_number_mask := prio_mask p\<rparr>) s;
        rt_schedule_insert_thread t s
      }
      else Some (set_thr t (\<lambda>th. th\<lparr>t_current_priority := p, t_number_mask := prio_mask p\<rparr>) s))"

definition rt_thread_control :: "ptr \<Rightarrow> thread_cmd \<Rightarrow> kstate \<Rightarrow> (rt_err \<times> kstate) option" where
  "rt_thread_control t cmd s = do {
     rt_assert (is_thread t s);
     (case cmd of
        CHANGE_PRIORITY p \<Rightarrow> do { s \<leftarrow> change_priority t p s; Some (RT_EOK, s) }
      | THREAD_STARTUP \<Rightarrow> rt_thread_startup t s
      | THREAD_CLOSE \<Rightarrow> rt_thread_delete t s
      | THREAD_OTHER \<Rightarrow> Some (RT_EOK, s))
   }"

definition rt_thread_find :: "string \<Rightarrow> kstate \<Rightarrow> (oref option \<times> kstate) option" where
  "rt_thread_find name s = do {
     let s = (if rt_thread_self s \<noteq> RT_NULL then rt_enter_critical s else s);
     let found = find (\<lambda>x. same_name (o_name (k_obj s x)) name) (k_container s Class_Thread);
     s \<leftarrow> (if rt_thread_self s \<noteq> RT_NULL then rt_exit_critical s else Some s);
     Some (found, s)
   }"


section \<open>The system invariant\<close>

text \<open>Live threads are objects of class Thread with a one-shot timer of class Timer; a thread's
  timer runs only while the thread is suspended.\<close>

definition timer_obj :: "ptr \<Rightarrow> kstate \<Rightarrow> bool" where
  "timer_obj t s \<longleftrightarrow> rt_object_get_type (TimerOf t) s = Class_Timer \<and>
     rt_object_is_systemobject (TimerOf t) s \<and> \<not> timer_periodic (TimerOf t) s"

definition typed :: "kstate \<Rightarrow> bool" where
  "typed s \<longleftrightarrow> (\<forall>t.
     (stat_of (k_thr s t) \<in> {RT_THREAD_READY, RT_THREAD_SUSPEND, RT_THREAD_RUNNING} \<longrightarrow>
        rt_object_get_type (Obj t) s = Class_Thread) \<and>
     (stat_of (k_thr s t) \<noteq> RT_THREAD_CLOSE \<and> rt_object_get_type (Obj t) s = Class_Thread \<longrightarrow>
        timer_obj t s))"

definition ttimer_ok :: "kstate \<Rightarrow> bool" where
  "ttimer_ok s \<longleftrightarrow> (\<forall>t. TimerOf t \<in> set (k_tlist s) \<longrightarrow>
     stat_of (k_thr s t) = RT_THREAD_SUSPEND \<and> timer_activated (TimerOf t) s)"

definition sys_inv :: "int \<Rightarrow> kstate \<Rightarrow> bool" where
  "sys_inv lo s \<longleftrightarrow> kinv s \<and> timers_wf lo s \<and> typed s \<and> ttimer_ok s"

lemma sys_invD:
  assumes "sys_inv lo s"
  shows "kinv s" and "kinv_but {} s" and "timers_wf lo s" and "typed s" and "ttimer_ok s"
  using assms by (auto simp: sys_inv_def kinv_def)

lemma typedD:
  assumes "typed s" and "stat_of (k_thr s t) \<in> {RT_THREAD_READY, RT_THREAD_SUSPEND, RT_THREAD_RUNNING}"
  shows "rt_object_get_type (Obj t) s = Class_Thread" and "timer_obj t s"
proof -
  show "rt_object_get_type (Obj t) s = Class_Thread" using assms unfolding typed_def by blast
  moreover have "stat_of (k_thr s t) \<noteq> RT_THREAD_CLOSE" using assms(2) by auto
  ultimately show "timer_obj t s" using assms(1) by (simp add: typed_def)
qed

lemma live_is_thread:
  assumes "sys_inv lo s" and "stat_of (k_thr s t) \<in> {RT_THREAD_READY, RT_THREAD_SUSPEND, RT_THREAD_RUNNING}"
  shows "is_thread t s"
proof -
  have "t \<noteq> RT_NULL"
    using assms kinv_butD(7) [OF sys_invD(2) [OF assms(1)]] by (cases "t = RT_NULL") auto
  then show ?thesis
    using typedD(1) [OF sys_invD(4) [OF assms(1)] assms(2)] by (simp add: is_thread_def)
qed

text \<open>The thread timer stopped, if it runs.\<close>

definition timer_off :: "ptr \<Rightarrow> kstate \<Rightarrow> kstate" where
  "timer_off t s = (if timer_activated (TimerOf t) s
                    then timer_deactivate (TimerOf t) (timer_remove (TimerOf t) s) else s)"

lemma timer_off_sets [simp]:
  "k_tmr (timer_off t s) = k_tmr s" "k_tick (timer_off t s) = k_tick s"
  "k_q (timer_off t s) = k_q s" "k_thr (timer_off t s) = k_thr s"
  "k_group (timer_off t s) = k_group s" "k_cur (timer_off t s) = k_cur s"
  "k_lock (timer_off t s) = k_lock s" "k_irq (timer_off t s) = k_irq s"
  "k_container (timer_off t s) = k_container s" "k_sem (timer_off t s) = k_sem s"
  "k_mutex (timer_off t s) = k_mutex s" "k_event (timer_off t s) = k_event s"
  "k_mb (timer_off t s) = k_mb s"
  "k_mq (timer_off t s) = k_mq s" "k_mp (timer_off t s) = k_mp s"
  "rt_object_get_type x (timer_off t s) = rt_object_get_type x s"
  by (simp_all add: timer_off_def)

lemma systemobject_sets [simp]:
  "rt_object_is_systemobject x (timer_remove y s) = rt_object_is_systemobject x s"
  "rt_object_is_systemobject x (timer_deactivate y s) = rt_object_is_systemobject x s"
  "rt_object_is_systemobject x (set_tmr y g s) = rt_object_is_systemobject x s"
  "rt_object_is_systemobject x (timer_started y s) = rt_object_is_systemobject x s"
  "rt_object_is_systemobject x (timer_off t s) = rt_object_is_systemobject x s"
  by (simp_all add: rt_object_is_systemobject_def timer_off_def timer_deactivate_def timer_started_def
      Let_def)

lemma rt_timer_stop_off:
  "timer_obj t s \<Longrightarrow> \<exists>r. rt_timer_stop (TimerOf t) s = Some (r, timer_off t s)"
  by (auto simp: rt_timer_stop_def timer_obj_def timer_off_def)

lemma timer_off_wf: "timers_wf lo s \<Longrightarrow> timers_wf lo (timer_off t s)"
  by (simp add: timer_off_def timer_remove_wf)

lemma timer_off_gone:
  assumes "ttimer_ok s" and "timers_wf lo s"
  shows "TimerOf t \<notin> set (k_tlist (timer_off t s))"
  using assms by (auto simp: timer_off_def ttimer_ok_def timers_wf_def)

lemma timer_off_list: "x \<in> set (k_tlist (timer_off t s)) \<Longrightarrow> x \<in> set (k_tlist s)"
  using set_remove1_subset [of "TimerOf t" "k_tlist s"] by (auto simp: timer_off_def split: if_splits)

lemma clear_activated: "(f AND NOT 1) AND 2 = f AND (2 :: u8)" "(f AND NOT 1) AND 1 = (0 :: u8)"
    "(f OR 1) AND 2 = f AND (2 :: u8)" "(f OR 1) AND 1 = (1 :: u8)"
  by (rule bit_word_eqI; auto simp: bit_simps)+

lemma timer_periodic_deactivate [simp]:
  "timer_periodic x (timer_deactivate y s) = timer_periodic x s"
  using clear_activated(1) by (simp add: timer_periodic_def timer_flag_def timer_deactivate_def)

lemma timer_not_activated [simp]: "\<not> timer_activated x (timer_deactivate x s)"
  using clear_activated(2) by (simp add: timer_activated_def timer_flag_def timer_deactivate_def)

lemma timer_activated_deactivate [simp]:
  "x \<noteq> y \<Longrightarrow> timer_activated x (timer_deactivate y s) = timer_activated x s"
  by (simp add: timer_activated_def timer_flag_def timer_deactivate_def)

lemma timer_flags_remove [simp]:
  "timer_periodic x (timer_remove y s) = timer_periodic x s"
  "timer_activated x (timer_remove y s) = timer_activated x s"
  "timer_periodic x (set_tmr y g s) = timer_periodic x s"
  "timer_activated x (set_tmr y g s) = timer_activated x s"
  by (simp_all add: timer_periodic_def timer_activated_def timer_flag_def)

lemma timer_flags_started [simp]:
  "timer_periodic x (timer_started y s) = timer_periodic x s"
  "timer_activated x (timer_started y s) = (x = y \<or> timer_activated x s)"
  using clear_activated
  by (simp_all add: timer_periodic_def timer_activated_def timer_flag_def timer_started_def
      timer_deactivate_def Let_def)

lemma timer_off_flags [simp]:
  "x \<noteq> TimerOf t \<Longrightarrow> timer_activated x (timer_off t s) = timer_activated x s"
  "timer_periodic x (timer_off t s) = timer_periodic x s"
  by (simp_all add: timer_off_def)

text \<open>The parts of the invariant outside the scheduler read only these fields.\<close>

lemma timer_flag_cong:
  "k_obj s' = k_obj s \<Longrightarrow> timer_activated x s' = timer_activated x s"
  "k_obj s' = k_obj s \<Longrightarrow> timer_periodic x s' = timer_periodic x s"
  "k_obj s' = k_obj s \<Longrightarrow> timer_obj t s' = timer_obj t s"
  "k_obj s' = k_obj s \<Longrightarrow> rt_object_get_type y s' = rt_object_get_type y s"
  "k_obj s' = k_obj s \<Longrightarrow> rt_object_is_systemobject y s' = rt_object_is_systemobject y s"
  by (simp_all add: timer_activated_def timer_periodic_def timer_flag_def timer_obj_def
      rt_object_get_type_def rt_object_is_systemobject_def)

text \<open>Preservation by a step that concerns one live thread \<open>t\<close> and its timer.\<close>

lemma sys_inv_step:
  assumes inv: "sys_inv lo s" and k: "kinv s'" and tw: "timers_wf lo s'"
    and ob: "\<And>y. rt_object_get_type y s' = rt_object_get_type y s" "\<And>u. timer_obj u s' = timer_obj u s"
    and listed: "\<And>u. u \<noteq> t \<Longrightarrow> TimerOf u \<in> set (k_tlist s') \<Longrightarrow> TimerOf u \<in> set (k_tlist s) \<and>
        timer_activated (TimerOf u) s' = timer_activated (TimerOf u) s"
    and own: "TimerOf t \<in> set (k_tlist s') \<Longrightarrow> stat_of (k_thr s' t) = RT_THREAD_SUSPEND \<and>
        timer_activated (TimerOf t) s'"
    and others: "\<And>u. u \<noteq> t \<Longrightarrow> stat_of (k_thr s' u) = stat_of (k_thr s u)"
    and t: "stat_of (k_thr s t) \<in> {RT_THREAD_READY, RT_THREAD_SUSPEND, RT_THREAD_RUNNING}"
  shows "sys_inv lo s'"
proof -
  have "typed s'"
    unfolding typed_def ob
  proof (intro allI)
    fix u
    show "(stat_of (k_thr s' u) \<in> {1, 2, 3} \<longrightarrow> rt_object_get_type (Obj u) s = 1) \<and>
        (stat_of (k_thr s' u) \<noteq> 4 \<and> rt_object_get_type (Obj u) s = 1 \<longrightarrow> timer_obj u s)"
    proof (cases "u = t")
      case True
      then show ?thesis using typedD [OF sys_invD(4) [OF inv] t] by simp
    next
      case False
      then show ?thesis using others [OF False] sys_invD(4) [OF inv] by (simp add: typed_def)
    qed
  qed
  moreover have "ttimer_ok s'"
    unfolding ttimer_ok_def
  proof (intro allI impI)
    fix u
    assume u: "TimerOf u \<in> set (k_tlist s')"
    show "stat_of (k_thr s' u) = RT_THREAD_SUSPEND \<and> timer_activated (TimerOf u) s'"
    proof (cases "u = t")
      case False
      then show ?thesis
        using listed [OF False u] others [OF False] sys_invD(5) [OF inv] by (simp add: ttimer_ok_def)
    qed (use own u in simp)
  qed
  ultimately show ?thesis using k tw by (simp add: sys_inv_def)
qed

lemma sys_inv_off_step:
  assumes inv: "sys_inv lo s" and k: "kinv s'"
    and f: "k_obj s' = k_obj (timer_off t s)" "k_tlist s' = k_tlist (timer_off t s)"
      "k_tmr s' = k_tmr s" "k_tick s' = k_tick s"
    and others: "\<And>u. u \<noteq> t \<Longrightarrow> stat_of (k_thr s' u) = stat_of (k_thr s u)"
    and t: "stat_of (k_thr s t) \<in> {RT_THREAD_READY, RT_THREAD_SUSPEND, RT_THREAD_RUNNING}"
  shows "sys_inv lo s'"
proof (rule sys_inv_step [OF inv k _ _ _ _ _ others t])
  show "rt_object_get_type y s' = rt_object_get_type y s" for y
    using timer_flag_cong(4) [OF f(1)] by simp
  show "timer_obj u s' = timer_obj u s" for u
    using timer_flag_cong(3) [OF f(1)] by (simp add: timer_obj_def)
  show "timers_wf lo s'"
    using timer_off_wf [OF sys_invD(3) [OF inv], of t] f
    by (subst timers_wf_cong [of s' "timer_off t s"]) simp_all
  show "TimerOf u \<in> set (k_tlist s) \<and> timer_activated (TimerOf u) s' = timer_activated (TimerOf u) s"
    if "u \<noteq> t" "TimerOf u \<in> set (k_tlist s')" for u
    using that timer_off_list [of "TimerOf u" t s] f(2) timer_flag_cong(1,2) [OF f(1)]
      timer_off_flags [of "TimerOf u" t s] by simp
  show "stat_of (k_thr s' t) = RT_THREAD_SUSPEND \<and> timer_activated (TimerOf t) s'" if "TimerOf t \<in> set (k_tlist s')"
    using that timer_off_gone [OF sys_invD(5,3) [OF inv], of t] f(2) by simp
qed

lemma kinv_but_thr_cong:
  assumes "k_q s' = k_q s" "k_group s' = k_group s" "k_cur s' = k_cur s"
    and "\<And>u. t_tlist (k_thr s' u) = t_tlist (k_thr s u)"
    and "\<And>u. stat_of (k_thr s' u) = stat_of (k_thr s u)"
    and "\<And>u. prio_ok (k_thr s' u) = prio_ok (k_thr s u)"
    and "\<And>u. node_ok (k_thr s' u) = node_ok (k_thr s u)"
  shows "kinv_but X s' = kinv_but X s"
  using assms by (simp add: kinv_but_def links_ok_def group_ok_def link_ok_def)

text \<open>The fields the invariant reads.\<close>

lemma sys_inv_cong:
  assumes q: "k_q s' = k_q s" "k_group s' = k_group s" "k_cur s' = k_cur s"
    and f: "k_obj s' = k_obj s" "k_tlist s' = k_tlist s" "k_tmr s' = k_tmr s" "k_tick s' = k_tick s"
    and t: "\<And>u. t_tlist (k_thr s' u) = t_tlist (k_thr s u)"
      "\<And>u. stat_of (k_thr s' u) = stat_of (k_thr s u)"
      "\<And>u. prio_ok (k_thr s' u) = prio_ok (k_thr s u)"
      "\<And>u. node_ok (k_thr s' u) = node_ok (k_thr s u)"
  shows "sys_inv lo s' = sys_inv lo s"
proof -
  have "kinv s' = kinv s"
    unfolding kinv_def by (rule kinv_but_thr_cong [OF q t])
  moreover have "timers_wf lo s' = timers_wf lo s"
    by (rule timers_wf_cong) (simp_all add: f)
  moreover have "typed s' = typed s"
    unfolding typed_def t(2) timer_flag_cong(3,4) [OF f(1)] ..
  moreover have "ttimer_ok s' = ttimer_ok s"
    unfolding ttimer_ok_def t(2) timer_flag_cong(1) [OF f(1)] f(2) ..
  ultimately show ?thesis by (simp add: sys_inv_def)
qed

lemma sys_inv_error [simp]:
  "sys_inv lo (set_thr t (\<lambda>th. th\<lparr>t_error := e\<rparr>) s) = sys_inv lo s"
  by (rule sys_inv_cong) simp_all

section \<open>Resuming\<close>

text \<open>The state after \<open>rt_thread_resume\<close> of a suspended thread.\<close>

definition woken :: "ptr \<Rightarrow> kstate \<Rightarrow> kstate" where
  "woken t s = (if k_cur s = t
     then set_thr t (set_stat RT_THREAD_RUNNING) (timer_off t (tlist_remove t s))
     else inserted t (timer_off t (tlist_remove t s)))"

lemma timer_off_tlist_remove [simp]:
  "timer_activated x (tlist_remove t s) = timer_activated x s"
  "timer_obj u (tlist_remove t s) = timer_obj u s"
  "rt_object_get_type y (tlist_remove t s) = rt_object_get_type y s"
  by (rule timer_flag_cong; simp)+

lemma timer_off_list_eq:
  "k_obj s' = k_obj s \<Longrightarrow> k_tlist s' = k_tlist s \<Longrightarrow>
   k_obj (timer_off t s') = k_obj (timer_off t s) \<and> k_tlist (timer_off t s') = k_tlist (timer_off t s)"
  using timer_flag_cong(1) [of s' s "TimerOf t"] by (simp add: timer_off_def timer_deactivate_def fun_eq_iff)

lemma woken_fields [simp]:
  "k_cur (woken t s) = k_cur s" "k_lock (woken t s) = k_lock s" "k_irq (woken t s) = k_irq s"
  "k_tick (woken t s) = k_tick s" "k_tmr (woken t s) = k_tmr s"
  "k_container (woken t s) = k_container s" "k_sem (woken t s) = k_sem s"
  "k_mutex (woken t s) = k_mutex s" "k_event (woken t s) = k_event s" "k_mb (woken t s) = k_mb s"
  "k_mq (woken t s) = k_mq s" "k_mp (woken t s) = k_mp s"
  "k_obj (woken t s) = k_obj (timer_off t s)" "k_tlist (woken t s) = k_tlist (timer_off t s)"
  using timer_off_list_eq [of "tlist_remove t s" s t] by (simp_all add: woken_def)

lemma woken_thr:
  "k_thr (woken t s) u =
     (if u = t then (if t = k_cur s
        then set_stat RT_THREAD_RUNNING ((k_thr s t)\<lparr>t_tlist := None\<rparr>)
        else (set_stat RT_THREAD_READY ((k_thr s t)\<lparr>t_tlist := None\<rparr>))
               \<lparr>t_tlist := Some (Ready (prio_index t s))\<rparr>)
      else k_thr s u)"
  by (simp add: woken_def prio_index_def)

lemma woken_thr_other [simp]: "u \<noteq> t \<Longrightarrow> k_thr (woken t s) u = k_thr s u"
  by (simp add: woken_thr)

lemma woken_stat: "stat_of (k_thr (woken t s) t) = (if t = k_cur s then RT_THREAD_RUNNING else RT_THREAD_READY)"
  by (simp add: woken_thr)

lemma woken_thread_fields [simp]:
  "t_error (k_thr (woken t s) u) = t_error (k_thr s u)"
  "t_current_priority (k_thr (woken t s) u) = t_current_priority (k_thr s u)"
  "t_event_set (k_thr (woken t s) u) = t_event_set (k_thr s u)"
  "t_event_info (k_thr (woken t s) u) = t_event_info (k_thr s u)"
  by (simp_all add: woken_thr set_stat_def)

lemma woken_q:
  "(\<forall>p. q \<noteq> Ready p) \<Longrightarrow> k_q (woken t s) q = k_q (tlist_remove t s) q"
  by (simp add: woken_def)

text \<open>Freeing the node of a suspended thread touches no ready queue.\<close>

lemma unlink_suspended:
  assumes inv: "kinv_but {} s" and t: "stat_of (k_thr s t) = RT_THREAD_SUSPEND"
    and s': "k_q s' = k_q (tlist_remove t s)" "k_group s' = k_group s" "k_cur s' = k_cur s"
      "\<And>u. k_thr s' u = (if u = t then f ((k_thr s t)\<lparr>t_tlist := None\<rparr>) else k_thr s u)"
    and f: "t_tlist (f ((k_thr s t)\<lparr>t_tlist := None\<rparr>)) = None"
      "prio_ok (f ((k_thr s t)\<lparr>t_tlist := None\<rparr>))"
  shows "kinv_but {t} s'"
proof (rule kinv_butI)
  have noR: "t_tlist (k_thr s t) \<noteq> Some (Ready p)" for p
    using kinv_butD(5) [OF inv, of t] t by (simp add: node_ok_stat)
  have t0: "t \<noteq> RT_NULL"
    using t kinv_butD(7) [OF inv] by (cases "t = RT_NULL") auto
  show "links_ok s'"
    using links_ok_remove [OF kinv_butD(1) [OF inv], of t] f(1) unfolding links_ok_def s' by simp
  have "k_q s' (Ready p) = k_q s (Ready p)" for p
    using noR by (simp add: s' split: option.splits)
  then show "group_ok s'"
    using kinv_butD(2) [OF inv] by (simp add: group_ok_def s')
  fix u
  show "prio_ok (k_thr s' u)" using kinv_butD(3) [OF inv] f(2) by (simp add: s')
  show "u \<in> {t} \<Longrightarrow> link_ok u s'" using f(1) by (simp add: s' link_ok_def)
  show "u \<notin> {t} \<Longrightarrow> node_ok (k_thr s' u)" using kinv_butD(5) [OF inv, of u] by (simp add: s')
  show "u \<notin> {t} \<Longrightarrow> stat_of (k_thr s' u) = RT_THREAD_RUNNING \<Longrightarrow> u = k_cur s'"
    using kinv_butD(6) [OF inv, of u] by (simp add: s')
  show "stat_of (k_thr s' RT_NULL) = RT_THREAD_INIT"
    using kinv_butD(7) [OF inv] t0 by (simp add: s')
qed

text \<open>What \<open>rt_schedule_insert_thread\<close> makes of a thread whose node is free.\<close>

definition runnable :: "ptr \<Rightarrow> kstate \<Rightarrow> kstate" where
  "runnable t s = (if k_cur s = t then set_thr t (set_stat RT_THREAD_RUNNING) s else inserted t s)"

lemma runnable_inv:
  assumes but: "kinv_but {t} s" and t0: "t \<noteq> RT_NULL"
    and mask: "t_number_mask (k_thr s t) = prio_mask (t_current_priority (k_thr s t))"
  shows "rt_schedule_insert_thread t s = Some (runnable t s)" and "kinv (runnable t s)"
proof -
  show "rt_schedule_insert_thread t s = Some (runnable t s)"
  proof (cases "k_cur s = t")
    case True
    then show ?thesis
      using t0 by (simp add: rt_schedule_insert_thread_def runnable_def)
  next
    case False
    then show ?thesis
      using insert_thread_but(1) [OF but _ t0 _ mask] by (simp add: runnable_def)
  qed
  have "kinv_but ({t} - {t}) (runnable t s)"
  proof (cases "k_cur s = t")
    case True
    have "prio_ok (set_stat RT_THREAD_RUNNING (k_thr s t))"
      by (rule prio_ok_live [OF kinv_butD(3) [OF but] mask])
    then have "kinv_but ({t} - {t}) (set_thr t (set_stat RT_THREAD_RUNNING) s)"
      using True t0 kinv_butD(4) [OF but, of t]
      by (intro settle_thread [OF but]) (auto simp: node_ok_stat link_ok_def)
    then show ?thesis using True by (simp add: runnable_def)
  next
    case False
    then show ?thesis
      using insert_thread_but(2) [OF but _ t0 _ mask] by (simp add: runnable_def)
  qed
  then show "kinv (runnable t s)" by (simp add: kinv_def)
qed

lemma woken_runnable: "woken t s = runnable t (timer_off t (tlist_remove t s))"
  by (simp add: woken_def runnable_def)

lemma suspended_mask:
  "sys_inv lo s \<Longrightarrow> stat_of (k_thr s t) = RT_THREAD_SUSPEND \<Longrightarrow>
   t \<noteq> RT_NULL \<and> t_number_mask (k_thr s t) = prio_mask (t_current_priority (k_thr s t))"
  using live_mask [OF kinv_butD(3) [OF sys_invD(2), of lo s t]] live_is_thread [of lo s t]
  by (auto simp: is_thread_def)

lemma wake_kinv:
  assumes inv: "sys_inv lo s" and t: "stat_of (k_thr s t) = RT_THREAD_SUSPEND"
    and s1: "k_q s1 = k_q (tlist_remove t s)" "k_group s1 = k_group s" "k_cur s1 = k_cur s"
      "\<And>u. k_thr s1 u = (if u = t then (k_thr s t)\<lparr>t_tlist := None\<rparr> else k_thr s u)"
  shows "rt_schedule_insert_thread t s1 = Some (runnable t s1)" and "kinv (runnable t s1)"
proof -
  note inv0 = sys_invD(2) [OF inv]
  have "kinv_but {t} s1"
    using kinv_butD(3) [OF inv0] s1
    by (intro unlink_suspended [OF inv0 t, where f = "\<lambda>th. th"]) simp_all
  from runnable_inv [OF this] show "rt_schedule_insert_thread t s1 = Some (runnable t s1)"
    "kinv (runnable t s1)"
    using suspended_mask [OF inv t] s1(4) by simp_all
qed

lemma resume_woken:
  assumes inv: "sys_inv lo s" and t: "stat_of (k_thr s t) = RT_THREAD_SUSPEND"
  shows "rt_thread_resume t s = Some (RT_EOK, woken t s)" and "sys_inv lo (woken t s)"
proof -
  have th: "is_thread t s" using live_is_thread [OF inv, of t] t by simp
  have "timer_obj t s" using typedD(2) [OF sys_invD(4) [OF inv], of t] t by simp
  then obtain r where "rt_timer_stop (TimerOf t) (tlist_remove t s) = Some (r, timer_off t (tlist_remove t s))"
    using rt_timer_stop_off [of t "tlist_remove t s"] by auto
  then show "rt_thread_resume t s = Some (RT_EOK, woken t s)"
    using th t wake_kinv(1) [OF inv t, of "timer_off t (tlist_remove t s)"]
    by (simp add: rt_thread_resume_def woken_runnable)
  have "kinv (woken t s)"
    unfolding woken_runnable by (rule wake_kinv(2) [OF inv t]) simp_all
  then show "sys_inv lo (woken t s)"
    using t by (intro sys_inv_off_step [where t = t, OF inv]) simp_all
qed


section \<open>Suspending and sleeping\<close>

text \<open>The state after \<open>rt_thread_suspend\<close> of a READY thread or of the running one.\<close>

definition suspended :: "ptr \<Rightarrow> kstate \<Rightarrow> kstate" where
  "suspended t s = timer_off t (set_thr t (set_stat RT_THREAD_SUSPEND) (removed t s))"

lemma suspended_fields [simp]:
  "k_cur (suspended t s) = k_cur s" "k_lock (suspended t s) = k_lock s"
  "k_irq (suspended t s) = k_irq s" "k_tick (suspended t s) = k_tick s"
  "k_tmr (suspended t s) = k_tmr s" "k_container (suspended t s) = k_container s"
  "k_sem (suspended t s) = k_sem s" "k_mutex (suspended t s) = k_mutex s"
  "k_event (suspended t s) = k_event s" "k_mb (suspended t s) = k_mb s"
  "k_mq (suspended t s) = k_mq s" "k_mp (suspended t s) = k_mp s"
  "k_obj (suspended t s) = k_obj (timer_off t s)" "k_tlist (suspended t s) = k_tlist (timer_off t s)"
  using timer_off_list_eq [of "set_thr t (set_stat RT_THREAD_SUSPEND) (removed t s)" s t]
  by (simp_all add: suspended_def)

lemma suspended_thr [simp]:
  "k_thr (suspended t s) u =
     (if u = t then set_stat RT_THREAD_SUSPEND ((k_thr s t)\<lparr>t_tlist := None\<rparr>) else k_thr s u)"
  by (simp add: suspended_def)

lemma suspended_q [simp]: "k_q (suspended t s) = k_q (tlist_remove t s)"
  by (simp add: suspended_def)

lemma suspended_inv:
  assumes inv: "sys_inv lo s"
    and t: "stat_of (k_thr s t) = RT_THREAD_READY \<or> stat_of (k_thr s t) = RT_THREAD_RUNNING"
  shows "rt_thread_suspend t s = Some (RT_EOK, suspended t s)" and "sys_inv lo (suspended t s)"
proof -
  note inv0 = sys_invD(2) [OF inv]
  have live: "stat_of (k_thr s t) \<in> {RT_THREAD_READY, RT_THREAD_SUSPEND, RT_THREAD_RUNNING}"
    using t by auto
  have th: "is_thread t s" using live_is_thread [OF inv live] .
  then have t0: "t \<noteq> RT_NULL" by (simp add: is_thread_def)
  have cur: "stat_of (k_thr s t) = RT_THREAD_RUNNING \<longrightarrow> t = k_cur s"
    using kinv_butD(6) [OF inv0, of t] by simp
  let ?s1 = "set_thr t (set_stat RT_THREAD_SUSPEND) (removed t s)"
  have "timer_obj t ?s1"
    using typedD(2) [OF sys_invD(4) [OF inv] live] timer_flag_cong(3) [of ?s1 s t] by simp
  then obtain r where "rt_timer_stop (TimerOf t) ?s1 = Some (r, suspended t s)"
    using rt_timer_stop_off [of t ?s1] by (auto simp: suspended_def)
  then show "rt_thread_suspend t s = Some (RT_EOK, suspended t s)"
    using th t cur remove_thread_but(1) [OF inv0 t0]
    by (simp add: rt_thread_suspend_def rt_thread_self_def Let_def)
  have "prio_ok (set_stat RT_THREAD_SUSPEND (k_thr (removed t s) t))"
    using kinv_butD(3) [OF inv0, of t] live_mask [OF kinv_butD(3) [OF inv0, of t] live]
    by (intro prio_ok_live) simp_all
  then have "kinv_but (insert t {} - {t}) ?s1"
    using t0 by (intro settle_thread remove_thread_but(2) [OF inv0]) (simp_all add: node_ok_stat link_ok_def)
  moreover have "kinv_but X (timer_off t ?s1) = kinv_but X ?s1" for X
    by (rule kinv_but_cong) simp_all
  ultimately have "kinv (suspended t s)"
    by (simp add: kinv_def suspended_def)
  then show "sys_inv lo (suspended t s)"
    using live by (intro sys_inv_off_step [where t = t, OF inv]) simp_all
qed

text \<open>\<open>rt_thread_suspend\<close> of a READY thread or of the running one never faults, frees its node
  and stops its timer, makes it SUSPEND, and keeps the system invariant.\<close>

theorem rt_thread_suspend_correct:
  assumes inv: "sys_inv lo s"
    and t: "stat_of (k_thr s t) = RT_THREAD_READY \<or> stat_of (k_thr s t) = RT_THREAD_RUNNING"
  shows "\<exists>s'. rt_thread_suspend t s = Some (RT_EOK, s') \<and> sys_inv lo s' \<and>
           stat_of (k_thr s' t) = RT_THREAD_SUSPEND \<and> (\<forall>q. t \<notin> set (k_q s' q)) \<and>
           TimerOf t \<notin> set (k_tlist s') \<and> (\<forall>u. u \<noteq> t \<longrightarrow> k_thr s' u = k_thr s u)"
proof -
  have "t \<notin> set (k_q (suspended t s) q)" for q
    using links_okD(2) [OF kinv_butD(1) [OF sys_invD(2) [OF suspended_inv(2) [OF inv t]]], of t q]
    by simp
  then show ?thesis
    using suspended_inv [OF inv t] timer_off_gone [OF sys_invD(5,3) [OF inv]] by simp
qed

text \<open>\<open>rt_thread_resume\<close> of a suspended thread never faults, takes it out of the list it waits in
  and stops its timer, makes it READY (RUNNING when it is the current thread) and keeps the system
  invariant.\<close>

theorem rt_thread_resume_correct:
  assumes inv: "sys_inv lo s" and t: "stat_of (k_thr s t) = RT_THREAD_SUSPEND"
  shows "\<exists>s'. rt_thread_resume t s = Some (RT_EOK, s') \<and> sys_inv lo s' \<and>
           stat_of (k_thr s' t) = (if t = k_cur s then RT_THREAD_RUNNING else RT_THREAD_READY) \<and>
           (\<forall>x. t \<notin> set (k_q s' (Susp x)) \<and> t \<notin> set (k_q s' (Sender x))) \<and>
           TimerOf t \<notin> set (k_tlist s') \<and> (\<forall>u. u \<noteq> t \<longrightarrow> k_thr s' u = k_thr s u)"
proof -
  have "t \<notin> set (k_q (woken t s) q)" if "\<forall>p. q \<noteq> Ready p" for q
    using links_okD(2) [OF kinv_butD(1) [OF sys_invD(2) [OF resume_woken(2) [OF inv t]]], of t q] that
    by (auto simp: woken_thr split: if_splits)
  then show ?thesis
    using resume_woken [OF inv t] timer_off_gone [OF sys_invD(5,3) [OF inv]] woken_stat [of t s]
    by simp
qed


text \<open>The thread's timer running, for \<open>tick\<close> ticks.\<close>

definition timed :: "ptr \<Rightarrow> u32 \<Rightarrow> kstate \<Rightarrow> kstate" where
  "timed t tick s = timer_started (TimerOf t) (set_tmr (TimerOf t) (\<lambda>tm. tm\<lparr>tm_init_tick := tick\<rparr>) s)"

lemma timed_fields [simp]:
  "k_cur (timed t tick s) = k_cur s" "k_lock (timed t tick s) = k_lock s"
  "k_irq (timed t tick s) = k_irq s" "k_tick (timed t tick s) = k_tick s"
  "k_q (timed t tick s) = k_q s" "k_thr (timed t tick s) = k_thr s"
  "k_group (timed t tick s) = k_group s" "k_container (timed t tick s) = k_container s"
  "k_sem (timed t tick s) = k_sem s" "k_mutex (timed t tick s) = k_mutex s"
  "k_event (timed t tick s) = k_event s" "k_mb (timed t tick s) = k_mb s"
  "k_mq (timed t tick s) = k_mq s" "k_mp (timed t tick s) = k_mp s"
  by (simp_all add: timed_def)

lemma timed_inv:
  assumes inv: "sys_inv lo s" and lo: "-1 \<le> lo" "lo \<le> 0"
    and t: "stat_of (k_thr s t) = RT_THREAD_SUSPEND" and tick: "tick < TICK_HALF"
  shows "sleep_timer t tick s = Some (timed t tick s)" and "sys_inv lo (timed t tick s)"
    and "TimerOf t \<in> set (k_tlist (timed t tick s))"
    and "trem (timed t tick s) (TimerOf t) = sint tick"
proof -
  let ?x = "TimerOf t" and ?s1 = "set_tmr (TimerOf t) (\<lambda>tm. tm\<lparr>tm_init_tick := tick\<rparr>) s"
  have ob: "timer_obj t s" using typedD(2) [OF sys_invD(4) [OF inv]] t by simp
  have "rt_timer_start ?x ?s1 = Some (RT_EOK, timed t tick s)"
    unfolding rt_timer_start_Some timed_def using ob tick by (simp add: timer_obj_def)
  then show "sleep_timer t tick s = Some (timed t tick s)"
    using ob by (simp add: sleep_timer_def rt_timer_control_def timer_obj_def)
  have "trem ?s1 = trem s" by (auto simp: fun_eq_iff trem_def)
  then have "timers_wf lo ?s1"
    using sys_invD(3) [OF inv] by (simp add: timers_wf_def)
  then have st: "\<exists>s'. rt_timer_start ?x ?s1 = Some (RT_EOK, s') \<and> timers_wf lo s' \<and>
      k_tlist s' = filter (\<lambda>y. trem s' y \<le> trem s' ?x) (remove1 ?x (k_tlist ?s1)) @
                        ?x # filter (\<lambda>y. trem s' ?x < trem s' y) (remove1 ?x (k_tlist ?s1))"
    using timer_start_ordered [of lo ?s1 ?x] lo ob tick by (auto simp: timer_obj_def)
  then have tw: "timers_wf lo (timed t tick s)"
    and l: "set (k_tlist (timed t tick s)) = insert ?x (set (remove1 ?x (k_tlist s)))"
    by (auto simp: rt_timer_start_Some timed_def)
  show "?x \<in> set (k_tlist (timed t tick s))" using l by simp
  show "trem (timed t tick s) ?x = sint tick" by (simp add: timed_def trem_started)
  have "kinv (timed t tick s)"
    using sys_invD(2) [OF inv] kinv_but_cong [of "timed t tick s" s "{}"] by (simp add: kinv_def)
  then show "sys_inv lo (timed t tick s)"
    using tw t l set_remove1_subset [of ?x "k_tlist s"]
    by (intro sys_inv_step [where t = t, OF inv]) (auto simp: timed_def timer_obj_def)
qed

text \<open>A switch keeps the system invariant.\<close>

lemma schedule_sys_inv:
  assumes inv: "sys_inv lo s" and cur: "k_cur s \<noteq> RT_NULL"
  shows "\<exists>s'. rt_schedule s = Some s' \<and> sys_inv lo s' \<and> sched_frame s s' \<and> k_cur s' \<noteq> RT_NULL"
proof -
  obtain s' where s': "rt_schedule s = Some s'" "kinv s'" "k_cur s' \<noteq> RT_NULL"
    using rt_schedule_total [OF sys_invD(1) [OF inv] cur] by blast
  note fr = rt_schedule_frame [OF sys_invD(1) [OF inv] cur s'(1)]
  note st = rt_schedule_stat [OF sys_invD(1) [OF inv] cur s'(1)]
  have "timers_wf lo s'"
    using sys_invD(3) [OF inv] sched_frameD(3,6,7) [OF fr] by (subst timers_wf_cong [of s' s]) simp_all
  moreover have "typed s'"
    unfolding typed_def timer_flag_cong(3,4) [OF sched_frameD(4) [OF fr]]
  proof (intro allI)
    fix t
    show "(stat_of (k_thr s' t) \<in> {1, 2, 3} \<longrightarrow> rt_object_get_type (Obj t) s = 1) \<and>
        (stat_of (k_thr s' t) \<noteq> 4 \<and> rt_object_get_type (Obj t) s = 1 \<longrightarrow> timer_obj t s)"
    proof (cases "stat_of (k_thr s' t) = stat_of (k_thr s t)")
      case True
      then show ?thesis using sys_invD(4) [OF inv] by (simp add: typed_def)
    next
      case False
      then show ?thesis using typedD [OF sys_invD(4) [OF inv], of t] st [of t] by auto
    qed
  qed
  moreover have "ttimer_ok s'"
    unfolding ttimer_ok_def
  proof (intro allI impI)
    fix t
    assume "TimerOf t \<in> set (k_tlist s')"
    then have "stat_of (k_thr s t) = RT_THREAD_SUSPEND" "timer_activated (TimerOf t) s"
      using sched_frameD(7) [OF fr] sys_invD(5) [OF inv] by (auto simp: ttimer_ok_def)
    then show "stat_of (k_thr s' t) = RT_THREAD_SUSPEND \<and> timer_activated (TimerOf t) s'"
      using st [of t] timer_flag_cong(1) [OF sched_frameD(4) [OF fr]] by auto
  qed
  ultimately show ?thesis using s' fr by (auto simp: sys_inv_def)
qed


text \<open>The common core of the sleeping calls: suspend, set the timer, switch.\<close>

lemma sleep_core:
  assumes inv: "sys_inv 0 s" and cur: "k_cur s \<noteq> RT_NULL"
    and run: "stat_of (k_thr s (k_cur s)) = RT_THREAD_RUNNING"
    and ready: "k_lock s = 0" "stat_of (k_thr s u) = RT_THREAD_READY" and tick: "tick < TICK_HALF"
  defines "s2 \<equiv> timed (k_cur s) tick (suspended (k_cur s) s)"
  shows "\<exists>s'. rt_thread_suspend (k_cur s) s = Some (RT_EOK, suspended (k_cur s) s) \<and>
           sleep_timer (k_cur s) tick (suspended (k_cur s) s) = Some s2 \<and> rt_schedule s2 = Some s' \<and>
           sys_inv 0 s' \<and> stat_of (k_thr s' (k_cur s)) = RT_THREAD_SUSPEND \<and>
           TimerOf (k_cur s) \<in> set (k_tlist s') \<and> trem s' (TimerOf (k_cur s)) = sint tick \<and>
           stat_of (k_thr s' (k_cur s')) = RT_THREAD_RUNNING \<and> k_cur s' \<noteq> k_cur s"
proof -
  let ?t = "k_cur s" and ?s1 = "suspended (k_cur s) s"
  have sus: "rt_thread_suspend ?t s = Some (RT_EOK, ?s1)" "sys_inv 0 ?s1"
    using suspended_inv [OF inv] run by auto
  have st: "stat_of (k_thr ?s1 ?t) = RT_THREAD_SUSPEND" by simp
  have tm: "sleep_timer ?t tick ?s1 = Some s2" "sys_inv 0 s2" "TimerOf ?t \<in> set (k_tlist s2)"
    "trem s2 (TimerOf ?t) = sint tick"
    using timed_inv [OF sus(2) _ _ st tick] by (auto simp: s2_def)
  have c2: "k_cur s2 = k_cur s" "k_lock s2 = k_lock s" by (simp_all add: s2_def)
  have u: "u \<noteq> ?t" using ready(2) run by auto
  then have "u \<in> set (k_q s2 (Ready (unat (t_current_priority (k_thr s2 u)))))"
    using ready_member [OF sys_invD(2) [OF tm(2)], of u] ready(2) by (simp add: s2_def)
  then have group: "k_group s2 \<noteq> 0"
    using kinv_butD(2) [OF sys_invD(2) [OF tm(2)]] ready_queue(4) [OF sys_invD(2) [OF tm(2)]]
    unfolding group_ok_def by (metis bit_0_eq bot_apply bot_bool_def empty_iff list.set(1))
  obtain s' where s': "rt_schedule s2 = Some s'" "sys_inv 0 s'" "sched_frame s2 s'"
    using schedule_sys_inv [OF tm(2)] cur c2 by auto
  have hi: "stat_of (k_thr s' (k_cur s')) = RT_THREAD_RUNNING"
    using schedule_highest [OF sys_invD(1) [OF tm(2)] _ _ group] cur ready(1) s'(1) c2 by auto
  have sleeping: "stat_of (k_thr s' ?t) = RT_THREAD_SUSPEND"
    using rt_schedule_stat [OF sys_invD(1) [OF tm(2)] _ s'(1), of ?t] cur c2 by (simp add: s2_def)
  moreover have "trem s' (TimerOf ?t) = sint tick"
    using tm(4) sched_frameD(3,6) [OF s'(3)] by (simp add: trem_def)
  ultimately show ?thesis
    using sus tm s' hi sched_frameD(7) [OF s'(3)] by auto
qed

text \<open>\<open>rt_thread_sleep\<close> by the running thread, for fewer than \<open>RT_TICK_MAX / 2\<close> ticks and with
  some other thread ready and the scheduler unlocked, does not fault: it blocks the thread, whose
  timer runs for \<open>tick\<close> ticks, hands the processor to another thread and keeps the system
  invariant.\<close>

theorem rt_thread_sleep_blocks:
  assumes inv: "sys_inv 0 s" and cur: "k_cur s \<noteq> RT_NULL"
    and run: "stat_of (k_thr s (k_cur s)) = RT_THREAD_RUNNING"
    and ready: "k_lock s = 0" "stat_of (k_thr s u) = RT_THREAD_READY" and tick: "tick < TICK_HALF"
  shows "\<exists>s'. rt_thread_sleep tick s = Some (Blocked, s') \<and> sys_inv 0 s' \<and>
           stat_of (k_thr s' (k_cur s)) = RT_THREAD_SUSPEND \<and>
           TimerOf (k_cur s) \<in> set (k_tlist s') \<and> trem s' (TimerOf (k_cur s)) = sint tick \<and>
           stat_of (k_thr s' (k_cur s')) = RT_THREAD_RUNNING"
proof -
  have "is_thread (k_cur s) s" using live_is_thread [OF inv] run by simp
  then show ?thesis
    using sleep_core [OF assms] by (auto simp: rt_thread_sleep_def rt_thread_self_def)
qed

text \<open>\<open>rt_thread_delay_until\<close>, called \<open>now - tick\<close> ticks after the last wakeup, sleeps for
  \<open>(now - tick) + inc_tick\<close> ticks. Its comment promises a delay until \<open>tick + inc_tick\<close>, which is
  \<open>inc_tick - (now - tick)\<close> ticks away; the two agree only when no time has passed.\<close>

theorem rt_thread_delay_until_overshoots:
  assumes inv: "sys_inv 0 s" and cur: "k_cur s \<noteq> RT_NULL"
    and run: "stat_of (k_thr s (k_cur s)) = RT_THREAD_RUNNING"
    and ready: "k_lock s = 0" "stat_of (k_thr s u) = RT_THREAD_READY"
    and early: "k_tick s - tick < inc_tick" and small: "k_tick s - tick + inc_tick < TICK_HALF"
  shows "\<exists>s'. rt_thread_delay_until tick inc_tick s = Some (Blocked, k_tick s - tick + inc_tick, s') \<and>
           sys_inv 0 s' \<and> trem s' (TimerOf (k_cur s)) = sint (k_tick s - tick + inc_tick) \<and>
           (k_tick s + (k_tick s - tick + inc_tick) = tick + inc_tick \<longleftrightarrow> 2 * (k_tick s - tick) = 0)"
proof -
  have "is_thread (k_cur s) s" using live_is_thread [OF inv] run by simp
  moreover have "k_tick s + (k_tick s - tick + inc_tick) = tick + inc_tick \<longleftrightarrow> 2 * (k_tick s - tick) = 0"
    by (simp add: algebra_simps)
  ultimately show ?thesis
    using sleep_core [OF inv cur run ready small] early
    by (auto simp: rt_thread_delay_until_def rt_thread_self_def)
qed

text \<open>A thread that has the processor or waits for it.\<close>

definition runs :: "ptr \<Rightarrow> kstate \<Rightarrow> bool" where
  "runs t s \<longleftrightarrow> stat_of (k_thr s t) \<in> {RT_THREAD_READY, RT_THREAD_RUNNING}"

lemma thread_timeout_core:
  assumes inv: "sys_inv lo s" and t: "stat_of (k_thr s t) = RT_THREAD_SUSPEND" "TimerOf t \<notin> set (k_tlist s)"
  defines "s2 \<equiv> runnable t (tlist_remove t (set_thr t (\<lambda>th. th\<lparr>t_error := - RT_ETIMEOUT\<rparr>) s))"
  shows "rt_thread_timeout t s = rt_schedule s2" and "sys_inv lo s2"
    and "k_obj s2 = k_obj s" and "k_tlist s2 = k_tlist s" and "k_tmr s2 = k_tmr s" and "k_tick s2 = k_tick s"
    and "k_cur s2 = k_cur s" and "u \<noteq> t \<Longrightarrow> k_thr s2 u = k_thr s u"
    and "stat_of (k_thr s2 t) \<in> {RT_THREAD_READY, RT_THREAD_RUNNING}" and "t_error (k_thr s2 t) = - RT_ETIMEOUT"
proof -
  let ?s1 = "set_thr t (\<lambda>th. th\<lparr>t_error := - RT_ETIMEOUT\<rparr>) s"
  have inv1: "sys_inv lo ?s1" using inv by simp
  have wake: "rt_schedule_insert_thread t (tlist_remove t ?s1) = Some s2" "kinv s2"
    unfolding s2_def using t(1) by (intro wake_kinv [OF inv1]; simp)+
  show f: "k_obj s2 = k_obj s" "k_tlist s2 = k_tlist s" "k_tmr s2 = k_tmr s" "k_tick s2 = k_tick s"
    "k_cur s2 = k_cur s" "\<And>u. u \<noteq> t \<Longrightarrow> k_thr s2 u = k_thr s u"
    "stat_of (k_thr s2 t) \<in> {RT_THREAD_READY, RT_THREAD_RUNNING}"
    "t_error (k_thr s2 t) = - RT_ETIMEOUT"
    by (simp_all add: s2_def runnable_def)
  have "timers_wf lo s2"
    using sys_invD(3) [OF inv] by (subst timers_wf_cong [of _ s]) (simp_all add: f)
  then show "sys_inv lo s2"
    using t wake(2) f(2,6) timer_flag_cong [OF f(1)]
    by (intro sys_inv_step [where t = t, OF inv]) simp_all
  have "is_thread t s" using live_is_thread [OF inv, of t] t(1) by simp
  then show "rt_thread_timeout t s = rt_schedule s2"
    using t(1) wake(1) by (simp add: rt_thread_timeout_def is_thread_def)
qed

lemma thread_timeout_wakes:
  assumes inv: "sys_inv lo s" and cur: "k_cur s \<noteq> RT_NULL"
    and t: "stat_of (k_thr s t) = RT_THREAD_SUSPEND" "TimerOf t \<notin> set (k_tlist s)"
  shows "\<exists>s'. rt_thread_timeout t s = Some s' \<and> sys_inv lo s' \<and> k_cur s' \<noteq> RT_NULL \<and>
           stat_of (k_thr s' t) \<in> {RT_THREAD_READY, RT_THREAD_RUNNING} \<and>
           t_error (k_thr s' t) = - RT_ETIMEOUT \<and> k_tlist s' = k_tlist s \<and> k_tick s' = k_tick s \<and>
           k_tmr s' = k_tmr s \<and> k_obj s' = k_obj s \<and>
           (\<forall>u. runs u s \<longrightarrow> runs u s')"
proof -
  let ?s2 = "runnable t (tlist_remove t (set_thr t (\<lambda>th. th\<lparr>t_error := - RT_ETIMEOUT\<rparr>) s))"
  note core = thread_timeout_core [OF inv t]
  obtain s' where s': "rt_schedule ?s2 = Some s'" "sys_inv lo s'" "sched_frame ?s2 s'" "k_cur s' \<noteq> RT_NULL"
    using schedule_sys_inv [OF core(2)] core(7) cur by auto
  have "stat_of (k_thr s' t) \<in> {RT_THREAD_READY, RT_THREAD_RUNNING}"
    using rt_schedule_stat [OF sys_invD(1) [OF core(2)] _ s'(1), of t] core(7,9) cur by auto
  moreover have "runs u s'" if "runs u s" for u
  proof -
    have "runs u ?s2" using that core(8) [of u] core(9) by (cases "u = t") (auto simp: runs_def)
    then show ?thesis
      using rt_schedule_stat [OF sys_invD(1) [OF core(2)] _ s'(1), of u] core(7) cur by (auto simp: runs_def)
  qed
  ultimately show ?thesis
    unfolding core(1)
    using s' core(3-6,10) sched_frameD(3,4,6,7) [OF s'(3)] sched_frameD(15) [OF s'(3), of t] by simp
qed


text \<open>The timer of a suspended thread fires: \<open>rt_thread_timeout\<close> takes the thread out of its
  waiting list, makes it READY or lets it run, and leaves the timeout error for it; the system
  invariant holds again.\<close>

theorem rt_thread_timeout_wakes:
  assumes inv: "sys_inv lo s" and cur: "k_cur s \<noteq> RT_NULL"
    and t: "stat_of (k_thr s t) = RT_THREAD_SUSPEND" "TimerOf t \<notin> set (k_tlist s)"
  shows "\<exists>s'. rt_thread_timeout t s = Some s' \<and> sys_inv lo s' \<and> k_cur s' \<noteq> RT_NULL \<and>
           stat_of (k_thr s' t) \<in> {RT_THREAD_READY, RT_THREAD_RUNNING} \<and>
           t_error (k_thr s' t) = - RT_ETIMEOUT \<and> k_tlist s' = k_tlist s \<and> k_tick s' = k_tick s \<and>
           k_tmr s' = k_tmr s \<and> k_obj s' = k_obj s"
  using thread_timeout_wakes [OF assms] by blast

section \<open>Yielding and milliseconds\<close>

text \<open>\<open>rt_thread_yield\<close> only calls \<open>rt_schedule\<close>: while the yield flag is clear and no READY
  thread has a higher priority, the caller keeps the processor, also when threads of its own
  priority wait for it. Its comment says that it lets the current thread yield the processor.\<close>

theorem rt_thread_yield_keeps_running:
  assumes "kinv s" and "k_cur s \<noteq> RT_NULL"
    and "stat_of (k_thr s (k_cur s)) = RT_THREAD_RUNNING" "\<not> yielding (k_thr s (k_cur s))"
    and "\<forall>q < prio_index (k_cur s) s. k_q s (Ready q) = []"
  shows "\<exists>s'. rt_thread_yield s = Some (RT_EOK, s') \<and> k_cur s' = k_cur s \<and> k_q s' = k_q s"
  using rt_schedule_keeps_running [OF assms] by (auto simp: rt_thread_yield_def)

text \<open>At 1000 ticks per second, \<open>rt_tick_from_millisecond\<close> is the identity on non-negative
  arguments, without overflow, and \<open>RT_WAITING_FOREVER\<close> on negative ones.\<close>

theorem rt_tick_from_millisecond_value:
  "rt_tick_from_millisecond ms = (if sint ms < 0 then - 1 else ms)"
proof (cases "sint ms < 0")
  case False
  have "ms mod 1000 < 1000" by (simp add: word_mod_less_divisor)
  then have r: "unat (ms mod 1000) < 1000" by (simp add: word_less_nat_alt)
  have "unat (1000 * (ms mod 1000) + 999) = 1000 * unat (ms mod 1000) + 999"
    using r by (simp add: unat_word_ariths)
  then have "unat ((1000 * (ms mod 1000) + 999) div 1000) = unat (ms mod 1000)"
    by (simp add: unat_div)
  then have "(1000 * (ms mod 1000) + 999) div 1000 = ms mod 1000"
    by (simp only: word_unat_eq_iff)
  then show ?thesis
    using False by (simp add: rt_tick_from_millisecond_def mult_div_mod_eq)
qed (simp add: rt_tick_from_millisecond_def)

text \<open>A negative argument of \<open>rt_thread_mdelay\<close>, documented as waiting forever, makes the timer
  of the sleeping thread fail the assertion on its time.\<close>

theorem rt_thread_mdelay_negative: "sint ms < 0 \<Longrightarrow> rt_thread_mdelay ms s = None"
proof -
  have start: "rt_timer_start x s' = None" if "tm_init_tick (k_tmr s' x) = - 1" for x s'
  proof -
    have "\<not> (- 1 :: u32) < TICK_HALF" by (simp add: less_half)
    then show ?thesis using that rt_timer_start_Some [of x s'] by (cases "rt_timer_start x s'") auto
  qed
  have "sleep_timer t (- 1) s' = None" for t s'
    by (auto simp: sleep_timer_def rt_timer_control_def start)
  then show "sint ms < 0 \<Longrightarrow> rt_thread_mdelay ms s = None"
    by (auto simp: rt_thread_mdelay_def rt_thread_sleep_def rt_tick_from_millisecond_value
        bind_eq_None_conv Let_def split: option.splits)
qed


section \<open>Starting, changing priority, ending\<close>

text \<open>\<open>rt_thread_startup\<close> of an initialised thread makes it READY, or RUNNING at once when it
  has to run first, at its initial priority with the matching bitmap mask, and keeps the system
  invariant.\<close>

theorem rt_thread_startup_ready:
  assumes inv: "sys_inv lo s" and cur: "t \<noteq> k_cur s"
    and t: "stat_of (k_thr s t) = RT_THREAD_INIT" "is_thread t s"
    and idle: "TimerOf t \<notin> set (k_tlist s)"
  shows "\<exists>s'. rt_thread_startup t s = Some (RT_EOK, s') \<and> sys_inv lo s' \<and>
           stat_of (k_thr s' t) \<in> {RT_THREAD_READY, RT_THREAD_RUNNING} \<and>
           t_current_priority (k_thr s' t) = t_init_priority (k_thr s t)"
proof -
  let ?f = "\<lambda>th. th\<lparr>t_current_priority := t_init_priority th,
        t_number_mask := prio_mask (t_init_priority th), t_stat := RT_THREAD_SUSPEND\<rparr>"
  let ?s1 = "set_thr t ?f s"
  note inv0 = sys_invD(2) [OF inv]
  have t0: "t \<noteq> RT_NULL" using t(2) by (simp add: is_thread_def)
  have free: "t_tlist (k_thr s t) = None"
    using kinv_butD(5) [OF inv0, of t] t(1) by (simp add: node_ok_stat)
  have sus: "stat_of (th\<lparr>t_stat := 2\<rparr>) = 2" for th
    by (simp add: stat_of_def RT_THREAD_STAT_MASK_def)
  have pr: "prio_ok (?f (k_thr s t))"
    using kinv_butD(3) [OF inv0, of t] by (simp add: prio_ok_def)
  have "kinv_but ({} - {t}) ?s1"
    using t0 pr free by (intro settle_thread [OF inv0]) (simp_all add: node_ok_stat sus link_ok_def)
  then have k: "kinv ?s1" by (simp add: kinv_def)
  have "timer_obj t s"
    using sys_invD(4) [OF inv] t by (simp add: typed_def is_thread_def)
  then have "typed ?s1"
    using sys_invD(4) [OF inv] t(2) timer_flag_cong(3,4) [of ?s1 s]
    unfolding typed_def is_thread_def by (simp add: sus)
  moreover have "ttimer_ok ?s1"
    using sys_invD(5) [OF inv] idle timer_flag_cong(1) [of ?s1 s]
    by (auto simp: ttimer_ok_def)
  moreover have "timers_wf lo ?s1"
    using sys_invD(3) [OF inv] by (subst timers_wf_cong [of _ s]) simp_all
  ultimately have inv1: "sys_inv lo ?s1" using k by (simp add: sys_inv_def)
  have st1: "stat_of (k_thr ?s1 t) = RT_THREAD_SUSPEND" by (simp add: sus)
  have res: "rt_thread_resume t ?s1 = Some (RT_EOK, woken t ?s1)" "sys_inv lo (woken t ?s1)"
    using resume_woken [OF inv1 st1] by auto
  have rd: "stat_of (k_thr (woken t ?s1) t) = RT_THREAD_READY"
    using woken_stat [of t ?s1] cur by simp
  have pr': "t_current_priority (k_thr (woken t ?s1) t) = t_init_priority (k_thr s t)" by simp
  show ?thesis
  proof (cases "k_cur s = RT_NULL")
    case True
    then have "rt_thread_startup t s = Some (RT_EOK, woken t ?s1)"
      using t t0 res(1) by (simp add: rt_thread_startup_def rt_thread_self_def)
    then show ?thesis using res(2) rd pr' by blast
  next
    case False
    then obtain s' where s': "rt_schedule (woken t ?s1) = Some s'" "sys_inv lo s'"
      "sched_frame (woken t ?s1) s'"
      using schedule_sys_inv [OF res(2)] by auto
    then have "rt_thread_startup t s = Some (RT_EOK, s')"
      using t t0 res(1) False by (simp add: rt_thread_startup_def rt_thread_self_def)
    moreover have "stat_of (k_thr s' t) \<in> {RT_THREAD_READY, RT_THREAD_RUNNING}"
      using rt_schedule_stat [OF sys_invD(1) [OF res(2)] _ s'(1), of t] False rd by auto
    moreover have "t_current_priority (k_thr s' t) = t_init_priority (k_thr s t)"
      using sched_frameD(16) [OF s'(3), of t] pr' by simp
    ultimately show ?thesis using s'(2) by blast
  qed
qed

text \<open>A change of priority moves a READY thread to the end of its new queue.\<close>

definition repriced :: "ptr \<Rightarrow> u8 \<Rightarrow> kstate \<Rightarrow> kstate" where
  "repriced t p = set_thr t (\<lambda>th. th\<lparr>t_current_priority := p, t_number_mask := prio_mask p\<rparr>)"

lemma stat_of_repriced [simp]:
  "stat_of (th\<lparr>t_current_priority := p, t_number_mask := m\<rparr>) = stat_of th"
  by (simp add: stat_of_def)

lemma change_priority_inv:
  assumes inv: "sys_inv lo s" and p: "p < 32" and t0: "t \<noteq> RT_NULL"
    and cur: "t = k_cur s \<longrightarrow> stat_of (k_thr s t) \<noteq> RT_THREAD_READY"
  shows "\<exists>s'. change_priority t p s = Some s' \<and> sys_inv lo s' \<and> k_cur s' = k_cur s \<and>
           (\<forall>u. stat_of (k_thr s' u) = stat_of (k_thr s u)) \<and>
           (\<forall>u. t_current_priority (k_thr s' u) = (if u = t then p else t_current_priority (k_thr s u))) \<and>
           (\<forall>q. (\<forall>n. q \<noteq> Ready n) \<longrightarrow> k_q s' q = k_q s q) \<and>
           (\<forall>u. t_error (k_thr s' u) = t_error (k_thr s u)) \<and>
           k_mutex s' = k_mutex s \<and> k_lock s' = k_lock s \<and> k_irq s' = k_irq s \<and> k_obj s' = k_obj s \<and>
           k_sem s' = k_sem s \<and> k_event s' = k_event s \<and> k_mb s' = k_mb s \<and> k_mq s' = k_mq s \<and>
           k_mp s' = k_mp s \<and> k_container s' = k_container s \<and> k_tick s' = k_tick s \<and> k_tlist s' = k_tlist s \<and>
           (\<forall>u. t_event_set (k_thr s' u) = t_event_set (k_thr s u) \<and>
                t_event_info (k_thr s' u) = t_event_info (k_thr s u))"
proof -
  note inv0 = sys_invD(2) [OF inv]
  have pm: "prio_ok (th\<lparr>t_current_priority := p, t_number_mask := prio_mask p\<rparr>)" if "prio_ok th" for th
    using that p by (simp add: prio_ok_def)
  show ?thesis
  proof (cases "stat_of (k_thr s t) = RT_THREAD_READY")
    case False
    let ?s' = "repriced t p s"
    have nd: "node_ok (th\<lparr>t_current_priority := p, t_number_mask := m\<rparr>) = node_ok th"
      if "stat_of th \<noteq> RT_THREAD_READY" for th m
      using that by (simp add: node_ok_def)
    have k: "kinv ?s'"
      unfolding kinv_def
    proof (rule kinv_butI)
      show "links_ok ?s'"
        using links_okD [OF kinv_butD(1) [OF inv0]] by (simp add: links_ok_def repriced_def)
      show "group_ok ?s'"
        using kinv_butD(2) [OF inv0] by (simp add: group_ok_def repriced_def)
      fix u
      show "prio_ok (k_thr ?s' u)"
        using kinv_butD(3) [OF inv0] pm by (simp add: repriced_def)
      show "node_ok (k_thr ?s' u)"
        using kinv_butD(5) [OF inv0, of u] nd [OF False] by (auto simp: repriced_def)
      show "stat_of (k_thr ?s' u) = RT_THREAD_RUNNING \<Longrightarrow> u = k_cur ?s'"
        using kinv_butD(6) [OF inv0, of u] by (simp add: repriced_def split: if_splits)
    qed (use kinv_butD(7) [OF inv0] in \<open>simp_all add: repriced_def\<close>)
    have "timers_wf lo ?s'"
      using sys_invD(3) [OF inv] by (subst timers_wf_cong [of _ s]) (simp_all add: repriced_def)
    moreover have st: "stat_of (k_thr ?s' u) = stat_of (k_thr s u)" for u by (simp add: repriced_def)
    have ob: "k_obj ?s' = k_obj s" "k_tlist ?s' = k_tlist s" by (simp_all add: repriced_def)
    have "typed ?s'" "ttimer_ok ?s'"
      using sys_invD(4,5) [OF inv] unfolding typed_def ttimer_ok_def st timer_flag_cong [OF ob(1)] ob(2)
      by blast+
    ultimately have "sys_inv lo ?s'" using k by (simp add: sys_inv_def)
    moreover have "change_priority t p s = Some ?s'"
      using False by (simp add: change_priority_def repriced_def)
    ultimately show ?thesis by (simp add: repriced_def)
  next
    case True
    let ?s1 = "repriced t p (removed t s)" and ?s' = "inserted t (repriced t p (removed t s))"
    have rem: "rt_schedule_remove_thread t s = Some (removed t s)" "kinv_but {t} (removed t s)"
      using remove_thread_but [OF inv0 t0] by auto
    have but: "kinv_but {t} ?s1"
    proof (rule kinv_butI)
      show "links_ok ?s1"
        using links_okD [OF kinv_butD(1) [OF rem(2)]] by (simp add: links_ok_def repriced_def)
      show "group_ok ?s1"
        using kinv_butD(2) [OF rem(2)] by (simp add: group_ok_def repriced_def removed_def)
      fix u
      show "prio_ok (k_thr ?s1 u)"
        using kinv_butD(3) [OF rem(2), of u] pm [of "k_thr (removed t s) t"]
        by (auto simp: repriced_def)
      show "u \<in> {t} \<Longrightarrow> link_ok u ?s1"
        using kinv_butD(4) [OF rem(2)] by (simp add: repriced_def link_ok_def)
      show "u \<notin> {t} \<Longrightarrow> node_ok (k_thr ?s1 u)"
        using kinv_butD(5) [OF rem(2), of u] by (simp add: repriced_def)
      show "u \<notin> {t} \<Longrightarrow> stat_of (k_thr ?s1 u) = RT_THREAD_RUNNING \<Longrightarrow> u = k_cur ?s1"
        using kinv_butD(6) [OF rem(2), of u] by (simp add: repriced_def)
      show "stat_of (k_thr ?s1 RT_NULL) = RT_THREAD_INIT"
        using kinv_butD(7) [OF rem(2)] t0 by (simp add: repriced_def)
    qed
    have nc: "t \<noteq> k_cur ?s1" using cur True by (auto simp: repriced_def)
    have ins: "rt_schedule_insert_thread t ?s1 = Some ?s'" "kinv_but ({t} - {t}) ?s'"
      using insert_thread_but [OF but _ t0 nc] by (simp_all add: repriced_def)
    have tl: "t_tlist (k_thr s t) = Some (Ready (prio_index t s))"
      using kinv_butD(5) [OF inv0, of t] True by (simp add: node_ok_stat prio_index_def)
    have st: "stat_of (k_thr ?s' u) = stat_of (k_thr s u)" for u using True by (simp add: repriced_def)
    have ob: "k_obj ?s' = k_obj s" "k_tlist ?s' = k_tlist s" by (simp_all add: repriced_def)
    have "timers_wf lo ?s'"
      using sys_invD(3) [OF inv] by (subst timers_wf_cong [of _ s]) (simp_all add: repriced_def)
    moreover have "typed ?s'" "ttimer_ok ?s'"
      using sys_invD(4,5) [OF inv] unfolding typed_def ttimer_ok_def st timer_flag_cong [OF ob(1)] ob(2)
      by blast+
    ultimately have "sys_inv lo ?s'" using ins(2) by (simp add: sys_inv_def kinv_def)
    moreover have "change_priority t p s = Some ?s'"
      using True rem(1) ins(1) by (simp add: change_priority_def repriced_def)
    moreover have "k_q ?s' q = k_q s q" if "\<forall>n. q \<noteq> Ready n" for q
      using that tl by (simp add: repriced_def)
    ultimately show ?thesis
      using st by (simp add: repriced_def set_stat_def)
  qed
qed


text \<open>C20: changing the priority of a thread to a valid one keeps the system invariant and its
  status; a READY thread is then in the ready queue of the new priority.\<close>

theorem rt_thread_control_priority:
  assumes inv: "sys_inv lo s" and p: "p < 32" and t: "is_thread t s"
    and cur: "t = k_cur s \<longrightarrow> stat_of (k_thr s t) \<noteq> RT_THREAD_READY"
  shows "\<exists>s'. rt_thread_control t (CHANGE_PRIORITY p) s = Some (RT_EOK, s') \<and> sys_inv lo s' \<and>
           stat_of (k_thr s' t) = stat_of (k_thr s t) \<and> t_current_priority (k_thr s' t) = p \<and>
           (stat_of (k_thr s t) = RT_THREAD_READY \<longrightarrow> t \<in> set (k_q s' (Ready (unat p))))"
proof -
  obtain s' where s': "change_priority t p s = Some s'" "sys_inv lo s'"
    "stat_of (k_thr s' t) = stat_of (k_thr s t)" "t_current_priority (k_thr s' t) = p"
    using change_priority_inv [OF inv p _ cur] t by (auto simp: is_thread_def)
  then show ?thesis
    using t ready_member [OF sys_invD(2) [OF s'(2)], of t] by (auto simp: rt_thread_control_def)
qed

text \<open>The command does not check its argument: a priority of 32 or more for a READY thread makes
  the scheduler index its priority table out of bounds.\<close>

theorem rt_thread_control_out_of_range:
  assumes "32 \<le> p" and "stat_of (k_thr s t) = RT_THREAD_READY" and "t \<noteq> k_cur s"
  shows "rt_thread_control t (CHANGE_PRIORITY p) s = None"
proof -
  have "\<not> unat p < 32" using assms(1) by (simp add: word_le_nat_alt)
  moreover have "k_cur s' = k_cur s" if "rt_schedule_remove_thread t s = Some s'" for s'
    using that by (auto simp: rt_schedule_remove_thread_def Let_def split: if_splits)
  ultimately show ?thesis
    using assms(2,3)
    by (cases "rt_schedule_remove_thread t s")
      (auto simp: rt_thread_control_def change_priority_def rt_schedule_insert_thread_def
        prio_index_def Let_def)
qed

text \<open>A closed thread with a free node can go to the defunct list.\<close>

lemma defunct_inv:
  assumes inv: "kinv_but {} s" and t: "link_ok t s" "stat_of (k_thr s t) = RT_THREAD_CLOSE"
  shows "kinv_but {} (q_push_front Defunct t s)"
proof (rule kinv_butI)
  let ?s = "q_push_front Defunct t s"
  show "links_ok ?s"
    using kq.rep_front [of s "k_q s" t Defunct] t kinv_butD(1) [OF inv] by (simp add: kq_rep_def)
  show "group_ok ?s"
    using kinv_butD(2) [OF inv] by (simp add: group_ok_def q_push_front_def)
  fix u
  show "prio_ok (k_thr ?s u)" using kinv_butD(3) [OF inv] by (simp add: q_push_front_def)
  show "node_ok (k_thr ?s u)"
    using kinv_butD(5) [OF inv, of u] t by (simp add: q_push_front_def node_ok_stat)
  show "stat_of (k_thr ?s u) = RT_THREAD_RUNNING \<Longrightarrow> u = k_cur ?s"
    using kinv_butD(6) [OF inv, of u] by (simp add: q_push_front_def split: if_splits)
qed (use kinv_butD(7) [OF inv] in \<open>simp_all add: q_push_front_def\<close>)

text \<open>\<open>rt_thread_detach\<close> of a static thread without cleanup function ends it whatever it is
  doing: its node and its timer leave their lists, the object leaves the object system, and the
  system invariant holds; with a cleanup function it is in the defunct list.\<close>

theorem rt_thread_detach_ends:
  assumes inv: "sys_inv lo s" and t: "is_thread t s" "rt_object_is_systemobject (Obj t) s"
    and live: "stat_of (k_thr s t) \<noteq> RT_THREAD_CLOSE"
  shows "\<exists>s'. rt_thread_detach t s = Some (RT_EOK, s') \<and> sys_inv lo s' \<and>
           stat_of (k_thr s' t) = RT_THREAD_CLOSE \<and> TimerOf t \<notin> set (k_tlist s') \<and>
           t_tlist (k_thr s' t) = (if t_cleanup (k_thr s t) then Some Defunct else None)"
proof -
  let ?cl = "\<lambda>th. th\<lparr>t_stat := RT_THREAD_CLOSE\<rparr>"
  note inv0 = sys_invD(2) [OF inv]
  have t0: "t \<noteq> RT_NULL" using t by (simp add: is_thread_def)
  have ob: "timer_obj t s" using sys_invD(4) [OF inv] t(1) live by (simp add: typed_def is_thread_def)
  have free_init: "stat_of (k_thr s t) = RT_THREAD_INIT \<Longrightarrow> t_tlist (k_thr s t) = None"
    using kinv_butD(5) [OF inv0, of t] by (simp add: node_ok_stat)
  define s1 where "s1 = (if stat_of (k_thr s t) \<noteq> RT_THREAD_INIT then removed t s else s)"
  have s1: "(if stat_of (k_thr s t) \<noteq> RT_THREAD_INIT then rt_schedule_remove_thread t s else Some s) = Some s1"
    using remove_thread_but(1) [OF inv0 t0] by (simp add: s1_def)
  have but: "kinv_but {t} s1"
  proof (cases "stat_of (k_thr s t) = RT_THREAD_INIT")
    case True
    then have "kinv_but {t} s"
      using inv0 free_init by (auto simp: kinv_but_def link_ok_def)
    then show ?thesis using True by (simp add: s1_def)
  qed (use remove_thread_but(2) [OF inv0 t0] in \<open>simp add: s1_def\<close>)
  have f1: "k_obj s1 = k_obj s" "k_tlist s1 = k_tlist s" "k_tmr s1 = k_tmr s" "k_tick s1 = k_tick s"
    "k_cur s1 = k_cur s" "\<And>u. u \<noteq> t \<Longrightarrow> k_thr s1 u = k_thr s u" "t_tlist (k_thr s1 t) = None"
    "t_cleanup (k_thr s1 t) = t_cleanup (k_thr s t)"
    using free_init by (simp_all add: s1_def)
  let ?s2 = "rt_object_detach (TimerOf t) (timer_remove (TimerOf t) s1)"
  have det: "rt_timer_detach (TimerOf t) s1 = Some (RT_EOK, ?s2)"
    using ob timer_flag_cong(3) [OF f1(1), of t] by (auto simp: rt_timer_detach_def timer_obj_def)
  have but2: "kinv_but {t} ?s2"
    using but kinv_but_cong [of ?s2 s1 "{t}"] by simp
  let ?s3 = "set_thr t ?cl ?s2"
  have "kinv_but ({t} - {t}) ?s3"
    using t0 kinv_butD(3) [OF but2, of t] kinv_butD(4) [OF but2, of t]
    by (intro settle_thread [OF but2]) (auto simp: node_ok_stat link_ok_def prio_ok_def)
  then have k3: "kinv_but {} ?s3" by simp
  have sys: "rt_object_is_systemobject (Obj t) ?s3"
    using t(2) f1(1) by (simp add: rt_object_is_systemobject_def rt_object_detach_def)
  define s' where "s' = (if t_cleanup (k_thr s t) then q_push_front Defunct t ?s3
      else rt_object_detach (Obj t) ?s3)"
  have "rt_thread_detach t s = Some (RT_EOK, s')"
    using t s1 det sys f1(7,8)
    by (simp add: rt_thread_detach_def thread_retire_def s'_def tlist_insert_after_head_def link_ok_def)
  moreover have "kinv s'"
    using k3 defunct_inv [OF k3, of t] f1(7)
    by (simp add: s'_def kinv_def link_ok_def) (simp flip: kinv_def)
  moreover have list: "k_tlist s' = remove1 (TimerOf t) (k_tlist s)"
    by (simp add: s'_def q_push_front_def f1)
  moreover have "timers_wf lo s'"
    using timer_remove_wf [OF sys_invD(3) [OF inv], of "TimerOf t"] list
    by (subst timers_wf_cong [of _ "timer_remove (TimerOf t) s"])
      (simp_all add: s'_def q_push_front_def f1)
  moreover have st: "stat_of (k_thr s' u) = (if u = t then RT_THREAD_CLOSE else stat_of (k_thr s u))" for u
    using f1(6) by (simp add: s'_def q_push_front_def)
  have ob': "u \<noteq> t \<Longrightarrow> k_obj s' (Obj u) = k_obj s (Obj u) \<and> k_obj s' (TimerOf u) = k_obj s (TimerOf u)" for u
    by (simp add: s'_def q_push_front_def rt_object_detach_def f1)
  have gone: "TimerOf t \<notin> set (k_tlist s')"
    using sys_invD(3) [OF inv] by (simp add: list timers_wf_def)
  have "typed s'"
    unfolding typed_def
  proof (intro allI)
    fix u
    show "(stat_of (k_thr s' u) \<in> {1, 2, 3} \<longrightarrow> rt_object_get_type (Obj u) s' = 1) \<and>
        (stat_of (k_thr s' u) \<noteq> 4 \<and> rt_object_get_type (Obj u) s' = 1 \<longrightarrow> timer_obj u s')"
      using sys_invD(4) [OF inv] ob' [of u] st [of u]
      by (cases "u = t") (simp_all add: typed_def timer_obj_def rt_object_get_type_def
          rt_object_is_systemobject_def timer_periodic_def timer_flag_def)
  qed
  moreover have "ttimer_ok s'"
    unfolding ttimer_ok_def
  proof (intro allI impI)
    fix u
    assume u: "TimerOf u \<in> set (k_tlist s')"
    then have "u \<noteq> t" using gone by auto
    then show "stat_of (k_thr s' u) = RT_THREAD_SUSPEND \<and> timer_activated (TimerOf u) s'"
      using u set_remove1_subset [of "TimerOf t" "k_tlist s"] sys_invD(5) [OF inv] ob' [of u] st [of u] list
      by (auto simp: ttimer_ok_def timer_activated_def timer_flag_def)
  qed
  moreover have "t_tlist (k_thr s' t) = (if t_cleanup (k_thr s t) then Some Defunct else None)"
    using f1(7) by (simp add: s'_def q_push_front_def)
  ultimately show ?thesis
    using st [of t] gone by (auto simp: sys_inv_def)
qed

end
