(* ===== verification/RTT_Clock.thy ===== *)
theory RTT_Clock
  imports RTT_Thread
begin

text \<open>
  The clock interrupt (\<open>src/clock.c\<close>): one tick more, the time slice of the running thread, and
  the timers that have expired. The timeout functions of the timers in threads are
  \<open>rt_thread_timeout\<close>; those of the application's own timers are the parameter \<open>user\<close>. Here the
  locale \<open>timer_callbacks\<close> is interpreted on the kernel, so \<open>rt_timer_check\<close> ends and leaves no
  expired timer behind, and a sleeping thread wakes when its time is up.
\<close>

section \<open>Operations\<close>

definition rt_tick_get :: "kstate \<Rightarrow> u32" where
  "rt_tick_get s = k_tick s"

definition rt_tick_set :: "u32 \<Rightarrow> kstate \<Rightarrow> kstate" where
  "rt_tick_set tick s = s\<lparr>k_tick := tick\<rparr>"

definition kernel_cb :: "(ptr \<Rightarrow> kstate \<Rightarrow> kstate option) \<Rightarrow> oref \<Rightarrow> kstate \<Rightarrow> kstate option" where
  "kernel_cb user x = (case x of TimerOf t \<Rightarrow> rt_thread_timeout t | Obj p \<Rightarrow> user p)"

text \<open>The decrement of \<open>remaining_tick\<close>, and at 0 the new time slice with the yield flag.\<close>

definition time_slice :: "rt_thread \<Rightarrow> rt_thread" where
  "time_slice th =
     (let th = th\<lparr>t_remaining_tick := t_remaining_tick th - 1\<rparr> in
      if t_remaining_tick th = 0
      then th\<lparr>t_remaining_tick := t_init_tick th, t_stat := t_stat th OR RT_THREAD_STAT_YIELD\<rparr>
      else th)"

definition rt_tick_increase :: "(ptr \<Rightarrow> kstate \<Rightarrow> kstate option) \<Rightarrow> kstate \<Rightarrow> kstate option" where
  "rt_tick_increase user s = do {
     let s = s\<lparr>k_tick := k_tick s + 1\<rparr>;
     let t = rt_thread_self s;
     rt_assert (t \<noteq> RT_NULL);
     let ended = (t_remaining_tick (k_thr s t) = 1);
     let s = set_thr t time_slice s;
     s \<leftarrow> (if ended then do { (_, s) \<leftarrow> rt_thread_yield s; Some s } else Some s);
     rt_timer_check (kernel_cb user) s
   }"

fun ticks :: "(ptr \<Rightarrow> kstate \<Rightarrow> kstate option) \<Rightarrow> nat \<Rightarrow> kstate \<Rightarrow> kstate option" where
  "ticks user 0 s = Some s"
| "ticks user (Suc n) s = do { s \<leftarrow> rt_tick_increase user s; ticks user n s }"


section \<open>What the clock relies on\<close>

text \<open>A user's timeout function returns, and leaves the timers and the system invariant alone; it
  may wake threads and do any work of its own.\<close>

definition quiet :: "(ptr \<Rightarrow> kstate \<Rightarrow> kstate option) \<Rightarrow> bool" where
  "quiet user \<longleftrightarrow> (\<forall>p s. sys_inv (-1) s \<longrightarrow> k_cur s \<noteq> RT_NULL \<longrightarrow>
     (\<exists>s'. user p s = Some s' \<and> sys_inv (-1) s' \<and> k_cur s' \<noteq> RT_NULL \<and> k_tlist s' = k_tlist s \<and>
        k_tmr s' = k_tmr s \<and> k_tick s' = k_tick s \<and> k_obj s' = k_obj s \<and>
        (\<forall>t. runs t s \<longrightarrow> runs t s')))"

text \<open>The application's timers in the list are timer objects with a period of at least one tick.\<close>

definition user_timers :: "kstate \<Rightarrow> bool" where
  "user_timers s \<longleftrightarrow> (\<forall>p. Obj p \<in> set (k_tlist s) \<longrightarrow> p \<noteq> RT_NULL \<and>
     rt_object_get_type (Obj p) s = Class_Timer \<and> 0 < sint (tm_init_tick (k_tmr s (Obj p))) \<and>
     tm_init_tick (k_tmr s (Obj p)) < TICK_HALF)"

text \<open>The thread \<open>t\<close> waits for the tick \<open>tk\<close>, or can run.\<close>

definition wakes_at :: "ptr \<Rightarrow> u32 \<Rightarrow> kstate \<Rightarrow> bool" where
  "wakes_at t tk s \<longleftrightarrow>
     TimerOf t \<in> set (k_tlist s) \<and> tm_timeout_tick (k_tmr s (TimerOf t)) = tk \<or> runs t s"

definition clock_inv ::
  "(ptr \<Rightarrow> kstate \<Rightarrow> kstate option) \<Rightarrow> (ptr \<Rightarrow> u32 option) \<Rightarrow> kstate \<Rightarrow> bool" where
  "clock_inv user W s \<longleftrightarrow> quiet user \<and> sys_inv (-1) s \<and> k_cur s \<noteq> RT_NULL \<and> user_timers s \<and>
     (\<forall>t tk. W t = Some tk \<longrightarrow> wakes_at t tk s)"

lemma expired_count_fewer:
  assumes "k_tlist s = x # xs" and "trem s x \<le> 0" and "distinct (x # xs)"
    and "\<And>y. y \<in> set (k_tlist s') \<Longrightarrow> trem s' y \<le> 0 \<Longrightarrow> y \<in> set xs \<and> trem s y \<le> 0"
    and "distinct (k_tlist s')"
  shows "expired_count s' < expired_count s"
proof -
  have "set (filter (\<lambda>y. trem s' y \<le> 0) (k_tlist s')) \<subseteq> set (filter (\<lambda>y. trem s y \<le> 0) xs)"
    using assms(4) by auto
  then have "card (set (filter (\<lambda>y. trem s' y \<le> 0) (k_tlist s'))) \<le>
      card (set (filter (\<lambda>y. trem s y \<le> 0) xs))"
    by (intro card_mono) auto
  moreover have "card (set (filter P ys)) = length (filter P ys)" if "distinct ys" for P and ys :: "oref list"
    using that by (simp add: distinct_card del: set_filter)
  ultimately have "expired_count s' \<le> length (filter (\<lambda>y. trem s y \<le> 0) xs)"
    using assms(3,5) by (simp add: expired_count_def del: set_filter)
  then show ?thesis using assms(1,2) by (simp add: expired_count_def)
qed

text \<open>Deactivating a timer that is not in the list keeps the invariant.\<close>

lemma deactivate_sys_inv:
  assumes "sys_inv lo s" and "x \<notin> set (k_tlist s)"
  shows "sys_inv lo (timer_deactivate x s)"
proof -
  let ?s = "timer_deactivate x s"
  have "kinv ?s = kinv s"
    unfolding kinv_def by (rule kinv_but_cong) simp_all
  moreover have "timer_obj t ?s = timer_obj t s" for t
    by (simp add: timer_obj_def)
  moreover have "ttimer_ok ?s"
    using assms(2) sys_invD(5) [OF assms(1)] unfolding ttimer_ok_def deactivate_sets
    by (metis timer_activated_deactivate)
  ultimately show ?thesis
    using assms(1) by (simp add: sys_inv_def typed_def)
qed


lemma runs_sets [simp]:
  "runs u (timer_remove x s) = runs u s" "runs u (timer_deactivate x s) = runs u s"
  by (simp_all add: runs_def)

lemma remove_sys_inv:
  assumes "sys_inv lo s"
  shows "sys_inv lo (timer_remove x s)"
proof -
  have "kinv (timer_remove x s) = kinv s"
    unfolding kinv_def by (rule kinv_but_cong) simp_all
  moreover have "timer_obj t (timer_remove x s) = timer_obj t s" for t
    by (simp add: timer_obj_def)
  ultimately show ?thesis
    using assms timer_remove_wf [of lo s x] set_remove1_subset [of x "k_tlist s"]
    by (auto simp: sys_inv_def typed_def ttimer_ok_def)
qed

lemma fire_thread_timer:
  assumes I: "clock_inv user W s" and x: "k_tlist s = TimerOf t # xs" and due: "trem s (TimerOf t) \<le> 0"
  shows "\<exists>s'. timer_fire (kernel_cb user) (TimerOf t) s = Some s' \<and> clock_inv user W s' \<and>
           k_tick s' = k_tick s \<and> expired_count s' < expired_count s"
proof -
  let ?x = "TimerOf t" and ?s0 = "timer_remove (TimerOf t) s"
  have inv: "sys_inv (-1) s" "k_cur s \<noteq> RT_NULL" using I by (auto simp: clock_inv_def)
  have d: "distinct (?x # xs)" using sys_invD(3) [OF inv(1)] x by (simp add: timers_wf_def)
  have sus: "stat_of (k_thr s t) = RT_THREAD_SUSPEND"
    using sys_invD(5) [OF inv(1)] x by (auto simp: ttimer_ok_def)
  have inv0: "sys_inv (-1) ?s0" by (rule remove_sys_inv [OF inv(1)])
  obtain s1 where s1: "rt_thread_timeout t ?s0 = Some s1" "sys_inv (-1) s1" "k_cur s1 \<noteq> RT_NULL"
    "runs t s1" "k_tlist s1 = xs" "k_tick s1 = k_tick s" "k_tmr s1 = k_tmr s" "k_obj s1 = k_obj s"
    "\<And>u. runs u s \<Longrightarrow> runs u s1"
    using thread_timeout_wakes [OF inv0, of t] sus d x inv(2) by (auto simp: runs_def)
  let ?s' = "timer_deactivate ?x s1"
  have "\<not> timer_periodic ?x s1"
    using typedD(2) [OF sys_invD(4) [OF inv(1)], of t] sus timer_flag_cong(2) [OF s1(8)]
    by (simp add: timer_obj_def)
  then have fire: "timer_fire (kernel_cb user) ?x s = Some ?s'"
    using s1(1) by (simp add: timer_fire_def kernel_cb_def)
  have inv': "sys_inv (-1) ?s'"
    using deactivate_sys_inv [OF s1(2)] d s1(5) by simp
  have "user_timers ?s'"
    using I x s1(5,7) timer_flag_cong(4) [OF s1(8)] by (auto simp: clock_inv_def user_timers_def)
  moreover have "wakes_at u tk ?s'" if "W u = Some tk" for u tk
  proof -
    have "wakes_at u tk s" using I that by (auto simp: clock_inv_def)
    then show ?thesis
      using s1(4,5,7,9) x by (cases "u = t") (auto simp: wakes_at_def runs_def)
  qed
  moreover have "expired_count ?s' < expired_count s"
    using d s1(5,6,7) by (intro expired_count_fewer [OF x due]) (auto simp: trem_def)
  ultimately show ?thesis
    using I fire inv' s1(3,6) by (auto simp: clock_inv_def)
qed

lemma fire_user_timer:
  assumes I: "clock_inv user W s" and x: "k_tlist s = Obj p # xs" and due: "trem s (Obj p) \<le> 0"
  shows "\<exists>s'. timer_fire (kernel_cb user) (Obj p) s = Some s' \<and> clock_inv user W s' \<and>
           k_tick s' = k_tick s \<and> expired_count s' < expired_count s"
proof -
  let ?x = "Obj p" and ?s0 = "timer_remove (Obj p) s"
  have inv: "sys_inv (-1) s" "k_cur s \<noteq> RT_NULL" and q: "quiet user" using I by (auto simp: clock_inv_def)
  have d: "distinct (?x # xs)" using sys_invD(3) [OF inv(1)] x by (simp add: timers_wf_def)
  have inv0: "sys_inv (-1) ?s0" by (rule remove_sys_inv [OF inv(1)])
  obtain s1 where s1: "user p ?s0 = Some s1" "sys_inv (-1) s1" "k_cur s1 \<noteq> RT_NULL"
    "k_tlist s1 = xs" "k_tick s1 = k_tick s" "k_tmr s1 = k_tmr s" "k_obj s1 = k_obj s"
    "\<And>u. runs u s \<Longrightarrow> runs u s1"
    using q [unfolded quiet_def, rule_format, OF inv0] inv(2) x by auto
  have ut: "p \<noteq> RT_NULL" "rt_object_get_type ?x s = Class_Timer"
    "0 < sint (tm_init_tick (k_tmr s ?x))" "tm_init_tick (k_tmr s ?x) < TICK_HALF"
    using I x by (auto simp: clock_inv_def user_timers_def)
  let ?sd = "timer_deactivate ?x s1"
  have invd: "sys_inv (-1) ?sd"
    using deactivate_sys_inv [OF s1(2)] d s1(4) by simp
  have wk: "wakes_at u tk s'" if "W u = Some tk" "\<And>y. y \<in> set xs \<Longrightarrow> y \<in> set (k_tlist s')"
    "\<And>y. y \<noteq> ?x \<Longrightarrow> k_tmr s' y = k_tmr s y" "k_thr s' = k_thr s1" for u tk s'
  proof -
    have "wakes_at u tk s" using I that(1) by (auto simp: clock_inv_def)
    then show ?thesis
      using s1(8) [of u] x that(2-4) by (auto simp: wakes_at_def runs_def)
  qed
  show ?thesis
  proof (cases "timer_periodic ?x s1 \<and> timer_activated ?x s1")
    case False
    then have fire: "timer_fire (kernel_cb user) ?x s = Some ?sd"
      using s1(1) by (auto simp: timer_fire_def kernel_cb_def)
    have "user_timers ?sd"
      using I x s1(4,6) timer_flag_cong(4) [OF s1(7)] by (auto simp: clock_inv_def user_timers_def)
    moreover have "expired_count ?sd < expired_count s"
      using d s1(4,5,6) by (intro expired_count_fewer [OF x due]) (auto simp: trem_def)
    ultimately show ?thesis
      using I fire invd s1(3-6) wk [of _ _ ?sd] by (auto simp: clock_inv_def)
  next
    case True
    let ?s' = "timer_started ?x ?sd"
    have st: "\<exists>s'. rt_timer_start ?x ?sd = Some (RT_EOK, s') \<and> timers_wf (-1) s'"
      using timer_start_ordered [of "-1" ?sd ?x] sys_invD(3) [OF invd] ut s1(6)
        timer_flag_cong(4) [OF s1(7)] by auto
    then have tw: "timers_wf (-1) ?s'" and start: "rt_timer_start ?x ?sd = Some (RT_EOK, ?s')"
      by (auto simp: rt_timer_start_Some)
    have fire: "timer_fire (kernel_cb user) ?x s = Some ?s'"
      using s1(1) True start by (simp add: timer_fire_def kernel_cb_def)
    have list: "set (k_tlist ?s') = insert ?x (set xs)"
      using s1(4) d by (simp add: timer_started_def Let_def)
    have "kinv ?s' = kinv ?sd"
      unfolding kinv_def by (rule kinv_but_cong) simp_all
    moreover have "timer_obj t ?s' = timer_obj t ?sd" for t
      by (simp add: timer_obj_def)
    ultimately have inv': "sys_inv (-1) ?s'"
      using invd tw list s1(4) by (simp add: sys_inv_def typed_def ttimer_ok_def)
    have "user_timers ?s'"
      using I x s1(6) list timer_flag_cong(4) [OF s1(7)] by (auto simp: clock_inv_def user_timers_def)
    moreover have "expired_count ?s' < expired_count s"
    proof (rule expired_count_fewer [OF x due d])
      show "distinct (k_tlist ?s')" using tw by (simp add: timers_wf_def)
      show "y \<in> set xs \<and> trem s y \<le> 0" if "y \<in> set (k_tlist ?s')" "trem ?s' y \<le> 0" for y
        using that ut list s1(5,6) by (cases "y = ?x") (auto simp: trem_started trem_def)
    qed
    ultimately show ?thesis
      using I fire inv' s1(3,5,6) list wk [of _ _ ?s'] by (auto simp: clock_inv_def)
  qed
qed

interpretation clk: timer_callbacks "kernel_cb user" "clock_inv user W" for user W
proof
  fix s x xs
  assume a: "clock_inv user W s" "timers_wf (-1) s" "k_tlist s = x # xs" "trem s x \<le> 0"
  then obtain s' where s': "timer_fire (kernel_cb user) x s = Some s'" "clock_inv user W s'"
    "k_tick s' = k_tick s" "expired_count s' < expired_count s"
    using fire_thread_timer fire_user_timer by (cases x) blast+
  moreover have "timers_wf (-1) s'"
    using s'(2) sys_invD(3) by (auto simp: clock_inv_def)
  ultimately show "\<exists>s'. timer_fire (kernel_cb user) x s = Some s' \<and> clock_inv user W s' \<and>
      k_tick s' = k_tick s \<and> timers_wf (-1) s' \<and> expired_count s' < expired_count s"
    by blast
qed


section \<open>A tick\<close>

lemma time_slice_stat [simp]: "stat_of (time_slice th) = stat_of th"
proof -
  have y: "stat_of (th\<lparr>t_remaining_tick := a, t_stat := t_stat th OR RT_THREAD_STAT_YIELD\<rparr>) = stat_of th"
    for th :: rt_thread and a
    using stat_of_set_yield [of th] by (simp add: stat_of_def)
  have r: "stat_of (th\<lparr>t_remaining_tick := a\<rparr>) = stat_of th" for a
    by (simp add: stat_of_def)
  show ?thesis using y [of th "t_init_tick th"] r by (simp add: time_slice_def Let_def)
qed

lemma time_slice_fields [simp]:
  "t_tlist (time_slice th) = t_tlist th" "t_current_priority (time_slice th) = t_current_priority th"
  "t_init_priority (time_slice th) = t_init_priority th" "t_number_mask (time_slice th) = t_number_mask th"
  by (simp_all add: time_slice_def Let_def)

lemma time_slice_sys_inv [simp]: "sys_inv lo (set_thr t time_slice s) = sys_inv lo s"
  by (rule sys_inv_cong) (auto simp: prio_ok_def node_ok_def)

lemma tick_sys_inv:
  assumes "sys_inv 0 s"
  shows "sys_inv (-1) (s\<lparr>k_tick := k_tick s + 1\<rparr>)"
  using assms timers_wf_tick [of s]
    timer_flag_cong(1,3,4) [of "s\<lparr>k_tick := k_tick s + 1\<rparr>" s]
  by (simp add: sys_inv_def typed_def ttimer_ok_def)

lemma yield_frame:
  assumes inv: "sys_inv lo s" and cur: "k_cur s \<noteq> RT_NULL"
  shows "\<exists>s'. rt_thread_yield s = Some (RT_EOK, s') \<and> sys_inv lo s' \<and> sched_frame s s' \<and>
           k_cur s' \<noteq> RT_NULL \<and> (\<forall>u. runs u s \<longrightarrow> runs u s')"
proof -
  obtain s' where s': "rt_schedule s = Some s'" "sys_inv lo s'" "sched_frame s s'" "k_cur s' \<noteq> RT_NULL"
    using schedule_sys_inv [OF inv cur] by blast
  moreover have "runs u s'" if "runs u s" for u
    using that rt_schedule_stat [OF sys_invD(1) [OF inv] cur s'(1), of u] by (auto simp: runs_def)
  ultimately show ?thesis by (auto simp: rt_thread_yield_def)
qed

lemma tick_total:
  assumes inv: "sys_inv 0 s" and cur: "k_cur s \<noteq> RT_NULL" and q: "quiet user" and ut: "user_timers s"
    and W: "\<And>t tk. W t = Some tk \<Longrightarrow> wakes_at t tk s"
  shows "\<exists>s'. rt_tick_increase user s = Some s' \<and> sys_inv 1 s' \<and> clock_inv user W s' \<and>
           k_tick s' = k_tick s + 1"
proof -
  let ?s1 = "set_thr (k_cur s) time_slice (s\<lparr>k_tick := k_tick s + 1\<rparr>)"
  have inv1: "sys_inv (-1) ?s1" using tick_sys_inv [OF inv] by simp
  have r1: "runs u ?s1 = runs u s" for u by (simp add: runs_def)
  obtain s2 where s2: "(if t_remaining_tick (k_thr s (k_cur s)) = 1
        then do { (_, s) \<leftarrow> rt_thread_yield ?s1; Some s } else Some ?s1) = Some s2"
      "sys_inv (-1) s2" "sched_frame ?s1 s2" "k_cur s2 \<noteq> RT_NULL" "\<And>u. runs u ?s1 \<Longrightarrow> runs u s2"
  proof (cases "t_remaining_tick (k_thr s (k_cur s)) = 1")
    case True
    then show thesis using yield_frame [OF inv1] cur that by fastforce
  next
    case False
    then show thesis using that [of ?s1] inv1 cur sched_frame_refl by simp
  qed
  have ob: "k_obj s2 = k_obj s" "k_tlist s2 = k_tlist s" "k_tmr s2 = k_tmr s" "k_tick s2 = k_tick s + 1"
    using sched_frameD(3,4,6,7) [OF s2(3)] by simp_all
  have "user_timers s2"
    using ut ob timer_flag_cong(4) [OF ob(1)] by (simp add: user_timers_def)
  moreover have "wakes_at t tk s2" if "W t = Some tk" for t tk
    using W [OF that] s2(5) [of t] r1 ob by (auto simp: wakes_at_def)
  ultimately have I: "clock_inv user W s2"
    using q s2(2,4) by (simp add: clock_inv_def)
  obtain s' where s': "rt_timer_check (kernel_cb user) s2 = Some s'" "clock_inv user W s'"
    "timers_wf 1 s'" "k_tick s' = k_tick s2"
    using clk.check_total [OF I sys_invD(3) [OF s2(2)]] by blast
  have "sys_inv 1 s'" using s'(2,3) by (auto simp: clock_inv_def sys_inv_def)
  moreover have "rt_tick_increase user s = Some s'"
  proof (cases "t_remaining_tick (k_thr s (k_cur s)) = 1")
    case True
    then show ?thesis
      using cur s2(1) s'(1)
      by (cases "rt_thread_yield ?s1") (auto simp: rt_tick_increase_def rt_thread_self_def Let_def)
  next
    case False
    then show ?thesis
      using cur s2(1) s'(1) by (simp add: rt_tick_increase_def rt_thread_self_def Let_def)
  qed
  ultimately show ?thesis using s' ob by auto
qed

text \<open>C13: the clock interrupt always comes to an end: with timeout functions of the application
  that leave the timers alone, \<open>rt_tick_increase\<close> does not fault, advances the tick by one, keeps
  the system invariant, and leaves no expired timer in the list.\<close>

theorem rt_tick_increase_total:
  assumes "sys_inv 0 s" and "k_cur s \<noteq> RT_NULL" and "quiet user" and "user_timers s"
  shows "\<exists>s'. rt_tick_increase user s = Some s' \<and> sys_inv 0 s' \<and> k_tick s' = k_tick s + 1 \<and>
           (\<forall>x \<in> set (k_tlist s'). 0 < trem s' x)"
proof -
  obtain s' where s': "rt_tick_increase user s = Some s'" "sys_inv 1 s'" "k_tick s' = k_tick s + 1"
    using tick_total [OF assms, of "\<lambda>_. None"] by auto
  moreover from this have "sys_inv 0 s'"
    using timers_wf_weaken [of 1 s' 0] by (auto simp: sys_inv_def)
  moreover have "\<forall>x \<in> set (k_tlist s'). 0 < trem s' x"
    using sys_invD(3) [OF s'(2)] by (auto simp: timers_wf_def)
  ultimately show ?thesis by blast
qed

lemma ticks_total:
  "sys_inv 0 s \<Longrightarrow> k_cur s \<noteq> RT_NULL \<Longrightarrow> quiet user \<Longrightarrow> user_timers s \<Longrightarrow>
   (\<And>t tk. W t = Some tk \<Longrightarrow> wakes_at t tk s) \<Longrightarrow>
   \<exists>s'. ticks user n s = Some s' \<and> sys_inv 0 s' \<and> clock_inv user W s' \<and> k_tick s' = k_tick s + of_nat n \<and>
        (0 < n \<longrightarrow> sys_inv 1 s')"
proof (induction n arbitrary: s)
  case 0
  then show ?case
    using timers_wf_weaken [of 0 s "-1"] by (auto simp: clock_inv_def sys_inv_def)
next
  case (Suc n)
  obtain s1 where s1: "rt_tick_increase user s = Some s1" "sys_inv 1 s1" "clock_inv user W s1"
    "k_tick s1 = k_tick s + 1"
    using tick_total [OF Suc.prems(1-4), of W] Suc.prems(5) by blast
  have inv1: "sys_inv 0 s1" using s1(2) timers_wf_weaken [of 1 s1 0] by (auto simp: sys_inv_def)
  obtain s' where s': "ticks user n s1 = Some s'" "sys_inv 0 s'" "clock_inv user W s'"
    "k_tick s' = k_tick s1 + of_nat n" "0 < n \<longrightarrow> sys_inv 1 s'"
    using Suc.IH [OF inv1] s1(3) by (auto simp: clock_inv_def)
  then have "sys_inv 1 s'" using s1 by (cases n) auto
  then show ?case using s1 s' by (auto simp: add.assoc)
qed

text \<open>C14: a thread that sleeps with \<open>n\<close> ticks remaining can run again after \<open>n\<close> clock
  interrupts, with the timeout recorded by the interrupt that woke it: it is READY or RUNNING.\<close>

theorem sleeping_thread_wakes:
  assumes inv: "sys_inv 0 s" and cur: "k_cur s \<noteq> RT_NULL" and q: "quiet user" and ut: "user_timers s"
    and t: "TimerOf t \<in> set (k_tlist s)" "trem s (TimerOf t) = int n" and n: "0 < n"
  shows "\<exists>s'. ticks user n s = Some s' \<and> sys_inv 0 s' \<and>
           stat_of (k_thr s' t) \<in> {RT_THREAD_READY, RT_THREAD_RUNNING}"
proof -
  define tk where "tk = tm_timeout_tick (k_tmr s (TimerOf t))"
  have "wakes_at t' tk' s" if "[t \<mapsto> tk] t' = Some tk'" for t' tk'
    using that t(1) by (simp add: wakes_at_def tk_def split: if_splits)
  from ticks_total [OF inv cur q ut this, where n = n]
  obtain s' where s': "ticks user n s = Some s'" "sys_inv 0 s'" "clock_inv user [t \<mapsto> tk] s'"
    "k_tick s' = k_tick s + of_nat n" "sys_inv 1 s'"
    using n by blast
  have "tk - k_tick s = of_nat n"
  proof -
    have "word_of_int (sint (tk - k_tick s)) = (word_of_int (int n) :: u32)"
      using t(2) by (simp only: trem_def tk_def)
    then show ?thesis by simp
  qed
  then have "tk - k_tick s' = 0" using s'(4) by (simp add: algebra_simps)
  then have "\<not> (TimerOf t \<in> set (k_tlist s') \<and> tm_timeout_tick (k_tmr s' (TimerOf t)) = tk)"
    using sys_invD(3) [OF s'(5)] by (auto simp: timers_wf_def trem_def)
  moreover have "wakes_at t tk s'" using s'(3) by (simp add: clock_inv_def)
  ultimately show ?thesis
    using s'(1,2) by (auto simp: wakes_at_def runs_def)
qed

end
