(* ===== verification/RTT_Ipc.thy ===== *)
theory RTT_Ipc
  imports RTT_Clock
begin

text \<open>
  What the inter-process communication objects of \<open>src/ipc.c\<close> share: the lists of threads that
  wait, ordered by arrival or by priority, and the three helpers \<open>rt_ipc_list_suspend\<close>,
  \<open>rt_ipc_list_resume\<close> and \<open>rt_ipc_list_resume_all\<close>. The waiting lists are queues of \<open>RTT_Kernel\<close>
  (\<open>Susp p\<close> is \<open>suspend_thread\<close> of the object at \<open>p\<close>, \<open>Sender p\<close> its \<open>suspend_sender_thread\<close>),
  and insertion rests on the facts of the interpretation \<open>kq\<close>. The lemmas \<open>wait_core\<close> and
  \<open>wake_core\<close> say what blocking on such a list and waking its first thread do to the system.
\<close>

section \<open>Operations\<close>

abbreviation (input) RT_IPC_FLAG_FIFO :: u8 where "RT_IPC_FLAG_FIFO \<equiv> 0"
abbreviation (input) RT_IPC_FLAG_PRIO :: u8 where "RT_IPC_FLAG_PRIO \<equiv> 1"

text \<open>The \<open>switch\<close> of \<open>rt_ipc_list_suspend\<close>: a flag that is neither value links the thread nowhere.\<close>

definition ipc_list_insert :: "qid \<Rightarrow> ptr \<Rightarrow> u8 \<Rightarrow> kstate \<Rightarrow> kstate option" where
  "ipc_list_insert q t flag s =
     (if flag = RT_IPC_FLAG_FIFO then tlist_insert_before_head q t s
      else if flag = RT_IPC_FLAG_PRIO
      then (case find (\<lambda>m. t_current_priority (k_thr s t) < t_current_priority (k_thr s m)) (k_q s q) of
              Some m \<Rightarrow> tlist_insert_before_node q m t s
            | None \<Rightarrow> tlist_insert_before_head q t s)
      else Some s)"

definition rt_ipc_list_suspend :: "qid \<Rightarrow> ptr \<Rightarrow> u8 \<Rightarrow> kstate \<Rightarrow> (rt_err \<times> kstate) option" where
  "rt_ipc_list_suspend q t flag s = do {
     (_, s) \<leftarrow> rt_thread_suspend t s;
     s \<leftarrow> ipc_list_insert q t flag s;
     Some (RT_EOK, s)
   }"

definition rt_ipc_list_resume :: "qid \<Rightarrow> kstate \<Rightarrow> (rt_err \<times> kstate) option" where
  "rt_ipc_list_resume q s =
     (case k_q s q of
        [] \<Rightarrow> None
      | t # _ \<Rightarrow> do { (_, s) \<leftarrow> rt_thread_resume t s; Some (RT_EOK, s) })"

partial_function (option) rt_ipc_list_resume_all :: "qid \<Rightarrow> kstate \<Rightarrow> (rt_err \<times> kstate) option" where
  "rt_ipc_list_resume_all q s =
     (case k_q s q of
        [] \<Rightarrow> Some (RT_EOK, s)
      | t # _ \<Rightarrow> do {
          let s = set_thr t (\<lambda>th. th\<lparr>t_error := - RT_ERROR\<rparr>) s;
          (_, s) \<leftarrow> rt_thread_resume t s;
          rt_ipc_list_resume_all q s
        })"

text \<open>\<open>RT_DEBUG_IN_THREAD_CONTEXT\<close> and \<open>RT_DEBUG_NOT_IN_INTERRUPT\<close>.\<close>

definition thread_context :: "kstate \<Rightarrow> bool" where
  "thread_context s \<longleftrightarrow> rt_thread_self s \<noteq> RT_NULL \<and> k_irq s = 0"

text \<open>The statements every blocking call has in common: suspend the thread in a list of the object,
  start its timer when there is a time limit (\<open>time\<close> is signed, negative for ever), and switch.\<close>

definition ipc_wait :: "qid \<Rightarrow> ptr \<Rightarrow> u8 \<Rightarrow> u32 \<Rightarrow> kstate \<Rightarrow> kstate option" where
  "ipc_wait q t flag time s = do {
     (_, s) \<leftarrow> rt_ipc_list_suspend q t flag s;
     s \<leftarrow> (if 0 < sint time then sleep_timer t time s else Some s);
     rt_schedule s
   }"

text \<open>\<open>if (timeout > 0) { tick_delta = rt_tick_get() - tick_delta; timeout -= tick_delta; ... }\<close>\<close>

definition timeout_left :: "u32 \<Rightarrow> u32 \<Rightarrow> kstate \<Rightarrow> u32" where
  "timeout_left timeout start s =
     (if 0 < sint timeout
      then let timeout = timeout - (k_tick s - start) in if sint timeout < 0 then 0 else timeout
      else timeout)"


section \<open>Waiting lists\<close>

definition waiting :: "qid \<Rightarrow> bool" where
  "waiting q \<longleftrightarrow> (\<exists>p. q = Susp p \<or> q = Sender p)"

lemma waiting_simps [simp]: "waiting (Susp p)" "waiting (Sender p)" "\<not> waiting (Ready n)" "\<not> waiting Defunct"
  by (simp_all add: waiting_def)

lemma waiting_not_ready: "waiting q \<Longrightarrow> \<forall>p. q \<noteq> Ready p"
  by (auto simp: waiting_def)

text \<open>The place of a thread in a waiting list.\<close>

definition wait_insert :: "u8 \<Rightarrow> (ptr \<Rightarrow> u8) \<Rightarrow> ptr \<Rightarrow> ptr list \<Rightarrow> ptr list" where
  "wait_insert flag prio t xs =
     (if flag = RT_IPC_FLAG_PRIO
      then takeWhile (\<lambda>m. \<not> prio t < prio m) xs @ t # dropWhile (\<lambda>m. \<not> prio t < prio m) xs
      else xs @ [t])"

abbreviation (input) prio_of :: "kstate \<Rightarrow> ptr \<Rightarrow> u8" where
  "prio_of s t \<equiv> t_current_priority (k_thr s t)"

lemma set_wait_insert [simp]: "set (wait_insert flag prio t xs) = insert t (set xs)"
proof -
  have "set (takeWhile P xs) \<union> set (dropWhile P xs) = set xs" for P
    using set_append [of "takeWhile P xs" "dropWhile P xs"] by (simp del: set_append)
  then show ?thesis by (auto simp: wait_insert_def)
qed

lemma wait_insert_not_Nil [simp]: "wait_insert flag prio t xs \<noteq> []"
  by (simp add: wait_insert_def)

text \<open>Only the priorities of the threads concerned matter.\<close>

lemma wait_insert_cong:
  assumes "prio' t = prio t" and "\<And>m. m \<in> set xs \<Longrightarrow> prio' m = prio m"
  shows "wait_insert flag prio' t xs = wait_insert flag prio t xs"
proof -
  have "takeWhile (\<lambda>m. \<not> prio' t < prio' m) xs = takeWhile (\<lambda>m. \<not> prio t < prio m) xs"
    "dropWhile (\<lambda>m. \<not> prio' t < prio' m) xs = dropWhile (\<lambda>m. \<not> prio t < prio m) xs"
    using assms by (auto intro: takeWhile_cong dropWhile_cong)
  then show ?thesis by (simp add: wait_insert_def)
qed

text \<open>With the priority flag a sorted list stays sorted, and the new thread comes after the ones of
  its own priority.\<close>

lemma wait_insert_sorted:
  assumes "sorted (map prio xs)"
  shows "sorted (map prio (wait_insert RT_IPC_FLAG_PRIO prio t xs))"
    and "wait_insert RT_IPC_FLAG_PRIO prio t xs =
           filter (\<lambda>m. prio m \<le> prio t) xs @ t # filter (\<lambda>m. prio t < prio m) xs"
proof -
  have "takeWhile (\<lambda>m. \<not> prio t < prio m) xs = filter (\<lambda>m. prio m \<le> prio t) xs \<and>
      dropWhile (\<lambda>m. \<not> prio t < prio m) xs = filter (\<lambda>m. prio t < prio m) xs"
    using assms
  proof (induction xs)
    case (Cons x xs)
    show ?case
    proof (cases "prio t < prio x")
      case True
      then have a: "\<forall>y \<in> set xs. prio t < prio y" using Cons.prems by auto
      then have "filter (\<lambda>m. prio m \<le> prio t) xs = []" "filter (\<lambda>m. prio t < prio m) xs = xs"
        by (auto simp: filter_empty_conv filter_id_conv)
      then show ?thesis using True by simp
    qed (use Cons in auto)
  qed simp
  then show eq: "wait_insert RT_IPC_FLAG_PRIO prio t xs =
      filter (\<lambda>m. prio m \<le> prio t) xs @ t # filter (\<lambda>m. prio t < prio m) xs"
    by (simp add: wait_insert_def)
  show "sorted (map prio (wait_insert RT_IPC_FLAG_PRIO prio t xs))"
    unfolding eq using assms by (auto simp: sorted_append sorted_filter intro: order_trans less_imp_le)
qed

lemma ipc_list_insert_eval:
  assumes l: "links_ok s" and free: "link_ok t s" and flag: "flag \<in> {RT_IPC_FLAG_FIFO, RT_IPC_FLAG_PRIO}"
  shows "ipc_list_insert q t flag s = Some (q_put q (wait_insert flag (prio_of s) t (k_q s q)) t s)"
proof -
  have rep: "kq_rep s (k_q s)" using l by (simp add: kq_rep_def)
  from flag consider "flag = RT_IPC_FLAG_FIFO" | "flag = RT_IPC_FLAG_PRIO" by blast
  then show ?thesis
  proof cases
    case 1
    then show ?thesis
      using free by (simp add: ipc_list_insert_def tlist_insert_before_head_def q_push_back_def wait_insert_def)
  next
    case 2
    let ?ys = "takeWhile (\<lambda>m. \<not> prio_of s t < prio_of s m) (k_q s q) @ t #
      dropWhile (\<lambda>m. \<not> prio_of s t < prio_of s m) (k_q s q)"
    have "kq_rep (case find (\<lambda>m. prio_of s t < prio_of s m) (k_q s q) of
        Some m \<Rightarrow> q_insert_at q m t s | None \<Rightarrow> q_push_back q t s) ((k_q s)(q := ?ys))"
      by (rule kq.insert_by_key [OF rep _ _ free]) simp_all
    then have r: "k_q (case find (\<lambda>m. prio_of s t < prio_of s m) (k_q s q) of
        Some m \<Rightarrow> q_insert_at q m t s | None \<Rightarrow> q_push_back q t s) q = ?ys"
      by (simp add: kq_rep_def)
    show ?thesis
    proof (cases "find (\<lambda>m. prio_of s t < prio_of s m) (k_q s q)")
      case None
      then have "k_q s q @ [t] = ?ys" using r by (simp add: q_push_back_def)
      then show ?thesis
        using 2 free None unfolding ipc_list_insert_def
        by (simp add: tlist_insert_before_head_def q_push_back_def wait_insert_def)
    next
      case (Some m)
      then have "takeWhile ((\<noteq>) m) (k_q s q) @ t # dropWhile ((\<noteq>) m) (k_q s q) = ?ys"
        using r by (simp add: q_insert_at_def)
      then show ?thesis
        using 2 free Some unfolding ipc_list_insert_def
        by (simp add: tlist_insert_before_node_def q_insert_at_def wait_insert_def)
    qed
  qed
qed


section \<open>What blocking and waking leave alone\<close>

text \<open>Everything but the scheduler's data, the waiting lists, the thread timers and the error numbers.\<close>

definition ipc_frame :: "kstate \<Rightarrow> kstate \<Rightarrow> bool" where
  "ipc_frame s s' \<longleftrightarrow>
     k_sem s' = k_sem s \<and> k_mutex s' = k_mutex s \<and> k_event s' = k_event s \<and> k_mb s' = k_mb s \<and>
     k_mq s' = k_mq s \<and> k_mp s' = k_mp s \<and> k_irq s' = k_irq s \<and> k_lock s' = k_lock s \<and>
     k_container s' = k_container s \<and>
     (\<forall>p. k_obj s' (Obj p) = k_obj s (Obj p)) \<and>
     (\<forall>p. Obj p \<in> set (k_tlist s') \<longleftrightarrow> Obj p \<in> set (k_tlist s)) \<and>
     (\<forall>x. rt_object_get_type x s' = rt_object_get_type x s) \<and>
     (\<forall>u. t_current_priority (k_thr s' u) = t_current_priority (k_thr s u) \<and>
          t_event_set (k_thr s' u) = t_event_set (k_thr s u) \<and>
          t_event_info (k_thr s' u) = t_event_info (k_thr s u))"

text \<open>The same but for the priorities, which the mutex changes.\<close>

definition obj_frame :: "kstate \<Rightarrow> kstate \<Rightarrow> bool" where
  "obj_frame s s' \<longleftrightarrow>
     k_sem s' = k_sem s \<and> k_mutex s' = k_mutex s \<and> k_event s' = k_event s \<and> k_mb s' = k_mb s \<and>
     k_mq s' = k_mq s \<and> k_mp s' = k_mp s \<and> k_irq s' = k_irq s \<and> k_lock s' = k_lock s \<and>
     k_container s' = k_container s \<and>
     (\<forall>p. k_obj s' (Obj p) = k_obj s (Obj p)) \<and>
     (\<forall>p. Obj p \<in> set (k_tlist s') \<longleftrightarrow> Obj p \<in> set (k_tlist s)) \<and>
     (\<forall>x. rt_object_get_type x s' = rt_object_get_type x s) \<and>
     (\<forall>u. t_event_set (k_thr s' u) = t_event_set (k_thr s u) \<and>
          t_event_info (k_thr s' u) = t_event_info (k_thr s u))"

lemma ipc_frame_obj: "ipc_frame s s' \<Longrightarrow> obj_frame s s'"
  by (simp add: ipc_frame_def obj_frame_def)

lemma obj_frame_trans: "obj_frame s s1 \<Longrightarrow> obj_frame s1 s2 \<Longrightarrow> obj_frame s s2"
  by (simp add: obj_frame_def)

lemma obj_frameD:
  assumes "obj_frame s s'"
  shows "k_sem s' = k_sem s" and "k_mutex s' = k_mutex s" and "k_event s' = k_event s"
    and "k_mb s' = k_mb s" and "k_mq s' = k_mq s" and "k_mp s' = k_mp s"
    and "k_irq s' = k_irq s" and "k_lock s' = k_lock s" and "k_container s' = k_container s"
    and "k_obj s' (Obj p) = k_obj s (Obj p)" and "rt_object_get_type x s' = rt_object_get_type x s"
    and "t_event_set (k_thr s' u) = t_event_set (k_thr s u)"
    and "t_event_info (k_thr s' u) = t_event_info (k_thr s u)"
    and "Obj p \<in> set (k_tlist s') \<longleftrightarrow> Obj p \<in> set (k_tlist s)"
  using assms by (simp_all add: obj_frame_def)

lemma ipc_frame_refl [simp]: "ipc_frame s s"
  by (simp add: ipc_frame_def)

lemma ipc_frame_trans: "ipc_frame s s1 \<Longrightarrow> ipc_frame s1 s2 \<Longrightarrow> ipc_frame s s2"
  by (simp add: ipc_frame_def)

lemma ipc_frameD:
  assumes "ipc_frame s s'"
  shows "k_sem s' = k_sem s" and "k_mutex s' = k_mutex s" and "k_event s' = k_event s"
    and "k_mb s' = k_mb s" and "k_mq s' = k_mq s" and "k_mp s' = k_mp s"
    and "k_irq s' = k_irq s" and "k_lock s' = k_lock s" and "k_container s' = k_container s"
    and "k_obj s' (Obj p) = k_obj s (Obj p)" and "rt_object_get_type x s' = rt_object_get_type x s"
    and "t_current_priority (k_thr s' u) = t_current_priority (k_thr s u)"
    and "t_event_set (k_thr s' u) = t_event_set (k_thr s u)"
    and "t_event_info (k_thr s' u) = t_event_info (k_thr s u)"
    and "Obj p \<in> set (k_tlist s') \<longleftrightarrow> Obj p \<in> set (k_tlist s)"
  using assms by (simp_all add: ipc_frame_def)

lemma ipc_frame_sched: "sched_frame s s' \<Longrightarrow> ipc_frame s s'"
  using timer_flag_cong(4) [OF sched_frameD(4) [of s s']] sched_frameD [of s s']
  by (simp add: ipc_frame_def)

lemma timer_off_obj [simp]: "k_obj (timer_off t s) (Obj p) = k_obj s (Obj p)"
  by (simp add: timer_off_def timer_deactivate_def set_timer_flag_def timer_remove_def)

text \<open>The timers of the application in the list stay there when a thread timer comes or goes.\<close>

lemma timer_off_user [simp]: "Obj p \<in> set (k_tlist (timer_off t s)) \<longleftrightarrow> Obj p \<in> set (k_tlist s)"
  by (simp add: timer_off_def timer_deactivate_def set_timer_flag_def timer_remove_def in_set_remove1)

lemma timed_user [simp]: "Obj p \<in> set (k_tlist (timed t tick s)) \<longleftrightarrow> Obj p \<in> set (k_tlist s)"
  by (simp add: timed_def timer_started_def Let_def set_timer_flag_def timer_deactivate_def timer_remove_def
      in_set_remove1)

lemma timed_obj [simp]: "k_obj (timed t tick s) (Obj p) = k_obj s (Obj p)"
  by (simp add: timed_def timer_started_def Let_def set_timer_flag_def timer_deactivate_def)

lemma ipc_frame_steps:
  "ipc_frame s (woken t s)" "ipc_frame s (suspended t s)" "ipc_frame s (timed t tick s)"
  "ipc_frame s (q_put q xs t s)" "ipc_frame s (set_thr t (\<lambda>th. th\<lparr>t_error := e\<rparr>) s)"
proof -
  have ty: "rt_object_get_type x s' = rt_object_get_type x s" if "k_obj s' = k_obj s" for x s'
    using that by (rule timer_flag_cong(4))
  have "rt_object_get_type x (woken t s) = rt_object_get_type x (timer_off t s)" for x
    by (rule timer_flag_cong(4)) simp
  then show "ipc_frame s (woken t s)" by (simp add: ipc_frame_def)
  show "ipc_frame s (suspended t s)"
    using ty [of "set_thr t (set_stat RT_THREAD_SUSPEND) (removed t s)"]
    by (simp add: ipc_frame_def suspended_def set_stat_def)
  show "ipc_frame s (timed t tick s)"
    by (simp add: ipc_frame_def) (simp add: timed_def)
  show "ipc_frame s (q_put q xs t s)" using ty [of "q_put q xs t s"] by (simp add: ipc_frame_def)
  show "ipc_frame s (set_thr t (\<lambda>th. th\<lparr>t_error := e\<rparr>) s)"
    using ty [of "set_thr t (\<lambda>th. th\<lparr>t_error := e\<rparr>) s"] by (simp add: ipc_frame_def)
qed


section \<open>A healthy system\<close>

text \<open>The state between two operations of an unlocked, started system: the current thread is
  RUNNING, and the idle thread, which never waits, is READY or RUNNING.\<close>

definition healthy :: "ptr \<Rightarrow> kstate \<Rightarrow> bool" where
  "healthy idle s \<longleftrightarrow> sys_inv 0 s \<and> k_lock s = 0 \<and> k_cur s \<noteq> RT_NULL \<and>
     stat_of (k_thr s (k_cur s)) = RT_THREAD_RUNNING \<and> runs idle s"

lemma healthyD:
  assumes "healthy idle s"
  shows "sys_inv 0 s" and "k_lock s = 0" and "k_cur s \<noteq> RT_NULL"
    and "stat_of (k_thr s (k_cur s)) = RT_THREAD_RUNNING" and "runs idle s" and "kinv s"
    and "kinv_but {} s"
  using assms by (auto simp: healthy_def sys_inv_def kinv_def)

lemma ready_group:
  assumes "kinv_but {} s" and "stat_of (k_thr s u) = RT_THREAD_READY"
  shows "k_group s \<noteq> 0"
proof -
  have "u \<in> set (k_q s (Ready (unat (t_current_priority (k_thr s u)))))"
    using ready_member [OF assms(1), of u] assms(2) by simp
  then show ?thesis
    using kinv_butD(2) [OF assms(1)] ready_queue(4) [OF assms(1)]
    unfolding group_ok_def by (metis bit_0_eq bot_apply bot_bool_def empty_iff list.set(1))
qed

lemma schedule_runs:
  assumes inv: "sys_inv lo s" and l: "k_lock s = 0" and cur: "k_cur s \<noteq> RT_NULL" and idle: "runs idle s"
  shows "\<exists>s'. rt_schedule s = Some s' \<and> sys_inv lo s' \<and> sched_frame s s' \<and> k_cur s' \<noteq> RT_NULL \<and>
     stat_of (k_thr s' (k_cur s')) = RT_THREAD_RUNNING \<and>
     (\<forall>u. runs u s' = runs u s) \<and>
     (\<forall>u. \<not> runs u s \<longrightarrow> stat_of (k_thr s' u) = stat_of (k_thr s u)) \<and>
     (\<forall>u. stat_of (k_thr s' u) = RT_THREAD_READY \<longrightarrow> prio_index (k_cur s') s' \<le> prio_index u s')"
proof -
  note k = sys_invD(1) [OF inv]
  obtain s' where s': "rt_schedule s = Some s'" "sys_inv lo s'" "sched_frame s s'" "k_cur s' \<noteq> RT_NULL"
    using schedule_sys_inv [OF inv cur] by blast
  have hi: "stat_of (k_thr s' (k_cur s')) = RT_THREAD_RUNNING \<and>
      (\<forall>u. stat_of (k_thr s' u) = RT_THREAD_READY \<longrightarrow> prio_index (k_cur s') s' \<le> prio_index u s')"
  proof (cases "k_group s = 0")
    case True
    then have none: "stat_of (k_thr s u) \<noteq> RT_THREAD_READY" for u
      using ready_group [OF sys_invD(2) [OF inv]] by auto
    have "s' = s" using s'(1) True by (simp add: rt_schedule_def)
    moreover have "stat_of (k_thr s idle) = RT_THREAD_RUNNING" using idle none by (auto simp: runs_def)
    moreover from this have "idle = k_cur s" using kinv_butD(6) [OF sys_invD(2) [OF inv]] by simp
    ultimately show ?thesis using none by simp
  qed (use schedule_highest [OF k cur l] s'(1) in auto)
  have st: "runs u s' = runs u s \<and> (\<not> runs u s \<longrightarrow> stat_of (k_thr s' u) = stat_of (k_thr s u))" for u
    using rt_schedule_stat [OF k cur s'(1), of u] by (auto simp: runs_def)
  then show ?thesis using s' hi by blast
qed

lemma schedule_healthy:
  assumes inv: "sys_inv 0 s" and l: "k_lock s = 0" and cur: "k_cur s \<noteq> RT_NULL" and idle: "runs idle s"
  shows "\<exists>s'. rt_schedule s = Some s' \<and> healthy idle s' \<and> sched_frame s s' \<and>
     (\<forall>u. runs u s' = runs u s) \<and>
     (\<forall>u. \<not> runs u s \<longrightarrow> stat_of (k_thr s' u) = stat_of (k_thr s u)) \<and>
     (\<forall>u. stat_of (k_thr s' u) = RT_THREAD_READY \<longrightarrow> prio_index (k_cur s') s' \<le> prio_index u s')"
proof -
  from schedule_runs [OF assms] obtain s' where s': "rt_schedule s = Some s'" "sys_inv 0 s'" "sched_frame s s'"
    "k_cur s' \<noteq> RT_NULL" "stat_of (k_thr s' (k_cur s')) = RT_THREAD_RUNNING" "\<forall>u. runs u s' = runs u s"
    "\<forall>u. \<not> runs u s \<longrightarrow> stat_of (k_thr s' u) = stat_of (k_thr s u)"
    "\<forall>u. stat_of (k_thr s' u) = RT_THREAD_READY \<longrightarrow> prio_index (k_cur s') s' \<le> prio_index u s'"
    by (elim exE conjE)
  then have "healthy idle s'" using l idle sched_frameD(1) [OF s'(3)] by (simp add: healthy_def)
  then show ?thesis using s' by blast
qed


section \<open>Blocking\<close>

text \<open>The thread suspended and linked in \<open>q\<close>, which then holds \<open>ys\<close>.\<close>

definition parked_at :: "qid \<Rightarrow> ptr list \<Rightarrow> ptr \<Rightarrow> kstate \<Rightarrow> kstate" where
  "parked_at q ys t s = q_put q ys t (suspended t s)"

lemma parked_at_fields [simp]:
  "k_cur (parked_at q ys t s) = k_cur s" "k_lock (parked_at q ys t s) = k_lock s"
  "k_tick (parked_at q ys t s) = k_tick s" "k_irq (parked_at q ys t s) = k_irq s"
  by (simp_all add: parked_at_def)

lemma parked_at_thr:
  "k_thr (parked_at q ys t s) u =
     (if u = t then (set_stat RT_THREAD_SUSPEND (k_thr s t))\<lparr>t_tlist := Some q\<rparr> else k_thr s u)"
  by (cases "k_thr s t") (simp add: parked_at_def set_stat_def)

lemma parked_at_q: "k_q (parked_at q ys t s) q' = (if q' = q then ys else k_q (tlist_remove t s) q')"
  by (simp add: parked_at_def)

lemma parked_at_frame: "ipc_frame s (parked_at q ys t s)"
  unfolding parked_at_def by (rule ipc_frame_trans [OF ipc_frame_steps(2,4)])

lemma parked_at_inv:
  assumes inv: "sys_inv lo s"
    and t: "stat_of (k_thr s t) = RT_THREAD_READY \<or> stat_of (k_thr s t) = RT_THREAD_RUNNING"
    and q: "waiting q" and ys: "distinct ys" "set ys = insert t (set (k_q (suspended t s) q))"
  shows "rt_thread_suspend t s = Some (RT_EOK, suspended t s)" and "link_ok t (suspended t s)"
    and "links_ok (suspended t s)" and "sys_inv lo (parked_at q ys t s)"
proof -
  let ?s1 = "suspended t s" and ?s2 = "parked_at q ys t s"
  have sus: "rt_thread_suspend t s = Some (RT_EOK, ?s1)" "sys_inv lo ?s1"
    using suspended_inv [OF inv t] by auto
  note k1 = sys_invD(2) [OF sus(2)]
  have free: "link_ok t ?s1" by (simp add: link_ok_def)
  have q_eq: "k_q ?s2 = (k_q ?s1)(q := ys)" by (simp add: parked_at_def)
  have thr: "k_thr ?s2 u = (if u = t then (k_thr ?s1 t)\<lparr>t_tlist := Some q\<rparr> else k_thr ?s1 u)" for u
    by (simp add: parked_at_def)
  have "kinv_but {} ?s2"
  proof (rule kinv_butI)
    show "links_ok ?s2"
      using links_ok_put [OF kinv_butD(1) [OF k1] free ys] by (simp add: parked_at_def)
    have "k_q ?s2 (Ready p) = k_q ?s1 (Ready p)" for p
      using waiting_not_ready [OF q] unfolding q_eq by (metis fun_upd_other)
    moreover have "k_group ?s2 = k_group ?s1" by (simp add: parked_at_def)
    ultimately show "group_ok ?s2"
      using kinv_butD(2) [OF k1] by (simp only: group_ok_def)
    fix u
    show "prio_ok (k_thr ?s2 u)" using kinv_butD(3) [OF k1, of u] unfolding thr by (cases "u = t") simp_all
    show "node_ok (k_thr ?s2 u)" using kinv_butD(5) [OF k1, of u] q unfolding thr
      by (cases "u = t") (auto simp: node_ok_stat waiting_def)
    show "stat_of (k_thr ?s2 u) = RT_THREAD_RUNNING \<Longrightarrow> u = k_cur ?s2"
      using kinv_butD(6) [OF k1, of u] unfolding thr by (cases "u = t") auto
    show "stat_of (k_thr ?s2 RT_NULL) = RT_THREAD_INIT"
      using kinv_butD(7) [OF k1] unfolding thr by (cases "t = RT_NULL") simp_all
  qed simp
  then have k2: "kinv ?s2" by (simp add: kinv_def)
  show "sys_inv lo ?s2"
  proof (rule sys_inv_off_step [where t = t, OF sus(2) k2])
    have off: "timer_off t ?s1 = ?s1"
    proof -
      have "\<not> timer_activated (TimerOf t) ?s1"
        by (simp add: suspended_def timer_off_def)
      then show ?thesis by (simp add: timer_off_def)
    qed
    show "k_obj ?s2 = k_obj (timer_off t ?s1)" "k_tlist ?s2 = k_tlist (timer_off t ?s1)"
      unfolding off by (simp_all add: parked_at_def)
  qed (simp_all add: thr, simp_all add: parked_at_def)
  show "rt_thread_suspend t s = Some (RT_EOK, ?s1)" by (rule sus(1))
  show "link_ok t ?s1" by (rule free)
  show "links_ok ?s1" by (rule kinv_butD(1) [OF k1])
qed

definition parked :: "qid \<Rightarrow> ptr \<Rightarrow> u8 \<Rightarrow> kstate \<Rightarrow> kstate" where
  "parked q t flag s = parked_at q (wait_insert flag (prio_of s) t (k_q (suspended t s) q)) t s"

lemma parked_fields [simp]:
  "k_cur (parked q t flag s) = k_cur s" "k_lock (parked q t flag s) = k_lock s"
  "k_tick (parked q t flag s) = k_tick s"
  by (simp_all add: parked_def)

lemma parked_thr:
  "k_thr (parked q t flag s) u =
     (if u = t then (set_stat RT_THREAD_SUSPEND (k_thr s t))\<lparr>t_tlist := Some q\<rparr> else k_thr s u)"
  by (simp add: parked_def parked_at_thr)

lemma parked_q:
  "k_q (parked q t flag s) q' =
     (if q' = q then wait_insert flag (prio_of s) t (k_q (tlist_remove t s) q)
      else k_q (tlist_remove t s) q')"
  by (simp add: parked_def parked_at_q)

lemma parked_frame: "ipc_frame s (parked q t flag s)"
  unfolding parked_def by (rule parked_at_frame)

lemma distinct_wait_insert:
  assumes "distinct xs" and "t \<notin> set xs"
  shows "distinct (wait_insert flag prio t xs)"
proof -
  have "distinct (takeWhile P xs @ t # dropWhile P xs)" for P
  proof -
    have "distinct (takeWhile P xs @ dropWhile P xs)" "set (takeWhile P xs @ dropWhile P xs) = set xs"
      using assms(1) by simp_all
    then show ?thesis using assms(2) by (auto simp del: takeWhile_dropWhile_id)
  qed
  then show ?thesis using assms by (simp add: wait_insert_def)
qed

lemma list_suspend_parked:
  assumes inv: "sys_inv lo s"
    and t: "stat_of (k_thr s t) = RT_THREAD_READY \<or> stat_of (k_thr s t) = RT_THREAD_RUNNING"
    and q: "waiting q" and flag: "flag \<in> {RT_IPC_FLAG_FIFO, RT_IPC_FLAG_PRIO}"
  shows "rt_ipc_list_suspend q t flag s = Some (RT_EOK, parked q t flag s)"
    and "sys_inv lo (parked q t flag s)"
proof -
  let ?s1 = "suspended t s" and ?ys = "wait_insert flag (prio_of s) t (k_q (suspended t s) q)"
  have l: "links_ok ?s1" using suspended_inv [OF inv t] sys_invD(2) kinv_butD(1) by blast
  have free: "link_ok t ?s1" by (simp add: link_ok_def)
  have "distinct ?ys"
    using links_okD(1) [OF l, of q] links_okD(2) [OF l, of t q] free [unfolded link_ok_def]
    by (intro distinct_wait_insert) auto
  note p = parked_at_inv [OF inv t q this set_wait_insert]
  show "sys_inv lo (parked q t flag s)" using p(4) by (simp add: parked_def)
  have pr: "prio_of ?s1 = prio_of s" by (auto simp: fun_eq_iff)
  have "ipc_list_insert q t flag ?s1 = Some (parked q t flag s)"
    using ipc_list_insert_eval [OF l free flag, of q] unfolding pr parked_def parked_at_def by simp
  then show "rt_ipc_list_suspend q t flag s = Some (RT_EOK, parked q t flag s)"
    using p(1) by (simp add: rt_ipc_list_suspend_def)
qed

text \<open>The current thread waits: it is in the list, at its place; another thread has the processor.\<close>

lemma own_queue: "healthy idle s \<Longrightarrow> k_q (tlist_remove (k_cur s) s) = k_q s"
  using kinv_butD(5) [OF healthyD(7), of idle s "k_cur s"] healthyD(4) [of idle s] by (simp add: node_ok_stat)

lemma suspended_own: "healthy idle s \<Longrightarrow> k_q (suspended (k_cur s) s) = k_q s"
  using own_queue by simp

lemma park_core:
  assumes h: "healthy idle s" and ni: "k_cur s \<noteq> idle" and q: "waiting q"
    and ys: "distinct ys" "set ys = insert (k_cur s) (set (k_q s q))" and time: "time \<noteq> TICK_HALF"
  shows "\<exists>s'. Option.bind (if 0 < sint time then sleep_timer (k_cur s) time (parked_at q ys (k_cur s) s)
                else Some (parked_at q ys (k_cur s) s)) rt_schedule = Some s' \<and>
     healthy idle s' \<and> ipc_frame s s' \<and>
     k_cur s' \<noteq> k_cur s \<and> stat_of (k_thr s' (k_cur s)) = RT_THREAD_SUSPEND \<and> k_tick s' = k_tick s \<and>
     k_q s' q = ys \<and> (\<forall>q'. waiting q' \<longrightarrow> q' \<noteq> q \<longrightarrow> k_q s' q' = k_q s q') \<and>
     (\<forall>u. u \<noteq> k_cur s \<longrightarrow> runs u s' = runs u s) \<and> (\<forall>u. t_error (k_thr s' u) = t_error (k_thr s u)) \<and>
     (if 0 < sint time then TimerOf (k_cur s) \<in> set (k_tlist s') \<and> trem s' (TimerOf (k_cur s)) = sint time
      else TimerOf (k_cur s) \<notin> set (k_tlist s'))"
proof -
  let ?t = "k_cur s"
  define s1 where "s1 = parked_at q ys ?t s"
  define s2 where "s2 = (if 0 < sint time then timed ?t time s1 else s1)"
  have run: "stat_of (k_thr s ?t) = RT_THREAD_READY \<or> stat_of (k_thr s ?t) = RT_THREAD_RUNNING"
    using healthyD(4) [OF h] by simp
  have inv1: "sys_inv 0 s1"
    using parked_at_inv(4) [OF healthyD(1) [OF h] run q ys(1)] ys(2) suspended_own [OF h] by (simp add: s1_def)
  have st1: "stat_of (k_thr s1 ?t) = RT_THREAD_SUSPEND" by (simp add: s1_def parked_at_thr)
  have small: "time < TICK_HALF" if "0 < sint time"
  proof -
    have "sint time \<noteq> 0x7fffffff"
    proof
      assume eq: "sint time = 0x7fffffff"
      have "time = word_of_int (sint time)" by simp
      also have "\<dots> = TICK_HALF" by (simp only: eq) (simp add: TICK_HALF_def)
      finally show False using time by simp
    qed
    then show ?thesis using that sint_lt [of time] by (simp add: less_half)
  qed
  have tm: "(if 0 < sint time then sleep_timer ?t time s1 else Some s1) = Some s2" "sys_inv 0 s2"
    using timed_inv(1,2) [OF inv1 _ _ st1 small] inv1 by (auto simp: s2_def)
  have f2: "k_cur s2 = ?t" "k_lock s2 = k_lock s" "k_tick s2 = k_tick s" "k_q s2 = k_q s1" "k_thr s2 = k_thr s1"
    by (simp_all add: s2_def s1_def)
  have r2: "runs u s2 = runs u s" if "u \<noteq> ?t" for u
    using that f2(5) by (simp add: runs_def s1_def parked_at_thr)
  have fr2: "ipc_frame s s2"
    using ipc_frame_trans [OF parked_at_frame ipc_frame_steps(3)] parked_at_frame by (simp add: s2_def s1_def)
  obtain s' where s': "rt_schedule s2 = Some s'" "healthy idle s'" "sched_frame s2 s'"
    "\<forall>u. runs u s' = runs u s2" "\<forall>u. \<not> runs u s2 \<longrightarrow> stat_of (k_thr s' u) = stat_of (k_thr s2 u)"
    using schedule_healthy [OF tm(2), of idle] f2(1,2) healthyD(2,3,5) [OF h] r2 [of idle] ni by auto
  have blocked: "stat_of (k_thr s' ?t) = RT_THREAD_SUSPEND"
    using s'(5) st1 f2(5) by (simp add: runs_def)
  have qs: "k_q s' q' = (if q' = q then ys else k_q s q')" if "waiting q'" for q'
  proof -
    have "k_q s' q' = k_q s1 q'"
      using that sched_frameD(12,13) [OF s'(3)] f2(4) by (auto simp: waiting_def)
    then show ?thesis unfolding s1_def parked_at_q own_queue [OF h] .
  qed
  have "t_error (k_thr s2 u) = t_error (k_thr s u)" for u
    by (simp add: f2(5) s1_def parked_at_thr)
  then have err: "t_error (k_thr s' u) = t_error (k_thr s u)" for u
    using sched_frameD(15) [OF s'(3), of u] by simp
  have timer: "if 0 < sint time then TimerOf ?t \<in> set (k_tlist s') \<and> trem s' (TimerOf ?t) = sint time
      else TimerOf ?t \<notin> set (k_tlist s')"
  proof (cases "0 < sint time")
    case True
    then show ?thesis
      using timed_inv(3,4) [OF inv1 _ _ st1 small [OF True]] sched_frameD(3,6,7) [OF s'(3)]
      by (simp add: s2_def trem_def)
  next
    case False
    have "TimerOf ?t \<notin> set (k_tlist s)"
      using sys_invD(5) [OF healthyD(1) [OF h]] healthyD(4) [OF h] by (auto simp: ttimer_ok_def)
    then have "TimerOf ?t \<notin> set (k_tlist s1)"
      using timer_off_list [of "TimerOf ?t" ?t "set_thr ?t (set_stat RT_THREAD_SUSPEND) (removed ?t s)"]
      by (auto simp: s1_def parked_at_def suspended_def)
    then show ?thesis using False sched_frameD(7) [OF s'(3)] by (simp add: s2_def)
  qed
  have "Option.bind (if 0 < sint time then sleep_timer ?t time s1 else Some s1) rt_schedule = Some s'"
    using s'(1) unfolding tm(1) by simp
  moreover have "k_cur s' \<noteq> ?t" using blocked healthyD(4) [OF s'(2)] by auto
  ultimately show ?thesis
    using s'(2,4) blocked qs [OF q] qs err timer r2 f2(3) sched_frameD(3) [OF s'(3)]
      ipc_frame_trans [OF fr2 ipc_frame_sched [OF s'(3)]] q
    unfolding s1_def by (intro exI [of _ s']) auto
qed

lemma place_ok:
  assumes h: "healthy idle s" and q: "waiting q"
  shows "k_cur s \<notin> set (k_q s q)" and "distinct (k_q s q)"
proof -
  note l = kinv_butD(1) [OF healthyD(7) [OF h]]
  have "t_tlist (k_thr s (k_cur s)) = None"
    using kinv_butD(5) [OF healthyD(7) [OF h], of "k_cur s"] healthyD(4) [OF h] by (simp add: node_ok_stat)
  then show "k_cur s \<notin> set (k_q s q)" using links_okD(2) [OF l, of "k_cur s" q] by simp
  show "distinct (k_q s q)" by (rule links_okD(1) [OF l])
qed

lemma wait_core:
  assumes h: "healthy idle s" and ni: "k_cur s \<noteq> idle" and q: "waiting q"
    and flag: "flag \<in> {RT_IPC_FLAG_FIFO, RT_IPC_FLAG_PRIO}" and time: "time \<noteq> TICK_HALF"
  shows "\<exists>s'. ipc_wait q (k_cur s) flag time s = Some s' \<and> healthy idle s' \<and> ipc_frame s s' \<and>
     k_cur s' \<noteq> k_cur s \<and> stat_of (k_thr s' (k_cur s)) = RT_THREAD_SUSPEND \<and> k_tick s' = k_tick s \<and>
     k_q s' q = wait_insert flag (prio_of s) (k_cur s) (k_q s q) \<and>
     (\<forall>q'. waiting q' \<longrightarrow> q' \<noteq> q \<longrightarrow> k_q s' q' = k_q s q') \<and>
     (\<forall>u. u \<noteq> k_cur s \<longrightarrow> runs u s' = runs u s) \<and> (\<forall>u. t_error (k_thr s' u) = t_error (k_thr s u)) \<and>
     (if 0 < sint time then TimerOf (k_cur s) \<in> set (k_tlist s') \<and> trem s' (TimerOf (k_cur s)) = sint time
      else TimerOf (k_cur s) \<notin> set (k_tlist s'))"
proof -
  have run: "stat_of (k_thr s (k_cur s)) = RT_THREAD_READY \<or> stat_of (k_thr s (k_cur s)) = RT_THREAD_RUNNING"
    using healthyD(4) [OF h] by simp
  let ?ys = "wait_insert flag (prio_of s) (k_cur s) (k_q s q)"
  have "parked q (k_cur s) flag s = parked_at q ?ys (k_cur s) s"
    using suspended_own [OF h] by (simp add: parked_def)
  then have eq: "ipc_wait q (k_cur s) flag time s =
      Option.bind (if 0 < sint time then sleep_timer (k_cur s) time (parked_at q ?ys (k_cur s) s)
        else Some (parked_at q ?ys (k_cur s) s)) rt_schedule"
    using list_suspend_parked(1) [OF healthyD(1) [OF h] run q flag] by (simp add: ipc_wait_def)
  show ?thesis
    unfolding eq by (rule park_core [OF h ni q distinct_wait_insert [OF place_ok(2,1) [OF h q]] set_wait_insert time])
qed

text \<open>The current thread of \<open>s\<close> waits in the list \<open>q\<close>, which is now \<open>ys\<close>, its error number reset and its
  timer running when there is a time limit, and another thread runs; nothing else changed. This is
  what every blocking call leads to; \<open>waits_in\<close> is the case of the lists with a flag.\<close>

definition waits_at :: "ptr \<Rightarrow> qid \<Rightarrow> ptr list \<Rightarrow> u32 \<Rightarrow> kstate \<Rightarrow> kstate \<Rightarrow> bool" where
  "waits_at idle q ys time s s' \<longleftrightarrow>
     healthy idle s' \<and> ipc_frame s s' \<and> k_cur s' \<noteq> k_cur s \<and> k_tick s' = k_tick s \<and>
     stat_of (k_thr s' (k_cur s)) = RT_THREAD_SUSPEND \<and> t_error (k_thr s' (k_cur s)) = RT_EOK \<and>
     k_q s' q = ys \<and>
     (\<forall>q'. waiting q' \<longrightarrow> q' \<noteq> q \<longrightarrow> k_q s' q' = k_q s q') \<and>
     (\<forall>u. u \<noteq> k_cur s \<longrightarrow> runs u s' = runs u s \<and> t_error (k_thr s' u) = t_error (k_thr s u)) \<and>
     (if 0 < sint time
      then TimerOf (k_cur s) \<in> set (k_tlist s') \<and> trem s' (TimerOf (k_cur s)) = sint time
      else TimerOf (k_cur s) \<notin> set (k_tlist s'))"

definition waits_in :: "ptr \<Rightarrow> qid \<Rightarrow> u8 \<Rightarrow> u32 \<Rightarrow> kstate \<Rightarrow> kstate \<Rightarrow> bool" where
  "waits_in idle q flag time s s' \<longleftrightarrow>
     waits_at idle q (wait_insert flag (prio_of s) (k_cur s) (k_q s q)) time s s'"

lemma healthy_error [simp]:
  "healthy idle (set_thr t (\<lambda>th. th\<lparr>t_error := e\<rparr>) s) = healthy idle s"
  by (auto simp: healthy_def runs_def)

lemma park_reset:
  assumes h: "healthy idle s" and ni: "k_cur s \<noteq> idle" and q: "waiting q"
    and ys: "distinct ys" "set ys = insert (k_cur s) (set (k_q s q))" and time: "time \<noteq> TICK_HALF"
  defines "s2 \<equiv> parked_at q ys (k_cur s) (set_thr (k_cur s) (\<lambda>th. th\<lparr>t_error := RT_EOK\<rparr>) s)"
  shows "\<exists>s'. Option.bind (if 0 < sint time then sleep_timer (k_cur s) time s2 else Some s2) rt_schedule = Some s' \<and>
           waits_at idle q ys time s s'"
proof -
  define s1 where "s1 = set_thr (k_cur s) (\<lambda>th. th\<lparr>t_error := RT_EOK\<rparr>) s"
  have h1: "healthy idle s1" using h by (simp add: s1_def)
  have f1: "k_cur s1 = k_cur s" "k_tick s1 = k_tick s" "k_q s1 = k_q s"
    "ipc_frame s s1" "\<And>u. runs u s1 = runs u s" "t_error (k_thr s1 (k_cur s)) = RT_EOK"
    "\<And>u. u \<noteq> k_cur s \<Longrightarrow> t_error (k_thr s1 u) = t_error (k_thr s u)"
    using ipc_frame_steps(5) by (auto simp: s1_def fun_eq_iff runs_def)
  from park_core [OF h1 _ q ys(1) _ time, unfolded f1(1-3), OF ni ys(2)]
  obtain s' where s': "Option.bind (if 0 < sint time then sleep_timer (k_cur s) time s2 else Some s2) rt_schedule = Some s'"
    "healthy idle s'" "ipc_frame s1 s'"
    "k_cur s' \<noteq> k_cur s" "stat_of (k_thr s' (k_cur s)) = RT_THREAD_SUSPEND" "k_tick s' = k_tick s"
    "k_q s' q = ys" "\<forall>q'. waiting q' \<longrightarrow> q' \<noteq> q \<longrightarrow> k_q s' q' = k_q s q'"
    "\<forall>u. u \<noteq> k_cur s \<longrightarrow> runs u s' = runs u s1" "\<forall>u. t_error (k_thr s' u) = t_error (k_thr s1 u)"
    "if 0 < sint time
     then TimerOf (k_cur s) \<in> set (k_tlist s') \<and> trem s' (TimerOf (k_cur s)) = sint time
     else TimerOf (k_cur s) \<notin> set (k_tlist s')"
    unfolding s2_def s1_def by (elim exE conjE) blast
  have "waits_at idle q ys time s s'"
    unfolding waits_at_def
    using s'(2,4-8,11) s'(9,10) f1(5-7) ipc_frame_trans [OF f1(4) s'(3)] by simp
  then show ?thesis using s'(1) by auto
qed

lemma wait_reset:
  assumes h: "healthy idle s" and ni: "k_cur s \<noteq> idle" and q: "waiting q"
    and flag: "flag \<in> {RT_IPC_FLAG_FIFO, RT_IPC_FLAG_PRIO}" and time: "time \<noteq> TICK_HALF"
  shows "\<exists>s'. ipc_wait q (k_cur s) flag time (set_thr (k_cur s) (\<lambda>th. th\<lparr>t_error := RT_EOK\<rparr>) s) = Some s' \<and>
           waits_in idle q flag time s s'"
proof -
  let ?s1 = "set_thr (k_cur s) (\<lambda>th. th\<lparr>t_error := RT_EOK\<rparr>) s"
  let ?ys = "wait_insert flag (prio_of s) (k_cur s) (k_q s q)"
  have h1: "healthy idle ?s1" using h by simp
  have run: "stat_of (k_thr ?s1 (k_cur s)) = RT_THREAD_READY \<or> stat_of (k_thr ?s1 (k_cur s)) = RT_THREAD_RUNNING"
    using healthyD(4) [OF h] by simp
  have "wait_insert flag (prio_of ?s1) (k_cur s) (k_q s q) = ?ys" by (rule wait_insert_cong) simp_all
  then have "parked q (k_cur s) flag ?s1 = parked_at q ?ys (k_cur s) ?s1"
    using suspended_own [OF h1] by (simp add: parked_def)
  then have eq: "ipc_wait q (k_cur s) flag time ?s1 =
      Option.bind (if 0 < sint time then sleep_timer (k_cur s) time (parked_at q ?ys (k_cur s) ?s1)
        else Some (parked_at q ?ys (k_cur s) ?s1)) rt_schedule"
    using list_suspend_parked(1) [OF healthyD(1) [OF h1] run q flag] by (simp add: ipc_wait_def)
  show ?thesis
    unfolding eq waits_in_def
    by (rule park_reset [OF h ni q distinct_wait_insert [OF place_ok(2,1) [OF h q]] set_wait_insert time])
qed

lemma waits_atD:
  assumes "waits_at idle q ys time s s'"
  shows "healthy idle s'" and "ipc_frame s s'" and "k_cur s' \<noteq> k_cur s" and "k_tick s' = k_tick s"
    and "stat_of (k_thr s' (k_cur s)) = RT_THREAD_SUSPEND" and "t_error (k_thr s' (k_cur s)) = RT_EOK"
    and "k_q s' q = ys"
    and "waiting q' \<Longrightarrow> q' \<noteq> q \<Longrightarrow> k_q s' q' = k_q s q'"
    and "u \<noteq> k_cur s \<Longrightarrow> runs u s' = runs u s"
    and "u \<noteq> k_cur s \<Longrightarrow> t_error (k_thr s' u) = t_error (k_thr s u)"
    and "if 0 < sint time
      then TimerOf (k_cur s) \<in> set (k_tlist s') \<and> trem s' (TimerOf (k_cur s)) = sint time
      else TimerOf (k_cur s) \<notin> set (k_tlist s')"
  using assms unfolding waits_at_def by blast+

lemmas waits_inD = waits_atD [OF waits_in_def [THEN iffD1]]


section \<open>Waking\<close>

lemma waiting_suspended:
  assumes "kinv_but X s" and "waiting q" and "t \<in> set (k_q s q)"
  shows "stat_of (k_thr s t) = RT_THREAD_SUSPEND" and "t_tlist (k_thr s t) = Some q"
    and "t \<notin> X"
proof -
  show l: "t_tlist (k_thr s t) = Some q"
    using links_okD(2) [OF kinv_butD(1) [OF assms(1)]] assms(3) by blast
  show tX: "t \<notin> X"
    using kinv_butD(4) [OF assms(1)] l by (auto simp: link_ok_def)
  show "stat_of (k_thr s t) = RT_THREAD_SUSPEND"
    using kinv_butD(5) [OF assms(1) tX] l assms(2) by (auto simp: node_ok_def waiting_def split: if_splits)
qed

lemma list_resume_woken:
  assumes inv: "sys_inv lo s" and q: "waiting q" "k_q s q = w # ws"
  shows "rt_ipc_list_resume q s = Some (RT_EOK, woken w s)" and "sys_inv lo (woken w s)"
    and "k_q (woken w s) q = ws" and "waiting q' \<Longrightarrow> q' \<noteq> q \<Longrightarrow> k_q (woken w s) q' = k_q s q'"
    and "w \<noteq> RT_NULL" and "stat_of (k_thr s w) = RT_THREAD_SUSPEND"
proof -
  have st: "stat_of (k_thr s w) = RT_THREAD_SUSPEND" "t_tlist (k_thr s w) = Some q"
    using waiting_suspended [OF sys_invD(2) [OF inv] q(1), of w] q(2) by auto
  show "rt_ipc_list_resume q s = Some (RT_EOK, woken w s)" "sys_inv lo (woken w s)"
    using resume_woken [OF inv st(1)] q(2) by (simp_all add: rt_ipc_list_resume_def)
  show "k_q (woken w s) q = ws"
    using woken_q [OF waiting_not_ready [OF q(1)], of w s] st(2) q(2) by simp
  show "k_q (woken w s) q' = k_q s q'" if "waiting q'" "q' \<noteq> q"
    using woken_q [OF waiting_not_ready [OF that(1)], of w s] st(2) that(2) by simp
  show "w \<noteq> RT_NULL" using suspended_mask [OF inv st(1)] by simp
  show "stat_of (k_thr s w) = RT_THREAD_SUSPEND" by (rule st(1))
qed

text \<open>The first thread \<open>w\<close> of the list \<open>q\<close> has left it and can run; the processor has gone to a thread
  of the highest priority; nothing else changed.\<close>

definition wakes_first :: "ptr \<Rightarrow> qid \<Rightarrow> ptr \<Rightarrow> kstate \<Rightarrow> kstate \<Rightarrow> bool" where
  "wakes_first idle q w s s' \<longleftrightarrow>
     healthy idle s' \<and> ipc_frame s s' \<and> k_tick s' = k_tick s \<and> k_q s q = w # k_q s' q \<and>
     (\<forall>q'. waiting q' \<longrightarrow> q' \<noteq> q \<longrightarrow> k_q s' q' = k_q s q') \<and>
     runs w s' \<and> (\<forall>u. u \<noteq> w \<longrightarrow> runs u s' = runs u s) \<and>
     (\<forall>u. t_error (k_thr s' u) = t_error (k_thr s u)) \<and>
     (\<forall>u. stat_of (k_thr s' u) = RT_THREAD_READY \<longrightarrow> prio_index (k_cur s') s' \<le> prio_index u s')"

lemma wakes_firstD:
  assumes "wakes_first idle q w s s'"
  shows "healthy idle s'" and "ipc_frame s s'" and "k_tick s' = k_tick s" and "k_q s q = w # k_q s' q"
    and "waiting q' \<Longrightarrow> q' \<noteq> q \<Longrightarrow> k_q s' q' = k_q s q'"
    and "runs w s'" and "u \<noteq> w \<Longrightarrow> runs u s' = runs u s"
    and "t_error (k_thr s' u) = t_error (k_thr s u)"
    and "stat_of (k_thr s' u) = RT_THREAD_READY \<Longrightarrow> prio_index (k_cur s') s' \<le> prio_index u s'"
  using assms unfolding wakes_first_def by blast+

lemma wake_core:
  assumes h: "healthy idle s" and q: "waiting q" "k_q s q = w # ws"
  shows "\<exists>s'. rt_ipc_list_resume q s = Some (RT_EOK, woken w s) \<and> rt_schedule (woken w s) = Some s' \<and>
     wakes_first idle q w s s'"
proof -
  note wk = list_resume_woken [OF healthyD(1) [OF h] q]
  let ?s1 = "woken w s"
  have r1: "runs w ?s1" "\<And>u. u \<noteq> w \<Longrightarrow> runs u ?s1 = runs u s"
    using woken_stat [of w s] by (auto simp: runs_def)
  then have "runs idle ?s1" using healthyD(5) [OF h] by (cases "idle = w") auto
  then obtain s' where s': "rt_schedule ?s1 = Some s'" "healthy idle s'" "sched_frame ?s1 s'"
    "\<forall>u. runs u s' = runs u ?s1"
    "\<forall>u. stat_of (k_thr s' u) = RT_THREAD_READY \<longrightarrow> prio_index (k_cur s') s' \<le> prio_index u s'"
    using schedule_healthy [OF wk(2), of idle] healthyD(2,3) [OF h] by auto
  have "k_q s' q' = k_q ?s1 q'" if "waiting q'" for q'
    using that sched_frameD(12,13) [OF s'(3)] by (auto simp: waiting_def)
  then show ?thesis
    unfolding wakes_first_def
    using s' wk(1,3,4) q r1 sched_frameD(3,15) [OF s'(3)]
      ipc_frame_trans [OF ipc_frame_steps(1) ipc_frame_sched [OF s'(3)]]
    by (intro exI [of _ s']) auto
qed

text \<open>\<open>rt_ipc_list_resume_all\<close> ends: every thread of the list can run again, with the error
  \<open>RT_ERROR\<close>, and the list is empty.\<close>

lemma resume_all_total:
  "sys_inv lo s \<Longrightarrow> waiting q \<Longrightarrow> k_q s q = ws \<Longrightarrow>
   \<exists>s'. rt_ipc_list_resume_all q s = Some (RT_EOK, s') \<and> sys_inv lo s' \<and> ipc_frame s s' \<and>
     k_q s' q = [] \<and> (\<forall>q'. waiting q' \<longrightarrow> q' \<noteq> q \<longrightarrow> k_q s' q' = k_q s q') \<and>
     k_cur s' = k_cur s \<and> k_tick s' = k_tick s \<and>
     (\<forall>u. runs u s' \<longleftrightarrow> runs u s \<or> u \<in> set ws) \<and>
     (\<forall>u. t_error (k_thr s' u) = (if u \<in> set ws then - RT_ERROR else t_error (k_thr s u)))"
proof (induction ws arbitrary: s)
  case Nil
  then show ?case by (subst rt_ipc_list_resume_all.simps) auto
next
  case (Cons w ws)
  let ?s1 = "set_thr w (\<lambda>th. th\<lparr>t_error := - RT_ERROR\<rparr>) s" and ?s2 = "woken w (set_thr w (\<lambda>th. th\<lparr>t_error := - RT_ERROR\<rparr>) s)"
  have inv1: "sys_inv lo ?s1" using Cons.prems(1) by simp
  have q1: "k_q ?s1 q = w # ws" using Cons.prems(3) by simp
  note wk = list_resume_woken [OF inv1 Cons.prems(2) q1]
  have d: "distinct (w # ws)"
    using links_okD(1) [OF kinv_butD(1) [OF sys_invD(2) [OF Cons.prems(1)]], of q] Cons.prems(3) by simp
  obtain s' where s': "rt_ipc_list_resume_all q ?s2 = Some (RT_EOK, s')" "sys_inv lo s'" "ipc_frame ?s2 s'"
    "k_q s' q = []" "\<forall>q'. waiting q' \<longrightarrow> q' \<noteq> q \<longrightarrow> k_q s' q' = k_q ?s2 q'" "k_cur s' = k_cur ?s2"
    "k_tick s' = k_tick ?s2" "\<forall>u. runs u s' \<longleftrightarrow> runs u ?s2 \<or> u \<in> set ws"
    "\<forall>u. t_error (k_thr s' u) = (if u \<in> set ws then - RT_ERROR else t_error (k_thr ?s2 u))"
    using Cons.IH [OF wk(2) Cons.prems(2) wk(3)] by blast
  have "rt_thread_resume w ?s1 = Some (RT_EOK, ?s2)"
    by (rule resume_woken(1) [OF inv1 wk(6)])
  then have "rt_ipc_list_resume_all q s = Some (RT_EOK, s')"
    using Cons.prems(3) s'(1) by (subst rt_ipc_list_resume_all.simps) (simp add: Let_def)
  moreover have "ipc_frame s s'"
    by (rule ipc_frame_trans [OF ipc_frame_steps(5) ipc_frame_trans [OF ipc_frame_steps(1) s'(3)]])
  moreover have "runs u ?s2 \<longleftrightarrow> runs u s \<or> u = w" for u
    using woken_stat [of w ?s1] by (cases "u = w") (auto simp: runs_def)
  then have "\<forall>u. runs u s' \<longleftrightarrow> runs u s \<or> u \<in> set (w # ws)" using s'(8) by auto
  moreover have "\<forall>q'. waiting q' \<longrightarrow> q' \<noteq> q \<longrightarrow> k_q s' q' = k_q s q'"
    using s'(5) wk(4) by simp
  ultimately show ?case
    using s'(2,4,6,7,9) d by (intro exI [of _ s']) auto
qed

text \<open>With the switch that follows it in the reset commands.\<close>

lemma resume_all_healthy:
  assumes "sys_inv 0 s" "ipc_frame s0 s" "k_cur s = k_cur s0" "\<forall>u. runs u s0 \<longrightarrow> runs u s" "healthy idle s0"
  shows "\<exists>s'. rt_schedule s = Some s' \<and> healthy idle s' \<and> ipc_frame s0 s' \<and> (\<forall>u. runs u s' = runs u s) \<and>
    (\<forall>q. waiting q \<longrightarrow> k_q s' q = k_q s q) \<and> (\<forall>u. t_error (k_thr s' u) = t_error (k_thr s u)) \<and>
    k_tick s' = k_tick s"
proof -
  obtain s' where s': "rt_schedule s = Some s'" "healthy idle s'" "sched_frame s s'" "\<forall>u. runs u s' = runs u s"
    using schedule_healthy [OF assms(1), of idle] assms(3,4) healthyD(2,3,5) [OF assms(5)]
      ipc_frameD(8) [OF assms(2)] by auto
  have "k_q s' q = k_q s q" if "waiting q" for q
    using that sched_frameD(12,13) [OF s'(3)] by (auto simp: waiting_def)
  then show ?thesis
    using s' ipc_frame_trans [OF assms(2) ipc_frame_sched [OF s'(3)]] sched_frameD(3,15) [OF s'(3)]
    by (intro exI [of _ s']) auto
qed

text \<open>The first thread of a list woken, when there is one.\<close>

definition wakes_any :: "ptr \<Rightarrow> qid \<Rightarrow> kstate \<Rightarrow> kstate \<Rightarrow> bool" where
  "wakes_any idle q s s' \<longleftrightarrow>
     (if k_q s q = [] then healthy idle s \<and> s' = s else wakes_first idle q (hd (k_q s q)) s s')"

lemma wake_any:
  assumes h: "healthy idle s" and q: "waiting q"
  shows "\<exists>s'. (if k_q s q \<noteq> []
             then do { (_, s) \<leftarrow> rt_ipc_list_resume q s; s \<leftarrow> rt_schedule s; Some (f s) }
             else Some (f s)) = Some (f s') \<and> wakes_any idle q s s'"
proof (cases "k_q s q")
  case Nil
  then show ?thesis using h by (auto simp: wakes_any_def)
next
  case (Cons w ws)
  then obtain s' where "rt_ipc_list_resume q s = Some (RT_EOK, woken w s)" "rt_schedule (woken w s) = Some s'"
    "wakes_first idle q w s s'"
    using wake_core [OF h q] by blast
  then show ?thesis using Cons by (intro exI [of _ s']) (simp add: wakes_any_def)
qed

lemma wakes_anyD:
  assumes "wakes_any idle q s s'"
  shows "healthy idle s'" and "ipc_frame s s'" and "k_tick s' = k_tick s" and "k_q s' q = tl (k_q s q)"
    and "waiting q' \<Longrightarrow> q' \<noteq> q \<Longrightarrow> k_q s' q' = k_q s q'"
    and "runs u s' \<longleftrightarrow> runs u s \<or> k_q s q \<noteq> [] \<and> u = hd (k_q s q)"
    and "t_error (k_thr s' u) = t_error (k_thr s u)"
proof -
  have "healthy idle s' \<and> ipc_frame s s' \<and> k_tick s' = k_tick s \<and> k_q s' q = tl (k_q s q) \<and>
     (\<forall>q'. waiting q' \<longrightarrow> q' \<noteq> q \<longrightarrow> k_q s' q' = k_q s q') \<and>
     (\<forall>u. runs u s' \<longleftrightarrow> runs u s \<or> k_q s q \<noteq> [] \<and> u = hd (k_q s q)) \<and>
     (\<forall>u. t_error (k_thr s' u) = t_error (k_thr s u))"
  proof (cases "k_q s q")
    case Nil
    then show ?thesis using assms by (simp add: wakes_any_def)
  next
    case (Cons w ws)
    then have f: "wakes_first idle q w s s'" using assms by (simp add: wakes_any_def)
    have "runs u s' \<longleftrightarrow> runs u s \<or> u = w" for u
      using wakes_firstD(6,7) [OF f] by (cases "u = w") auto
    then show ?thesis using wakes_firstD [OF f] Cons by simp
  qed
  then show "healthy idle s'" "ipc_frame s s'" "k_tick s' = k_tick s" "k_q s' q = tl (k_q s q)"
    "waiting q' \<Longrightarrow> q' \<noteq> q \<Longrightarrow> k_q s' q' = k_q s q'"
    "runs u s' \<longleftrightarrow> runs u s \<or> k_q s q \<noteq> [] \<and> u = hd (k_q s q)"
    "t_error (k_thr s' u) = t_error (k_thr s u)"
    by blast+
qed

end
