(* ===== verification/RTT_Sem.thy ===== *)
theory RTT_Sem
  imports RTT_Ipc
begin

text \<open>
  The counting semaphore of \<open>src/ipc.c\<close>. The shared operations on IPC objects (the initialisation of
  the waiting list, the flag in the object header) stand first; the other IPC theories use them too.
  \<open>rt_sem_take\<close> is split at its \<open>rt_schedule\<close> as in \<open>RTT_Thread\<close>.
\<close>

section \<open>IPC objects\<close>

text \<open>\<open>rt_ipc_object_init\<close>: \<open>rt_list_init\<close> on a list threads still wait in would lose them, a fault.\<close>

definition rt_ipc_object_init :: "qid \<Rightarrow> kstate \<Rightarrow> (rt_err \<times> kstate) option" where
  "rt_ipc_object_init q s = do { rt_assert (k_q s q = []); Some (RT_EOK, s) }"

definition ipc_flag :: "ptr \<Rightarrow> kstate \<Rightarrow> u8" where
  "ipc_flag p s = o_flag (k_obj s (Obj p))"

definition set_ipc_flag :: "ptr \<Rightarrow> u8 \<Rightarrow> kstate \<Rightarrow> kstate" where
  "set_ipc_flag p flag = set_obj (Obj p) (\<lambda>ob. ob\<lparr>o_flag := flag\<rparr>)"

definition is_class :: "u8 \<Rightarrow> ptr \<Rightarrow> kstate \<Rightarrow> bool" where
  "is_class c p s \<longleftrightarrow> p \<noteq> RT_NULL \<and> rt_object_get_type (Obj p) s = c"

abbreviation (input) RT_IPC_CMD_RESET :: int where "RT_IPC_CMD_RESET \<equiv> 1"


section \<open>Operations\<close>

definition set_sem :: "ptr \<Rightarrow> (rt_semaphore \<Rightarrow> rt_semaphore) \<Rightarrow> kstate \<Rightarrow> kstate" where
  "set_sem p f s = s\<lparr>k_sem := (k_sem s)(p := f (k_sem s p))\<rparr>"

abbreviation (input) sem_val :: "kstate \<Rightarrow> ptr \<Rightarrow> u16" where
  "sem_val s p \<equiv> sem_value (k_sem s p)"

definition rt_sem_init :: "ptr \<Rightarrow> string \<Rightarrow> u32 \<Rightarrow> u8 \<Rightarrow> kstate \<Rightarrow> (rt_err \<times> kstate) option" where
  "rt_sem_init p name value flag s = do {
     rt_assert (p \<noteq> RT_NULL);
     rt_assert (value < 0x10000);
     s \<leftarrow> rt_object_init (Obj p) Class_Semaphore name s;
     (_, s) \<leftarrow> rt_ipc_object_init (Susp p) s;
     let s = set_sem p (\<lambda>sem. sem\<lparr>sem_value := ucast value\<rparr>) s;
     Some (RT_EOK, set_ipc_flag p flag s)
   }"

definition rt_sem_detach :: "ptr \<Rightarrow> kstate \<Rightarrow> (rt_err \<times> kstate) option" where
  "rt_sem_detach p s = do {
     rt_assert (is_class Class_Semaphore p s);
     rt_assert (rt_object_is_systemobject (Obj p) s);
     (_, s) \<leftarrow> rt_ipc_list_resume_all (Susp p) s;
     Some (RT_EOK, rt_object_detach (Obj p) s)
   }"

definition rt_sem_create :: "ptr \<Rightarrow> string \<Rightarrow> u32 \<Rightarrow> u8 \<Rightarrow> kstate \<Rightarrow> (ptr \<times> kstate) option" where
  "rt_sem_create mem name value flag s = do {
     rt_assert (k_irq s = 0);
     rt_assert (value < 0x10000);
     (p, s) \<leftarrow> rt_object_allocate mem Class_Semaphore name s;
     if p = RT_NULL then Some (RT_NULL, s)
     else do {
       (_, s) \<leftarrow> rt_ipc_object_init (Susp p) s;
       let s = set_sem p (\<lambda>sem. sem\<lparr>sem_value := ucast value\<rparr>) s;
       Some (p, set_ipc_flag p flag s)
     }
   }"

definition rt_sem_delete :: "ptr \<Rightarrow> kstate \<Rightarrow> (rt_err \<times> kstate) option" where
  "rt_sem_delete p s = do {
     rt_assert (k_irq s = 0);
     rt_assert (is_class Class_Semaphore p s);
     rt_assert (\<not> rt_object_is_systemobject (Obj p) s);
     (_, s) \<leftarrow> rt_ipc_list_resume_all (Susp p) s;
     s \<leftarrow> rt_object_delete (Obj p) s;
     Some (RT_EOK, s)
   }"

definition rt_sem_take_resume :: "ptr \<Rightarrow> kstate \<Rightarrow> outcome \<times> kstate" where
  "rt_sem_take_resume t s =
     (if t_error (k_thr s t) \<noteq> RT_EOK then (Returns (t_error (k_thr s t)), s) else (Returns RT_EOK, s))"

definition rt_sem_take :: "ptr \<Rightarrow> u32 \<Rightarrow> kstate \<Rightarrow> (outcome \<times> kstate) option" where
  "rt_sem_take p time s = do {
     rt_assert (is_class Class_Semaphore p s);
     if 0 < sem_val s p
     then Some (Returns RT_EOK, set_sem p (\<lambda>sem. sem\<lparr>sem_value := sem_value sem - 1\<rparr>) s)
     else if time = 0 then Some (Returns (- RT_ETIMEOUT), s)
     else do {
       rt_assert (thread_context s);
       let t = rt_thread_self s;
       let s = set_thr t (\<lambda>th. th\<lparr>t_error := RT_EOK\<rparr>) s;
       s \<leftarrow> ipc_wait (Susp p) t (ipc_flag p s) time s;
       if rt_thread_self s = t then Some (rt_sem_take_resume t s) else Some (Blocked, s)
     }
   }"

definition rt_sem_trytake :: "ptr \<Rightarrow> kstate \<Rightarrow> (outcome \<times> kstate) option" where
  "rt_sem_trytake p s = rt_sem_take p 0 s"

definition rt_sem_release :: "ptr \<Rightarrow> kstate \<Rightarrow> (rt_err \<times> kstate) option" where
  "rt_sem_release p s = do {
     rt_assert (is_class Class_Semaphore p s);
     if k_q s (Susp p) \<noteq> []
     then do {
       (_, s) \<leftarrow> rt_ipc_list_resume (Susp p) s;
       s \<leftarrow> rt_schedule s;
       Some (RT_EOK, s)
     }
     else Some (RT_EOK, set_sem p (\<lambda>sem. sem\<lparr>sem_value := sem_value sem + 1\<rparr>) s)
   }"

definition rt_sem_control :: "ptr \<Rightarrow> int \<Rightarrow> u32 \<Rightarrow> kstate \<Rightarrow> (rt_err \<times> kstate) option" where
  "rt_sem_control p cmd arg s = do {
     rt_assert (is_class Class_Semaphore p s);
     if cmd = RT_IPC_CMD_RESET
     then do {
       (_, s) \<leftarrow> rt_ipc_list_resume_all (Susp p) s;
       let s = set_sem p (\<lambda>sem. sem\<lparr>sem_value := ucast arg\<rparr>) s;
       s \<leftarrow> rt_schedule s;
       Some (RT_EOK, s)
     }
     else Some (- RT_ERROR, s)
   }"


section \<open>Frames\<close>

lemma set_sem_fields [simp]:
  "k_sem (set_sem p f s) = (k_sem s)(p := f (k_sem s p))"
  "k_q (set_sem p f s) = k_q s" "k_thr (set_sem p f s) = k_thr s" "k_group (set_sem p f s) = k_group s"
  "k_cur (set_sem p f s) = k_cur s" "k_lock (set_sem p f s) = k_lock s" "k_irq (set_sem p f s) = k_irq s"
  "k_tick (set_sem p f s) = k_tick s" "k_obj (set_sem p f s) = k_obj s"
  "k_container (set_sem p f s) = k_container s" "k_tmr (set_sem p f s) = k_tmr s"
  "k_tlist (set_sem p f s) = k_tlist s" "k_mutex (set_sem p f s) = k_mutex s"
  "k_event (set_sem p f s) = k_event s" "k_mb (set_sem p f s) = k_mb s"
  "k_mq (set_sem p f s) = k_mq s" "k_mp (set_sem p f s) = k_mp s"
  by (simp_all add: set_sem_def)

text \<open>A change of the data of the objects only.\<close>

definition data_step :: "kstate \<Rightarrow> kstate \<Rightarrow> bool" where
  "data_step s s' \<longleftrightarrow> k_q s' = k_q s \<and> k_thr s' = k_thr s \<and> k_group s' = k_group s \<and> k_cur s' = k_cur s \<and>
     k_lock s' = k_lock s \<and> k_irq s' = k_irq s \<and> k_tick s' = k_tick s \<and> k_obj s' = k_obj s \<and>
     k_container s' = k_container s \<and> k_tmr s' = k_tmr s \<and> k_tlist s' = k_tlist s"

lemma data_step_sem [simp]: "data_step s (set_sem p f s)"
  by (simp add: data_step_def)

lemma data_step_get_type: "data_step s s' \<Longrightarrow> rt_object_get_type x s' = rt_object_get_type x s"
  by (rule timer_flag_cong(4)) (simp add: data_step_def)

lemma data_step_sys_inv: "data_step s s' \<Longrightarrow> sys_inv lo s' = sys_inv lo s"
  by (rule sys_inv_cong) (simp_all add: data_step_def)

lemma data_step_healthy: "data_step s s' \<Longrightarrow> healthy idle s' = healthy idle s"
  using data_step_sys_inv [of s s' 0] by (simp add: healthy_def data_step_def runs_def)

lemma is_class_frame: "ipc_frame s s' \<Longrightarrow> is_class c p s' = is_class c p s"
  using ipc_frameD(11) by (simp add: is_class_def)

lemma ipc_flag_frame: "ipc_frame s s' \<Longrightarrow> ipc_flag p s' = ipc_flag p s"
  using ipc_frameD(10) by (simp add: ipc_flag_def)

lemma error_step [simp]:
  "is_class c p (set_thr t (\<lambda>th. th\<lparr>t_error := e\<rparr>) s) = is_class c p s"
  "ipc_flag p (set_thr t (\<lambda>th. th\<lparr>t_error := e\<rparr>) s) = ipc_flag p s"
  by (rule is_class_frame [OF ipc_frame_steps(5)] ipc_flag_frame [OF ipc_frame_steps(5)])+



section \<open>Taking\<close>

text \<open>While threads wait the value is 0.\<close>

definition sem_ok :: "kstate \<Rightarrow> bool" where
  "sem_ok s \<longleftrightarrow> (\<forall>p. is_class Class_Semaphore p s \<longrightarrow> 0 < sem_val s p \<longrightarrow> k_q s (Susp p) = [])"

lemma sem_take_available:
  assumes "is_class Class_Semaphore p s" and "0 < sem_val s p"
  shows "rt_sem_take p time s =
    Some (Returns RT_EOK, set_sem p (\<lambda>sem. sem\<lparr>sem_value := sem_value sem - 1\<rparr>) s)"
  using assms by (simp add: rt_sem_take_def)

lemma sem_take_timeout:
  assumes "is_class Class_Semaphore p s" and "sem_val s p = 0"
  shows "rt_sem_take p 0 s = Some (Returns (- RT_ETIMEOUT), s)"
  using assms by (simp add: rt_sem_take_def)

lemma sem_take_waits:
  assumes h: "healthy idle s" and ni: "k_cur s \<noteq> idle" and irq: "k_irq s = 0"
    and p: "is_class Class_Semaphore p s" "sem_val s p = 0" "ipc_flag p s \<in> {RT_IPC_FLAG_FIFO, RT_IPC_FLAG_PRIO}"
    and time: "time \<noteq> 0" "time \<noteq> TICK_HALF"
  shows "\<exists>s'. rt_sem_take p time s = Some (Blocked, s') \<and> waits_in idle (Susp p) (ipc_flag p s) time s s'"
proof -
  obtain s' where "ipc_wait (Susp p) (k_cur s) (ipc_flag p s) time
      (set_thr (k_cur s) (\<lambda>th. th\<lparr>t_error := RT_EOK\<rparr>) s) = Some s'"
    and w: "waits_in idle (Susp p) (ipc_flag p s) time s s'"
    using wait_reset [OF h ni _ p(3) time(2), of "Susp p"] by auto
  then have "rt_sem_take p time s = Some (Blocked, s')"
    using p time(1) irq waits_inD(3) [OF w] healthyD(3) [OF h]
    by (simp add: rt_sem_take_def thread_context_def rt_thread_self_def Let_def)
  then show ?thesis using w by blast
qed

text \<open>C15: a thread that takes an empty semaphore and may wait is suspended: it goes to its place in
  the waiting list (the end, or behind the threads of at least its priority), with its timer running
  when there is a time limit, and another thread runs; the semaphore keeps its value, and the rest of
  the system its invariant.\<close>

theorem rt_sem_take_blocks:
  assumes h: "healthy idle s" and ni: "k_cur s \<noteq> idle" and irq: "k_irq s = 0"
    and p: "is_class Class_Semaphore p s" "sem_val s p = 0" "ipc_flag p s \<in> {RT_IPC_FLAG_FIFO, RT_IPC_FLAG_PRIO}"
    and time: "time \<noteq> 0" "time \<noteq> TICK_HALF"
  shows "\<exists>s'. rt_sem_take p time s = Some (Blocked, s') \<and> healthy idle s' \<and> k_sem s' = k_sem s \<and>
     stat_of (k_thr s' (k_cur s)) = RT_THREAD_SUSPEND \<and>
     k_q s' (Susp p) = wait_insert (ipc_flag p s) (prio_of s) (k_cur s) (k_q s (Susp p)) \<and>
     (if 0 < sint time then TimerOf (k_cur s) \<in> set (k_tlist s') \<and> trem s' (TimerOf (k_cur s)) = sint time
      else TimerOf (k_cur s) \<notin> set (k_tlist s'))"
  using sem_take_waits [OF assms] waits_inD ipc_frameD(1) by meson


section \<open>Releasing\<close>

lemma sem_release_wakes:
  assumes h: "healthy idle s" and p: "is_class Class_Semaphore p s" and q: "k_q s (Susp p) = w # ws"
  shows "\<exists>s'. rt_sem_release p s = Some (RT_EOK, s') \<and> wakes_first idle (Susp p) w s s'"
  using wake_core [OF h _ q] p q by (auto simp: rt_sem_release_def)

text \<open>C16: a release while threads wait hands the semaphore to the first of them: it leaves the list
  and can run, its \<open>rt_sem_take\<close> returns \<open>RT_EOK\<close>, and the value stays as it is, so no third thread
  can take it away. The processor goes to a thread of the highest priority.\<close>

theorem rt_sem_release_hands_over:
  assumes h: "healthy idle s" and p: "is_class Class_Semaphore p s" and q: "k_q s (Susp p) = w # ws"
    and err: "t_error (k_thr s w) = RT_EOK"
  shows "\<exists>s'. rt_sem_release p s = Some (RT_EOK, s') \<and> healthy idle s' \<and> k_sem s' = k_sem s \<and>
     k_q s' (Susp p) = ws \<and> runs w s' \<and> rt_sem_take_resume w s' = (Returns RT_EOK, s') \<and>
     (\<forall>u. stat_of (k_thr s' u) = RT_THREAD_READY \<longrightarrow> prio_index (k_cur s') s' \<le> prio_index u s')"
proof -
  obtain s' where s': "rt_sem_release p s = Some (RT_EOK, s')" "wakes_first idle (Susp p) w s s'"
    using sem_release_wakes [OF h p q] by blast
  then show ?thesis
    using q err wakes_firstD [OF s'(2)] ipc_frameD(1) [OF wakes_firstD(2) [OF s'(2)]]
    by (simp add: rt_sem_take_resume_def)
qed

text \<open>The 16-bit value of a semaphore is not checked for overflow: releasing it at 65535 with no
  thread waiting leaves 0, and a semaphore that was released 65535 times is then empty.\<close>

theorem rt_sem_release_wraps:
  assumes "is_class Class_Semaphore p s" and "k_q s (Susp p) = []" and "sem_val s p = 65535"
  shows "\<exists>s'. rt_sem_release p s = Some (RT_EOK, s') \<and> sem_val s' p = 0 \<and>
           rt_sem_trytake p s' = Some (Returns (- RT_ETIMEOUT), s')"
  using assms data_step_get_type [OF data_step_sem, of "Obj p"]
  by (simp add: rt_sem_release_def rt_sem_trytake_def rt_sem_take_def is_class_def)

lemma sem_take_locked:
  assumes inv: "sys_inv 0 s" and lock: "k_lock s \<noteq> 0" and irq: "k_irq s = 0" and cur: "k_cur s \<noteq> RT_NULL"
    and run: "stat_of (k_thr s (k_cur s)) = RT_THREAD_RUNNING"
    and p: "is_class Class_Semaphore p s" "sem_val s p = 0" "ipc_flag p s \<in> {RT_IPC_FLAG_FIFO, RT_IPC_FLAG_PRIO}"
    and time: "sint time < 0"
  shows "\<exists>s'. rt_sem_take p time s = Some (Returns RT_EOK, s') \<and> k_cur s' = k_cur s \<and> sem_val s' p = 0 \<and>
           k_cur s \<in> set (k_q s' (Susp p))"
proof -
  let ?t = "k_cur s" and ?s1 = "set_thr (k_cur s) (\<lambda>th. th\<lparr>t_error := RT_EOK\<rparr>) s"
  let ?s2 = "parked (Susp p) ?t (ipc_flag p s) ?s1"
  have inv1: "sys_inv 0 ?s1" using inv by simp
  have "rt_ipc_list_suspend (Susp p) ?t (ipc_flag p s) ?s1 = Some (RT_EOK, ?s2)"
    using list_suspend_parked(1) [OF inv1 _ _ p(3), of ?t "Susp p"] run by simp
  then have "ipc_wait (Susp p) ?t (ipc_flag p s) time ?s1 = Some ?s2"
    using time lock by (simp add: ipc_wait_def rt_schedule_def)
  moreover have "time \<noteq> 0" using time by auto
  ultimately have "rt_sem_take p time s = Some (rt_sem_take_resume ?t ?s2)"
    using p irq cur by (simp add: rt_sem_take_def thread_context_def rt_thread_self_def Let_def)
  moreover have "k_sem ?s2 = k_sem s"
    using ipc_frameD(1) [OF ipc_frame_trans [OF ipc_frame_steps(5) parked_frame]] by simp
  ultimately show ?thesis using p(2) by (simp add: rt_sem_take_resume_def parked_thr parked_q)
qed

text \<open>With the scheduler locked a thread that takes an empty semaphore is told that it has it: the
  switch does not take place, no error is set, and \<open>rt_sem_take\<close> returns \<open>RT_EOK\<close> with the value
  still 0 and the thread in the waiting list.\<close>

theorem rt_sem_take_locked:
  assumes inv: "sys_inv 0 s" and lock: "k_lock s \<noteq> 0" and irq: "k_irq s = 0" and cur: "k_cur s \<noteq> RT_NULL"
    and run: "stat_of (k_thr s (k_cur s)) = RT_THREAD_RUNNING"
    and p: "is_class Class_Semaphore p s" "sem_val s p = 0" "ipc_flag p s \<in> {RT_IPC_FLAG_FIFO, RT_IPC_FLAG_PRIO}"
    and time: "sint time < 0"
  shows "\<exists>s'. rt_sem_take p time s = Some (Returns RT_EOK, s') \<and> k_cur s' = k_cur s \<and> sem_val s' p = 0 \<and>
           k_cur s \<in> set (k_q s' (Susp p))"
  by (rule sem_take_locked [OF assms])


section \<open>The invariant of semaphores\<close>

lemma sem_ok_frame:
  assumes "ipc_frame s s'" and "\<And>p. is_class Class_Semaphore p s \<Longrightarrow> 0 < sem_val s p \<Longrightarrow>
      k_q s (Susp p) = [] \<Longrightarrow> k_q s' (Susp p) = []" and "sem_ok s"
  shows "sem_ok s'"
  using assms is_class_frame [OF assms(1)] ipc_frameD(1) [OF assms(1)] by (simp add: sem_ok_def)

lemma sem_take_inv:
  assumes h: "healthy idle s" and ok: "sem_ok s" and ni: "k_cur s \<noteq> idle" and irq: "k_irq s = 0"
    and p: "is_class Class_Semaphore p s" "ipc_flag p s \<in> {RT_IPC_FLAG_FIFO, RT_IPC_FLAG_PRIO}"
    and time: "time \<noteq> TICK_HALF"
  shows "\<exists>r s'. rt_sem_take p time s = Some (r, s') \<and> healthy idle s' \<and> sem_ok s'"
proof -
  consider "0 < sem_val s p" | "sem_val s p = 0" "time = 0" | "sem_val s p = 0" "time \<noteq> 0"
    using word_neq_0_conv [of "sem_val s p"] by blast
  then show ?thesis
  proof cases
    case 1
    have "sem_ok (set_sem p (\<lambda>sem. sem\<lparr>sem_value := sem_value sem - 1\<rparr>) s)"
      using ok 1 data_step_get_type [OF data_step_sem] p(1) by (auto simp: sem_ok_def is_class_def)
    then show ?thesis
      using sem_take_available [OF p(1) 1] h data_step_healthy [OF data_step_sem] by auto
  next
    case 2
    then show ?thesis using sem_take_timeout [OF p(1)] h ok by auto
  next
    case 3
    obtain s' where s': "rt_sem_take p time s = Some (Blocked, s')" "waits_in idle (Susp p) (ipc_flag p s) time s s'"
      using sem_take_waits [OF h ni irq p(1) 3(1) p(2) 3(2) time] by blast
    have "sem_ok s'"
    proof (rule sem_ok_frame [OF waits_inD(2) [OF s'(2)] _ ok])
      show "k_q s' (Susp p') = []" if "0 < sem_val s p'" "k_q s (Susp p') = []" for p'
        using that 3(1) waits_inD(8) [OF s'(2), of "Susp p'"] by (cases "p' = p") auto
    qed
    with s' waits_inD(1) show ?thesis by blast
  qed
qed

lemma sem_release_inv:
  assumes h: "healthy idle s" and ok: "sem_ok s" and p: "is_class Class_Semaphore p s"
  shows "\<exists>s'. rt_sem_release p s = Some (RT_EOK, s') \<and> healthy idle s' \<and> sem_ok s'"
proof (cases "k_q s (Susp p)")
  case Nil
  have "sem_ok (set_sem p (\<lambda>sem. sem\<lparr>sem_value := sem_value sem + 1\<rparr>) s)"
    using ok Nil data_step_get_type [OF data_step_sem] by (auto simp: sem_ok_def is_class_def)
  then show ?thesis
    using p Nil h data_step_healthy [OF data_step_sem] by (auto simp: rt_sem_release_def)
next
  case (Cons w ws)
  then obtain s' where s': "rt_sem_release p s = Some (RT_EOK, s')" "wakes_first idle (Susp p) w s s'"
    using sem_release_wakes [OF h p] by blast
  have "sem_ok s'"
  proof (rule sem_ok_frame [OF wakes_firstD(2) [OF s'(2)] _ ok])
    show "k_q s' (Susp p') = []" if "k_q s (Susp p') = []" for p'
      using that Cons wakes_firstD(5) [OF s'(2), of "Susp p'"] by (cases "p' = p") auto
  qed
  then show ?thesis using s'(1) wakes_firstD(1) [OF s'(2)] by blast
qed

text \<open>Resetting a semaphore wakes every thread that waits, each with the error \<open>RT_ERROR\<close> as the
  result of its \<open>rt_sem_take\<close>, and sets the value.\<close>

theorem rt_sem_control_resets:
  assumes h: "healthy idle s" and p: "is_class Class_Semaphore p s"
  shows "\<exists>s'. rt_sem_control p RT_IPC_CMD_RESET arg s = Some (RT_EOK, s') \<and> healthy idle s' \<and>
     k_q s' (Susp p) = [] \<and> sem_val s' p = ucast arg \<and>
     (\<forall>w \<in> set (k_q s (Susp p)). runs w s' \<and> rt_sem_take_resume w s' = (Returns (- RT_ERROR), s'))"
proof -
  obtain s1 where s1: "rt_ipc_list_resume_all (Susp p) s = Some (RT_EOK, s1)" "sys_inv 0 s1" "ipc_frame s s1"
    "k_q s1 (Susp p) = []" "k_cur s1 = k_cur s" "\<forall>u. runs u s1 \<longleftrightarrow> runs u s \<or> u \<in> set (k_q s (Susp p))"
    "\<forall>u. t_error (k_thr s1 u) = (if u \<in> set (k_q s (Susp p)) then - RT_ERROR else t_error (k_thr s u))"
    using resume_all_total [OF healthyD(1) [OF h], of "Susp p"] by auto
  let ?s2 = "set_sem p (\<lambda>sem. sem\<lparr>sem_value := ucast arg\<rparr>) s1"
  have inv2: "sys_inv 0 ?s2" using s1(2) data_step_sys_inv [OF data_step_sem] by blast
  have "k_lock ?s2 = 0" "k_cur ?s2 \<noteq> RT_NULL" "runs idle ?s2"
    using healthyD(2,3,5) [OF h] s1(5,6) ipc_frameD(8) [OF s1(3)] by (auto simp: runs_def)
  then obtain s' where s': "rt_schedule ?s2 = Some s'" "healthy idle s'" "sched_frame ?s2 s'"
    "\<forall>u. runs u s' = runs u ?s2"
    using schedule_healthy [OF inv2] by blast
  have "runs u ?s2 = runs u s1" for u by (simp add: runs_def)
  then have "runs w s' \<and> rt_sem_take_resume w s' = (Returns (- RT_ERROR), s')" if "w \<in> set (k_q s (Susp p))" for w
    using that s1(6,7) s'(4) sched_frameD(15) [OF s'(3), of w] by (simp add: rt_sem_take_resume_def)
  then show ?thesis
    using p s1(1,4) s'(1,2) sched_frameD(8,12) [OF s'(3)] by (auto simp: rt_sem_control_def Let_def)
qed

end
