(* ===== verification/RTT_Mutex.thy ===== *)
theory RTT_Mutex
  imports RTT_Sem
begin

text \<open>
  The mutex of \<open>src/ipc.c\<close>: an owner that may take it again, hand-over to the first waiting thread,
  and priority inheritance. \<open>rt_mutex_take\<close> goes back to its label \<open>__again\<close> when the wait was
  interrupted, so the part behind the label is a loop, \<open>mutex_again\<close>.
\<close>

section \<open>Operations\<close>

definition set_mutex :: "ptr \<Rightarrow> (rt_mutex \<Rightarrow> rt_mutex) \<Rightarrow> kstate \<Rightarrow> kstate" where
  "set_mutex p f s = s\<lparr>k_mutex := (k_mutex s)(p := f (k_mutex s p))\<rparr>"

abbreviation (input) mutex_fresh :: rt_mutex where
  "mutex_fresh \<equiv> \<lparr>mtx_value = 1, mtx_original_priority = 0xff, mtx_hold = 0, mtx_owner = RT_NULL\<rparr>"

definition rt_mutex_init :: "ptr \<Rightarrow> string \<Rightarrow> u8 \<Rightarrow> kstate \<Rightarrow> (rt_err \<times> kstate) option" where
  "rt_mutex_init p name flag s = do {
     rt_assert (p \<noteq> RT_NULL);
     s \<leftarrow> rt_object_init (Obj p) Class_Mutex name s;
     (_, s) \<leftarrow> rt_ipc_object_init (Susp p) s;
     let s = set_mutex p (\<lambda>_. mutex_fresh) s;
     Some (RT_EOK, set_ipc_flag p flag s)
   }"

definition rt_mutex_detach :: "ptr \<Rightarrow> kstate \<Rightarrow> (rt_err \<times> kstate) option" where
  "rt_mutex_detach p s = do {
     rt_assert (is_class Class_Mutex p s);
     rt_assert (rt_object_is_systemobject (Obj p) s);
     (_, s) \<leftarrow> rt_ipc_list_resume_all (Susp p) s;
     Some (RT_EOK, rt_object_detach (Obj p) s)
   }"

definition rt_mutex_create :: "ptr \<Rightarrow> string \<Rightarrow> u8 \<Rightarrow> kstate \<Rightarrow> (ptr \<times> kstate) option" where
  "rt_mutex_create mem name flag s = do {
     rt_assert (k_irq s = 0);
     (p, s) \<leftarrow> rt_object_allocate mem Class_Mutex name s;
     if p = RT_NULL then Some (RT_NULL, s)
     else do {
       (_, s) \<leftarrow> rt_ipc_object_init (Susp p) s;
       let s = set_mutex p (\<lambda>_. mutex_fresh) s;
       Some (p, set_ipc_flag p flag s)
     }
   }"

definition rt_mutex_delete :: "ptr \<Rightarrow> kstate \<Rightarrow> (rt_err \<times> kstate) option" where
  "rt_mutex_delete p s = do {
     rt_assert (k_irq s = 0);
     rt_assert (is_class Class_Mutex p s);
     rt_assert (\<not> rt_object_is_systemobject (Obj p) s);
     (_, s) \<leftarrow> rt_ipc_list_resume_all (Susp p) s;
     s \<leftarrow> rt_object_delete (Obj p) s;
     Some (RT_EOK, s)
   }"

text \<open>The priority of the owner raised to the one of the waiting thread.\<close>

definition mutex_inherit :: "ptr \<Rightarrow> ptr \<Rightarrow> kstate \<Rightarrow> kstate option" where
  "mutex_inherit p t s = do {
     let ow = mtx_owner (k_mutex s p);
     rt_assert (ow \<noteq> RT_NULL);
     if t_current_priority (k_thr s t) < t_current_priority (k_thr s ow)
     then do {
       (_, s) \<leftarrow> rt_thread_control ow (CHANGE_PRIORITY (t_current_priority (k_thr s t))) s;
       Some s
     }
     else Some s
   }"

definition mutex_grab :: "ptr \<Rightarrow> ptr \<Rightarrow> kstate \<Rightarrow> kstate" where
  "mutex_grab p t s =
     set_mutex p (\<lambda>m. m\<lparr>mtx_value := mtx_value m - 1, mtx_owner := t,
       mtx_original_priority := t_current_priority (k_thr s t), mtx_hold := mtx_hold m + 1\<rparr>) s"

partial_function (option) mutex_again :: "ptr \<Rightarrow> ptr \<Rightarrow> u32 \<Rightarrow> kstate \<Rightarrow> (outcome \<times> kstate) option" where
  "mutex_again p t time s =
     (if 0 < mtx_value (k_mutex s p) then Some (Returns RT_EOK, mutex_grab p t s)
      else if time = 0
      then Some (Returns (- RT_ETIMEOUT), set_thr t (\<lambda>th. th\<lparr>t_error := - RT_ETIMEOUT\<rparr>) s)
      else do {
        s \<leftarrow> mutex_inherit p t s;
        s \<leftarrow> ipc_wait (Susp p) t (ipc_flag p s) time s;
        if rt_thread_self s \<noteq> t then Some (Blocked, s)
        else if t_error (k_thr s t) = RT_EOK then Some (Returns RT_EOK, s)
        else if t_error (k_thr s t) = - RT_EINTR then mutex_again p t time s
        else Some (Returns (t_error (k_thr s t)), s)
      })"

definition rt_mutex_take_resume :: "ptr \<Rightarrow> ptr \<Rightarrow> u32 \<Rightarrow> kstate \<Rightarrow> (outcome \<times> kstate) option" where
  "rt_mutex_take_resume p t time s =
     (if t_error (k_thr s t) = RT_EOK then Some (Returns RT_EOK, s)
      else if t_error (k_thr s t) = - RT_EINTR then mutex_again p t time s
      else Some (Returns (t_error (k_thr s t)), s))"

definition rt_mutex_take :: "ptr \<Rightarrow> u32 \<Rightarrow> kstate \<Rightarrow> (outcome \<times> kstate) option" where
  "rt_mutex_take p time s = do {
     rt_assert (thread_context s);
     rt_assert (is_class Class_Mutex p s);
     let t = rt_thread_self s;
     let s = set_thr t (\<lambda>th. th\<lparr>t_error := RT_EOK\<rparr>) s;
     if mtx_owner (k_mutex s p) = t
     then Some (Returns RT_EOK, set_mutex p (\<lambda>m. m\<lparr>mtx_hold := mtx_hold m + 1\<rparr>) s)
     else mutex_again p t time s
   }"

definition rt_mutex_release :: "ptr \<Rightarrow> kstate \<Rightarrow> (rt_err \<times> kstate) option" where
  "rt_mutex_release p s = do {
     rt_assert (is_class Class_Mutex p s);
     rt_assert (thread_context s);
     let t = rt_thread_self s;
     if t \<noteq> mtx_owner (k_mutex s p)
     then Some (- RT_ERROR, set_thr t (\<lambda>th. th\<lparr>t_error := - RT_ERROR\<rparr>) s)
     else do {
       let s = set_mutex p (\<lambda>m. m\<lparr>mtx_hold := mtx_hold m - 1\<rparr>) s;
       if mtx_hold (k_mutex s p) \<noteq> 0 then Some (RT_EOK, s)
       else do {
         let old = mtx_original_priority (k_mutex s p);
         s \<leftarrow> (if old \<noteq> t_current_priority (k_thr s t)
               then do { (_, s) \<leftarrow> rt_thread_control t (CHANGE_PRIORITY old) s; Some s }
               else Some s);
         (case k_q s (Susp p) of
            w # _ \<Rightarrow> do {
              let s = set_mutex p (\<lambda>m. m\<lparr>mtx_owner := w,
                 mtx_original_priority := t_current_priority (k_thr s w), mtx_hold := mtx_hold m + 1\<rparr>) s;
              (_, s) \<leftarrow> rt_ipc_list_resume (Susp p) s;
              s \<leftarrow> rt_schedule s;
              Some (RT_EOK, s)
            }
          | [] \<Rightarrow> Some (RT_EOK, set_mutex p (\<lambda>m. m\<lparr>mtx_value := mtx_value m + 1, mtx_owner := RT_NULL,
                 mtx_original_priority := 0xff\<rparr>) s))
       }
     }
   }"

definition rt_mutex_control :: "ptr \<Rightarrow> int \<Rightarrow> kstate \<Rightarrow> (rt_err \<times> kstate) option" where
  "rt_mutex_control p cmd s = do { rt_assert (is_class Class_Mutex p s); Some (- RT_ERROR, s) }"


section \<open>The invariant of mutexes\<close>

lemma set_mutex_fields [simp]:
  "k_mutex (set_mutex p f s) = (k_mutex s)(p := f (k_mutex s p))"
  "k_q (set_mutex p f s) = k_q s" "k_thr (set_mutex p f s) = k_thr s" "k_group (set_mutex p f s) = k_group s"
  "k_cur (set_mutex p f s) = k_cur s" "k_lock (set_mutex p f s) = k_lock s" "k_irq (set_mutex p f s) = k_irq s"
  "k_tick (set_mutex p f s) = k_tick s" "k_obj (set_mutex p f s) = k_obj s"
  "k_container (set_mutex p f s) = k_container s" "k_tmr (set_mutex p f s) = k_tmr s"
  "k_tlist (set_mutex p f s) = k_tlist s" "k_sem (set_mutex p f s) = k_sem s"
  "k_event (set_mutex p f s) = k_event s" "k_mb (set_mutex p f s) = k_mb s"
  "k_mq (set_mutex p f s) = k_mq s" "k_mp (set_mutex p f s) = k_mp s"
  by (simp_all add: set_mutex_def)

lemma data_step_mutex [simp]: "data_step s (set_mutex p f s)" "data_step s (mutex_grab p t s)"
  by (simp_all add: data_step_def mutex_grab_def)

text \<open>A mutex is free, unowned and not waited for, or it has an owner that is a thread, holds it at
  least once and does not wait for it.\<close>

definition mutex_inv1 :: "ptr \<Rightarrow> kstate \<Rightarrow> bool" where
  "mutex_inv1 p s \<longleftrightarrow>
     (let m = k_mutex s p in
      if mtx_value m = 0
      then is_thread (mtx_owner m) s \<and> 0 < mtx_hold m \<and> mtx_original_priority m < 32 \<and>
           mtx_owner m \<notin> set (k_q s (Susp p))
      else mtx_value m = 1 \<and> mtx_owner m = RT_NULL \<and> mtx_hold m = 0 \<and> k_q s (Susp p) = [])"

definition mutex_ok :: "kstate \<Rightarrow> bool" where
  "mutex_ok s \<longleftrightarrow> (\<forall>p. is_class Class_Mutex p s \<longrightarrow> mutex_inv1 p s)"

lemma is_thread_frame:
  "(\<And>x. rt_object_get_type x s' = rt_object_get_type x s) \<Longrightarrow> is_thread t s' = is_thread t s"
  by (simp add: is_thread_def)

text \<open>The mutexes an operation does not touch stay as they are when no thread is added to their
  lists.\<close>

lemma mutex_inv1_frame:
  assumes "k_mutex s' p = k_mutex s p" and "\<And>x. rt_object_get_type x s' = rt_object_get_type x s"
    and "set (k_q s' (Susp p)) \<subseteq> set (k_q s (Susp p))" and "mutex_inv1 p s"
  shows "mutex_inv1 p s'"
  using assms is_thread_frame [OF assms(2)] by (auto simp: mutex_inv1_def Let_def)

lemma mutex_okI:
  assumes "\<And>x. rt_object_get_type x s' = rt_object_get_type x s" and "mutex_ok s"
    and "\<And>p'. p' \<noteq> p \<Longrightarrow> k_mutex s' p' = k_mutex s p' \<and> set (k_q s' (Susp p')) \<subseteq> set (k_q s (Susp p'))"
    and "mutex_inv1 p s'"
  shows "mutex_ok s'"
  unfolding mutex_ok_def
proof (intro allI impI)
  fix p'
  assume c: "is_class Class_Mutex p' s'"
  show "mutex_inv1 p' s'"
  proof (cases "p' = p")
    case False
    have "mutex_inv1 p' s" using c assms(1,2) by (simp add: mutex_ok_def is_class_def)
    then show ?thesis
      using assms(3) [OF False] by (intro mutex_inv1_frame [OF _ assms(1)]) auto
  qed (simp add: assms(4))
qed


section \<open>Taking\<close>

lemma prio_of_bound: "kinv_but X s \<Longrightarrow> t_current_priority (k_thr s t) < 32"
  using kinv_butD(3) [of X s t] by (simp add: prio_ok_def)

lemma mutex_take_recursive:
  assumes "thread_context s" "is_class Class_Mutex p s" "mtx_owner (k_mutex s p) = k_cur s"
  shows "rt_mutex_take p time s =
    Some (Returns RT_EOK, set_mutex p (\<lambda>m. m\<lparr>mtx_hold := mtx_hold m + 1\<rparr>)
      (set_thr (k_cur s) (\<lambda>th. th\<lparr>t_error := RT_EOK\<rparr>) s))"
  using assms by (simp add: rt_mutex_take_def rt_thread_self_def Let_def)

lemma mutex_take_free:
  assumes "thread_context s" "is_class Class_Mutex p s" "mutex_inv1 p s" "mtx_value (k_mutex s p) \<noteq> 0"
    and "k_cur s \<noteq> RT_NULL"
  shows "rt_mutex_take p time s =
    Some (Returns RT_EOK, mutex_grab p (k_cur s) (set_thr (k_cur s) (\<lambda>th. th\<lparr>t_error := RT_EOK\<rparr>) s))"
proof -
  have "mtx_value (k_mutex s p) = 1" "mtx_owner (k_mutex s p) = RT_NULL"
    using assms(3,4) by (auto simp: mutex_inv1_def Let_def split: if_splits)
  then show ?thesis
    using assms(1,2,5) by (simp add: rt_mutex_take_def rt_thread_self_def Let_def mutex_again.simps)
qed

lemma mutex_take_timeout:
  assumes "thread_context s" "is_class Class_Mutex p s" "mtx_value (k_mutex s p) = 0"
    "mtx_owner (k_mutex s p) \<noteq> k_cur s"
  shows "rt_mutex_take p 0 s =
    Some (Returns (- RT_ETIMEOUT), set_thr (k_cur s) (\<lambda>th. th\<lparr>t_error := - RT_ETIMEOUT\<rparr>)
      (set_thr (k_cur s) (\<lambda>th. th\<lparr>t_error := RT_EOK\<rparr>) s))"
  using assms by (simp add: rt_mutex_take_def rt_thread_self_def Let_def mutex_again.simps)

text \<open>A change of priority in a healthy system.\<close>

definition reprices :: "ptr \<Rightarrow> u8 \<Rightarrow> kstate \<Rightarrow> kstate \<Rightarrow> bool" where
  "reprices t p s s' \<longleftrightarrow>
     obj_frame s s' \<and> k_cur s' = k_cur s \<and> k_tick s' = k_tick s \<and>
     (\<forall>q. waiting q \<longrightarrow> k_q s' q = k_q s q) \<and> (\<forall>u. stat_of (k_thr s' u) = stat_of (k_thr s u)) \<and>
     (\<forall>u. t_error (k_thr s' u) = t_error (k_thr s u)) \<and> prio_of s' = (prio_of s)(t := p)"

lemma repricesD:
  assumes "reprices t p s s'"
  shows "obj_frame s s'" and "k_cur s' = k_cur s" and "k_tick s' = k_tick s"
    and "waiting q \<Longrightarrow> k_q s' q = k_q s q" and "stat_of (k_thr s' u) = stat_of (k_thr s u)"
    and "t_error (k_thr s' u) = t_error (k_thr s u)" and "prio_of s' = (prio_of s)(t := p)"
  using assms by (simp_all add: reprices_def)

lemma reprices_refl: "prio_of s t = p \<Longrightarrow> reprices t p s s"
  using ipc_frame_obj [OF ipc_frame_refl, of s] by (auto simp: reprices_def fun_eq_iff)

lemma control_reprices:
  assumes h: "healthy idle s" and p: "p < 32" and t: "is_thread t s"
    and cur: "t = k_cur s \<longrightarrow> stat_of (k_thr s t) \<noteq> RT_THREAD_READY"
  shows "\<exists>s'. rt_thread_control t (CHANGE_PRIORITY p) s = Some (RT_EOK, s') \<and> healthy idle s' \<and> reprices t p s s'"
proof -
  have t0: "t \<noteq> RT_NULL" using t by (simp add: is_thread_def)
  obtain s' where c: "change_priority t p s = Some s' \<and> sys_inv 0 s' \<and> k_cur s' = k_cur s \<and>
           (\<forall>u. stat_of (k_thr s' u) = stat_of (k_thr s u)) \<and>
           (\<forall>u. t_current_priority (k_thr s' u) = (if u = t then p else t_current_priority (k_thr s u))) \<and>
           (\<forall>q. (\<forall>n. q \<noteq> Ready n) \<longrightarrow> k_q s' q = k_q s q) \<and>
           (\<forall>u. t_error (k_thr s' u) = t_error (k_thr s u)) \<and>
           k_mutex s' = k_mutex s \<and> k_lock s' = k_lock s \<and> k_irq s' = k_irq s \<and> k_obj s' = k_obj s \<and>
           k_sem s' = k_sem s \<and> k_event s' = k_event s \<and> k_mb s' = k_mb s \<and> k_mq s' = k_mq s \<and>
           k_mp s' = k_mp s \<and> k_container s' = k_container s \<and> k_tick s' = k_tick s \<and> k_tlist s' = k_tlist s \<and>
           (\<forall>u. t_event_set (k_thr s' u) = t_event_set (k_thr s u) \<and>
                t_event_info (k_thr s' u) = t_event_info (k_thr s u))"
    using change_priority_inv [OF healthyD(1) [OF h] p t0 cur] by (elim exE)
  have "k_obj s' = k_obj s" using c by simp
  then have "obj_frame s s'"
    using c timer_flag_cong(4) [of s' s] by (simp add: obj_frame_def)
  moreover have "healthy idle s'"
    using c healthyD [OF h] by (simp add: healthy_def runs_def)
  ultimately show ?thesis
    using c t by (intro exI [of _ s']) (auto simp: reprices_def rt_thread_control_def fun_eq_iff waiting_def)
qed

text \<open>Raising the priority of the owner.\<close>

lemma inherit_total:
  assumes h: "healthy idle s" and ow: "is_thread (mtx_owner (k_mutex s p)) s" "mtx_owner (k_mutex s p) \<noteq> k_cur s"
  shows "\<exists>s'. mutex_inherit p (k_cur s) s = Some s' \<and> healthy idle s' \<and>
     reprices (mtx_owner (k_mutex s p))
       (min (prio_of s (mtx_owner (k_mutex s p))) (prio_of s (k_cur s))) s s'"
proof -
  let ?ow = "mtx_owner (k_mutex s p)" and ?p = "t_current_priority (k_thr s (k_cur s))"
  have ow0: "?ow \<noteq> RT_NULL" using ow(1) by (simp add: is_thread_def)
  show ?thesis
  proof (cases "?p < t_current_priority (k_thr s ?ow)")
    case True
    obtain s' where "rt_thread_control ?ow (CHANGE_PRIORITY ?p) s = Some (RT_EOK, s')" "healthy idle s'"
      "reprices ?ow ?p s s'"
      using control_reprices [OF h prio_of_bound [OF healthyD(7) [OF h]] ow(1)] ow(2) by blast
    moreover have "min (prio_of s ?ow) ?p = ?p" by (rule min.absorb2 [OF less_imp_le [OF True]])
    ultimately show ?thesis
      using True ow0 by (intro exI [of _ s']) (simp add: mutex_inherit_def Let_def)
  next
    case False
    then have "min (prio_of s ?ow) ?p = prio_of s ?ow" by (intro min.absorb1) (simp add: not_less)
    then show ?thesis
      using False ow0 h reprices_refl [of s ?ow] by (intro exI [of _ s]) (simp add: mutex_inherit_def Let_def)
  qed
qed


text \<open>The caller of \<open>rt_mutex_take\<close> on a mutex another thread owns, with leave to wait.\<close>

lemma mutex_take_waits:
  assumes h: "healthy idle s" and ok: "mutex_ok s" and ni: "k_cur s \<noteq> idle" and irq: "k_irq s = 0"
    and p: "is_class Class_Mutex p s" "mtx_value (k_mutex s p) = 0" "mtx_owner (k_mutex s p) = ow" "ow \<noteq> k_cur s"
      "ipc_flag p s \<in> {RT_IPC_FLAG_FIFO, RT_IPC_FLAG_PRIO}"
    and time: "time \<noteq> 0" "time \<noteq> TICK_HALF"
  shows "\<exists>s'. rt_mutex_take p time s = Some (Blocked, s') \<and> healthy idle s' \<and> mutex_ok s' \<and> obj_frame s s' \<and>
     k_cur s' \<noteq> k_cur s \<and> stat_of (k_thr s' (k_cur s)) = RT_THREAD_SUSPEND \<and> t_error (k_thr s' (k_cur s)) = RT_EOK \<and>
     k_q s' (Susp p) = wait_insert (ipc_flag p s) (prio_of s) (k_cur s) (k_q s (Susp p)) \<and>
     (\<forall>q. waiting q \<longrightarrow> q \<noteq> Susp p \<longrightarrow> k_q s' q = k_q s q) \<and>
     (\<forall>u. u \<noteq> k_cur s \<longrightarrow> runs u s' = runs u s \<and> t_error (k_thr s' u) = t_error (k_thr s u)) \<and>
     prio_of s' = (prio_of s)(ow := min (prio_of s ow) (prio_of s (k_cur s)))"
proof -
  let ?t = "k_cur s" and ?pr = "(prio_of s)(ow := min (prio_of s ow) (prio_of s (k_cur s)))"
  define s1 where "s1 = set_thr ?t (\<lambda>th. th\<lparr>t_error := RT_EOK\<rparr>) s"
  have h1: "healthy idle s1" using h by (simp add: s1_def)
  have f1: "k_cur s1 = ?t" "k_mutex s1 = k_mutex s" "k_q s1 = k_q s" "prio_of s1 = prio_of s"
    "\<And>u. runs u s1 = runs u s" "t_error (k_thr s1 ?t) = RT_EOK"
    "is_class Class_Mutex p s1" "ipc_flag p s1 = ipc_flag p s" "obj_frame s s1"
    using ipc_frame_obj [OF ipc_frame_steps(5)] p(1) by (auto simp: s1_def fun_eq_iff runs_def)
  have m: "mutex_inv1 p s" using ok p(1) by (simp add: mutex_ok_def)
  then have ow: "is_thread ow s" "ow \<notin> set (k_q s (Susp p))" using p(2,3) by (simp_all add: mutex_inv1_def Let_def)
  have ow1: "is_thread ow s1" using ow(1) obj_frameD(11) [OF f1(9)] by (simp add: is_thread_def)
  have pr1: "t_current_priority (k_thr s1 u) = t_current_priority (k_thr s u)" for u
    by (simp add: s1_def)
  obtain s2 where s2: "mutex_inherit p ?t s1 = Some s2" "healthy idle s2" "reprices ow (min (prio_of s ow) (prio_of s ?t)) s1 s2"
    using inherit_total [OF h1, of p] ow1 p(3,4) unfolding f1(1,2) pr1 by auto
  note r = repricesD [OF s2(3)]
  have fr2: "obj_frame s s2" by (rule obj_frame_trans [OF f1(9) r(1)])
  have c2: "k_cur s2 = ?t" and q2: "k_q s2 (Susp p) = k_q s (Susp p)"
    and fl2: "ipc_flag p s2 = ipc_flag p s" and pr2: "prio_of s2 = ?pr"
    using r(2) r(4) [of "Susp p"] f1(1,3,4) r(7) obj_frameD(10) [OF fr2] by (simp_all add: ipc_flag_def)
  have fl: "ipc_flag p s2 \<in> {RT_IPC_FLAG_FIFO, RT_IPC_FLAG_PRIO}" using p(5) fl2 by simp
  have ni2: "k_cur s2 \<noteq> idle" using ni c2 by simp
  obtain s' where s': "ipc_wait (Susp p) ?t (ipc_flag p s) time s2 = Some s'" "healthy idle s'" "ipc_frame s2 s'"
    "k_cur s' \<noteq> ?t" "stat_of (k_thr s' ?t) = RT_THREAD_SUSPEND"
    "k_q s' (Susp p) = wait_insert (ipc_flag p s) ?pr ?t (k_q s (Susp p))"
    "\<forall>q. waiting q \<longrightarrow> q \<noteq> Susp p \<longrightarrow> k_q s' q = k_q s2 q" "\<forall>u. u \<noteq> ?t \<longrightarrow> runs u s' = runs u s2"
    "\<forall>u. t_error (k_thr s' u) = t_error (k_thr s2 u)"
    using wait_core [OF s2(2) ni2 waiting_simps(1) fl time(2), of p] unfolding c2 q2 fl2 pr2 by blast
  have wi: "wait_insert (ipc_flag p s) ?pr ?t (k_q s (Susp p)) =
      wait_insert (ipc_flag p s) (prio_of s) ?t (k_q s (Susp p))"
    using p(4) ow(2) by (intro wait_insert_cong) auto
  have fr: "obj_frame s s'" by (rule obj_frame_trans [OF fr2 ipc_frame_obj [OF s'(3)]])
  have take: "rt_mutex_take p time s = Some (Blocked, s')"
    using p s'(1,4) s2(1) irq healthyD(3) [OF h] time(1) f1(2) fl2
    by (simp add: rt_mutex_take_def thread_context_def rt_thread_self_def Let_def mutex_again.simps flip: s1_def)
  have qs: "k_q s' q = k_q s q" if "waiting q" "q \<noteq> Susp p" for q
    using that s'(7) r(4) f1(3) by simp
  have "mutex_ok s'"
  proof (rule mutex_okI [OF obj_frameD(11) [OF fr] ok])
    show "k_mutex s' p' = k_mutex s p' \<and> set (k_q s' (Susp p')) \<subseteq> set (k_q s (Susp p'))" if "p' \<noteq> p" for p'
      using that obj_frameD(2) [OF fr] qs [of "Susp p'"] by simp
    show "mutex_inv1 p s'"
      using m p(2-4) s'(6) obj_frameD(2) [OF fr] is_thread_frame [OF obj_frameD(11) [OF fr]]
      by (simp add: mutex_inv1_def Let_def)
  qed
  moreover have "prio_of s' = ?pr" using ipc_frameD(12) [OF s'(3)] pr2 by (auto simp: fun_eq_iff)
  moreover have "runs u s' = runs u s \<and> t_error (k_thr s' u) = t_error (k_thr s u)" if "u \<noteq> ?t" for u
    using that s'(8,9) r(5,6) f1(5) [of u] by (simp add: runs_def s1_def)
  moreover have "t_error (k_thr s' ?t) = RT_EOK" using s'(9) r(6) f1(6) by simp
  ultimately show ?thesis
    using take s' fr qs wi by (intro exI [of _ s']) auto
qed


text \<open>C17: priority inheritance: a thread that waits for a mutex goes to its place in the waiting list,
  and the owner runs at the higher of the two priorities from then on; no other priority and no
  mutex changes, and the invariants of the system and of the mutexes are kept.\<close>

theorem rt_mutex_take_inherits:
  assumes h: "healthy idle s" and ok: "mutex_ok s" and ni: "k_cur s \<noteq> idle" and irq: "k_irq s = 0"
    and p: "is_class Class_Mutex p s" "mtx_value (k_mutex s p) = 0" "mtx_owner (k_mutex s p) = ow" "ow \<noteq> k_cur s"
      "ipc_flag p s \<in> {RT_IPC_FLAG_FIFO, RT_IPC_FLAG_PRIO}"
    and time: "time \<noteq> 0" "time \<noteq> TICK_HALF"
  shows "\<exists>s'. rt_mutex_take p time s = Some (Blocked, s') \<and> healthy idle s' \<and> mutex_ok s' \<and>
     k_mutex s' = k_mutex s \<and> stat_of (k_thr s' (k_cur s)) = RT_THREAD_SUSPEND \<and>
     k_q s' (Susp p) = wait_insert (ipc_flag p s) (prio_of s) (k_cur s) (k_q s (Susp p)) \<and>
     prio_of s' = (prio_of s)(ow := min (prio_of s ow) (prio_of s (k_cur s)))"
  using mutex_take_waits [OF assms] obj_frameD(2) by blast


section \<open>Releasing\<close>

text \<open>The last release by the owner first gives the owner its original priority back.\<close>

lemma mutex_release_restores:
  assumes h: "healthy idle s" and ok: "mutex_ok s" and irq: "k_irq s = 0"
    and p: "is_class Class_Mutex p s" "mtx_owner (k_mutex s p) = k_cur s" "mtx_hold (k_mutex s p) = 1"
  shows "\<exists>s1. healthy idle s1 \<and>
     reprices (k_cur s) (mtx_original_priority (k_mutex s p))
       (set_mutex p (\<lambda>m. m\<lparr>mtx_hold := mtx_hold m - 1\<rparr>) s) s1 \<and>
     rt_mutex_release p s =
       (case k_q s (Susp p) of
          w # _ \<Rightarrow> do {
            let s = set_mutex p (\<lambda>m. m\<lparr>mtx_owner := w,
               mtx_original_priority := t_current_priority (k_thr s1 w), mtx_hold := mtx_hold m + 1\<rparr>) s1;
            (_, s) \<leftarrow> rt_ipc_list_resume (Susp p) s;
            s \<leftarrow> rt_schedule s;
            Some (RT_EOK, s)
          }
        | [] \<Rightarrow> Some (RT_EOK, set_mutex p (\<lambda>m. m\<lparr>mtx_value := mtx_value m + 1, mtx_owner := RT_NULL,
               mtx_original_priority := 0xff\<rparr>) s1))"
proof -
  let ?s0 = "set_mutex p (\<lambda>m. m\<lparr>mtx_hold := mtx_hold m - 1\<rparr>) s"
  let ?old = "mtx_original_priority (k_mutex s p)" and ?t = "k_cur s"
  have m: "mutex_inv1 p s" using ok p(1) by (simp add: mutex_ok_def)
  then have old: "?old < 32"
    using p(2,3) healthyD(3) [OF h] by (auto simp: mutex_inv1_def Let_def split: if_splits)
  have h0: "healthy idle ?s0" using h data_step_healthy [OF data_step_mutex(1)] by blast
  have th: "is_thread ?t ?s0"
    using live_is_thread [OF healthyD(1) [OF h0], of ?t] healthyD(4) [OF h] by simp
  have st: "stat_of (k_thr ?s0 ?t) \<noteq> RT_THREAD_READY" using healthyD(4) [OF h] by simp
  obtain s1 where s1: "(if ?old \<noteq> t_current_priority (k_thr ?s0 ?t)
       then do { (_, s) \<leftarrow> rt_thread_control ?t (CHANGE_PRIORITY ?old) ?s0; Some s } else Some ?s0) = Some s1"
    "healthy idle s1" "reprices ?t ?old ?s0 s1"
  proof (cases "?old = t_current_priority (k_thr ?s0 ?t)")
    case True
    then show thesis using that [of ?s0] h0 reprices_refl [of ?s0 ?t ?old] by simp
  next
    case False
    obtain s1 where "rt_thread_control ?t (CHANGE_PRIORITY ?old) ?s0 = Some (RT_EOK, s1)" "healthy idle s1"
      "reprices ?t ?old ?s0 s1"
      using control_reprices [OF h0 old th] st by auto
    then show thesis using that [of s1] False by simp
  qed
  have q1: "k_q s1 (Susp p) = k_q s (Susp p)" using repricesD(4) [OF s1(3), of "Susp p"] by simp
  have "rt_mutex_release p s = do {
      s \<leftarrow> (if ?old \<noteq> t_current_priority (k_thr ?s0 ?t)
        then do { (_, s) \<leftarrow> rt_thread_control ?t (CHANGE_PRIORITY ?old) ?s0; Some s } else Some ?s0);
      (case k_q s (Susp p) of
          w # _ \<Rightarrow> do {
            let s = set_mutex p (\<lambda>m. m\<lparr>mtx_owner := w,
               mtx_original_priority := t_current_priority (k_thr s w), mtx_hold := mtx_hold m + 1\<rparr>) s;
            (_, s) \<leftarrow> rt_ipc_list_resume (Susp p) s;
            s \<leftarrow> rt_schedule s;
            Some (RT_EOK, s)
          }
        | [] \<Rightarrow> Some (RT_EOK, set_mutex p (\<lambda>m. m\<lparr>mtx_value := mtx_value m + 1, mtx_owner := RT_NULL,
               mtx_original_priority := 0xff\<rparr>) s)) }"
    using p irq healthyD(3) [OF h]
    by (simp add: rt_mutex_release_def thread_context_def rt_thread_self_def Let_def)
  then show ?thesis
    unfolding s1(1) using s1(2,3) q1 by (intro exI [of _ s1]) simp
qed

lemma mutex_release_hands_over:
  assumes h: "healthy idle s" and ok: "mutex_ok s" and irq: "k_irq s = 0"
    and p: "is_class Class_Mutex p s" "mtx_owner (k_mutex s p) = k_cur s" "mtx_hold (k_mutex s p) = 1"
    and q: "k_q s (Susp p) = w # ws"
  shows "\<exists>s'. rt_mutex_release p s = Some (RT_EOK, s') \<and> healthy idle s' \<and> mutex_ok s' \<and>
     k_mutex s' = (k_mutex s)(p := \<lparr>mtx_value = 0, mtx_original_priority = prio_of s w, mtx_hold = 1, mtx_owner = w\<rparr>) \<and>
     k_q s' (Susp p) = ws \<and> (\<forall>q. waiting q \<longrightarrow> q \<noteq> Susp p \<longrightarrow> k_q s' q = k_q s q) \<and>
     runs w s' \<and> (\<forall>u. u \<noteq> w \<longrightarrow> runs u s' = runs u s) \<and> (\<forall>u. t_error (k_thr s' u) = t_error (k_thr s u)) \<and>
     prio_of s' = (prio_of s)(k_cur s := mtx_original_priority (k_mutex s p)) \<and>
     obj_frame (s\<lparr>k_mutex := k_mutex s'\<rparr>) s' \<and>
     (\<forall>u. stat_of (k_thr s' u) = RT_THREAD_READY \<longrightarrow> prio_index (k_cur s') s' \<le> prio_index u s')"
proof -
  let ?s0 = "set_mutex p (\<lambda>m. m\<lparr>mtx_hold := mtx_hold m - 1\<rparr>) s"
  let ?old = "mtx_original_priority (k_mutex s p)" and ?t = "k_cur s"
  have m: "mutex_inv1 p s" using ok p(1) by (simp add: mutex_ok_def)
  then have v: "mtx_value (k_mutex s p) = 0"
    using p(2,3) healthyD(3) [OF h] by (auto simp: mutex_inv1_def Let_def split: if_splits)
  have w: "stat_of (k_thr s w) = RT_THREAD_SUSPEND" "w \<notin> set ws"
    using waiting_suspended(1) [OF healthyD(7) [OF h], of "Susp p" w] q
      links_okD(1) [OF kinv_butD(1) [OF healthyD(7) [OF h]], of "Susp p"] by auto
  then have wt: "w \<noteq> ?t" using healthyD(4) [OF h] by auto
  obtain s1 where s1: "healthy idle s1" "reprices ?t ?old ?s0 s1"
    "rt_mutex_release p s = do {
            let s = set_mutex p (\<lambda>m. m\<lparr>mtx_owner := w,
               mtx_original_priority := t_current_priority (k_thr s1 w), mtx_hold := mtx_hold m + 1\<rparr>) s1;
            (_, s) \<leftarrow> rt_ipc_list_resume (Susp p) s;
            s \<leftarrow> rt_schedule s;
            Some (RT_EOK, s) }"
    using mutex_release_restores [OF h ok irq p] q by auto
  note r = repricesD [OF s1(2)]
  define s2 where "s2 = set_mutex p (\<lambda>m. m\<lparr>mtx_owner := w,
     mtx_original_priority := t_current_priority (k_thr s1 w), mtx_hold := mtx_hold m + 1\<rparr>) s1"
  have h2: "healthy idle s2" using s1(1) data_step_healthy [OF data_step_mutex(1)] by (simp add: s2_def)
  have q2: "k_q s2 (Susp p) = w # ws" using r(4) [of "Susp p"] q by (simp add: s2_def)
  obtain s' where s': "rt_ipc_list_resume (Susp p) s2 = Some (RT_EOK, woken w s2)"
    "rt_schedule (woken w s2) = Some s'" "wakes_first idle (Susp p) w s2 s'"
    using wake_core [OF h2 _ q2] by auto
  note k = wakes_firstD [OF s'(3)]
  have rel: "rt_mutex_release p s = Some (RT_EOK, s')"
    using s1(3) s'(1,2) by (simp add: Let_def flip: s2_def)
  have "prio_of s1 w = prio_of s w" using r(7) wt by (simp add: fun_eq_iff)
  then have mx: "k_mutex s' = (k_mutex s)(p := \<lparr>mtx_value = 0, mtx_original_priority = prio_of s w, mtx_hold = 1, mtx_owner = w\<rparr>)"
    using ipc_frameD(2) [OF k(2)] obj_frameD(2) [OF r(1)] v p(3)
    by (cases "k_mutex s p") (simp add: s2_def)
  have ty: "rt_object_get_type x s' = rt_object_get_type x s" for x
    using ipc_frameD(11) [OF k(2)] obj_frameD(11) [OF r(1)] data_step_get_type [OF data_step_mutex(1)]
    by (simp add: s2_def)
  have fr: "obj_frame (s\<lparr>k_mutex := k_mutex s'\<rparr>) s'"
    using ipc_frameD [OF k(2)] obj_frameD [OF r(1)] ty timer_flag_cong(4) [of "s\<lparr>k_mutex := k_mutex s'\<rparr>" s]
    by (simp add: obj_frame_def s2_def)
  have qs: "k_q s' q = k_q s q" if "waiting q" "q \<noteq> Susp p" for q
    using that k(5) r(4) [of q] by (simp add: s2_def)
  have qp: "k_q s' (Susp p) = ws" using k(4) q2 by simp
  have wth: "is_thread w s" using live_is_thread [OF healthyD(1) [OF h], of w] w(1) by simp
  have "mutex_ok s'"
  proof (rule mutex_okI [OF ty ok])
    show "k_mutex s' p' = k_mutex s p' \<and> set (k_q s' (Susp p')) \<subseteq> set (k_q s (Susp p'))" if "p' \<noteq> p" for p'
      using that mx qs [of "Susp p'"] by simp
    have "prio_of s w < 32" using prio_of_bound [OF healthyD(7) [OF h]] .
    then show "mutex_inv1 p s'"
      using mx qp w(2) wth is_thread_frame [OF ty, of w] by (simp add: mutex_inv1_def Let_def)
  qed
  moreover have "prio_of s' = (prio_of s)(?t := ?old)"
    using ipc_frameD(12) [OF k(2)] r(7) by (auto simp: fun_eq_iff s2_def)
  moreover have "runs u s' = runs u s" if "u \<noteq> w" for u
    using that k(7) r(5) [of u] by (simp add: runs_def s2_def)
  moreover have "t_error (k_thr s' u) = t_error (k_thr s u)" for u
    using k(8) r(6) [of u] by (simp add: s2_def)
  ultimately show ?thesis
    using rel k(1,6,9) mx qs qp fr by (intro exI [of _ s']) auto
qed


text \<open>C18: when the owner gives a mutex back and threads wait for it, the first of them owns it at once,
  with its own priority remembered, and can run; the old owner has its original priority again, and
  the processor goes to a thread of the highest priority. The value of the mutex stays 0 throughout,
  so no other thread gets it in between.\<close>

theorem rt_mutex_release_hands_over:
  assumes h: "healthy idle s" and ok: "mutex_ok s" and irq: "k_irq s = 0"
    and p: "is_class Class_Mutex p s" "mtx_owner (k_mutex s p) = k_cur s" "mtx_hold (k_mutex s p) = 1"
    and q: "k_q s (Susp p) = w # ws"
  shows "\<exists>s'. rt_mutex_release p s = Some (RT_EOK, s') \<and> healthy idle s' \<and> mutex_ok s' \<and>
     k_mutex s' p = \<lparr>mtx_value = 0, mtx_original_priority = prio_of s w, mtx_hold = 1, mtx_owner = w\<rparr> \<and>
     k_q s' (Susp p) = ws \<and> runs w s' \<and>
     prio_of s' = (prio_of s)(k_cur s := mtx_original_priority (k_mutex s p)) \<and>
     (\<forall>u. stat_of (k_thr s' u) = RT_THREAD_READY \<longrightarrow> prio_index (k_cur s') s' \<le> prio_index u s')"
proof -
  from mutex_release_hands_over [OF assms]
  obtain s' where "rt_mutex_release p s = Some (RT_EOK, s')" "healthy idle s'" "mutex_ok s'"
    "k_mutex s' = (k_mutex s)(p := \<lparr>mtx_value = 0, mtx_original_priority = prio_of s w, mtx_hold = 1, mtx_owner = w\<rparr>)"
    "k_q s' (Susp p) = ws" "runs w s'" "prio_of s' = (prio_of s)(k_cur s := mtx_original_priority (k_mutex s p))"
    "\<forall>u. stat_of (k_thr s' u) = RT_THREAD_READY \<longrightarrow> prio_index (k_cur s') s' \<le> prio_index u s'"
    by (elim exE conjE)
  then show ?thesis by (intro exI [of _ s']) simp
qed

lemma mutex_release_frees:
  assumes h: "healthy idle s" and ok: "mutex_ok s" and irq: "k_irq s = 0"
    and p: "is_class Class_Mutex p s" "mtx_owner (k_mutex s p) = k_cur s" "mtx_hold (k_mutex s p) = 1"
    and q: "k_q s (Susp p) = []"
  shows "\<exists>s'. rt_mutex_release p s = Some (RT_EOK, s') \<and> healthy idle s' \<and> mutex_ok s' \<and>
     k_mutex s' = (k_mutex s)(p := mutex_fresh) \<and> k_cur s' = k_cur s \<and>
     (\<forall>q. waiting q \<longrightarrow> k_q s' q = k_q s q) \<and> (\<forall>u. runs u s' = runs u s) \<and>
     (\<forall>u. t_error (k_thr s' u) = t_error (k_thr s u)) \<and>
     prio_of s' = (prio_of s)(k_cur s := mtx_original_priority (k_mutex s p)) \<and>
     obj_frame (s\<lparr>k_mutex := k_mutex s'\<rparr>) s'"
proof -
  let ?s0 = "set_mutex p (\<lambda>m. m\<lparr>mtx_hold := mtx_hold m - 1\<rparr>) s"
  let ?old = "mtx_original_priority (k_mutex s p)" and ?t = "k_cur s"
  have m: "mutex_inv1 p s" using ok p(1) by (simp add: mutex_ok_def)
  then have v: "mtx_value (k_mutex s p) = 0"
    using p(2,3) healthyD(3) [OF h] by (auto simp: mutex_inv1_def Let_def split: if_splits)
  obtain s1 where s1: "healthy idle s1" "reprices ?t ?old ?s0 s1"
    "rt_mutex_release p s = Some (RT_EOK, set_mutex p (\<lambda>m. m\<lparr>mtx_value := mtx_value m + 1, mtx_owner := RT_NULL,
               mtx_original_priority := 0xff\<rparr>) s1)"
    using mutex_release_restores [OF h ok irq p] q by auto
  note r = repricesD [OF s1(2)]
  define s' where "s' = set_mutex p (\<lambda>m. m\<lparr>mtx_value := mtx_value m + 1, mtx_owner := RT_NULL,
     mtx_original_priority := 0xff\<rparr>) s1"
  have h': "healthy idle s'" using s1(1) data_step_healthy [OF data_step_mutex(1)] by (simp add: s'_def)
  have mx: "k_mutex s' = (k_mutex s)(p := mutex_fresh)"
    using obj_frameD(2) [OF r(1)] v p(3) by (cases "k_mutex s p") (simp add: s'_def)
  have ty: "rt_object_get_type x s' = rt_object_get_type x s" for x
    using obj_frameD(11) [OF r(1)] data_step_get_type [OF data_step_mutex(1)] by (simp add: s'_def)
  have fr: "obj_frame (s\<lparr>k_mutex := k_mutex s'\<rparr>) s'"
    using obj_frameD [OF r(1)] ty timer_flag_cong(4) [of "s\<lparr>k_mutex := k_mutex s'\<rparr>" s]
    by (simp add: obj_frame_def s'_def)
  have qs: "k_q s' q = k_q s q" if "waiting q" for q using that r(4) [of q] by (simp add: s'_def)
  have "mutex_ok s'"
    by (rule mutex_okI [OF ty ok, of p]) (simp_all add: mx qs q mutex_inv1_def)
  then show ?thesis
    using s1(3) h' mx qs fr r(2,5,6,7) by (intro exI [of _ s']) (simp add: s'_def runs_def)
qed

text \<open>The 8-bit hold count is not checked for overflow: the owner that takes the mutex for the 256th
  time leaves the count at 0, and giving the mutex back once does not free it but makes the count 255.\<close>

theorem rt_mutex_hold_wraps:
  assumes "thread_context s" "is_class Class_Mutex p s" "mtx_owner (k_mutex s p) = k_cur s"
    and "mtx_hold (k_mutex s p) = 255"
  shows "\<exists>s' s''. rt_mutex_take p time s = Some (Returns RT_EOK, s') \<and> mtx_hold (k_mutex s' p) = 0 \<and>
     rt_mutex_release p s' = Some (RT_EOK, s'') \<and> mtx_hold (k_mutex s'' p) = 255 \<and>
     mtx_owner (k_mutex s'' p) = k_cur s"
proof -
  let ?s1 = "set_thr (k_cur s) (\<lambda>th. th\<lparr>t_error := RT_EOK\<rparr>) s"
  let ?s' = "set_mutex p (\<lambda>m. m\<lparr>mtx_hold := mtx_hold m + 1\<rparr>) ?s1"
  have "is_class Class_Mutex p ?s1" using assms(2) by simp
  then have "is_class Class_Mutex p ?s'"
    using data_step_get_type [OF data_step_mutex(1)] by (simp add: is_class_def)
  then show ?thesis
    using mutex_take_recursive [OF assms(1-3)] assms(1,3,4)
    by (simp add: rt_mutex_release_def thread_context_def rt_thread_self_def Let_def)
qed


section \<open>Mutual exclusion\<close>

text \<open>What a call of \<open>rt_mutex_take\<close> can do in a healthy system.\<close>

lemma mutex_take_cases:
  assumes h: "healthy idle s" and ok: "mutex_ok s" and ni: "k_cur s \<noteq> idle" and irq: "k_irq s = 0"
    and p: "is_class Class_Mutex p s" "ipc_flag p s \<in> {RT_IPC_FLAG_FIFO, RT_IPC_FLAG_PRIO}"
    and time: "time \<noteq> TICK_HALF"
  obtains
    (recursive) "mtx_owner (k_mutex s p) = k_cur s"
      "rt_mutex_take p time s = Some (Returns RT_EOK, set_mutex p (\<lambda>m. m\<lparr>mtx_hold := mtx_hold m + 1\<rparr>)
        (set_thr (k_cur s) (\<lambda>th. th\<lparr>t_error := RT_EOK\<rparr>) s))"
  | (free) "k_mutex s p = \<lparr>mtx_value = 1, mtx_original_priority = mtx_original_priority (k_mutex s p),
        mtx_hold = 0, mtx_owner = RT_NULL\<rparr>" "k_q s (Susp p) = []"
      "rt_mutex_take p time s = Some (Returns RT_EOK, mutex_grab p (k_cur s)
        (set_thr (k_cur s) (\<lambda>th. th\<lparr>t_error := RT_EOK\<rparr>) s))"
  | (timeout) "mtx_owner (k_mutex s p) \<noteq> k_cur s" "rt_mutex_take p time s =
        Some (Returns (- RT_ETIMEOUT), set_thr (k_cur s) (\<lambda>th. th\<lparr>t_error := - RT_ETIMEOUT\<rparr>)
          (set_thr (k_cur s) (\<lambda>th. th\<lparr>t_error := RT_EOK\<rparr>) s))"
  | (waits) s' where "mtx_owner (k_mutex s p) \<noteq> k_cur s" "rt_mutex_take p time s = Some (Blocked, s')"
      "healthy idle s'" "mutex_ok s'" "obj_frame s s'"
      "\<And>q. waiting q \<Longrightarrow> q \<noteq> Susp p \<Longrightarrow> k_q s' q = k_q s q"
proof -
  have tc: "thread_context s" using irq healthyD(3) [OF h] by (simp add: thread_context_def rt_thread_self_def)
  have m: "mutex_inv1 p s" using ok p(1) by (simp add: mutex_ok_def)
  consider "mtx_owner (k_mutex s p) = k_cur s" | "mtx_value (k_mutex s p) \<noteq> 0"
    | "mtx_owner (k_mutex s p) \<noteq> k_cur s" "mtx_value (k_mutex s p) = 0" "time = 0"
    | "mtx_owner (k_mutex s p) \<noteq> k_cur s" "mtx_value (k_mutex s p) = 0" "time \<noteq> 0" by blast
  then show thesis
  proof cases
    case 1
    then show thesis using recursive mutex_take_recursive [OF tc p(1)] by blast
  next
    case 2
    then have "k_mutex s p = \<lparr>mtx_value = 1, mtx_original_priority = mtx_original_priority (k_mutex s p),
        mtx_hold = 0, mtx_owner = RT_NULL\<rparr>" "k_q s (Susp p) = []"
      using m by (cases "k_mutex s p"; auto simp: mutex_inv1_def Let_def)+
    then show thesis using free mutex_take_free [OF tc p(1) m 2 healthyD(3) [OF h]] by blast
  next
    case 3
    then show thesis using timeout mutex_take_timeout [OF tc p(1)] by blast
  next
    case 4
    obtain s' where "rt_mutex_take p time s = Some (Blocked, s')" "healthy idle s'" "mutex_ok s'" "obj_frame s s'"
      "\<forall>q. waiting q \<longrightarrow> q \<noteq> Susp p \<longrightarrow> k_q s' q = k_q s q"
      using mutex_take_waits [OF h ok ni irq p(1) 4(2) refl 4(1) p(2) 4(3) time] by (elim exE conjE)
    then show thesis using waits 4(1) by blast
  qed
qed

text \<open>Mutual exclusion: a call of \<open>rt_mutex_take\<close> that returns \<open>RT_EOK\<close> without waiting leaves the
  caller as the owner, and no other thread owned the mutex before the call.\<close>

theorem rt_mutex_take_excludes:
  assumes h: "healthy idle s" and ok: "mutex_ok s" and ni: "k_cur s \<noteq> idle" and irq: "k_irq s = 0"
    and p: "is_class Class_Mutex p s" "ipc_flag p s \<in> {RT_IPC_FLAG_FIFO, RT_IPC_FLAG_PRIO}"
    and time: "time \<noteq> TICK_HALF" and take: "rt_mutex_take p time s = Some (Returns RT_EOK, s')"
  shows "mtx_owner (k_mutex s' p) = k_cur s \<and> mtx_owner (k_mutex s p) \<in> {RT_NULL, k_cur s}"
proof (rule mutex_take_cases [OF h ok ni irq p time], goal_cases)
  case 1
  then show ?thesis using take by auto
next
  case 2
  moreover from 2(1) have "mtx_owner (k_mutex s p) = RT_NULL" by (cases "k_mutex s p") simp
  ultimately show ?thesis using take by (auto simp: mutex_grab_def)
qed (use take in auto)

lemma healthy_errors_mutex:
  "mutex_ok (set_thr t (\<lambda>th. th\<lparr>t_error := e\<rparr>) s) = mutex_ok s"
proof -
  have ty: "rt_object_get_type x (set_thr t (\<lambda>th. th\<lparr>t_error := e\<rparr>) s) = rt_object_get_type x s" for x
    using ipc_frameD(11) [OF ipc_frame_steps(5)] .
  show ?thesis
    unfolding mutex_ok_def mutex_inv1_def is_class_def is_thread_def ty by simp
qed

lemma mutex_take_inv:
  assumes h: "healthy idle s" and ok: "mutex_ok s" and ni: "k_cur s \<noteq> idle" and irq: "k_irq s = 0"
    and p: "is_class Class_Mutex p s" "ipc_flag p s \<in> {RT_IPC_FLAG_FIFO, RT_IPC_FLAG_PRIO}"
    and time: "time \<noteq> TICK_HALF" and hold: "mtx_hold (k_mutex s p) \<noteq> 255"
  shows "\<exists>r s'. rt_mutex_take p time s = Some (r, s') \<and> healthy idle s' \<and> mutex_ok s' \<and>
     obj_frame (s\<lparr>k_mutex := k_mutex s'\<rparr>) s' \<and> (\<forall>q. waiting q \<longrightarrow> q \<noteq> Susp p \<longrightarrow> k_q s' q = k_q s q)"
proof -
  let ?s1 = "set_thr (k_cur s) (\<lambda>th. th\<lparr>t_error := RT_EOK\<rparr>) s"
  have m: "mutex_inv1 p s" using ok p(1) by (simp add: mutex_ok_def)
  have h1: "healthy idle ?s1" and ok1: "mutex_ok ?s1" using h ok healthy_errors_mutex by simp_all
  have ty1: "rt_object_get_type x ?s1 = rt_object_get_type x s" for x
    using ipc_frameD(11) [OF ipc_frame_steps(5)] .
  have tyk: "rt_object_get_type x (s\<lparr>k_mutex := g\<rparr>) = rt_object_get_type x s" for x g
    by (simp add: rt_object_get_type_def)
  have th: "is_thread (k_cur s) s" using live_is_thread [OF healthyD(1) [OF h]] healthyD(4) [OF h] by simp
  have step: "healthy idle s' \<and> mutex_ok s' \<and> obj_frame (s\<lparr>k_mutex := k_mutex s'\<rparr>) s'"
    if "s' = set_mutex p f ?s1" "mutex_inv1 p s'" for f s'
  proof -
    have ty: "rt_object_get_type x s' = rt_object_get_type x ?s1" for x
      using that(1) data_step_get_type [OF data_step_mutex(1)] by simp
    have "mutex_ok s'"
      by (rule mutex_okI [OF ty ok1, of p]) (use that in auto)
    moreover have "healthy idle s'"
      using that(1) h1 data_step_healthy [OF data_step_mutex(1)] by blast
    moreover have "obj_frame (s\<lparr>k_mutex := k_mutex s'\<rparr>) s'"
      using that(1) ty ty1 tyk by (simp add: obj_frame_def)
    ultimately show ?thesis by blast
  qed
  show ?thesis
  proof (rule mutex_take_cases [OF h ok ni irq p time], goal_cases)
    case 1
    let ?s' = "set_mutex p (\<lambda>m. m\<lparr>mtx_hold := mtx_hold m + 1\<rparr>) ?s1"
    have ow: "is_thread (k_cur s) ?s'"
      using th data_step_get_type [OF data_step_mutex(1)] ty1 by (simp add: is_thread_def)
    have "mtx_hold (k_mutex s p) + 1 \<noteq> 0"
    proof
      assume "mtx_hold (k_mutex s p) + 1 = 0"
      then have "mtx_hold (k_mutex s p) = - 1" by (simp add: add_eq_0_iff2)
      then show False using hold by simp
    qed
    then have "0 < mtx_hold (k_mutex s p) + 1" by (simp add: word_neq_0_conv)
    then have "mutex_inv1 p ?s'"
      using m 1(1) ow healthyD(3) [OF h] by (auto simp: mutex_inv1_def Let_def split: if_splits)
    from step [OF refl this] show ?thesis using 1(2) by (intro exI) auto
  next
    case 2
    let ?s' = "mutex_grab p (k_cur s) ?s1"
    have "is_thread (k_cur s) ?s'"
      using th data_step_get_type [OF data_step_mutex(2)] ty1 by (simp add: is_thread_def)
    moreover have "mtx_value (k_mutex s p) = 1" "mtx_hold (k_mutex s p) = 0"
      using 2(1) by (cases "k_mutex s p"; simp)+
    ultimately have "mutex_inv1 p ?s'"
      using 2(2) prio_of_bound [OF healthyD(7) [OF h]] by (simp add: mutex_inv1_def Let_def mutex_grab_def)
    note s' = step [OF mutex_grab_def this]
    have "\<forall>q. waiting q \<longrightarrow> q \<noteq> Susp p \<longrightarrow> k_q ?s' q = k_q s q" by (simp add: mutex_grab_def)
    then show ?thesis using 2(3) s' by blast
  next
    case 3
    let ?s' = "set_thr (k_cur s) (\<lambda>th. th\<lparr>t_error := - RT_ETIMEOUT\<rparr>) ?s1"
    have "rt_object_get_type x ?s' = rt_object_get_type x s" for x
      using ipc_frameD(11) [OF ipc_frame_steps(5)] ty1 by simp
    then have "obj_frame (s\<lparr>k_mutex := k_mutex ?s'\<rparr>) ?s'" using tyk by (simp add: obj_frame_def)
    then show ?thesis using 3(2) h1 ok1 healthy_errors_mutex by (intro exI) auto
  next
    case (4 s')
    have "obj_frame (s\<lparr>k_mutex := k_mutex s'\<rparr>) s'"
      using 4(5) tyk by (simp add: obj_frame_def)
    then show ?thesis using 4 by (intro exI) auto
  qed
qed

end
