(* ===== verification/RTT_Event.thy ===== *)
theory RTT_Event
  imports RTT_Sem
begin

text \<open>
  The event sets of \<open>src/ipc.c\<close>: 32 flags, and threads that wait for all or for some of them.
  \<open>rt_event_send\<close> goes through the waiting list once; it takes the next node before the current one is
  unlinked, so it visits the threads that were in the list when it began (\<open>event_wake\<close>). The
  \<open>recved\<close> parameter of \<open>rt_event_recv\<close> is an optional result: the value stored through it.
\<close>

section \<open>Operations\<close>

abbreviation (input) RT_EVENT_FLAG_AND :: u8 where "RT_EVENT_FLAG_AND \<equiv> 1"
abbreviation (input) RT_EVENT_FLAG_OR :: u8 where "RT_EVENT_FLAG_OR \<equiv> 2"
abbreviation (input) RT_EVENT_FLAG_CLEAR :: u8 where "RT_EVENT_FLAG_CLEAR \<equiv> 4"

definition set_event :: "ptr \<Rightarrow> (rt_event \<Rightarrow> rt_event) \<Rightarrow> kstate \<Rightarrow> kstate" where
  "set_event p f s = s\<lparr>k_event := (k_event s)(p := f (k_event s p))\<rparr>"

definition rt_event_init :: "ptr \<Rightarrow> string \<Rightarrow> u8 \<Rightarrow> kstate \<Rightarrow> (rt_err \<times> kstate) option" where
  "rt_event_init p name flag s = do {
     rt_assert (p \<noteq> RT_NULL);
     s \<leftarrow> rt_object_init (Obj p) Class_Event name s;
     let s = set_ipc_flag p flag s;
     (_, s) \<leftarrow> rt_ipc_object_init (Susp p) s;
     Some (RT_EOK, set_event p (\<lambda>ev. ev\<lparr>ev_set := 0\<rparr>) s)
   }"

definition rt_event_detach :: "ptr \<Rightarrow> kstate \<Rightarrow> (rt_err \<times> kstate) option" where
  "rt_event_detach p s = do {
     rt_assert (is_class Class_Event p s);
     rt_assert (rt_object_is_systemobject (Obj p) s);
     (_, s) \<leftarrow> rt_ipc_list_resume_all (Susp p) s;
     Some (RT_EOK, rt_object_detach (Obj p) s)
   }"

definition rt_event_create :: "ptr \<Rightarrow> string \<Rightarrow> u8 \<Rightarrow> kstate \<Rightarrow> (ptr \<times> kstate) option" where
  "rt_event_create mem name flag s = do {
     rt_assert (k_irq s = 0);
     (p, s) \<leftarrow> rt_object_allocate mem Class_Event name s;
     if p = RT_NULL then Some (RT_NULL, s)
     else do {
       let s = set_ipc_flag p flag s;
       (_, s) \<leftarrow> rt_ipc_object_init (Susp p) s;
       Some (p, set_event p (\<lambda>ev. ev\<lparr>ev_set := 0\<rparr>) s)
     }
   }"

definition rt_event_delete :: "ptr \<Rightarrow> kstate \<Rightarrow> (rt_err \<times> kstate) option" where
  "rt_event_delete p s = do {
     rt_assert (is_class Class_Event p s);
     rt_assert (\<not> rt_object_is_systemobject (Obj p) s);
     rt_assert (k_irq s = 0);
     (_, s) \<leftarrow> rt_ipc_list_resume_all (Susp p) s;
     s \<leftarrow> rt_object_delete (Obj p) s;
     Some (RT_EOK, s)
   }"

text \<open>Whether the flags \<open>have\<close> satisfy a thread that waits for \<open>want\<close>, and what it receives. Without
  either option nothing does; \<open>rt_event_recv\<close> asserts that one is set.\<close>

definition event_met :: "u8 \<Rightarrow> u32 \<Rightarrow> u32 \<Rightarrow> bool" where
  "event_met opt want have \<longleftrightarrow>
     (if opt AND RT_EVENT_FLAG_AND \<noteq> 0 then have AND want = want
      else opt AND RT_EVENT_FLAG_OR \<noteq> 0 \<and> have AND want \<noteq> 0)"

definition event_got :: "u8 \<Rightarrow> u32 \<Rightarrow> u32 \<Rightarrow> u32" where
  "event_got opt want have = (if opt AND RT_EVENT_FLAG_AND \<noteq> 0 then want else want AND have)"

fun event_wake :: "ptr \<Rightarrow> ptr list \<Rightarrow> bool \<Rightarrow> kstate \<Rightarrow> (bool \<times> kstate) option" where
  "event_wake p [] need s = Some (need, s)"
| "event_wake p (t # ts) need s = do {
     let th = k_thr s t;
     let have = ev_set (k_event s p);
     if event_met (t_event_info th) (t_event_set th) have
     then do {
       let got = event_got (t_event_info th) (t_event_set th) have;
       let s = set_thr t (\<lambda>th. th\<lparr>t_event_set := got\<rparr>) s;
       let s = (if t_event_info th AND RT_EVENT_FLAG_CLEAR \<noteq> 0
                then set_event p (\<lambda>ev. ev\<lparr>ev_set := ev_set ev AND NOT got\<rparr>) s else s);
       (_, s) \<leftarrow> rt_thread_resume t s;
       event_wake p ts True s
     }
     else event_wake p ts need s
   }"

definition rt_event_send :: "ptr \<Rightarrow> u32 \<Rightarrow> kstate \<Rightarrow> (rt_err \<times> kstate) option" where
  "rt_event_send p evs s = do {
     rt_assert (is_class Class_Event p s);
     if evs = 0 then Some (- RT_ERROR, s)
     else do {
       let s = set_event p (\<lambda>ev. ev\<lparr>ev_set := ev_set ev OR evs\<rparr>) s;
       (need, s) \<leftarrow> event_wake p (k_q s (Susp p)) False s;
       s \<leftarrow> (if need then rt_schedule s else Some s);
       Some (RT_EOK, s)
     }
   }"

definition rt_event_recv_resume :: "ptr \<Rightarrow> kstate \<Rightarrow> outcome \<times> u32 option \<times> kstate" where
  "rt_event_recv_resume t s =
     (if t_error (k_thr s t) \<noteq> RT_EOK then (Returns (t_error (k_thr s t)), None, s)
      else (Returns (t_error (k_thr s t)), Some (t_event_set (k_thr s t)), s))"

definition rt_event_recv ::
  "ptr \<Rightarrow> u32 \<Rightarrow> u8 \<Rightarrow> u32 \<Rightarrow> kstate \<Rightarrow> (outcome \<times> u32 option \<times> kstate) option"
where
  "rt_event_recv p want opt timeout s = do {
     rt_assert (thread_context s);
     rt_assert (is_class Class_Event p s);
     if want = 0 then Some (Returns (- RT_ERROR), None, s)
     else do {
       let t = rt_thread_self s;
       let s = set_thr t (\<lambda>th. th\<lparr>t_error := RT_EOK\<rparr>) s;
       rt_assert (opt AND (RT_EVENT_FLAG_AND OR RT_EVENT_FLAG_OR) \<noteq> 0);
       let have = ev_set (k_event s p);
       if event_met opt want have
       then Some (Returns RT_EOK, Some (have AND want),
              if opt AND RT_EVENT_FLAG_CLEAR \<noteq> 0
              then set_event p (\<lambda>ev. ev\<lparr>ev_set := ev_set ev AND NOT want\<rparr>) s else s)
       else if timeout = 0
       then Some (Returns (- RT_ETIMEOUT), None, set_thr t (\<lambda>th. th\<lparr>t_error := - RT_ETIMEOUT\<rparr>) s)
       else do {
         let s = set_thr t (\<lambda>th. th\<lparr>t_event_set := want, t_event_info := opt\<rparr>) s;
         s \<leftarrow> ipc_wait (Susp p) t (ipc_flag p s) timeout s;
         if rt_thread_self s \<noteq> t then Some (Blocked, None, s)
         else Some (rt_event_recv_resume t s)
       }
     }
   }"

definition rt_event_control :: "ptr \<Rightarrow> int \<Rightarrow> kstate \<Rightarrow> (rt_err \<times> kstate) option" where
  "rt_event_control p cmd s = do {
     rt_assert (is_class Class_Event p s);
     if cmd = RT_IPC_CMD_RESET
     then do {
       (_, s) \<leftarrow> rt_ipc_list_resume_all (Susp p) s;
       let s = set_event p (\<lambda>ev. ev\<lparr>ev_set := 0\<rparr>) s;
       s \<leftarrow> rt_schedule s;
       Some (RT_EOK, s)
     }
     else Some (- RT_ERROR, s)
   }"


section \<open>Frames\<close>

lemma set_event_fields [simp]:
  "k_event (set_event p f s) = (k_event s)(p := f (k_event s p))"
  "k_q (set_event p f s) = k_q s" "k_thr (set_event p f s) = k_thr s" "k_group (set_event p f s) = k_group s"
  "k_cur (set_event p f s) = k_cur s" "k_lock (set_event p f s) = k_lock s" "k_irq (set_event p f s) = k_irq s"
  "k_tick (set_event p f s) = k_tick s" "k_obj (set_event p f s) = k_obj s"
  "k_container (set_event p f s) = k_container s" "k_tmr (set_event p f s) = k_tmr s"
  "k_tlist (set_event p f s) = k_tlist s" "k_sem (set_event p f s) = k_sem s"
  "k_mutex (set_event p f s) = k_mutex s" "k_mb (set_event p f s) = k_mb s"
  "k_mq (set_event p f s) = k_mq s" "k_mp (set_event p f s) = k_mp s"
  by (simp_all add: set_event_def)

lemma data_step_event [simp]: "data_step s (set_event p f s)"
  by (simp add: data_step_def)

text \<open>The event fields of a thread matter to nothing but the events.\<close>

lemma event_fields_step [simp]:
  "sys_inv lo (set_thr t (\<lambda>th. th\<lparr>t_event_set := e\<rparr>) s) = sys_inv lo s"
  "sys_inv lo (set_thr t (\<lambda>th. th\<lparr>t_event_set := e, t_event_info := i\<rparr>) s) = sys_inv lo s"
  "healthy idle (set_thr t (\<lambda>th. th\<lparr>t_event_set := e, t_event_info := i\<rparr>) s) = healthy idle s"
proof -
  show "sys_inv lo (set_thr t (\<lambda>th. th\<lparr>t_event_set := e\<rparr>) s) = sys_inv lo s"
    by (rule sys_inv_cong) (auto simp: prio_ok_def node_ok_def)
  show *: "sys_inv lo (set_thr t (\<lambda>th. th\<lparr>t_event_set := e, t_event_info := i\<rparr>) s) = sys_inv lo s" for lo
    by (rule sys_inv_cong) (auto simp: prio_ok_def node_ok_def)
  show "healthy idle (set_thr t (\<lambda>th. th\<lparr>t_event_set := e, t_event_info := i\<rparr>) s) = healthy idle s"
    using * by (auto simp: healthy_def runs_def)
qed

text \<open>Everything but the scheduler's data, the waiting lists, the thread timers, the event set of
  the object \<open>p\<close> and the sets the threads wait for.\<close>

definition event_frame :: "ptr \<Rightarrow> kstate \<Rightarrow> kstate \<Rightarrow> bool" where
  "event_frame p s s' \<longleftrightarrow>
     k_sem s' = k_sem s \<and> k_mutex s' = k_mutex s \<and> k_mb s' = k_mb s \<and> k_mq s' = k_mq s \<and> k_mp s' = k_mp s \<and>
     k_irq s' = k_irq s \<and> k_lock s' = k_lock s \<and> k_container s' = k_container s \<and>
     (\<forall>q. q \<noteq> p \<longrightarrow> k_event s' q = k_event s q) \<and> (\<forall>q. k_obj s' (Obj q) = k_obj s (Obj q)) \<and>
     (\<forall>q. Obj q \<in> set (k_tlist s') \<longleftrightarrow> Obj q \<in> set (k_tlist s)) \<and>
     (\<forall>x. rt_object_get_type x s' = rt_object_get_type x s) \<and>
     (\<forall>u. t_current_priority (k_thr s' u) = t_current_priority (k_thr s u) \<and>
          t_event_info (k_thr s' u) = t_event_info (k_thr s u))"

lemma event_frame_ipc: "ipc_frame s s' \<Longrightarrow> event_frame p s s'"
  by (simp add: ipc_frame_def event_frame_def)

lemma event_frame_trans: "event_frame p s s1 \<Longrightarrow> event_frame p s1 s2 \<Longrightarrow> event_frame p s s2"
  by (simp add: event_frame_def)

lemma event_frame_steps:
  "event_frame p s (set_event p f s)"
  "event_frame p s (set_thr t (\<lambda>th. th\<lparr>t_event_set := e\<rparr>) s)"
  using data_step_get_type [OF data_step_event, of _ p f s]
    timer_flag_cong(4) [of "set_thr t (\<lambda>th. th\<lparr>t_event_set := e\<rparr>) s" s]
  by (simp_all add: event_frame_def)

lemma event_frameD:
  assumes "event_frame p s s'"
  shows "k_lock s' = k_lock s" and "k_irq s' = k_irq s" and "q \<noteq> p \<Longrightarrow> k_event s' q = k_event s q"
    and "rt_object_get_type x s' = rt_object_get_type x s"
    and "t_event_info (k_thr s' u) = t_event_info (k_thr s u)" and "k_obj s' (Obj q) = k_obj s (Obj q)"
    and "t_current_priority (k_thr s' u) = t_current_priority (k_thr s u)"
    and "k_sem s' = k_sem s" and "k_mutex s' = k_mutex s" and "k_mb s' = k_mb s" and "k_mq s' = k_mq s"
    and "k_mp s' = k_mp s" and "Obj q \<in> set (k_tlist s') \<longleftrightarrow> Obj q \<in> set (k_tlist s)"
  using assms by (simp_all add: event_frame_def)


section \<open>Sending\<close>

text \<open>What a pass over the waiting list computes: the threads it serves, with what each receives,
  and the flags that are left.\<close>

definition event_kept :: "u8 \<Rightarrow> u32 \<Rightarrow> u32 \<Rightarrow> u32" where
  "event_kept opt got have = (if opt AND RT_EVENT_FLAG_CLEAR \<noteq> 0 then have AND NOT got else have)"

fun event_scan :: "(ptr \<Rightarrow> rt_thread) \<Rightarrow> u32 \<Rightarrow> ptr list \<Rightarrow> (ptr \<times> u32) list \<times> u32" where
  "event_scan thr have [] = ([], have)"
| "event_scan thr have (t # ts) =
     (if event_met (t_event_info (thr t)) (t_event_set (thr t)) have
      then let got = event_got (t_event_info (thr t)) (t_event_set (thr t)) have;
               rest = event_scan thr (event_kept (t_event_info (thr t)) got have) ts
           in ((t, got) # fst rest, snd rest)
      else event_scan thr have ts)"

lemma event_scan_cong:
  "(\<And>t. t \<in> set ts \<Longrightarrow> t_event_info (thr' t) = t_event_info (thr t) \<and> t_event_set (thr' t) = t_event_set (thr t)) \<Longrightarrow>
   event_scan thr' have ts = event_scan thr have ts"
  by (induction ts arbitrary: "have") (auto simp: Let_def)

lemma event_scan_served: "t \<in> fst ` set (fst (event_scan thr have ts)) \<Longrightarrow> t \<in> set ts"
  by (induction ts arbitrary: "have") (auto simp: Let_def image_iff split: if_splits)

text \<open>The flags only become fewer, and a thread that was not served is not satisfied by those left.\<close>

lemma event_met_mono:
  assumes "event_met opt want left" and "left AND have = left"
  shows "event_met opt want have"
proof -
  have *: "left AND want = (left AND have) AND want" using assms(2) by simp
  have "have AND want = want" if "left AND want = want"
    by (metis that assms(2) and.assoc and.commute)
  moreover have "have AND want \<noteq> 0" if "left AND want \<noteq> 0"
    using that * by (metis and.assoc and_zero_eq)
  ultimately show ?thesis using assms(1) by (auto simp: event_met_def split: if_splits)
qed

lemma event_kept_sub: "left AND event_kept opt got have = left \<Longrightarrow> left AND have = left" for left :: u32
  by (auto simp: event_kept_def split: if_splits) (metis and.assoc and.commute and.left_idem)

lemma event_scan_left: "snd (event_scan thr have ts) AND have = snd (event_scan thr have ts)"
proof (induction ts arbitrary: "have")
  case (Cons t ts)
  then show ?case using event_kept_sub [OF Cons] by (simp add: Let_def)
qed simp

lemma event_scan_unmet:
  "t \<in> set ts \<Longrightarrow> t \<notin> fst ` set (fst (event_scan thr have ts)) \<Longrightarrow>
   \<not> event_met (t_event_info (thr t)) (t_event_set (thr t)) (snd (event_scan thr have ts))"
proof (induction ts arbitrary: "have")
  case (Cons u ts)
  show ?case
  proof (cases "event_met (t_event_info (thr u)) (t_event_set (thr u)) have")
    case True
    then show ?thesis using Cons.IH Cons.prems by (auto simp: Let_def)
  next
    case False
    then show ?thesis
      using Cons.IH [of "have"] Cons.prems event_met_mono [OF _ event_scan_left [of thr "have" ts]]
      by (cases "t \<in> set ts") auto
  qed
qed simp

text \<open>The pass over the list has served the threads \<open>event_scan\<close> names: they have left the list and can
  run, each with what it receives in \<open>event_set\<close>; the others wait as before.\<close>

definition serves :: "ptr \<Rightarrow> (ptr \<times> u32) list \<Rightarrow> kstate \<Rightarrow> kstate \<Rightarrow> bool" where
  "serves p served s s' \<longleftrightarrow>
     event_frame p s s' \<and> k_q s' (Susp p) = filter (\<lambda>t. t \<notin> fst ` set served) (k_q s (Susp p)) \<and>
     (\<forall>q. waiting q \<longrightarrow> q \<noteq> Susp p \<longrightarrow> k_q s' q = k_q s q) \<and>
     k_tick s' = k_tick s \<and> (\<forall>u. runs u s' \<longleftrightarrow> runs u s \<or> u \<in> fst ` set served) \<and>
     (\<forall>u. t_error (k_thr s' u) = t_error (k_thr s u)) \<and>
     (\<forall>u. t_event_set (k_thr s' u) = (case map_of served u of Some got \<Rightarrow> got | None \<Rightarrow> t_event_set (k_thr s u)))"

lemma servesD:
  assumes "serves p served s s'"
  shows "event_frame p s s'" and "k_q s' (Susp p) = filter (\<lambda>t. t \<notin> fst ` set served) (k_q s (Susp p))"
    and "waiting q \<Longrightarrow> q \<noteq> Susp p \<Longrightarrow> k_q s' q = k_q s q" and "k_tick s' = k_tick s"
    and "runs u s' \<longleftrightarrow> runs u s \<or> u \<in> fst ` set served" and "t_error (k_thr s' u) = t_error (k_thr s u)"
    and "t_event_set (k_thr s' u) = (case map_of served u of Some got \<Rightarrow> got | None \<Rightarrow> t_event_set (k_thr s u))"
  using assms unfolding serves_def by blast+

text \<open>One thread of the list served.\<close>

lemma serve_one:
  fixes got :: u32 and opt :: u8
  assumes inv: "sys_inv lo s" and t: "t \<in> set (k_q s (Susp p))"
  defines "s2 \<equiv> set_thr t (\<lambda>th. th\<lparr>t_event_set := got\<rparr>) s"
  defines "s3 \<equiv> (if opt AND RT_EVENT_FLAG_CLEAR \<noteq> 0
      then set_event p (\<lambda>ev. ev\<lparr>ev_set := ev_set ev AND NOT got\<rparr>) s2 else s2)"
  shows "rt_thread_resume t s3 = Some (RT_EOK, woken t s3)" and "sys_inv lo (woken t s3)"
    and "serves p [(t, got)] s (woken t s3)" and "k_cur (woken t s3) = k_cur s"
    and "ev_set (k_event (woken t s3) p) = event_kept opt got (ev_set (k_event s p))"
proof -
  have st: "stat_of (k_thr s t) = RT_THREAD_SUSPEND" "t_tlist (k_thr s t) = Some (Susp p)"
    using waiting_suspended [OF sys_invD(2) [OF inv] _ t] by auto
  have d: "distinct (k_q s (Susp p))" using links_okD(1) [OF kinv_butD(1) [OF sys_invD(2) [OF inv]]] .
  have inv3: "sys_inv lo s3"
    using inv data_step_sys_inv [OF data_step_event] by (simp add: s3_def s2_def)
  have f3: "k_thr s3 = k_thr s2" "k_q s3 = k_q s" "k_cur s3 = k_cur s" "k_tick s3 = k_tick s"
    "ev_set (k_event s3 p) = event_kept opt got (ev_set (k_event s p))"
    by (auto simp: s3_def s2_def event_kept_def)
  have st3: "stat_of (k_thr s3 t) = RT_THREAD_SUSPEND" "t_tlist (k_thr s3 t) = Some (Susp p)"
    using st f3(1) by (simp_all add: s2_def)
  show "rt_thread_resume t s3 = Some (RT_EOK, woken t s3)" "sys_inv lo (woken t s3)"
    using resume_woken [OF inv3 st3(1)] by auto
  show "k_cur (woken t s3) = k_cur s" using f3(3) by simp
  show "ev_set (k_event (woken t s3) p) = event_kept opt got (ev_set (k_event s p))" using f3(5) by simp
  have "event_frame p s s3"
    using event_frame_trans [OF event_frame_steps(2) event_frame_steps(1)] event_frame_steps(2)
    by (simp add: s3_def s2_def)
  then have fr: "event_frame p s (woken t s3)"
    using event_frame_trans event_frame_ipc [OF ipc_frame_steps(1)] by blast
  have q: "k_q (woken t s3) q = (if q = Susp p then remove1 t (k_q s q) else k_q s q)" if "waiting q" for q
    using woken_q [OF waiting_not_ready [OF that], of t s3] st3(2) f3(2) by simp
  have "remove1 t (k_q s (Susp p)) = filter (\<lambda>u. u \<notin> fst ` set [(t, got)]) (k_q s (Susp p))"
    using distinct_remove1_removeAll [OF d, of t] by (simp add: removeAll_filter_not_eq eq_commute)
  moreover have "runs u (woken t s3) \<longleftrightarrow> runs u s \<or> u = t" for u
    using woken_stat [of t s3] f3(1) by (cases "u = t") (auto simp: runs_def s2_def)
  ultimately show "serves p [(t, got)] s (woken t s3)"
    using fr q [of "Susp p"] q f3(1,4) by (simp add: serves_def s2_def)
qed

lemma serves_append:
  assumes "serves p as s s1" and "serves p bs s1 s'" and "fst ` set as \<inter> fst ` set bs = {}"
  shows "serves p (as @ bs) s s'"
proof -
  note a = servesD [OF assms(1)] and b = servesD [OF assms(2)]
  have q: "k_q s' (Susp p) = filter (\<lambda>t. t \<notin> fst ` set (as @ bs)) (k_q s (Susp p))"
    unfolding b(2) a(2) filter_filter by (rule filter_cong) auto
  have ev: "t_event_set (k_thr s' u) =
      (case map_of (as @ bs) u of Some got \<Rightarrow> got | None \<Rightarrow> t_event_set (k_thr s u))" for u
  proof (cases "map_of bs u")
    case None
    then show ?thesis using a(7) [of u] b(7) [of u] by (auto simp: map_add_def split: option.splits)
  next
    case (Some got)
    then have "u \<in> fst ` set bs" by (metis map_of_SomeD image_eqI fst_conv)
    then have "map_of as u = None" using assms(3) by (auto simp: map_of_eq_None_iff)
    then show ?thesis using Some b(7) [of u] by (simp add: map_add_def)
  qed
  show ?thesis
    using event_frame_trans [OF a(1) b(1)] q ev a(3-6) b(3-6) by (auto simp: serves_def)
qed

lemma event_wake_total:
  assumes "sys_inv lo s" and "set ws \<subseteq> set (k_q s (Susp p))" and "distinct ws"
    and "event_scan (k_thr s) (ev_set (k_event s p)) ws = (served, left)"
  shows "\<exists>s'. event_wake p ws need s = Some (need \<or> served \<noteq> [], s') \<and> sys_inv lo s' \<and>
     serves p served s s' \<and> k_cur s' = k_cur s \<and> ev_set (k_event s' p) = left"
  using assms
proof (induction ws arbitrary: s need served)
  case Nil
  then show ?case by (auto simp: serves_def event_frame_def)
next
  case (Cons t ts)
  let ?opt = "t_event_info (k_thr s t)" and ?want = "t_event_set (k_thr s t)" and ?have = "ev_set (k_event s p)"
  show ?case
  proof (cases "event_met ?opt ?want ?have")
    case False
    then show ?thesis using Cons by simp
  next
    case True
    let ?got = "event_got ?opt ?want ?have"
    define s2 where "s2 = set_thr t (\<lambda>th. th\<lparr>t_event_set := ?got\<rparr>) s"
    define s3 where "s3 = (if ?opt AND RT_EVENT_FLAG_CLEAR \<noteq> 0
      then set_event p (\<lambda>ev. ev\<lparr>ev_set := ev_set ev AND NOT ?got\<rparr>) s2 else s2)"
    have t: "t \<in> set (k_q s (Susp p))" using Cons.prems(2) by simp
    note one = serve_one [OF Cons.prems(1) t, where got = "?got" and opt = "?opt", folded s2_def, folded s3_def]
    note d1 = servesD [OF one(3)]
    have sub: "set ts \<subseteq> set (k_q (woken t s3) (Susp p))"
      unfolding d1(2) using Cons.prems(2,3) by auto
    have "event_scan (k_thr (woken t s3)) (ev_set (k_event (woken t s3) p)) ts =
        event_scan (k_thr s) (event_kept ?opt ?got ?have) ts"
      unfolding one(5) using Cons.prems(3) event_frameD(5) [OF d1(1)] d1(7) by (intro event_scan_cong) auto
    moreover obtain served' where c: "event_scan (k_thr s) (event_kept ?opt ?got ?have) ts = (served', left)"
      "served = (t, ?got) # served'"
      using Cons.prems(4) True
      by (cases "event_scan (k_thr s) (event_kept ?opt ?got ?have) ts") (simp add: Let_def)
    ultimately have r: "event_scan (k_thr (woken t s3)) (ev_set (k_event (woken t s3) p)) ts = (served', left)"
      by simp
    note r = r c(2)
    obtain s' where s': "event_wake p ts True (woken t s3) = Some (True, s')" "sys_inv lo s'"
      "serves p served' (woken t s3) s'" "k_cur s' = k_cur s" "ev_set (k_event s' p) = left"
      using Cons.IH [OF one(2) sub _ r(1), of True] Cons.prems(3) one(4) by auto
    have "t \<notin> fst ` set served'"
      using event_scan_served [of t "k_thr (woken t s3)" "ev_set (k_event (woken t s3) p)" ts] r(1) Cons.prems(3)
      by (metis distinct.simps(2) fst_conv)
    then have "serves p served s s'"
      using serves_append [OF one(3) s'(3)] r(2) by simp
    moreover have "event_wake p (t # ts) need s = do { (_, s) \<leftarrow> rt_thread_resume t s3; event_wake p ts True s }"
      using True by (simp add: Let_def s3_def s2_def)
    then have "event_wake p (t # ts) need s = Some (need \<or> served \<noteq> [], s')"
      using one(1) s'(1) r(2) by simp
    ultimately show ?thesis using s'(2,4,5) by blast
  qed
qed

lemma event_wake_none:
  "event_scan thr have ws = ([], left) \<Longrightarrow> thr = k_thr s \<Longrightarrow> have = ev_set (k_event s p) \<Longrightarrow>
   event_wake p ws need s = Some (need, s)"
  by (induction ws) (auto simp: Let_def split: if_splits)

text \<open>No thread waits for flags that are there already.\<close>

definition event_ok :: "kstate \<Rightarrow> bool" where
  "event_ok s \<longleftrightarrow> (\<forall>p. is_class Class_Event p s \<longrightarrow> (\<forall>t \<in> set (k_q s (Susp p)).
     \<not> event_met (t_event_info (k_thr s t)) (t_event_set (k_thr s t)) (ev_set (k_event s p))))"

text \<open>The lists other than the one of \<open>p\<close> hold other threads, so they are not concerned.\<close>

lemma serves_event_ok:
  assumes inv: "sys_inv lo s" and ok: "event_ok s"
    and sc: "event_scan (k_thr s) have (k_q s (Susp p)) = (served, left)"
    and sv: "serves p served s s'" and left: "ev_set (k_event s' p) = left"
  shows "event_ok s'"
  unfolding event_ok_def
proof (intro allI impI ballI)
  fix q t
  assume c: "is_class Class_Event q s'" and t: "t \<in> set (k_q s' (Susp q))"
  note d = servesD [OF sv]
  have out: "t \<notin> fst ` set served \<and> t \<in> set (k_q s (Susp q))"
  proof (cases "q = p")
    case True
    then show ?thesis using t d(2) by simp
  next
    case False
    then have tq: "t \<in> set (k_q s (Susp q))" using t d(3) [of "Susp q"] by simp
    then have "t \<notin> set (k_q s (Susp p))"
      using waiting_suspended(2) [OF sys_invD(2) [OF inv], of "Susp q" t]
        waiting_suspended(2) [OF sys_invD(2) [OF inv], of "Susp p" t] False by auto
    then show ?thesis using tq event_scan_served [of t "k_thr s" "have" "k_q s (Susp p)"] sc by auto
  qed
  then have "map_of served t = None" by (simp add: map_of_eq_None_iff)
  then have same: "t_event_set (k_thr s' t) = t_event_set (k_thr s t)"
    "t_event_info (k_thr s' t) = t_event_info (k_thr s t)"
    using d(7) [of t] event_frameD(5) [OF d(1)] by simp_all
  show "\<not> event_met (t_event_info (k_thr s' t)) (t_event_set (k_thr s' t)) (ev_set (k_event s' q))"
  proof (cases "q = p")
    case True
    then show ?thesis
      using event_scan_unmet [of t "k_q s (Susp p)" "k_thr s" "have"] sc out left same by simp
  next
    case False
    then show ?thesis
      using ok out same event_frameD(3,4) [OF d(1)] c by (auto simp: event_ok_def is_class_def)
  qed
qed

lemma event_send_serves:
  assumes h: "healthy idle s" and p: "is_class Class_Event p s" and evs: "evs \<noteq> 0"
    and sc: "event_scan (k_thr s) (ev_set (k_event s p) OR evs) (k_q s (Susp p)) = (served, left)"
  shows "\<exists>s'. rt_event_send p evs s = Some (RT_EOK, s') \<and> healthy idle s' \<and> serves p served s s' \<and>
     ev_set (k_event s' p) = left \<and>
     (served \<noteq> [] \<longrightarrow> (\<forall>u. stat_of (k_thr s' u) = RT_THREAD_READY \<longrightarrow> prio_index (k_cur s') s' \<le> prio_index u s'))"
proof -
  define s1 where "s1 = set_event p (\<lambda>ev. ev\<lparr>ev_set := ev_set ev OR evs\<rparr>) s"
  have h1: "healthy idle s1" using h data_step_healthy [OF data_step_event] by (simp add: s1_def)
  have f1: "event_frame p s s1" "k_q s1 = k_q s" "k_thr s1 = k_thr s" "k_cur s1 = k_cur s" "k_tick s1 = k_tick s"
    "ev_set (k_event s1 p) = ev_set (k_event s p) OR evs"
    using event_frame_steps(1) by (simp_all add: s1_def)
  have d: "distinct (k_q s1 (Susp p))" using links_okD(1) [OF kinv_butD(1) [OF healthyD(7) [OF h1]]] .
  obtain s2 where s2: "event_wake p (k_q s1 (Susp p)) False s1 = Some (served \<noteq> [], s2)" "sys_inv 0 s2"
    "serves p served s1 s2" "k_cur s2 = k_cur s1" "ev_set (k_event s2 p) = left"
    using event_wake_total [OF healthyD(1) [OF h1] subset_refl d, of served left False] sc f1(2,3,6) by auto
  have s02: "serves p served s s2"
  proof -
    have "runs u s1 = runs u s" for u by (simp add: runs_def f1(3))
    then show ?thesis
      using servesD [OF s2(3)] f1 event_frame_trans [OF f1(1)] unfolding serves_def
      by (auto split: option.splits)
  qed
  have send: "rt_event_send p evs s = Option.bind (if served \<noteq> [] then rt_schedule s2 else Some s2) (\<lambda>s. Some (RT_EOK, s))"
    using p evs s2(1) f1(2) by (simp add: rt_event_send_def Let_def flip: s1_def)
  show ?thesis
  proof (cases "served = []")
    case True
    then have "s2 = s1"
      using s2(1) event_wake_none [where ws = "k_q s1 (Susp p)" and left = left and p = p and s = s1] sc f1(2,3,6) by simp
    then show ?thesis
      using send True h1 s02 s2(5) by (intro exI [of _ s1]) simp
  next
    case False
    have "runs idle s2" using servesD(5) [OF s02] healthyD(5) [OF h] by blast
    moreover have "k_lock s2 = 0" "k_cur s2 \<noteq> RT_NULL"
      using healthyD(2,3) [OF h] event_frameD(1) [OF servesD(1) [OF s02]] s2(4) f1(4) by auto
    ultimately obtain s' where s': "rt_schedule s2 = Some s'" "healthy idle s'" "sched_frame s2 s'"
      "\<forall>u. runs u s' = runs u s2"
      "\<forall>u. stat_of (k_thr s' u) = RT_THREAD_READY \<longrightarrow> prio_index (k_cur s') s' \<le> prio_index u s'"
      using schedule_healthy [OF s2(2)] by blast
    have "serves p [] s2 s'"
      using s'(3,4) event_frame_ipc [OF ipc_frame_sched [OF s'(3)]] sched_frameD [OF s'(3)]
        ipc_frameD(13) [OF ipc_frame_sched [OF s'(3)]]
      by (auto simp: serves_def waiting_def)
    then have "serves p served s s'" using serves_append [OF s02, of "[]" s'] by simp
    moreover have "k_event s' = k_event s2" using ipc_frameD(3) [OF ipc_frame_sched [OF s'(3)]] .
    ultimately show ?thesis
      using send s' s2(5) False by (intro exI [of _ s']) simp
  qed
qed

text \<open>C33: sending flags serves the waiting threads in the order of the list: every thread whose
  condition the flags meet at its turn leaves the list and can run, and its \<open>rt_event_recv\<close> returns
  \<open>RT_EOK\<close> with the flags it received; a thread that asked for it takes its flags away from the ones
  after it. No thread is left waiting for flags that are there.\<close>

theorem rt_event_send_serves:
  assumes h: "healthy idle s" and ok: "event_ok s" and p: "is_class Class_Event p s" and evs: "evs \<noteq> 0"
    and sc: "event_scan (k_thr s) (ev_set (k_event s p) OR evs) (k_q s (Susp p)) = (served, left)"
  shows "\<exists>s'. rt_event_send p evs s = Some (RT_EOK, s') \<and> healthy idle s' \<and> event_ok s' \<and>
     ev_set (k_event s' p) = left \<and>
     k_q s' (Susp p) = filter (\<lambda>t. t \<notin> fst ` set served) (k_q s (Susp p)) \<and>
     (\<forall>(t, got) \<in> set served. runs t s' \<and>
        (t_error (k_thr s t) = RT_EOK \<longrightarrow> rt_event_recv_resume t s' = (Returns RT_EOK, Some got, s')))"
proof -
  obtain s' where s': "rt_event_send p evs s = Some (RT_EOK, s')" "healthy idle s'" "serves p served s s'"
    "ev_set (k_event s' p) = left"
    using event_send_serves [OF h p evs sc] by (elim exE conjE)
  note d = servesD [OF s'(3)]
  have "distinct (map fst (fst (event_scan thr have ts)))" if "distinct ts" for thr "have" ts
    using that
  proof (induction ts arbitrary: "have")
    case (Cons t ts)
    then show ?case using event_scan_served [of t thr _ ts] by (auto simp: Let_def)
  qed simp
  then have "distinct (map fst served)"
    using sc links_okD(1) [OF kinv_butD(1) [OF healthyD(7) [OF h]], of "Susp p"] by (metis fst_conv)
  then have "t_event_set (k_thr s' t) = got" if "(t, got) \<in> set served" for t got
    using that d(7) [of t] by (simp add: map_of_is_SomeI)
  then have "\<forall>(t, got) \<in> set served. runs t s' \<and>
      (t_error (k_thr s t) = RT_EOK \<longrightarrow> rt_event_recv_resume t s' = (Returns RT_EOK, Some got, s'))"
    using d(5,6) by (force simp: rt_event_recv_resume_def)
  then show ?thesis
    using s'(1,2,4) d(2) serves_event_ok [OF healthyD(1) [OF h] ok sc s'(3,4)] by blast
qed


section \<open>Receiving\<close>

lemma event_recv_now:
  assumes "thread_context s" "is_class Class_Event p s" "want \<noteq> 0" "opt AND 3 \<noteq> 0"
    "event_met opt want (ev_set (k_event s p))"
  shows "rt_event_recv p want opt timeout s = Some (Returns RT_EOK, Some (ev_set (k_event s p) AND want),
     (if opt AND RT_EVENT_FLAG_CLEAR \<noteq> 0 then set_event p (\<lambda>ev. ev\<lparr>ev_set := ev_set ev AND NOT want\<rparr>) else id)
       (set_thr (k_cur s) (\<lambda>th. th\<lparr>t_error := RT_EOK\<rparr>) s))"
  using assms by (simp add: rt_event_recv_def Let_def rt_thread_self_def)

lemma event_recv_timeout:
  assumes "thread_context s" "is_class Class_Event p s" "want \<noteq> 0" "opt AND 3 \<noteq> 0"
    "\<not> event_met opt want (ev_set (k_event s p))"
  shows "rt_event_recv p want opt 0 s = Some (Returns (- RT_ETIMEOUT), None,
     set_thr (k_cur s) (\<lambda>th. th\<lparr>t_error := - RT_ETIMEOUT\<rparr>) (set_thr (k_cur s) (\<lambda>th. th\<lparr>t_error := RT_EOK\<rparr>) s))"
  using assms by (simp add: rt_event_recv_def Let_def rt_thread_self_def)

abbreviation (input) asks :: "u32 \<Rightarrow> u8 \<Rightarrow> kstate \<Rightarrow> kstate" where
  "asks want opt s \<equiv> set_thr (k_cur s) (\<lambda>th. th\<lparr>t_event_set := want, t_event_info := opt\<rparr>) s"

lemma event_recv_waits:
  assumes h: "healthy idle s" and ni: "k_cur s \<noteq> idle" and irq: "k_irq s = 0"
    and p: "is_class Class_Event p s" "ipc_flag p s \<in> {RT_IPC_FLAG_FIFO, RT_IPC_FLAG_PRIO}"
    and e: "want \<noteq> 0" "opt AND 3 \<noteq> 0" "\<not> event_met opt want (ev_set (k_event s p))"
    and time: "timeout \<noteq> 0" "timeout \<noteq> TICK_HALF"
  shows "\<exists>s'. rt_event_recv p want opt timeout s = Some (Blocked, None, s') \<and>
     waits_in idle (Susp p) (ipc_flag p s) timeout (asks want opt s) s'"
proof -
  let ?s1 = "asks want opt s"
  have h1: "healthy idle ?s1" using h by simp
  have fl: "ipc_flag p ?s1 = ipc_flag p s" by (simp add: ipc_flag_def)
  obtain s' where w: "ipc_wait (Susp p) (k_cur s) (ipc_flag p s) timeout
      (set_thr (k_cur s) (\<lambda>th. th\<lparr>t_error := RT_EOK\<rparr>) ?s1) = Some s'"
    "waits_in idle (Susp p) (ipc_flag p s) timeout ?s1 s'"
    using wait_reset [OF h1 _ _ p(2) time(2), of "Susp p"] ni by auto
  have swap: "set_thr (k_cur s) (\<lambda>th. th\<lparr>t_error := RT_EOK\<rparr>) ?s1 =
      set_thr (k_cur s) (\<lambda>th. th\<lparr>t_event_set := want, t_event_info := opt\<rparr>)
        (set_thr (k_cur s) (\<lambda>th. th\<lparr>t_error := RT_EOK\<rparr>) s)"
    by (cases "k_thr s (k_cur s)") (simp add: set_thr_def)
  have "ipc_flag p (set_thr (k_cur s) (\<lambda>th. th\<lparr>t_event_set := want, t_event_info := opt\<rparr>)
      (set_thr (k_cur s) (\<lambda>th. th\<lparr>t_error := RT_EOK\<rparr>) s)) = ipc_flag p s"
    by (simp add: ipc_flag_def)
  then have "rt_event_recv p want opt timeout s = Some (Blocked, None, s')"
    using p(1) e time(1) w(1) waits_inD(3) [OF w(2)] irq healthyD(3) [OF h] unfolding swap
    by (simp add: rt_event_recv_def thread_context_def rt_thread_self_def Let_def)
  then show ?thesis using w(2) by blast
qed

lemma event_recv_waits_ok:
  assumes h: "healthy idle s" and ok: "event_ok s" and ni: "k_cur s \<noteq> idle" and irq: "k_irq s = 0"
    and p: "is_class Class_Event p s" "ipc_flag p s \<in> {RT_IPC_FLAG_FIFO, RT_IPC_FLAG_PRIO}"
    and e: "want \<noteq> 0" "opt AND 3 \<noteq> 0" "\<not> event_met opt want (ev_set (k_event s p))"
    and time: "timeout \<noteq> 0" "timeout \<noteq> TICK_HALF"
  shows "\<exists>s'. rt_event_recv p want opt timeout s = Some (Blocked, None, s') \<and> healthy idle s' \<and> event_ok s' \<and>
     k_event s' = k_event s \<and> stat_of (k_thr s' (k_cur s)) = RT_THREAD_SUSPEND \<and>
     k_q s' (Susp p) = wait_insert (ipc_flag p s) (prio_of s) (k_cur s) (k_q s (Susp p)) \<and>
     t_event_set (k_thr s' (k_cur s)) = want \<and> t_event_info (k_thr s' (k_cur s)) = opt"
proof -
  let ?s1 = "asks want opt s"
  obtain s' where s': "rt_event_recv p want opt timeout s = Some (Blocked, None, s')"
    and w: "waits_in idle (Susp p) (ipc_flag p s) timeout ?s1 s'"
    using event_recv_waits [OF h ni irq p e time] by blast
  note d = waits_inD [OF w] and fr = ipc_frameD [OF waits_inD(2) [OF w]]
  have prio: "wait_insert fl (prio_of ?s1) t ws = wait_insert fl (prio_of s) t ws" for fl t ws
    by (rule wait_insert_cong) simp_all
  have q: "k_q s' (Susp p) = wait_insert (ipc_flag p s) (prio_of s) (k_cur s) (k_q s (Susp p))"
    using d(7) prio by simp
  have ty: "rt_object_get_type x s' = rt_object_get_type x s" for x
    using fr(11) [of x] timer_flag_cong(4) [of ?s1 s] by simp
  have out: "k_cur s \<notin> set (k_q s (Susp q))" for q
    using waiting_suspended(1) [OF healthyD(7) [OF h], of "Susp q" "k_cur s"] healthyD(4) [OF h] by auto
  have "event_ok s'"
    unfolding event_ok_def
  proof (intro allI impI ballI)
    fix q t
    assume c: "is_class Class_Event q s'" and t: "t \<in> set (k_q s' (Susp q))"
    show "\<not> event_met (t_event_info (k_thr s' t)) (t_event_set (k_thr s' t)) (ev_set (k_event s' q))"
    proof (cases "t = k_cur s")
      case True
      have "q = p"
      proof (rule ccontr)
        assume "q \<noteq> p"
        then have "t \<in> set (k_q s (Susp q))" using t d(8) [of "Susp q"] by simp
        then show False using out True by simp
      qed
      then show ?thesis using True e(3) fr(3,13,14) by simp
    next
      case False
      have "t \<in> set (k_q s (Susp q))"
        using t q d(8) [of "Susp q"] False by (cases "q = p") auto
      then show ?thesis
        using ok c ty fr(3,13,14) False by (auto simp: event_ok_def is_class_def)
    qed
  qed
  then show ?thesis using s' d(1,5) q fr(3,13,14) by (intro exI [of _ s']) simp
qed

text \<open>A thread whose condition is not met and that may wait does so: it goes to its place in the
  waiting list with its condition recorded, another thread runs, the flags stay as they are, and
  still no thread waits for flags that are there.\<close>

theorem rt_event_recv_waits:
  assumes h: "healthy idle s" and ok: "event_ok s" and ni: "k_cur s \<noteq> idle" and irq: "k_irq s = 0"
    and p: "is_class Class_Event p s" "ipc_flag p s \<in> {RT_IPC_FLAG_FIFO, RT_IPC_FLAG_PRIO}"
    and e: "want \<noteq> 0" "opt AND 3 \<noteq> 0" "\<not> event_met opt want (ev_set (k_event s p))"
    and time: "timeout \<noteq> 0" "timeout \<noteq> TICK_HALF"
  shows "\<exists>s'. rt_event_recv p want opt timeout s = Some (Blocked, None, s') \<and> healthy idle s' \<and> event_ok s' \<and>
     k_event s' = k_event s \<and> stat_of (k_thr s' (k_cur s)) = RT_THREAD_SUSPEND \<and>
     k_q s' (Susp p) = wait_insert (ipc_flag p s) (prio_of s) (k_cur s) (k_q s (Susp p)) \<and>
     t_event_set (k_thr s' (k_cur s)) = want \<and> t_event_info (k_thr s' (k_cur s)) = opt"
  using event_recv_waits_ok [OF assms] .

text \<open>Taking flags away keeps the invariant too, so every call of \<open>rt_event_recv\<close> does.\<close>

lemma event_ok_clear:
  assumes "event_ok s" and "k_thr s' = k_thr s \<or> k_thr s' = k_thr (set_thr t (\<lambda>th. th\<lparr>t_error := e\<rparr>) s)"
    and "k_q s' = k_q s" and "\<And>x. rt_object_get_type x s' = rt_object_get_type x s"
    and "\<And>q. ev_set (k_event s' q) AND ev_set (k_event s q) = ev_set (k_event s' q)"
  shows "event_ok s'"
proof -
  have "t_event_info (k_thr s' u) = t_event_info (k_thr s u) \<and> t_event_set (k_thr s' u) = t_event_set (k_thr s u)" for u
    using assms(2) by auto
  then show ?thesis
    using assms(1,3,4) event_met_mono [OF _ assms(5)] unfolding event_ok_def is_class_def by metis
qed

lemma event_recv_inv:
  assumes h: "healthy idle s" and ok: "event_ok s" and ni: "k_cur s \<noteq> idle" and irq: "k_irq s = 0"
    and p: "is_class Class_Event p s" "ipc_flag p s \<in> {RT_IPC_FLAG_FIFO, RT_IPC_FLAG_PRIO}"
    and e: "want \<noteq> 0" "opt AND 3 \<noteq> 0" and time: "timeout \<noteq> TICK_HALF"
  shows "\<exists>r v s'. rt_event_recv p want opt timeout s = Some (r, v, s') \<and> healthy idle s' \<and> event_ok s'"
proof -
  have tc: "thread_context s" using irq healthyD(3) [OF h] by (simp add: thread_context_def rt_thread_self_def)
  have ty: "rt_object_get_type x (set_thr t (\<lambda>th. th\<lparr>t_error := err\<rparr>) s') = rt_object_get_type x s'" for x t err s'
    using ipc_frameD(11) [OF ipc_frame_steps(5)] .
  consider "event_met opt want (ev_set (k_event s p))" | "\<not> event_met opt want (ev_set (k_event s p))" "timeout = 0"
    | "\<not> event_met opt want (ev_set (k_event s p))" "timeout \<noteq> 0" by blast
  then show ?thesis
  proof cases
    case 1
    let ?s1 = "set_thr (k_cur s) (\<lambda>th. th\<lparr>t_error := RT_EOK\<rparr>) s"
    let ?s2 = "set_event p (\<lambda>ev. ev\<lparr>ev_set := ev_set ev AND NOT want\<rparr>) ?s1"
    have "healthy idle ?s2" using h data_step_healthy [OF data_step_event] by simp
    moreover have "event_ok ?s1" by (rule event_ok_clear [OF ok]) (auto simp: ty)
    moreover have "event_ok ?s2"
    proof (rule event_ok_clear [OF ok])
      have "(x AND NOT want) AND x = x AND NOT want" for x :: u32
        by (metis and.commute and.left_idem)
      then show "ev_set (k_event ?s2 q) AND ev_set (k_event s q) = ev_set (k_event ?s2 q)" for q by simp
    qed (auto simp: ty data_step_get_type [OF data_step_event])
    ultimately show ?thesis
      using event_recv_now [OF tc p(1) e 1] h by auto
  next
    case 2
    let ?s2 = "set_thr (k_cur s) (\<lambda>th. th\<lparr>t_error := - RT_ETIMEOUT\<rparr>) (set_thr (k_cur s) (\<lambda>th. th\<lparr>t_error := RT_EOK\<rparr>) s)"
    have "event_ok ?s2"
      by (rule event_ok_clear [OF event_ok_clear [OF ok, of "set_thr (k_cur s) (\<lambda>th. th\<lparr>t_error := RT_EOK\<rparr>) s"]])
        (auto simp: ty)
    then show ?thesis using event_recv_timeout [OF tc p(1) e 2(1)] 2(2) h by auto
  next
    case 3
    then show ?thesis using event_recv_waits_ok [OF h ok ni irq p e 3(1) 3(2) time] by blast
  qed
qed

end
