(* ===== verification/RTT_Mailbox.thy ===== *)
theory RTT_Mailbox
  imports RTT_Sem RTT_Fifo
begin

text \<open>
  The mailboxes of \<open>src/ipc.c\<close>: a ring of 32-bit mails, a waiting list for receivers (\<open>Susp p\<close>) and
  one for senders (\<open>Sender p\<close>). The bookkeeping of the ring (\<open>mb_store\<close>, \<open>mb_fetch\<close>) is a bounded
  first-in first-out buffer; sending and receiving are the loops around it, split at their
  \<open>rt_schedule\<close>. The \<open>value\<close> parameter of \<open>rt_mb_recv\<close> is an optional result.

  The pool is an argument of \<open>rt_mb_init\<close>, and of \<open>rt_mb_create\<close> the memory \<open>RT_KERNEL_MALLOC\<close> returns
  (\<open>None\<close> when it fails).
\<close>

section \<open>Operations\<close>

definition set_mb :: "ptr \<Rightarrow> (rt_mailbox \<Rightarrow> rt_mailbox) \<Rightarrow> kstate \<Rightarrow> kstate" where
  "set_mb p f s = s\<lparr>k_mb := (k_mb s)(p := f (k_mb s p))\<rparr>"

definition mb_empty :: "u32 list \<Rightarrow> u32 \<Rightarrow> rt_mailbox" where
  "mb_empty pool sz = \<lparr>mb_pool = pool, mb_size = ucast sz, mb_entry = 0, mb_in_offset = 0, mb_out_offset = 0\<rparr>"

definition rt_mb_init :: "ptr \<Rightarrow> string \<Rightarrow> u32 list \<Rightarrow> u32 \<Rightarrow> u8 \<Rightarrow> kstate \<Rightarrow> (rt_err \<times> kstate) option" where
  "rt_mb_init p name pool sz flag s = do {
     rt_assert (p \<noteq> RT_NULL);
     s \<leftarrow> rt_object_init (Obj p) Class_MailBox name s;
     let s = set_ipc_flag p flag s;
     (_, s) \<leftarrow> rt_ipc_object_init (Susp p) s;
     let s = set_mb p (\<lambda>_. mb_empty pool sz) s;
     (_, s) \<leftarrow> rt_ipc_object_init (Sender p) s;
     Some (RT_EOK, s)
   }"

definition rt_mb_detach :: "ptr \<Rightarrow> kstate \<Rightarrow> (rt_err \<times> kstate) option" where
  "rt_mb_detach p s = do {
     rt_assert (is_class Class_MailBox p s);
     rt_assert (rt_object_is_systemobject (Obj p) s);
     (_, s) \<leftarrow> rt_ipc_list_resume_all (Susp p) s;
     (_, s) \<leftarrow> rt_ipc_list_resume_all (Sender p) s;
     Some (RT_EOK, rt_object_detach (Obj p) s)
   }"

definition rt_mb_create ::
  "ptr \<Rightarrow> u32 list option \<Rightarrow> string \<Rightarrow> u32 \<Rightarrow> u8 \<Rightarrow> kstate \<Rightarrow> (ptr \<times> kstate) option"
where
  "rt_mb_create mem pool name sz flag s = do {
     rt_assert (k_irq s = 0);
     (p, s) \<leftarrow> rt_object_allocate mem Class_MailBox name s;
     if p = RT_NULL then Some (RT_NULL, s)
     else do {
       let s = set_ipc_flag p flag s;
       (_, s) \<leftarrow> rt_ipc_object_init (Susp p) s;
       let s = set_mb p (\<lambda>mb. mb\<lparr>mb_size := ucast sz\<rparr>) s;
       (case pool of
          None \<Rightarrow> do { s \<leftarrow> rt_object_delete (Obj p) s; Some (RT_NULL, s) }
        | Some mem \<Rightarrow> do {
            let s = set_mb p (\<lambda>_. mb_empty mem sz) s;
            (_, s) \<leftarrow> rt_ipc_object_init (Sender p) s;
            Some (p, s)
          })
     }
   }"

definition rt_mb_delete :: "ptr \<Rightarrow> kstate \<Rightarrow> (rt_err \<times> kstate) option" where
  "rt_mb_delete p s = do {
     rt_assert (k_irq s = 0);
     rt_assert (is_class Class_MailBox p s);
     rt_assert (\<not> rt_object_is_systemobject (Obj p) s);
     (_, s) \<leftarrow> rt_ipc_list_resume_all (Susp p) s;
     (_, s) \<leftarrow> rt_ipc_list_resume_all (Sender p) s;
     s \<leftarrow> rt_object_delete (Obj p) s;
     Some (RT_EOK, s)
   }"

text \<open>Storing a mail behind the last, and taking the first.\<close>

definition mb_store :: "rt_mailbox \<Rightarrow> u32 \<Rightarrow> rt_mailbox option" where
  "mb_store m v = do {
     rt_assert (unat (mb_in_offset m) < length (mb_pool m));
     let m = m\<lparr>mb_pool := (mb_pool m)[unat (mb_in_offset m) := v]\<rparr>;
     let m = m\<lparr>mb_in_offset := mb_in_offset m + 1\<rparr>;
     let m = (if mb_size m \<le> mb_in_offset m then m\<lparr>mb_in_offset := 0\<rparr> else m);
     Some (m\<lparr>mb_entry := mb_entry m + 1\<rparr>)
   }"

definition mb_fetch :: "rt_mailbox \<Rightarrow> (rt_mailbox \<times> u32) option" where
  "mb_fetch m = do {
     rt_assert (unat (mb_out_offset m) < length (mb_pool m));
     let v = mb_pool m ! unat (mb_out_offset m);
     let m = m\<lparr>mb_out_offset := mb_out_offset m + 1\<rparr>;
     let m = (if mb_size m \<le> mb_out_offset m then m\<lparr>mb_out_offset := 0\<rparr> else m);
     Some (m\<lparr>mb_entry := mb_entry m - 1\<rparr>, v)
   }"

text \<open>The end of \<open>rt_mb_send_wait\<close>, when there is room, and of \<open>rt_mb_recv\<close>, when there is a mail.\<close>

definition mb_put :: "ptr \<Rightarrow> u32 \<Rightarrow> kstate \<Rightarrow> (outcome \<times> kstate) option" where
  "mb_put p v s = do {
     m \<leftarrow> mb_store (k_mb s p) v;
     let s = set_mb p (\<lambda>_. m) s;
     if k_q s (Susp p) \<noteq> []
     then do {
       (_, s) \<leftarrow> rt_ipc_list_resume (Susp p) s;
       s \<leftarrow> rt_schedule s;
       Some (Returns RT_EOK, s)
     }
     else Some (Returns RT_EOK, s)
   }"

definition mb_get :: "ptr \<Rightarrow> kstate \<Rightarrow> (outcome \<times> u32 option \<times> kstate) option" where
  "mb_get p s = do {
     (m, v) \<leftarrow> mb_fetch (k_mb s p);
     let s = set_mb p (\<lambda>_. m) s;
     if k_q s (Sender p) \<noteq> []
     then do {
       (_, s) \<leftarrow> rt_ipc_list_resume (Sender p) s;
       s \<leftarrow> rt_schedule s;
       Some (Returns RT_EOK, Some v, s)
     }
     else Some (Returns RT_EOK, Some v, s)
   }"

text \<open>The loops; \<open>t\<close> is the calling thread, \<open>RT_NULL\<close> before the scheduler has started.\<close>

partial_function (option) mb_send_loop :: "ptr \<Rightarrow> ptr \<Rightarrow> u32 \<Rightarrow> u32 \<Rightarrow> kstate \<Rightarrow> (outcome \<times> kstate) option" where
  "mb_send_loop p t v timeout s =
     (if mb_entry (k_mb s p) = mb_size (k_mb s p)
      then do {
        rt_assert (t \<noteq> RT_NULL);
        let s = set_thr t (\<lambda>th. th\<lparr>t_error := RT_EOK\<rparr>) s;
        if timeout = 0 then Some (Returns (- RT_EFULL), s)
        else do {
          rt_assert (thread_context s);
          let start = k_tick s;
          s \<leftarrow> ipc_wait (Sender p) t (ipc_flag p s) timeout s;
          if rt_thread_self s \<noteq> t then Some (Blocked, s)
          else if t_error (k_thr s t) \<noteq> RT_EOK then Some (Returns (t_error (k_thr s t)), s)
          else mb_send_loop p t v (timeout_left timeout start s) s
        }
      }
      else mb_put p v s)"

definition rt_mb_send_resume :: "ptr \<Rightarrow> ptr \<Rightarrow> u32 \<Rightarrow> u32 \<Rightarrow> u32 \<Rightarrow> kstate \<Rightarrow> (outcome \<times> kstate) option" where
  "rt_mb_send_resume p t v timeout start s =
     (if t_error (k_thr s t) \<noteq> RT_EOK then Some (Returns (t_error (k_thr s t)), s)
      else mb_send_loop p t v (timeout_left timeout start s) s)"

definition rt_mb_send_wait :: "ptr \<Rightarrow> u32 \<Rightarrow> u32 \<Rightarrow> kstate \<Rightarrow> (outcome \<times> kstate) option" where
  "rt_mb_send_wait p v timeout s = do {
     rt_assert (is_class Class_MailBox p s);
     let t = rt_thread_self s;
     if mb_entry (k_mb s p) = mb_size (k_mb s p) \<and> timeout = 0 then Some (Returns (- RT_EFULL), s)
     else mb_send_loop p t v timeout s
   }"

definition rt_mb_send :: "ptr \<Rightarrow> u32 \<Rightarrow> kstate \<Rightarrow> (outcome \<times> kstate) option" where
  "rt_mb_send p v s = rt_mb_send_wait p v 0 s"

partial_function (option) mb_recv_loop ::
  "ptr \<Rightarrow> ptr \<Rightarrow> u32 \<Rightarrow> kstate \<Rightarrow> (outcome \<times> u32 option \<times> kstate) option"
where
  "mb_recv_loop p t timeout s =
     (if mb_entry (k_mb s p) = 0
      then do {
        rt_assert (t \<noteq> RT_NULL);
        let s = set_thr t (\<lambda>th. th\<lparr>t_error := RT_EOK\<rparr>) s;
        if timeout = 0
        then Some (Returns (- RT_ETIMEOUT), None, set_thr t (\<lambda>th. th\<lparr>t_error := - RT_ETIMEOUT\<rparr>) s)
        else do {
          rt_assert (thread_context s);
          let start = k_tick s;
          s \<leftarrow> ipc_wait (Susp p) t (ipc_flag p s) timeout s;
          if rt_thread_self s \<noteq> t then Some (Blocked, None, s)
          else if t_error (k_thr s t) \<noteq> RT_EOK then Some (Returns (t_error (k_thr s t)), None, s)
          else mb_recv_loop p t (timeout_left timeout start s) s
        }
      }
      else mb_get p s)"

definition rt_mb_recv_resume ::
  "ptr \<Rightarrow> ptr \<Rightarrow> u32 \<Rightarrow> u32 \<Rightarrow> kstate \<Rightarrow> (outcome \<times> u32 option \<times> kstate) option"
where
  "rt_mb_recv_resume p t timeout start s =
     (if t_error (k_thr s t) \<noteq> RT_EOK then Some (Returns (t_error (k_thr s t)), None, s)
      else mb_recv_loop p t (timeout_left timeout start s) s)"

definition rt_mb_recv :: "ptr \<Rightarrow> u32 \<Rightarrow> kstate \<Rightarrow> (outcome \<times> u32 option \<times> kstate) option" where
  "rt_mb_recv p timeout s = do {
     rt_assert (is_class Class_MailBox p s);
     let t = rt_thread_self s;
     if mb_entry (k_mb s p) = 0 \<and> timeout = 0 then Some (Returns (- RT_ETIMEOUT), None, s)
     else mb_recv_loop p t timeout s
   }"

definition rt_mb_control :: "ptr \<Rightarrow> int \<Rightarrow> kstate \<Rightarrow> (rt_err \<times> kstate) option" where
  "rt_mb_control p cmd s = do {
     rt_assert (is_class Class_MailBox p s);
     if cmd = RT_IPC_CMD_RESET
     then do {
       (_, s) \<leftarrow> rt_ipc_list_resume_all (Susp p) s;
       (_, s) \<leftarrow> rt_ipc_list_resume_all (Sender p) s;
       let s = set_mb p (\<lambda>mb. mb\<lparr>mb_entry := 0, mb_in_offset := 0, mb_out_offset := 0\<rparr>) s;
       s \<leftarrow> rt_schedule s;
       Some (RT_EOK, s)
     }
     else Some (- RT_ERROR, s)
   }"


section \<open>The ring of mails\<close>

definition mb_wf :: "rt_mailbox \<Rightarrow> bool" where
  "mb_wf m \<longleftrightarrow> 0 < mb_size m \<and> unat (mb_size m) \<le> length (mb_pool m) \<and> mb_entry m \<le> mb_size m \<and>
     mb_out_offset m < mb_size m \<and>
     unat (mb_in_offset m) = (unat (mb_out_offset m) + unat (mb_entry m)) mod unat (mb_size m)"

definition mb_data :: "rt_mailbox \<Rightarrow> u32 list" where
  "mb_data m = ring_seq (mb_pool m) (unat (mb_size m)) (unat (mb_out_offset m)) (unat (mb_entry m))"

lemma length_mb_data [simp]: "length (mb_data m) = unat (mb_entry m)"
  by (simp add: mb_data_def)

lemma mb_data_Nil: "mb_data m = [] \<longleftrightarrow> mb_entry m = 0"
  by (metis length_mb_data length_0_conv unat_eq_zero)

text \<open>An offset that has just been increased is set back at the end of the pool.\<close>

lemma ring_next:
  fixes w n :: u16
  assumes "w < n"
  shows "unat (if n \<le> w + 1 then 0 else w + 1) = (unat w + 1) mod unat n"
proof -
  have w: "unat w < unat n" using assms by (simp add: word_less_nat_alt)
  have up: "unat (w + 1) = unat w + 1"
    by (rule unat_add_one [OF assms])
  show ?thesis
  proof (cases "n \<le> w + 1")
    case True
    then have "unat n \<le> unat w + 1" using up by (simp add: word_le_nat_alt)
    then have "unat w + 1 = unat n" using w by simp
    then show ?thesis using True by simp
  next
    case False
    then have "unat w + 1 < unat n" using up by (simp add: word_le_nat_alt not_le)
    then show ?thesis using False up by simp
  qed
qed

lemma mb_store_data:
  assumes wf: "mb_wf m" and room: "mb_entry m \<noteq> mb_size m"
  shows "\<exists>m'. mb_store m v = Some m' \<and> mb_wf m' \<and> mb_size m' = mb_size m \<and>
     mb_data m' = mb_data m @ [v]"
proof -
  let ?N = "unat (mb_size m)" and ?r = "unat (mb_out_offset m)" and ?c = "unat (mb_entry m)"
  let ?w = "mb_in_offset m"
  have c: "?c < ?N"
    using order_le_neq_trans [of "mb_entry m" "mb_size m"] wf room by (simp add: mb_wf_def word_less_nat_alt)
  have r: "?r < ?N" and N: "?N \<le> length (mb_pool m)" and w: "unat ?w = (?r + ?c) mod ?N"
    using wf by (simp_all add: mb_wf_def word_less_nat_alt)
  then have wN: "?w < mb_size m" by (simp add: word_less_nat_alt)
  then have wl: "unat ?w < length (mb_pool m)" using N by (simp add: word_less_nat_alt)
  define m' where "m' = m\<lparr>mb_pool := (mb_pool m)[unat ?w := v],
     mb_in_offset := (if mb_size m \<le> ?w + 1 then 0 else ?w + 1), mb_entry := mb_entry m + 1\<rparr>"
  have e: "unat (mb_entry m + 1) = Suc ?c"
    using unat_add_one [of "mb_entry m" "mb_size m"] c by (simp add: word_less_nat_alt)
  have "mb_store m v = Some m'"
    using wl by (cases m) (auto simp: mb_store_def m'_def Let_def)
  moreover have "mb_wf m'"
    using wf c e ring_next [OF wN] unfolding m'_def
    by (auto simp: mb_wf_def word_le_nat_alt w mod_simps)
  moreover have "mb_data m' = mb_data m @ [v]"
    using ring_seq_snoc [OF r c N, of v] e by (simp add: mb_data_def m'_def w)
  ultimately show ?thesis by (intro exI [of _ m']) (simp add: m'_def)
qed

lemma mb_fetch_data:
  assumes wf: "mb_wf m" and some: "mb_data m = v # vs"
  shows "\<exists>m'. mb_fetch m = Some (m', v) \<and> mb_wf m' \<and> mb_size m' = mb_size m \<and> mb_data m' = vs"
proof -
  let ?N = "unat (mb_size m)" and ?r = "unat (mb_out_offset m)" and ?c = "unat (mb_entry m)"
  have c: "0 < ?c" using some mb_data_Nil [of m] by (simp add: unat_gt_0)
  have rN: "mb_out_offset m < mb_size m" and N: "?N \<le> length (mb_pool m)"
    and w: "unat (mb_in_offset m) = (?r + ?c) mod ?N" and cN: "?c \<le> ?N"
    using wf by (simp_all add: mb_wf_def word_le_nat_alt)
  then have r: "?r < ?N" by (simp add: word_less_nat_alt)
  define m' where "m' = m\<lparr>mb_out_offset := (if mb_size m \<le> mb_out_offset m + 1 then 0 else mb_out_offset m + 1),
     mb_entry := mb_entry m - 1\<rparr>"
  have e: "unat (mb_entry m - 1) = ?c - 1" using c by (simp add: unat_minus_one unat_gt_0)
  have d: "mb_data m = mb_pool m ! ?r # ring_seq (mb_pool m) ?N ((?r + 1) mod ?N) (?c - 1)"
    using ring_seq_Cons [OF c, of "mb_pool m" ?N ?r] r by (simp add: mb_data_def)
  have o: "unat (mb_out_offset m') = (?r + 1) mod ?N" using ring_next [OF rN] by (simp add: m'_def)
  have "mb_fetch m = Some (m', v)"
    using r N d some by (cases m) (auto simp: mb_fetch_def m'_def Let_def)
  moreover have "mb_wf m'"
  proof -
    have "((?r + 1) mod ?N + (?c - 1)) mod ?N = (?r + 1 + (?c - 1)) mod ?N" by (simp only: mod_simps)
    then have "((?r + 1) mod ?N + (?c - 1)) mod ?N = (?r + ?c) mod ?N" using c by simp
    moreover have "mb_out_offset m' < mb_size m" using o r by (simp add: word_less_nat_alt)
    ultimately show ?thesis
      using wf w o e cN by (simp add: mb_wf_def m'_def word_le_nat_alt)
  qed
  moreover have "mb_data m' = vs" using d some o e by (simp add: mb_data_def m'_def)
  ultimately show ?thesis by (intro exI [of _ m']) (simp add: m'_def)
qed

text \<open>The tests of the code and the two steps as a buffer with attempts to put and get.\<close>

definition mb_enq :: "rt_mailbox \<Rightarrow> u32 \<Rightarrow> rt_mailbox option" where
  "mb_enq m v = (if mb_entry m = mb_size m then None else mb_store m v)"

definition mb_deq :: "rt_mailbox \<Rightarrow> (rt_mailbox \<times> u32) option" where
  "mb_deq m = (if mb_entry m = 0 then None else mb_fetch m)"

interpretation mbq: bounded_fifo "\<lambda>_. True" mb_wf "\<lambda>m. unat (mb_size m)" mb_data mb_enq mb_deq
proof
  fix m x xs and v :: u32
  show "mb_wf m \<Longrightarrow> length (mb_data m) \<le> unat (mb_size m)" by (simp add: mb_wf_def word_le_nat_alt)
  show "\<exists>m'. mb_enq m v = Some m' \<and> mb_wf m' \<and> unat (mb_size m') = unat (mb_size m) \<and> mb_data m' = mb_data m @ [v]"
    if "mb_wf m" "length (mb_data m) < unat (mb_size m)"
    using mb_store_data [OF that(1), of v] that(2) by (auto simp: mb_enq_def)
  show "mb_enq m v = None" if "mb_wf m" "length (mb_data m) = unat (mb_size m)"
    using that(2) by (simp add: mb_enq_def word_unat_eq_iff)
  show "\<exists>m'. mb_deq m = Some (m', x) \<and> mb_wf m' \<and> unat (mb_size m') = unat (mb_size m) \<and> mb_data m' = xs"
    if "mb_wf m" "mb_data m = x # xs"
    using mb_fetch_data [OF that] mb_data_Nil [of m] that(2) by (auto simp: mb_deq_def)
  show "mb_deq m = None" if "mb_data m = []"
    using that by (simp add: mb_deq_def mb_data_Nil)
qed

text \<open>C34: a mailbox is a first-in first-out buffer: any run of mails stored when there is room and
  fetched when there are some answers like the same run on a list of at most \<open>size\<close> mails, and ends
  with the same mails.\<close>

theorem rt_mailbox_fifo:
  assumes "mb_wf m" and "fifo_run mb_enq mb_deq m ops = (m', out)"
  shows "mb_wf m' \<and> fifo_run (list_enq (unat (mb_size m))) list_deq (mb_data m) ops = (mb_data m', out)"
  using mbq.run_refines [OF assms(1) TrueI assms(2)] by blast


section \<open>Sending and receiving\<close>

lemma set_mb_fields [simp]:
  "k_mb (set_mb p f s) = (k_mb s)(p := f (k_mb s p))"
  "k_q (set_mb p f s) = k_q s" "k_thr (set_mb p f s) = k_thr s" "k_group (set_mb p f s) = k_group s"
  "k_cur (set_mb p f s) = k_cur s" "k_lock (set_mb p f s) = k_lock s" "k_irq (set_mb p f s) = k_irq s"
  "k_tick (set_mb p f s) = k_tick s" "k_obj (set_mb p f s) = k_obj s"
  "k_container (set_mb p f s) = k_container s" "k_tmr (set_mb p f s) = k_tmr s"
  "k_tlist (set_mb p f s) = k_tlist s" "k_sem (set_mb p f s) = k_sem s"
  "k_mutex (set_mb p f s) = k_mutex s" "k_event (set_mb p f s) = k_event s"
  "k_mq (set_mb p f s) = k_mq s" "k_mp (set_mb p f s) = k_mp s"
  by (simp_all add: set_mb_def)

lemma data_step_mb [simp]: "data_step s (set_mb p f s)"
  by (simp add: data_step_def)

definition mb_ok :: "kstate \<Rightarrow> bool" where
  "mb_ok s \<longleftrightarrow> (\<forall>p. is_class Class_MailBox p s \<longrightarrow> mb_wf (k_mb s p))"

lemma mb_put_total:
  assumes h: "healthy idle s" and wf: "mb_wf (k_mb s p)" and room: "mb_entry (k_mb s p) \<noteq> mb_size (k_mb s p)"
  shows "\<exists>m' s'. mb_put p v s = Some (Returns RT_EOK, s') \<and> mb_wf m' \<and> mb_size m' = mb_size (k_mb s p) \<and>
     mb_data m' = mb_data (k_mb s p) @ [v] \<and> wakes_any idle (Susp p) (set_mb p (\<lambda>_. m') s) s'"
proof -
  obtain m' where m': "mb_store (k_mb s p) v = Some m'" "mb_wf m'" "mb_size m' = mb_size (k_mb s p)"
    "mb_data m' = mb_data (k_mb s p) @ [v]"
    using mb_store_data [OF wf room] by blast
  let ?s1 = "set_mb p (\<lambda>_. m') s"
  have "healthy idle ?s1" using h data_step_healthy [OF data_step_mb] by blast
  from wake_any [OF this, of "Susp p" "\<lambda>s. (Returns RT_EOK, s)"]
  obtain s' where "wakes_any idle (Susp p) ?s1 s'" "mb_put p v s = Some (Returns RT_EOK, s')"
    using m'(1) by (auto simp: mb_put_def Let_def)
  then show ?thesis using m' by blast
qed

lemma mb_get_total:
  assumes h: "healthy idle s" and wf: "mb_wf (k_mb s p)" and some: "mb_data (k_mb s p) = v # vs"
  shows "\<exists>m' s'. mb_get p s = Some (Returns RT_EOK, Some v, s') \<and> mb_wf m' \<and> mb_size m' = mb_size (k_mb s p) \<and>
     mb_data m' = vs \<and> wakes_any idle (Sender p) (set_mb p (\<lambda>_. m') s) s'"
proof -
  obtain m' where m': "mb_fetch (k_mb s p) = Some (m', v)" "mb_wf m'" "mb_size m' = mb_size (k_mb s p)" "mb_data m' = vs"
    using mb_fetch_data [OF wf some] by blast
  let ?s1 = "set_mb p (\<lambda>_. m') s"
  have "healthy idle ?s1" using h data_step_healthy [OF data_step_mb] by blast
  from wake_any [OF this, of "Sender p" "\<lambda>s. (Returns RT_EOK, Some v, s)"]
  obtain s' where "wakes_any idle (Sender p) ?s1 s'" "mb_get p s = Some (Returns RT_EOK, Some v, s')"
    using m'(1) by (auto simp: mb_get_def Let_def)
  then show ?thesis using m' by blast
qed

lemma mb_send_waits:
  assumes h: "healthy idle s" and ni: "k_cur s \<noteq> idle" and irq: "k_irq s = 0"
    and p: "is_class Class_MailBox p s" "mb_entry (k_mb s p) = mb_size (k_mb s p)"
      "ipc_flag p s \<in> {RT_IPC_FLAG_FIFO, RT_IPC_FLAG_PRIO}"
    and time: "timeout \<noteq> 0" "timeout \<noteq> TICK_HALF"
  shows "\<exists>s'. rt_mb_send_wait p v timeout s = Some (Blocked, s') \<and> waits_in idle (Sender p) (ipc_flag p s) timeout s s'"
proof -
  obtain s' where "ipc_wait (Sender p) (k_cur s) (ipc_flag p s) timeout
      (set_thr (k_cur s) (\<lambda>th. th\<lparr>t_error := RT_EOK\<rparr>) s) = Some s'"
    and w: "waits_in idle (Sender p) (ipc_flag p s) timeout s s'"
    using wait_reset [OF h ni _ p(3) time(2), of "Sender p"] by auto
  then show ?thesis
    using p time(1) irq waits_inD(3) [OF w] healthyD(3) [OF h] w
    by (simp add: rt_mb_send_wait_def mb_send_loop.simps thread_context_def rt_thread_self_def Let_def)
qed

lemma mb_recv_waits:
  assumes h: "healthy idle s" and ni: "k_cur s \<noteq> idle" and irq: "k_irq s = 0"
    and p: "is_class Class_MailBox p s" "mb_entry (k_mb s p) = 0"
      "ipc_flag p s \<in> {RT_IPC_FLAG_FIFO, RT_IPC_FLAG_PRIO}"
    and time: "timeout \<noteq> 0" "timeout \<noteq> TICK_HALF"
  shows "\<exists>s'. rt_mb_recv p timeout s = Some (Blocked, None, s') \<and> waits_in idle (Susp p) (ipc_flag p s) timeout s s'"
proof -
  obtain s' where "ipc_wait (Susp p) (k_cur s) (ipc_flag p s) timeout
      (set_thr (k_cur s) (\<lambda>th. th\<lparr>t_error := RT_EOK\<rparr>) s) = Some s'"
    and w: "waits_in idle (Susp p) (ipc_flag p s) timeout s s'"
    using wait_reset [OF h ni _ p(3) time(2), of "Susp p"] by auto
  then show ?thesis
    using p time(1) irq waits_inD(3) [OF w] healthyD(3) [OF h] w
    by (simp add: rt_mb_recv_def mb_recv_loop.simps thread_context_def rt_thread_self_def Let_def)
qed

lemma mb_send_room:
  "is_class Class_MailBox p s \<Longrightarrow> mb_entry (k_mb s p) \<noteq> mb_size (k_mb s p) \<Longrightarrow>
   rt_mb_send_wait p v timeout s = mb_put p v s"
  by (simp add: rt_mb_send_wait_def mb_send_loop.simps)

lemma mb_recv_some:
  "is_class Class_MailBox p s \<Longrightarrow> mb_entry (k_mb s p) \<noteq> 0 \<Longrightarrow> rt_mb_recv p timeout s = mb_get p s"
  by (simp add: rt_mb_recv_def mb_recv_loop.simps)

text \<open>A mail sent to an empty mailbox somebody waits for arrives: the first receiver leaves the list
  and can run, and when it does, its \<open>rt_mb_recv\<close> returns \<open>RT_EOK\<close> with this mail and the mailbox is
  empty again.\<close>

theorem rt_mb_send_delivers:
  assumes h: "healthy idle s" and p: "is_class Class_MailBox p s" "mb_wf (k_mb s p)" "mb_entry (k_mb s p) = 0"
    and q: "k_q s (Susp p) = w # ws" and err: "t_error (k_thr s w) = RT_EOK"
  shows "\<exists>s' s''. rt_mb_send p v s = Some (Returns RT_EOK, s') \<and> healthy idle s' \<and> k_q s' (Susp p) = ws \<and> runs w s' \<and>
     rt_mb_recv_resume p w timeout start s' = Some (Returns RT_EOK, Some v, s'') \<and> healthy idle s'' \<and>
     mb_data (k_mb s'' p) = []"
proof -
  have "mb_entry (k_mb s p) \<noteq> mb_size (k_mb s p)" using p(2,3) by (auto simp: mb_wf_def)
  moreover obtain m' s' where s': "mb_put p v s = Some (Returns RT_EOK, s')" "mb_wf m'"
    "mb_data m' = mb_data (k_mb s p) @ [v]" "wakes_any idle (Susp p) (set_mb p (\<lambda>_. m') s) s'"
    using mb_put_total [OF h p(2) calculation] by blast
  ultimately have send: "rt_mb_send p v s = Some (Returns RT_EOK, s')"
    using mb_send_room [OF p(1)] by (simp add: rt_mb_send_def)
  note d = wakes_anyD [OF s'(4)]
  have mb: "k_mb s' p = m'" using ipc_frameD(4) [OF d(2)] by simp
  moreover have "mb_data m' = [v]" using s'(3) p(3) mb_data_Nil by simp
  ultimately have ne: "mb_wf (k_mb s' p)" "mb_data (k_mb s' p) = [v]" using s'(2) by simp_all
  then have "mb_entry (k_mb s' p) \<noteq> 0" using mb_data_Nil [of "k_mb s' p"] by simp
  moreover obtain m'' s'' where s'': "mb_get p s' = Some (Returns RT_EOK, Some v, s'')" "mb_data m'' = []"
    "wakes_any idle (Sender p) (set_mb p (\<lambda>_. m'') s') s''"
    using mb_get_total [OF d(1) ne] by blast
  moreover have "t_error (k_thr s' w) = RT_EOK" using d(7) [of w] err by simp
  ultimately have "rt_mb_recv_resume p w timeout start s' = Some (Returns RT_EOK, Some v, s'')"
    by (simp add: rt_mb_recv_resume_def mb_recv_loop.simps)
  moreover have "mb_data (k_mb s'' p) = []" using ipc_frameD(4) [OF wakes_anyD(2) [OF s''(3)]] s''(2) by simp
  ultimately show ?thesis
    using send d(1,4) d(6) [of w] q wakes_anyD(1) [OF s''(3)] by (intro exI [of _ s'] exI [of _ s'']) simp
qed

text \<open>A receiver that takes a mail from a full mailbox lets the first waiting sender in: it gets the
  oldest mail, and when the sender runs again, its \<open>rt_mb_send_wait\<close> puts its mail behind the others.\<close>

theorem rt_mb_recv_admits:
  assumes h: "healthy idle s" and p: "is_class Class_MailBox p s" "mb_wf (k_mb s p)"
    and full: "mb_entry (k_mb s p) = mb_size (k_mb s p)" "mb_data (k_mb s p) = x # xs"
    and q: "k_q s (Sender p) = w # ws" and err: "t_error (k_thr s w) = RT_EOK"
  shows "\<exists>s' s''. rt_mb_recv p t s = Some (Returns RT_EOK, Some x, s') \<and> healthy idle s' \<and> k_q s' (Sender p) = ws \<and>
     runs w s' \<and> rt_mb_send_resume p w v timeout start s' = Some (Returns RT_EOK, s'') \<and> healthy idle s'' \<and>
     mb_data (k_mb s'' p) = xs @ [v]"
proof -
  have "mb_entry (k_mb s p) \<noteq> 0" using full(2) mb_data_Nil [of "k_mb s p"] by simp
  moreover obtain m' s' where s': "mb_get p s = Some (Returns RT_EOK, Some x, s')" "mb_wf m'"
    "mb_size m' = mb_size (k_mb s p)" "mb_data m' = xs" "wakes_any idle (Sender p) (set_mb p (\<lambda>_. m') s) s'"
    using mb_get_total [OF h p(2) full(2)] by blast
  ultimately have recv: "rt_mb_recv p t s = Some (Returns RT_EOK, Some x, s')"
    using mb_recv_some [OF p(1)] by simp
  note d = wakes_anyD [OF s'(5)]
  have mb: "k_mb s' p = m'" using ipc_frameD(4) [OF d(2)] by simp
  have "unat (mb_entry m') < unat (mb_size m')"
    using s'(3,4) full by (metis length_mb_data length_Cons lessI)
  then have ne: "mb_wf (k_mb s' p)" "mb_entry (k_mb s' p) \<noteq> mb_size (k_mb s' p)" using s'(2) mb by auto
  obtain m'' s'' where s'': "mb_put p v s' = Some (Returns RT_EOK, s'')" "mb_data m'' = mb_data (k_mb s' p) @ [v]"
    "wakes_any idle (Susp p) (set_mb p (\<lambda>_. m'') s') s''"
    using mb_put_total [OF d(1) ne] by blast
  have "t_error (k_thr s' w) = RT_EOK" using d(7) [of w] err by simp
  then have "rt_mb_send_resume p w v timeout start s' = Some (Returns RT_EOK, s'')"
    using ne(2) s''(1) by (simp add: rt_mb_send_resume_def mb_send_loop.simps)
  moreover have "mb_data (k_mb s'' p) = xs @ [v]"
    using ipc_frameD(4) [OF wakes_anyD(2) [OF s''(3)]] s''(2) s'(4) mb by simp
  ultimately show ?thesis
    using recv d(1,4) d(6) [of w] q wakes_anyD(1) [OF s''(3)] by (intro exI [of _ s'] exI [of _ s'']) simp
qed


section \<open>The invariant of mailboxes\<close>

lemma mb_ok_step:
  assumes "mb_ok s" and "mb_wf m'" and "ipc_frame (set_mb p (\<lambda>_. m') s) s'"
  shows "mb_ok s'"
proof -
  have "rt_object_get_type x s' = rt_object_get_type x s" for x
    using ipc_frameD(11) [OF assms(3)] data_step_get_type [OF data_step_mb, of x p "\<lambda>_. m'" s] by simp
  then show ?thesis
    using assms(1,2) ipc_frameD(4) [OF assms(3)] by (auto simp: mb_ok_def is_class_def)
qed

lemma mb_ok_frame:
  assumes "mb_ok s" and "ipc_frame s s'"
  shows "mb_ok s'"
  using assms(1) ipc_frameD(4) [OF assms(2)] is_class_frame [OF assms(2)] by (simp add: mb_ok_def)

lemma mb_send_inv:
  assumes h: "healthy idle s" and ok: "mb_ok s" and ni: "k_cur s \<noteq> idle" and irq: "k_irq s = 0"
    and p: "is_class Class_MailBox p s" "ipc_flag p s \<in> {RT_IPC_FLAG_FIFO, RT_IPC_FLAG_PRIO}"
    and time: "timeout \<noteq> TICK_HALF"
  shows "\<exists>r s'. rt_mb_send_wait p v timeout s = Some (r, s') \<and> healthy idle s' \<and> mb_ok s'"
proof -
  have wf: "mb_wf (k_mb s p)" using ok p(1) by (simp add: mb_ok_def)
  consider "mb_entry (k_mb s p) \<noteq> mb_size (k_mb s p)"
    | "mb_entry (k_mb s p) = mb_size (k_mb s p)" "timeout = 0"
    | "mb_entry (k_mb s p) = mb_size (k_mb s p)" "timeout \<noteq> 0" by blast
  then show ?thesis
  proof cases
    case 1
    obtain m' s' where "mb_put p v s = Some (Returns RT_EOK, s')" "mb_wf m'"
      "wakes_any idle (Susp p) (set_mb p (\<lambda>_. m') s) s'"
      using mb_put_total [OF h wf 1] by blast
    then show ?thesis
      using mb_send_room [OF p(1) 1] wakes_anyD(1,2) mb_ok_step [OF ok] by metis
  next
    case 2
    then show ?thesis using p(1) h ok by (simp add: rt_mb_send_wait_def)
  next
    case 3
    then show ?thesis
      using mb_send_waits [OF h ni irq p(1) 3(1) p(2) 3(2) time] waits_inD(1,2) mb_ok_frame [OF ok] by metis
  qed
qed

lemma mb_recv_inv:
  assumes h: "healthy idle s" and ok: "mb_ok s" and ni: "k_cur s \<noteq> idle" and irq: "k_irq s = 0"
    and p: "is_class Class_MailBox p s" "ipc_flag p s \<in> {RT_IPC_FLAG_FIFO, RT_IPC_FLAG_PRIO}"
    and time: "timeout \<noteq> TICK_HALF"
  shows "\<exists>r v s'. rt_mb_recv p timeout s = Some (r, v, s') \<and> healthy idle s' \<and> mb_ok s'"
proof -
  have wf: "mb_wf (k_mb s p)" using ok p(1) by (simp add: mb_ok_def)
  consider "mb_entry (k_mb s p) \<noteq> 0" | "mb_entry (k_mb s p) = 0" "timeout = 0"
    | "mb_entry (k_mb s p) = 0" "timeout \<noteq> 0" by blast
  then show ?thesis
  proof cases
    case 1
    then obtain x xs where "mb_data (k_mb s p) = x # xs" using mb_data_Nil [of "k_mb s p"] by (cases "mb_data (k_mb s p)") auto
    then obtain m' s' where "mb_get p s = Some (Returns RT_EOK, Some x, s')" "mb_wf m'"
      "wakes_any idle (Sender p) (set_mb p (\<lambda>_. m') s) s'"
      using mb_get_total [OF h wf] by blast
    then show ?thesis
      using mb_recv_some [OF p(1) 1] wakes_anyD(1,2) mb_ok_step [OF ok] by metis
  next
    case 2
    then show ?thesis using p(1) h ok by (simp add: rt_mb_recv_def)
  next
    case 3
    then show ?thesis
      using mb_recv_waits [OF h ni irq p(1) 3(1) p(2) 3(2) time] waits_inD(1,2) mb_ok_frame [OF ok] by metis
  qed
qed

text \<open>Whatever it finds, \<open>rt_mb_send_wait\<close> comes back or waits, and the invariants of the system and
  of the mailboxes are kept; when the mailbox is full and it may wait, the thread goes to its place
  among the senders and the mails stay as they are.\<close>

theorem rt_mb_send_wait_total:
  assumes h: "healthy idle s" and ok: "mb_ok s" and ni: "k_cur s \<noteq> idle" and irq: "k_irq s = 0"
    and p: "is_class Class_MailBox p s" "ipc_flag p s \<in> {RT_IPC_FLAG_FIFO, RT_IPC_FLAG_PRIO}"
    and time: "timeout \<noteq> TICK_HALF"
  shows "\<exists>r s'. rt_mb_send_wait p v timeout s = Some (r, s') \<and> healthy idle s' \<and> mb_ok s' \<and>
     (mb_entry (k_mb s p) = mb_size (k_mb s p) \<longrightarrow> k_mb s' = k_mb s \<and>
        (if timeout = 0 then r = Returns (- RT_EFULL)
         else r = Blocked \<and> k_q s' (Sender p) = wait_insert (ipc_flag p s) (prio_of s) (k_cur s) (k_q s (Sender p))))"
proof (cases "mb_entry (k_mb s p) = mb_size (k_mb s p) \<and> timeout \<noteq> 0")
  case True
  then obtain s' where s': "rt_mb_send_wait p v timeout s = Some (Blocked, s')"
    "waits_in idle (Sender p) (ipc_flag p s) timeout s s'"
    using mb_send_waits [OF h ni irq p(1) _ p(2) _ time] by blast
  then show ?thesis
    using True waits_inD(1,7) [OF s'(2)] ipc_frameD(4) [OF waits_inD(2) [OF s'(2)]]
      mb_ok_frame [OF ok waits_inD(2) [OF s'(2)]] by auto
next
  case False
  then consider "mb_entry (k_mb s p) \<noteq> mb_size (k_mb s p)" | "mb_entry (k_mb s p) = mb_size (k_mb s p)" "timeout = 0"
    by blast
  then show ?thesis
  proof cases
    case 1
    then show ?thesis using mb_send_inv [OF h ok ni irq p time] by blast
  next
    case 2
    then show ?thesis using p(1) h ok by (simp add: rt_mb_send_wait_def)
  qed
qed

lemma suspend_linked:
  "stat_of (k_thr s t) = RT_THREAD_SUSPEND \<Longrightarrow> \<not> link_ok t s \<Longrightarrow>
   flag \<in> {RT_IPC_FLAG_FIFO, RT_IPC_FLAG_PRIO} \<Longrightarrow> rt_ipc_list_suspend q t flag s = None"
  by (auto simp: rt_ipc_list_suspend_def rt_thread_suspend_def ipc_list_insert_def tlist_insert_before_head_def
      tlist_insert_before_node_def split: option.splits)

text \<open>With the scheduler locked, \<open>rt_mb_recv\<close> on an empty mailbox suspends the thread, is not switched
  away, finds the mailbox still empty and links the thread, whose node is in the list already, a
  second time: the waiting list is corrupted.\<close>

theorem rt_mb_recv_locked_faults:
  assumes inv: "sys_inv 0 s" and lock: "k_lock s \<noteq> 0" and irq: "k_irq s = 0" and cur: "k_cur s \<noteq> RT_NULL"
    and run: "stat_of (k_thr s (k_cur s)) = RT_THREAD_RUNNING"
    and p: "is_class Class_MailBox p s" "mb_entry (k_mb s p) = 0"
      "ipc_flag p s \<in> {RT_IPC_FLAG_FIFO, RT_IPC_FLAG_PRIO}"
    and time: "sint timeout < 0"
  shows "rt_mb_recv p timeout s = None"
proof -
  let ?t = "k_cur s" and ?s1 = "set_thr (k_cur s) (\<lambda>th. th\<lparr>t_error := RT_EOK\<rparr>) s"
  let ?s2 = "parked (Susp p) ?t (ipc_flag p s) ?s1"
  have t0: "timeout \<noteq> 0" using time by auto
  have inv1: "sys_inv 0 ?s1" using inv by simp
  have "rt_ipc_list_suspend (Susp p) ?t (ipc_flag p s) ?s1 = Some (RT_EOK, ?s2)"
    using list_suspend_parked(1) [OF inv1 _ _ p(3), of ?t "Susp p"] run by simp
  then have w1: "ipc_wait (Susp p) ?t (ipc_flag p s) timeout ?s1 = Some ?s2"
    using time lock by (simp add: ipc_wait_def rt_schedule_def)
  let ?s3 = "set_thr ?t (\<lambda>th. th\<lparr>t_error := RT_EOK\<rparr>) ?s2"
  have fr: "ipc_frame s ?s2"
    by (rule ipc_frame_trans [OF ipc_frame_steps(5) parked_frame])
  have again: "rt_ipc_list_suspend (Susp p) ?t (ipc_flag p s) ?s3 = None"
    by (rule suspend_linked) (use p(3) in \<open>simp_all add: parked_thr link_ok_def\<close>)
  have f2: "k_mb ?s2 = k_mb s" "k_irq ?s2 = k_irq s" "ipc_flag p ?s2 = ipc_flag p s" "k_cur ?s2 = ?t"
    "t_error (k_thr ?s2 ?t) = RT_EOK" "timeout_left timeout x ?s2 = timeout" for x
    using ipc_frameD(4,7) [OF fr] ipc_flag_frame [OF fr] time
    by (simp_all add: parked_thr timeout_left_def)
  have "mb_recv_loop p ?t timeout ?s2 = None"
    using again p(2) t0 irq cur f2 by (simp add: mb_recv_loop.simps [of p ?t timeout ?s2]
      thread_context_def rt_thread_self_def ipc_wait_def)
  then have "mb_recv_loop p ?t timeout s = None"
    using w1 p(2) t0 irq cur f2 by (simp add: mb_recv_loop.simps [of p ?t timeout s]
      thread_context_def rt_thread_self_def Let_def)
  then show ?thesis using p(1) t0 by (simp add: rt_mb_recv_def rt_thread_self_def Let_def)
qed

end
