(* ===== verification/RTT_MsgQueue.thy ===== *)
theory RTT_MsgQueue
  imports RTT_Sem RTT_Fifo
begin

text \<open>
  The message queues of \<open>src/ipc.c\<close>. The pool is cut into blocks, each a link and the bytes of a
  message; a block is in the chain of queued messages or in the free chain. The first part follows
  the pool operations of the code (\<open>mq_link_free\<close>, \<open>mq_enter\<close>, \<open>mq_enter_front\<close>, \<open>mq_leave\<close>), the
  second the blocking operations around them, split at their \<open>rt_schedule\<close>.

  The pool memory is an argument: the bytes \<open>rt_mq_init\<close> is given, the bytes \<open>RT_KERNEL_MALLOC\<close>
  returns for \<open>rt_mq_create\<close> (\<open>None\<close> when it fails). The code copies the message with interrupts
  enabled, while the block is in neither chain; here the whole call is one step. Buffers are lists of
  bytes, so never \<open>RT_NULL\<close>.
\<close>

section \<open>Operations\<close>

definition set_mq :: "ptr \<Rightarrow> (rt_messagequeue \<Rightarrow> rt_messagequeue) \<Rightarrow> kstate \<Rightarrow> kstate" where
  "set_mq p f s = s\<lparr>k_mq := (k_mq s)(p := f (k_mq s p))\<rparr>"

definition upd_blk :: "nat \<Rightarrow> (mq_block \<Rightarrow> mq_block) \<Rightarrow> rt_messagequeue \<Rightarrow> rt_messagequeue" where
  "upd_blk b f m = m\<lparr>mq_pool := (mq_pool m)[b := f (mq_pool m ! b)]\<rparr>"

definition set_blk :: "nat \<Rightarrow> (mq_block \<Rightarrow> mq_block) \<Rightarrow> rt_messagequeue \<Rightarrow> rt_messagequeue option" where
  "set_blk b f m = (if b < length (mq_pool m) then Some (upd_blk b f m) else None)"

text \<open>The loop that puts the blocks in the free chain, and the blocks in the memory of the pool.\<close>

primrec mq_link_free :: "nat \<Rightarrow> rt_messagequeue \<Rightarrow> rt_messagequeue" where
  "mq_link_free 0 m = m"
| "mq_link_free (Suc n) m =
     (let m = mq_link_free n m in (upd_blk n (\<lambda>blk. blk\<lparr>blk_next := mq_free m\<rparr>) m)\<lparr>mq_free := Some n\<rparr>)"

definition mq_carve :: "u8 list \<Rightarrow> u16 \<Rightarrow> u16 \<Rightarrow> mq_block list option" where
  "mq_carve mem sz n =
     (if unat n * (unat sz + 4) \<le> length mem
      then Some (map (\<lambda>i. \<lparr>blk_next = None, blk_data = take (unat sz) (drop (i * (unat sz + 4) + 4) mem)\<rparr>) [0..<unat n])
      else None)"

definition mq_fresh :: "u8 list \<Rightarrow> u16 \<Rightarrow> u16 \<Rightarrow> rt_messagequeue option" where
  "mq_fresh mem sz n = do {
     blks \<leftarrow> mq_carve mem sz n;
     Some (mq_link_free (unat n) \<lparr>mq_pool = blks, mq_msg_size = sz, mq_max_msgs = n, mq_entry = 0,
       mq_head = None, mq_tail = None, mq_free = None\<rparr>)
   }"

definition rt_mq_init ::
  "ptr \<Rightarrow> string \<Rightarrow> u8 list \<Rightarrow> u32 \<Rightarrow> u32 \<Rightarrow> u8 \<Rightarrow> kstate \<Rightarrow> (rt_err \<times> kstate) option"
where
  "rt_mq_init p name msgpool msg_size pool_size flag s = do {
     rt_assert (p \<noteq> RT_NULL);
     s \<leftarrow> rt_object_init (Obj p) Class_MessageQueue name s;
     let s = set_ipc_flag p flag s;
     (_, s) \<leftarrow> rt_ipc_object_init (Susp p) s;
     let sz = ucast (RT_ALIGN msg_size 4);
     let n = ucast (pool_size div (ucast sz + 4));
     m \<leftarrow> mq_fresh msgpool sz n;
     let s = set_mq p (\<lambda>_. m) s;
     (_, s) \<leftarrow> rt_ipc_object_init (Sender p) s;
     Some (RT_EOK, s)
   }"

definition rt_mq_detach :: "ptr \<Rightarrow> kstate \<Rightarrow> (rt_err \<times> kstate) option" where
  "rt_mq_detach p s = do {
     rt_assert (is_class Class_MessageQueue p s);
     rt_assert (rt_object_is_systemobject (Obj p) s);
     (_, s) \<leftarrow> rt_ipc_list_resume_all (Susp p) s;
     (_, s) \<leftarrow> rt_ipc_list_resume_all (Sender p) s;
     Some (RT_EOK, rt_object_detach (Obj p) s)
   }"

definition rt_mq_create ::
  "ptr \<Rightarrow> u8 list option \<Rightarrow> string \<Rightarrow> u32 \<Rightarrow> u32 \<Rightarrow> u8 \<Rightarrow> kstate \<Rightarrow> (ptr \<times> kstate) option"
where
  "rt_mq_create mem pool name msg_size max_msgs flag s = do {
     rt_assert (k_irq s = 0);
     (p, s) \<leftarrow> rt_object_allocate mem Class_MessageQueue name s;
     if p = RT_NULL then Some (RT_NULL, s)
     else do {
       let s = set_ipc_flag p flag s;
       (_, s) \<leftarrow> rt_ipc_object_init (Susp p) s;
       let sz = ucast (RT_ALIGN msg_size 4);
       let n = ucast max_msgs;
       let s = set_mq p (\<lambda>mq. mq\<lparr>mq_msg_size := sz, mq_max_msgs := n\<rparr>) s;
       (case pool of
          None \<Rightarrow> do { s \<leftarrow> rt_object_delete (Obj p) s; Some (RT_NULL, s) }
        | Some mem \<Rightarrow> do {
            m \<leftarrow> mq_fresh mem sz n;
            let s = set_mq p (\<lambda>_. m) s;
            (_, s) \<leftarrow> rt_ipc_object_init (Sender p) s;
            Some (p, s)
          })
     }
   }"

definition rt_mq_delete :: "ptr \<Rightarrow> kstate \<Rightarrow> (rt_err \<times> kstate) option" where
  "rt_mq_delete p s = do {
     rt_assert (k_irq s = 0);
     rt_assert (is_class Class_MessageQueue p s);
     rt_assert (\<not> rt_object_is_systemobject (Obj p) s);
     (_, s) \<leftarrow> rt_ipc_list_resume_all (Susp p) s;
     (_, s) \<leftarrow> rt_ipc_list_resume_all (Sender p) s;
     s \<leftarrow> rt_object_delete (Obj p) s;
     Some (RT_EOK, s)
   }"

text \<open>The free block \<open>b\<close> filled and linked behind the last message, or before the first
  (\<open>rt_mq_urgent\<close>).\<close>

definition mq_enter :: "nat \<Rightarrow> u8 list \<Rightarrow> u32 \<Rightarrow> rt_messagequeue \<Rightarrow> rt_messagequeue option" where
  "mq_enter b buf sz m = do {
     rt_assert (b < length (mq_pool m));
     let m = m\<lparr>mq_free := blk_next (mq_pool m ! b)\<rparr>;
     m \<leftarrow> set_blk b (\<lambda>blk. blk\<lparr>blk_next := None\<rparr>) m;
     d \<leftarrow> memcpy (blk_data (mq_pool m ! b)) 0 buf 0 (uint sz);
     m \<leftarrow> set_blk b (\<lambda>blk. blk\<lparr>blk_data := d\<rparr>) m;
     m \<leftarrow> (case mq_tail m of None \<Rightarrow> Some m | Some t \<Rightarrow> set_blk t (\<lambda>blk. blk\<lparr>blk_next := Some b\<rparr>) m);
     let m = m\<lparr>mq_tail := Some b\<rparr>;
     let m = (if mq_head m = None then m\<lparr>mq_head := Some b\<rparr> else m);
     Some (m\<lparr>mq_entry := mq_entry m + 1\<rparr>)
   }"

definition mq_enter_front :: "nat \<Rightarrow> u8 list \<Rightarrow> u32 \<Rightarrow> rt_messagequeue \<Rightarrow> rt_messagequeue option" where
  "mq_enter_front b buf sz m = do {
     rt_assert (b < length (mq_pool m));
     let m = m\<lparr>mq_free := blk_next (mq_pool m ! b)\<rparr>;
     d \<leftarrow> memcpy (blk_data (mq_pool m ! b)) 0 buf 0 (uint sz);
     m \<leftarrow> set_blk b (\<lambda>blk. blk\<lparr>blk_data := d\<rparr>) m;
     m \<leftarrow> set_blk b (\<lambda>blk. blk\<lparr>blk_next := mq_head m\<rparr>) m;
     let m = m\<lparr>mq_head := Some b\<rparr>;
     let m = (if mq_tail m = None then m\<lparr>mq_tail := Some b\<rparr> else m);
     Some (m\<lparr>mq_entry := mq_entry m + 1\<rparr>)
   }"

text \<open>The first message taken out; the result is what is copied to the caller's buffer.\<close>

definition mq_leave :: "u32 \<Rightarrow> rt_messagequeue \<Rightarrow> (rt_messagequeue \<times> u8 list) option" where
  "mq_leave sz m =
     (case mq_head m of
        None \<Rightarrow> None
      | Some b \<Rightarrow> do {
          rt_assert (b < length (mq_pool m));
          let m = m\<lparr>mq_head := blk_next (mq_pool m ! b)\<rparr>;
          let m = (if mq_tail m = Some b then m\<lparr>mq_tail := None\<rparr> else m);
          let m = m\<lparr>mq_entry := mq_entry m - 1\<rparr>;
          let n = (if ucast (mq_msg_size m) < sz then ucast (mq_msg_size m) else sz);
          rt_assert (unat n \<le> length (blk_data (mq_pool m ! b)));
          let d = take (unat n) (blk_data (mq_pool m ! b));
          m \<leftarrow> set_blk b (\<lambda>blk. blk\<lparr>blk_next := mq_free m\<rparr>) m;
          Some (m\<lparr>mq_free := Some b\<rparr>, d)
        })"

text \<open>The part of a send when a free block is there, and of a receive when there is a message.\<close>

definition mq_wake_receiver :: "ptr \<Rightarrow> kstate \<Rightarrow> (outcome \<times> kstate) option" where
  "mq_wake_receiver p s =
     (if k_q s (Susp p) \<noteq> []
      then do {
        (_, s) \<leftarrow> rt_ipc_list_resume (Susp p) s;
        s \<leftarrow> rt_schedule s;
        Some (Returns RT_EOK, s)
      }
      else Some (Returns RT_EOK, s))"

definition mq_put :: "ptr \<Rightarrow> nat \<Rightarrow> u8 list \<Rightarrow> u32 \<Rightarrow> kstate \<Rightarrow> (outcome \<times> kstate) option" where
  "mq_put p b buf sz s = do {
     m \<leftarrow> mq_enter b buf sz (k_mq s p);
     mq_wake_receiver p (set_mq p (\<lambda>_. m) s)
   }"

definition mq_get :: "ptr \<Rightarrow> u32 \<Rightarrow> kstate \<Rightarrow> (outcome \<times> u8 list option \<times> kstate) option" where
  "mq_get p sz s = do {
     (m, d) \<leftarrow> mq_leave sz (k_mq s p);
     let s = set_mq p (\<lambda>_. m) s;
     if k_q s (Sender p) \<noteq> []
     then do {
       (_, s) \<leftarrow> rt_ipc_list_resume (Sender p) s;
       s \<leftarrow> rt_schedule s;
       Some (Returns RT_EOK, Some d, s)
     }
     else Some (Returns RT_EOK, Some d, s)
   }"

partial_function (option) mq_send_loop ::
  "ptr \<Rightarrow> ptr \<Rightarrow> u8 list \<Rightarrow> u32 \<Rightarrow> u32 \<Rightarrow> kstate \<Rightarrow> (outcome \<times> kstate) option"
where
  "mq_send_loop p t buf sz timeout s =
     (case mq_free (k_mq s p) of
        None \<Rightarrow> do {
          rt_assert (t \<noteq> RT_NULL);
          let s = set_thr t (\<lambda>th. th\<lparr>t_error := RT_EOK\<rparr>) s;
          if timeout = 0 then Some (Returns (- RT_EFULL), s)
          else do {
            rt_assert (thread_context s);
            let start = k_tick s;
            s \<leftarrow> ipc_wait (Sender p) t (ipc_flag p s) timeout s;
            if rt_thread_self s \<noteq> t then Some (Blocked, s)
            else if t_error (k_thr s t) \<noteq> RT_EOK then Some (Returns (t_error (k_thr s t)), s)
            else mq_send_loop p t buf sz (timeout_left timeout start s) s
          }
        }
      | Some b \<Rightarrow> mq_put p b buf sz s)"

definition rt_mq_send_resume ::
  "ptr \<Rightarrow> ptr \<Rightarrow> u8 list \<Rightarrow> u32 \<Rightarrow> u32 \<Rightarrow> u32 \<Rightarrow> kstate \<Rightarrow> (outcome \<times> kstate) option"
where
  "rt_mq_send_resume p t buf sz timeout start s =
     (if t_error (k_thr s t) \<noteq> RT_EOK then Some (Returns (t_error (k_thr s t)), s)
      else mq_send_loop p t buf sz (timeout_left timeout start s) s)"

definition rt_mq_send_wait :: "ptr \<Rightarrow> u8 list \<Rightarrow> u32 \<Rightarrow> u32 \<Rightarrow> kstate \<Rightarrow> (outcome \<times> kstate) option" where
  "rt_mq_send_wait p buf sz timeout s = do {
     rt_assert (is_class Class_MessageQueue p s);
     rt_assert (sz \<noteq> 0);
     if ucast (mq_msg_size (k_mq s p)) < sz then Some (Returns (- RT_ERROR), s)
     else if mq_free (k_mq s p) = None \<and> timeout = 0 then Some (Returns (- RT_EFULL), s)
     else mq_send_loop p (rt_thread_self s) buf sz timeout s
   }"

definition rt_mq_send :: "ptr \<Rightarrow> u8 list \<Rightarrow> u32 \<Rightarrow> kstate \<Rightarrow> (outcome \<times> kstate) option" where
  "rt_mq_send p buf sz s = rt_mq_send_wait p buf sz 0 s"

definition rt_mq_urgent :: "ptr \<Rightarrow> u8 list \<Rightarrow> u32 \<Rightarrow> kstate \<Rightarrow> (outcome \<times> kstate) option" where
  "rt_mq_urgent p buf sz s = do {
     rt_assert (is_class Class_MessageQueue p s);
     rt_assert (sz \<noteq> 0);
     if ucast (mq_msg_size (k_mq s p)) < sz then Some (Returns (- RT_ERROR), s)
     else (case mq_free (k_mq s p) of
        None \<Rightarrow> Some (Returns (- RT_EFULL), s)
      | Some b \<Rightarrow> do {
          m \<leftarrow> mq_enter_front b buf sz (k_mq s p);
          mq_wake_receiver p (set_mq p (\<lambda>_. m) s)
        })
   }"

partial_function (option) mq_recv_loop ::
  "ptr \<Rightarrow> ptr \<Rightarrow> u32 \<Rightarrow> u32 \<Rightarrow> kstate \<Rightarrow> (outcome \<times> u8 list option \<times> kstate) option"
where
  "mq_recv_loop p t sz timeout s =
     (if mq_entry (k_mq s p) = 0
      then do {
        rt_assert (thread_context s);
        let s = set_thr t (\<lambda>th. th\<lparr>t_error := RT_EOK\<rparr>) s;
        if timeout = 0
        then Some (Returns (- RT_ETIMEOUT), None, set_thr t (\<lambda>th. th\<lparr>t_error := - RT_ETIMEOUT\<rparr>) s)
        else do {
          let start = k_tick s;
          s \<leftarrow> ipc_wait (Susp p) t (ipc_flag p s) timeout s;
          if rt_thread_self s \<noteq> t then Some (Blocked, None, s)
          else if t_error (k_thr s t) \<noteq> RT_EOK then Some (Returns (t_error (k_thr s t)), None, s)
          else mq_recv_loop p t sz (timeout_left timeout start s) s
        }
      }
      else mq_get p sz s)"

definition rt_mq_recv_resume ::
  "ptr \<Rightarrow> ptr \<Rightarrow> u32 \<Rightarrow> u32 \<Rightarrow> u32 \<Rightarrow> kstate \<Rightarrow> (outcome \<times> u8 list option \<times> kstate) option"
where
  "rt_mq_recv_resume p t sz timeout start s =
     (if t_error (k_thr s t) \<noteq> RT_EOK then Some (Returns (t_error (k_thr s t)), None, s)
      else mq_recv_loop p t sz (timeout_left timeout start s) s)"

definition rt_mq_recv :: "ptr \<Rightarrow> u32 \<Rightarrow> u32 \<Rightarrow> kstate \<Rightarrow> (outcome \<times> u8 list option \<times> kstate) option" where
  "rt_mq_recv p sz timeout s = do {
     rt_assert (is_class Class_MessageQueue p s);
     rt_assert (sz \<noteq> 0);
     if mq_entry (k_mq s p) = 0 \<and> timeout = 0 then Some (Returns (- RT_ETIMEOUT), None, s)
     else mq_recv_loop p (rt_thread_self s) sz timeout s
   }"

text \<open>The reset: the queued blocks go back to the free chain one by one.\<close>

partial_function (option) mq_release :: "rt_messagequeue \<Rightarrow> rt_messagequeue option" where
  "mq_release m =
     (case mq_head m of
        None \<Rightarrow> Some m
      | Some b \<Rightarrow> do {
          rt_assert (b < length (mq_pool m));
          let m = m\<lparr>mq_head := blk_next (mq_pool m ! b)\<rparr>;
          let m = (if mq_tail m = Some b then m\<lparr>mq_tail := None\<rparr> else m);
          m \<leftarrow> set_blk b (\<lambda>blk. blk\<lparr>blk_next := mq_free m\<rparr>) m;
          mq_release (m\<lparr>mq_free := Some b\<rparr>)
        })"

definition rt_mq_control :: "ptr \<Rightarrow> int \<Rightarrow> kstate \<Rightarrow> (rt_err \<times> kstate) option" where
  "rt_mq_control p cmd s = do {
     rt_assert (is_class Class_MessageQueue p s);
     if cmd = RT_IPC_CMD_RESET
     then do {
       (_, s) \<leftarrow> rt_ipc_list_resume_all (Susp p) s;
       (_, s) \<leftarrow> rt_ipc_list_resume_all (Sender p) s;
       m \<leftarrow> mq_release (k_mq s p);
       let s = set_mq p (\<lambda>_. m\<lparr>mq_entry := 0\<rparr>) s;
       s \<leftarrow> rt_schedule s;
       Some (RT_EOK, s)
     }
     else Some (- RT_ERROR, s)
   }"


section \<open>The chains of blocks\<close>

abbreviation (input) nexts :: "rt_messagequeue \<Rightarrow> nat \<Rightarrow> nat option" where
  "nexts m \<equiv> (\<lambda>b. blk_next (mq_pool m ! b))"

text \<open>Every block is in exactly one of the chains \<open>q\<close> (queued messages) and \<open>f\<close> (free blocks).\<close>

definition mq_rep :: "rt_messagequeue \<Rightarrow> nat list \<Rightarrow> nat list \<Rightarrow> bool" where
  "mq_rep m q f \<longleftrightarrow>
     chain (nexts m) (mq_head m) q \<and> chain (nexts m) (mq_free m) f \<and> distinct (q @ f) \<and>
     set (q @ f) = {..<length (mq_pool m)} \<and> length (mq_pool m) = unat (mq_max_msgs m) \<and>
     unat (mq_entry m) = length q \<and> mq_tail m = (if q = [] then None else Some (last q)) \<and>
     (\<forall>b < length (mq_pool m). length (blk_data (mq_pool m ! b)) = unat (mq_msg_size m))"

definition mq_wf :: "rt_messagequeue \<Rightarrow> bool" where
  "mq_wf m \<longleftrightarrow> (\<exists>q f. mq_rep m q f)"

lemma mq_wfI: "mq_rep m q f \<Longrightarrow> mq_wf m"
  by (auto simp: mq_wf_def)

text \<open>The messages, oldest first; each has \<open>msg_size\<close> bytes.\<close>

definition mq_data :: "rt_messagequeue \<Rightarrow> u8 list list" where
  "mq_data m = map (\<lambda>b. blk_data (mq_pool m ! b)) (chain_list (unat (mq_entry m)) (nexts m) (mq_head m))"

lemma upd_blk_fields [simp]:
  "mq_msg_size (upd_blk b f m) = mq_msg_size m" "mq_max_msgs (upd_blk b f m) = mq_max_msgs m"
  "mq_entry (upd_blk b f m) = mq_entry m" "mq_head (upd_blk b f m) = mq_head m"
  "mq_tail (upd_blk b f m) = mq_tail m" "mq_free (upd_blk b f m) = mq_free m"
  "length (mq_pool (upd_blk b f m)) = length (mq_pool m)"
  by (simp_all add: upd_blk_def)

lemma upd_blk_nth [simp]:
  "b < length (mq_pool m) \<Longrightarrow>
   mq_pool (upd_blk b f m) ! i = (if i = b then f (mq_pool m ! b) else mq_pool m ! i)"
  by (simp add: upd_blk_def)

lemma upd_blk_fold:
  "m\<lparr>mq_pool := (mq_pool m)[b := f (mq_pool m ! b)]\<rparr> = upd_blk b f m"
  by (simp add: upd_blk_def)

lemma mq_repD:
  assumes "mq_rep m q f"
  shows "chain (nexts m) (mq_head m) q" and "chain (nexts m) (mq_free m) f" and "distinct (q @ f)"
    and "b \<in> set q \<Longrightarrow> b < length (mq_pool m)" and "b \<in> set f \<Longrightarrow> b < length (mq_pool m)"
    and "length (mq_pool m) = unat (mq_max_msgs m)" and "unat (mq_entry m) = length q"
    and "mq_tail m = (if q = [] then None else Some (last q))"
    and "b < length (mq_pool m) \<Longrightarrow> length (blk_data (mq_pool m ! b)) = unat (mq_msg_size m)"
    and "length q + length f = unat (mq_max_msgs m)"
proof -
  show "chain (nexts m) (mq_head m) q" "chain (nexts m) (mq_free m) f" "distinct (q @ f)"
    "length (mq_pool m) = unat (mq_max_msgs m)" "unat (mq_entry m) = length q"
    "mq_tail m = (if q = [] then None else Some (last q))"
    "b < length (mq_pool m) \<Longrightarrow> length (blk_data (mq_pool m ! b)) = unat (mq_msg_size m)"
    using assms by (simp_all add: mq_rep_def)
  have "set (q @ f) = {..<length (mq_pool m)}" using assms by (simp add: mq_rep_def)
  then show "b \<in> set q \<Longrightarrow> b < length (mq_pool m)" "b \<in> set f \<Longrightarrow> b < length (mq_pool m)" by auto
  have "length (q @ f) = card (set (q @ f))"
    using assms distinct_card by (metis mq_rep_def)
  then show "length q + length f = unat (mq_max_msgs m)"
    using assms by (simp add: mq_rep_def)
qed

lemma mq_data_rep:
  assumes "mq_rep m q f"
  shows "mq_data m = map (\<lambda>b. blk_data (mq_pool m ! b)) q"
  using chain_list [OF mq_repD(1) [OF assms], of "unat (mq_entry m)"] mq_repD(7) [OF assms]
  by (simp add: mq_data_def)

lemma mq_free_empty: "mq_rep m q f \<Longrightarrow> mq_free m = None \<longleftrightarrow> f = []"
  using mq_repD(2) [of m q f] by (cases f) auto

lemma mq_wf_full: "mq_wf m \<Longrightarrow> mq_free m = None \<longleftrightarrow> unat (mq_entry m) = unat (mq_max_msgs m)"
  using mq_free_empty mq_repD(7,10) by (fastforce simp: mq_wf_def)

text \<open>A chain of which only the link of the new last block changes.\<close>

lemma mq_entry_room:
  assumes "mq_rep m q (b # f)"
  shows "unat (mq_entry m + 1) = Suc (length q)"
proof -
  have "mq_entry m < mq_max_msgs m" using mq_repD(7,10) [OF assms] by (simp add: word_less_nat_alt)
  then show ?thesis using unat_add_one mq_repD(7) [OF assms] by fastforce
qed

text \<open>The bytes of a block after a message has been copied over its beginning.\<close>

definition overlay :: "u8 list \<Rightarrow> nat \<Rightarrow> u8 list \<Rightarrow> u8 list" where
  "overlay buf n old = take n buf @ drop n old"

lemma memcpy_front:
  "n \<le> length old \<Longrightarrow> n \<le> length buf \<Longrightarrow> memcpy old 0 buf 0 (int n) = Some (overlay buf n old)"
  using memcpy_Some [of 0 n old 0 buf] by (simp add: overlay_def)

lemma mq_enter_rep:
  assumes r: "mq_rep m q (b # f)" and sz: "unat sz \<le> unat (mq_msg_size m)" "unat sz \<le> length buf"
  shows "\<exists>m'. mq_enter b buf sz m = Some m' \<and> mq_rep m' (q @ [b]) f \<and> mq_msg_size m' = mq_msg_size m \<and>
     mq_max_msgs m' = mq_max_msgs m \<and>
     mq_data m' = mq_data m @ [overlay buf (unat sz) (blk_data (mq_pool m ! b))]"
proof -
  note d = mq_repD [OF r]
  let ?P = "mq_pool m" and ?d = "overlay buf (unat sz) (blk_data (mq_pool m ! b))"
  have b: "b < length ?P" "b \<notin> set q" "b \<notin> set f" using d(3) d(5) [of b] by auto
  have free: "mq_free m = Some b" using d(2) by simp
  define m1 where "m1 = upd_blk b (\<lambda>blk. blk\<lparr>blk_data := ?d\<rparr>) (upd_blk b (\<lambda>blk. blk\<lparr>blk_next := None\<rparr>)
    (m\<lparr>mq_free := blk_next (?P ! b)\<rparr>))"
  define m2 where "m2 = (case mq_tail m1 of None \<Rightarrow> m1 | Some t \<Rightarrow> upd_blk t (\<lambda>blk. blk\<lparr>blk_next := Some b\<rparr>) m1)"
  define m' where "m' = m2\<lparr>mq_tail := Some b, mq_head := (if mq_head m2 = None then Some b else mq_head m2),
     mq_entry := mq_entry m2 + 1\<rparr>"
  have f1: "length (mq_pool m1) = length ?P" "mq_tail m1 = mq_tail m" "mq_head m1 = mq_head m"
    "mq_free m1 = blk_next (?P ! b)" "mq_entry m1 = mq_entry m" "mq_msg_size m1 = mq_msg_size m"
    "mq_max_msgs m1 = mq_max_msgs m"
    by (simp_all add: m1_def)
  have p1: "mq_pool m1 ! i = (if i = b then \<lparr>blk_next = None, blk_data = ?d\<rparr> else ?P ! i)" for i
    using b(1) by (cases "?P ! b") (simp add: m1_def)
  have tl: "t < length ?P" if "mq_tail m = Some t" for t
    using that d(8) d(4) [of "last q"] by (auto split: if_splits)
  have f2: "length (mq_pool m2) = length ?P" "mq_head m2 = mq_head m"
    "mq_free m2 = blk_next (?P ! b)" "mq_entry m2 = mq_entry m" "mq_msg_size m2 = mq_msg_size m"
    "mq_max_msgs m2 = mq_max_msgs m"
    using f1 by (simp_all add: m2_def split: option.split)
  have p2: "mq_pool m2 ! i = (if mq_tail m = Some i then (mq_pool m1 ! i)\<lparr>blk_next := Some b\<rparr> else mq_pool m1 ! i)" for i
    using tl f1(1,2) by (auto simp: m2_def split: option.split)
  have enter: "mq_enter b buf sz m = Some m'"
  proof -
    have "memcpy (blk_data (?P ! b)) 0 buf 0 (uint sz) = Some ?d"
      using memcpy_front [of "unat sz" "blk_data (?P ! b)" buf] sz d(9) [OF b(1)] by simp
    then show ?thesis
      using b(1) tl f1(1,2) by (simp add: mq_enter_def set_blk_def m'_def m2_def m1_def Let_def split: option.split)
  qed
  have last: "mq_tail m = Some i \<longleftrightarrow> q \<noteq> [] \<and> i = last q" for i using d(8) by auto
  have nb: "last q \<noteq> b" if "q \<noteq> []" using that b(2) last_in_set by blast
  have nx: "nexts m' i = (if q \<noteq> [] \<and> i = last q then Some b else if i = b then None else nexts m i)" for i
    using p1 p2 last by (simp add: m'_def)
  have dat: "blk_data (mq_pool m' ! i) = (if i = b then ?d else blk_data (?P ! i))" for i
    using p1 p2 by (simp add: m'_def)
  have rep: "mq_rep m' (q @ [b]) f"
    unfolding mq_rep_def
  proof (intro conjI)
    have "chain (nexts m') (if q = [] then Some b else mq_head m) (q @ [b])"
    proof (rule chain_snoc [OF d(1) b(2)])
      show "nexts m' c = nexts m c" if "c \<in> set (butlast q)" for c
      proof -
        have "q \<noteq> []" using that by auto
        then have "c \<noteq> last q" using that d(3) by (metis append_butlast_last_id disjoint_insert(1) distinct_append list.simps(15))
        moreover have "c \<noteq> b" using that b(2) by (meson in_set_butlastD)
        ultimately show ?thesis using nx by simp
      qed
    qed (use nx nb d(3) in auto)
    moreover have "mq_head m' = (if q = [] then Some b else mq_head m)"
      using d(1) f2(2) by (cases q) (simp_all add: m'_def)
    ultimately show "chain (nexts m') (mq_head m') (q @ [b])" by simp
    have "nexts m' i = nexts m i" if "i \<in> set f" for i
      using that b(3) d(3) nx last_in_set by auto
    then have "chain (nexts m') (blk_next (?P ! b)) f = chain (nexts m) (blk_next (?P ! b)) f"
      by (rule chain_cong)
    then show "chain (nexts m') (mq_free m') f" using d(2) f2(3) by (simp add: m'_def)
    show "distinct ((q @ [b]) @ f)" using d(3) by auto
    show "set ((q @ [b]) @ f) = {..<length (mq_pool m')}"
      using r f2(1) by (simp add: mq_rep_def m'_def)
    show "length (mq_pool m') = unat (mq_max_msgs m')" using d(6) f2(1,6) by (simp add: m'_def)
    show "unat (mq_entry m') = length (q @ [b])" using mq_entry_room [OF r] f2(4) by (simp add: m'_def)
    show "mq_tail m' = (if q @ [b] = [] then None else Some (last (q @ [b])))" by (simp add: m'_def)
    show "\<forall>i<length (mq_pool m'). length (blk_data (mq_pool m' ! i)) = unat (mq_msg_size m')"
      using dat d(9) sz f2(1,5) b(1) by (simp add: m'_def overlay_def)
  qed
  have "mq_data m' = mq_data m @ [?d]"
    using mq_data_rep [OF rep] mq_data_rep [OF r] dat b(2) by auto
  then show ?thesis using enter rep f2(5,6) by (intro exI [of _ m']) (simp add: m'_def)
qed

lemma mq_enter_front_rep:
  assumes r: "mq_rep m q (b # f)" and sz: "unat sz \<le> unat (mq_msg_size m)" "unat sz \<le> length buf"
  shows "\<exists>m'. mq_enter_front b buf sz m = Some m' \<and> mq_rep m' (b # q) f \<and> mq_msg_size m' = mq_msg_size m \<and>
     mq_max_msgs m' = mq_max_msgs m \<and>
     mq_data m' = overlay buf (unat sz) (blk_data (mq_pool m ! b)) # mq_data m"
proof -
  note d = mq_repD [OF r]
  let ?P = "mq_pool m" and ?d = "overlay buf (unat sz) (blk_data (mq_pool m ! b))"
  have b: "b < length ?P" "b \<notin> set q" "b \<notin> set f" using d(3) d(5) [of b] by auto
  define m1 where "m1 = upd_blk b (\<lambda>blk. blk\<lparr>blk_next := mq_head m\<rparr>) (upd_blk b (\<lambda>blk. blk\<lparr>blk_data := ?d\<rparr>)
    (m\<lparr>mq_free := blk_next (?P ! b)\<rparr>))"
  define m' where "m' = m1\<lparr>mq_head := Some b, mq_tail := (if mq_tail m = None then Some b else mq_tail m),
     mq_entry := mq_entry m + 1\<rparr>"
  have f1: "length (mq_pool m1) = length ?P" "mq_free m1 = blk_next (?P ! b)" "mq_msg_size m1 = mq_msg_size m"
    "mq_max_msgs m1 = mq_max_msgs m"
    by (simp_all add: m1_def)
  have p1: "mq_pool m1 ! i = (if i = b then \<lparr>blk_next = mq_head m, blk_data = ?d\<rparr> else ?P ! i)" for i
    using b(1) by (cases "?P ! b") (simp add: m1_def)
  have "memcpy (blk_data (?P ! b)) 0 buf 0 (uint sz) = Some ?d"
    using memcpy_front [of "unat sz" "blk_data (?P ! b)" buf] sz d(9) [OF b(1)] by simp
  then have enter: "mq_enter_front b buf sz m = Some m'"
    using b(1) by (cases m) (simp add: mq_enter_front_def set_blk_def m'_def m1_def Let_def upd_blk_def)
  have rep: "mq_rep m' (b # q) f"
    unfolding mq_rep_def
  proof (intro conjI)
    have "chain (nexts m') (mq_head m) q = chain (nexts m) (mq_head m) q"
      using b(2) p1 by (intro chain_cong) (auto simp: m'_def)
    then show "chain (nexts m') (mq_head m') (b # q)" using d(1) p1 by (simp add: m'_def)
    have "chain (nexts m') (blk_next (?P ! b)) f = chain (nexts m) (blk_next (?P ! b)) f"
      using b(3) p1 by (intro chain_cong) (auto simp: m'_def)
    then show "chain (nexts m') (mq_free m') f" using d(2) f1(2) by (simp add: m'_def)
    show "distinct ((b # q) @ f)" using d(3) by auto
    show "set ((b # q) @ f) = {..<length (mq_pool m')}"
      using r f1(1) by (simp add: mq_rep_def m'_def)
    show "length (mq_pool m') = unat (mq_max_msgs m')" using d(6) f1 by (simp add: m'_def)
    show "unat (mq_entry m') = length (b # q)" using mq_entry_room [OF r] by (simp add: m'_def)
    show "mq_tail m' = (if b # q = [] then None else Some (last (b # q)))" using d(8) by (simp add: m'_def)
    show "\<forall>i<length (mq_pool m'). length (blk_data (mq_pool m' ! i)) = unat (mq_msg_size m')"
      using p1 d(9) sz f1 b(1) by (simp add: m'_def overlay_def)
  qed
  have "mq_data m' = ?d # mq_data m"
    using mq_data_rep [OF rep] mq_data_rep [OF r] p1 b(2) by (auto simp: m'_def)
  then show ?thesis using enter rep f1(3,4) by (intro exI [of _ m']) (simp add: m'_def)
qed

lemma mq_leave_rep:
  assumes r: "mq_rep m (b # q) f"
  shows "\<exists>m'. mq_leave sz m = Some (m', take (min (unat sz) (unat (mq_msg_size m))) (blk_data (mq_pool m ! b))) \<and>
     mq_rep m' q (b # f) \<and> mq_msg_size m' = mq_msg_size m \<and> mq_max_msgs m' = mq_max_msgs m \<and>
     mq_data m = blk_data (mq_pool m ! b) # mq_data m'"
proof -
  note d = mq_repD [OF r]
  let ?P = "mq_pool m"
  have b: "b < length ?P" "b \<notin> set q" "b \<notin> set f" using d(3) d(4) [of b] by auto
  have head: "mq_head m = Some b" using d(1) by simp
  define m1 where "m1 = upd_blk b (\<lambda>blk. blk\<lparr>blk_next := mq_free m\<rparr>) m"
  define m' where "m' = m1\<lparr>mq_head := blk_next (?P ! b), mq_tail := (if mq_tail m = Some b then None else mq_tail m),
     mq_entry := mq_entry m - 1, mq_free := Some b\<rparr>"
  let ?n = "if ucast (mq_msg_size m) < sz then ucast (mq_msg_size m) else sz"
  have n: "unat ?n = min (unat sz) (unat (mq_msg_size m))"
    by (simp add: word_less_nat_alt min_def)
  have leave: "mq_leave sz m = Some (m', take (unat ?n) (blk_data (?P ! b)))"
    using b(1) head d(9) [OF b(1)]
    by (cases m) (auto simp: mq_leave_def set_blk_def m'_def m1_def Let_def upd_blk_def word_less_nat_alt)
  have p1: "mq_pool m' ! i = (if i = b then (?P ! b)\<lparr>blk_next := mq_free m\<rparr> else ?P ! i)" for i
    using b(1) by (simp add: m'_def m1_def)
  have f1: "length (mq_pool m') = length ?P" "mq_msg_size m' = mq_msg_size m" "mq_max_msgs m' = mq_max_msgs m"
    by (simp_all add: m'_def m1_def)
  have rep: "mq_rep m' q (b # f)"
    unfolding mq_rep_def
  proof (intro conjI)
    have "chain (nexts m') (blk_next (?P ! b)) q = chain (nexts m) (blk_next (?P ! b)) q"
      using b(2) p1 by (intro chain_cong) auto
    then show "chain (nexts m') (mq_head m') q" using d(1) by (simp add: m'_def)
    have "chain (nexts m') (mq_free m) f = chain (nexts m) (mq_free m) f"
      using b(3) p1 by (intro chain_cong) auto
    then show "chain (nexts m') (mq_free m') (b # f)" using d(2) p1 by (simp add: m'_def)
    show "distinct (q @ b # f)" using d(3) by auto
    show "set (q @ b # f) = {..<length (mq_pool m')}"
      using r f1(1) by (auto simp: mq_rep_def)
    show "length (mq_pool m') = unat (mq_max_msgs m')" using d(6) f1 by simp
    have "unat (mq_entry m) = Suc (length q)" using d(7) by simp
    moreover from this have "mq_entry m \<noteq> 0" by auto
    ultimately show "unat (mq_entry m') = length q" by (simp add: m'_def unat_minus_one)
    have "last q \<noteq> b" if "q \<noteq> []" using that b(2) last_in_set by blast
    then show "mq_tail m' = (if q = [] then None else Some (last q))" using d(8) by (simp add: m'_def)
    show "\<forall>i<length (mq_pool m'). length (blk_data (mq_pool m' ! i)) = unat (mq_msg_size m')"
      using p1 d(9) f1 b(1) by simp
  qed
  have "mq_data m = blk_data (?P ! b) # mq_data m'"
    using mq_data_rep [OF rep] mq_data_rep [OF r] p1 b(2) by auto
  then show ?thesis using leave rep f1(2,3) n by (intro exI [of _ m']) simp
qed

text \<open>The reset ends: every queued block is free again.\<close>

lemma mq_release_rep:
  "mq_rep (m\<lparr>mq_entry := e\<rparr>) q f \<Longrightarrow>
   \<exists>m'. mq_release m = Some m' \<and> mq_rep (m'\<lparr>mq_entry := 0\<rparr>) [] (rev q @ f) \<and> mq_msg_size m' = mq_msg_size m"
proof (induction q arbitrary: m e f)
  case Nil
  then have "mq_head m = None" "unat e = 0" using mq_repD(1,7) by fastforce+
  moreover from this have "e = 0" by (simp add: unat_eq_0)
  ultimately show ?case using Nil by (subst mq_release.simps) simp
next
  case (Cons b q)
  let ?m = "m\<lparr>mq_entry := e\<rparr>"
  obtain m' d where m': "mq_leave 1 ?m = Some (m', d)" "mq_rep m' q (b # f)" "mq_msg_size m' = mq_msg_size m"
    using mq_leave_rep [OF Cons.prems, of 1] by auto
  have b: "mq_head m = Some b" "b < length (mq_pool m)"
    using mq_repD(1,4) [OF Cons.prems] by auto
  define m2 where "m2 = (upd_blk b (\<lambda>blk. blk\<lparr>blk_next := mq_free m\<rparr>) m)
    \<lparr>mq_head := blk_next (mq_pool m ! b), mq_tail := (if mq_tail m = Some b then None else mq_tail m), mq_free := Some b\<rparr>"
  have "m' = m2\<lparr>mq_entry := e - 1\<rparr>"
    using m'(1) b by (cases m) (auto simp: mq_leave_def set_blk_def upd_blk_def m2_def Let_def split: if_splits)
  then obtain m'' where m'': "mq_release m2 = Some m''" "mq_rep (m''\<lparr>mq_entry := 0\<rparr>) [] (rev q @ b # f)"
    "mq_msg_size m'' = mq_msg_size m2"
    using Cons.IH [where m = m2 and e = "e - 1" and f = "b # f"] m'(2) by auto
  have "mq_release m = mq_release m2"
    using b by (subst mq_release.simps, cases m)
      (simp add: set_blk_def upd_blk_def m2_def Let_def)
  then show ?case using m'' by (simp add: m2_def)
qed

text \<open>A new queue is empty.\<close>

lemma mq_link_free_rep:
  assumes "n \<le> length (mq_pool m)" and "mq_free m = None"
  shows "chain (nexts (mq_link_free n m)) (mq_free (mq_link_free n m)) (rev [0..<n]) \<and>
     length (mq_pool (mq_link_free n m)) = length (mq_pool m) \<and>
     (\<forall>i. blk_data (mq_pool (mq_link_free n m) ! i) = blk_data (mq_pool m ! i)) \<and>
     mq_msg_size (mq_link_free n m) = mq_msg_size m \<and> mq_max_msgs (mq_link_free n m) = mq_max_msgs m \<and>
     mq_entry (mq_link_free n m) = mq_entry m \<and> mq_head (mq_link_free n m) = mq_head m \<and>
     mq_tail (mq_link_free n m) = mq_tail m"
  using assms(1)
proof (induction n)
  case (Suc n)
  let ?m = "mq_link_free n m"
  have "chain (nexts (mq_link_free (Suc n) m)) (mq_free ?m) (rev [0..<n]) = chain (nexts ?m) (mq_free ?m) (rev [0..<n])"
    using Suc by (intro chain_cong) (simp add: Let_def)
  then show ?case using Suc by (auto simp: Let_def)
qed (use assms(2) in simp)

lemma mq_fresh_rep:
  assumes "unat n * (unat sz + 4) \<le> length mem"
  shows "\<exists>m. mq_fresh mem sz n = Some m \<and> mq_rep m [] (rev [0..<unat n]) \<and> mq_msg_size m = sz \<and> mq_max_msgs m = n"
proof -
  let ?blk = "\<lambda>i. \<lparr>blk_next = None, blk_data = take (unat sz) (drop (i * (unat sz + 4) + 4) mem)\<rparr>"
  let ?raw = "\<lparr>mq_pool = map ?blk [0..<unat n], mq_msg_size = sz, mq_max_msgs = n, mq_entry = 0,
       mq_head = None, mq_tail = None, mq_free = None\<rparr>"
  let ?m = "mq_link_free (unat n) ?raw"
  have l: "chain (nexts ?m) (mq_free ?m) (rev [0..<unat n])" "length (mq_pool ?m) = unat n"
     "\<And>i. blk_data (mq_pool ?m ! i) = blk_data (mq_pool ?raw ! i)"
     "mq_msg_size ?m = sz" "mq_max_msgs ?m = n" "mq_entry ?m = 0" "mq_head ?m = None" "mq_tail ?m = None"
    using mq_link_free_rep [of "unat n" ?raw] by simp_all
  have "length (take (unat sz) (drop (i * (unat sz + 4) + 4) mem)) = unat sz" if "i < unat n" for i
  proof -
    have "Suc i * (unat sz + 4) \<le> unat n * (unat sz + 4)" using that by (intro mult_le_mono1) simp
    then have "i * (unat sz + 4) + 4 + unat sz \<le> length mem" using assms by simp
    then show ?thesis by simp
  qed
  then have "mq_rep ?m [] (rev [0..<unat n])"
    using l by (auto simp: mq_rep_def atLeast0LessThan)
  then show ?thesis using l(4,5) assms by (simp add: mq_fresh_def mq_carve_def)
qed

lemma mq_fresh_size:
  assumes "mq_fresh mem sz n = Some m"
  shows "mq_msg_size m = sz"
proof -
  have "unat n * (unat sz + 4) \<le> length mem"
    using assms by (auto simp: mq_fresh_def mq_carve_def split: if_splits)
  then show ?thesis using mq_fresh_rep [of n sz mem] assms by auto
qed


section \<open>The first-in first-out buffer\<close>

definition mq_enq :: "rt_messagequeue \<Rightarrow> u8 list \<Rightarrow> rt_messagequeue option" where
  "mq_enq m x = (case mq_free m of None \<Rightarrow> None | Some b \<Rightarrow> mq_enter b x (ucast (mq_msg_size m)) m)"

definition mq_deq :: "rt_messagequeue \<Rightarrow> (rt_messagequeue \<times> u8 list) option" where
  "mq_deq m = (if mq_entry m = 0 then None else mq_leave (ucast (mq_msg_size m)) m)"

lemma mq_wf_free: "mq_wf m \<Longrightarrow> mq_free m = Some b \<Longrightarrow> \<exists>q f. mq_rep m q (b # f)"
  unfolding mq_wf_def using mq_repD(2) by (metis chain.elims(2) option.distinct(1) option.inject)

lemma mq_wf_entry: "mq_wf m \<Longrightarrow> mq_entry m \<noteq> 0 \<Longrightarrow> \<exists>b q f. mq_rep m (b # q) f"
  unfolding mq_wf_def using mq_repD(7) by (metis length_0_conv list.exhaust unat_eq_zero)

lemma length_mq_data: "mq_wf m \<Longrightarrow> length (mq_data m) = unat (mq_entry m)"
  using mq_data_rep mq_repD(7) by (fastforce simp: mq_wf_def)

lemma mq_data_bytes: "mq_wf m \<Longrightarrow> x \<in> set (mq_data m) \<Longrightarrow> length x = unat (mq_msg_size m)"
  using mq_data_rep mq_repD(4,9) by (fastforce simp: mq_wf_def)

lemma mq_room: "mq_wf m \<Longrightarrow> length (mq_data m) < unat (mq_max_msgs m) \<longleftrightarrow> mq_free m \<noteq> None"
  using length_mq_data mq_wf_full mq_repD(7,10) by (fastforce simp: mq_wf_def)

interpretation mqq: bounded_fifo "\<lambda>x. length x = unat n" "\<lambda>m. mq_wf m \<and> mq_msg_size m = n"
    "\<lambda>m. unat (mq_max_msgs m)" mq_data mq_enq mq_deq for n :: u16
proof
  fix m and x :: "u8 list" and xs
  assume inv: "mq_wf m \<and> mq_msg_size m = n"
  then obtain q f where r: "mq_rep m q f" by (auto simp: mq_wf_def)
  show "length (mq_data m) \<le> unat (mq_max_msgs m)"
    using length_mq_data [of m] inv mq_repD(7,10) [OF r] by simp
  show "\<exists>m'. mq_enq m x = Some m' \<and> (mq_wf m' \<and> mq_msg_size m' = n) \<and> unat (mq_max_msgs m') = unat (mq_max_msgs m) \<and>
      mq_data m' = mq_data m @ [x]" if x: "length x = unat n" and room: "length (mq_data m) < unat (mq_max_msgs m)"
  proof -
    obtain b where b: "mq_free m = Some b" using room mq_room inv by auto
    obtain q f where r: "mq_rep m q (b # f)" using mq_wf_free [OF _ b] inv by blast
    have "overlay x (unat n) (blk_data (mq_pool m ! b)) = x"
      using x mq_repD(9) [OF r mq_repD(5) [OF r, of b]] inv by (simp add: overlay_def)
    then show ?thesis
      using mq_enter_rep [OF r, of "ucast n" x] x inv b by (auto simp: mq_enq_def intro: mq_wfI)
  qed
  show "mq_enq m x = None" if "length (mq_data m) = unat (mq_max_msgs m)"
    using that mq_room [of m] inv by (auto simp: mq_enq_def)
  show "\<exists>m'. mq_deq m = Some (m', x) \<and> (mq_wf m' \<and> mq_msg_size m' = n) \<and> unat (mq_max_msgs m') = unat (mq_max_msgs m) \<and>
      mq_data m' = xs" if d: "mq_data m = x # xs"
  proof -
    have e: "mq_entry m \<noteq> 0" using d length_mq_data [of m] inv by auto
    obtain b q f where r: "mq_rep m (b # q) f" using mq_wf_entry [OF _ e] inv by blast
    have "length (blk_data (mq_pool m ! b)) = unat n"
      using mq_repD(9) [OF r mq_repD(4) [OF r, of b]] inv by simp
    then show ?thesis
      using mq_leave_rep [OF r, of "ucast n"] e inv d by (auto simp: mq_deq_def intro: mq_wfI)
  qed
  show "mq_deq m = None" if "mq_data m = []"
    using that length_mq_data [of m] inv by (simp add: mq_deq_def unat_eq_zero)
qed

text \<open>C35: a message queue is a first-in first-out buffer for messages of its message size: any run of
  messages stored when a block is free and fetched when there are some answers like the same run on a
  list of at most \<open>max_msgs\<close> messages, and ends with the same messages.\<close>

theorem rt_messagequeue_fifo:
  assumes "mq_wf m" and "\<And>x. Put x \<in> set ops \<Longrightarrow> length x = unat (mq_msg_size m)"
    and "fifo_run mq_enq mq_deq m ops = (m', out)"
  shows "mq_wf m' \<and> fifo_run (list_enq (unat (mq_max_msgs m))) list_deq (mq_data m) ops = (mq_data m', out)"
  using mqq.run_refines [of m "mq_msg_size m" ops m' out] assms by blast


section \<open>Sending and receiving\<close>

lemma set_mq_fields [simp]:
  "k_mq (set_mq p f s) = (k_mq s)(p := f (k_mq s p))"
  "k_q (set_mq p f s) = k_q s" "k_thr (set_mq p f s) = k_thr s" "k_group (set_mq p f s) = k_group s"
  "k_cur (set_mq p f s) = k_cur s" "k_lock (set_mq p f s) = k_lock s" "k_irq (set_mq p f s) = k_irq s"
  "k_tick (set_mq p f s) = k_tick s" "k_obj (set_mq p f s) = k_obj s"
  "k_container (set_mq p f s) = k_container s" "k_tmr (set_mq p f s) = k_tmr s"
  "k_tlist (set_mq p f s) = k_tlist s" "k_sem (set_mq p f s) = k_sem s"
  "k_mutex (set_mq p f s) = k_mutex s" "k_event (set_mq p f s) = k_event s"
  "k_mb (set_mq p f s) = k_mb s" "k_mp (set_mq p f s) = k_mp s"
  by (simp_all add: set_mq_def)

lemma data_step_mq [simp]: "data_step s (set_mq p f s)"
  by (simp add: data_step_def)

lemma is_class_mq [simp]: "is_class c x (set_mq p f s) = is_class c x s"
  using data_step_get_type [OF data_step_mq] by (simp add: is_class_def)

definition mq_ok :: "kstate \<Rightarrow> bool" where
  "mq_ok s \<longleftrightarrow> (\<forall>p. is_class Class_MessageQueue p s \<longrightarrow> mq_wf (k_mq s p))"

lemma mq_wake_total:
  assumes h: "healthy idle s"
  shows "\<exists>s'. mq_wake_receiver p (set_mq p f s) = Some (Returns RT_EOK, s') \<and> wakes_any idle (Susp p) (set_mq p f s) s'"
proof -
  have "healthy idle (set_mq p f s)" using h data_step_healthy [OF data_step_mq] by blast
  from wake_any [OF this, of "Susp p" "\<lambda>s. (Returns RT_EOK, s)"]
  show ?thesis by (auto simp: mq_wake_receiver_def)
qed

lemma mq_put_total:
  assumes h: "healthy idle s" and r: "mq_rep (k_mq s p) q (b # f)"
    and sz: "sz \<le> ucast (mq_msg_size (k_mq s p))" "unat sz \<le> length buf"
  shows "\<exists>m' s'. mq_put p b buf sz s = Some (Returns RT_EOK, s') \<and> mq_rep m' (q @ [b]) f \<and>
     mq_msg_size m' = mq_msg_size (k_mq s p) \<and>
     mq_data m' = mq_data (k_mq s p) @ [overlay buf (unat sz) (blk_data (mq_pool (k_mq s p) ! b))] \<and>
     wakes_any idle (Susp p) (set_mq p (\<lambda>_. m') s) s'"
proof -
  have "unat sz \<le> unat (mq_msg_size (k_mq s p))" using sz(1) by (simp add: word_le_nat_alt)
  from mq_enter_rep [OF r this sz(2)] mq_wake_total [OF h]
  show ?thesis unfolding mq_put_def by fastforce
qed

lemma mq_get_total:
  assumes h: "healthy idle s" and r: "mq_rep (k_mq s p) (b # q) f"
  shows "\<exists>m' s'. mq_get p sz s = Some (Returns RT_EOK,
       Some (take (min (unat sz) (unat (mq_msg_size (k_mq s p)))) (hd (mq_data (k_mq s p)))), s') \<and>
     mq_rep m' q (b # f) \<and> mq_msg_size m' = mq_msg_size (k_mq s p) \<and> mq_data m' = tl (mq_data (k_mq s p)) \<and>
     wakes_any idle (Sender p) (set_mq p (\<lambda>_. m') s) s'"
proof -
  let ?d = "take (min (unat sz) (unat (mq_msg_size (k_mq s p)))) (hd (mq_data (k_mq s p)))"
  obtain m' where m': "mq_leave sz (k_mq s p) = Some (m', ?d)" "mq_rep m' q (b # f)"
    "mq_msg_size m' = mq_msg_size (k_mq s p)" "mq_data m' = tl (mq_data (k_mq s p))"
    using mq_leave_rep [OF r, of sz] by auto
  have "healthy idle (set_mq p (\<lambda>_. m') s)" using h data_step_healthy [OF data_step_mq] by blast
  from wake_any [OF this, of "Sender p" "\<lambda>s. (Returns RT_EOK, Some ?d, s)"]
  obtain s' where "wakes_any idle (Sender p) (set_mq p (\<lambda>_. m') s) s'" "mq_get p sz s = Some (Returns RT_EOK, Some ?d, s')"
    using m'(1) by (auto simp: mq_get_def Let_def)
  then show ?thesis using m' by blast
qed

lemma mq_send_waits:
  assumes h: "healthy idle s" and ni: "k_cur s \<noteq> idle" and irq: "k_irq s = 0"
    and p: "is_class Class_MessageQueue p s" "mq_free (k_mq s p) = None"
      "ipc_flag p s \<in> {RT_IPC_FLAG_FIFO, RT_IPC_FLAG_PRIO}"
    and sz: "sz \<noteq> 0" "sz \<le> ucast (mq_msg_size (k_mq s p))"
    and time: "timeout \<noteq> 0" "timeout \<noteq> TICK_HALF"
  shows "\<exists>s'. rt_mq_send_wait p buf sz timeout s = Some (Blocked, s') \<and>
     waits_in idle (Sender p) (ipc_flag p s) timeout s s'"
proof -
  obtain s' where "ipc_wait (Sender p) (k_cur s) (ipc_flag p s) timeout
      (set_thr (k_cur s) (\<lambda>th. th\<lparr>t_error := RT_EOK\<rparr>) s) = Some s'"
    and w: "waits_in idle (Sender p) (ipc_flag p s) timeout s s'"
    using wait_reset [OF h ni _ p(3) time(2), of "Sender p"] by auto
  then show ?thesis
    using p sz time(1) irq waits_inD(3) [OF w] healthyD(3) [OF h] w
    by (simp add: rt_mq_send_wait_def mq_send_loop.simps thread_context_def rt_thread_self_def Let_def not_less)
qed

lemma mq_recv_waits:
  assumes h: "healthy idle s" and ni: "k_cur s \<noteq> idle" and irq: "k_irq s = 0"
    and p: "is_class Class_MessageQueue p s" "mq_entry (k_mq s p) = 0"
      "ipc_flag p s \<in> {RT_IPC_FLAG_FIFO, RT_IPC_FLAG_PRIO}"
    and sz: "sz \<noteq> 0" and time: "timeout \<noteq> 0" "timeout \<noteq> TICK_HALF"
  shows "\<exists>s'. rt_mq_recv p sz timeout s = Some (Blocked, None, s') \<and>
     waits_in idle (Susp p) (ipc_flag p s) timeout s s'"
proof -
  obtain s' where "ipc_wait (Susp p) (k_cur s) (ipc_flag p s) timeout
      (set_thr (k_cur s) (\<lambda>th. th\<lparr>t_error := RT_EOK\<rparr>) s) = Some s'"
    and w: "waits_in idle (Susp p) (ipc_flag p s) timeout s s'"
    using wait_reset [OF h ni _ p(3) time(2), of "Susp p"] by auto
  then show ?thesis
    using p sz time(1) irq waits_inD(3) [OF w] healthyD(3) [OF h] w
    by (simp add: rt_mq_recv_def mq_recv_loop.simps thread_context_def rt_thread_self_def Let_def)
qed

lemma mq_send_room:
  "is_class Class_MessageQueue p s \<Longrightarrow> sz \<noteq> 0 \<Longrightarrow> sz \<le> ucast (mq_msg_size (k_mq s p)) \<Longrightarrow>
   mq_free (k_mq s p) = Some b \<Longrightarrow> rt_mq_send_wait p buf sz timeout s = mq_put p b buf sz s"
  using leD [of sz "ucast (mq_msg_size (k_mq s p))"]
  by (simp add: rt_mq_send_wait_def mq_send_loop.simps)

lemma mq_recv_some:
  "is_class Class_MessageQueue p s \<Longrightarrow> sz \<noteq> 0 \<Longrightarrow> mq_entry (k_mq s p) \<noteq> 0 \<Longrightarrow>
   rt_mq_recv p sz timeout s = mq_get p sz s"
  by (simp add: rt_mq_recv_def mq_recv_loop.simps)

text \<open>A message sent to an empty queue somebody waits for arrives: the first receiver leaves the list
  and can run, and when it does, its \<open>rt_mq_recv\<close> with the same size returns \<open>RT_EOK\<close> and exactly the
  bytes that were sent; the queue is empty again.\<close>

theorem rt_mq_send_delivers:
  assumes h: "healthy idle s" and p: "is_class Class_MessageQueue p s" "mq_wf (k_mq s p)" "mq_entry (k_mq s p) = 0"
      "mq_max_msgs (k_mq s p) \<noteq> 0"
    and sz: "sz \<noteq> 0" "sz \<le> ucast (mq_msg_size (k_mq s p))" "unat sz \<le> length buf"
    and q: "k_q s (Susp p) = w # ws" and err: "t_error (k_thr s w) = RT_EOK"
  shows "\<exists>s' s''. rt_mq_send p buf sz s = Some (Returns RT_EOK, s') \<and> healthy idle s' \<and> k_q s' (Susp p) = ws \<and>
     runs w s' \<and> rt_mq_recv_resume p w sz timeout start s' = Some (Returns RT_EOK, Some (take (unat sz) buf), s'') \<and>
     healthy idle s'' \<and> mq_data (k_mq s'' p) = []"
proof -
  have "mq_free (k_mq s p) \<noteq> None"
    using mq_wf_full [OF p(2)] p(3,4) by (metis unat_0 unat_eq_zero)
  then obtain b where b: "mq_free (k_mq s p) = Some b" by blast
  then obtain q0 f where r: "mq_rep (k_mq s p) q0 (b # f)" using mq_wf_free [OF p(2)] by blast
  have q0: "q0 = []" using mq_repD(7) [OF r] p(3) by simp
  have szn: "unat sz \<le> unat (mq_msg_size (k_mq s p))" using sz(2) by (simp add: word_le_nat_alt)
  let ?d = "overlay buf (unat sz) (blk_data (mq_pool (k_mq s p) ! b))"
  obtain m' s' where s': "mq_put p b buf sz s = Some (Returns RT_EOK, s')" "mq_rep m' [b] f"
    "mq_msg_size m' = mq_msg_size (k_mq s p)" "mq_data m' = mq_data (k_mq s p) @ [?d]"
    "wakes_any idle (Susp p) (set_mq p (\<lambda>_. m') s) s'"
    using mq_put_total [OF h r sz(2,3)] q0 by auto
  have send: "rt_mq_send p buf sz s = Some (Returns RT_EOK, s')"
    using mq_send_room [OF p(1) sz(1,2) b] s'(1) by (simp add: rt_mq_send_def)
  note d = wakes_anyD [OF s'(5)]
  have mq: "k_mq s' p = m'" using ipc_frameD(5) [OF d(2)] by simp
  have dat: "mq_data m' = [?d]" using s'(4) mq_data_rep [OF r] q0 by simp
  have r': "mq_rep (k_mq s' p) [b] f" using s'(2) mq by simp
  have e: "mq_entry (k_mq s' p) \<noteq> 0" using mq_repD(7) [OF r'] by auto
  obtain m'' s'' where s'': "mq_get p sz s' = Some (Returns RT_EOK,
      Some (take (min (unat sz) (unat (mq_msg_size m'))) ?d), s'')" "mq_data m'' = []"
    "wakes_any idle (Sender p) (set_mq p (\<lambda>_. m'') s') s''"
    using mq_get_total [OF d(1) r', of sz] mq dat by auto
  have "take (min (unat sz) (unat (mq_msg_size m'))) ?d = take (unat sz) buf"
    using szn sz(3) s'(3) by (simp add: overlay_def min_absorb1)
  moreover have "t_error (k_thr s' w) = RT_EOK" using d(7) [of w] err by simp
  ultimately have "rt_mq_recv_resume p w sz timeout start s' = Some (Returns RT_EOK, Some (take (unat sz) buf), s'')"
    using e s''(1) by (simp add: rt_mq_recv_resume_def mq_recv_loop.simps)
  moreover have "mq_data (k_mq s'' p) = []" using ipc_frameD(5) [OF wakes_anyD(2) [OF s''(3)]] s''(2) by simp
  ultimately show ?thesis
    using send d(1,4) d(6) [of w] q wakes_anyD(1) [OF s''(3)] by (intro exI [of _ s'] exI [of _ s'']) simp
qed

text \<open>An urgent message overtakes the others: after \<open>rt_mq_urgent\<close> it is the first of the queue and
  the next \<open>rt_mq_recv\<close> returns it, the messages before it staying in their order.\<close>

theorem rt_mq_urgent_first:
  assumes h: "healthy idle s" and p: "is_class Class_MessageQueue p s" "mq_wf (k_mq s p)"
      "mq_free (k_mq s p) \<noteq> None"
    and sz: "sz \<noteq> 0" "sz \<le> ucast (mq_msg_size (k_mq s p))" "unat sz \<le> length buf"
  shows "\<exists>s' s''. rt_mq_urgent p buf sz s = Some (Returns RT_EOK, s') \<and> healthy idle s' \<and> mq_wf (k_mq s' p) \<and>
     tl (mq_data (k_mq s' p)) = mq_data (k_mq s p) \<and>
     rt_mq_recv p sz 0 s' = Some (Returns RT_EOK, Some (take (unat sz) buf), s'') \<and>
     mq_data (k_mq s'' p) = mq_data (k_mq s p)"
proof -
  obtain b where b: "mq_free (k_mq s p) = Some b" using p(3) by blast
  then obtain q f where r: "mq_rep (k_mq s p) q (b # f)" using mq_wf_free [OF p(2)] by blast
  have szn: "unat sz \<le> unat (mq_msg_size (k_mq s p))" using sz(2) by (simp add: word_le_nat_alt)
  let ?d = "overlay buf (unat sz) (blk_data (mq_pool (k_mq s p) ! b))"
  obtain m' where m': "mq_enter_front b buf sz (k_mq s p) = Some m'" "mq_rep m' (b # q) f"
    "mq_msg_size m' = mq_msg_size (k_mq s p)" "mq_data m' = ?d # mq_data (k_mq s p)"
    using mq_enter_front_rep [OF r szn sz(3)] by auto
  obtain s' where s': "mq_wake_receiver p (set_mq p (\<lambda>_. m') s) = Some (Returns RT_EOK, s')"
    "wakes_any idle (Susp p) (set_mq p (\<lambda>_. m') s) s'"
    using mq_wake_total [OF h] by blast
  have urgent: "rt_mq_urgent p buf sz s = Some (Returns RT_EOK, s')"
    using p(1) sz(1,2) b m'(1) s'(1) by (simp add: rt_mq_urgent_def not_less)
  note d = wakes_anyD [OF s'(2)]
  have mq: "k_mq s' p = m'" using ipc_frameD(5) [OF d(2)] by simp
  then have r': "mq_rep (k_mq s' p) (b # q) f" using m'(2) by simp
  have e: "mq_entry (k_mq s' p) \<noteq> 0" using mq_repD(7) [OF r'] by auto
  have c: "is_class Class_MessageQueue p s'"
    using p(1) is_class_frame [OF d(2)] by simp
  obtain m'' s'' where s'': "mq_get p sz s' = Some (Returns RT_EOK,
      Some (take (min (unat sz) (unat (mq_msg_size m'))) ?d), s'')" "mq_data m'' = mq_data (k_mq s p)"
    "wakes_any idle (Sender p) (set_mq p (\<lambda>_. m'') s') s''"
    using mq_get_total [OF d(1) r', of sz] mq m'(4) by auto
  have "take (min (unat sz) (unat (mq_msg_size m'))) ?d = take (unat sz) buf"
    using szn sz(3) m'(3) by (simp add: overlay_def min_absorb1)
  then have "rt_mq_recv p sz 0 s' = Some (Returns RT_EOK, Some (take (unat sz) buf), s'')"
    using mq_recv_some [OF c sz(1) e] s''(1) by simp
  moreover have "mq_data (k_mq s'' p) = mq_data (k_mq s p)"
    using ipc_frameD(5) [OF wakes_anyD(2) [OF s''(3)]] s''(2) by simp
  ultimately show ?thesis
    using urgent d(1) r' m'(4) mq by (intro exI [of _ s'] exI [of _ s'']) (auto intro: mq_wfI)
qed


section \<open>The invariant of message queues\<close>

lemma mq_ok_step:
  assumes "mq_ok s" and "mq_wf m'" and "ipc_frame (set_mq p (\<lambda>_. m') s) s'"
  shows "mq_ok s'"
  using assms(1,2) ipc_frameD(5) [OF assms(3)] is_class_frame [OF assms(3)] by (auto simp: mq_ok_def)

lemma mq_ok_frame: "mq_ok s \<Longrightarrow> ipc_frame s s' \<Longrightarrow> mq_ok s'"
  using ipc_frameD(5) is_class_frame by (auto simp: mq_ok_def)

lemma mq_send_inv:
  assumes h: "healthy idle s" and ok: "mq_ok s" and ni: "k_cur s \<noteq> idle" and irq: "k_irq s = 0"
    and p: "is_class Class_MessageQueue p s" "ipc_flag p s \<in> {RT_IPC_FLAG_FIFO, RT_IPC_FLAG_PRIO}"
    and sz: "sz \<noteq> 0" "unat sz \<le> length buf" and time: "timeout \<noteq> TICK_HALF"
  shows "\<exists>r s'. rt_mq_send_wait p buf sz timeout s = Some (r, s') \<and> healthy idle s' \<and> mq_ok s'"
proof -
  have wf: "mq_wf (k_mq s p)" using ok p(1) by (simp add: mq_ok_def)
  consider "ucast (mq_msg_size (k_mq s p)) < sz"
    | b where "sz \<le> ucast (mq_msg_size (k_mq s p))" "mq_free (k_mq s p) = Some b"
    | "sz \<le> ucast (mq_msg_size (k_mq s p))" "mq_free (k_mq s p) = None" "timeout = 0"
    | "sz \<le> ucast (mq_msg_size (k_mq s p))" "mq_free (k_mq s p) = None" "timeout \<noteq> 0"
    using not_less by blast
  then show ?thesis
  proof cases
    case 2
    obtain q f where r: "mq_rep (k_mq s p) q (b # f)" using mq_wf_free [OF wf 2(2)] by blast
    obtain m' s' where "mq_put p b buf sz s = Some (Returns RT_EOK, s')" "mq_rep m' (q @ [b]) f"
      "wakes_any idle (Susp p) (set_mq p (\<lambda>_. m') s) s'"
      using mq_put_total [OF h r 2(1) sz(2)] by blast
    then show ?thesis
      using mq_send_room [OF p(1) sz(1) 2] wakes_anyD(1,2) mq_ok_step [OF ok] mq_wfI by metis
  next
    case 4
    then show ?thesis
      using mq_send_waits [OF h ni irq p(1) 4(2) p(2) sz(1) 4(1) 4(3) time] waits_inD(1,2) mq_ok_frame [OF ok]
      by metis
  qed (use p(1) sz(1) h ok in \<open>auto simp: rt_mq_send_wait_def\<close>)
qed

lemma mq_recv_inv:
  assumes h: "healthy idle s" and ok: "mq_ok s" and ni: "k_cur s \<noteq> idle" and irq: "k_irq s = 0"
    and p: "is_class Class_MessageQueue p s" "ipc_flag p s \<in> {RT_IPC_FLAG_FIFO, RT_IPC_FLAG_PRIO}"
    and sz: "sz \<noteq> 0" and time: "timeout \<noteq> TICK_HALF"
  shows "\<exists>r v s'. rt_mq_recv p sz timeout s = Some (r, v, s') \<and> healthy idle s' \<and> mq_ok s'"
proof -
  have wf: "mq_wf (k_mq s p)" using ok p(1) by (simp add: mq_ok_def)
  consider "mq_entry (k_mq s p) \<noteq> 0" | "mq_entry (k_mq s p) = 0" "timeout = 0"
    | "mq_entry (k_mq s p) = 0" "timeout \<noteq> 0" by blast
  then show ?thesis
  proof cases
    case 1
    obtain b q f where r: "mq_rep (k_mq s p) (b # q) f" using mq_wf_entry [OF wf 1] by blast
    obtain m' v s' where "mq_get p sz s = Some (Returns RT_EOK, Some v, s')" "mq_rep m' q (b # f)"
      "wakes_any idle (Sender p) (set_mq p (\<lambda>_. m') s) s'"
      using mq_get_total [OF h r] by blast
    then show ?thesis
      using mq_recv_some [OF p(1) sz 1] wakes_anyD(1,2) mq_ok_step [OF ok] mq_wfI by metis
  next
    case 2
    then show ?thesis using p(1) h ok sz by (simp add: rt_mq_recv_def)
  next
    case 3
    then show ?thesis
      using mq_recv_waits [OF h ni irq p(1) 3(1) p(2) sz 3(2) time] waits_inD(1,2) mq_ok_frame [OF ok] by metis
  qed
qed

text \<open>The reset command empties the queue: it ends, every block is free again, every thread that
  waited to send or to receive can run with the error \<open>RT_ERROR\<close>, and the system stays healthy.\<close>

theorem rt_mq_control_resets:
  assumes h: "healthy idle s" and p: "is_class Class_MessageQueue p s" "mq_wf (k_mq s p)"
  shows "\<exists>s'. rt_mq_control p RT_IPC_CMD_RESET s = Some (RT_EOK, s') \<and> healthy idle s' \<and>
     mq_wf (k_mq s' p) \<and> mq_data (k_mq s' p) = [] \<and> k_q s' (Susp p) = [] \<and> k_q s' (Sender p) = [] \<and>
     (\<forall>w \<in> set (k_q s (Susp p)) \<union> set (k_q s (Sender p)). runs w s' \<and> t_error (k_thr s' w) = - RT_ERROR)"
proof -
  obtain s1 where s1: "rt_ipc_list_resume_all (Susp p) s = Some (RT_EOK, s1)" "sys_inv 0 s1" "ipc_frame s s1"
    "k_q s1 (Susp p) = []" "\<forall>q. waiting q \<longrightarrow> q \<noteq> Susp p \<longrightarrow> k_q s1 q = k_q s q" "k_cur s1 = k_cur s"
    "\<forall>u. runs u s1 \<longleftrightarrow> runs u s \<or> u \<in> set (k_q s (Susp p))"
    "\<forall>u. t_error (k_thr s1 u) = (if u \<in> set (k_q s (Susp p)) then - RT_ERROR else t_error (k_thr s u))"
    using resume_all_total [OF healthyD(1) [OF h] waiting_simps(1) refl, of p] by (elim exE conjE)
  obtain s2 where s2: "rt_ipc_list_resume_all (Sender p) s1 = Some (RT_EOK, s2)" "sys_inv 0 s2" "ipc_frame s1 s2"
    "k_q s2 (Sender p) = []" "\<forall>q. waiting q \<longrightarrow> q \<noteq> Sender p \<longrightarrow> k_q s2 q = k_q s1 q" "k_cur s2 = k_cur s1"
    "\<forall>u. runs u s2 \<longleftrightarrow> runs u s1 \<or> u \<in> set (k_q s1 (Sender p))"
    "\<forall>u. t_error (k_thr s2 u) = (if u \<in> set (k_q s1 (Sender p)) then - RT_ERROR else t_error (k_thr s1 u))"
    using resume_all_total [OF s1(2) waiting_simps(2) refl, of p] by (elim exE conjE)
  have fr: "ipc_frame s s2" by (rule ipc_frame_trans [OF s1(3) s2(3)])
  have mq2: "k_mq s2 p = k_mq s p" using ipc_frameD(5) [OF fr] by simp
  obtain q f where r: "mq_rep (k_mq s2 p) q f" using p(2) mq2 by (auto simp: mq_wf_def)
  then have "mq_rep ((k_mq s2 p)\<lparr>mq_entry := mq_entry (k_mq s2 p)\<rparr>) q f" by simp
  then obtain m' where m': "mq_release (k_mq s2 p) = Some m'" "mq_rep (m'\<lparr>mq_entry := 0\<rparr>) [] (rev q @ f)"
    using mq_release_rep by blast
  let ?s3 = "set_mq p (\<lambda>_. m'\<lparr>mq_entry := 0\<rparr>) s2"
  have inv3: "sys_inv 0 ?s3" using s2(2) data_step_sys_inv [OF data_step_mq] by blast
  have r3: "runs u ?s3 = runs u s2" for u by (simp add: runs_def)
  have "k_lock ?s3 = 0" "k_cur ?s3 \<noteq> RT_NULL" "runs idle ?s3"
    using healthyD(2,3,5) [OF h] ipc_frameD(8) [OF fr] s1(6,7) s2(6,7) r3 by auto
  then obtain s' where s': "rt_schedule ?s3 = Some s'" "healthy idle s'" "sched_frame ?s3 s'"
    "\<forall>u. runs u s' = runs u ?s3"
    using schedule_healthy [OF inv3] by blast
  have "k_mq s' p = m'\<lparr>mq_entry := 0\<rparr>" using ipc_frameD(5) [OF ipc_frame_sched [OF s'(3)]] by simp
  then have "mq_wf (k_mq s' p)" "mq_data (k_mq s' p) = []"
    using m'(2) mq_data_rep [OF m'(2)] by (auto intro: mq_wfI)
  moreover have "k_q s' (Susp p) = [] \<and> k_q s' (Sender p) = []"
    using sched_frameD(12,13) [OF s'(3)] s2(4,5) s1(4) by simp
  moreover have "runs w s' \<and> t_error (k_thr s' w) = - RT_ERROR"
    if "w \<in> set (k_q s (Susp p)) \<union> set (k_q s (Sender p))" for w
    using that s1(5,7,8) s2(7,8) s'(4) r3 sched_frameD(15) [OF s'(3), of w] by auto
  moreover have "rt_mq_control p RT_IPC_CMD_RESET s = Some (RT_EOK, s')"
    using p(1) s1(1) s2(1) m'(1) s'(1) by (simp add: rt_mq_control_def Let_def)
  ultimately show ?thesis using s'(2) by blast
qed


section \<open>Initialisation\<close>

lemma mq_init_state:
  assumes "rt_mq_init p name mem msg_size pool_size flag s = Some (e, s')"
  defines "sz \<equiv> ucast (RT_ALIGN msg_size 4) :: u16"
  defines "n \<equiv> ucast (pool_size div (ucast sz + 4)) :: u16"
  shows "\<exists>m. mq_fresh mem sz n = Some m \<and> k_mq s' p = m"
proof -
  obtain s1 s2 s3 m where "mq_fresh mem sz n = Some m" "rt_ipc_object_init (Sender p) (set_mq p (\<lambda>_. m) s2) = Some s3"
    "s' = snd s3"
    using assms(1) by (auto simp: rt_mq_init_def Let_def bind_Some_iff sz_def n_def rt_assert_def
        split: if_splits)
  then show ?thesis by (auto simp: rt_ipc_object_init_def rt_assert_def bind_Some_iff split: if_splits)
qed

lemma mq_pool_fits:
  "unat (ucast (pool_size div (ucast sz + 4)) :: u16) * (unat sz + 4) \<le> unat pool_size"
  for sz :: u16 and pool_size :: u32
proof -
  have w: "unat (ucast sz + 4 :: u32) = unat sz + 4"
    using unsigned_less [of sz, where ?'a = nat] by (simp add: unat_word_ariths)
  have "unat (ucast (pool_size div (ucast sz + 4)) :: u16) \<le> unat (pool_size div (ucast sz + 4))"
    by (simp add: unsigned_ucast_eq)
  also have "\<dots> = unat pool_size div (unat sz + 4)" using w by (simp add: unat_div)
  finally have "unat (ucast (pool_size div (ucast sz + 4)) :: u16) * (unat sz + 4) \<le>
      unat pool_size div (unat sz + 4) * (unat sz + 4)"
    by (rule mult_le_mono1)
  then show ?thesis by (rule le_trans) (rule div_times_less_eq_dividend)
qed

text \<open>A message queue that was initialised on a pool of \<open>pool_size\<close> bytes is empty and well formed:
  every block lies in the pool and is free, and it takes messages of the aligned size.\<close>

theorem rt_mq_init_empty:
  assumes "rt_mq_init p name mem msg_size pool_size flag s = Some (e, s')" and "unat pool_size \<le> length mem"
  shows "mq_wf (k_mq s' p) \<and> mq_data (k_mq s' p) = [] \<and> mq_msg_size (k_mq s' p) = ucast (RT_ALIGN msg_size 4) \<and>
     unat (mq_max_msgs (k_mq s' p)) * (unat (mq_msg_size (k_mq s' p)) + 4) \<le> unat pool_size"
proof -
  let ?sz = "ucast (RT_ALIGN msg_size 4) :: u16"
  let ?n = "ucast (pool_size div (ucast ?sz + 4)) :: u16"
  have fits: "unat ?n * (unat ?sz + 4) \<le> unat pool_size" by (rule mq_pool_fits)
  then obtain m where m: "mq_fresh mem ?sz ?n = Some m" "mq_rep m [] (rev [0..<unat ?n])" "mq_msg_size m = ?sz"
    "mq_max_msgs m = ?n"
    using mq_fresh_rep [of ?n ?sz mem] assms(2) by auto
  moreover have "k_mq s' p = m" using mq_init_state [OF assms(1)] m(1) by simp
  ultimately show ?thesis using fits mq_data_rep [OF m(2)] by (auto intro: mq_wfI)
qed

text \<open>The 16-bit message size is not checked for overflow: a queue initialised for messages of 65535
  bytes has message size 0, and every send to it fails.\<close>

theorem rt_mq_init_size_wraps:
  assumes "rt_mq_init p name mem 65535 pool_size flag s = Some (e, s')" and "is_class Class_MessageQueue p s'"
    and "sz \<noteq> 0"
  shows "mq_msg_size (k_mq s' p) = 0 \<and> rt_mq_send_wait p buf sz timeout s' = Some (Returns (- RT_ERROR), s')"
proof -
  have "(ucast (RT_ALIGN 65535 4) :: u16) = 0" by (simp add: RT_ALIGN_def)
  then obtain m n where "mq_fresh mem 0 n = Some m" "k_mq s' p = m"
    using mq_init_state [OF assms(1)] by auto
  then have "mq_msg_size (k_mq s' p) = 0"
    using mq_fresh_size by auto
  then show ?thesis using assms(2,3) by (simp add: rt_mq_send_wait_def word_neq_0_conv)
qed

end
