(* ===== verification/RTT_MemPool.thy ===== *)
theory RTT_MemPool
  imports RTT_Sem RTT_Alloc
begin

text \<open>
  The memory pools of \<open>src/mempool.c\<close>: blocks of one size, a chain of the free ones through their
  first words, and threads that wait for a block. A pointer to a block is the index of the block in
  the pool whose memory it lies in; a block in use has the address of its pool in its first word.
  \<open>rt_mp_create\<close> gets the number of bytes \<open>rt_malloc\<close> returned (\<open>None\<close> when it failed).
\<close>

section \<open>Operations\<close>

definition set_mp :: "ptr \<Rightarrow> (rt_mempool \<Rightarrow> rt_mempool) \<Rightarrow> kstate \<Rightarrow> kstate" where
  "set_mp p f s = s\<lparr>k_mp := (k_mp s)(p := f (k_mp s p))\<rparr>"

text \<open>In an interrupt or before the scheduler has started only the global \<open>__rt_errno\<close> is set, which
  is not modelled.\<close>

definition rt_set_errno :: "rt_err \<Rightarrow> kstate \<Rightarrow> kstate" where
  "rt_set_errno e s =
     (if k_irq s \<noteq> 0 then s
      else if rt_thread_self s = RT_NULL then s
      else set_thr (rt_thread_self s) (\<lambda>th. th\<lparr>t_error := e\<rparr>) s)"

text \<open>The loop that links the blocks, and the last link; with no block that link would be written
  before the pool. The links \<open>Some n\<close> of the loop's last turn point behind the pool until then.\<close>

definition mp_link :: "nat \<Rightarrow> mp_word list option" where
  "mp_link n = (if n = 0 then None else Some ((map (\<lambda>i. FreeNext (Some (i + 1))) [0..<n])[n - 1 := FreeNext None]))"

definition rt_mp_init :: "ptr \<Rightarrow> string \<Rightarrow> u32 \<Rightarrow> u32 \<Rightarrow> kstate \<Rightarrow> (rt_err \<times> kstate) option" where
  "rt_mp_init p name sz block_size s = do {
     rt_assert (p \<noteq> RT_NULL);
     rt_assert (0 < sz \<and> 0 < block_size);
     s \<leftarrow> rt_object_init (Obj p) Class_MemPool name s;
     let sz = RT_ALIGN_DOWN sz 4;
     let block_size = RT_ALIGN block_size 4;
     rt_assert (block_size + 4 \<noteq> 0);
     let n = sz div (block_size + 4);
     (_, s) \<leftarrow> rt_ipc_object_init (Susp p) s;
     blks \<leftarrow> mp_link (unat n);
     Some (RT_EOK, set_mp p (\<lambda>_. \<lparr>mp_blocks = blks, mp_size = sz, mp_block_size = block_size,
       mp_block_total_count = n, mp_block_free_count = n, mp_block_list = Some 0\<rparr>) s)
   }"

text \<open>The loops of \<open>rt_mp_detach\<close> and \<open>rt_mp_delete\<close> that wake the waiting threads are the one of
  \<open>rt_ipc_list_resume_all\<close>.\<close>

definition rt_mp_detach :: "ptr \<Rightarrow> kstate \<Rightarrow> (rt_err \<times> kstate) option" where
  "rt_mp_detach p s = do {
     rt_assert (is_class Class_MemPool p s);
     rt_assert (rt_object_is_systemobject (Obj p) s);
     (_, s) \<leftarrow> rt_ipc_list_resume_all (Susp p) s;
     Some (RT_EOK, rt_object_detach (Obj p) s)
   }"

definition rt_mp_create ::
  "ptr \<Rightarrow> nat option \<Rightarrow> string \<Rightarrow> u32 \<Rightarrow> u32 \<Rightarrow> kstate \<Rightarrow> (ptr \<times> kstate) option"
where
  "rt_mp_create mem pool name block_count block_size s = do {
     rt_assert (k_irq s = 0);
     rt_assert (0 < block_count \<and> 0 < block_size);
     (p, s) \<leftarrow> rt_object_allocate mem Class_MemPool name s;
     if p = RT_NULL then Some (RT_NULL, s)
     else do {
       let block_size = RT_ALIGN block_size 4;
       let s = set_mp p (\<lambda>m. m\<lparr>mp_block_size := block_size, mp_size := (block_size + 4) * block_count\<rparr>) s;
       (case pool of
          None \<Rightarrow> do { s \<leftarrow> rt_object_delete (Obj p) s; Some (RT_NULL, s) }
        | Some bytes \<Rightarrow> do {
            (_, s) \<leftarrow> rt_ipc_object_init (Susp p) s;
            rt_assert ((unat block_count - 1) * unat (block_size + 4) + 4 \<le> bytes);
            blks \<leftarrow> mp_link (unat block_count);
            Some (p, set_mp p (\<lambda>m. m\<lparr>mp_blocks := blks, mp_block_total_count := block_count,
              mp_block_free_count := block_count, mp_block_list := Some 0\<rparr>) s)
          })
     }
   }"

definition rt_mp_delete :: "ptr \<Rightarrow> kstate \<Rightarrow> (rt_err \<times> kstate) option" where
  "rt_mp_delete p s = do {
     rt_assert (k_irq s = 0);
     rt_assert (is_class Class_MemPool p s);
     rt_assert (\<not> rt_object_is_systemobject (Obj p) s);
     (_, s) \<leftarrow> rt_ipc_list_resume_all (Susp p) s;
     s \<leftarrow> rt_object_delete (Obj p) s;
     Some (RT_EOK, s)
   }"

text \<open>A block taken out of the chain and put back. The first word of a block in use is no link, and
  the one of a free block no address of a pool.\<close>

definition mp_take :: "ptr \<Rightarrow> rt_mempool \<Rightarrow> (nat \<times> rt_mempool) option" where
  "mp_take p m =
     (let m = m\<lparr>mp_block_free_count := mp_block_free_count m - 1\<rparr> in
      case mp_block_list m of
        None \<Rightarrow> None
      | Some b \<Rightarrow> do {
          rt_assert (b < length (mp_blocks m));
          (case mp_blocks m ! b of
             OwnedBy _ \<Rightarrow> None
           | FreeNext n \<Rightarrow> Some (b, m\<lparr>mp_block_list := n, mp_blocks := (mp_blocks m)[b := OwnedBy p]\<rparr>))
        })"

definition mp_give :: "nat \<Rightarrow> rt_mempool \<Rightarrow> rt_mempool" where
  "mp_give b m =
     (let m = m\<lparr>mp_block_free_count := mp_block_free_count m + 1\<rparr>;
          m = m\<lparr>mp_blocks := (mp_blocks m)[b := FreeNext (mp_block_list m)]\<rparr>
      in m\<lparr>mp_block_list := Some b\<rparr>)"

text \<open>\<open>rt_mp_alloc\<close> returns a block, \<open>RT_NULL\<close>, or waits.\<close>

datatype mp_result = MpWaits | MpReturns "nat option"

partial_function (option) mp_alloc_loop :: "ptr \<Rightarrow> ptr \<Rightarrow> u32 \<Rightarrow> kstate \<Rightarrow> (mp_result \<times> kstate) option" where
  "mp_alloc_loop p t time s =
     (if mp_block_free_count (k_mp s p) = 0
      then if time = 0 then Some (MpReturns None, rt_set_errno (- RT_ETIMEOUT) s)
        else do {
          rt_assert (k_irq s = 0);
          rt_assert (t \<noteq> RT_NULL);
          let s = set_thr t (\<lambda>th. th\<lparr>t_error := RT_EOK\<rparr>) s;
          (_, s) \<leftarrow> rt_thread_suspend t s;
          s \<leftarrow> tlist_insert_after_head (Susp p) t s;
          let before_sleep = k_tick s;
          s \<leftarrow> (if 0 < sint time then sleep_timer t time s else Some s);
          s \<leftarrow> rt_schedule s;
          if rt_thread_self s \<noteq> t then Some (MpWaits, s)
          else if t_error (k_thr s t) \<noteq> RT_EOK then Some (MpReturns None, s)
          else mp_alloc_loop p t (timeout_left time before_sleep s) s
        }
      else do {
        (b, m) \<leftarrow> mp_take p (k_mp s p);
        Some (MpReturns (Some b), set_mp p (\<lambda>_. m) s)
      })"

definition rt_mp_alloc :: "ptr \<Rightarrow> u32 \<Rightarrow> kstate \<Rightarrow> (mp_result \<times> kstate) option" where
  "rt_mp_alloc p time s = do {
     rt_assert (p \<noteq> RT_NULL);
     mp_alloc_loop p (rt_thread_self s) time s
   }"

definition rt_mp_alloc_resume :: "ptr \<Rightarrow> ptr \<Rightarrow> u32 \<Rightarrow> u32 \<Rightarrow> kstate \<Rightarrow> (mp_result \<times> kstate) option" where
  "rt_mp_alloc_resume p t time before_sleep s =
     (if t_error (k_thr s t) \<noteq> RT_EOK then Some (MpReturns None, s)
      else mp_alloc_loop p t (timeout_left time before_sleep s) s)"

text \<open>\<open>block\<close> is \<open>RT_NULL\<close> or a block in the memory of the pool \<open>home\<close>.\<close>

definition rt_mp_free :: "(ptr \<times> nat) option \<Rightarrow> kstate \<Rightarrow> kstate option" where
  "rt_mp_free block s =
     (case block of
        None \<Rightarrow> Some s
      | Some (home, b) \<Rightarrow> do {
          rt_assert (b < length (mp_blocks (k_mp s home)));
          (case mp_blocks (k_mp s home) ! b of
             FreeNext _ \<Rightarrow> None
           | OwnedBy p \<Rightarrow> do {
               rt_assert (p = home);
               let s = set_mp p (mp_give b) s;
               (case k_q s (Susp p) of
                  [] \<Rightarrow> Some s
                | t # _ \<Rightarrow> do {
                    let s = set_thr t (\<lambda>th. th\<lparr>t_error := RT_EOK\<rparr>) s;
                    (_, s) \<leftarrow> rt_thread_resume t s;
                    rt_schedule s
                  })
             })
        })"


section \<open>The chain of free blocks\<close>

abbreviation (input) mp_nexts :: "rt_mempool \<Rightarrow> nat \<Rightarrow> nat option" where
  "mp_nexts m \<equiv> (\<lambda>b. case mp_blocks m ! b of FreeNext n \<Rightarrow> n | OwnedBy _ \<Rightarrow> None)"

definition mp_held :: "rt_mempool \<Rightarrow> nat set" where
  "mp_held m = {b. b < length (mp_blocks m) \<and> (\<exists>p. mp_blocks m ! b = OwnedBy p)}"

text \<open>The free blocks are those in the chain, the others are in use by the pool itself, and the
  counts are right.\<close>

definition mp_rep :: "ptr \<Rightarrow> rt_mempool \<Rightarrow> nat list \<Rightarrow> bool" where
  "mp_rep p m f \<longleftrightarrow>
     chain (mp_nexts m) (mp_block_list m) f \<and> distinct f \<and>
     (\<forall>b. b \<in> set f \<longleftrightarrow> b < length (mp_blocks m) \<and> mp_blocks m ! b \<noteq> OwnedBy p) \<and>
     (\<forall>b \<in> set f. \<exists>n. mp_blocks m ! b = FreeNext n) \<and>
     unat (mp_block_free_count m) = length f \<and> unat (mp_block_total_count m) = length (mp_blocks m)"

definition mp_wf :: "ptr \<Rightarrow> rt_mempool \<Rightarrow> bool" where
  "mp_wf p m \<longleftrightarrow> (\<exists>f. mp_rep p m f)"

lemma mp_repD:
  assumes "mp_rep p m f"
  shows "chain (mp_nexts m) (mp_block_list m) f" and "distinct f"
    and "b \<in> set f \<longleftrightarrow> b < length (mp_blocks m) \<and> mp_blocks m ! b \<noteq> OwnedBy p"
    and "b \<in> set f \<Longrightarrow> \<exists>n. mp_blocks m ! b = FreeNext n"
    and "unat (mp_block_free_count m) = length f" and "unat (mp_block_total_count m) = length (mp_blocks m)"
  using assms unfolding mp_rep_def by blast+

lemma mp_held_rep: "mp_rep p m f \<Longrightarrow> mp_held m = {..<length (mp_blocks m)} - set f"
  using mp_repD(3,4) unfolding mp_held_def by fastforce

lemma mp_wf_count:
  assumes "mp_wf p m"
  shows "unat (mp_block_free_count m) + card (mp_held m) = unat (mp_block_total_count m)"
proof -
  obtain f where r: "mp_rep p m f" using assms by (auto simp: mp_wf_def)
  have "set f \<subseteq> {..<length (mp_blocks m)}" using mp_repD(3) [OF r] by auto
  then have "card (mp_held m) = length (mp_blocks m) - card (set f)" "card (set f) \<le> length (mp_blocks m)"
    using mp_held_rep [OF r] card_mono [of "{..<length (mp_blocks m)}" "set f"] by (simp_all add: card_Diff_subset)
  then show ?thesis using mp_repD(2,5,6) [OF r] by (simp add: distinct_card)
qed

lemma mp_take_rep:
  assumes r: "mp_rep p m (b # f)"
  shows "\<exists>m'. mp_take p m = Some (b, m') \<and> mp_rep p m' f \<and> mp_held m' = insert b (mp_held m) \<and> b \<notin> mp_held m"
proof -
  note d = mp_repD [OF r]
  have b: "b < length (mp_blocks m)" using d(3) [of b] by simp
  obtain n where n: "mp_blocks m ! b = FreeNext n" using d(4) [of b] by auto
  have l: "mp_block_list m = Some b" "chain (mp_nexts m) n f" using d(1) n by simp_all
  define m' where "m' = m\<lparr>mp_block_free_count := mp_block_free_count m - 1, mp_block_list := n,
    mp_blocks := (mp_blocks m)[b := OwnedBy p]\<rparr>"
  have take: "mp_take p m = Some (b, m')"
    using b l(1) n by (cases m) (simp add: mp_take_def m'_def Let_def)
  have blk: "mp_blocks m' ! i = (if i = b then OwnedBy p else mp_blocks m ! i)" for i
    using b by (simp add: m'_def)
  have len: "length (mp_blocks m') = length (mp_blocks m)" by (simp add: m'_def)
  have rep: "mp_rep p m' f"
    unfolding mp_rep_def
  proof (intro conjI)
    have "chain (mp_nexts m') n f = chain (mp_nexts m) n f"
      using d(2) by (intro chain_cong) (auto simp: blk)
    then show "chain (mp_nexts m') (mp_block_list m') f" using l(2) by (simp add: m'_def)
    show "distinct f" using d(2) by simp
    show "\<forall>i. i \<in> set f \<longleftrightarrow> i < length (mp_blocks m') \<and> mp_blocks m' ! i \<noteq> OwnedBy p"
      using d(2,3) len by (auto simp: blk)
    show "\<forall>i \<in> set f. \<exists>n. mp_blocks m' ! i = FreeNext n" using d(2,4) by (auto simp: blk)
    have "unat (mp_block_free_count m) = Suc (length f)" using d(5) by simp
    moreover from this have "mp_block_free_count m \<noteq> 0" by auto
    ultimately show "unat (mp_block_free_count m') = length f" by (simp add: m'_def unat_minus_one)
    show "unat (mp_block_total_count m') = length (mp_blocks m')" using d(6) len by (simp add: m'_def)
  qed
  then show ?thesis using take mp_held_rep [OF r] mp_held_rep [OF rep] d(2) b len by (intro exI [of _ m']) auto
qed

lemma mp_give_rep:
  assumes r: "mp_rep p m f" and b: "b < length (mp_blocks m)" "mp_blocks m ! b = OwnedBy p"
  shows "mp_rep p (mp_give b m) (b # f)" and "mp_held (mp_give b m) = mp_held m - {b}"
proof -
  note d = mp_repD [OF r]
  let ?m' = "mp_give b m"
  have bf: "b \<notin> set f" using d(3) [of b] b by simp
  have blk: "mp_blocks ?m' ! i = (if i = b then FreeNext (mp_block_list m) else mp_blocks m ! i)" for i
    using b by (simp add: mp_give_def Let_def)
  have f': "length (mp_blocks ?m') = length (mp_blocks m)" "mp_block_list ?m' = Some b"
    "mp_block_total_count ?m' = mp_block_total_count m" "mp_block_free_count ?m' = mp_block_free_count m + 1"
    by (simp_all add: mp_give_def Let_def)
  show rep: "mp_rep p ?m' (b # f)"
    unfolding mp_rep_def
  proof (intro conjI)
    have "chain (mp_nexts ?m') (mp_block_list m) f = chain (mp_nexts m) (mp_block_list m) f"
      using bf by (intro chain_cong) (auto simp: blk)
    then show "chain (mp_nexts ?m') (mp_block_list ?m') (b # f)" using d(1) f'(2) by (simp add: blk)
    show "distinct (b # f)" using d(2) bf by simp
    show "\<forall>i. i \<in> set (b # f) \<longleftrightarrow> i < length (mp_blocks ?m') \<and> mp_blocks ?m' ! i \<noteq> OwnedBy p"
      using d(3) f'(1) b by (auto simp: blk)
    show "\<forall>i \<in> set (b # f). \<exists>n. mp_blocks ?m' ! i = FreeNext n" using d(4) by (auto simp: blk)
    have "set (b # f) \<subseteq> {..<length (mp_blocks m)}" using d(3) b(1) by auto
    then have "card (set (b # f)) \<le> length (mp_blocks m)" using card_mono [of "{..<length (mp_blocks m)}"] by simp
    then have "length f < length (mp_blocks m)" using d(2) bf by (simp add: distinct_card)
    then have "mp_block_free_count m < mp_block_total_count m" using d(5,6) by (simp add: word_less_nat_alt)
    then show "unat (mp_block_free_count ?m') = length (b # f)"
      using unat_add_one d(5) f'(4) by fastforce
    show "unat (mp_block_total_count ?m') = length (mp_blocks ?m')" using d(6) f' by simp
  qed
  show "mp_held ?m' = mp_held m - {b}"
    using mp_held_rep [OF r] mp_held_rep [OF rep] f'(1) by auto
qed

lemma mp_wf_free:
  assumes "mp_wf p m" and "mp_block_free_count m \<noteq> 0"
  shows "\<exists>b f. mp_rep p m (b # f)"
proof -
  obtain f where r: "mp_rep p m f" using assms(1) by (auto simp: mp_wf_def)
  then have "f \<noteq> []" using mp_repD(5) [OF r] assms(2) by (auto simp: unat_eq_zero)
  then show ?thesis using r by (cases f) auto
qed

lemma mp_wfI: "mp_rep p m f \<Longrightarrow> mp_wf p m"
  by (auto simp: mp_wf_def)

lemma mp_held_owned: "mp_wf p m \<Longrightarrow> b \<in> mp_held m \<longleftrightarrow> b < length (mp_blocks m) \<and> mp_blocks m ! b = OwnedBy p"
  using mp_held_rep mp_repD(3) by (fastforce simp: mp_wf_def)


section \<open>The allocator\<close>

text \<open>The attempts to take and to give back a block, without the waiting.\<close>

definition mp_try_alloc :: "ptr \<Rightarrow> unit \<Rightarrow> rt_mempool \<Rightarrow> (nat \<times> rt_mempool) option" where
  "mp_try_alloc p _ m = (if mp_block_free_count m = 0 then None else mp_take p m)"

definition mp_try_free :: "ptr \<Rightarrow> nat \<Rightarrow> rt_mempool \<Rightarrow> rt_mempool option" where
  "mp_try_free p b m =
     (if b < length (mp_blocks m) \<and> mp_blocks m ! b = OwnedBy p then Some (mp_give b m) else None)"

interpretation mpa: allocator "mp_wf p" mp_held "mp_try_alloc p" "mp_try_free p" for p
proof
  fix m m' b
  assume wf: "mp_wf p m"
  show "mp_wf p m' \<and> b \<notin> mp_held m \<and> mp_held m' = insert b (mp_held m)" if a: "mp_try_alloc p r m = Some (b, m')" for r
  proof -
    have "mp_block_free_count m \<noteq> 0" using a by (auto simp: mp_try_alloc_def)
    then obtain b' f where r: "mp_rep p m (b' # f)" using mp_wf_free [OF wf] by blast
    show ?thesis using mp_take_rep [OF r] a by (auto simp: mp_try_alloc_def intro: mp_wfI split: if_splits)
  qed
  show "\<exists>m'. mp_try_free p b m = Some m' \<and> mp_wf p m' \<and> mp_held m' = mp_held m - {b}" if "b \<in> mp_held m"
  proof -
    obtain f where r: "mp_rep p m f" using wf by (auto simp: mp_wf_def)
    show ?thesis
      using that mp_give_rep [OF r, of b] mp_held_owned [OF wf] by (auto simp: mp_try_free_def intro: mp_wfI)
  qed
qed

text \<open>A memory pool never hands out a block twice: in any run of allocations, and of releases of
  blocks that are held, the blocks handed out and not given back are different from each other, and
  the number of free blocks is always the total number without them.\<close>

theorem rt_mempool_blocks_distinct:
  assumes "mp_wf p m" and "mp_held m = {}"
  shows "\<exists>m' given. alloc_run (mp_try_alloc p) (mp_try_free p) m [] ops = Some (m', given) \<and> mp_wf p m' \<and>
     distinct given \<and> unat (mp_block_free_count m') + length given = unat (mp_block_total_count m')"
proof -
  obtain m' given where "alloc_run (mp_try_alloc p) (mp_try_free p) m [] ops = Some (m', given)" "mp_wf p m'"
    "distinct given" "set given = mp_held m'"
    using mpa.run_sound [OF assms(1), of "[]" ops] assms(2) by auto
  then show ?thesis using mp_wf_count [of p m'] distinct_card [of given] by auto
qed


section \<open>Initialisation\<close>

lemma mp_link_chain:
  "mp_link n = Some blks \<Longrightarrow> length blks = n \<and> (\<forall>i < n. blks ! i = FreeNext (if i = n - 1 then None else Some (i + 1)))"
  by (auto simp: mp_link_def nth_list_update split: if_splits)

lemma chain_upt:
  "a < n \<Longrightarrow> (\<And>i. i < n \<Longrightarrow> nx i = (if i = n - 1 then None else Some (i + 1))) \<Longrightarrow> chain nx (Some a) [a..<n]"
proof (induction "n - a" arbitrary: a)
  case (Suc k)
  show ?case
  proof (cases "Suc a = n")
    case True
    then show ?thesis using Suc.prems(2) [of a] by (simp add: upt_conv_Cons)
  next
    case False
    then have "chain nx (Some (Suc a)) [Suc a..<n]" using Suc by auto
    then show ?thesis using Suc.prems False by (simp add: upt_conv_Cons)
  qed
qed simp

text \<open>A memory pool that was initialised has every block free, at least one, and its blocks lie within
  the memory it was given.\<close>

theorem rt_mp_init_empty:
  assumes "rt_mp_init p name sz block_size s = Some (e, s')"
  shows "mp_wf p (k_mp s' p) \<and> mp_held (k_mp s' p) = {} \<and> mp_block_free_count (k_mp s' p) \<noteq> 0 \<and>
     unat (mp_block_total_count (k_mp s' p)) * (unat (mp_block_size (k_mp s' p)) + 4) \<le> unat sz"
proof -
  let ?sz = "RT_ALIGN_DOWN sz 4" and ?bs = "RT_ALIGN block_size 4"
  let ?n = "?sz div (?bs + 4)"
  obtain blks where b: "mp_link (unat ?n) = Some blks" "k_mp s' p = \<lparr>mp_blocks = blks, mp_size = ?sz,
      mp_block_size = ?bs, mp_block_total_count = ?n, mp_block_free_count = ?n, mp_block_list = Some 0\<rparr>"
    and nz: "?bs + 4 \<noteq> 0"
    using assms by (auto simp: rt_mp_init_def Let_def bind_Some_iff rt_assert_def set_mp_def split: if_splits)
  have n0: "unat ?n \<noteq> 0" using b(1) by (simp add: mp_link_def split: if_splits)
  note l = mp_link_chain [OF b(1)]
  have "chain (mp_nexts (k_mp s' p)) (Some 0) [0..<unat ?n]"
    using l n0 b(2) by (intro chain_upt) auto
  then have r: "mp_rep p (k_mp s' p) [0..<unat ?n]"
    using l b(2) by (auto simp: mp_rep_def)
  have up: "unat (?bs + 4) = unat ?bs + 4"
  proof -
    have "unat ?bs + 4 < 2 ^ 32"
    proof (rule ccontr)
      assume "\<not> unat ?bs + 4 < 2 ^ 32"
      moreover have "unat ?bs < 2 ^ 32" using unsigned_less [of ?bs] by simp
      moreover have "4 dvd unat ?bs" by (simp add: RT_ALIGN_def unat_and_minus_4)
      ultimately have "unat ?bs = 2 ^ 32 - 4" by auto
      then have "unat (?bs + 4) = 0" by (simp add: unat_word_ariths)
      then show False using nz by (simp add: unat_eq_zero)
    qed
    then show ?thesis by (simp add: unat_word_ariths)
  qed
  have "unat ?n * (unat ?bs + 4) \<le> unat ?sz" using up by (simp add: unat_div)
  also have "\<dots> \<le> unat sz" by (simp add: unat_RT_ALIGN_DOWN)
  finally have fits: "unat ?n * (unat ?bs + 4) \<le> unat sz" .
  have "mp_held (k_mp s' p) = {}"
    using mp_held_rep [OF r] l b(2) by auto
  then show ?thesis using mp_wfI [OF r] fits n0 b(2) by auto
qed

text \<open>A pool area that does not hold a single block makes \<open>rt_mp_init\<close> write the end of the chain in
  front of the area; sizes are not checked.\<close>

theorem rt_mp_init_small_faults:
  assumes "RT_ALIGN_DOWN sz 4 < RT_ALIGN block_size 4 + 4"
  shows "rt_mp_init p name sz block_size s = None"
proof -
  have "unat (RT_ALIGN_DOWN sz 4 div (RT_ALIGN block_size 4 + 4)) = 0"
    using assms by (simp add: unat_div word_less_nat_alt)
  then show ?thesis
    by (simp add: rt_mp_init_def Let_def mp_link_def split: Option.bind_split)
qed


section \<open>Allocating and freeing\<close>

lemma set_mp_fields [simp]:
  "k_mp (set_mp p f s) = (k_mp s)(p := f (k_mp s p))"
  "k_q (set_mp p f s) = k_q s" "k_thr (set_mp p f s) = k_thr s" "k_group (set_mp p f s) = k_group s"
  "k_cur (set_mp p f s) = k_cur s" "k_lock (set_mp p f s) = k_lock s" "k_irq (set_mp p f s) = k_irq s"
  "k_tick (set_mp p f s) = k_tick s" "k_obj (set_mp p f s) = k_obj s"
  "k_container (set_mp p f s) = k_container s" "k_tmr (set_mp p f s) = k_tmr s"
  "k_tlist (set_mp p f s) = k_tlist s" "k_sem (set_mp p f s) = k_sem s"
  "k_mutex (set_mp p f s) = k_mutex s" "k_event (set_mp p f s) = k_event s"
  "k_mb (set_mp p f s) = k_mb s" "k_mq (set_mp p f s) = k_mq s"
  by (simp_all add: set_mp_def)

lemma data_step_mp [simp]: "data_step s (set_mp p f s)"
  by (simp add: data_step_def)

lemma is_class_mp [simp]: "is_class c x (set_mp p f s) = is_class c x s"
  using data_step_get_type [OF data_step_mp] by (simp add: is_class_def)

definition mp_ok :: "kstate \<Rightarrow> bool" where
  "mp_ok s \<longleftrightarrow> (\<forall>p. is_class Class_MemPool p s \<longrightarrow> mp_wf p (k_mp s p))"

lemma mp_alloc_now:
  assumes "p \<noteq> RT_NULL" and "mp_rep p (k_mp s p) (b # f)"
  shows "\<exists>m'. mp_alloc_loop p t time s = Some (MpReturns (Some b), set_mp p (\<lambda>_. m') s) \<and> mp_rep p m' f \<and>
     mp_held m' = insert b (mp_held (k_mp s p)) \<and> b \<notin> mp_held (k_mp s p)"
proof -
  have "mp_block_free_count (k_mp s p) \<noteq> 0" using mp_repD(5) [OF assms(2)] by auto
  then show ?thesis using mp_take_rep [OF assms(2)] by (auto simp: mp_alloc_loop.simps)
qed

lemma mp_alloc_waits:
  assumes h: "healthy idle s" and ni: "k_cur s \<noteq> idle" and irq: "k_irq s = 0" and p: "p \<noteq> RT_NULL"
    and full: "mp_block_free_count (k_mp s p) = 0" and time: "time \<noteq> 0" "time \<noteq> TICK_HALF"
  shows "\<exists>s'. rt_mp_alloc p time s = Some (MpWaits, s') \<and>
     waits_at idle (Susp p) (k_cur s # k_q s (Susp p)) time s s'"
proof -
  let ?t = "k_cur s" and ?ys = "k_cur s # k_q s (Susp p)"
  let ?r = "set_thr ?t (\<lambda>th. th\<lparr>t_error := RT_EOK\<rparr>) s"
  let ?pk = "parked_at (Susp p) ?ys ?t ?r"
  have h1: "healthy idle ?r" using h by simp
  have run: "stat_of (k_thr ?r ?t) = RT_THREAD_READY \<or> stat_of (k_thr ?r ?t) = RT_THREAD_RUNNING"
    using healthyD(4) [OF h] by simp
  have d: "distinct ?ys" using place_ok [OF h, of "Susp p"] by simp
  have q1: "k_q (suspended ?t ?r) (Susp p) = k_q s (Susp p)" using suspended_own [OF h1] by simp
  have ys: "set ?ys = insert ?t (set (k_q (suspended ?t ?r) (Susp p)))" unfolding q1 by simp
  note pk = parked_at_inv [OF healthyD(1) [OF h1] run waiting_simps(1) d ys]
  have ins: "tlist_insert_after_head (Susp p) ?t (suspended ?t ?r) = Some ?pk"
    using pk(2) q1 by (simp add: tlist_insert_after_head_def q_push_front_def parked_at_def)
  obtain s' where s': "Option.bind (if 0 < sint time then sleep_timer ?t time ?pk else Some ?pk) rt_schedule = Some s'"
    "waits_at idle (Susp p) ?ys time s s'"
    using park_reset [OF h ni waiting_simps(1) d _ time(2)] by auto
  have "mp_alloc_loop p ?t time s = Some (MpWaits, s')"
    using full time(1) irq healthyD(3) [OF h] pk(1) ins s'(1) waits_atD(3) [OF s'(2)]
    by (subst mp_alloc_loop.simps) (auto simp: rt_thread_self_def Let_def bind_Some_iff split: if_splits)
  then show ?thesis using s'(2) p by (auto simp: rt_mp_alloc_def rt_thread_self_def)
qed

lemma mp_free_gives:
  assumes h: "healthy idle s" and wf: "mp_wf p (k_mp s p)" and b: "b \<in> mp_held (k_mp s p)"
  shows "\<exists>s'. rt_mp_free (Some (p, b)) s = Some s' \<and> healthy idle s' \<and> k_mp s' = (k_mp s)(p := mp_give b (k_mp s p)) \<and>
     k_q s' (Susp p) = tl (k_q s (Susp p)) \<and> (\<forall>q. waiting q \<longrightarrow> q \<noteq> Susp p \<longrightarrow> k_q s' q = k_q s q) \<and>
     (\<forall>u. runs u s' \<longleftrightarrow> runs u s \<or> k_q s (Susp p) \<noteq> [] \<and> u = hd (k_q s (Susp p))) \<and>
     (k_q s (Susp p) \<noteq> [] \<longrightarrow> t_error (k_thr s' (hd (k_q s (Susp p)))) = RT_EOK) \<and>
     ipc_frame (set_mp p (mp_give b) s) s' \<and>
     (\<forall>u. u \<notin> set (k_q s (Susp p)) \<longrightarrow> t_error (k_thr s' u) = t_error (k_thr s u)) \<and>
     (\<forall>u. t_error (k_thr s' u) \<in> {t_error (k_thr s u), RT_EOK})"
proof -
  have own: "b < length (mp_blocks (k_mp s p))" "mp_blocks (k_mp s p) ! b = OwnedBy p"
    using b mp_held_owned [OF wf] by auto
  let ?g = "set_mp p (mp_give b) s"
  have h1: "healthy idle ?g" using h data_step_healthy [OF data_step_mp] by blast
  have r1: "runs u ?g = runs u s" for u by (simp add: runs_def)
  show ?thesis
  proof (cases "k_q s (Susp p)")
    case Nil
    then show ?thesis using own h1 r1 by (simp add: rt_mp_free_def Let_def)
  next
    case (Cons w ws)
    let ?e = "set_thr w (\<lambda>th. th\<lparr>t_error := RT_EOK\<rparr>) ?g"
    have h2: "healthy idle ?e" using h1 by simp
    have q2: "k_q ?e (Susp p) = w # ws" using Cons by simp
    have st: "stat_of (k_thr ?e w) = RT_THREAD_SUSPEND"
      using waiting_suspended(1) [OF healthyD(7) [OF h2], of "Susp p" w] q2 by simp
    obtain s' where s': "rt_schedule (woken w ?e) = Some s'" "wakes_first idle (Susp p) w ?e s'"
      using wake_core [OF h2 _ q2] by auto
    note k = wakes_firstD [OF s'(2)]
    have free: "rt_mp_free (Some (p, b)) s = Some s'"
      using own Cons s'(1) resume_woken(1) [OF healthyD(1) [OF h2] st] by (simp add: rt_mp_free_def Let_def)
    have "runs u ?e = runs u s" for u by (simp add: runs_def)
    then have r: "runs u s' \<longleftrightarrow> runs u s \<or> u = w" for u using k(6,7) by (cases "u = w") auto
    have fr: "ipc_frame ?g s'" by (rule ipc_frame_trans [OF ipc_frame_steps(5) k(2)])
    show ?thesis
      using free r fr k(1,4,5,8) ipc_frameD(6) [OF k(2)] Cons by (intro exI [of _ s']) auto
  qed
qed

text \<open>A block given back goes to the thread that began to wait last: a thread that finds the pool
  empty is put at the front of the waiting list, and the next \<open>rt_mp_free\<close> lets it run while the
  threads that have waited longer go on waiting; its \<open>rt_mp_alloc\<close> then returns the block.\<close>

theorem rt_mp_free_serves_newest:
  assumes h: "healthy idle s" and ni: "k_cur s \<noteq> idle" and irq: "k_irq s = 0" and p: "p \<noteq> RT_NULL"
    and wf: "mp_wf p (k_mp s p)" and full: "mp_block_free_count (k_mp s p) = 0"
    and time: "time \<noteq> 0" "time \<noteq> TICK_HALF" and b: "b \<in> mp_held (k_mp s p)"
  shows "\<exists>s' s'' s3. rt_mp_alloc p time s = Some (MpWaits, s') \<and> rt_mp_free (Some (p, b)) s' = Some s'' \<and>
     healthy idle s'' \<and> runs (k_cur s) s'' \<and> k_q s'' (Susp p) = k_q s (Susp p) \<and>
     rt_mp_alloc_resume p (k_cur s) time start s'' = Some (MpReturns (Some b), s3)"
proof -
  obtain s' where s': "rt_mp_alloc p time s = Some (MpWaits, s')"
    "waits_at idle (Susp p) (k_cur s # k_q s (Susp p)) time s s'"
    using mp_alloc_waits [OF h ni irq p full time] by blast
  note d = waits_atD [OF s'(2)]
  have mp: "k_mp s' = k_mp s" using ipc_frameD(6) [OF d(2)] .
  have wf': "mp_wf p (k_mp s' p)" "b \<in> mp_held (k_mp s' p)" using wf b mp by simp_all
  obtain s'' where s'': "rt_mp_free (Some (p, b)) s' = Some s''" "healthy idle s''"
    "k_mp s'' = (k_mp s')(p := mp_give b (k_mp s' p))" "k_q s'' (Susp p) = tl (k_q s' (Susp p))"
    "\<forall>u. runs u s'' \<longleftrightarrow> runs u s' \<or> k_q s' (Susp p) \<noteq> [] \<and> u = hd (k_q s' (Susp p))"
    "k_q s' (Susp p) \<noteq> [] \<longrightarrow> t_error (k_thr s'' (hd (k_q s' (Susp p)))) = RT_EOK"
    using mp_free_gives [OF d(1) wf'] by (elim exE conjE)
  obtain f where f: "mp_rep p (k_mp s p) f" using wf by (auto simp: mp_wf_def)
  have "mp_rep p (k_mp s'' p) (b # f)"
    using mp_give_rep(1) [OF f] mp_held_owned [OF wf] b s''(3) mp by simp
  then obtain m' where "mp_alloc_loop p (k_cur s) (timeout_left time start s'') s'' =
      Some (MpReturns (Some b), set_mp p (\<lambda>_. m') s'')"
    using mp_alloc_now [OF p] by blast
  then have "rt_mp_alloc_resume p (k_cur s) time start s'' = Some (MpReturns (Some b), set_mp p (\<lambda>_. m') s'')"
    using s''(6) d(7) by (simp add: rt_mp_alloc_resume_def)
  then show ?thesis using s'(1) s'' d(7) by auto
qed

text \<open>Every call keeps the invariants.\<close>

lemma mp_ok_step:
  assumes "mp_ok s" and "mp_wf p (k_mp s' p)" and "ipc_frame (set_mp p f s) s'"
  shows "mp_ok s'"
  using assms(1,2) ipc_frameD(6) [OF assms(3)] is_class_frame [OF assms(3)] by (auto simp: mp_ok_def)

lemma mp_ok_frame: "mp_ok s \<Longrightarrow> ipc_frame s s' \<Longrightarrow> mp_ok s'"
  using ipc_frameD(6) is_class_frame by (auto simp: mp_ok_def)

lemma mp_alloc_inv:
  assumes h: "healthy idle s" and ok: "mp_ok s" and ni: "k_cur s \<noteq> idle" and irq: "k_irq s = 0"
    and p: "is_class Class_MemPool p s" and time: "time \<noteq> TICK_HALF"
  shows "\<exists>r s'. rt_mp_alloc p time s = Some (r, s') \<and> healthy idle s' \<and> mp_ok s'"
proof -
  have wf: "mp_wf p (k_mp s p)" and p0: "p \<noteq> RT_NULL" using ok p by (simp_all add: mp_ok_def is_class_def)
  consider "mp_block_free_count (k_mp s p) \<noteq> 0" | "mp_block_free_count (k_mp s p) = 0" "time = 0"
    | "mp_block_free_count (k_mp s p) = 0" "time \<noteq> 0" by blast
  then show ?thesis
  proof cases
    case 1
    obtain b f where r: "mp_rep p (k_mp s p) (b # f)" using mp_wf_free [OF wf 1] by blast
    obtain m' where m': "mp_alloc_loop p (k_cur s) time s = Some (MpReturns (Some b), set_mp p (\<lambda>_. m') s)"
      "mp_rep p m' f"
      using mp_alloc_now [OF p0 r] by blast
    let ?n = "set_mp p (\<lambda>_. m') s"
    have "mp_ok ?n" using mp_ok_step [OF ok _ ipc_frame_refl] mp_wfI [OF m'(2)] by simp
    then show ?thesis
      using m'(1) h data_step_healthy [OF data_step_mp] p0 by (auto simp: rt_mp_alloc_def rt_thread_self_def)
  next
    case 2
    let ?n = "set_thr (k_cur s) (\<lambda>th. th\<lparr>t_error := - RT_ETIMEOUT\<rparr>) s"
    have "mp_ok ?n" by (rule mp_ok_frame [OF ok ipc_frame_steps(5)])
    then show ?thesis
      using 2 h irq healthyD(3) [OF h] p0
      by (simp add: rt_mp_alloc_def rt_thread_self_def mp_alloc_loop.simps rt_set_errno_def)
  next
    case 3
    then show ?thesis
      using mp_alloc_waits [OF h ni irq p0 3(1) 3(2) time] waits_atD(1,2) mp_ok_frame [OF ok] by metis
  qed
qed

lemma mp_free_inv:
  assumes h: "healthy idle s" and ok: "mp_ok s" and p: "is_class Class_MemPool p s"
    and b: "b \<in> mp_held (k_mp s p)"
  shows "\<exists>s'. rt_mp_free (Some (p, b)) s = Some s' \<and> healthy idle s' \<and> mp_ok s'"
proof -
  have wf: "mp_wf p (k_mp s p)" using ok p by (simp add: mp_ok_def)
  obtain f where f: "mp_rep p (k_mp s p) f" using wf by (auto simp: mp_wf_def)
  have "mp_wf p (mp_give b (k_mp s p))"
    using mp_give_rep(1) [OF f] mp_held_owned [OF wf] b by (auto intro: mp_wfI)
  moreover obtain s' where "rt_mp_free (Some (p, b)) s = Some s'" "healthy idle s'"
    "k_mp s' = (k_mp s)(p := mp_give b (k_mp s p))" "ipc_frame (set_mp p (mp_give b) s) s'"
    using mp_free_gives [OF h wf b] by (elim exE conjE)
  ultimately show ?thesis using mp_ok_step [OF ok, of p s'] by auto
qed

end
