(* ===== verification/RTT_KString.thy ===== *)
theory RTT_KString
  imports RTT_Prelude "HOL-Library.List_Lexorder"
begin

text \<open>
  The memory and string functions of \<open>rt-thread/src/kservice.c\<close> on a memory of bytes: a partial map from
  addresses, so that a read or write outside the mapped bytes is the fault \<open>None\<close>. The word-at-a-time
  variants are modelled (\<open>RT_USING_TINY_SIZE\<close> is not set); words are stored with the low byte first and a
  plain \<open>char\<close> is unsigned, as on the Cortex-M4. The loops that count down a \<open>rt_ubase_t\<close> recurse on that
  number; the loops that look for the end of a string are partial functions, and that they return is part of
  the lemmas.
\<close>

section \<open>Memory\<close>

type_synonym mem = "ptr \<rightharpoonup> u8"

definition store_byte :: "ptr \<Rightarrow> u8 \<Rightarrow> mem \<Rightarrow> mem option" where
  "store_byte a b m = (if a \<in> dom m then Some (m(a \<mapsto> b)) else None)"

definition byte_of :: "nat \<Rightarrow> u32 \<Rightarrow> u8" where
  "byte_of i w = ucast (drop_bit (8 * i) w)"

definition store_word :: "ptr \<Rightarrow> u32 \<Rightarrow> mem \<Rightarrow> mem option" where
  "store_word a w m = do {
     m \<leftarrow> store_byte a (byte_of 0 w) m;
     m \<leftarrow> store_byte (a + 1) (byte_of 1 w) m;
     m \<leftarrow> store_byte (a + 2) (byte_of 2 w) m;
     store_byte (a + 3) (byte_of 3 w) m
   }"

definition load_word :: "ptr \<Rightarrow> mem \<Rightarrow> u32 option" where
  "load_word a m = do {
     b0 \<leftarrow> m a; b1 \<leftarrow> m (a + 1); b2 \<leftarrow> m (a + 2); b3 \<leftarrow> m (a + 3);
     Some (ucast b0 OR push_bit 8 (ucast b1) OR push_bit 16 (ucast b2) OR push_bit 24 (ucast b3))
   }"

definition unaligned :: "ptr \<Rightarrow> bool" where "unaligned a \<longleftrightarrow> a mod 4 \<noteq> 0"


section \<open>\<open>rt_memset\<close>\<close>

fun set_bytes :: "nat \<Rightarrow> u8 \<Rightarrow> ptr \<Rightarrow> mem \<Rightarrow> mem option" where
  "set_bytes 0 d p m = Some m"
| "set_bytes (Suc n) d p m = do { m \<leftarrow> store_byte p d m; set_bytes n d (p + 1) m }"

fun set_words4 :: "nat \<Rightarrow> u32 \<Rightarrow> ptr \<Rightarrow> mem \<Rightarrow> (nat \<times> ptr \<times> mem) option" where
  "set_words4 n w p m =
     (if 16 \<le> n
      then do {
        m \<leftarrow> store_word p w m;
        m \<leftarrow> store_word (p + 4) w m;
        m \<leftarrow> store_word (p + 8) w m;
        m \<leftarrow> store_word (p + 12) w m;
        set_words4 (n - 16) w (p + 16) m
      }
      else Some (n, p, m))"

fun set_words :: "nat \<Rightarrow> u32 \<Rightarrow> ptr \<Rightarrow> mem \<Rightarrow> (nat \<times> ptr \<times> mem) option" where
  "set_words n w p m =
     (if 4 \<le> n then do { m \<leftarrow> store_word p w m; set_words (n - 4) w (p + 4) m } else Some (n, p, m))"

declare set_words4.simps [simp del] set_words.simps [simp del]

definition memset_buffer :: "u32 \<Rightarrow> u32" where
  "memset_buffer d = (let buffer = push_bit 8 d OR d in buffer OR push_bit 16 buffer)"

definition rt_memset :: "ptr \<Rightarrow> u32 \<Rightarrow> u32 \<Rightarrow> mem \<Rightarrow> (ptr \<times> mem) option" where
  "rt_memset s c count m = do {
     let d = c AND 0xff;
     (n, p, m) \<leftarrow> (if 4 \<le> unat count \<and> \<not> unaligned s
       then do {
         let buffer = memset_buffer d;
         (n, p, m) \<leftarrow> set_words4 (unat count) buffer s m;
         set_words n buffer p m
       }
       else Some (unat count, s, m));
     m \<leftarrow> set_bytes n (ucast d) p m;
     Some (s, m)
   }"


section \<open>\<open>rt_memcpy\<close> and \<open>rt_memmove\<close>\<close>

definition copy_byte :: "ptr \<Rightarrow> ptr \<Rightarrow> mem \<Rightarrow> mem option" where
  "copy_byte dst src m = do { b \<leftarrow> m src; store_byte dst b m }"

definition copy_word :: "ptr \<Rightarrow> ptr \<Rightarrow> mem \<Rightarrow> mem option" where
  "copy_word dst src m = do { w \<leftarrow> load_word src m; store_word dst w m }"

fun copy_bytes :: "nat \<Rightarrow> ptr \<Rightarrow> ptr \<Rightarrow> mem \<Rightarrow> mem option" where
  "copy_bytes 0 d s m = Some m"
| "copy_bytes (Suc n) d s m = do { m \<leftarrow> copy_byte d s m; copy_bytes n (d + 1) (s + 1) m }"

fun copy_words4 :: "nat \<Rightarrow> ptr \<Rightarrow> ptr \<Rightarrow> mem \<Rightarrow> (nat \<times> ptr \<times> ptr \<times> mem) option" where
  "copy_words4 n d s m =
     (if 16 \<le> n
      then do {
        m \<leftarrow> copy_word d s m;
        m \<leftarrow> copy_word (d + 4) (s + 4) m;
        m \<leftarrow> copy_word (d + 8) (s + 8) m;
        m \<leftarrow> copy_word (d + 12) (s + 12) m;
        copy_words4 (n - 16) (d + 16) (s + 16) m
      }
      else Some (n, d, s, m))"

fun copy_words :: "nat \<Rightarrow> ptr \<Rightarrow> ptr \<Rightarrow> mem \<Rightarrow> (nat \<times> ptr \<times> ptr \<times> mem) option" where
  "copy_words n d s m =
     (if 4 \<le> n then do { m \<leftarrow> copy_word d s m; copy_words (n - 4) (d + 4) (s + 4) m } else Some (n, d, s, m))"

declare copy_words4.simps [simp del] copy_words.simps [simp del]

definition rt_memcpy :: "ptr \<Rightarrow> ptr \<Rightarrow> u32 \<Rightarrow> mem \<Rightarrow> (ptr \<times> mem) option" where
  "rt_memcpy dst src count m = do {
     (n, d, s, m) \<leftarrow> (if 16 \<le> unat count \<and> \<not> (unaligned src \<or> unaligned dst)
       then do {
         (n, d, s, m) \<leftarrow> copy_words4 (unat count) dst src m;
         copy_words n d s m
       }
       else Some (unat count, dst, src, m));
     m \<leftarrow> copy_bytes n d s m;
     Some (dst, m)
   }"

text \<open>The copy from the end, for a destination inside the source.\<close>

fun copy_down :: "nat \<Rightarrow> ptr \<Rightarrow> ptr \<Rightarrow> mem \<Rightarrow> mem option" where
  "copy_down 0 d s m = Some m"
| "copy_down (Suc n) d s m = do { m \<leftarrow> copy_byte (d - 1) (s - 1) m; copy_down n (d - 1) (s - 1) m }"

definition rt_memmove :: "ptr \<Rightarrow> ptr \<Rightarrow> u32 \<Rightarrow> mem \<Rightarrow> (ptr \<times> mem) option" where
  "rt_memmove dest src n m = do {
     m \<leftarrow> (if src < dest \<and> dest < src + unat n
       then copy_down (unat n) (dest + unat n) (src + unat n) m
       else copy_bytes (unat n) dest src m);
     Some (dest, m)
   }"


section \<open>What they do to the memory\<close>

definition mapped :: "ptr \<Rightarrow> nat \<Rightarrow> mem \<Rightarrow> bool" where
  "mapped a n m \<longleftrightarrow> {a..<a + n} \<subseteq> dom m"

definition filled :: "ptr \<Rightarrow> nat \<Rightarrow> u8 \<Rightarrow> mem \<Rightarrow> mem" where
  "filled a n d m = (\<lambda>x. if a \<le> x \<and> x < a + n then Some d else m x)"

definition copied :: "ptr \<Rightarrow> ptr \<Rightarrow> nat \<Rightarrow> mem \<Rightarrow> mem" where
  "copied dst src n m = (\<lambda>x. if dst \<le> x \<and> x < dst + n then m (src + (x - dst)) else m x)"

lemma mapped_sub: "mapped a n m \<Longrightarrow> a \<le> b \<Longrightarrow> b + k \<le> a + n \<Longrightarrow> mapped b k m"
  unfolding mapped_def by (erule subset_trans [rotated]) auto

lemma dom_filled [simp]: "mapped a n m \<Longrightarrow> dom (filled a n d m) = dom m"
  by (auto simp: mapped_def filled_def split: if_splits)

lemma dom_copied [simp]: "mapped dst n m \<Longrightarrow> mapped src n m \<Longrightarrow> dom (copied dst src n m) = dom m"
proof -
  assume a: "mapped dst n m" "mapped src n m"
  have "src + (x - dst) \<in> dom m" if "dst \<le> x" "x < dst + n" for x
    using a(2) that unfolding mapped_def by (rule_tac subsetD) auto
  then show ?thesis using a(1) by (fastforce simp: mapped_def copied_def split: if_splits)
qed

lemma mapped_filled [simp]: "mapped a n m \<Longrightarrow> mapped b k (filled a n d m) = mapped b k m"
  by (simp add: mapped_def [of b k])

lemma mapped_copied [simp]: "mapped dst n m \<Longrightarrow> mapped src n m \<Longrightarrow> mapped b k (copied dst src n m) = mapped b k m"
  by (simp add: mapped_def [of b k])

lemma filled_filled: "filled (a + i) n d (filled a i d m) = filled a (i + n) d m"
  by (auto simp: filled_def fun_eq_iff)

lemma filled_0 [simp]: "filled a 0 d m = m" "copied a b 0 m = m"
  unfolding filled_def copied_def by (rule ext, auto)+

text \<open>Copies upwards compose when the rest of the source is not overwritten.\<close>

lemma copied_copied:
  "dst \<le> src \<or> src + (k + n) \<le> dst \<Longrightarrow>
   copied (dst + k) (src + k) n (copied dst src k m) = copied dst src (k + n) m"
  by (auto simp: copied_def fun_eq_iff)

lemma store_byte_filled: "mapped a 1 m \<Longrightarrow> store_byte a d m = Some (filled a 1 d m)"
  by (auto simp: store_byte_def mapped_def filled_def fun_eq_iff)

lemma copy_byte_copied: "mapped dst 1 m \<Longrightarrow> mapped src 1 m \<Longrightarrow> copy_byte dst src m = Some (copied dst src 1 m)"
  by (auto simp: copy_byte_def store_byte_def mapped_def copied_def fun_eq_iff)

lemma mapped_4: "mapped a 4 m \<longleftrightarrow> a \<in> dom m \<and> a + 1 \<in> dom m \<and> a + 2 \<in> dom m \<and> a + 3 \<in> dom m"
proof -
  have "{a..<a + 4} = {a, a + 1, a + 2, a + 3}" by auto
  then show ?thesis by (simp add: mapped_def)
qed

lemma store_word_eq:
  "mapped a 4 m \<Longrightarrow> store_word a w m =
     Some (m(a \<mapsto> byte_of 0 w, a + 1 \<mapsto> byte_of 1 w, a + 2 \<mapsto> byte_of 2 w, a + 3 \<mapsto> byte_of 3 w))"
  by (simp add: mapped_4 store_word_def store_byte_def)

lemma byte_of_join:
  fixes b0 b1 b2 b3 :: u8
  defines "w \<equiv> ucast b0 OR push_bit 8 (ucast b1) OR push_bit 16 (ucast b2) OR push_bit 24 (ucast b3) :: u32"
  shows "byte_of 0 w = b0" and "byte_of 1 w = b1" and "byte_of 2 w = b2" and "byte_of 3 w = b3"
  unfolding w_def byte_of_def by (rule bit_word_eqI; auto simp: bit_simps dest: bit_imp_le_length; fail)+

lemma buffer_join:
  "memset_buffer (c AND 0xff) =
     ucast (ucast c :: u8) OR push_bit 8 (ucast (ucast c :: u8)) OR push_bit 16 (ucast (ucast c :: u8)) OR
     push_bit 24 (ucast (ucast c :: u8))"
proof -
  have m: "c AND 0xff = ucast (ucast c :: u8)"
  proof (rule bit_word_eqI)
    fix i
    have m: "(0xff :: u32) = mask 8" by (simp add: mask_eq_exp_minus_1)
    show "bit (c AND 0xff) i = bit (ucast (ucast c :: u8) :: u32) i" if "i < LENGTH(32)"
      unfolding m using that by (auto simp: bit_simps dest: bit_imp_le_length)
  qed
  show ?thesis unfolding m memset_buffer_def Let_def by (simp add: push_bit_or or.assoc or.left_commute or.commute)
qed

lemma byte_of_buffer:
  "byte_of 0 (memset_buffer (c AND 0xff)) = ucast c" "byte_of 1 (memset_buffer (c AND 0xff)) = ucast c"
  "byte_of 2 (memset_buffer (c AND 0xff)) = ucast c" "byte_of 3 (memset_buffer (c AND 0xff)) = ucast c"
  unfolding buffer_join by (simp_all only: byte_of_join)

lemma store_word_filled:
  assumes "mapped a 4 m"
  shows "store_word a (memset_buffer (c AND 0xff)) m = Some (filled a 4 (ucast c) m)"
proof -
  have "a \<le> x \<and> x < a + 4 \<longleftrightarrow> x = a \<or> x = a + 1 \<or> x = a + 2 \<or> x = a + 3" for x by auto
  then show ?thesis
    unfolding store_word_eq [OF assms] byte_of_buffer by (simp add: filled_def fun_eq_iff)
qed

lemma copy_word_copied:
  assumes "mapped dst 4 m" and "mapped src 4 m"
  shows "copy_word dst src m = Some (copied dst src 4 m)"
proof -
  obtain b0 b1 b2 b3 where b: "m src = Some b0" "m (src + 1) = Some b1" "m (src + 2) = Some b2" "m (src + 3) = Some b3"
    using assms(2) by (auto simp: mapped_4)
  have "copy_word dst src m = Some (m(dst \<mapsto> b0, dst + 1 \<mapsto> b1, dst + 2 \<mapsto> b2, dst + 3 \<mapsto> b3))"
    using b store_word_eq [OF assms(1)] byte_of_join [of b0 b1 b2 b3] by (simp add: copy_word_def load_word_def)
  also have "\<dots> = Some (copied dst src 4 m)"
  proof -
    have "dst \<le> x \<and> x < dst + 4 \<longleftrightarrow> x = dst \<or> x = dst + 1 \<or> x = dst + 2 \<or> x = dst + 3" for x by auto
    then show ?thesis using b by (auto simp: copied_def fun_eq_iff)
  qed
  finally show ?thesis .
qed

lemma set_bytes_filled: "mapped p n m \<Longrightarrow> set_bytes n d p m = Some (filled p n d m)"
proof (induction n arbitrary: p m)
  case (Suc n)
  have a: "mapped p 1 m" "mapped (p + 1) n m" using Suc.prems mapped_sub by auto
  then show ?case using Suc.IH [of "p + 1" "filled p 1 d m"] filled_filled [of p 1 n d m]
    by (simp add: store_byte_filled)
qed simp

lemma block_div: "0 < j \<Longrightarrow> (k + j) div j * j = j + k div j * j" for j k :: nat
proof -
  assume "0 < j"
  then have "(k + j) div j = Suc (k div j)" using div_add_self2 [of j k] by simp
  then show ?thesis by simp
qed

lemma set_words_filled:
  "mapped p n m \<Longrightarrow> set_words n (memset_buffer (c AND 0xff)) p m =
     Some (n mod 4, p + n div 4 * 4, filled p (n div 4 * 4) (ucast c) m)"
proof (induction n "memset_buffer (c AND 0xff)" p m rule: set_words.induct)
  case (1 n p m)
  show ?case
  proof (cases "4 \<le> n")
    case True
    then obtain k where n: "n = k + 4" by (metis add.commute le_Suc_ex)
    have dv: "n div 4 * 4 = 4 + k div 4 * 4" "n mod 4 = k mod 4" unfolding n by (simp_all add: block_div)
    have a: "mapped p 4 m" "mapped (p + 4) k m" using "1.prems" n mapped_sub by auto
    have "set_words n (memset_buffer (c AND 0xff)) p m = set_words k (memset_buffer (c AND 0xff)) (p + 4) (filled p 4 (ucast c) m)"
      by (subst set_words.simps) (simp add: n store_word_filled [OF a(1)])
    then show ?thesis
      using "1.hyps" [OF True store_word_filled [OF a(1)]] a n filled_filled [of p 4 "k div 4 * 4" "ucast c" m]
      unfolding dv by (simp add: add.assoc)
  qed (simp add: set_words.simps)
qed

lemma filled_words4:
  assumes "mapped p 16 m" and "w = memset_buffer (c AND 0xff)"
  shows "store_word p w m \<bind> (\<lambda>m. store_word (p + 4) w m \<bind> (\<lambda>m. store_word (p + 8) w m \<bind>
    (\<lambda>m. store_word (p + 12) w m \<bind> f))) = f (filled p 16 (ucast c) m)"
proof -
  have a: "mapped p 4 m" "mapped (p + 4) 4 m" "mapped (p + 8) 4 m" "mapped (p + 12) 4 m" "mapped p 8 m" "mapped p 12 m"
    using assms(1) mapped_sub by auto
  show ?thesis
    using a filled_filled [of p 4 4 "ucast c" m] filled_filled [of p 8 4 "ucast c" m] filled_filled [of p 12 4 "ucast c" m]
    by (simp add: store_word_filled assms(2))
qed

lemma set_words4_filled:
  "mapped p n m \<Longrightarrow> set_words4 n (memset_buffer (c AND 0xff)) p m =
     Some (n mod 16, p + n div 16 * 16, filled p (n div 16 * 16) (ucast c) m)"
proof (induction n arbitrary: p m rule: less_induct)
  case (less n)
  show ?case
  proof (cases "16 \<le> n")
    case True
    then obtain k where n: "n = k + 16" by (metis add.commute le_Suc_ex)
    have dv: "n div 16 * 16 = 16 + k div 16 * 16" "n mod 16 = k mod 16" unfolding n by (simp_all add: block_div)
    have a: "mapped p 16 m" "mapped (p + 16) k m" using less.prems n mapped_sub by auto
    have "set_words4 n (memset_buffer (c AND 0xff)) p m =
        set_words4 k (memset_buffer (c AND 0xff)) (p + 16) (filled p 16 (ucast c) m)"
      by (subst set_words4.simps) (simp add: n filled_words4 [OF a(1) refl])
    then show ?thesis
      using less.IH [of k "p + 16" "filled p 16 (ucast c) m"] a n filled_filled [of p 16 "k div 16 * 16" "ucast c" m]
      unfolding dv by (simp add: add.assoc)
  qed (simp add: set_words4.simps)
qed


lemma rt_memset_filled:
  assumes "mapped s (unat count) m"
  shows "rt_memset s c count m = Some (s, filled s (unat count) (ucast c) m)"
proof -
  let ?n = "unat count"
  have d: "ucast (c AND 0xff) = (ucast c :: u8)"
  proof (rule bit_word_eqI)
    fix i
    have m: "(0xff :: u32) = mask 8" by (simp add: mask_eq_exp_minus_1)
    show "bit (ucast (c AND 0xff) :: u8) i = bit (ucast c :: u8) i" if "i < LENGTH(8)"
      unfolding m using that by (auto simp: bit_simps)
  qed
  show ?thesis
  proof (cases "4 \<le> ?n \<and> \<not> unaligned s")
    case True
    let ?k = "?n div 16 * 16"
    let ?j = "?n mod 16 div 4 * 4"
    have k: "?k + ?n mod 16 = ?n" "?j + ?n mod 16 mod 4 = ?n mod 16" by simp_all
    then have k': "?k \<le> ?n" "?k + ?j \<le> ?n" "?k + ?j + ?n mod 16 mod 4 = ?n" by linarith+
    have a: "mapped s ?k m" "mapped (s + ?k) (?n mod 16) m" "mapped (s + ?k) ?j m"
      "mapped (s + ?k + ?j) (?n mod 16 mod 4) m" "mapped s (?k + ?j) m"
      by (rule mapped_sub [OF assms]; use k k' in linarith)+
    have "rt_memset s c count m =
        set_bytes (?n mod 16 mod 4) (ucast c) (s + ?k + ?j) (filled (s + ?k) ?j (ucast c) (filled s ?k (ucast c) m)) \<bind> (\<lambda>m. Some (s, m))"
      using True a by (simp add: rt_memset_def Let_def d set_words4_filled [OF assms] set_words_filled)
    also have "\<dots> = Some (s, filled s (?k + ?j + ?n mod 16 mod 4) (ucast c) m)"
      using a filled_filled [of s "?k + ?j" "?n mod 16 mod 4" "ucast c" m] by (simp add: set_bytes_filled filled_filled add.assoc)
    finally show ?thesis using k by (simp only: add.assoc)
  next
    case False
    then show ?thesis using assms by (auto simp: rt_memset_def Let_def d set_bytes_filled)
  qed
qed

lemma copy_bytes_copied:
  "mapped d n m \<Longrightarrow> mapped s n m \<Longrightarrow> d \<le> s \<or> s + n \<le> d \<Longrightarrow> copy_bytes n d s m = Some (copied d s n m)"
proof (induction n arbitrary: d s m)
  case (Suc n)
  have a: "mapped d 1 m" "mapped (d + 1) n m" "mapped s 1 m" "mapped (s + 1) n m" using Suc.prems(1,2) mapped_sub by auto
  then show ?case using Suc.IH [of "d + 1" "copied d s 1 m" "s + 1"] copied_copied [of d s 1 n m] Suc.prems(3)
    by (auto simp: copy_byte_copied)
qed simp

lemma copy_words_copied:
  "mapped d n m \<Longrightarrow> mapped s n m \<Longrightarrow> d \<le> s \<or> s + n \<le> d \<Longrightarrow>
   copy_words n d s m = Some (n mod 4, d + n div 4 * 4, s + n div 4 * 4, copied d s (n div 4 * 4) m)"
proof (induction n arbitrary: d s m rule: less_induct)
  case (less n)
  show ?case
  proof (cases "4 \<le> n")
    case True
    then obtain k where n: "n = k + 4" by (metis add.commute le_Suc_ex)
    have dv: "n div 4 * 4 = 4 + k div 4 * 4" "n mod 4 = k mod 4" unfolding n by (simp_all add: block_div)
    have "k div 4 * 4 \<le> k" by simp
    then have o: "d + 4 \<le> s + 4 \<or> s + 4 + k \<le> d + 4" "d \<le> s \<or> s + (4 + k div 4 * 4) \<le> d"
      using less.prems(3) n by linarith+
    have a: "mapped d 4 m" "mapped (d + 4) k m" "mapped s 4 m" "mapped (s + 4) k m" using less.prems(1,2) n mapped_sub by auto
    have "copy_words n d s m = copy_words k (d + 4) (s + 4) (copied d s 4 m)"
      by (subst copy_words.simps) (simp add: n copy_word_copied [OF a(1,3)])
    then show ?thesis
      using less.IH [of k "d + 4" "copied d s 4 m" "s + 4"] a n o(1) copied_copied [OF o(2)]
      unfolding dv by (simp add: add.assoc)
  qed (simp add: copy_words.simps)
qed

lemma copy_word4:
  assumes "mapped d 16 m" and "mapped s 16 m" and "d \<le> s \<or> s + 16 \<le> d"
  shows "copy_word d s m \<bind> (\<lambda>m. copy_word (d + 4) (s + 4) m \<bind> (\<lambda>m. copy_word (d + 8) (s + 8) m \<bind>
    (\<lambda>m. copy_word (d + 12) (s + 12) m \<bind> f))) = f (copied d s 16 m)"
proof -
  have a: "mapped d 4 m" "mapped (d + 4) 4 m" "mapped (d + 8) 4 m" "mapped (d + 12) 4 m" "mapped d 8 m" "mapped d 12 m"
    "mapped s 4 m" "mapped (s + 4) 4 m" "mapped (s + 8) 4 m" "mapped (s + 12) 4 m" "mapped s 8 m" "mapped s 12 m"
    using assms(1,2) mapped_sub by auto
  have "copied (d + 4) (s + 4) 4 (copied d s 4 m) = copied d s 8 m"
    "copied (d + 8) (s + 8) 4 (copied d s 8 m) = copied d s 12 m"
    "copied (d + 12) (s + 12) 4 (copied d s 12 m) = copied d s 16 m"
    using copied_copied [of d s 4 4 m] copied_copied [of d s 8 4 m] copied_copied [of d s 12 4 m] assms(3) by auto
  then show ?thesis using a by (simp add: copy_word_copied)
qed

lemma copy_words4_copied:
  "mapped d n m \<Longrightarrow> mapped s n m \<Longrightarrow> d \<le> s \<or> s + n \<le> d \<Longrightarrow>
   copy_words4 n d s m = Some (n mod 16, d + n div 16 * 16, s + n div 16 * 16, copied d s (n div 16 * 16) m)"
proof (induction n arbitrary: d s m rule: less_induct)
  case (less n)
  show ?case
  proof (cases "16 \<le> n")
    case True
    then obtain k where n: "n = k + 16" by (metis add.commute le_Suc_ex)
    have dv: "n div 16 * 16 = 16 + k div 16 * 16" "n mod 16 = k mod 16" unfolding n by (simp_all add: block_div)
    have "k div 16 * 16 \<le> k" by simp
    then have o: "d + 16 \<le> s + 16 \<or> s + 16 + k \<le> d + 16" "d \<le> s \<or> s + (16 + k div 16 * 16) \<le> d"
      using less.prems(3) n by linarith+
    have a: "mapped d 16 m" "mapped (d + 16) k m" "mapped s 16 m" "mapped (s + 16) k m" "d \<le> s \<or> s + 16 \<le> d"
      using less.prems n mapped_sub by auto
    have "copy_words4 n d s m = copy_words4 k (d + 16) (s + 16) (copied d s 16 m)"
      by (subst copy_words4.simps) (simp add: n copy_word4 [OF a(1,3,5)])
    then show ?thesis
      using less.IH [of k "d + 16" "copied d s 16 m" "s + 16"] a n o(1) copied_copied [OF o(2)]
      unfolding dv by (simp add: add.assoc)
  qed (simp add: copy_words4.simps)
qed

lemma rt_memcpy_copied:
  assumes "mapped d (unat count) m" and "mapped s (unat count) m" and "d \<le> s \<or> s + unat count \<le> d"
  shows "rt_memcpy d s count m = Some (d, copied d s (unat count) m)"
proof (cases "16 \<le> unat count \<and> \<not> (unaligned s \<or> unaligned d)")
  case True
  let ?n = "unat count"
  let ?k = "?n div 16 * 16"
  let ?j = "?n mod 16 div 4 * 4"
  have k: "?k + ?n mod 16 = ?n" "?j + ?n mod 16 mod 4 = ?n mod 16" by simp_all
  then have k': "?k \<le> ?n" "?k + ?j \<le> ?n" "?k + ?j + ?n mod 16 mod 4 = ?n" by linarith+
  have a: "mapped d ?k m" "mapped (d + ?k) (?n mod 16) m" "mapped (d + ?k) ?j m" "mapped (d + ?k + ?j) (?n mod 16 mod 4) m"
    "mapped s ?k m" "mapped (s + ?k) (?n mod 16) m" "mapped (s + ?k) ?j m" "mapped (s + ?k + ?j) (?n mod 16 mod 4) m"
    "mapped d (?k + ?j) m" "mapped s (?k + ?j) m"
    by (rule mapped_sub [OF assms(1)]; use k k' in linarith; fail | rule mapped_sub [OF assms(2)]; use k k' in linarith; fail)+
  have o: "d + ?k \<le> s + ?k \<or> s + ?k + ?n mod 16 \<le> d + ?k"
    "d + ?k + ?j \<le> s + ?k + ?j \<or> s + ?k + ?j + ?n mod 16 mod 4 \<le> d + ?k + ?j"
    "d \<le> s \<or> s + (?k + ?j) \<le> d" "d \<le> s \<or> s + (?k + ?j + ?n mod 16 mod 4) \<le> d" using assms(3) k by linarith+
  note c = copied_copied [OF o(3)] copied_copied [OF o(4)]
  have "rt_memcpy d s count m =
      copy_bytes (?n mod 16 mod 4) (d + ?k + ?j) (s + ?k + ?j) (copied (d + ?k) (s + ?k) ?j (copied d s ?k m)) \<bind> (\<lambda>m. Some (d, m))"
    using True a by (simp add: rt_memcpy_def Let_def copy_words4_copied [OF assms] copy_words_copied [OF _ _ o(1)])
  also have "\<dots> = Some (d, copied d s (?k + ?j + ?n mod 16 mod 4) m)"
    using a c copy_bytes_copied [OF _ _ o(2), of "copied (d + ?k) (s + ?k) ?j (copied d s ?k m)"] by (simp add: add.assoc)
  finally show ?thesis using k by (simp only: add.assoc)
next
  case False
  then show ?thesis using assms by (auto simp: rt_memcpy_def copy_bytes_copied)
qed

lemma copy_down_copied:
  "mapped d n m \<Longrightarrow> mapped s n m \<Longrightarrow> s \<le> d \<Longrightarrow> copy_down n (d + n) (s + n) m = Some (copied d s n m)"
proof (induction n arbitrary: m)
  case (Suc n)
  have a: "mapped (d + n) 1 m" "mapped d n m" "mapped (s + n) 1 m" "mapped s n m" using Suc.prems(1,2) mapped_sub by auto
  have "copied d s n (copied (d + n) (s + n) 1 m) = copied d s (Suc n) m"
    using Suc.prems(3) by (auto simp: copied_def fun_eq_iff not_less dest!: le_antisym)
  then show ?case using Suc.IH [of "copied (d + n) (s + n) 1 m"] a Suc.prems(3) by (simp add: copy_byte_copied)
qed simp


lemma rt_memmove_copied:
  assumes "mapped d (unat n) m" and "mapped s (unat n) m"
  shows "rt_memmove d s n m = Some (d, copied d s (unat n) m)"
proof (cases "s < d \<and> d < s + unat n")
  case True
  then show ?thesis using copy_down_copied [OF assms] by (simp add: rt_memmove_def)
next
  case False
  then have "d \<le> s \<or> s + unat n \<le> d" by auto
  then show ?thesis using False copy_bytes_copied [OF assms] by (auto simp: rt_memmove_def)
qed


section \<open>Comparing\<close>

text \<open>The loop of \<open>rt_memcmp\<close>; the bytes are \<open>unsigned char\<close>.\<close>

fun memcmp_loop :: "nat \<Rightarrow> ptr \<Rightarrow> ptr \<Rightarrow> mem \<Rightarrow> int option" where
  "memcmp_loop 0 su1 su2 m = Some 0"
| "memcmp_loop (Suc n) su1 su2 m = do {
     x \<leftarrow> m su1;
     y \<leftarrow> m su2;
     let res = uint x - uint y;
     if res \<noteq> 0 then Some res else memcmp_loop n (su1 + 1) (su2 + 1) m
   }"

definition rt_memcmp :: "ptr \<Rightarrow> ptr \<Rightarrow> u32 \<Rightarrow> mem \<Rightarrow> int option" where
  "rt_memcmp cs ct count m = memcmp_loop (unat count) cs ct m"

text \<open>The bytes at an address.\<close>

fun bytes_at :: "mem \<Rightarrow> ptr \<Rightarrow> u8 list \<Rightarrow> bool" where
  "bytes_at m a [] \<longleftrightarrow> True"
| "bytes_at m a (x # xs) \<longleftrightarrow> m a = Some x \<and> bytes_at m (a + 1) xs"

lemma bytes_at_append: "bytes_at m a (xs @ ys) \<longleftrightarrow> bytes_at m a xs \<and> bytes_at m (a + length xs) ys"
  by (induction xs arbitrary: a) auto

lemma bytes_at_nth: "bytes_at m a xs \<longleftrightarrow> (\<forall>i < length xs. m (a + i) = Some (xs ! i))"
proof (induction xs arbitrary: a)
  case (Cons x xs)
  show ?case by (simp add: Cons.IH All_less_Suc2)
qed simp

lemma mapped_bytes: "mapped a n m \<Longrightarrow> \<exists>xs. length xs = n \<and> bytes_at m a xs"
proof (induction n arbitrary: a)
  case (Suc n)
  have "mapped (a + 1) n m" using mapped_sub [OF Suc.prems, of "a + 1" n] by simp
  moreover have "a \<in> dom m" using Suc.prems unfolding mapped_def by (rule subsetD) simp
  ultimately obtain x xs where "m a = Some x" "length xs = n" "bytes_at m (a + 1) xs" using Suc.IH by blast
  then show ?case by (intro exI [of _ "x # xs"]) simp
qed simp

text \<open>What a comparison gives for two byte strings: nothing, or the order of the first difference.\<close>

definition compares :: "int \<Rightarrow> u8 list \<Rightarrow> u8 list \<Rightarrow> bool" where
  "compares r xs ys \<longleftrightarrow> (r = 0 \<longleftrightarrow> xs = ys) \<and> (r < 0 \<longleftrightarrow> xs < ys)"

lemma compares_Cons:
  "compares r xs ys \<Longrightarrow> compares r (x # xs) (x # ys)"
  "x \<noteq> y \<Longrightarrow> compares (uint x - uint y) (x # xs) (y # ys)"
  by (auto simp: compares_def word_less_def word_uint_eq_iff)

lemma memcmp_loop_compares:
  "bytes_at m a xs \<Longrightarrow> bytes_at m b ys \<Longrightarrow> length ys = length xs \<Longrightarrow>
   \<exists>r. memcmp_loop (length xs) a b m = Some r \<and> compares r xs ys"
proof (induction xs arbitrary: a b ys)
  case (Cons x xs)
  then obtain y ys' where ys: "ys = y # ys'" by (cases ys) auto
  show ?case
  proof (cases "x = y")
    case True
    then show ?thesis using Cons.IH [of "a + 1" "b + 1" ys'] Cons.prems ys by (auto intro: compares_Cons)
  next
    case False
    then have "uint x - uint y \<noteq> 0" by (simp add: word_uint_eq_iff)
    then show ?thesis using False Cons.prems ys by (auto intro: compares_Cons)
  qed
qed (simp add: compares_def)

lemma rt_memcmp_compares:
  assumes "bytes_at m a xs" and "bytes_at m b ys" and "length xs = unat n" and "length ys = unat n"
  shows "\<exists>r. rt_memcmp a b n m = Some r \<and> compares r xs ys"
  using memcmp_loop_compares [OF assms(1,2)] assms(3,4) by (simp add: rt_memcmp_def)


section \<open>Strings\<close>

partial_function (option) strlen_loop :: "ptr \<Rightarrow> mem \<Rightarrow> ptr option" where
  "strlen_loop sc m = do { b \<leftarrow> m sc; if b \<noteq> 0 then strlen_loop (sc + 1) m else Some sc }"

definition rt_strlen :: "ptr \<Rightarrow> mem \<Rightarrow> u32 option" where
  "rt_strlen s m = do { sc \<leftarrow> strlen_loop s m; Some (word_of_nat (sc - s)) }"

text \<open>\<open>rt_strnlen\<close> reads the byte before it looks at the limit.\<close>

partial_function (option) strnlen_loop :: "ptr \<Rightarrow> ptr \<Rightarrow> nat \<Rightarrow> mem \<Rightarrow> ptr option" where
  "strnlen_loop s sc maxlen m = do {
     b \<leftarrow> m sc;
     if b \<noteq> 0 \<and> sc - s < maxlen then strnlen_loop s (sc + 1) maxlen m else Some sc
   }"

definition rt_strnlen :: "ptr \<Rightarrow> u32 \<Rightarrow> mem \<Rightarrow> u32 option" where
  "rt_strnlen s maxlen m = do { sc \<leftarrow> strnlen_loop s s (unat maxlen) m; Some (word_of_nat (sc - s)) }"

partial_function (option) rt_strcmp :: "ptr \<Rightarrow> ptr \<Rightarrow> mem \<Rightarrow> int option" where
  "rt_strcmp cs ct m = do {
     x \<leftarrow> m cs;
     y \<leftarrow> m ct;
     if x \<noteq> 0 \<and> x = y then rt_strcmp (cs + 1) (ct + 1) m else Some (uint x - uint y)
   }"

text \<open>\<open>rt_strncmp\<close> keeps the difference of two bytes in a \<open>signed char\<close>.\<close>

definition char_diff :: "u8 \<Rightarrow> u8 \<Rightarrow> int" where
  "char_diff x y = sint (x - y)"

fun strncmp_loop :: "nat \<Rightarrow> ptr \<Rightarrow> ptr \<Rightarrow> mem \<Rightarrow> int option" where
  "strncmp_loop 0 cs ct m = Some 0"
| "strncmp_loop (Suc n) cs ct m = do {
     x \<leftarrow> m cs;
     y \<leftarrow> m ct;
     let res = char_diff x y;
     if res \<noteq> 0 \<or> x = 0 then Some res else strncmp_loop n (cs + 1) (ct + 1) m
   }"

definition rt_strncmp :: "ptr \<Rightarrow> ptr \<Rightarrow> u32 \<Rightarrow> mem \<Rightarrow> int option" where
  "rt_strncmp cs ct count m = strncmp_loop (unat count) cs ct m"

text \<open>Upper case letters are compared as the lower case ones.\<close>

definition lower_char :: "u8 \<Rightarrow> int" where
  "lower_char c = (let ca = uint c in if 65 \<le> ca \<and> ca \<le> 90 then ca + 32 else ca)"

partial_function (option) strcasecmp_loop :: "ptr \<Rightarrow> ptr \<Rightarrow> mem \<Rightarrow> int option" where
  "strcasecmp_loop a b m = do {
     x \<leftarrow> m a;
     y \<leftarrow> m b;
     let ca = lower_char x;
     let cb = lower_char y;
     if ca = cb \<and> ca \<noteq> 0 then strcasecmp_loop (a + 1) (b + 1) m else Some (ca - cb)
   }"

definition rt_strcasecmp :: "ptr \<Rightarrow> ptr \<Rightarrow> mem \<Rightarrow> u32 option" where
  "rt_strcasecmp a b m = do { d \<leftarrow> strcasecmp_loop a b m; Some (word_of_int d) }"

text \<open>The loop of \<open>rt_strncpy\<close>: \<open>n\<close> bytes are still to be written.\<close>

fun strncpy_loop :: "nat \<Rightarrow> ptr \<Rightarrow> ptr \<Rightarrow> mem \<Rightarrow> mem option" where
  "strncpy_loop 0 d s m = Some m"
| "strncpy_loop (Suc n) d s m = do {
     b \<leftarrow> m s;
     m \<leftarrow> store_byte d b m;
     if b = 0 then set_bytes n 0 (d + 1) m else strncpy_loop n (d + 1) (s + 1) m
   }"

definition rt_strncpy :: "ptr \<Rightarrow> ptr \<Rightarrow> u32 \<Rightarrow> mem \<Rightarrow> (ptr \<times> mem) option" where
  "rt_strncpy dst src n m = do {
     m \<leftarrow> (if n \<noteq> 0 then strncpy_loop (unat n) dst src m else Some m);
     Some (dst, m)
   }"

text \<open>The lengths are \<open>int\<close>.\<close>

partial_function (option) strstr_loop :: "int \<Rightarrow> int \<Rightarrow> ptr \<Rightarrow> ptr \<Rightarrow> mem \<Rightarrow> ptr option" where
  "strstr_loop l1 l2 s1 s2 m =
     (if l2 \<le> l1
      then do {
        r \<leftarrow> rt_memcmp s1 s2 (word_of_int l2) m;
        if r = 0 then Some s1 else strstr_loop (l1 - 1) l2 (s1 + 1) s2 m
      }
      else Some RT_NULL)"

definition rt_strstr :: "ptr \<Rightarrow> ptr \<Rightarrow> mem \<Rightarrow> ptr option" where
  "rt_strstr s1 s2 m = do {
     l2 \<leftarrow> rt_strlen s2 m;
     if l2 = 0 then Some s1
     else do { l1 \<leftarrow> rt_strlen s1 m; strstr_loop (sint l1) (sint l2) s1 s2 m }
   }"


text \<open>A string: the bytes up to the first zero.\<close>

definition cstr :: "mem \<Rightarrow> ptr \<Rightarrow> u8 list \<Rightarrow> bool" where
  "cstr m s xs \<longleftrightarrow> bytes_at m s (xs @ [0]) \<and> 0 \<notin> set xs"

lemma cstr_simps [simp]:
  "cstr m s [] \<longleftrightarrow> m s = Some 0"
  "cstr m s (x # xs) \<longleftrightarrow> m s = Some x \<and> x \<noteq> 0 \<and> cstr m (s + 1) xs"
  by (auto simp: cstr_def)

lemma strlen_loop_ends: "cstr m s xs \<Longrightarrow> strlen_loop s m = Some (s + length xs)"
proof (induction xs arbitrary: s)
  case Nil
  then show ?case by (subst strlen_loop.simps) simp
next
  case (Cons x xs)
  then show ?case by (subst strlen_loop.simps) (simp add: Cons.IH)
qed

lemma rt_strlen_length: "cstr m s xs \<Longrightarrow> rt_strlen s m = Some (word_of_nat (length xs))"
  by (simp add: rt_strlen_def strlen_loop_ends)

lemma strnlen_loop_ends:
  "cstr m sc xs \<Longrightarrow> s \<le> sc \<Longrightarrow> sc - s \<le> n \<Longrightarrow> strnlen_loop s sc n m = Some (sc + min (length xs) (n - (sc - s)))"
proof (induction xs arbitrary: sc)
  case Nil
  then show ?case by (subst strnlen_loop.simps) simp
next
  case (Cons x xs)
  show ?case
  proof (cases "sc - s < n")
    case True
    then have "n - (sc - s) = Suc (n - (sc + 1 - s))" using Cons.prems by simp
    then show ?thesis using True Cons.prems Cons.IH [of "sc + 1"] by (subst strnlen_loop.simps) simp
  qed (subst strnlen_loop.simps, use Cons.prems in simp)
qed

lemma rt_strnlen_min: "cstr m s xs \<Longrightarrow> rt_strnlen s n m = Some (word_of_nat (min (length xs) (unat n)))"
  by (simp add: rt_strnlen_def strnlen_loop_ends)

lemma strnlen_loop_reads:
  "bytes_at m sc xs \<Longrightarrow> 0 \<notin> set xs \<Longrightarrow> m (sc + length xs) = None \<Longrightarrow> s \<le> sc \<Longrightarrow> sc - s + length xs = n \<Longrightarrow>
   strnlen_loop s sc n m = None"
proof (induction xs arbitrary: sc)
  case Nil
  then show ?case by (subst strnlen_loop.simps) simp
next
  case (Cons x xs)
  then show ?case by (subst strnlen_loop.simps) simp
qed

lemma compares_end:
  "x \<noteq> 0 \<Longrightarrow> compares (uint x) (x # xs) []" "y \<noteq> 0 \<Longrightarrow> compares (- uint y) [] (y # ys)" "compares 0 [] []"
  using uint_ge_0 [of x] uint_ge_0 [of y] by (auto simp: compares_def word_uint_eq_iff less_le simp del: uint_ge_0)

lemma rt_strcmp_compares:
  "cstr m a xs \<Longrightarrow> cstr m b ys \<Longrightarrow> \<exists>r. rt_strcmp a b m = Some r \<and> compares r xs ys"
proof (induction xs arbitrary: a b ys)
  case Nil
  then show ?case by (cases ys) (subst rt_strcmp.simps, auto simp: compares_end)+
next
  case (Cons x xs)
  show ?case
  proof (cases "ys \<noteq> [] \<and> hd ys = x")
    case True
    then obtain ys' where ys: "ys = x # ys'" by (cases ys) auto
    then show ?thesis using Cons.IH [of "a + 1" "b + 1" ys'] Cons.prems by (subst rt_strcmp.simps) (auto intro: compares_Cons)
  next
    case False
    then show ?thesis using Cons.prems
      by (cases ys) (subst rt_strcmp.simps, auto simp: compares_end intro: compares_Cons)+
  qed
qed


lemma char_diff_0 [simp]: "char_diff x y = 0 \<longleftrightarrow> x = y"
proof -
  have "sint (x - y) = 0 \<longleftrightarrow> x - y = 0" by (metis signed_0 signed_word_eqI)
  then show ?thesis by (simp add: char_diff_def)
qed

lemma char_diff_range:
  "uint x - uint y \<in> {-128..<128} \<Longrightarrow> char_diff x y = uint x - uint y"
  "128 \<le> uint x - uint y \<Longrightarrow> char_diff x y < 0"
proof -
  have "x - y = word_of_int (uint x - uint y)" by simp
  moreover have "sint (word_of_int k :: u8) = signed_take_bit 7 k" for k by (simp add: signed_of_int)
  ultimately have e: "char_diff x y = signed_take_bit 7 (uint x - uint y)" by (simp only: char_diff_def)
  show "uint x - uint y \<in> {-128..<128} \<Longrightarrow> char_diff x y = uint x - uint y"
    unfolding e by (simp add: signed_take_bit_int_eq_self)
  assume d: "128 \<le> uint x - uint y"
  have "uint x < 256" using uint_bounded [of x] by simp
  moreover have "signed_take_bit 7 (uint x - uint y) \<le> uint x - uint y - 256"
    using signed_take_bit_int_less_eq [of 7 "uint x - uint y"] d by simp
  ultimately show "char_diff x y < 0" unfolding e using uint_ge_0 [of y] by linarith
qed


lemma strncmp_loop_equal:
  "cstr m a xs \<Longrightarrow> cstr m b ys \<Longrightarrow>
   \<exists>r. strncmp_loop n a b m = Some r \<and> (r = 0 \<longleftrightarrow> take n xs = take n ys)"
proof (induction n arbitrary: a b xs ys)
  case (Suc n)
  show ?case
  proof (cases "xs = [] \<or> ys = [] \<or> hd xs \<noteq> hd ys")
    case True
    then show ?thesis using Suc.prems by (cases xs; cases ys) (auto simp: Let_def)
  next
    case False
    then obtain x xs' ys' where "xs = x # xs'" "ys = x # ys'" by (cases xs; cases ys) auto
    then show ?thesis using Suc.IH [of "a + 1" xs' "b + 1" ys'] Suc.prems by (simp add: Let_def)
  qed
qed simp

lemma strncmp_loop_ascii:
  "cstr m a xs \<Longrightarrow> cstr m b ys \<Longrightarrow> \<forall>x \<in> set (xs @ ys). uint x < 128 \<Longrightarrow>
   \<exists>r. strncmp_loop n a b m = Some r \<and> compares r (take n xs) (take n ys)"
proof (induction n arbitrary: a b xs ys)
  case (Suc n)
  have cd: "char_diff x y = uint x - uint y" if "uint x < 128" "uint y < 128" for x y
    using char_diff_range(1) [of x y] that uint_ge_0 [of x] uint_ge_0 [of y] unfolding atLeastLessThan_iff by linarith
  show ?case
  proof (cases xs)
    case Nil
    then show ?thesis
      using Suc.prems cd [of 0] by (cases ys) (auto simp: Let_def compares_end)
  next
    case x: (Cons x xs')
    show ?thesis
    proof (cases ys)
      case Nil
      then show ?thesis using Suc.prems cd [of x 0] x by (auto simp: Let_def compares_end)
    next
      case (Cons y ys')
      then show ?thesis
        using Suc.prems Suc.IH [of "a + 1" xs' "b + 1" ys'] cd [of x y] x
        by (cases "x = y") (auto simp: Let_def compares_Cons)
    qed
  qed
qed (simp add: compares_end)

text \<open>Two strings up to the case of their letters.\<close>

lemma lower_char_0 [simp]: "lower_char x = 0 \<longleftrightarrow> x = 0"
  using uint_ge_0 [of x] by (auto simp: lower_char_def Let_def word_uint_eq_iff simp del: uint_ge_0)

lemma lower_char_range: "lower_char 0 = 0" "0 \<le> lower_char x" "lower_char x < 256"
  using uint_bounded [of x] uint_ge_0 [of x] by (auto simp: lower_char_def Let_def simp del: uint_ge_0)

lemma strcasecmp_loop_folds:
  "cstr m a xs \<Longrightarrow> cstr m b ys \<Longrightarrow>
   \<exists>r. strcasecmp_loop a b m = Some r \<and> \<bar>r\<bar> < 256 \<and> (r = 0 \<longleftrightarrow> map lower_char xs = map lower_char ys)"
proof (induction xs arbitrary: a b ys)
  case Nil
  show ?case
  proof (cases ys)
    case (Cons y ys')
    then have "0 < lower_char y" "lower_char y < 256"
      using Nil.prems lower_char_0 [of y] lower_char_range(2,3) [of y] by (simp_all add: less_le)
    then show ?thesis using Nil Cons by (subst strcasecmp_loop.simps) (simp add: Let_def lower_char_range(1))
  qed (subst strcasecmp_loop.simps, use Nil in simp)
next
  case (Cons x xs)
  note lo = lower_char_range(2,3) [of x]
  show ?case
  proof (cases ys)
    case Nil
    then have "0 < lower_char x" using Cons.prems lower_char_0 [of x] lo by (simp add: less_le)
    then show ?thesis using Cons.prems Nil lo by (subst strcasecmp_loop.simps) (simp add: Let_def lower_char_range(1))
  next
    fix y ys'
    assume ys: "ys = y # ys'"
    then show ?thesis
      using Cons.prems lo lower_char_range(2,3) [of y] Cons.IH [of "a + 1" "b + 1" ys']
      by (subst strcasecmp_loop.simps) (auto simp: Let_def abs_less_iff)
  qed
qed


lemma rt_strcasecmp_folds:
  assumes "cstr m a xs" and "cstr m b ys"
  shows "\<exists>r. rt_strcasecmp a b m = Some r \<and> (r = 0 \<longleftrightarrow> map lower_char xs = map lower_char ys)"
proof -
  obtain r where r: "strcasecmp_loop a b m = Some r" "\<bar>r\<bar> < 256" "r = 0 \<longleftrightarrow> map lower_char xs = map lower_char ys"
    using strcasecmp_loop_folds [OF assms] by blast
  have "(word_of_int r :: u32) = 0 \<longleftrightarrow> r = 0"
  proof
    assume "(word_of_int r :: u32) = 0"
    then have "(2 ^ 32 :: int) dvd r" by (simp add: word_of_int_eq_0_iff)
    then show "r = 0" using r(2) zdvd_imp_le [of "2 ^ 32" "\<bar>r\<bar>"] by (cases "r = 0") auto
  qed simp
  then show ?thesis using r by (simp add: rt_strcasecmp_def)
qed

text \<open>The copy of a string into a field of \<open>n\<close> bytes.\<close>

definition off_range :: "ptr \<Rightarrow> nat \<Rightarrow> mem \<Rightarrow> mem \<Rightarrow> bool" where
  "off_range d n m m' \<longleftrightarrow> (\<forall>x. x < d \<or> d + n \<le> x \<longrightarrow> m' x = m x)"

lemma bytes_at_cong: "(\<And>x. a \<le> x \<Longrightarrow> x < a + length xs \<Longrightarrow> m' x = m x) \<Longrightarrow> bytes_at m' a xs = bytes_at m a xs"
  by (simp add: bytes_at_nth)

lemma bytes_at_filled: "bytes_at (filled d n c m) d (replicate n c)"
  by (simp add: bytes_at_nth filled_def)

lemma cstr_off:
  assumes "off_range d n m m'" and "s + length xs < d \<or> d + n \<le> s"
  shows "cstr m' s xs = cstr m s xs"
proof -
  have "bytes_at m' s (xs @ [0]) = bytes_at m s (xs @ [0])"
    by (rule bytes_at_cong) (use assms in \<open>auto simp: off_range_def\<close>)
  then show ?thesis by (simp add: cstr_def)
qed

lemma strncpy_loop_field:
  "cstr m s xs \<Longrightarrow> mapped d n m \<Longrightarrow> s + length xs < d \<or> d + n \<le> s \<Longrightarrow>
   \<exists>m'. strncpy_loop n d s m = Some m' \<and> bytes_at m' d (take n (xs @ replicate n 0)) \<and> off_range d n m m'"
proof (induction n arbitrary: d s m xs)
  case (Suc n)
  have md: "mapped d 1 m" "mapped (d + 1) n m" using Suc.prems(2) mapped_sub by auto
  let ?m = "\<lambda>b. filled d 1 b m"
  have off: "off_range d 1 m (?m b)" for b by (simp add: off_range_def filled_def)
  show ?case
  proof (cases xs)
    case Nil
    have "set_bytes n 0 (d + 1) (?m 0) = Some (filled d (Suc n) 0 m)"
      using set_bytes_filled [of "d + 1" n "?m 0" 0] md filled_filled [of d 1 n 0 m] by simp
    moreover have "off_range d (Suc n) m (filled d (Suc n) 0 m)" by (simp add: off_range_def filled_def)
    ultimately show ?thesis
      using Nil Suc.prems md bytes_at_filled [of d "Suc n" 0 m]
      by (simp add: store_byte_filled del: replicate_Suc)
  next
    case (Cons x xs')
    have "cstr (?m x) (s + 1) xs'" using cstr_off [OF off, of "s + 1" xs'] Suc.prems(1,3) Cons by auto
    then obtain m' where m': "strncpy_loop n (d + 1) (s + 1) (?m x) = Some m'"
        "bytes_at m' (d + 1) (take n (xs' @ replicate n 0))" "off_range (d + 1) n (?m x) m'"
      using Suc.IH [of "?m x" "s + 1" xs' "d + 1"] Suc.prems(3) md Cons by auto
    have "m' d = Some x" using m'(3) by (simp add: off_range_def filled_def)
    moreover have "take n (xs' @ 0 # replicate n 0) = take n (xs' @ replicate n 0)"
      unfolding replicate_Suc [symmetric] by (simp del: replicate_Suc)
    moreover have "off_range d (Suc n) m m'" using m'(3) by (auto simp: off_range_def filled_def)
    ultimately show ?thesis using m' Suc.prems(1) Cons md by (simp add: store_byte_filled)
  qed
qed (simp add: off_range_def)

lemma find_map_eq: "find P (map f xs) = map_option f (find (P \<circ> f) xs)"
  by (induction xs) auto

lemma find_upt_Suc:
  "find P [0..<Suc n] = (if P 0 then Some 0 else map_option Suc (find (\<lambda>k. P (Suc k)) [0..<n]))"
proof -
  have "[0..<Suc n] = 0 # map Suc [0..<n]" by (simp add: map_Suc_upt upt_conv_Cons del: upt_Suc)
  then show ?thesis by (simp add: find_map_eq comp_def del: upt_Suc)
qed

text \<open>The place of the first occurrence.\<close>

definition occurs :: "u8 list \<Rightarrow> u8 list \<Rightarrow> nat option" where
  "occurs ys xs = find (\<lambda>k. take (length ys) (drop k xs) = ys) [0..<Suc (length xs)]"

lemma occurs_short: "length xs < length ys \<Longrightarrow> occurs ys xs = None"
proof -
  assume l: "length xs < length ys"
  have "take (length ys) (drop k xs) \<noteq> ys" for k
  proof
    assume "take (length ys) (drop k xs) = ys"
    then have "length (take (length ys) (drop k xs)) = length ys" by simp
    then show False using l by simp
  qed
  then show ?thesis by (simp add: occurs_def find_None_iff)
qed

lemma occurs_Cons:
  "occurs ys (x # xs) = (if take (length ys) (x # xs) = ys then Some 0 else map_option Suc (occurs ys xs))"
  unfolding occurs_def by (subst find_upt_Suc) simp

lemma strstr_loop_finds:
  assumes "bytes_at m b ys" and "ys \<noteq> []" and "length ys < 2 ^ 31"
  shows "cstr m a xs \<Longrightarrow> strstr_loop (int (length xs)) (int (length ys)) a b m =
    Some (case occurs ys xs of Some k \<Rightarrow> a + k | None \<Rightarrow> RT_NULL)"
proof (induction xs arbitrary: a)
  case Nil
  then show ?case using assms(2) by (subst strstr_loop.simps) (simp add: occurs_short)
next
  case (Cons x xs)
  let ?zs = "take (length ys) (x # xs)"
  have n: "unat (word_of_int (int (length ys)) :: u32) = length ys"
    using assms(3) unat_word_of_nat [of "length ys", where 'a = 32] by simp
  have IH: "strstr_loop (int (length xs)) (int (length ys)) (a + 1) b m =
      Some (case occurs ys xs of Some k \<Rightarrow> a + 1 + k | None \<Rightarrow> RT_NULL)"
    by (rule Cons.IH) (use Cons.prems in simp)
  show ?case
  proof (cases "length ys \<le> length (x # xs)")
    case True
    have "bytes_at m a ((x # xs) @ [0])" using Cons.prems by (simp add: cstr_def)
    then have "bytes_at m a (x # xs)" unfolding bytes_at_append by (rule conjunct1)
    then have "bytes_at m a (?zs @ drop (length ys) (x # xs))" by (simp only: append_take_drop_id)
    then have zs: "bytes_at m a ?zs" unfolding bytes_at_append by (rule conjunct1)
    obtain r where r: "rt_memcmp a b (word_of_int (int (length ys))) m = Some r" "r = 0 \<longleftrightarrow> ?zs = ys"
      using rt_memcmp_compares [OF zs assms(1), of "word_of_int (int (length ys))"] True n
      by (auto simp: compares_def)
    show ?thesis
      using True r IH by (subst strstr_loop.simps) (auto simp: occurs_Cons Let_def split: option.splits)
  next
    case False
    then show ?thesis by (subst strstr_loop.simps) (simp add: occurs_short)
  qed
qed

lemma sint_of_length: "n < 2 ^ 31 \<Longrightarrow> sint (word_of_nat n :: u32) = int n"
  by (simp add: signed_of_nat signed_take_bit_int_eq_self)

lemma rt_strstr_finds:
  assumes "cstr m a xs" and "cstr m b ys" and "length xs < 2 ^ 31" and "length ys < 2 ^ 31"
  shows "rt_strstr a b m = Some (case occurs ys xs of Some k \<Rightarrow> a + k | None \<Rightarrow> RT_NULL)"
proof (cases "ys = []")
  case True
  then show ?thesis using rt_strlen_length [OF assms(2)] by (simp add: rt_strstr_def occurs_def upt_conv_Cons del: upt_Suc)
next
  case False
  have ne: "(word_of_nat (length ys) :: u32) \<noteq> 0"
    using unat_word_of_nat [of "length ys", where 'a = 32] assms(4) False by auto
  have "bytes_at m b ys" using assms(2) by (simp add: cstr_def bytes_at_append)
  then show ?thesis
    using strstr_loop_finds [OF _ False assms(4,1)] assms ne
    by (simp add: rt_strstr_def rt_strlen_length sint_of_length)
qed



section \<open>Properties\<close>

text \<open>C38: \<open>rt_memset\<close>, which writes words four at a time when the address is aligned, fills exactly the bytes
  of the range with the low byte of its argument and returns the address: it equals the byte-wise
  definition for every length and alignment.\<close>

theorem rt_memset_fills:
  assumes "mapped s (unat count) m"
  shows "rt_memset s c count m = Some (s, \<lambda>x. if s \<le> x \<and> x < s + unat count then Some (ucast c) else m x)"
  using rt_memset_filled [OF assms] by (simp add: filled_def)

text \<open>C39: \<open>rt_memmove\<close> copies the old bytes of the source for every overlap of the two ranges, and the word-wise
  \<open>rt_memcpy\<close> gives the same memory unless the destination starts inside the source.\<close>

theorem rt_memcpy_memmove:
  assumes "mapped d (unat n) m" and "mapped s (unat n) m"
  shows "rt_memmove d s n m = Some (d, \<lambda>x. if d \<le> x \<and> x < d + unat n then m (s + (x - d)) else m x) \<and>
    (\<not> (s < d \<and> d < s + unat n) \<longrightarrow> rt_memcpy d s n m = rt_memmove d s n m)"
proof -
  have "d \<le> s \<or> s + unat n \<le> d" if "\<not> (s < d \<and> d < s + unat n)" using that by linarith
  then show ?thesis
    using rt_memmove_copied [OF assms] rt_memcpy_copied [OF assms] by (simp add: copied_def)
qed

text \<open>\<open>rt_memcmp\<close> and \<open>rt_strcmp\<close> return, and their results order the byte strings: zero for equal ones
  only, negative when the first comes first in the lexicographic order of unsigned bytes, where a string comes
  before its extensions.\<close>

theorem rt_memcmp_strcmp_order:
  assumes "cstr m a xs" and "cstr m b ys" and "length xs = length ys \<Longrightarrow> length xs = unat n"
  shows "\<exists>r. rt_strcmp a b m = Some r \<and> (r = 0 \<longleftrightarrow> xs = ys) \<and> (r < 0 \<longleftrightarrow> xs < ys) \<and>
    (length xs = length ys \<longrightarrow> (\<exists>q. rt_memcmp a b n m = Some q \<and> (q = 0 \<longleftrightarrow> xs = ys) \<and> (q < 0 \<longleftrightarrow> xs < ys)))"
proof -
  have "bytes_at m a xs" "bytes_at m b ys" using assms(1,2) by (simp_all add: cstr_def bytes_at_append)
  then have "\<exists>q. rt_memcmp a b n m = Some q \<and> compares q xs ys" if "length xs = length ys"
    using rt_memcmp_compares assms(3) that by simp
  then show ?thesis using rt_strcmp_compares [OF assms(1,2)] by (auto simp: compares_def)
qed

text \<open>\<open>rt_strncmp\<close> finds out whether the first \<open>n\<close> characters are equal, and orders strings of ASCII
  characters. But it keeps the difference of two characters in a \<open>signed char\<close>: where the first different
  characters are 128 or more apart, the sign of its result is the wrong one.\<close>

theorem rt_strncmp_sign:
  assumes "cstr m a (x # xs)" and "cstr m b (y # ys)" and "n \<noteq> 0"
  shows "(\<exists>r. rt_strncmp a b n m = Some r \<and> (r = 0 \<longleftrightarrow> take (unat n) (x # xs) = take (unat n) (y # ys)) \<and>
      ((\<forall>z \<in> set (x # xs) \<union> set (y # ys). uint z < 128) \<longrightarrow> (r < 0 \<longleftrightarrow> take (unat n) (x # xs) < take (unat n) (y # ys))) \<and>
      (uint y + 128 \<le> uint x \<longrightarrow> r < 0 \<and> take (unat n) (y # ys) < take (unat n) (x # xs)))"
proof -
  obtain k where k: "unat n = Suc k" using assms(3) by (metis unat_eq_zero not0_implies_Suc)
  obtain r where r: "rt_strncmp a b n m = Some r" "r = 0 \<longleftrightarrow> take (unat n) (x # xs) = take (unat n) (y # ys)"
    using strncmp_loop_equal [OF assms(1,2), of "unat n"] by (auto simp: rt_strncmp_def)
  have s: "r < 0 \<longleftrightarrow> take (unat n) (x # xs) < take (unat n) (y # ys)"
    if "\<forall>z \<in> set (x # xs) \<union> set (y # ys). uint z < 128"
    using strncmp_loop_ascii [OF assms(1,2), of "unat n"] that r(1) unfolding rt_strncmp_def set_append
    by (auto simp: compares_def)
  have w: "r < 0 \<and> take (unat n) (y # ys) < take (unat n) (x # xs)" if "uint y + 128 \<le> uint x"
  proof -
    have "y < x" "x \<noteq> y" using that by (auto simp: word_less_def)
    moreover have "char_diff x y < 0" using char_diff_range(2) [of x y] that by simp
    ultimately show ?thesis using r(1) assms(1,2) k by (simp add: rt_strncmp_def Let_def)
  qed
  show ?thesis using r s w by blast
qed

text \<open>\<open>rt_strlen\<close> and \<open>rt_strnlen\<close> return the length of a string and its minimum with the limit. The comment
  on \<open>rt_strnlen\<close> says that it never looks beyond the limit: it reads the byte behind the last one allowed,
  and faults where that is not mapped.\<close>

theorem rt_strnlen_reads_past:
  assumes "cstr m s xs" and "bytes_at m t ys" and "0 \<notin> set ys" and "length ys = unat n"
  shows "rt_strlen s m = Some (word_of_nat (length xs)) \<and> rt_strnlen s k m = Some (word_of_nat (min (length xs) (unat k))) \<and>
    (m (t + unat n) = None \<longrightarrow> rt_strnlen t n m = None)"
  using rt_strlen_length [OF assms(1)] rt_strnlen_min [OF assms(1)] strnlen_loop_reads [OF assms(2,3), of t "unat n"] assms(4)
  by (auto simp: rt_strnlen_def)

text \<open>\<open>rt_strncpy\<close> writes all \<open>n\<close> bytes of the destination and no other: the string, cut to the field
  or padded with zeros.\<close>

theorem rt_strncpy_pads:
  assumes "cstr m src xs" and "mapped dst (unat n) m" and "src + length xs < dst \<or> dst + unat n \<le> src"
  shows "\<exists>m'. rt_strncpy dst src n m = Some (dst, m') \<and> bytes_at m' dst (take (unat n) (xs @ replicate (unat n) 0)) \<and>
    (\<forall>x. x < dst \<or> dst + unat n \<le> x \<longrightarrow> m' x = m x)"
proof -
  obtain m' where "strncpy_loop (unat n) dst src m = Some m'" "bytes_at m' dst (take (unat n) (xs @ replicate (unat n) 0))"
      "off_range dst (unat n) m m'"
    using strncpy_loop_field [OF assms] by blast
  then show ?thesis by (cases "n = 0") (auto simp: rt_strncpy_def off_range_def)
qed

text \<open>C40: \<open>rt_strstr\<close> ends and returns the address of the first occurrence of the second string in the first, or
  \<open>RT_NULL\<close> when there is none.\<close>

theorem rt_strstr_first:
  assumes "cstr m a xs" and "cstr m b ys" and "length xs < 2 ^ 31" and "length ys < 2 ^ 31"
  shows "(\<exists>k \<le> length xs. rt_strstr a b m = Some (a + k) \<and> take (length ys) (drop k xs) = ys \<and>
      (\<forall>j < k. take (length ys) (drop j xs) \<noteq> ys)) \<or>
    rt_strstr a b m = Some RT_NULL \<and> (\<forall>k \<le> length xs. take (length ys) (drop k xs) \<noteq> ys)"
proof (cases "occurs ys xs")
  case None
  then have "take (length ys) (drop k xs) \<noteq> ys" if "k \<le> length xs" for k
    using that unfolding occurs_def find_None_iff by (auto simp: less_Suc_eq_le simp del: upt_Suc)
  then show ?thesis using rt_strstr_finds [OF assms] None by simp
next
  case (Some k)
  then have "k \<le> length xs" "take (length ys) (drop k xs) = ys" "\<forall>j < k. take (length ys) (drop j xs) \<noteq> ys"
    unfolding occurs_def find_Some_iff by (auto simp del: upt_Suc)
  then show ?thesis using rt_strstr_finds [OF assms] Some by auto
qed

end
