(* ===== verification/RTT_MemHeap.thy ===== *)
theory RTT_MemHeap
  imports RTT_List RTT_Alloc RTT_KString
begin

text \<open>
  The memory heaps of \<open>src/memheap.c\<close>, without the lock around each operation (\<open>RTT_HeapApi\<close>). Every
  block of a heap starts with a header, a \<open>rt_memheap_item\<close>; the headers are linked in the order of
  their addresses, and the ones of the free blocks in a list of their own with its head in the heap
  object. The store \<open>hp_item\<close> maps the address of a header to the header, \<open>hp_mem\<close> the address of any
  other byte to the byte.

  The invariant \<open>mh_rep\<close> relates the two rings to the list of the blocks and the list of the free
  blocks: the blocks lie one behind the other, no two neighbours are free, and the heap's count of
  available bytes is exact. The lemmas show what each operation does to the two lists.
\<close>

section \<open>The data\<close>

record rt_memheap_item =
  it_magic :: u32
  it_pool_ptr :: ptr
  it_next :: ptr
  it_prev :: ptr
  it_next_free :: ptr
  it_prev_free :: ptr

record rt_memheap =
  mh_start_addr :: ptr
  mh_pool_size :: u32
  mh_available_size :: u32
  mh_max_used_size :: u32
  mh_block_list :: ptr
  mh_free_list :: ptr

record heap =
  hp_mh :: "ptr \<Rightarrow> rt_memheap"
  hp_item :: "ptr \<Rightarrow> rt_memheap_item"
  hp_mem :: mem

text \<open>The addresses of \<open>free_header\<close> and \<open>lock\<close> in the heap object at \<open>p\<close>.\<close>

definition free_header :: "ptr \<Rightarrow> ptr" where "free_header p = p + 52"
definition heap_lock :: "ptr \<Rightarrow> ptr" where "heap_lock p = p + 76"

abbreviation RT_MEMHEAP_MAGIC :: u32 where "RT_MEMHEAP_MAGIC \<equiv> 0x1ea01ea0"
abbreviation RT_MEMHEAP_MASK :: u32 where "RT_MEMHEAP_MASK \<equiv> 0xfffffffe"
abbreviation RT_MEMHEAP_USED :: u32 where "RT_MEMHEAP_USED \<equiv> 1"
abbreviation RT_MEMHEAP_MINIALLOC :: u32 where "RT_MEMHEAP_MINIALLOC \<equiv> 12"
abbreviation RT_MEMHEAP_SIZE :: u32 where "RT_MEMHEAP_SIZE \<equiv> 24"

definition set_mh :: "ptr \<Rightarrow> (rt_memheap \<Rightarrow> rt_memheap) \<Rightarrow> heap \<Rightarrow> heap" where
  "set_mh p f h = h\<lparr>hp_mh := (hp_mh h)(p := f (hp_mh h p))\<rparr>"

definition set_item :: "ptr \<Rightarrow> (rt_memheap_item \<Rightarrow> rt_memheap_item) \<Rightarrow> heap \<Rightarrow> heap" where
  "set_item a f h = h\<lparr>hp_item := (hp_item h)(a := f (hp_item h a))\<rparr>"

definition is_used :: "ptr \<Rightarrow> heap \<Rightarrow> bool" where
  "is_used a h \<longleftrightarrow> it_magic (hp_item h a) AND RT_MEMHEAP_USED \<noteq> 0"

definition memitem_size :: "ptr \<Rightarrow> heap \<Rightarrow> u32" where
  "memitem_size a h = word_of_nat (it_next (hp_item h a)) - word_of_nat a - RT_MEMHEAP_SIZE"


section \<open>The pieces of the operations\<close>

text \<open>A block leaves the free list, or is put behind the head of the list.\<close>

definition free_unlink :: "ptr \<Rightarrow> heap \<Rightarrow> heap" where
  "free_unlink a h =
     (let h = set_item (it_next_free (hp_item h a)) (\<lambda>i. i\<lparr>it_prev_free := it_prev_free (hp_item h a)\<rparr>) h
      in set_item (it_prev_free (hp_item h a)) (\<lambda>i. i\<lparr>it_next_free := it_next_free (hp_item h a)\<rparr>) h)"

definition free_clear :: "ptr \<Rightarrow> heap \<Rightarrow> heap" where
  "free_clear a h = set_item a (\<lambda>i. i\<lparr>it_next_free := RT_NULL, it_prev_free := RT_NULL\<rparr>) h"

definition free_insert :: "ptr \<Rightarrow> ptr \<Rightarrow> heap \<Rightarrow> heap" where
  "free_insert p a h =
     (let l = mh_free_list (hp_mh h p);
          h = set_item a (\<lambda>i. i\<lparr>it_next_free := it_next_free (hp_item h l)\<rparr>) h;
          h = set_item a (\<lambda>i. i\<lparr>it_prev_free := l\<rparr>) h;
          h = set_item (it_next_free (hp_item h l)) (\<lambda>i. i\<lparr>it_prev_free := a\<rparr>) h
      in set_item l (\<lambda>i. i\<lparr>it_next_free := a\<rparr>) h)"

text \<open>A new header for a free block behind the block \<open>a\<close>.\<close>

definition block_insert :: "ptr \<Rightarrow> ptr \<Rightarrow> ptr \<Rightarrow> heap \<Rightarrow> heap" where
  "block_insert p a n h =
     (let h = set_item n (\<lambda>i. i\<lparr>it_magic := RT_MEMHEAP_MAGIC\<rparr>) h;
          h = set_item n (\<lambda>i. i\<lparr>it_pool_ptr := p\<rparr>) h;
          h = set_item n (\<lambda>i. i\<lparr>it_prev := a\<rparr>) h;
          h = set_item n (\<lambda>i. i\<lparr>it_next := it_next (hp_item h a)\<rparr>) h;
          h = set_item (it_next (hp_item h a)) (\<lambda>i. i\<lparr>it_prev := n\<rparr>) h
      in set_item a (\<lambda>i. i\<lparr>it_next := n\<rparr>) h)"

text \<open>The neighbours of a header are linked past it.\<close>

definition block_unlink :: "ptr \<Rightarrow> heap \<Rightarrow> heap" where
  "block_unlink a h =
     (let h = set_item (it_prev (hp_item h a)) (\<lambda>i. i\<lparr>it_next := it_next (hp_item h a)\<rparr>) h
      in set_item (it_next (hp_item h a)) (\<lambda>i. i\<lparr>it_prev := it_prev (hp_item h a)\<rparr>) h)"

text \<open>\<open>n\<close> bytes less available, and the mark of the largest use.\<close>

definition consume :: "ptr \<Rightarrow> u32 \<Rightarrow> heap \<Rightarrow> heap" where
  "consume p n h =
     (let h = set_mh p (\<lambda>m. m\<lparr>mh_available_size := mh_available_size m - n\<rparr>) h
      in if mh_max_used_size (hp_mh h p) < mh_pool_size (hp_mh h p) - mh_available_size (hp_mh h p)
         then set_mh p (\<lambda>m. m\<lparr>mh_max_used_size := mh_pool_size m - mh_available_size m\<rparr>) h else h)"


definition mark_used :: "ptr \<Rightarrow> heap \<Rightarrow> heap" where
  "mark_used a h = set_item a (\<lambda>i. i\<lparr>it_magic := it_magic i OR RT_MEMHEAP_USED\<rparr>) h"

section \<open>The operations\<close>

text \<open>The heap object and the first two headers, of \<open>rt_memheap_init\<close>.\<close>

definition memheap_init :: "ptr \<Rightarrow> ptr \<Rightarrow> u32 \<Rightarrow> heap \<Rightarrow> heap" where
  "memheap_init p start sz h =
     (let h = set_mh p (\<lambda>m. m\<lparr>mh_start_addr := start, mh_pool_size := RT_ALIGN_DOWN sz 4\<rparr>) h;
          h = set_mh p (\<lambda>m. m\<lparr>mh_available_size := mh_pool_size m - 2 * RT_MEMHEAP_SIZE\<rparr>) h;
          h = set_mh p (\<lambda>m. m\<lparr>mh_max_used_size := mh_pool_size m - mh_available_size m\<rparr>) h;
          l = free_header p;
          h = set_item l (\<lambda>_. \<lparr>it_magic = RT_MEMHEAP_MAGIC, it_pool_ptr = p, it_next = RT_NULL, it_prev = RT_NULL,
                               it_next_free = l, it_prev_free = l\<rparr>) h;
          h = set_mh p (\<lambda>m. m\<lparr>mh_free_list := l\<rparr>) h;
          a = start;
          h = set_item a (\<lambda>_. \<lparr>it_magic = RT_MEMHEAP_MAGIC, it_pool_ptr = p, it_next = RT_NULL, it_prev = RT_NULL,
                               it_next_free = a, it_prev_free = a\<rparr>) h;
          h = set_item a (\<lambda>i. i\<lparr>it_next := a + unat (mh_available_size (hp_mh h p) + RT_MEMHEAP_SIZE)\<rparr>) h;
          h = set_item a (\<lambda>i. i\<lparr>it_prev := it_next i\<rparr>) h;
          h = set_mh p (\<lambda>m. m\<lparr>mh_block_list := a\<rparr>) h;
          h = free_insert p a h;
          z = it_next (hp_item h a)
      in set_item z (\<lambda>_. \<lparr>it_magic = RT_MEMHEAP_MAGIC OR RT_MEMHEAP_USED, it_pool_ptr = p, it_next = start,
                          it_prev = start, it_next_free = RT_NULL, it_prev_free = RT_NULL\<rparr>) h)"

text \<open>The size that is allocated for a request.\<close>

definition memheap_request :: "u32 \<Rightarrow> u32" where
  "memheap_request sz =
     (let sz = RT_ALIGN sz 4 in if sz < RT_MEMHEAP_MINIALLOC then RT_MEMHEAP_MINIALLOC else sz)"

text \<open>The search for the first block that is large enough.\<close>

partial_function (option) memheap_search :: "ptr \<Rightarrow> u32 \<Rightarrow> heap \<Rightarrow> ptr \<Rightarrow> u32 \<Rightarrow> (ptr \<times> u32) option" where
  "memheap_search l sz h a free_size =
     (if a \<noteq> l \<and> free_size < sz
      then (let free_size = memitem_size a h in
        if free_size < sz then memheap_search l sz h (it_next_free (hp_item h a)) free_size
        else memheap_search l sz h a free_size)
      else Some (a, free_size))"

text \<open>\<open>rt_memheap_alloc\<close> between taking and releasing the lock: \<open>RT_NULL\<close> or the memory behind a header.\<close>

definition memheap_alloc :: "ptr \<Rightarrow> u32 \<Rightarrow> heap \<Rightarrow> (ptr \<times> heap) option" where
  "memheap_alloc p sz h = do {
     let l = mh_free_list (hp_mh h p);
     (a, free_size) \<leftarrow> memheap_search l sz h (it_next_free (hp_item h l)) 0;
     if sz \<le> free_size
     then do {
       let h = (if sz + RT_MEMHEAP_SIZE + RT_MEMHEAP_MINIALLOC \<le> free_size
                then let n = a + unat sz + 24;
                         h = block_insert p a n h;
                         h = free_unlink a h;
                         h = free_clear a h;
                         h = free_insert p n h
                     in consume p (sz + RT_MEMHEAP_SIZE) h
                else let h = consume p free_size h;
                         h = free_unlink a h
                     in free_clear a h);
       let h = mark_used a h;
       Some (a + 24, h)
     }
     else Some (RT_NULL, h)
   }"

text \<open>The assertions of \<open>rt_memheap_free\<close>, and its body between taking and releasing the lock.\<close>

definition memheap_free_check :: "ptr \<Rightarrow> heap \<Rightarrow> unit option" where
  "memheap_free_check ptr h = do {
     let a = ptr - 24;
     rt_assert (it_magic (hp_item h a) AND RT_MEMHEAP_MASK = RT_MEMHEAP_MAGIC);
     rt_assert (is_used a h);
     rt_assert (it_magic (hp_item h (it_next (hp_item h a))) AND RT_MEMHEAP_MASK = RT_MEMHEAP_MAGIC);
     rt_assert (it_pool_ptr (hp_item h a) \<noteq> RT_NULL)
   }"

definition block_merge :: "ptr \<Rightarrow> heap \<Rightarrow> heap" where
  "block_merge a h =
     (let n = it_next (hp_item h a);
          h = set_item (it_next (hp_item h n)) (\<lambda>i. i\<lparr>it_prev := a\<rparr>) h;
          h = set_item a (\<lambda>i. i\<lparr>it_next := it_next (hp_item h n)\<rparr>) h
      in free_unlink n h)"

definition memheap_merge_next :: "ptr \<Rightarrow> ptr \<Rightarrow> heap \<Rightarrow> heap" where
  "memheap_merge_next p a h =
     (if is_used (it_next (hp_item h a)) h then h
      else block_merge a (set_mh p (\<lambda>m. m\<lparr>mh_available_size := mh_available_size m + RT_MEMHEAP_SIZE\<rparr>) h))"

definition memheap_free :: "ptr \<Rightarrow> heap \<Rightarrow> heap" where
  "memheap_free ptr h =
     (let a = ptr - 24;
          p = it_pool_ptr (hp_item h a);
          h = set_item a (\<lambda>i. i\<lparr>it_magic := it_magic i AND NOT RT_MEMHEAP_USED\<rparr>) h;
          h = set_mh p (\<lambda>m. m\<lparr>mh_available_size := mh_available_size m + memitem_size a h\<rparr>) h
      in if \<not> is_used (it_prev (hp_item h a)) h
         then let h = set_mh p (\<lambda>m. m\<lparr>mh_available_size := mh_available_size m + RT_MEMHEAP_SIZE\<rparr>) h;
                  h = block_unlink a h
              in memheap_merge_next p (it_prev (hp_item h a)) h
         else free_insert p a (memheap_merge_next p a h))"

text \<open>\<open>rt_memheap_realloc\<close> under the lock: a block takes room from the free block behind it, or its end
  becomes a free block.\<close>

definition memheap_grow :: "ptr \<Rightarrow> ptr \<Rightarrow> u32 \<Rightarrow> heap \<Rightarrow> (bool \<times> heap) option" where
  "memheap_grow p ptr newsize h = do {
     let a = ptr - 24;
     let oldsize = memitem_size a h;
     let n = it_next (hp_item h a);
     rt_assert (a < n);
     if \<not> is_used n h
     then do {
       let nextsize = memitem_size n h;
       rt_assert (0 < n);
       if newsize + RT_MEMHEAP_MINIALLOC < nextsize + oldsize
       then do {
         let h = consume p (newsize - oldsize) h;
         let h = free_unlink n h;
         let h = set_item (it_next (hp_item h n)) (\<lambda>i. i\<lparr>it_prev := it_prev (hp_item h n)\<rparr>) h;
         let h = set_item (it_prev (hp_item h n)) (\<lambda>i. i\<lparr>it_next := it_next (hp_item h n)\<rparr>) h;
         let n = ptr + unat newsize;
         let h = block_insert p a n h;
         Some (True, free_insert p n h)
       }
       else Some (False, h)
     }
     else Some (False, h)
   }"

definition memheap_shrink :: "ptr \<Rightarrow> ptr \<Rightarrow> u32 \<Rightarrow> heap \<Rightarrow> heap" where
  "memheap_shrink p ptr newsize h =
     (let a = ptr - 24;
          n = a + unat newsize + 24;
          h = block_insert p a n h;
          b = it_next (hp_item h n);
          h = (if \<not> is_used b h
               then let h = set_mh p (\<lambda>m. m\<lparr>mh_available_size := mh_available_size m - memitem_size b h\<rparr>) h
                    in block_merge n h
               else h);
          h = free_insert p n h
      in set_mh p (\<lambda>m. m\<lparr>mh_available_size := mh_available_size m + memitem_size n h\<rparr>) h)"


section \<open>Rings seen from their neighbours\<close>

definition block_links :: "heap \<Rightarrow> dlinks" where
  "block_links h = \<lparr>lnext = (\<lambda>a. it_next (hp_item h a)), lprev = (\<lambda>a. it_prev (hp_item h a))\<rparr>"

definition free_links :: "heap \<Rightarrow> dlinks" where
  "free_links h = \<lparr>lnext = (\<lambda>a. it_next_free (hp_item h a)), lprev = (\<lambda>a. it_prev_free (hp_item h a))\<rparr>"

lemma links_sel [simp]:
  "lnext (block_links h) a = it_next (hp_item h a)" "lprev (block_links h) a = it_prev (hp_item h a)"
  "lnext (free_links h) a = it_next_free (hp_item h a)" "lprev (free_links h) a = it_prev_free (hp_item h a)"
  by (simp_all add: block_links_def free_links_def)

text \<open>The neighbours of a node know nothing of it any more.\<close>

definition bypass :: "ptr \<Rightarrow> dlinks \<Rightarrow> dlinks" where
  "bypass n h = h\<lparr>lnext := (lnext h)(lprev h n := lnext h n), lprev := (lprev h)(lnext h n := lprev h n)\<rparr>"

lemma dseg_cong:
  "(\<And>u. u \<in> set (a # xs) \<Longrightarrow> nx' u = nx u) \<Longrightarrow> (\<And>u. u \<in> set (xs @ [b]) \<Longrightarrow> pv' u = pv u) \<Longrightarrow>
   dseg nx' pv' a xs b = dseg nx pv a xs b"
  by (induction xs arbitrary: a) auto

lemma rt_list_cong:
  "(\<And>u. u \<in> set (l # xs) \<Longrightarrow> lnext h' u = lnext h u \<and> lprev h' u = lprev h u) \<Longrightarrow> rt_list h' l xs = rt_list h l xs"
  unfolding rt_list_def by (rule conj_cong [OF refl dseg_cong]) auto

lemma bypass_ring:
  assumes "rt_list h l (xs @ n # ys)"
  shows "rt_list (bypass n h) l (xs @ ys)"
proof -
  have n: "n \<notin> set (l # xs @ ys)" using assms by (auto simp: rt_list_def)
  have "rt_list (rt_list_remove n h) l (xs @ ys) = rt_list (bypass n h) l (xs @ ys)"
    using n by (intro rt_list_cong) (auto simp: rt_list_remove_def bypass_def)
  then show ?thesis using rt_list_remove_ring [OF assms] by simp
qed

lemma dseg_neighbours:
  "dseg nx pv a xs b \<Longrightarrow> a # xs @ [b] = us @ c # d # vs \<Longrightarrow> nx c = d \<and> pv d = c"
proof (induction xs arbitrary: a us)
  case Nil
  then show ?case by (cases us) auto
next
  case (Cons x xs)
  show ?case
  proof (cases us)
    case Nil
    then show ?thesis using Cons.prems by auto
  next
    fix u us'
    assume "us = u # us'"
    then have "x # xs @ [b] = us' @ c # d # vs" using Cons.prems(2) by simp
    then show ?thesis using Cons.IH [of x us'] Cons.prems(1) by simp
  qed
qed

lemma ring_neighbour:
  assumes "rt_list h l xs" and "l # xs @ [l] = us @ c # d # vs"
  shows "lnext h c = d" and "lprev h d = c"
  using dseg_neighbours assms by (auto simp: rt_list_def)

lemma ring_not_self:
  assumes "rt_list h l (xs @ n # ys)"
  shows "lnext h n \<noteq> n" and "lprev h n \<noteq> n"
proof -
  have "n \<notin> set (l # xs)" "n \<notin> set (ys @ [l])" using assms by (auto simp: rt_list_def)
  moreover have "lprev h n = last (l # xs)" using ring_neighbours(2) [of h l xs "n # ys"] assms by simp
  moreover have "lnext h n = hd (ys @ [l])" using ring_neighbours(1) [of h l "xs @ [n]" ys] assms by simp
  ultimately show "lnext h n \<noteq> n" "lprev h n \<noteq> n"
    by (metis hd_in_set snoc_eq_iff_butlast, metis last_in_set list.distinct(1))
qed


section \<open>What the pieces do\<close>

lemma set_item_sel [simp]:
  "hp_item (set_item a f h) = (hp_item h)(a := f (hp_item h a))" "hp_mh (set_item a f h) = hp_mh h"
  "hp_mem (set_item a f h) = hp_mem h"
  by (simp_all add: set_item_def)

lemma set_mh_sel [simp]:
  "hp_mh (set_mh p f h) = (hp_mh h)(p := f (hp_mh h p))" "hp_item (set_mh p f h) = hp_item h"
  "hp_mem (set_mh p f h) = hp_mem h"
  by (simp_all add: set_mh_def)

lemma consume_sel [simp]: "hp_item (consume p n h) = hp_item h" "hp_mem (consume p n h) = hp_mem h"
  by (simp_all add: consume_def Let_def)

lemma links_cong:
  "hp_item h' = hp_item h \<Longrightarrow> block_links h' = block_links h \<and> free_links h' = free_links h"
  by (simp add: block_links_def free_links_def)

text \<open>The pieces that work on one ring keep the other, and the rest of every header.\<close>

definition same_blocks :: "heap \<Rightarrow> heap \<Rightarrow> bool" where
  "same_blocks h h' \<longleftrightarrow> hp_mh h' = hp_mh h \<and> hp_mem h' = hp_mem h \<and> block_links h' = block_links h \<and>
     (\<forall>a. it_magic (hp_item h' a) = it_magic (hp_item h a) \<and> it_pool_ptr (hp_item h' a) = it_pool_ptr (hp_item h a))"

lemma free_unlink_links:
  assumes "it_next_free (hp_item h a) \<noteq> a"
  shows "free_links (free_unlink a h) = bypass a (free_links h)" and "same_blocks h (free_unlink a h)"
  using assms by (auto simp: free_unlink_def free_links_def block_links_def bypass_def same_blocks_def fun_eq_iff)

lemma free_insert_links:
  assumes "a \<noteq> mh_free_list (hp_mh h p)" and "a \<noteq> it_next_free (hp_item h (mh_free_list (hp_mh h p)))"
  shows "free_links (free_insert p a h) =
      link_between (mh_free_list (hp_mh h p)) a (it_next_free (hp_item h (mh_free_list (hp_mh h p)))) (free_links h)"
    and "same_blocks h (free_insert p a h)"
  using assms
  by (auto simp: free_insert_def Let_def free_links_def block_links_def link_between_def same_blocks_def fun_eq_iff)

lemma block_insert_links:
  assumes "n \<noteq> a" and "n \<noteq> it_next (hp_item h a)"
  shows "block_links (block_insert p a n h) = link_between a n (it_next (hp_item h a)) (block_links h)"
    and "free_links (block_insert p a n h) = free_links h" and "hp_mh (block_insert p a n h) = hp_mh h"
    and "hp_mem (block_insert p a n h) = hp_mem h"
    and "it_magic (hp_item (block_insert p a n h) b) = (if b = n then RT_MEMHEAP_MAGIC else it_magic (hp_item h b))"
    and "it_pool_ptr (hp_item (block_insert p a n h) b) = (if b = n then p else it_pool_ptr (hp_item h b))"
  using assms by (auto simp: block_insert_def Let_def free_links_def block_links_def link_between_def fun_eq_iff)



section \<open>The two rings\<close>

text \<open>\<open>bs\<close>: the headers of the heap in the order of their addresses, the last one the tailer; \<open>fs\<close>: the
  blocks of the free list. This part of the invariant does not speak of the free blocks as a set: it
  also holds in the middle of an operation.\<close>

definition bsize :: "heap \<Rightarrow> ptr \<Rightarrow> nat" where
  "bsize h a = it_next (hp_item h a) - a - 24"

definition mh_core :: "ptr \<Rightarrow> heap \<Rightarrow> ptr list \<Rightarrow> ptr list \<Rightarrow> bool" where
  "mh_core p h bs fs \<longleftrightarrow> p \<noteq> RT_NULL \<and>
     mh_free_list (hp_mh h p) = free_header p \<and> mh_block_list (hp_mh h p) = mh_start_addr (hp_mh h p) \<and>
     bs \<noteq> [] \<and> hd bs = mh_start_addr (hp_mh h p) \<and> rt_list (block_links h) (hd bs) (tl bs) \<and>
     last bs + 24 = mh_start_addr (hp_mh h p) + unat (mh_pool_size (hp_mh h p)) \<and> last bs + 24 \<le> 2 ^ 32 \<and>
     sorted_wrt (\<lambda>a b. a + 36 \<le> b) bs \<and>
     free_header p \<notin> {hd bs..<last bs + 24} \<and>
     (\<forall>b \<in> set bs. it_pool_ptr (hp_item h b) = p \<and> 4 dvd b \<and>
        (it_magic (hp_item h b) = RT_MEMHEAP_MAGIC \<or> it_magic (hp_item h b) = RT_MEMHEAP_MAGIC OR RT_MEMHEAP_USED)) \<and>
     is_used (last bs) h \<and> rt_list (free_links h) (free_header p) fs"

lemma mh_coreD:
  assumes "mh_core p h bs fs"
  shows "p \<noteq> RT_NULL" and "mh_free_list (hp_mh h p) = free_header p"
    and "mh_block_list (hp_mh h p) = mh_start_addr (hp_mh h p)"
    and "bs \<noteq> []" and "hd bs = mh_start_addr (hp_mh h p)" and "rt_list (block_links h) (hd bs) (tl bs)"
    and "last bs + 24 = mh_start_addr (hp_mh h p) + unat (mh_pool_size (hp_mh h p))" and "last bs + 24 \<le> 2 ^ 32"
    and "sorted_wrt (\<lambda>a b. a + 36 \<le> b) bs" and "free_header p \<notin> {hd bs..<last bs + 24}"
    and "b \<in> set bs \<Longrightarrow> it_pool_ptr (hp_item h b) = p" and "b \<in> set bs \<Longrightarrow> 4 dvd b"
    and "b \<in> set bs \<Longrightarrow>
      it_magic (hp_item h b) = RT_MEMHEAP_MAGIC \<or> it_magic (hp_item h b) = RT_MEMHEAP_MAGIC OR RT_MEMHEAP_USED"
    and "is_used (last bs) h" and "rt_list (free_links h) (free_header p) fs"
  using assms unfolding mh_core_def by blast+

text \<open>A heap whose headers are the same in a given view.\<close>

lemma mh_coreI:
  assumes c: "mh_core p h bs fs"
    and m: "mh_free_list (hp_mh h' p) = mh_free_list (hp_mh h p)" "mh_block_list (hp_mh h' p) = mh_block_list (hp_mh h p)"
      "mh_start_addr (hp_mh h' p) = mh_start_addr (hp_mh h p)" "mh_pool_size (hp_mh h' p) = mh_pool_size (hp_mh h p)"
    and bs: "hd bs' = hd bs" "last bs' = last bs" "bs' \<noteq> []" "sorted_wrt (\<lambda>a b. a + 36 \<le> b) bs'"
    and r: "rt_list (block_links h') (hd bs) (tl bs')" "rt_list (free_links h') (free_header p) fs'"
    and it: "\<And>b. b \<in> set bs' \<Longrightarrow> it_pool_ptr (hp_item h' b) = p \<and> 4 dvd b \<and>
        (it_magic (hp_item h' b) = RT_MEMHEAP_MAGIC \<or> it_magic (hp_item h' b) = RT_MEMHEAP_MAGIC OR RT_MEMHEAP_USED)"
    and u: "is_used (last bs) h'"
  shows "mh_core p h' bs' fs'"
  using c u bs m r it unfolding mh_core_def by metis

lemma core_neighbour:
  assumes "mh_core p h bs fs" and "bs = us @ a # b # vs"
  shows "it_next (hp_item h a) = b" and "it_prev (hp_item h b) = a" and "a + 36 \<le> b" and "bsize h a = b - a - 24"
    and "b < 2 ^ 32" and "unat (memitem_size a h) = bsize h a"
proof -
  note d = mh_coreD [OF assms(1)]
  have e: "hd bs # tl bs @ [hd bs] = us @ a # b # (vs @ [hd bs])" using assms(2) d(4) by (simp add: hd_append)
  show n: "it_next (hp_item h a) = b" and "it_prev (hp_item h b) = a" using ring_neighbour [OF d(6) e] by simp_all
  show ab: "a + 36 \<le> b" using d(9) assms(2) by (simp add: sorted_wrt_append)
  show "bsize h a = b - a - 24" using n by (simp add: bsize_def)
  have "b \<le> last bs" using d(9) assms(2) by (cases vs rule: rev_cases) (auto simp: sorted_wrt_append)
  then show b: "b < 2 ^ 32" using d(8) by simp
  have "of_nat b - of_nat a - (24 :: u32) = of_nat (b - a - 24)" using ab by (simp add: of_nat_diff)
  moreover have "unat (of_nat (b - a - 24) :: u32) = b - a - 24" using b by (intro unat_word_of_nat) simp
  ultimately show "unat (memitem_size a h) = bsize h a" using n by (simp add: memitem_size_def bsize_def)
qed

lemma core_first:
  assumes "mh_core p h bs fs"
  shows "it_prev (hp_item h (hd bs)) = last bs"
proof -
  note d = mh_coreD [OF assms]
  have "lprev (block_links h) (hd bs) = last (hd bs # tl bs)"
    using ring_neighbours(2) [of "block_links h" "hd bs" "tl bs" "[]"] d(6) by simp
  then show ?thesis using d(4) by simp
qed

lemma core_distinct:
  assumes "mh_core p h bs fs"
  shows "distinct bs" and "distinct fs" and "free_header p \<notin> set bs" and "free_header p \<notin> set fs"
proof -
  note d = mh_coreD [OF assms]
  show "distinct bs" using d(4,6) by (cases bs) (auto simp: rt_list_def)
  show "distinct fs" "free_header p \<notin> set fs" using d(15) by (auto simp: rt_list_def)
  have "hd bs \<le> b \<and> b \<le> last bs" if b: "b \<in> set bs" for b
  proof -
    obtain us vs where "bs = us @ b # vs" using split_list [OF b] by blast
    then show ?thesis using d(9) by (cases us; cases vs rule: rev_cases) (auto simp: sorted_wrt_append)
  qed
  then show "free_header p \<notin> set bs" using d(10) by force
qed

text \<open>The blocks fill the pool: their sizes and headers add up.\<close>

lemma core_total:
  assumes "mh_core p h (us @ vs @ [z]) fs"
  shows "hd (vs @ [z]) + (\<Sum>b\<leftarrow>vs. bsize h b + 24) = z"
  using assms
proof (induction vs arbitrary: us)
  case (Cons a vs)
  obtain b ws where w: "vs @ [z] = b # ws" by (cases vs) auto
  note nb = core_neighbour(3,4) [OF Cons.prems, of us a b ws]
  have "hd (vs @ [z]) + (\<Sum>b\<leftarrow>vs. bsize h b + 24) = z" using Cons.IH [of "us @ [a]"] Cons.prems by simp
  then show ?case using nb w by simp
qed simp

lemma core_sum_bound:
  assumes c: "mh_core p h bs fs" and xs: "distinct xs" "set xs \<subseteq> set (butlast bs)"
  shows "(\<Sum>b\<leftarrow>xs. bsize h b) + 24 * length xs + 24 \<le> unat (mh_pool_size (hp_mh h p))"
proof -
  note d = mh_coreD [OF c]
  have bs: "bs = butlast bs @ [last bs]" using d(4) by simp
  have db: "distinct (butlast bs)" using core_distinct(1) [OF c] by (metis distinct_butlast)
  have "(\<Sum>b\<leftarrow>xs. bsize h b) + 24 * length xs = (\<Sum>b\<leftarrow>xs. bsize h b + 24)"
    by (induction xs) simp_all
  also have "\<dots> = (\<Sum>b\<in>set xs. bsize h b + 24)" using xs(1) by (simp add: sum_list_distinct_conv_sum_set)
  also have "\<dots> \<le> (\<Sum>b\<in>set (butlast bs). bsize h b + 24)" by (rule sum_mono2) (use xs(2) in auto)
  also have "\<dots> = (\<Sum>b\<leftarrow>butlast bs. bsize h b + 24)" using db by (simp add: sum_list_distinct_conv_sum_set)
  finally have le: "(\<Sum>b\<leftarrow>xs. bsize h b) + 24 * length xs \<le> (\<Sum>b\<leftarrow>butlast bs. bsize h b + 24)" .
  have "hd bs + (\<Sum>b\<leftarrow>butlast bs. bsize h b + 24) = last bs"
    using core_total [of p h "[]" "butlast bs" "last bs" fs] c bs by simp
  then show ?thesis using le d(5,7) by linarith
qed


section \<open>The invariant\<close>

text \<open>Between two operations the free list holds the free blocks, no two neighbours are free, and the count
  of the available bytes is exact.\<close>

definition mh_rep :: "ptr \<Rightarrow> heap \<Rightarrow> ptr list \<Rightarrow> ptr list \<Rightarrow> bool" where
  "mh_rep p h bs fs \<longleftrightarrow> p \<noteq> RT_NULL \<and>
     mh_free_list (hp_mh h p) = free_header p \<and> mh_block_list (hp_mh h p) = mh_start_addr (hp_mh h p) \<and>
     bs \<noteq> [] \<and> hd bs = mh_start_addr (hp_mh h p) \<and> rt_list (block_links h) (hd bs) (tl bs) \<and>
     last bs + 24 = mh_start_addr (hp_mh h p) + unat (mh_pool_size (hp_mh h p)) \<and> last bs + 24 \<le> 2 ^ 32 \<and>
     sorted_wrt (\<lambda>a b. a + 36 \<le> b) bs \<and>
     free_header p \<notin> {hd bs..<last bs + 24} \<and>
     (\<forall>b \<in> set bs. it_pool_ptr (hp_item h b) = p \<and> 4 dvd b \<and>
        (it_magic (hp_item h b) = RT_MEMHEAP_MAGIC \<or> it_magic (hp_item h b) = RT_MEMHEAP_MAGIC OR RT_MEMHEAP_USED)) \<and>
     is_used (last bs) h \<and>
     rt_list (free_links h) (free_header p) fs \<and> set fs = {b \<in> set bs. \<not> is_used b h} \<and>
     successively (\<lambda>a b. is_used a h \<or> is_used b h) bs \<and>
     unat (mh_available_size (hp_mh h p)) = (\<Sum>b\<leftarrow>fs. bsize h b) \<and>
     mh_pool_size (hp_mh h p) - mh_available_size (hp_mh h p) \<le> mh_max_used_size (hp_mh h p)"

lemma mh_repD:
  assumes "mh_rep p h bs fs"
  shows "p \<noteq> RT_NULL" and "mh_free_list (hp_mh h p) = free_header p"
    and "mh_block_list (hp_mh h p) = mh_start_addr (hp_mh h p)"
    and "bs \<noteq> []" and "hd bs = mh_start_addr (hp_mh h p)" and "rt_list (block_links h) (hd bs) (tl bs)"
    and "last bs + 24 = mh_start_addr (hp_mh h p) + unat (mh_pool_size (hp_mh h p))" and "last bs + 24 \<le> 2 ^ 32"
    and "sorted_wrt (\<lambda>a b. a + 36 \<le> b) bs" and "free_header p \<notin> {hd bs..<last bs + 24}"
    and "b \<in> set bs \<Longrightarrow> it_pool_ptr (hp_item h b) = p" and "b \<in> set bs \<Longrightarrow> 4 dvd b"
    and "b \<in> set bs \<Longrightarrow>
      it_magic (hp_item h b) = RT_MEMHEAP_MAGIC \<or> it_magic (hp_item h b) = RT_MEMHEAP_MAGIC OR RT_MEMHEAP_USED"
    and "is_used (last bs) h" and "rt_list (free_links h) (free_header p) fs"
    and "b \<in> set fs \<longleftrightarrow> b \<in> set bs \<and> \<not> is_used b h"
    and "successively (\<lambda>a b. is_used a h \<or> is_used b h) bs"
    and "unat (mh_available_size (hp_mh h p)) = (\<Sum>b\<leftarrow>fs. bsize h b)"
    and "mh_pool_size (hp_mh h p) - mh_available_size (hp_mh h p) \<le> mh_max_used_size (hp_mh h p)"
  using assms unfolding mh_rep_def by blast+

lemma mh_repI:
  assumes "p \<noteq> RT_NULL" and "mh_free_list (hp_mh h p) = free_header p"
    and "mh_block_list (hp_mh h p) = mh_start_addr (hp_mh h p)"
    and "bs \<noteq> []" and "hd bs = mh_start_addr (hp_mh h p)" and "rt_list (block_links h) (hd bs) (tl bs)"
    and "last bs + 24 = mh_start_addr (hp_mh h p) + unat (mh_pool_size (hp_mh h p))" and "last bs + 24 \<le> 2 ^ 32"
    and "sorted_wrt (\<lambda>a b. a + 36 \<le> b) bs" and "free_header p \<notin> {hd bs..<last bs + 24}"
    and "\<And>b. b \<in> set bs \<Longrightarrow> it_pool_ptr (hp_item h b) = p" and "\<And>b. b \<in> set bs \<Longrightarrow> 4 dvd b"
    and "\<And>b. b \<in> set bs \<Longrightarrow>
      it_magic (hp_item h b) = RT_MEMHEAP_MAGIC \<or> it_magic (hp_item h b) = RT_MEMHEAP_MAGIC OR RT_MEMHEAP_USED"
    and "is_used (last bs) h" and "rt_list (free_links h) (free_header p) fs"
    and "\<And>b. b \<in> set fs \<longleftrightarrow> b \<in> set bs \<and> \<not> is_used b h"
    and "successively (\<lambda>a b. is_used a h \<or> is_used b h) bs"
    and "unat (mh_available_size (hp_mh h p)) = (\<Sum>b\<leftarrow>fs. bsize h b)"
    and "mh_pool_size (hp_mh h p) - mh_available_size (hp_mh h p) \<le> mh_max_used_size (hp_mh h p)"
  shows "mh_rep p h bs fs"
  unfolding mh_rep_def using assms by blast

lemma mh_rep_core:
  "mh_rep p h bs fs \<longleftrightarrow> mh_core p h bs fs \<and> set fs = {b \<in> set bs. \<not> is_used b h} \<and>
     successively (\<lambda>a b. is_used a h \<or> is_used b h) bs \<and>
     unat (mh_available_size (hp_mh h p)) = (\<Sum>b\<leftarrow>fs. bsize h b) \<and>
     mh_pool_size (hp_mh h p) - mh_available_size (hp_mh h p) \<le> mh_max_used_size (hp_mh h p)"
  unfolding mh_rep_def mh_core_def by blast

lemma rep_neighbour:
  assumes "mh_rep p h bs fs" and "bs = us @ a # b # vs"
  shows "it_next (hp_item h a) = b" and "it_prev (hp_item h b) = a" and "a + 36 \<le> b" and "is_used a h \<or> is_used b h"
    and "bsize h a = b - a - 24" and "b < 2 ^ 32" and "unat (memitem_size a h) = bsize h a"
proof -
  have "mh_core p h bs fs" using assms(1) mh_rep_core by blast
  note n = core_neighbour [OF this assms(2)]
  show "it_next (hp_item h a) = b" and "it_prev (hp_item h b) = a" and "a + 36 \<le> b"
    and "bsize h a = b - a - 24" and "b < 2 ^ 32" and "unat (memitem_size a h) = bsize h a" by (rule n)+
  show "is_used a h \<or> is_used b h" using mh_repD(17) [OF assms(1)] assms(2) by (simp add: successively_append_iff)
qed

lemma rep_order:
  assumes "mh_rep p h bs fs" and "b \<in> set bs"
  shows "hd bs \<le> b" and "b \<le> last bs"
proof -
  obtain us vs where "bs = us @ b # vs" using assms(2) by (auto simp: in_set_conv_decomp)
  then show "hd bs \<le> b" "b \<le> last bs"
    using mh_repD(9) [OF assms(1)] by (cases us; cases vs rule: rev_cases; auto simp: sorted_wrt_append)+
qed

lemma rep_distinct:
  assumes "mh_rep p h bs fs"
  shows "distinct bs" and "distinct fs" and "free_header p \<notin> set bs" and "free_header p \<notin> set fs"
  using core_distinct [of p h bs fs] assms unfolding mh_rep_core by blast+

text \<open>A free block has a neighbour behind it, and both neighbours are in use.\<close>

lemma rep_free_split:
  assumes "mh_rep p h bs fs" and "a \<in> set fs"
  obtains us b vs where "bs = us @ a # b # vs" and "\<not> is_used a h" and "is_used b h"
    and "us = [] \<or> is_used (last us) h"
proof -
  note d = mh_repD [OF assms(1)]
  have a: "a \<in> set bs" "\<not> is_used a h" using d(16) assms(2) by simp_all
  obtain us ws where ws: "bs = us @ a # ws" using a(1) by (auto simp: in_set_conv_decomp)
  then obtain b vs where "ws = b # vs" using d(14) a(2) by (cases ws) auto
  then show thesis
    using that [of us b vs] ws a d(17) by (auto simp: successively_append_iff)
qed



section \<open>The search ends\<close>

definition fits :: "u32 \<Rightarrow> heap \<Rightarrow> ptr \<Rightarrow> bool" where
  "fits sz h b \<longleftrightarrow> sz \<le> memitem_size b h"

lemma search_from:
  assumes "rt_list (free_links h) l (gs0 @ gs)" and "n < sz"
  shows "memheap_search l sz h (hd (gs @ [l])) n =
    Some (case find (fits sz h) gs of Some b \<Rightarrow> (b, memitem_size b h)
          | None \<Rightarrow> (l, last (n # map (\<lambda>b. memitem_size b h) gs)))"
  using assms
proof (induction gs arbitrary: gs0 n)
  case Nil
  then show ?case by (simp add: memheap_search.simps)
next
  case (Cons g gs)
  have ne: "g \<noteq> l" using Cons.prems(1) by (auto simp: rt_list_def)
  have e: "l # (gs0 @ g # gs) @ [l] = (l # gs0) @ g # hd (gs @ [l]) # tl (gs @ [l])" by (cases gs) simp_all
  have nx: "it_next_free (hp_item h g) = hd (gs @ [l])" using ring_neighbour(1) [OF Cons.prems(1) e] by simp
  show ?case
  proof (cases "fits sz h g")
    case True
    then have "\<not> memitem_size g h < sz" by (simp add: fits_def leD)
    then show ?thesis
      using True ne Cons.prems(2) memheap_search.simps [of l sz h g n]
        memheap_search.simps [of l sz h g "memitem_size g h"]
      by (simp add: Let_def)
  next
    case False
    then have lt: "memitem_size g h < sz" by (simp add: fits_def)
    then have "memheap_search l sz h g n = memheap_search l sz h (hd (gs @ [l])) (memitem_size g h)"
      using memheap_search.simps [of l sz h g n] ne Cons.prems(2) nx by (simp add: Let_def)
    also have "\<dots> = Some (case find (fits sz h) gs of Some b \<Rightarrow> (b, memitem_size b h)
          | None \<Rightarrow> (l, last (memitem_size g h # map (\<lambda>b. memitem_size b h) gs)))"
      using Cons.IH [of "gs0 @ [g]"] Cons.prems(1) lt by simp
    finally show ?thesis using False by (cases "find (fits sz h) gs") simp_all
  qed
qed

lemma find_none_last: "find (fits sz h) gs = None \<Longrightarrow> gs \<noteq> [] \<Longrightarrow> memitem_size (last gs) h < sz"
  by (metis find_None_iff fits_def last_in_set linorder_not_le)

text \<open>The search returns the first free block of the list that is large enough, and says that there is
  none when there is none.\<close>

lemma search_result:
  assumes r: "mh_rep p h bs fs" and sz: "0 < sz"
  shows "\<exists>a n. memheap_search (mh_free_list (hp_mh h p)) sz h (it_next_free (hp_item h (mh_free_list (hp_mh h p)))) 0 = Some (a, n) \<and>
     (case find (fits sz h) fs of Some b \<Rightarrow> a = b \<and> n = memitem_size b h | None \<Rightarrow> n < sz)"
proof -
  note d = mh_repD [OF r]
  let ?l = "free_header p"
  have e: "?l # fs @ [?l] = [] @ ?l # hd (fs @ [?l]) # tl (fs @ [?l])" by (cases fs) simp_all
  have nx: "it_next_free (hp_item h ?l) = hd (fs @ [?l])" using ring_neighbour(1) [OF d(15) e] by simp
  have s: "memheap_search ?l sz h (hd (fs @ [?l])) 0 =
    Some (case find (fits sz h) fs of Some b \<Rightarrow> (b, memitem_size b h)
          | None \<Rightarrow> (?l, last (0 # map (\<lambda>b. memitem_size b h) fs)))"
    using search_from [of h ?l "[]" fs 0 sz] d(15) sz by simp
  show ?thesis
  proof (cases "find (fits sz h) fs")
    case None
    then have "last (0 # map (\<lambda>b. memitem_size b h) fs) < sz"
      using find_none_last [OF None] sz by (auto simp: last_map)
    then show ?thesis using s None nx d(2) by auto
  qed (use s nx d(2) in auto)
qed



section \<open>The pieces on the rings\<close>

lemma unlink_ring:
  assumes "rt_list (free_links h) l (gs @ a # hs)"
  shows "rt_list (free_links (free_unlink a h)) l (gs @ hs)" and "same_blocks h (free_unlink a h)"
  using free_unlink_links [of h a] ring_not_self [OF assms] bypass_ring [OF assms] by simp_all

lemma insert_ring:
  assumes "mh_free_list (hp_mh h p) = l" and "rt_list (free_links h) l fs" and "n \<notin> set (l # fs)"
  shows "rt_list (free_links (free_insert p n h)) l (n # fs)" and "same_blocks h (free_insert p n h)"
proof -
  have nx: "it_next_free (hp_item h l) = hd (fs @ [l])" using ring_neighbours(1) [of "free_links h" l "[]" fs] assms(2) by simp
  moreover have "n \<noteq> l" "n \<noteq> hd (fs @ [l])" using assms(3) by (cases fs; auto)+
  ultimately show "rt_list (free_links (free_insert p n h)) l (n # fs)" "same_blocks h (free_insert p n h)"
    using free_insert_links [of n h p] link_between_ring [of "free_links h" l "[]" fs n] assms by simp_all
qed

lemma clear_ring:
  assumes "a \<notin> set (l # fs)"
  shows "rt_list (free_links (free_clear a h)) l fs = rt_list (free_links h) l fs" and "same_blocks h (free_clear a h)"
proof -
  show "rt_list (free_links (free_clear a h)) l fs = rt_list (free_links h) l fs"
    by (rule rt_list_cong) (use assms in \<open>auto simp: free_clear_def\<close>)
  show "same_blocks h (free_clear a h)" by (auto simp: same_blocks_def free_clear_def block_links_def fun_eq_iff)
qed

lemma ring_insert_at:
  assumes "rt_list H (hd bs) (tl bs)" and "bs = us @ a # b # vs" and "n \<notin> set bs"
  shows "rt_list (link_between a n b H) (hd bs) (tl (us @ a # n # b # vs))"
proof -
  have l: "hd bs # tl (us @ [a]) = us @ [a]" using assms(2) by (cases us) auto
  then have "rt_list H (hd bs) (tl (us @ [a]) @ (b # vs))" using assms(1,2) by (cases us) auto
  moreover have "n \<notin> set (hd bs # tl (us @ [a]) @ b # vs)" using assms(2,3) by (cases us) auto
  ultimately have "rt_list (link_between (last (us @ [a])) n b H) (hd bs) (tl (us @ [a]) @ n # b # vs)"
    using link_between_ring [of H "hd bs" "tl (us @ [a])" "b # vs" n] l by simp
  then show ?thesis by (cases us) auto
qed

lemma ring_bypass_at:
  assumes "rt_list H (hd bs) (tl bs)" and "bs = us @ n # vs" and "us \<noteq> []"
  shows "rt_list (bypass n H) (hd bs) (tl (us @ vs))"
  using bypass_ring [of H "hd bs" "tl us" n vs] assms by (cases us) auto

lemma same_blocksD:
  assumes "same_blocks h h'"
  shows "hp_mh h' = hp_mh h" and "hp_mem h' = hp_mem h" and "block_links h' = block_links h"
    and "it_magic (hp_item h' a) = it_magic (hp_item h a)" and "it_pool_ptr (hp_item h' a) = it_pool_ptr (hp_item h a)"
    and "it_next (hp_item h' a) = it_next (hp_item h a)" and "it_prev (hp_item h' a) = it_prev (hp_item h a)"
    and "is_used a h' = is_used a h" and "bsize h' a = bsize h a"
proof -
  show s: "hp_mh h' = hp_mh h" "hp_mem h' = hp_mem h" "block_links h' = block_links h"
    "it_magic (hp_item h' a) = it_magic (hp_item h a)" "it_pool_ptr (hp_item h' a) = it_pool_ptr (hp_item h a)"
    using assms by (simp_all add: same_blocks_def)
  show "it_next (hp_item h' a) = it_next (hp_item h a)" and "it_prev (hp_item h' a) = it_prev (hp_item h a)"
    using s(3) links_sel(1,2) by metis+
  then show "is_used a h' = is_used a h" and "bsize h' a = bsize h a" using s(4) by (simp_all add: is_used_def bsize_def)
qed

lemma same_blocks_trans: "same_blocks h h1 \<Longrightarrow> same_blocks h1 h2 \<Longrightarrow> same_blocks h h2"
  by (simp add: same_blocks_def)

lemma consume_mh:
  "hp_mh (consume p n h) q = (if q = p then (hp_mh h p)\<lparr>mh_available_size := mh_available_size (hp_mh h p) - n,
      mh_max_used_size := max (mh_max_used_size (hp_mh h p)) (mh_pool_size (hp_mh h p) - (mh_available_size (hp_mh h p) - n))\<rparr>
    else hp_mh h q)"
  by (auto simp: consume_def Let_def max_def not_less [symmetric] leD)

lemma consume_links [simp]:
  "block_links (consume p n h) = block_links h" "free_links (consume p n h) = free_links h"
  "is_used a (consume p n h) = is_used a h" "bsize (consume p n h) a = bsize h a"
  using links_cong [of "consume p n h" h] by (simp_all add: is_used_def bsize_def)

lemma magic_used [simp]: "(w OR 1) AND 1 \<noteq> (0 :: u32)"
proof -
  have "(w OR 1) AND 1 = (1 :: u32)" by (rule bit_word_eqI) (auto simp: bit_simps)
  then show ?thesis by simp
qed

lemma mark_used_links [simp]:
  "block_links (mark_used a h) = block_links h" "free_links (mark_used a h) = free_links h"
  "is_used b (mark_used a h) \<longleftrightarrow> b = a \<or> is_used b h" "bsize (mark_used a h) b = bsize h b"
  "hp_mh (mark_used a h) = hp_mh h" "hp_mem (mark_used a h) = hp_mem h"
  "it_pool_ptr (hp_item (mark_used a h) b) = it_pool_ptr (hp_item h b)"
  by (auto simp: mark_used_def block_links_def free_links_def is_used_def bsize_def fun_eq_iff)



section \<open>Allocating\<close>

lemma magic_free [simp]: "(x :: u32) = RT_MEMHEAP_MAGIC \<Longrightarrow> x AND RT_MEMHEAP_USED = 0"
  by simp

lemma sum_split: "(\<Sum>b\<leftarrow>gs @ a # hs. f b) = f a + (\<Sum>b\<leftarrow>gs @ hs. f b)" for f :: "ptr \<Rightarrow> nat"
  by simp

lemma sum_cong_list: "(\<And>b. b \<in> set gs \<Longrightarrow> f b = g b) \<Longrightarrow> (\<Sum>b\<leftarrow>gs. f b) = (\<Sum>b\<leftarrow>gs. g b)" for f :: "ptr \<Rightarrow> nat"
  by (metis map_eq_conv)

lemma rep_avail:
  assumes "mh_rep p h bs fs" and "a \<in> set fs"
  shows "bsize h a \<le> unat (mh_available_size (hp_mh h p))"
proof -
  obtain gs hs where "fs = gs @ a # hs" using assms(2) by (auto simp: in_set_conv_decomp)
  then show ?thesis using mh_repD(18) [OF assms(1)] by simp
qed

text \<open>The whole block is handed out.\<close>

lemma alloc_whole:
  assumes r: "mh_rep p h bs fs" and fs: "fs = gs @ a # hs" and n: "unat n = bsize h a"
  defines "h' \<equiv> mark_used a (free_clear a (free_unlink a (consume p n h)))"
  shows "mh_rep p h' bs (gs @ hs)" and "hp_mem h' = hp_mem h" and "is_used x h' \<longleftrightarrow> x = a \<or> is_used x h"
    and "bsize h' x = bsize h x"
proof -
  note d = mh_repD [OF r]
  let ?h1 = "consume p n h" and ?l = "free_header p"
  have u: "rt_list (free_links (free_unlink a ?h1)) ?l (gs @ hs)" "same_blocks ?h1 (free_unlink a ?h1)"
    using unlink_ring [of ?h1 ?l gs a hs] d(15) fs by simp_all
  have na: "a \<notin> set (?l # gs @ hs)" using d(15) fs by (auto simp: rt_list_def)
  note sb = same_blocksD [OF same_blocks_trans [OF u(2) clear_ring(2) [OF na]]]
  have ring: "rt_list (free_links h') ?l (gs @ hs)"
    unfolding h'_def using u(1) clear_ring(1) [OF na] by simp
  show mem: "hp_mem h' = hp_mem h" unfolding h'_def using sb(2) by simp
  show us: "is_used x h' \<longleftrightarrow> x = a \<or> is_used x h" for x unfolding h'_def using sb(8) by simp
  show bz: "bsize h' x = bsize h x" for x unfolding h'_def using sb(9) by simp
  have bl: "block_links h' = block_links h" unfolding h'_def using sb(3) by simp
  have mh: "hp_mh h' = hp_mh ?h1" unfolding h'_def using sb(1) by simp
  have mg: "it_magic (hp_item h' b) = (if b = a then it_magic (hp_item h a) OR 1 else it_magic (hp_item h b))" for b
    unfolding h'_def using sb(4) by (simp add: mark_used_def)
  have pp: "it_pool_ptr (hp_item h' b) = it_pool_ptr (hp_item h b)" for b unfolding h'_def using sb(5) by simp
  have le: "n \<le> mh_available_size (hp_mh h p)"
    using rep_avail [OF r, of a] fs n by (simp add: word_le_nat_alt)
  show "mh_rep p h' bs (gs @ hs)"
  proof (rule mh_repI)
    show "it_magic (hp_item h' b) = RT_MEMHEAP_MAGIC \<or> it_magic (hp_item h' b) = RT_MEMHEAP_MAGIC OR RT_MEMHEAP_USED"
      if "b \<in> set bs" for b
      unfolding mg using d(13) [OF that] by (cases "b = a") auto
    show "b \<in> set (gs @ hs) \<longleftrightarrow> b \<in> set bs \<and> \<not> is_used b h'" for b
      unfolding us using d(16) [of b] fs na by auto
    show "successively (\<lambda>a b. is_used a h' \<or> is_used b h') bs"
      by (rule successively_mono [OF d(17)]) (auto simp: us)
    have "unat (mh_available_size (hp_mh h p) - n) = (\<Sum>b\<leftarrow>gs @ hs. bsize h b)"
      using d(18) le n unat_sub [OF le] fs by simp
    then show "unat (mh_available_size (hp_mh h' p)) = (\<Sum>b\<leftarrow>gs @ hs. bsize h' b)"
      unfolding bz mh by (simp add: consume_mh)
  qed (use d(1-12,14) ring in \<open>auto simp: mh consume_mh bl us pp\<close>)
qed

text \<open>The block is split and its front part handed out.\<close>

lemma alloc_split:
  assumes r: "mh_rep p h bs fs" and fs: "fs = gs @ a # hs" and bs: "bs = us @ a # b # vs"
    and sz: "12 \<le> unat sz" "4 dvd unat sz" "unat sz + 36 \<le> bsize h a"
  defines "n \<equiv> a + unat sz + 24"
  defines "h' \<equiv> mark_used a (consume p (sz + RT_MEMHEAP_SIZE) (free_insert p n (free_clear a (free_unlink a
                 (block_insert p a n h)))))"
  shows "mh_rep p h' (us @ a # n # b # vs) (n # gs @ hs)" and "hp_mem h' = hp_mem h"
    and "is_used x h' \<longleftrightarrow> x = a \<or> x \<noteq> n \<and> is_used x h"
    and "bsize h' x = (if x = a then unat sz else if x = n then bsize h a - unat sz - 24 else bsize h x)"
proof -
  note d = mh_repD [OF r] and nb = rep_neighbour [OF r bs] and ds = rep_distinct [OF r]
  let ?l = "free_header p" and ?h1 = "block_insert p a n h"
  have nab: "a + 36 \<le> n" "n + 36 \<le> b" using sz nb(3,5) by (auto simp: n_def)
  have nn: "n \<notin> set bs" using d(9) nab by (auto simp: bs sorted_wrt_append)
  have "hd bs \<le> a" "b \<le> last bs" using rep_order [OF r] bs by simp_all
  then have nl: "n \<noteq> ?l" using d(10) nab by auto
  have nf: "n \<notin> set (?l # gs @ hs)" using nn nl d(16) fs by auto
  have na: "a \<notin> set (?l # gs @ hs)" using d(15) fs by (auto simp: rt_list_def)
  note bi = block_insert_links [of n a h p, unfolded nb(1)]
  have u: "rt_list (free_links (free_unlink a ?h1)) ?l (gs @ hs)" "same_blocks ?h1 (free_unlink a ?h1)"
    using unlink_ring [of ?h1 ?l gs a hs] d(15) fs bi(2) nab by simp_all
  let ?h3 = "free_clear a (free_unlink a ?h1)"
  note sb3 = same_blocks_trans [OF u(2) clear_ring(2) [OF na]]
  have "mh_free_list (hp_mh ?h3 p) = ?l" using same_blocksD(1) [OF sb3] bi(3) d(2) nab by simp
  then have ins: "rt_list (free_links (free_insert p n ?h3)) ?l (n # gs @ hs)" "same_blocks ?h3 (free_insert p n ?h3)"
    using insert_ring [of ?h3 p ?l "gs @ hs" n] u(1) clear_ring(1) [OF na] nf by simp_all
  note sb = same_blocksD [OF same_blocks_trans [OF sb3 ins(2)]]
  have us1: "is_used x ?h1 \<longleftrightarrow> x \<noteq> n \<and> is_used x h" for x
    using bi(5) [of x] nab by (simp add: is_used_def)
  show us': "is_used x h' \<longleftrightarrow> x = a \<or> x \<noteq> n \<and> is_used x h" for x
    unfolding h'_def using sb(8) us1 by simp
  have bl: "block_links h' = link_between a n b (block_links h)"
    unfolding h'_def using sb(3) bi(1) nab by simp
  have nx: "it_next (hp_item h' x) = (if x = a then n else if x = n then b else it_next (hp_item h x))" for x
    using arg_cong [OF bl, of "\<lambda>k. lnext k x"] nab by (simp add: link_between_def)
  show bz: "bsize h' x = (if x = a then unat sz else if x = n then bsize h a - unat sz - 24 else bsize h x)" for x
    using nb(5) by (simp add: bsize_def nx n_def)
  have mh: "hp_mh h' = hp_mh (consume p (sz + RT_MEMHEAP_SIZE) h)"
    unfolding h'_def using sb(1) bi(3) nab by (simp add: fun_eq_iff consume_mh)
  have mg: "it_magic (hp_item h' x) =
      (if x = a then it_magic (hp_item h a) OR 1 else if x = n then RT_MEMHEAP_MAGIC else it_magic (hp_item h x))" for x
    unfolding h'_def using sb(4) bi(5) nab by (simp add: mark_used_def)
  have pp: "it_pool_ptr (hp_item h' x) = (if x = n then p else it_pool_ptr (hp_item h x))" for x
    unfolding h'_def using sb(5) bi(6) nab by simp
  show "hp_mem h' = hp_mem h" unfolding h'_def using sb(2) bi(4) nab by simp
  have af: "a \<in> set fs" "\<not> is_used a h" using fs d(16) [of a] by auto
  have av: "unat sz + 24 \<le> unat (mh_available_size (hp_mh h p))" using rep_avail [OF r af(1)] sz(3) by simp
  have s24: "unat (sz + 24) = unat sz + 24"
    using le_less_trans [OF av unsigned_less] by (simp add: unat_word_ariths)
  have avail: "unat (mh_available_size (hp_mh h p) - (sz + 24)) = unat (mh_available_size (hp_mh h p)) - (unat sz + 24)"
    using av s24 by (simp add: unat_sub word_le_nat_alt)
  show "mh_rep p h' (us @ a # n # b # vs) (n # gs @ hs)"
  proof (rule mh_repI)
    have hd: "hd (us @ a # n # b # vs) = hd bs" using bs by (cases us) auto
    show "rt_list (block_links h') (hd (us @ a # n # b # vs)) (tl (us @ a # n # b # vs))"
      unfolding bl hd by (rule ring_insert_at [OF d(6) bs nn])
    show "sorted_wrt (\<lambda>a b. a + 36 \<le> b) (us @ a # n # b # vs)"
      using d(9) nab by (auto simp: bs sorted_wrt_append)
    show "it_magic (hp_item h' x) = RT_MEMHEAP_MAGIC \<or> it_magic (hp_item h' x) = RT_MEMHEAP_MAGIC OR RT_MEMHEAP_USED"
      if "x \<in> set (us @ a # n # b # vs)" for x
      unfolding mg using d(13) [of x] d(13) [of a] that bs by auto
    show "4 dvd x" if "x \<in> set (us @ a # n # b # vs)" for x
      using d(12) [of x] d(12) [of a] that bs sz(2) by (auto simp: n_def)
    show "x \<in> set (n # gs @ hs) \<longleftrightarrow> x \<in> set (us @ a # n # b # vs) \<and> \<not> is_used x h'" for x
      unfolding us' using d(16) [of x] fs bs na nab nn by auto
    have ub: "is_used b h" using nb(4) af(2) by simp
    have old: "successively (\<lambda>x y. is_used x h \<or> is_used y h) us" "successively (\<lambda>x y. is_used x h \<or> is_used y h) (b # vs)"
      using d(17) by (simp_all add: bs successively_append_iff)
    have "successively (\<lambda>x y. is_used x h' \<or> is_used y h') us"
      "successively (\<lambda>x y. is_used x h' \<or> is_used y h') (b # vs)"
      by (rule successively_mono [OF old(1)], use nn in \<open>auto simp: us' bs\<close>)
        (rule successively_mono [OF old(2)], use nn in \<open>auto simp: us' bs\<close>)
    then show "successively (\<lambda>x y. is_used x h' \<or> is_used y h') (us @ a # n # b # vs)"
      using ub nab nn by (auto simp: successively_append_iff us')
    have "(\<Sum>x\<leftarrow>gs @ hs. bsize h' x) = (\<Sum>x\<leftarrow>gs @ hs. bsize h x)"
      by (rule sum_cong_list) (use nf na in \<open>auto simp: bz\<close>)
    then show "unat (mh_available_size (hp_mh h' p)) = (\<Sum>x\<leftarrow>n # gs @ hs. bsize h' x)"
      unfolding mh using avail d(18) sz(3) nab by (simp add: consume_mh bz fs)
    show "is_used (last (us @ a # n # b # vs)) h'" using d(14) nn bs by (auto simp: us')
    show "it_pool_ptr (hp_item h' x) = p" if "x \<in> set (us @ a # n # b # vs)" for x
      unfolding pp using d(11) [of x] that bs by auto
    show "hd (us @ a # n # b # vs) = mh_start_addr (hp_mh h' p)" using hd d(5) by (simp add: mh consume_mh)
    show "free_header p \<notin> {hd (us @ a # n # b # vs)..<last (us @ a # n # b # vs) + 24}"
      using d(10) hd bs by simp
    show "last (us @ a # n # b # vs) + 24 = mh_start_addr (hp_mh h' p) + unat (mh_pool_size (hp_mh h' p))"
      "last (us @ a # n # b # vs) + 24 \<le> 2 ^ 32"
      using d(7,8) bs by (simp_all add: mh consume_mh)
    show "rt_list (free_links h') ?l (n # gs @ hs)" unfolding h'_def using ins(1) by simp
  qed (use d(1-3) in \<open>auto simp: mh consume_mh\<close>)
qed



text \<open>What the clients of a heap see: the addresses handed out and not given back, and how many bytes each
  has.\<close>

definition mh_wf :: "ptr \<Rightarrow> heap \<Rightarrow> bool" where
  "mh_wf p h \<longleftrightarrow> (\<exists>bs fs. mh_rep p h bs fs)"

definition mh_held :: "ptr \<Rightarrow> heap \<Rightarrow> ptr set" where
  "mh_held p h = {b + 24 | b. \<exists>bs fs. mh_rep p h bs fs \<and> b \<in> set (butlast bs) \<and> is_used b h}"

definition room :: "heap \<Rightarrow> ptr \<Rightarrow> nat" where
  "room h x = bsize h (x - 24)"

lemma rep_unique:
  assumes "mh_rep p h bs fs" and "mh_rep p h bs' fs'"
  shows "bs' = bs" and "fs' = fs"
proof -
  note d = mh_repD [OF assms(1)] and e = mh_repD [OF assms(2)]
  have "tl bs' = tl bs" using rt_list_unique [OF d(6)] e(5,6) d(5) by simp
  then show "bs' = bs" using d(4,5) e(4,5) by (metis list.collapse)
  show "fs' = fs" using rt_list_unique [OF d(15) e(15)] by simp
qed

lemma held_rep:
  assumes "mh_rep p h bs fs"
  shows "x \<in> mh_held p h \<longleftrightarrow> 24 \<le> x \<and> x - 24 \<in> set (butlast bs) \<and> is_used (x - 24) h"
proof -
  have "x \<in> mh_held p h \<longleftrightarrow> (\<exists>b. x = b + 24 \<and> b \<in> set (butlast bs) \<and> is_used b h)"
    unfolding mh_held_def using rep_unique [OF assms] assms by blast
  then show ?thesis by (auto intro!: exI [of _ "x - 24"])
qed

lemma fits_bsize:
  assumes "mh_rep p h bs fs" and "a \<in> set fs"
  shows "fits sz h a \<longleftrightarrow> unat sz \<le> bsize h a" and "bsize h a + 48 \<le> 2 ^ 32" and "unat (memitem_size a h) = bsize h a"
proof -
  obtain us b vs where bs: "bs = us @ a # b # vs" by (rule rep_free_split [OF assms])
  note nb = rep_neighbour [OF assms(1) bs]
  show "unat (memitem_size a h) = bsize h a" by (rule nb(7))
  then show "fits sz h a \<longleftrightarrow> unat sz \<le> bsize h a" by (simp add: fits_def word_le_nat_alt)
  have "b \<le> last bs" using rep_order(2) [OF assms(1)] bs by simp
  then show "bsize h a + 48 \<le> 2 ^ 32" using nb(3,5) mh_repD(8) [OF assms(1)] by simp
qed

lemma alloc_total:
  assumes r: "mh_rep p h bs fs" and sz: "12 \<le> unat sz" "4 dvd unat sz"
  shows "case find (fits sz h) fs of
      None \<Rightarrow> memheap_alloc p sz h = Some (RT_NULL, h)
    | Some a \<Rightarrow> \<exists>h' bs' fs'. memheap_alloc p sz h = Some (a + 24, h') \<and> mh_rep p h' bs' fs' \<and> hp_mem h' = hp_mem h \<and>
        a \<in> set fs \<and> unat sz \<le> bsize h' a \<and> set bs \<subseteq> set bs' \<and> last bs' = last bs \<and>
        (\<forall>x \<in> set bs'. is_used x h' \<longleftrightarrow> x = a \<or> x \<in> set bs \<and> is_used x h) \<and>
        (\<forall>x \<in> set bs. x \<noteq> a \<longrightarrow> bsize h' x = bsize h x)"
proof -
  have s0: "0 < sz" using sz(1) by (simp add: word_less_nat_alt)
  obtain a n where s: "memheap_search (mh_free_list (hp_mh h p)) sz h
      (it_next_free (hp_item h (mh_free_list (hp_mh h p)))) 0 = Some (a, n)"
    and an: "case find (fits sz h) fs of Some b \<Rightarrow> a = b \<and> n = memitem_size b h | None \<Rightarrow> n < sz"
    using search_result [OF r s0] by blast
  show ?thesis
  proof (cases "find (fits sz h) fs")
    case None
    then show ?thesis using s an by (simp add: memheap_alloc_def Let_def leD)
  next
    case (Some c)
    then have "c \<in> set fs" "fits sz h c" by (auto simp: find_Some_iff)
    with an Some have c: "c \<in> set fs" "fits sz h c" "a = c" "n = memitem_size c h" by simp_all
    obtain gs hs where fs: "fs = gs @ a # hs" using c(1,3) by (auto simp: in_set_conv_decomp)
    note ft = fits_bsize [OF r c(1)]
    have le: "sz \<le> n" "unat n = bsize h a" using c ft(3) by (simp_all add: fits_def)
    have ov: "unat (sz + RT_MEMHEAP_SIZE + RT_MEMHEAP_MINIALLOC) = unat sz + 36"
      using ft(1,2) c(2) by (simp add: unat_word_ariths)
    show ?thesis
    proof (cases "sz + RT_MEMHEAP_SIZE + RT_MEMHEAP_MINIALLOC \<le> n")
      case True
      then have big: "unat sz + 36 \<le> bsize h a" using ov le(2) by (simp only: word_le_nat_alt)
      obtain us b vs where bs: "bs = us @ a # b # vs" using rep_free_split [OF r, of a] c(1,3) by metis
      note sp = alloc_split [OF r fs bs sz big]
      have na: "a + unat sz + 24 \<notin> set bs"
        using mh_repD(9) [OF r] big rep_neighbour(3,5) [OF r bs] by (auto simp: bs sorted_wrt_append)
      then show ?thesis
        using True s le(1) Some c(1,3) sp bs by (auto simp: memheap_alloc_def Let_def)
    next
      case False
      note wh = alloc_whole [OF r fs le(2)]
      have ab: "a \<in> set bs" using c(1,3) mh_repD(16) [OF r] by blast
      show ?thesis
        using False s le Some c(1,3) wh ab by (auto simp: memheap_alloc_def Let_def word_le_nat_alt)
    qed
  qed
qed





section \<open>Freeing\<close>

text \<open>The steps of \<open>rt_memheap_free\<close> on the two rings. \<open>same_counts\<close>: of the heap object only the counts have
  changed.\<close>

definition same_counts :: "ptr \<Rightarrow> heap \<Rightarrow> heap \<Rightarrow> bool" where
  "same_counts p h h' \<longleftrightarrow> (\<forall>q. q \<noteq> p \<longrightarrow> hp_mh h' q = hp_mh h q) \<and>
     mh_free_list (hp_mh h' p) = mh_free_list (hp_mh h p) \<and> mh_block_list (hp_mh h' p) = mh_block_list (hp_mh h p) \<and>
     mh_start_addr (hp_mh h' p) = mh_start_addr (hp_mh h p) \<and> mh_pool_size (hp_mh h' p) = mh_pool_size (hp_mh h p)"

lemma same_counts_trans: "same_counts p h h1 \<Longrightarrow> same_counts p h1 h2 \<Longrightarrow> same_counts p h h2"
  by (simp add: same_counts_def)

lemma same_countsI: "hp_mh h' = hp_mh h \<Longrightarrow> same_counts p h h'"
  by (simp add: same_counts_def)

lemma core_same:
  assumes "mh_core p h bs fs" and "same_counts p h h'" and "block_links h' = block_links h"
    and "free_links h' = free_links h" and "\<And>b. it_magic (hp_item h' b) = it_magic (hp_item h b)"
    and "\<And>b. it_pool_ptr (hp_item h' b) = it_pool_ptr (hp_item h b)"
  shows "mh_core p h' bs fs"
  by (rule mh_coreI [OF assms(1)])
    (use mh_coreD [OF assms(1)] assms(2-6) in \<open>auto simp: same_counts_def is_used_def\<close>)

lemma block_unlink_links:
  assumes "it_next (hp_item h a) \<noteq> a" and "it_prev (hp_item h a) \<noteq> a"
  shows "block_links (block_unlink a h) = bypass a (block_links h)" and "free_links (block_unlink a h) = free_links h"
    and "hp_mh (block_unlink a h) = hp_mh h" and "hp_mem (block_unlink a h) = hp_mem h"
    and "it_magic (hp_item (block_unlink a h) b) = it_magic (hp_item h b)"
    and "it_pool_ptr (hp_item (block_unlink a h) b) = it_pool_ptr (hp_item h b)"
  using assms by (auto simp: block_unlink_def Let_def free_links_def block_links_def bypass_def fun_eq_iff)

lemma core_bypass:
  assumes c: "mh_core p h bs fs" and bs: "bs = us @ a # n # b # vs"
    and h': "hp_mh h' = hp_mh h" "block_links h' = bypass n (block_links h)" "free_links h' = free_links h"
      "\<And>x. it_magic (hp_item h' x) = it_magic (hp_item h x)" "\<And>x. it_pool_ptr (hp_item h' x) = it_pool_ptr (hp_item h x)"
  shows "mh_core p h' (us @ a # b # vs) fs" and "bsize h' x = (if x = a then bsize h a + 24 + bsize h n else bsize h x)"
proof -
  note d = mh_coreD [OF c] and n1 = core_neighbour [OF c, of us a n "b # vs"]
    and n2 = core_neighbour [OF c, of "us @ [a]" n b vs]
  have hd: "hd (us @ a # b # vs) = hd bs" "last (us @ a # b # vs) = last bs" using bs by (cases us; simp)+
  have "rt_list (bypass n (block_links h)) (hd bs) (tl ((us @ [a]) @ b # vs))"
    by (rule ring_bypass_at [OF d(6)]) (simp_all add: bs)
  then show "mh_core p h' (us @ a # b # vs) fs"
    using hd d(9,11-15) bs h' by (intro mh_coreI [OF c]) (auto simp: sorted_wrt_append is_used_def)
  have "it_next (hp_item h' x) = (if x = a then b else it_next (hp_item h x))"
    using arg_cong [OF h'(2), of "\<lambda>k. lnext k x"] n1(2) n2(1) bs by (simp add: bypass_def)
  then show "bsize h' x = (if x = a then bsize h a + 24 + bsize h n else bsize h x)"
    using n1(3,4) n2(3,4) bs by (simp add: bsize_def)
qed

text \<open>A block is joined with the block of the free list behind it.\<close>

lemma merge_core:
  assumes c: "mh_core p h bs (gs @ n # hs)" and bs: "bs = us @ a # n # b # vs"
  shows "mh_core p (block_merge a h) (us @ a # b # vs) (gs @ hs)"
    and "bsize (block_merge a h) x = (if x = a then bsize h a + 24 + bsize h n else bsize h x)"
    and "is_used x (block_merge a h) = is_used x h" and "hp_mem (block_merge a h) = hp_mem h"
    and "hp_mh (block_merge a h) = hp_mh h"
proof -
  note n1 = core_neighbour [OF c, of us a n "b # vs"] and n2 = core_neighbour [OF c, of "us @ [a]" n b vs]
  let ?h3 = "set_item a (\<lambda>i. i\<lparr>it_next := it_next (hp_item h n)\<rparr>) (set_item b (\<lambda>i. i\<lparr>it_prev := a\<rparr>) h)"
  have nx: "it_next (hp_item h a) = n" "it_next (hp_item h n) = b" "it_prev (hp_item h n) = a" using n1 n2 bs by simp_all
  have ne: "a < n" "n < b" using n1(3) n2(3) bs by simp_all
  have e: "block_merge a h = free_unlink n ?h3"
    using nx ne by (simp add: block_merge_def Let_def)
  have b3: "block_links ?h3 = bypass n (block_links h)" "free_links ?h3 = free_links h" "hp_mh ?h3 = hp_mh h"
    "it_magic (hp_item ?h3 x) = it_magic (hp_item h x)" "it_pool_ptr (hp_item ?h3 x) = it_pool_ptr (hp_item h x)" for x
    using nx ne by (auto simp: block_links_def free_links_def bypass_def fun_eq_iff)
  note c3 = core_bypass [OF c bs b3(3,1,2,4,5)]
  note u = unlink_ring [OF mh_coreD(15) [OF c3(1)]]
  note sb = same_blocksD [OF u(2)]
  have c4: "mh_core p (free_unlink n ?h3) (us @ a # b # vs) (gs @ hs)"
    by (rule mh_coreI [OF c3(1)]) (use mh_coreD [OF c3(1)] u(1) sb in auto)
  have h1: "is_used y ?h3 = is_used y h" for y by (simp add: is_used_def)
  show "mh_core p (block_merge a h) (us @ a # b # vs) (gs @ hs)" unfolding e by (rule c4)
  show "bsize (block_merge a h) x = (if x = a then bsize h a + 24 + bsize h n else bsize h x)"
    unfolding e sb(9) using c3(2) [of x] by simp
  show "is_used x (block_merge a h) = is_used x h" unfolding e sb(8) using h1 by simp
  show "hp_mem (block_merge a h) = hp_mem h" unfolding e sb(2) by simp
  show "hp_mh (block_merge a h) = hp_mh h" unfolding e sb(1) by simp
qed

lemma merge_next_core:
  assumes c: "mh_core p h bs (gs @ n # hs)" and bs: "bs = us @ a # n # b # vs" and f: "\<not> is_used n h"
  shows "mh_core p (memheap_merge_next p a h) (us @ a # b # vs) (gs @ hs)"
    and "bsize (memheap_merge_next p a h) x = (if x = a then bsize h a + 24 + bsize h n else bsize h x)"
    and "is_used x (memheap_merge_next p a h) = is_used x h" and "hp_mem (memheap_merge_next p a h) = hp_mem h"
    and "same_counts p h (memheap_merge_next p a h)"
    and "mh_available_size (hp_mh (memheap_merge_next p a h) p) = mh_available_size (hp_mh h p) + 24"
    and "mh_max_used_size (hp_mh (memheap_merge_next p a h) p) = mh_max_used_size (hp_mh h p)"
proof -
  let ?h1 = "set_mh p (\<lambda>m. m\<lparr>mh_available_size := mh_available_size m + RT_MEMHEAP_SIZE\<rparr>) h"
  have e: "memheap_merge_next p a h = block_merge a ?h1"
    using core_neighbour(1) [OF c bs] f by (simp add: memheap_merge_next_def)
  have c1: "mh_core p ?h1 bs (gs @ n # hs)"
    by (rule core_same [OF c]) (simp_all add: same_counts_def block_links_def free_links_def)
  note m = merge_core [OF c1 bs]
  show "mh_core p (memheap_merge_next p a h) (us @ a # b # vs) (gs @ hs)" unfolding e by (rule m(1))
  show "bsize (memheap_merge_next p a h) x = (if x = a then bsize h a + 24 + bsize h n else bsize h x)"
    unfolding e m(2) by (simp add: bsize_def)
  show "is_used x (memheap_merge_next p a h) = is_used x h" unfolding e m(3) by (simp add: is_used_def)
  show "hp_mem (memheap_merge_next p a h) = hp_mem h" "same_counts p h (memheap_merge_next p a h)"
    "mh_available_size (hp_mh (memheap_merge_next p a h) p) = mh_available_size (hp_mh h p) + 24"
    "mh_max_used_size (hp_mh (memheap_merge_next p a h) p) = mh_max_used_size (hp_mh h p)"
    unfolding e using m(4,5) by (simp_all add: same_counts_def)
qed

lemma core_insert:
  assumes c: "mh_core p h bs fs" and n: "n \<in> set bs" "n \<notin> set fs"
  shows "mh_core p (free_insert p n h) bs (n # fs)" and "same_blocks h (free_insert p n h)"
proof -
  have "n \<noteq> free_header p" using n(1) core_distinct(3) [OF c] by blast
  then have i: "rt_list (free_links (free_insert p n h)) (free_header p) (n # fs)" "same_blocks h (free_insert p n h)"
    using insert_ring [of h p "free_header p" fs n] mh_coreD(2,15) [OF c] n(2) by simp_all
  note sb = same_blocksD [OF i(2)]
  show "mh_core p (free_insert p n h) bs (n # fs)"
    by (rule mh_coreI [OF c]) (use mh_coreD [OF c] i(1) sb in auto)
  show "same_blocks h (free_insert p n h)" by (rule i(2))
qed

text \<open>The invariant between two operations from the rings, when bytes have become available.\<close>

lemma unat_add_le: "unat v + unat w \<le> unat u \<Longrightarrow> unat (v + w) = unat v + unat w" for u v w :: u32
  by (frule le_less_trans [OF _ unsigned_less]) (simp add: unat_word_ariths)

lemma set_butlast_core:
  assumes "mh_core p h bs fs" and "x \<in> set bs" and "\<not> is_used x h"
  shows "x \<in> set (butlast bs)"
proof -
  have "set bs = set (butlast bs @ [last bs])" using mh_coreD(4) [OF assms(1)] by simp
  then show ?thesis using assms(2,3) mh_coreD(14) [OF assms(1)] by auto
qed

lemma rep_finish:
  assumes r: "mh_rep p h bs fs" and c: "mh_core p h' bs' fs'"
    and f: "\<And>x. x \<in> set fs' \<longleftrightarrow> x \<in> set bs' \<and> \<not> is_used x h'"
    and s: "successively (\<lambda>x y. is_used x h' \<or> is_used y h') bs'" and sc: "same_counts p h h'"
    and av: "mh_available_size (hp_mh h' p) = mh_available_size (hp_mh h p) + k"
      "(\<Sum>x\<leftarrow>fs'. bsize h' x) = (\<Sum>x\<leftarrow>fs. bsize h x) + unat k"
    and mx: "mh_max_used_size (hp_mh h' p) = mh_max_used_size (hp_mh h p)"
  shows "mh_rep p h' bs' fs'"
proof -
  note d = mh_repD [OF r] and pool = sc [unfolded same_counts_def, THEN conjunct2, THEN conjunct2, THEN conjunct2, THEN conjunct2]
  have sub: "set fs' \<subseteq> set (butlast bs')" using f set_butlast_core [OF c] by blast
  have le: "(\<Sum>x\<leftarrow>fs'. bsize h' x) \<le> unat (mh_pool_size (hp_mh h p))"
    using core_sum_bound [OF c core_distinct(2) [OF c] sub] pool by simp
  then have un: "unat (mh_available_size (hp_mh h' p)) = (\<Sum>x\<leftarrow>fs'. bsize h' x)"
    using av d(18) unat_add_le [of "mh_available_size (hp_mh h p)" k "mh_pool_size (hp_mh h p)"] by simp
  have "mh_available_size (hp_mh h p) \<le> mh_available_size (hp_mh h' p)"
    "mh_available_size (hp_mh h' p) \<le> mh_pool_size (hp_mh h p)"
    using un le av(2) d(18) by (simp_all add: word_le_nat_alt)
  then have "mh_pool_size (hp_mh h p) - mh_available_size (hp_mh h' p) \<le> mh_pool_size (hp_mh h p) - mh_available_size (hp_mh h p)"
    by (simp add: word_le_nat_alt unat_sub)
  then have "mh_pool_size (hp_mh h' p) - mh_available_size (hp_mh h' p) \<le> mh_max_used_size (hp_mh h' p)"
    using d(19) mx pool by simp
  then show ?thesis using c f s un unfolding mh_rep_core by blast
qed

lemma magic_cases:
  "(RT_MEMHEAP_MAGIC OR RT_MEMHEAP_USED) AND NOT RT_MEMHEAP_USED = (RT_MEMHEAP_MAGIC :: u32)"
  "RT_MEMHEAP_MAGIC AND NOT RT_MEMHEAP_USED = (RT_MEMHEAP_MAGIC :: u32)"
  by (rule bit_word_eqI; auto simp: bit_simps; fail)+

text \<open>The first steps of \<open>rt_memheap_free\<close>: the block is marked free and counted.\<close>

definition unmark :: "ptr \<Rightarrow> ptr \<Rightarrow> heap \<Rightarrow> heap" where
  "unmark p a h =
     (let h = set_item a (\<lambda>i. i\<lparr>it_magic := it_magic i AND NOT RT_MEMHEAP_USED\<rparr>) h
      in set_mh p (\<lambda>m. m\<lparr>mh_available_size := mh_available_size m + memitem_size a h\<rparr>) h)"

lemma unmark_core:
  assumes c: "mh_core p h bs fs" and bs: "bs = us @ a # b # vs"
  shows "mh_core p (unmark p a h) bs fs" and "is_used x (unmark p a h) \<longleftrightarrow> x \<noteq> a \<and> is_used x h"
    and "bsize (unmark p a h) x = bsize h x" and "hp_mem (unmark p a h) = hp_mem h" and "same_counts p h (unmark p a h)"
    and "mh_available_size (hp_mh (unmark p a h) p) = mh_available_size (hp_mh h p) + memitem_size a h"
    and "mh_max_used_size (hp_mh (unmark p a h) p) = mh_max_used_size (hp_mh h p)"
    and "block_links (unmark p a h) = block_links h"
proof -
  note d = mh_coreD [OF c]
  have m: "it_magic (hp_item (unmark p a h) x) = (if x = a then RT_MEMHEAP_MAGIC else it_magic (hp_item h x))" for x
    using d(13) [of a] bs magic_cases by (auto simp: unmark_def Let_def)
  show us: "is_used x (unmark p a h) \<longleftrightarrow> x \<noteq> a \<and> is_used x h" for x using m [of x] by (simp add: is_used_def)
  show bl: "block_links (unmark p a h) = block_links h"
    by (auto simp: unmark_def Let_def block_links_def fun_eq_iff)
  have fl: "free_links (unmark p a h) = free_links h" by (auto simp: unmark_def Let_def free_links_def fun_eq_iff)
  have al: "a \<noteq> last bs" using core_distinct(1) [OF c] bs by (cases vs rule: rev_cases) auto
  show sc: "same_counts p h (unmark p a h)" by (simp add: unmark_def Let_def same_counts_def)
  have pp: "it_pool_ptr (hp_item (unmark p a h) x) = it_pool_ptr (hp_item h x)" for x
    by (simp add: unmark_def Let_def)
  show "mh_core p (unmark p a h) bs fs"
    by (rule mh_coreI [OF c]) (use d sc al in \<open>auto simp: same_counts_def bl fl m pp us\<close>)
  show "bsize (unmark p a h) x = bsize h x" "hp_mem (unmark p a h) = hp_mem h"
    "mh_available_size (hp_mh (unmark p a h) p) = mh_available_size (hp_mh h p) + memitem_size a h"
    "mh_max_used_size (hp_mh (unmark p a h) p) = mh_max_used_size (hp_mh h p)"
    by (simp_all add: unmark_def Let_def bsize_def memitem_size_def)
qed


lemma free_unfold:
  assumes "mh_rep p h bs fs" and "a \<in> set bs"
  shows "memheap_free (a + 24) h =
    (if \<not> is_used (it_prev (hp_item h a)) (unmark p a h)
     then memheap_merge_next p (it_prev (hp_item h a))
            (block_unlink a (set_mh p (\<lambda>m. m\<lparr>mh_available_size := mh_available_size m + 24\<rparr>) (unmark p a h)))
     else free_insert p a (memheap_merge_next p a (unmark p a h)))"
proof -
  have "it_pool_ptr (hp_item h a) = p" using mh_repD(11) [OF assms] .
  moreover have "it_prev (hp_item (unmark p a h) a) = it_prev (hp_item h a)"
    by (simp add: unmark_def Let_def)
  moreover have "it_prev (hp_item (block_unlink a h') a) = it_prev (hp_item h' a)" for h'
    by (simp add: block_unlink_def Let_def)
  ultimately show ?thesis
    by (simp add: memheap_free_def unmark_def Let_def del: set_mh_sel) (simp add: block_unlink_def Let_def)
qed

lemma covered_at:
  assumes "successively (\<lambda>x y. U x \<or> U y) us" and "successively (\<lambda>x y. U x \<or> U y) (b # vs)"
    and "us = [] \<or> U (last us)" and "U b" and "\<And>x. x \<in> set us \<union> set (b # vs) \<Longrightarrow> V x = U x"
  shows "successively (\<lambda>x y. V x \<or> V y) (us @ a # b # vs)"
proof -
  have "successively (\<lambda>x y. V x \<or> V y) us" by (rule successively_mono [OF assms(1)]) (use assms(5) in auto)
  moreover have "successively (\<lambda>x y. V x \<or> V y) (b # vs)" by (rule successively_mono [OF assms(2)]) (use assms(5) in auto)
  moreover have "V b" "us = [] \<or> V (last us)" using assms(3-5) by (auto, cases us rule: rev_cases) auto
  ultimately show ?thesis by (auto simp: successively_append_iff)
qed

text \<open>How a heap looks after the block \<open>a\<close> was given back.\<close>

definition gave_back :: "ptr \<Rightarrow> ptr list \<Rightarrow> ptr \<Rightarrow> heap \<Rightarrow> heap \<Rightarrow> bool" where
  "gave_back p bs a h h' \<longleftrightarrow> (\<exists>bs' fs'. mh_rep p h' bs' fs' \<and> last bs' = last bs \<and> set bs' \<subseteq> set bs \<and>
     (\<forall>x \<in> set bs. is_used x h \<longrightarrow> x \<noteq> a \<longrightarrow> x \<in> set bs' \<and> bsize h' x = bsize h x)) \<and>
     (\<forall>x. is_used x h' \<longleftrightarrow> x \<noteq> a \<and> is_used x h) \<and> hp_mem h' = hp_mem h \<and> same_counts p h h'"

lemma free_no_left:
  assumes r: "mh_rep p h bs fs" and bs: "bs = us @ a # b # vs" and u: "is_used a h" and left: "us = [] \<or> is_used (last us) h"
  shows "gave_back p bs a h (memheap_free (a + 24) h)"
proof -
  note d = mh_repD [OF r]
  have c: "mh_core p h bs fs" using r mh_rep_core by blast
  note k = unmark_core [OF c bs] and dis = core_distinct [OF c]
  let ?h = "unmark p a h"
  have nf: "a \<notin> set fs" using u d(16) by blast
  have ne: "a \<noteq> b" "a \<notin> set us" "a \<notin> set vs" "b \<notin> set us" using dis(1) bs by auto
  have "it_prev (hp_item h a) = (if us = [] then last bs else last us)"
    using core_neighbour(2) [OF c, of "butlast us" "last us" a "b # vs"] core_first [OF c] bs by (cases us rule: rev_cases) auto
  then have "is_used (it_prev (hp_item h a)) ?h"
    using left d(14) k(2) ne bs dis(1) by (cases us rule: rev_cases; cases vs rule: rev_cases) auto
  then have e: "memheap_free (a + 24) h = free_insert p a (memheap_merge_next p a ?h)"
    using free_unfold [OF r, of a] bs by simp
  have old: "successively (\<lambda>x y. is_used x h \<or> is_used y h) us" "successively (\<lambda>x y. is_used x h \<or> is_used y h) (b # vs)"
    using d(17) bs by (simp_all add: successively_append_iff)
  show ?thesis
  proof (cases "is_used b h")
    case True
    have "it_next (hp_item ?h a) = b" using core_neighbour(1) [OF k(1) bs] .
    then have m: "memheap_merge_next p a ?h = ?h" using True k(2) ne by (simp add: memheap_merge_next_def)
    have i: "mh_core p (free_insert p a ?h) bs (a # fs)" "same_blocks ?h (free_insert p a ?h)"
      using core_insert [OF k(1), of a] nf bs by simp_all
    note sb = same_blocksD [OF i(2)]
    have "mh_rep p (free_insert p a ?h) bs (a # fs)"
    proof (rule rep_finish [OF r i(1), of "memitem_size a h"])
      show "x \<in> set (a # fs) \<longleftrightarrow> x \<in> set bs \<and> \<not> is_used x (free_insert p a ?h)" for x
        using d(16) [of x] k(2) [of x] sb(8) bs by auto
      show "successively (\<lambda>x y. is_used x (free_insert p a ?h) \<or> is_used y (free_insert p a ?h)) bs"
        unfolding bs sb(8) by (rule covered_at [OF old left True]) (use k(2) ne in auto)
      show "(\<Sum>x\<leftarrow>a # fs. bsize (free_insert p a ?h) x) = (\<Sum>x\<leftarrow>fs. bsize h x) + unat (memitem_size a h)"
        using core_neighbour(6) [OF c bs] by (simp add: sb(9) k(3))
    qed (use k sb in \<open>simp_all add: same_counts_def\<close>)
    then show ?thesis
      unfolding gave_back_def e m using k(2-5) sb by (intro conjI exI [of _ bs] exI [of _ "a # fs"]) (auto simp: same_counts_def)
  next
    case False
    then obtain vs' c' where vs: "vs = c' # vs'" using d(14) bs by (cases vs) auto
    have bf: "b \<in> set fs" using False d(16) bs by auto
    then obtain gs hs where fs: "fs = gs @ b # hs" using split_list by metis
    have cu: "is_used c' h" using old(2) vs False by simp
    have fb: "\<not> is_used b ?h" using k(2) False by simp
    note m = merge_next_core [OF k(1) [unfolded fs] bs [unfolded vs] fb]
    let ?m = "memheap_merge_next p a ?h"
    have nf': "a \<notin> set (gs @ hs)" using nf fs by auto
    have i: "mh_core p (free_insert p a ?m) (us @ a # c' # vs') (a # gs @ hs)" "same_blocks ?m (free_insert p a ?m)"
      using core_insert [OF m(1), of a] nf' by simp_all
    note sb = same_blocksD [OF i(2)]
    have us': "is_used x (free_insert p a ?m) \<longleftrightarrow> x \<noteq> a \<and> is_used x h" for x using sb(8) m(3) k(2) by simp
    have bz: "bsize (free_insert p a ?m) x = (if x = a then bsize h a + 24 + bsize h b else bsize h x)" for x
      using sb(9) m(2) k(3) by simp
    have sc: "same_counts p h (free_insert p a ?m)"
      using same_counts_trans [OF same_counts_trans [OF k(5) m(5)] same_countsI [OF sb(1)]] .
    have b32: "b - a < 2 ^ 32" using core_neighbour(5) [OF c bs] by simp
    then have k24: "unat (memitem_size a h + 24) = bsize h a + 24"
      using core_neighbour(3,4,6) [OF c bs] by (simp add: unat_word_ariths)
    have "mh_rep p (free_insert p a ?m) (us @ a # c' # vs') (a # gs @ hs)"
    proof (rule rep_finish [OF r i(1), of "memitem_size a h + 24"])
      show "x \<in> set (a # gs @ hs) \<longleftrightarrow> x \<in> set (us @ a # c' # vs') \<and> \<not> is_used x (free_insert p a ?m)" for x
        using d(16) [of x] us' [of x] fs bs vs dis ne by auto
      show "successively (\<lambda>x y. is_used x (free_insert p a ?m) \<or> is_used y (free_insert p a ?m)) (us @ a # c' # vs')"
        by (rule covered_at [OF old(1) _ left cu]) (use old(2) us' ne vs dis(1) bs in auto)
      have "(\<Sum>x\<leftarrow>gs @ hs. bsize (free_insert p a ?m) x) = (\<Sum>x\<leftarrow>gs @ hs. bsize h x)"
        by (rule sum_cong_list) (use nf' bz in auto)
      then show "(\<Sum>x\<leftarrow>a # gs @ hs. bsize (free_insert p a ?m) x) = (\<Sum>x\<leftarrow>fs. bsize h x) + unat (memitem_size a h + 24)"
        using k24 fs by (simp add: bz)
    qed (use k(6,7) m(6,7) sb(1) sc in simp_all)
    then show ?thesis
      unfolding gave_back_def e using us' sc sb(2) m(4) k(4) bz bs vs False ne
      by (intro conjI exI [of _ "us @ a # c' # vs'"] exI [of _ "a # gs @ hs"]) auto
  qed
qed


lemma free_left:
  assumes r: "mh_rep p h bs fs" and bs: "bs = us @ q # a # b # vs" and u: "is_used a h" and left: "\<not> is_used q h"
  shows "gave_back p bs a h (memheap_free (a + 24) h)"
proof -
  note d = mh_repD [OF r]
  have c: "mh_core p h bs fs" using r mh_rep_core by blast
  have bs': "bs = (us @ [q]) @ a # b # vs" using bs by simp
  note k = unmark_core [OF c bs'] and dis = core_distinct [OF c]
  let ?h1 = "set_mh p (\<lambda>m. m\<lparr>mh_available_size := mh_available_size m + 24\<rparr>) (unmark p a h)"
  let ?h = "block_unlink a ?h1"
  have ne: "a \<noteq> b" "a \<noteq> q" "a \<notin> set us" "a \<notin> set vs" "b \<notin> set us" "q \<noteq> b" "q \<notin> set us" "q \<notin> set vs"
    using dis(1) bs by auto
  have pv: "it_prev (hp_item h a) = q" using core_neighbour(2) [OF c bs] .
  have e: "memheap_free (a + 24) h = memheap_merge_next p q ?h"
    using free_unfold [OF r, of a] bs pv k(2) ne left by simp
  have c1: "mh_core p ?h1 bs fs"
    by (rule core_same [OF k(1)]) (simp_all add: same_counts_def block_links_def free_links_def)
  have nx: "it_next (hp_item ?h1 a) \<noteq> a" "it_prev (hp_item ?h1 a) \<noteq> a"
    using core_neighbour(1,3) [OF c1 bs'] core_neighbour(2,3) [OF c1 bs] by simp_all
  note bu = block_unlink_links [OF nx]
  note b1 = core_bypass [OF c1 bs bu(3,1,2,5,6)]
  have z1: "bsize ?h1 x = bsize h x" "is_used x ?h = (x \<noteq> a \<and> is_used x h)" for x
    using k(2,3) bu(5) by (simp_all add: bsize_def is_used_def)
  have zq: "bsize ?h x = (if x = q then bsize h q + 24 + bsize h a else bsize h x)" for x
    using b1(2) [of x] z1(1) by simp
  have sc: "same_counts p h ?h" using k(5) bu(3) by (simp add: same_counts_def)
  have av: "mh_available_size (hp_mh ?h p) = mh_available_size (hp_mh h p) + (memitem_size a h + 24)"
    "mh_max_used_size (hp_mh ?h p) = mh_max_used_size (hp_mh h p)"
    using bu(3) k(6,7) by (simp_all add: add.assoc)
  have old: "successively (\<lambda>x y. is_used x h \<or> is_used y h) us" "successively (\<lambda>x y. is_used x h \<or> is_used y h) (b # vs)"
    "us = [] \<or> is_used (last us) h"
    using d(17) bs left by (auto simp: successively_append_iff)
  have qf: "q \<in> set fs" "a \<notin> set fs" using left u d(16) bs by auto
  have b32: "b - a < 2 ^ 32" "b + 24 \<le> 2 ^ 32" "24 \<le> a"
    using core_neighbour(3,5) [OF c bs'] core_neighbour(3) [OF c bs] d(8) rep_order(2) [OF r, of b] bs by simp_all
  have k24: "unat (memitem_size a h + 24) = bsize h a + 24" "unat (memitem_size a h + 24 + 24) = bsize h a + 48"
    using core_neighbour(3,4,6) [OF c bs'] b32 by (simp_all add: unat_word_ariths)
  show ?thesis
  proof (cases "is_used b h")
    case True
    have "it_next (hp_item ?h q) = b" using core_neighbour(1) [OF b1(1)] by blast
    then have m: "memheap_merge_next p q ?h = ?h" using True z1(2) ne by (simp add: memheap_merge_next_def)
    have "mh_rep p ?h (us @ q # b # vs) fs"
    proof (rule rep_finish [OF r b1(1), of "memitem_size a h + 24"])
      show "x \<in> set fs \<longleftrightarrow> x \<in> set (us @ q # b # vs) \<and> \<not> is_used x ?h" for x
        using d(16) [of x] z1(2) [of x] bs u ne by auto
      show "successively (\<lambda>x y. is_used x ?h \<or> is_used y ?h) (us @ q # b # vs)"
        by (rule covered_at [OF old True]) (use z1(2) ne in auto)
      obtain gs hs where fs: "fs = gs @ q # hs" using split_list [OF qf(1)] by blast
      have "(\<Sum>x\<leftarrow>gs @ hs. bsize ?h x) = (\<Sum>x\<leftarrow>gs @ hs. bsize h x)"
        by (rule sum_cong_list) (use dis(2) fs zq in auto)
      then show "(\<Sum>x\<leftarrow>fs. bsize ?h x) = (\<Sum>x\<leftarrow>fs. bsize h x) + unat (memitem_size a h + 24)"
        using k24(1) fs by (simp add: zq)
    qed (use av sc in simp_all)
    then show ?thesis
      unfolding gave_back_def e m using z1(2) sc bu(4) k(4) zq bs left
      by (intro conjI exI [of _ "us @ q # b # vs"] exI [of _ fs]) auto
  next
    case False
    then obtain vs' c' where vs: "vs = c' # vs'" using d(14) bs by (cases vs) auto
    have bf: "b \<in> set fs" using False d(16) bs by auto
    then obtain gs hs where fs: "fs = gs @ b # hs" using split_list by metis
    have cu: "is_used c' h" using old(2) vs False by simp
    have fb: "\<not> is_used b ?h" using z1(2) False by simp
    note m = merge_next_core [OF b1(1) [unfolded vs fs] refl fb]
    let ?m = "memheap_merge_next p q ?h"
    have us': "is_used x ?m \<longleftrightarrow> x \<noteq> a \<and> is_used x h" for x using m(3) z1(2) by simp
    have bz: "bsize ?m x = (if x = q then bsize h q + 24 + bsize h a + 24 + bsize h b else bsize h x)" for x
      using m(2) zq ne by simp
    have sc': "same_counts p h ?m" using same_counts_trans [OF sc m(5)] .
    have "mh_rep p ?m (us @ q # c' # vs') (gs @ hs)"
    proof (rule rep_finish [OF r m(1), of "memitem_size a h + 24 + 24"])
      show "x \<in> set (gs @ hs) \<longleftrightarrow> x \<in> set (us @ q # c' # vs') \<and> \<not> is_used x ?m" for x
        using d(16) [of x] us' [of x] fs bs vs dis u ne by auto
      show "successively (\<lambda>x y. is_used x ?m \<or> is_used y ?m) (us @ q # c' # vs')"
        by (rule covered_at [OF old(1) _ old(3) cu]) (use old(2) us' ne vs dis(1) bs in auto)
      have "q \<in> set (gs @ hs)" using qf(1) fs ne by auto
      then obtain xs ys where xs: "gs @ hs = xs @ q # ys" using split_list by metis
      have dx: "q \<notin> set (xs @ ys)" using core_distinct(2) [OF m(1)] unfolding xs by simp
      have "(\<Sum>x\<leftarrow>xs @ ys. bsize ?m x) = (\<Sum>x\<leftarrow>xs @ ys. bsize h x)"
        by (rule sum_cong_list) (use dx bz in auto)
      then have "(\<Sum>x\<leftarrow>gs @ hs. bsize ?m x) = (\<Sum>x\<leftarrow>gs @ hs. bsize h x) + (bsize h a + 48 + bsize h b)"
        unfolding xs sum_split using bz [of q] by simp
      then show "(\<Sum>x\<leftarrow>gs @ hs. bsize ?m x) = (\<Sum>x\<leftarrow>fs. bsize h x) + unat (memitem_size a h + 24 + 24)"
        unfolding fs sum_split k24(2) by simp
    qed (use av m(6,7) sc' in simp_all)
    then show ?thesis
      unfolding gave_back_def e using us' sc' m(4) bu(4) k(4) bz bs vs False left
      by (intro conjI exI [of _ "us @ q # c' # vs'"] exI [of _ "gs @ hs"]) auto
  qed
qed


lemma held_iff:
  assumes "mh_rep p h bs fs"
  shows "x \<in> mh_held p h \<longleftrightarrow> 24 \<le> x \<and> x - 24 \<in> set bs \<and> x - 24 \<noteq> last bs \<and> is_used (x - 24) h"
proof -
  have "bs = butlast bs @ [last bs]" "distinct bs" using mh_repD(4) [OF assms] rep_distinct(1) [OF assms] by simp_all
  then have "y \<in> set (butlast bs) \<longleftrightarrow> y \<in> set bs \<and> y \<noteq> last bs" for y
    by (metis Un_iff distinct_append disjoint_iff empty_iff insert_iff list.set set_append)
  then show ?thesis using held_rep [OF assms] by blast
qed

lemma rep_held_split:
  assumes r: "mh_rep p h bs fs" and x: "x \<in> mh_held p h"
  obtains us b vs where "x = x - 24 + 24" and "bs = us @ (x - 24) # b # vs" and "is_used (x - 24) h"
proof -
  have h: "24 \<le> x" "x - 24 \<in> set (butlast bs)" "is_used (x - 24) h" using x held_rep [OF r] by simp_all
  then obtain us ws where "butlast bs = us @ (x - 24) # ws" using split_list by metis
  then have "bs = us @ (x - 24) # ws @ [last bs]" using mh_repD(4) [OF r] by (metis append.assoc append_Cons append_butlast_last_id)
  then show thesis using that [of us "hd (ws @ [last bs])" "tl (ws @ [last bs])"] h by (cases ws) auto
qed

lemma free_gives_back:
  assumes r: "mh_rep p h bs fs" and x: "x \<in> mh_held p h"
  shows "memheap_free_check x h = Some ()" and "gave_back p bs (x - 24) h (memheap_free x h)"
proof -
  obtain us b vs where s: "x = x - 24 + 24" "bs = us @ (x - 24) # b # vs" "is_used (x - 24) h"
    using rep_held_split [OF r x] by metis
  note d = mh_repD [OF r] and nb = rep_neighbour(1) [OF r s(2)]
  have m: "w AND RT_MEMHEAP_MASK = RT_MEMHEAP_MAGIC"
    if "w = RT_MEMHEAP_MAGIC \<or> w = RT_MEMHEAP_MAGIC OR RT_MEMHEAP_USED" for w :: u32 using that by auto
  show "memheap_free_check x h = Some ()"
    using m [OF d(13) [of "x - 24"]] m [OF d(13) [of b]] d(1,11) s nb by (simp add: memheap_free_check_def Let_def rt_assert_def)
  have "gave_back p bs (x - 24) h (memheap_free (x - 24 + 24) h)"
  proof (cases "us = [] \<or> is_used (last us) h")
    case True
    then show ?thesis by (rule free_no_left [OF r s(2,3)])
  next
    case False
    then have "bs = butlast us @ last us # (x - 24) # b # vs" using s(2) by simp
    then show ?thesis using free_left [OF r _ s(3)] False by blast
  qed
  then show "gave_back p bs (x - 24) h (memheap_free x h)" using s(1) by simp
qed

text \<open>The memory of two blocks handed out does not overlap, and there is a header between them.\<close>

lemma held_apart:
  assumes r: "mh_rep p h bs fs" and x: "x \<in> mh_held p h" and y: "y \<in> mh_held p h" and "x < y"
  shows "x + room h x + 24 \<le> y"
proof -
  obtain us b vs where s: "x = x - 24 + 24" "bs = us @ (x - 24) # b # vs" using rep_held_split [OF r x] by metis
  note nb = rep_neighbour [OF r s(2)]
  have "24 \<le> y" "y - 24 \<in> set bs" using y held_rep [OF r] in_set_butlastD by fastforce+
  moreover have "c + 36 \<le> x - 24" if "c \<in> set us" for c using mh_repD(9) [OF r] s(2) that by (simp add: sorted_wrt_append)
  moreover have "b \<le> c" if "c \<in> set (b # vs)" for c
    using mh_repD(9) [OF r] s(2) that by (auto simp: sorted_wrt_append)
  ultimately have "b \<le> y - 24" using s assms(4) by fastforce
  then show ?thesis using nb(3,5) s(1) \<open>24 \<le> y\<close> by (simp add: room_def)
qed

lemma held_aligned:
  assumes "mh_rep p h bs fs" and "x \<in> mh_held p h"
  shows "4 dvd x" and "x \<noteq> RT_NULL"
proof -
  have x: "24 \<le> x" "x - 24 \<in> set bs" using assms(2) held_rep [OF assms(1)] in_set_butlastD by fastforce+
  then have "4 dvd (x - 24) + 24" using mh_repD(12) [OF assms(1) x(2)] by (intro dvd_add) simp_all
  then show "4 dvd x" "x \<noteq> RT_NULL" using x(1) by auto
qed



section \<open>What a heap promises\<close>

definition apart :: "heap \<Rightarrow> ptr \<Rightarrow> ptr \<Rightarrow> bool" where
  "apart h x y \<longleftrightarrow> x + room h x + 24 \<le> y \<or> y + room h y + 24 \<le> x"

lemma memheap_alloc_ok:
  assumes wf: "mh_wf p h" and sz: "12 \<le> unat sz" "4 dvd unat sz"
  shows "\<exists>x h'. memheap_alloc p sz h = Some (x, h') \<and> mh_wf p h' \<and> hp_mem h' = hp_mem h \<and>
     (if x = RT_NULL then h' = h \<and> (\<forall>bs fs. mh_rep p h bs fs \<longrightarrow> (\<forall>a \<in> set fs. bsize h a < unat sz))
      else x \<notin> mh_held p h \<and> mh_held p h' = insert x (mh_held p h) \<and> unat sz \<le> room h' x \<and> 4 dvd x \<and>
        (\<forall>y \<in> mh_held p h. room h' y = room h y \<and> apart h' x y))"
proof -
  obtain bs fs where r: "mh_rep p h bs fs" using wf by (auto simp: mh_wf_def)
  note t = alloc_total [OF r sz]
  show ?thesis
  proof (cases "find (fits sz h) fs")
    case None
    then have "bsize h a < unat sz" if "a \<in> set fs" for a
      using that fits_bsize(1) [OF r that, of sz] by (auto simp: find_None_iff)
    then show ?thesis using t None wf rep_unique(2) [OF r] by auto
  next
    case (Some a)
    then obtain h' bs' fs' where h': "memheap_alloc p sz h = Some (a + 24, h')" "mh_rep p h' bs' fs'" "hp_mem h' = hp_mem h"
      "a \<in> set fs" "unat sz \<le> bsize h' a" "set bs \<subseteq> set bs'" "last bs' = last bs"
      "\<forall>x \<in> set bs'. is_used x h' \<longleftrightarrow> x = a \<or> x \<in> set bs \<and> is_used x h"
      "\<forall>x \<in> set bs. x \<noteq> a \<longrightarrow> bsize h' x = bsize h x"
      using t by auto
    have a: "a \<in> set bs" "\<not> is_used a h" using mh_repD(16) [OF r] h'(4) by simp_all
    have al: "a \<noteq> last bs" using a(2) mh_repD(14) [OF r] by auto
    note held = held_iff [OF r] and held' = held_iff [OF h'(2), unfolded h'(7)]
    have new: "x \<in> mh_held p h' \<longleftrightarrow> x = a + 24 \<or> x \<in> mh_held p h" for x
      using held [of x] held' [of x] h'(6,8) a(1) al by auto
    have same: "room h' y = room h y" if "y \<in> mh_held p h" for y
      using held [of y] that h'(9) a(2) by (auto simp: room_def)
    have nh: "a + 24 \<notin> mh_held p h" using held [of "a + 24"] a(2) by simp
    have ap: "apart h' (a + 24) y" if "y \<in> mh_held p h" for y
    proof (cases "a + 24 < y")
      case True
      then show ?thesis using held_apart [OF h'(2), of "a + 24" y] new that by (simp add: apart_def)
    next
      case False
      then have "y < a + 24" using nh that by (cases "y = a + 24") auto
      then show ?thesis using held_apart [OF h'(2), of y "a + 24"] new that by (simp add: apart_def)
    qed
    have "mh_held p h' = insert (a + 24) (mh_held p h)" using new by blast
    moreover have "mh_wf p h'" using h'(2) by (auto simp: mh_wf_def)
    moreover have "4 dvd a + 24" using held_aligned(1) [OF h'(2)] new by blast
    ultimately show ?thesis using h'(1,3,5) nh same ap by (intro exI [of _ "a + 24"] exI [of _ h']) (simp add: room_def)
  qed
qed

lemma memheap_free_ok:
  assumes wf: "mh_wf p h" and x: "x \<in> mh_held p h"
  shows "memheap_free_check x h = Some () \<and> mh_wf p (memheap_free x h) \<and> hp_mem (memheap_free x h) = hp_mem h \<and>
     mh_held p (memheap_free x h) = mh_held p h - {x} \<and>
     (\<forall>y \<in> mh_held p h - {x}. room (memheap_free x h) y = room h y)"
proof -
  obtain bs fs where r: "mh_rep p h bs fs" using wf by (auto simp: mh_wf_def)
  let ?h = "memheap_free x h"
  obtain bs' fs' where g: "mh_rep p ?h bs' fs'" "last bs' = last bs" "set bs' \<subseteq> set bs"
    "\<forall>y \<in> set bs. is_used y h \<longrightarrow> y \<noteq> x - 24 \<longrightarrow> y \<in> set bs' \<and> bsize ?h y = bsize h y"
    "\<forall>y. is_used y ?h \<longleftrightarrow> y \<noteq> x - 24 \<and> is_used y h" "hp_mem ?h = hp_mem h"
    using free_gives_back(2) [OF r x] unfolding gave_back_def by blast
  note held = held_iff [OF r] and held' = held_iff [OF g(1), unfolded g(2)]
  have "24 \<le> x" using held x by blast
  then have new: "y \<in> mh_held p ?h \<longleftrightarrow> y \<in> mh_held p h \<and> y \<noteq> x" for y
    using held [of y] held' [of y] g(3-5) by (auto simp: eq_diff_iff)
  then have "mh_held p ?h = mh_held p h - {x}" by blast
  moreover have "room ?h y = room h y" if "y \<in> mh_held p h - {x}" for y
    using that held [of y] g(4) \<open>24 \<le> x\<close> by (auto simp: room_def eq_diff_iff)
  ultimately show ?thesis
    using free_gives_back(1) [OF r x] g(1,6) by (auto simp: mh_wf_def)
qed


text \<open>An allocation and a release as a client sees them: a request is rounded up, \<open>RT_NULL\<close> is a refusal, an
  assertion that fails is a fault.\<close>

definition mh_try_alloc :: "ptr \<Rightarrow> u32 \<Rightarrow> heap \<Rightarrow> (ptr \<times> heap) option" where
  "mh_try_alloc p sz h =
     (let sz = memheap_request sz in
      if sz < mh_available_size (hp_mh h p)
      then (case memheap_alloc p sz h of
              None \<Rightarrow> None
            | Some (x, h) \<Rightarrow> if x = RT_NULL then None else Some (x, h))
      else None)"

definition mh_try_free :: "ptr \<Rightarrow> heap \<Rightarrow> heap option" where
  "mh_try_free x h = do { _ \<leftarrow> memheap_free_check x h; Some (memheap_free x h) }"

text \<open>A request that cannot be rounded up wraps to the smallest size.\<close>

lemma request_ok: "12 \<le> unat (memheap_request sz) \<and> 4 dvd unat (memheap_request sz)"
proof -
  have "unat (RT_ALIGN sz 4) = unat (sz + 3) div 4 * 4" by (simp add: RT_ALIGN_def unat_and_minus_4 add.commute)
  then show ?thesis by (auto simp: memheap_request_def Let_def word_less_nat_alt)
qed

lemma request_covers: "unat sz + 3 < 2 ^ 32 \<Longrightarrow> unat sz \<le> unat (memheap_request sz)"
  using unat_RT_ALIGN [of sz] by (auto simp: memheap_request_def Let_def word_less_nat_alt)

interpretation mha: allocator "mh_wf p" "mh_held p" "mh_try_alloc p" mh_try_free for p
proof
  fix h h' r x
  assume wf: "mh_wf p h"
  show "mh_wf p h' \<and> x \<notin> mh_held p h \<and> mh_held p h' = insert x (mh_held p h)" if "mh_try_alloc p r h = Some (x, h')"
    using that memheap_alloc_ok [OF wf request_ok [THEN conjunct1] request_ok [THEN conjunct2], of r]
    by (auto simp: mh_try_alloc_def Let_def split: if_splits option.splits)
  show "\<exists>h'. mh_try_free x h = Some h' \<and> mh_wf p h' \<and> mh_held p h' = mh_held p h - {x}" if "x \<in> mh_held p h"
    using memheap_free_ok [OF wf that] by (simp add: mh_try_free_def)
qed

text \<open>When everything was given back, the heap is one free block again.\<close>

lemma successively_all_free:
  "successively (\<lambda>x y. U x \<or> U y) xs \<Longrightarrow> (\<And>x. x \<in> set (butlast xs) \<Longrightarrow> \<not> U x) \<Longrightarrow> length xs \<le> 2"
proof (rule ccontr)
  assume s: "successively (\<lambda>x y. U x \<or> U y) xs" "\<And>x. x \<in> set (butlast xs) \<Longrightarrow> \<not> U x" "\<not> length xs \<le> 2"
  then obtain a b c ys where "xs = a # b # c # ys"
    by (cases xs; cases "tl xs"; cases "tl (tl xs)") auto
  then show False using s(1) s(2) [of a] s(2) [of b] by simp
qed

lemma rep_nothing_held:
  assumes r: "mh_rep p h bs fs" and e: "mh_held p h = {}"
  shows "bs = [mh_start_addr (hp_mh h p), last bs] \<and> fs = [mh_start_addr (hp_mh h p)] \<or>
    bs = [mh_start_addr (hp_mh h p)] \<and> fs = []"
proof -
  note d = mh_repD [OF r]
  have free: "\<not> is_used b h" if "b \<in> set (butlast bs)" for b
    using e held_rep [OF r, of "b + 24"] that by auto
  have len: "length bs \<le> 2" by (rule successively_all_free [OF d(17)]) (use free in blast)
  show ?thesis
  proof (cases bs)
    case (Cons a xs)
    show ?thesis
    proof (cases xs)
      case Nil
      then have "b \<notin> set fs" for b using d(14) d(16) [of b] Cons by auto
      then have "fs = []" by (cases fs) auto
      then show ?thesis using Nil Cons d(5) by simp
    next
      fix b ys
      assume ys: "xs = b # ys"
      then have bs: "bs = [a, b]" using len Cons by simp
      then have "b' \<in> set fs \<longleftrightarrow> b' = a" for b' using d(14) d(16) [of b'] free [of a] by auto
      then have "set fs = {a}" by blast
      moreover from this have "length fs = 1" using distinct_card [OF rep_distinct(2) [OF r]] by simp
      ultimately have "fs = [a]" by (cases fs) auto
      then show ?thesis using bs d(5) by simp
    qed
  qed (use d(4) in simp)
qed



section \<open>A new heap\<close>

lemma init_items:
  fixes sz :: u32
  assumes "60 \<le> unat sz" and "l = free_header p" and "l \<noteq> start" and "z = start + unat (RT_ALIGN_DOWN sz 4) - 24"
    and "l \<noteq> z" and "h' = memheap_init p start sz h"
  shows "hp_item h' start = \<lparr>it_magic = RT_MEMHEAP_MAGIC, it_pool_ptr = p, it_next = z, it_prev = z,
      it_next_free = l, it_prev_free = l\<rparr>"
    and "hp_item h' z = \<lparr>it_magic = RT_MEMHEAP_MAGIC OR RT_MEMHEAP_USED, it_pool_ptr = p, it_next = start,
      it_prev = start, it_next_free = RT_NULL, it_prev_free = RT_NULL\<rparr>"
    and "it_next_free (hp_item h' l) = start" and "it_prev_free (hp_item h' l) = start"
    and "hp_mh h' p = \<lparr>mh_start_addr = start, mh_pool_size = RT_ALIGN_DOWN sz 4,
      mh_available_size = RT_ALIGN_DOWN sz 4 - 48, mh_max_used_size = 48, mh_block_list = start, mh_free_list = l\<rparr>"
proof -
  let ?ps = "RT_ALIGN_DOWN sz 4"
  have ps: "60 \<le> unat ?ps" using assms(1) by (simp add: unat_RT_ALIGN_DOWN)
  then have le: "48 \<le> ?ps" by (simp add: word_le_nat_alt)
  have "?ps - 48 + 24 = ?ps - 24" by simp
  moreover have "unat (?ps - 24) = unat ?ps - 24" using ps by (simp add: unat_sub word_le_nat_alt)
  ultimately have z: "start + unat (?ps - 48 + 24) = z" using ps assms(4) by simp
  have zs: "z \<noteq> start" using ps assms(4) by simp
  show "hp_item h' start = \<lparr>it_magic = RT_MEMHEAP_MAGIC, it_pool_ptr = p, it_next = z, it_prev = z,
      it_next_free = l, it_prev_free = l\<rparr>"
    "hp_item h' z = \<lparr>it_magic = RT_MEMHEAP_MAGIC OR RT_MEMHEAP_USED, it_pool_ptr = p, it_next = start,
      it_prev = start, it_next_free = RT_NULL, it_prev_free = RT_NULL\<rparr>"
    "it_next_free (hp_item h' l) = start" "it_prev_free (hp_item h' l) = start"
    "hp_mh h' p = \<lparr>mh_start_addr = start, mh_pool_size = RT_ALIGN_DOWN sz 4,
      mh_available_size = RT_ALIGN_DOWN sz 4 - 48, mh_max_used_size = 48, mh_block_list = start, mh_free_list = l\<rparr>"
    using assms(2,3,5,6) z zs by (simp_all add: memheap_init_def Let_def free_insert_def)
qed


lemma init_rep:
  assumes p: "p \<noteq> RT_NULL" and sz: "60 \<le> unat sz" and st: "4 dvd start" "start + unat (RT_ALIGN_DOWN sz 4) \<le> 2 ^ 32"
    and fh: "free_header p \<notin> {start..<start + unat (RT_ALIGN_DOWN sz 4)}"
  shows "mh_rep p (memheap_init p start sz h) [start, start + unat (RT_ALIGN_DOWN sz 4) - 24] [start]"
    and "mh_held p (memheap_init p start sz h) = {}"
proof -
  let ?ps = "RT_ALIGN_DOWN sz 4" and ?h = "memheap_init p start sz h"
  let ?z = "start + unat ?ps - 24"
  have ps: "60 \<le> unat ?ps" "4 dvd unat ?ps" using sz by (simp_all add: unat_RT_ALIGN_DOWN)
  then have ne: "free_header p \<noteq> start" "free_header p \<noteq> ?z" using fh by auto
  note i = init_items [OF sz refl ne(1) refl ne(2) refl]
  have d4: "4 dvd ?z" using st(1) ps by (auto simp: dvd_def) presburger
  have av: "unat (?ps - 48) = unat ?ps - 48" using ps by (simp add: unat_sub word_le_nat_alt)
  have us: "\<not> is_used start ?h" "is_used ?z ?h" using i by (simp_all add: is_used_def)
  show r: "mh_rep p ?h [start, ?z] [start]"
  proof (rule mh_repI)
    show "b \<in> set [start] \<longleftrightarrow> b \<in> set [start, ?z] \<and> \<not> is_used b ?h" for b using us by auto
    show "unat (mh_available_size (hp_mh ?h p)) = (\<Sum>b\<leftarrow>[start]. bsize ?h b)"
      using av i(1) by (simp add: i(5) bsize_def)
    show "4 dvd b" if "b \<in> set [start, ?z]" for b using that st(1) d4 by auto
    show "it_pool_ptr (hp_item ?h b) = p" if "b \<in> set [start, ?z]" for b using that i(1,2) by auto
    show "it_magic (hp_item ?h b) = RT_MEMHEAP_MAGIC \<or> it_magic (hp_item ?h b) = RT_MEMHEAP_MAGIC OR RT_MEMHEAP_USED"
      if "b \<in> set [start, ?z]" for b using that i(1,2) by auto
    have zs: "start < ?z" "start + 36 \<le> ?z" using ps by simp_all
    show "rt_list (block_links ?h) (hd [start, ?z]) (tl [start, ?z])"
      unfolding rt_list_def using i(1,2) zs(1) by simp
    show "rt_list (free_links ?h) (free_header p) [start]"
      unfolding rt_list_def using i(1,3,4) ne(1) by simp
    show "sorted_wrt (\<lambda>a b. a + 36 \<le> b) [start, ?z]" using zs(2) by simp
    show "last [start, ?z] + 24 = mh_start_addr (hp_mh ?h p) + unat (mh_pool_size (hp_mh ?h p))"
      "last [start, ?z] + 24 \<le> 2 ^ 32" "free_header p \<notin> {hd [start, ?z]..<last [start, ?z] + 24}"
      using ps st(2) fh unfolding i(5) by simp_all
    show "successively (\<lambda>a b. is_used a ?h \<or> is_used b ?h) [start, ?z]" "is_used (last [start, ?z]) ?h"
      using us(2) by simp_all
  qed (use p in \<open>simp_all add: i(5)\<close>)
  have "x \<notin> mh_held p ?h" for x
  proof
    assume "x \<in> mh_held p ?h"
    then have "x - 24 \<in> set [start, ?z]" "x - 24 \<noteq> last [start, ?z]" "is_used (x - 24) ?h"
      using held_iff [OF r, of x] by blast+
    moreover from this have "x - 24 = start" by (metis empty_iff insert_iff last.simps list.set list.distinct(1))
    ultimately show False using us(1) by metis
  qed
  then show "mh_held p ?h = {}" by blast
qed

text \<open>A new heap is well formed and nothing is handed out; \<open>rt_memheap_init\<close> asks for a pool with room
  for two headers and the smallest block.\<close>

theorem rt_memheap_init_ok:
  assumes "p \<noteq> RT_NULL" and "60 \<le> unat sz" and "4 dvd start" and "start + unat (RT_ALIGN_DOWN sz 4) \<le> 2 ^ 32"
    and "free_header p \<notin> {start..<start + unat (RT_ALIGN_DOWN sz 4)}"
  shows "mh_wf p (memheap_init p start sz h) \<and> mh_held p (memheap_init p start sz h) = {} \<and>
    unat (mh_available_size (hp_mh (memheap_init p start sz h) p)) = unat (RT_ALIGN_DOWN sz 4) - 48"
  using init_rep [OF assms] mh_repD(18) [OF init_rep(1) [OF assms]] rep_neighbour(5) [OF init_rep(1) [OF assms], of "[]"]
  by (auto simp: mh_wf_def)

text \<open>C8: An allocation from a heap returns; it hands out memory that was not handed out, of at least the
  size asked for, aligned, and apart from all other memory handed out, whose sizes and bytes it keeps; or
  it returns \<open>RT_NULL\<close>, changes nothing, and no free block is large enough.\<close>

theorem rt_memheap_alloc_fresh:
  assumes "mh_wf p h" and "12 \<le> unat sz" and "4 dvd unat sz"
  shows "\<exists>x h'. memheap_alloc p sz h = Some (x, h') \<and> mh_wf p h' \<and> hp_mem h' = hp_mem h \<and>
     (if x = RT_NULL then h' = h \<and> (\<forall>bs fs. mh_rep p h bs fs \<longrightarrow> (\<forall>a \<in> set fs. bsize h a < unat sz))
      else x \<notin> mh_held p h \<and> mh_held p h' = insert x (mh_held p h) \<and> unat sz \<le> room h' x \<and> 4 dvd x \<and>
        (\<forall>y \<in> mh_held p h. room h' y = room h y \<and> apart h' x y))"
  by (rule memheap_alloc_ok [OF assms])

text \<open>C9: Memory that is given back passes the assertions of \<open>rt_memheap_free\<close>; the heap stays well formed
  and everything else that is handed out keeps its size and its bytes, whichever neighbours the block is
  joined with.\<close>

theorem rt_memheap_free_returns:
  assumes "mh_wf p h" and "x \<in> mh_held p h"
  shows "memheap_free_check x h = Some () \<and> mh_wf p (memheap_free x h) \<and> hp_mem (memheap_free x h) = hp_mem h \<and>
     mh_held p (memheap_free x h) = mh_held p h - {x} \<and>
     (\<forall>y \<in> mh_held p h - {x}. room (memheap_free x h) y = room h y)"
  by (rule memheap_free_ok [OF assms])

text \<open>C7: In any run of allocations and releases of memory that is held, no memory is handed out twice; and
  when all of it has been given back, the heap is one free block again, with all its bytes available:
  nothing is lost to fragmentation.\<close>

theorem rt_memheap_run_sound:
  assumes "mh_wf p h" and "mh_held p h = {}"
  shows "\<exists>h' given. alloc_run (mh_try_alloc p) mh_try_free h [] ops = Some (h', given) \<and> mh_wf p h' \<and>
     distinct given \<and> set given = mh_held p h' \<and>
     (given = [] \<longrightarrow> 48 \<le> unat (mh_pool_size (hp_mh h' p)) \<longrightarrow>
        unat (mh_available_size (hp_mh h' p)) = unat (mh_pool_size (hp_mh h' p)) - 48)"
proof -
  obtain h' given where h': "alloc_run (mh_try_alloc p) mh_try_free h [] ops = Some (h', given)" "mh_wf p h'"
    "distinct given" "set given = mh_held p h'"
    using mha.run_sound [OF assms(1), of "[]" ops] assms(2) by auto
  obtain bs fs where r: "mh_rep p h' bs fs" using h'(2) by (auto simp: mh_wf_def)
  note d = mh_repD [OF r]
  have "unat (mh_available_size (hp_mh h' p)) = unat (mh_pool_size (hp_mh h' p)) - 48"
    if g: "given = []" "48 \<le> unat (mh_pool_size (hp_mh h' p))"
  proof -
    have "mh_held p h' = {}" using h'(4) g(1) by simp
    moreover have "length bs \<noteq> 1" using d(5,7) g(2) by (cases bs) auto
    ultimately have bs: "bs = [mh_start_addr (hp_mh h' p), last bs]" "fs = [mh_start_addr (hp_mh h' p)]"
      using rep_nothing_held [OF r] by (metis One_nat_def length_Cons list.size(3))+
    have "bsize h' (mh_start_addr (hp_mh h' p)) = last bs - mh_start_addr (hp_mh h' p) - 24"
      using rep_neighbour(5) [OF r, of "[]" "mh_start_addr (hp_mh h' p)" "last bs" "[]"] bs(1) by simp
    then show ?thesis using d(7,18) bs(2) by simp
  qed
  then show ?thesis using h' by blast
qed

text \<open>C36: The search for a free block ends on every well-formed heap, although its loop follows pointers: it
  gives the first block of the free list that is large enough, or reports a size below the request when
  no free block is large enough.\<close>

theorem memheap_search_ends:
  assumes "mh_rep p h bs fs" and "0 < sz"
  shows "\<exists>a n. memheap_search (mh_free_list (hp_mh h p)) sz h (it_next_free (hp_item h (mh_free_list (hp_mh h p)))) 0 = Some (a, n) \<and>
     (if n < sz then \<forall>b \<in> set fs. memitem_size b h < sz
      else n = memitem_size a h \<and> (\<exists>gs hs. fs = gs @ a # hs \<and> (\<forall>b \<in> set gs. memitem_size b h < sz)))"
proof -
  obtain a n where s: "memheap_search (mh_free_list (hp_mh h p)) sz h (it_next_free (hp_item h (mh_free_list (hp_mh h p)))) 0 = Some (a, n)"
    and c: "case find (fits sz h) fs of Some b \<Rightarrow> a = b \<and> n = memitem_size b h | None \<Rightarrow> n < sz"
    using search_result [OF assms] by blast
  have f: "fits sz h b \<longleftrightarrow> \<not> memitem_size b h < sz" for b by (simp add: fits_def linorder_not_less)
  show ?thesis
  proof (cases "find (fits sz h) fs")
    case None
    then have "n < sz" using c by simp
    moreover have "\<forall>b \<in> set fs. memitem_size b h < sz" using None f by (auto simp: find_None_iff)
    ultimately show ?thesis using s by simp
  next
    case (Some b)
    then obtain i where i: "i < length fs" "fits sz h (fs ! i)" "b = fs ! i" "\<forall>j < i. \<not> fits sz h (fs ! j)"
      by (auto simp: find_Some_iff)
    then have "fs = take i fs @ b # drop (Suc i) fs" "\<forall>b \<in> set (take i fs). memitem_size b h < sz"
      using f by (auto simp: id_take_nth_drop in_set_conv_nth)
    moreover have "\<not> n < sz" using c Some i f by simp
    ultimately show ?thesis using s c Some by auto
  qed
qed


section \<open>Growing and shrinking\<close>

lemma core_block_insert:
  assumes c: "mh_core p h bs fs" and bs: "bs = us @ a # b # vs" and n: "a + 36 \<le> n" "n + 36 \<le> b" "4 dvd n"
  shows "mh_core p (block_insert p a n h) (us @ a # n # b # vs) fs" and "n \<notin> set bs"
    and "is_used x (block_insert p a n h) \<longleftrightarrow> x \<noteq> n \<and> is_used x h"
    and "bsize (block_insert p a n h) x = (if x = a then n - a - 24 else if x = n then b - n - 24 else bsize h x)"
    and "it_next (hp_item (block_insert p a n h) n) = b"
proof -
  note d = mh_coreD [OF c] and nb = core_neighbour [OF c bs]
  show nn: "n \<notin> set bs" using d(9) n by (auto simp: bs sorted_wrt_append)
  have ab: "n \<noteq> a" "n \<noteq> it_next (hp_item h a)" using nb(1) n by auto
  note bi = block_insert_links [OF ab]
  let ?h = "block_insert p a n h"
  show us': "is_used x ?h \<longleftrightarrow> x \<noteq> n \<and> is_used x h" for x using bi(5) [of p x] by (simp add: is_used_def)
  have bl: "block_links ?h = link_between a n b (block_links h)" using bi(1) nb(1) by simp
  have nx: "it_next (hp_item ?h x) = (if x = a then n else if x = n then b else it_next (hp_item h x))" for x
    using arg_cong [OF bl, of "\<lambda>k. lnext k x"] ab by (simp add: link_between_def)
  show "it_next (hp_item ?h n) = b" using nx ab by simp
  show "bsize ?h x = (if x = a then n - a - 24 else if x = n then b - n - 24 else bsize h x)"
    by (simp add: bsize_def nx)
  show "mh_core p ?h (us @ a # n # b # vs) fs"
  proof (rule mh_coreI [OF c])
    show "hd (us @ a # n # b # vs) = hd bs" "last (us @ a # n # b # vs) = last bs" using bs by (cases us; simp)+
    show "rt_list (block_links ?h) (hd bs) (tl (us @ a # n # b # vs))"
      unfolding bl by (rule ring_insert_at [OF d(6) bs nn])
    show "rt_list (free_links ?h) (free_header p) fs" using d(15) bi(2) by simp
    show "sorted_wrt (\<lambda>a b. a + 36 \<le> b) (us @ a # n # b # vs)" using d(9) n by (auto simp: bs sorted_wrt_append)
    show "it_pool_ptr (hp_item ?h x) = p \<and> 4 dvd x \<and>
        (it_magic (hp_item ?h x) = RT_MEMHEAP_MAGIC \<or> it_magic (hp_item ?h x) = RT_MEMHEAP_MAGIC OR RT_MEMHEAP_USED)"
      if "x \<in> set (us @ a # n # b # vs)" for x
      using that d(11-13) [of x] bs n(3) by (auto simp: bi(5,6))
    have "last bs \<noteq> n" using nn d(4) last_in_set [of bs] by blast
    then show "is_used (last bs) ?h" using d(14) us' by simp
  qed (simp_all add: bi(3))
qed

lemma consume_core:
  assumes "mh_core p h bs fs"
  shows "mh_core p (consume p n h) bs fs" and "same_counts p h (consume p n h)"
    and "memitem_size x (consume p n h) = memitem_size x h"
proof -
  show s: "same_counts p h (consume p n h)" by (simp add: same_counts_def consume_mh)
  show "mh_core p (consume p n h) bs fs" by (rule core_same [OF assms s]) simp_all
  show "memitem_size x (consume p n h) = memitem_size x h" by (simp add: memitem_size_def)
qed

text \<open>How a heap looks after the block \<open>a\<close> was given \<open>sz\<close> bytes: the other blocks in use are as before.\<close>

definition resized :: "ptr \<Rightarrow> ptr list \<Rightarrow> ptr \<Rightarrow> u32 \<Rightarrow> heap \<Rightarrow> heap \<Rightarrow> bool" where
  "resized p bs a sz h h' \<longleftrightarrow> (\<exists>bs' fs'. mh_rep p h' bs' fs' \<and> last bs' = last bs \<and>
     (\<forall>x. x \<in> set bs' \<and> is_used x h' \<longleftrightarrow> x \<in> set bs \<and> is_used x h) \<and>
     (\<forall>x \<in> set bs. is_used x h \<longrightarrow> bsize h' x = (if x = a then unat sz else bsize h x))) \<and>
     hp_mem h' = hp_mem h \<and> same_counts p h h'"

lemma resizedI:
  assumes "mh_rep p h' bs' fs'" and "last bs' = last bs"
    and "\<And>x. x \<in> set bs' \<and> is_used x h' \<longleftrightarrow> x \<in> set bs \<and> is_used x h"
    and "\<And>x. x \<in> set bs \<Longrightarrow> is_used x h \<Longrightarrow> bsize h' x = (if x = a then unat sz else bsize h x)"
    and "hp_mem h' = hp_mem h" and "same_counts p h h'"
  shows "resized p bs a sz h h'"
  unfolding resized_def using assms by blast

text \<open>The rings after a new free block \<open>n\<close> took the place of the free blocks \<open>ms\<close> behind \<open>a\<close>.\<close>

lemma resize_rings:
  assumes r: "mh_rep p h bs fs" and bs: "bs = us @ a # ms @ w # ws" and u: "is_used a h" "is_used w h"
    and ms: "\<And>x. x \<in> set ms \<Longrightarrow> \<not> is_used x h" and n: "n \<notin> set bs" and fs': "set fs' = set fs - set ms"
    and us': "\<And>x. is_used x h' \<longleftrightarrow> x \<noteq> n \<and> is_used x h"
  shows "x \<in> set (n # fs') \<longleftrightarrow> x \<in> set (us @ a # n # w # ws) \<and> \<not> is_used x h'"
    and "successively (\<lambda>x y. is_used x h' \<or> is_used y h') (us @ a # n # w # ws)"
    and "x \<in> set (us @ a # n # w # ws) \<and> is_used x h' \<longleftrightarrow> x \<in> set bs \<and> is_used x h"
    and "last (us @ a # n # w # ws) = last bs"
proof -
  note d = mh_repD [OF r]
  have dis: "distinct (us @ a # ms @ w # ws)" using rep_distinct(1) [OF r] bs by simp
  have S: "set bs = set us \<union> {a, w} \<union> set ms \<union> set ws" by (auto simp: bs)
  have S': "set (us @ a # n # w # ws) = set us \<union> {a, w, n} \<union> set ws" by auto
  show "x \<in> set (us @ a # n # w # ws) \<and> is_used x h' \<longleftrightarrow> x \<in> set bs \<and> is_used x h"
    unfolding S' us' using S n ms [of x] by blast
  have D: "set ms \<inter> (set us \<union> {a, w} \<union> set ws) = {}" using dis by auto
  have F: "x \<in> set fs' \<longleftrightarrow> x \<in> set bs \<and> \<not> is_used x h \<and> x \<notin> set ms" using fs' d(16) [of x] by blast
  show "x \<in> set (n # fs') \<longleftrightarrow> x \<in> set (us @ a # n # w # ws) \<and> \<not> is_used x h'"
    unfolding S' us' list.set(2) insert_iff F using S n D by blast
  have old: "successively (\<lambda>x y. is_used x h \<or> is_used y h) (us @ [a])" "successively (\<lambda>x y. is_used x h \<or> is_used y h) (w # ws)"
    using d(17) u unfolding bs by (auto simp: successively_append_iff successively_Cons)
  have "is_used x h' = is_used x h" if "x \<in> set (us @ [a]) \<union> set (w # ws)" for x
  proof -
    have "x \<noteq> n" using that n S by auto
    then show ?thesis using us' by simp
  qed
  then have "successively (\<lambda>x y. is_used x h' \<or> is_used y h') ((us @ [a]) @ n # w # ws)"
    by (intro covered_at [OF old]) (use u in simp_all)
  then show "successively (\<lambda>x y. is_used x h' \<or> is_used y h') (us @ a # n # w # ws)" by simp
  show "last (us @ a # n # w # ws) = last bs" by (simp add: bs)
qed

lemma shrink_resized:
  assumes r: "mh_rep p h bs fs" and bs: "bs = us @ a # b # vs" and u: "is_used a h"
    and sz: "12 \<le> unat sz" "4 dvd unat sz" "unat sz + 36 \<le> bsize h a"
  shows "resized p bs a sz h (memheap_shrink p (a + 24) sz h)"
proof -
  note d = mh_repD [OF r] and nb = rep_neighbour [OF r bs]
  have c: "mh_core p h bs fs" using r mh_rep_core by blast
  let ?n = "a + unat sz + 24"
  let ?h1 = "block_insert p a ?n h"
  have n: "a + 36 \<le> ?n" "?n + 36 \<le> b" "4 dvd ?n" using sz nb(3,5) d(12) [of a] bs by simp_all
  note i = core_block_insert [OF c bs n]
  have "?n \<noteq> a" "?n \<noteq> it_next (hp_item h a)" using n nb(1) by simp_all
  note bi = block_insert_links(3,4) [OF this, of p]
  have nf: "?n \<notin> set fs" using i(2) d(16) by blast
  show ?thesis
  proof (cases "is_used b h")
    case True
    let ?h2 = "free_insert p ?n ?h1"
    let ?h3 = "set_mh p (\<lambda>m. m\<lparr>mh_available_size := mh_available_size m + memitem_size ?n ?h2\<rparr>) ?h2"
    have j: "mh_core p ?h2 (us @ a # ?n # b # vs) (?n # fs)" "same_blocks ?h1 ?h2"
      using core_insert [OF i(1), of ?n] nf by simp_all
    note sb = same_blocksD [OF j(2)]
    have e: "memheap_shrink p (a + 24) sz h = ?h3"
      using True i(3) [of b] i(5) n(2) by (simp add: memheap_shrink_def Let_def)
    have c3: "mh_core p ?h3 (us @ a # ?n # b # vs) (?n # fs)"
      by (rule core_same [OF j(1)]) (simp_all add: same_counts_def block_links_def free_links_def)
    have u3: "is_used x ?h3 \<longleftrightarrow> x \<noteq> ?n \<and> is_used x h" for x
      using sb(8) [of x] i(3) [of x] by (simp add: is_used_def)
    have bz: "bsize ?h3 x = (if x = a then unat sz else if x = ?n then b - ?n - 24 else bsize h x)" for x
      using sb(9) [of x] i(4) [of x] by (simp add: bsize_def)
    have sc: "same_counts p h ?h3" using bi sb(1) by (simp add: same_counts_def)
    have k: "unat (memitem_size ?n ?h2) = b - ?n - 24"
      using core_neighbour(6) [OF j(1), of "us @ [a]" ?n b vs] sb(9) i(4) n by simp
    have none: "bs = us @ a # [] @ b # vs" "\<And>x. x \<in> set ([] :: ptr list) \<Longrightarrow> \<not> is_used x h"
      "set fs = set fs - set ([] :: ptr list)" using bs by simp_all
    note rr = resize_rings [OF r none(1) u True none(2) i(2) none(3) u3]
    have "(\<Sum>x\<leftarrow>fs. bsize ?h3 x) = (\<Sum>x\<leftarrow>fs. bsize h x)"
      by (rule sum_cong_list) (use nf u d(16) bz in auto)
    then have "(\<Sum>x\<leftarrow>?n # fs. bsize ?h3 x) = (\<Sum>x\<leftarrow>fs. bsize h x) + unat (memitem_size ?n ?h2)"
      using k n by (simp add: bz)
    then have "mh_rep p ?h3 (us @ a # ?n # b # vs) (?n # fs)"
      by (intro rep_finish [OF r c3 rr(1,2) sc]) (use sb(1) bi in simp_all)
    then show ?thesis
      unfolding e by (rule resizedI) (use rr(3,4) i(2) bz sc sb(2) bi in auto)
  next
    case False
    then obtain vs' w where vs: "vs = w # vs'" using d(14) bs by (cases vs) auto
    have w: "is_used w h" using d(17) bs vs False by (simp add: successively_append_iff)
    have "b \<in> set fs" using False d(16) bs by auto
    then obtain gs hs where fs: "fs = gs @ b # hs" using split_list by metis
    let ?h1' = "set_mh p (\<lambda>m. m\<lparr>mh_available_size := mh_available_size m - memitem_size b ?h1\<rparr>) ?h1"
    let ?h2 = "block_merge ?n ?h1'"
    let ?h3 = "free_insert p ?n ?h2"
    let ?h4 = "set_mh p (\<lambda>m. m\<lparr>mh_available_size := mh_available_size m + memitem_size ?n ?h3\<rparr>) ?h3"
    have e: "memheap_shrink p (a + 24) sz h = ?h4"
      using False i(3) [of b] i(5) n(2) by (simp add: memheap_shrink_def Let_def)
    have c1: "mh_core p ?h1' ((us @ [a]) @ ?n # b # w # vs') (gs @ b # hs)"
      by (rule core_same [of p ?h1]) (use i(1) vs fs in \<open>simp_all add: same_counts_def block_links_def free_links_def\<close>)
    note m = merge_core [OF c1 refl]
    have nf': "?n \<notin> set (gs @ hs)" using nf fs by auto
    have j: "mh_core p ?h3 (us @ a # ?n # w # vs') (?n # gs @ hs)" "same_blocks ?h2 ?h3"
      using core_insert [OF m(1), of ?n] nf' by simp_all
    note sb = same_blocksD [OF j(2)]
    have c4: "mh_core p ?h4 (us @ a # ?n # w # vs') (?n # gs @ hs)"
      by (rule core_same [OF j(1)]) (simp_all add: same_counts_def block_links_def free_links_def)
    have u4: "is_used x ?h4 \<longleftrightarrow> x \<noteq> ?n \<and> is_used x h" for x
      using sb(8) [of x] m(3) [of x] i(3) [of x] by (simp add: is_used_def)
    have nw: "b + 36 \<le> w" "bsize h b = w - b - 24" "unat (memitem_size b ?h1) = w - b - 24"
      using rep_neighbour(3,5) [OF r, of "us @ [a]" b w vs'] bs vs
        core_neighbour(6) [OF i(1), of "us @ [a, ?n]" b w vs'] i(4) [of b] n by simp_all
    have bz: "bsize ?h4 x = (if x = a then unat sz else if x = ?n then w - ?n - 24 else bsize h x)" for x
    proof -
      have h1: "bsize ?h1' y = bsize ?h1 y" for y by (simp add: bsize_def)
      have "bsize ?h4 x = bsize ?h2 x" using sb(9) [of x] by (simp add: bsize_def)
      also have "\<dots> = (if x = ?n then bsize ?h1 ?n + 24 + bsize ?h1 b else bsize ?h1 x)"
        unfolding m(2) h1 ..
      finally show ?thesis using nw n by (cases "x = ?n") (simp_all add: i(4))
    qed
    have sc: "same_counts p h ?h4" using bi sb(1) m(5) by (simp add: same_counts_def)
    let ?k = "memitem_size ?n ?h3 - memitem_size b ?h1"
    have k: "unat (memitem_size ?n ?h3) = w - ?n - 24"
      using core_neighbour(6) [OF j(1), of "us @ [a]" ?n w vs'] bz [of ?n] by (simp add: bsize_def)
    then have k': "unat ?k = b - ?n" using nw n by (simp add: unat_sub word_le_nat_alt)
    have none: "bs = us @ a # [b] @ w # vs'" "\<And>x. x \<in> set [b] \<Longrightarrow> \<not> is_used x h"
      "set (gs @ hs) = set fs - set [b]" using bs vs False fs rep_distinct(2) [OF r] by auto
    note rr = resize_rings [OF r none(1) u w none(2) i(2) none(3) u4]
    have "a \<notin> set (gs @ hs)" "b \<notin> set (gs @ hs)" using u d(16) [of a] fs rep_distinct(2) [OF r] by auto
    then have "(\<Sum>x\<leftarrow>gs @ hs. bsize ?h4 x) = (\<Sum>x\<leftarrow>gs @ hs. bsize h x)"
      by (intro sum_cong_list) (use nf' bz in auto)
    then have "(\<Sum>x\<leftarrow>?n # gs @ hs. bsize ?h4 x) = (\<Sum>x\<leftarrow>fs. bsize h x) + unat ?k"
      using k' bz [of ?n] nw n unfolding fs sum_split by simp
    then have "mh_rep p ?h4 (us @ a # ?n # w # vs') (?n # gs @ hs)"
      by (intro rep_finish [OF r c4 rr(1,2) sc]) (use sb(1) bi m(5) in simp_all)
    then show ?thesis
    proof (unfold e, rule resizedI)
      show "bsize ?h4 x = (if x = a then unat sz else bsize h x)" if "x \<in> set bs" "is_used x h" for x
        using that i(2) bz [of x] by auto
    qed (use rr(3,4) sc sb(2) bi m(4) in simp_all)
  qed
qed

lemma core_unlink:
  assumes c: "mh_core p h bs (gs @ n # hs)"
  shows "mh_core p (free_unlink n h) bs (gs @ hs)" and "same_blocks h (free_unlink n h)"
proof -
  note u = unlink_ring [OF mh_coreD(15) [OF c]]
  note sb = same_blocksD [OF u(2)]
  show "mh_core p (free_unlink n h) bs (gs @ hs)"
    by (rule mh_coreI [OF c]) (use mh_coreD [OF c] u(1) sb in auto)
  show "same_blocks h (free_unlink n h)" by (rule u(2))
qed

text \<open>The free block behind \<open>a\<close> is large enough when there is room for a header and twelve bytes after it.\<close>

lemma grow_fits:
  assumes c: "mh_core p h bs fs" and bs: "bs = us @ a # b # w # vs" and sz: "unat sz + 12 < 2 ^ 32"
  shows "sz + RT_MEMHEAP_MINIALLOC < memitem_size b h + memitem_size a h \<longleftrightarrow> a + unat sz + 60 < w"
proof -
  note na = core_neighbour [OF c bs] and nb = core_neighbour [OF c, of "us @ [a]" b w vs]
  have e: "unat (memitem_size a h) = b - a - 24" "unat (memitem_size b h) = w - b - 24" "a + 36 \<le> b" "b + 36 \<le> w" "w < 2 ^ 32"
    using na(3,4,6) nb(3-6) bs by simp_all
  then have "unat (memitem_size b h + memitem_size a h) = w - a - 48" by (simp add: unat_word_ariths)
  moreover have "unat (sz + RT_MEMHEAP_MINIALLOC) = unat sz + 12" using sz by (simp add: unat_word_ariths)
  ultimately show ?thesis using e by (simp add: word_less_nat_alt) arith
qed

lemma grow_resized:
  assumes r: "mh_rep p h bs fs" and bs: "bs = us @ a # b # vs" and u: "is_used a h"
    and sz: "bsize h a < unat sz" "4 dvd unat sz" "unat sz + 12 < 2 ^ 32"
  shows "memheap_grow p (a + 24) sz h = Some (False, h) \<or>
    (\<exists>h'. memheap_grow p (a + 24) sz h = Some (True, h') \<and> resized p bs a sz h h')"
proof (cases "is_used b h")
  case True
  then show ?thesis using rep_neighbour [OF r bs] by (simp add: memheap_grow_def Let_def rt_assert_def)
next
  case False
  note d = mh_repD [OF r] and nb = rep_neighbour [OF r bs]
  have c: "mh_core p h bs fs" using r mh_rep_core by blast
  obtain vs' w where vs: "vs = w # vs'" using False d(14) bs by (cases vs) auto
  have bs2: "bs = us @ a # b # w # vs'" using bs vs by simp
  have w: "is_used w h" using d(17) bs2 False by (simp add: successively_append_iff)
  have "b \<in> set fs" using False d(16) bs by auto
  then obtain gs hs where fs: "fs = gs @ b # hs" using split_list by metis
  note nw = rep_neighbour [OF r, of "us @ [a]" b w vs']
  have wb: "it_next (hp_item h b) = w" "b + 36 \<le> w" "bsize h b = w - b - 24" using nw(1,3,5) bs2 by simp_all
  note fit = grow_fits [OF c bs2 sz(3)]
  show ?thesis
  proof (cases "a + unat sz + 60 < w")
    case no: False
    then show ?thesis using nb fit False by (simp add: memheap_grow_def Let_def rt_assert_def)
  next
    case yes: True
    let ?k = "sz - memitem_size a h"
    let ?h1 = "consume p ?k h" and ?n = "a + 24 + unat sz"
    let ?h2 = "free_unlink b ?h1"
    let ?h4 = "set_item a (\<lambda>i. i\<lparr>it_next := w\<rparr>) (set_item w (\<lambda>i. i\<lparr>it_prev := a\<rparr>) ?h2)"
    let ?h5 = "block_insert p a ?n ?h4"
    let ?h6 = "free_insert p ?n ?h5"
    note c2 = core_unlink [OF consume_core(1) [OF c, unfolded fs]]
    note s2 = same_blocksD [OF c2(2)]
    have n2: "it_next (hp_item ?h2 a) = b" "it_next (hp_item ?h2 b) = w" "it_prev (hp_item ?h2 b) = a"
      using core_neighbour(1,2) [OF c2(1) bs] core_neighbour(1) [OF c2(1), of "us @ [a]" b w vs'] bs2 by simp_all
    have ne: "a < b" "b < w" using nb(3) wb(2) by simp_all
    have e: "memheap_grow p (a + 24) sz h = Some (True, ?h6)"
      using False yes fit nb(1) n2 ne by (simp add: memheap_grow_def Let_def rt_assert_def)
    have b4: "hp_mh ?h4 = hp_mh ?h2" "block_links ?h4 = bypass b (block_links ?h2)" "free_links ?h4 = free_links ?h2"
      "it_magic (hp_item ?h4 x) = it_magic (hp_item ?h2 x)" "it_pool_ptr (hp_item ?h4 x) = it_pool_ptr (hp_item ?h2 x)" for x
      using n2 ne by (auto simp: block_links_def free_links_def bypass_def fun_eq_iff)
    note c4 = core_bypass [OF c2(1) bs2 b4]
    have n: "a + 36 \<le> ?n" "?n + 36 \<le> w" "4 dvd ?n" using sz yes d(12) [of a] bs nb(3,5) by simp_all
    note i = core_block_insert [OF c4(1) refl n]
    have nn: "?n \<notin> set bs" using i(2) bs2 sz(1) nb(3,5) by auto
    have nf: "?n \<notin> set (gs @ hs)" using nn d(16) fs by auto
    note j = core_insert [OF i(1) _ nf]
    have j1: "mh_core p ?h6 (us @ a # ?n # w # vs') (?n # gs @ hs)" and "same_blocks ?h5 ?h6" using j by simp_all
    note sb = same_blocksD [OF this(2)]
    have n4: "it_next (hp_item ?h4 a) = w" by simp
    then have "?n \<noteq> a" "?n \<noteq> it_next (hp_item ?h4 a)" using n by simp_all
    note bi = block_insert_links(3,4) [OF this, of p]
    have mh: "hp_mh ?h6 = hp_mh ?h1" "hp_mem ?h6 = hp_mem h" using sb(1,2) bi s2(1,2) by simp_all
    have u4: "is_used x ?h4 = is_used x ?h2" for x using b4(4) by (simp add: is_used_def)
    have u6: "is_used x ?h6 \<longleftrightarrow> x \<noteq> ?n \<and> is_used x h" for x unfolding sb(8) i(3) u4 s2(8) by simp
    have z4: "bsize ?h4 x = (if x = a then w - a - 24 else bsize h x)" for x
      using c4(2) [of x] nb(3,5) wb by (simp add: s2(9))
    have bz: "bsize ?h6 x = (if x = a then unat sz else if x = ?n then w - ?n - 24 else bsize h x)" for x
      using z4 unfolding sb(9) i(4) by simp
    have sc: "same_counts p h ?h6" using mh(1) by (simp add: same_counts_def consume_mh)
    have none: "bs = us @ a # [b] @ w # vs'" "\<And>x. x \<in> set [b] \<Longrightarrow> \<not> is_used x h"
      "set (gs @ hs) = set fs - set [b]" using bs2 False fs rep_distinct(2) [OF r] by auto
    note rr = resize_rings [OF r none(1) u w none(2) nn none(3) u6]
    have "a \<notin> set (gs @ hs)" using u d(16) [of a] fs by auto
    then have sum: "(\<Sum>x\<leftarrow>gs @ hs. bsize ?h6 x) = (\<Sum>x\<leftarrow>gs @ hs. bsize h x)"
      by (intro sum_cong_list) (use nf bz in auto)
    have av: "unat (mh_available_size (hp_mh h p)) = bsize h b + (\<Sum>x\<leftarrow>gs @ hs. bsize h x)"
      using d(18) fs by simp
    have "unat ?k = unat sz - bsize h a" using nb(7) sz(1) by (simp add: unat_sub word_le_nat_alt)
    then have k: "unat ?k + (w - ?n - 24) = bsize h b" using nb(3,5) wb sz(1) yes by simp
    then have "unat (mh_available_size (hp_mh h p) - ?k) = unat (mh_available_size (hp_mh h p)) - unat ?k"
      using av by (simp add: unat_sub word_le_nat_alt)
    then have "unat (mh_available_size (hp_mh ?h6 p)) = (\<Sum>x\<leftarrow>?n # gs @ hs. bsize ?h6 x)"
      using av k n sum bz [of ?n] unfolding mh(1) by (simp add: consume_mh)
    then have "mh_rep p ?h6 (us @ a # ?n # w # vs') (?n # gs @ hs)"
      unfolding mh_rep_core using j1 rr(1,2) mh(1) by (auto simp: consume_mh)
    then have "resized p bs a sz h ?h6"
    proof (rule resizedI)
      show "bsize ?h6 x = (if x = a then unat sz else bsize h x)" if "x \<in> set bs" "is_used x h" for x
        using that nn bz [of x] by auto
    qed (use rr(3,4) sc mh in simp_all)
    then show ?thesis using e by blast
  qed
qed

end
