(* ===== verification/RTT_HeapApi.thy ===== *)
theory RTT_HeapApi
  imports RTT_MemHeap RTT_MemPool
begin

text \<open>
  The heap operations as the kernel calls them: the operations of \<open>RTT_MemHeap\<close> between taking and
  releasing the semaphore in the heap object, on the pair of the kernel state and the heap store. This is
  the rest of \<open>src/memheap.c\<close>, with \<open>rt_malloc\<close> and its relatives, and \<open>rt_strdup\<close> of \<open>src/kservice.c\<close>.

  A thread that has to wait for the lock is suspended and the call is not over: \<open>Waits\<close>. When it runs again
  with the result of \<open>rt_sem_take\<close>, it goes on with the definition that has \<open>_locked\<close> in its name. The
  address of the default heap, a static variable of the file, is the argument \<open>dflt\<close>.
\<close>

section \<open>Operations\<close>

type_synonym kheap = "kstate \<times> heap"

datatype 'a reply = Gives 'a | Waits

abbreviation (input) RT_WAITING_FOREVER :: u32 where "RT_WAITING_FOREVER \<equiv> - 1"

text \<open>A call goes on with the result of \<open>rt_sem_take\<close>, or waits.\<close>

definition heap_locked :: "ptr \<Rightarrow> (rt_err \<Rightarrow> kheap \<Rightarrow> ('a reply \<times> kheap) option) \<Rightarrow> kheap \<Rightarrow> ('a reply \<times> kheap) option" where
  "heap_locked p body = (\<lambda>(s, h). do {
     (r, s) \<leftarrow> rt_sem_take (heap_lock p) RT_WAITING_FOREVER s;
     case r of Returns e \<Rightarrow> body e (s, h) | Blocked \<Rightarrow> Some (Waits, (s, h))
   })"

definition rt_memheap_init :: "ptr \<Rightarrow> string \<Rightarrow> ptr \<Rightarrow> u32 \<Rightarrow> kheap \<Rightarrow> (rt_err \<times> kheap) option" where
  "rt_memheap_init p name start sz = (\<lambda>(s, h). do {
     rt_assert (p \<noteq> RT_NULL);
     s \<leftarrow> rt_object_init (Obj p) Class_MemHeap name s;
     let h = memheap_init p start sz h;
     (_, s) \<leftarrow> rt_sem_init (heap_lock p) name 1 RT_IPC_FLAG_FIFO s;
     Some (RT_EOK, (s, h))
   })"

definition rt_memheap_detach :: "ptr \<Rightarrow> kheap \<Rightarrow> (rt_err \<times> kheap) option" where
  "rt_memheap_detach p = (\<lambda>(s, h). do {
     rt_assert (is_class Class_MemHeap p s);
     rt_assert (rt_object_is_systemobject (Obj p) s);
     let s = rt_object_detach (Obj (heap_lock p)) s;
     let s = rt_object_detach (Obj p) s;
     Some (RT_EOK, (s, h))
   })"

definition rt_memheap_alloc_locked :: "ptr \<Rightarrow> u32 \<Rightarrow> rt_err \<Rightarrow> kheap \<Rightarrow> (ptr reply \<times> kheap) option" where
  "rt_memheap_alloc_locked p sz result = (\<lambda>(s, h).
     if result \<noteq> RT_EOK then Some (Gives RT_NULL, (rt_set_errno result s, h))
     else do {
       (ptr, h) \<leftarrow> memheap_alloc p sz h;
       (_, s) \<leftarrow> rt_sem_release (heap_lock p) s;
       Some (Gives ptr, (s, h))
     })"

definition rt_memheap_alloc :: "ptr \<Rightarrow> u32 \<Rightarrow> kheap \<Rightarrow> (ptr reply \<times> kheap) option" where
  "rt_memheap_alloc p sz = (\<lambda>(s, h). do {
     rt_assert (is_class Class_MemHeap p s);
     let sz = memheap_request sz;
     if sz < mh_available_size (hp_mh h p)
     then heap_locked p (rt_memheap_alloc_locked p sz) (s, h)
     else Some (Gives RT_NULL, (s, h))
   })"

definition rt_memheap_free_locked :: "ptr \<Rightarrow> ptr \<Rightarrow> rt_err \<Rightarrow> kheap \<Rightarrow> (unit reply \<times> kheap) option" where
  "rt_memheap_free_locked p ptr result = (\<lambda>(s, h).
     if result \<noteq> RT_EOK then Some (Gives (), (rt_set_errno result s, h))
     else do {
       let h = memheap_free ptr h;
       (_, s) \<leftarrow> rt_sem_release (heap_lock p) s;
       Some (Gives (), (s, h))
     })"

definition rt_memheap_free :: "ptr \<Rightarrow> kheap \<Rightarrow> (unit reply \<times> kheap) option" where
  "rt_memheap_free ptr = (\<lambda>(s, h).
     if ptr = RT_NULL then Some (Gives (), (s, h))
     else do {
       _ \<leftarrow> memheap_free_check ptr h;
       let p = it_pool_ptr (hp_item h (ptr - 24));
       rt_assert (is_class Class_MemHeap p s);
       heap_locked p (rt_memheap_free_locked p ptr) (s, h)
     })"

text \<open>\<open>rt_memheap_realloc\<close>: the old block is copied to the new one and freed.\<close>

definition realloc_move :: "ptr \<Rightarrow> u32 \<Rightarrow> u32 \<Rightarrow> ptr \<Rightarrow> kheap \<Rightarrow> (ptr reply \<times> kheap) option" where
  "realloc_move ptr oldsize newsize new_ptr = (\<lambda>(s, h).
     if new_ptr = RT_NULL then Some (Gives RT_NULL, (s, h))
     else do {
       (_, m) \<leftarrow> rt_memcpy new_ptr ptr (if oldsize < newsize then oldsize else newsize) (hp_mem h);
       (r, sh) \<leftarrow> rt_memheap_free ptr (s, h\<lparr>hp_mem := m\<rparr>);
       Some (case r of Gives _ \<Rightarrow> Gives new_ptr | Waits \<Rightarrow> Waits, sh)
     })"

definition realloc_elsewhere :: "ptr \<Rightarrow> ptr \<Rightarrow> u32 \<Rightarrow> u32 \<Rightarrow> kheap \<Rightarrow> (ptr reply \<times> kheap) option" where
  "realloc_elsewhere p ptr oldsize newsize sh = do {
     (r, sh) \<leftarrow> rt_memheap_alloc p newsize sh;
     case r of Gives new_ptr \<Rightarrow> realloc_move ptr oldsize newsize new_ptr sh | Waits \<Rightarrow> Some (Waits, sh)
   }"

definition rt_memheap_grow_locked :: "ptr \<Rightarrow> ptr \<Rightarrow> u32 \<Rightarrow> u32 \<Rightarrow> rt_err \<Rightarrow> kheap \<Rightarrow> (ptr reply \<times> kheap) option" where
  "rt_memheap_grow_locked p ptr oldsize newsize result = (\<lambda>(s, h).
     if result \<noteq> RT_EOK then Some (Gives RT_NULL, (rt_set_errno result s, h))
     else do {
       let t = rt_thread_self s;
       (done, h) \<leftarrow> memheap_grow p ptr newsize h;
       (_, s) \<leftarrow> rt_sem_release (heap_lock p) s;
       if done then Some (Gives ptr, (s, h))
       else if rt_thread_self s \<noteq> t then Some (Waits, (s, h))
       else realloc_elsewhere p ptr oldsize newsize (s, h)
     })"

definition rt_memheap_shrink_locked :: "ptr \<Rightarrow> ptr \<Rightarrow> u32 \<Rightarrow> rt_err \<Rightarrow> kheap \<Rightarrow> (ptr reply \<times> kheap) option" where
  "rt_memheap_shrink_locked p ptr newsize result = (\<lambda>(s, h).
     if result \<noteq> RT_EOK then Some (Gives RT_NULL, (rt_set_errno result s, h))
     else do {
       let h = memheap_shrink p ptr newsize h;
       (_, s) \<leftarrow> rt_sem_release (heap_lock p) s;
       Some (Gives ptr, (s, h))
     })"

definition rt_memheap_realloc :: "ptr \<Rightarrow> ptr \<Rightarrow> u32 \<Rightarrow> kheap \<Rightarrow> (ptr reply \<times> kheap) option" where
  "rt_memheap_realloc p ptr newsize = (\<lambda>(s, h). do {
     rt_assert (is_class Class_MemHeap p s);
     if newsize = 0
     then do {
       (r, sh) \<leftarrow> rt_memheap_free ptr (s, h);
       Some (case r of Gives _ \<Rightarrow> Gives RT_NULL | Waits \<Rightarrow> Waits, sh)
     }
     else do {
       let newsize = memheap_request newsize;
       if ptr = RT_NULL then rt_memheap_alloc p newsize (s, h)
       else do {
         let oldsize = memitem_size (ptr - 24) h;
         if oldsize < newsize then heap_locked p (rt_memheap_grow_locked p ptr oldsize newsize) (s, h)
         else if oldsize \<le> newsize + RT_MEMHEAP_SIZE + RT_MEMHEAP_MINIALLOC then Some (Gives ptr, (s, h))
         else heap_locked p (rt_memheap_shrink_locked p ptr newsize) (s, h)
       }
     }
   })"

definition rt_system_heap_init :: "ptr \<Rightarrow> ptr \<Rightarrow> ptr \<Rightarrow> kheap \<Rightarrow> kheap option" where
  "rt_system_heap_init dflt begin_addr end_addr sh = do {
     (_, sh) \<leftarrow> rt_memheap_init dflt ''heap'' begin_addr (word_of_nat end_addr - word_of_nat begin_addr) sh;
     Some sh
   }"

text \<open>\<open>rt_malloc\<close>: the default heap, then the other heaps in the order of the object list.\<close>

fun malloc_others :: "ptr \<Rightarrow> u32 \<Rightarrow> oref list \<Rightarrow> kheap \<Rightarrow> (ptr reply \<times> kheap) option" where
  "malloc_others dflt sz [] sh = Some (Gives RT_NULL, sh)"
| "malloc_others dflt sz (TimerOf t # xs) sh = None"
| "malloc_others dflt sz (Obj p # xs) sh = do {
     rt_assert (is_class Class_MemHeap p (fst sh));
     if p = dflt then malloc_others dflt sz xs sh
     else do {
       (r, sh) \<leftarrow> rt_memheap_alloc p sz sh;
       if r = Gives RT_NULL then malloc_others dflt sz xs sh else Some (r, sh)
     }
   }"

definition rt_malloc :: "ptr \<Rightarrow> u32 \<Rightarrow> kheap \<Rightarrow> (ptr reply \<times> kheap) option" where
  "rt_malloc dflt sz sh = do {
     (r, sh) \<leftarrow> rt_memheap_alloc dflt sz sh;
     if r = Gives RT_NULL
     then do {
       ty \<leftarrow> rt_object_get_information Class_MemHeap;
       malloc_others dflt sz (k_container (fst sh) ty) sh
     }
     else Some (r, sh)
   }"

definition rt_free :: "ptr \<Rightarrow> kheap \<Rightarrow> (unit reply \<times> kheap) option" where
  "rt_free rmem sh = rt_memheap_free rmem sh"

definition rt_realloc :: "ptr \<Rightarrow> ptr \<Rightarrow> u32 \<Rightarrow> kheap \<Rightarrow> (ptr reply \<times> kheap) option" where
  "rt_realloc dflt rmem newsize sh =
     (if rmem = RT_NULL then rt_malloc dflt newsize sh
      else if newsize = 0
      then do {
        (r, sh) \<leftarrow> rt_free rmem sh;
        Some (case r of Gives _ \<Rightarrow> Gives RT_NULL | Waits \<Rightarrow> Waits, sh)
      }
      else do {
        (r, sh) \<leftarrow> rt_memheap_realloc (it_pool_ptr (hp_item (snd sh) (rmem - 24))) rmem newsize sh;
        if r = Gives RT_NULL
        then do {
          (r, sh) \<leftarrow> rt_malloc dflt newsize sh;
          case r of
            Gives new_ptr \<Rightarrow> realloc_move rmem (memitem_size (rmem - 24) (snd sh)) newsize new_ptr sh
          | Waits \<Rightarrow> Some (Waits, sh)
        }
        else Some (r, sh)
      })"

definition rt_calloc :: "ptr \<Rightarrow> u32 \<Rightarrow> u32 \<Rightarrow> kheap \<Rightarrow> (ptr reply \<times> kheap) option" where
  "rt_calloc dflt count sz sh = do {
     let total_size = count * sz;
     (r, sh) \<leftarrow> rt_malloc dflt total_size sh;
     case r of
       Gives ptr \<Rightarrow>
         if ptr \<noteq> RT_NULL
         then do {
           (_, m) \<leftarrow> rt_memset ptr 0 total_size (hp_mem (snd sh));
           Some (Gives ptr, (fst sh, (snd sh)\<lparr>hp_mem := m\<rparr>))
         }
         else Some (Gives RT_NULL, sh)
     | Waits \<Rightarrow> Some (Waits, sh)
   }"

definition rt_strdup :: "ptr \<Rightarrow> ptr \<Rightarrow> kheap \<Rightarrow> (ptr reply \<times> kheap) option" where
  "rt_strdup dflt str sh = do {
     n \<leftarrow> rt_strlen str (hp_mem (snd sh));
     let len = n + 1;
     (r, sh) \<leftarrow> rt_malloc dflt len sh;
     case r of
       Gives tmp \<Rightarrow>
         if tmp = RT_NULL then Some (Gives RT_NULL, sh)
         else do {
           (_, m) \<leftarrow> rt_memcpy tmp str len (hp_mem (snd sh));
           Some (Gives tmp, (fst sh, (snd sh)\<lparr>hp_mem := m\<rparr>))
         }
     | Waits \<Rightarrow> Some (Waits, sh)
   }"


section \<open>The lock\<close>

text \<open>A heap object whose lock nobody holds or waits for.\<close>

definition lock_free :: "ptr \<Rightarrow> kstate \<Rightarrow> bool" where
  "lock_free p s \<longleftrightarrow> is_class Class_MemHeap p s \<and> is_class Class_Semaphore (heap_lock p) s \<and>
     sem_val s (heap_lock p) = 1 \<and> k_q s (Susp (heap_lock p)) = []"

definition lock_taken :: "ptr \<Rightarrow> kstate \<Rightarrow> kstate" where
  "lock_taken p s = set_sem (heap_lock p) (\<lambda>sem. sem\<lparr>sem_value := sem_value sem - 1\<rparr>) s"

lemma lock_take:
  assumes "lock_free p s"
  shows "heap_locked p body (s, h) = body RT_EOK (lock_taken p s, h)"
  using sem_take_available [of "heap_lock p" s] assms by (simp add: heap_locked_def lock_free_def lock_taken_def)

lemma lock_release:
  assumes "lock_free p s"
  shows "rt_sem_release (heap_lock p) (lock_taken p s) = Some (RT_EOK, s)"
proof -
  let ?l = "heap_lock p"
  have "is_class Class_Semaphore ?l (lock_taken p s)" "k_q (lock_taken p s) (Susp ?l) = []"
    using assms by (simp_all add: lock_free_def lock_taken_def is_class_def rt_object_get_type_def set_sem_def)
  moreover have "set_sem ?l (\<lambda>sem. sem\<lparr>sem_value := sem_value sem + 1\<rparr>) (lock_taken p s) = s"
    using assms by (simp add: lock_taken_def set_sem_def)
  ultimately show ?thesis by (simp add: rt_sem_release_def)
qed

lemma lock_taken_self [simp]: "rt_thread_self (lock_taken p s) = rt_thread_self s"
  by (simp add: lock_taken_def set_sem_def rt_thread_self_def)


section \<open>Bytes of the blocks\<close>

lemma links_mem [simp]:
  "block_links (h\<lparr>hp_mem := m\<rparr>) = block_links h" "free_links (h\<lparr>hp_mem := m\<rparr>) = free_links h"
  "is_used a (h\<lparr>hp_mem := m\<rparr>) = is_used a h" "bsize (h\<lparr>hp_mem := m\<rparr>) a = bsize h a"
  "memitem_size a (h\<lparr>hp_mem := m\<rparr>) = memitem_size a h"
  by (simp_all add: block_links_def free_links_def is_used_def bsize_def memitem_size_def)

lemma rep_mem [simp]: "mh_rep p (h\<lparr>hp_mem := m\<rparr>) bs fs = mh_rep p h bs fs"
  by (simp add: mh_rep_def)

lemma client_mem [simp]:
  "mh_wf p (h\<lparr>hp_mem := m\<rparr>) = mh_wf p h" "mh_held p (h\<lparr>hp_mem := m\<rparr>) = mh_held p h"
  "room (h\<lparr>hp_mem := m\<rparr>) x = room h x"
  by (simp_all add: mh_wf_def mh_held_def room_def)

text \<open>The bytes of the pool are mapped, so are the ones of every block that is handed out.\<close>

definition pool_mapped :: "ptr \<Rightarrow> heap \<Rightarrow> bool" where
  "pool_mapped p h \<longleftrightarrow> mapped (mh_start_addr (hp_mh h p)) (unat (mh_pool_size (hp_mh h p))) (hp_mem h)"

lemma held_in_pool:
  assumes wf: "mh_wf p h" and x: "x \<in> mh_held p h"
  shows "mh_start_addr (hp_mh h p) + 24 \<le> x" and "x + room h x \<le> mh_start_addr (hp_mh h p) + unat (mh_pool_size (hp_mh h p))"
    and "unat (memitem_size (x - 24) h) = room h x" and "it_pool_ptr (hp_item h (x - 24)) = p" and "x \<noteq> RT_NULL"
proof -
  obtain bs fs where r: "mh_rep p h bs fs" using wf by (auto simp: mh_wf_def)
  obtain us b vs where s: "x = x - 24 + 24" "bs = us @ (x - 24) # b # vs" "is_used (x - 24) h"
    using rep_held_split [OF r x] by metis
  note nb = rep_neighbour [OF r s(2)] and d = mh_repD [OF r]
  have "hd bs \<le> x - 24" "b \<le> last bs" using rep_order [OF r] s(2) by simp_all
  then show "mh_start_addr (hp_mh h p) + 24 \<le> x" "x + room h x \<le> mh_start_addr (hp_mh h p) + unat (mh_pool_size (hp_mh h p))"
    using s(1) d(5,7) nb(3,5) by (simp_all add: room_def)
  show "unat (memitem_size (x - 24) h) = room h x" using nb(7) by (simp add: room_def)
  show "it_pool_ptr (hp_item h (x - 24)) = p" using d(11) [of "x - 24"] s(2) by simp
  show "x \<noteq> RT_NULL" using s(1) by auto
qed

lemma held_mapped:
  assumes "mh_wf p h" and "x \<in> mh_held p h" and "pool_mapped p h" and "n \<le> room h x"
  shows "mapped x n (hp_mem h)"
  using mapped_sub [OF assms(3) [unfolded pool_mapped_def], of x n] held_in_pool(1,2) [OF assms(1,2)] assms(4) by simp

lemma pieces_counts [simp]:
  "hp_mh (free_unlink a h) = hp_mh h" "hp_mh (free_clear a h) = hp_mh h" "hp_mh (free_insert p a h) = hp_mh h"
  "hp_mh (block_insert p a n h) = hp_mh h" "hp_mh (mark_used a h) = hp_mh h"
  by (simp_all add: free_unlink_def free_clear_def free_insert_def block_insert_def mark_used_def Let_def)

lemma alloc_counts: "memheap_alloc p sz h = Some (x, h') \<Longrightarrow> same_counts p h h'"
  by (auto simp: memheap_alloc_def Let_def same_counts_def consume_mh bind_Some_iff split: if_splits prod.splits)


section \<open>Operations on a free lock\<close>

text \<open>What an allocation of \<open>n\<close> bytes gives: nothing and the same heap, or new memory.\<close>

definition mh_gave :: "ptr \<Rightarrow> nat \<Rightarrow> heap \<Rightarrow> ptr \<Rightarrow> heap \<Rightarrow> bool" where
  "mh_gave p n h x h' \<longleftrightarrow> mh_wf p h' \<and> hp_mem h' = hp_mem h \<and> same_counts p h h' \<and>
     (if x = RT_NULL then h' = h
      else x \<notin> mh_held p h \<and> mh_held p h' = insert x (mh_held p h) \<and> n \<le> room h' x \<and> 4 dvd x \<and>
        (\<forall>y \<in> mh_held p h. room h' y = room h y \<and> apart h' x y))"

lemma alloc_uncontended:
  assumes l: "lock_free p s" and wf: "mh_wf p h"
  shows "\<exists>x h'. rt_memheap_alloc p sz (s, h) = Some (Gives x, (s, h')) \<and> mh_gave p (unat (memheap_request sz)) h x h'"
proof (cases "memheap_request sz < mh_available_size (hp_mh h p)")
  case True
  obtain x h' where a: "memheap_alloc p (memheap_request sz) h = Some (x, h')"
    and g: "mh_wf p h' \<and> hp_mem h' = hp_mem h \<and>
     (if x = RT_NULL then h' = h \<and> (\<forall>bs fs. mh_rep p h bs fs \<longrightarrow> (\<forall>a \<in> set fs. bsize h a < unat (memheap_request sz)))
      else x \<notin> mh_held p h \<and> mh_held p h' = insert x (mh_held p h) \<and> unat (memheap_request sz) \<le> room h' x \<and> 4 dvd x \<and>
        (\<forall>y \<in> mh_held p h. room h' y = room h y \<and> apart h' x y))"
    using memheap_alloc_ok [OF wf request_ok [THEN conjunct1] request_ok [THEN conjunct2], of sz] by metis
  have "rt_memheap_alloc p sz (s, h) = Some (Gives x, (s, h'))"
    using True a lock_release [OF l] l
    by (simp add: rt_memheap_alloc_def Let_def lock_take [OF l] rt_memheap_alloc_locked_def) (simp add: lock_free_def)
  moreover have "mh_gave p (unat (memheap_request sz)) h x h'"
    using g alloc_counts [OF a] unfolding mh_gave_def by presburger
  ultimately show ?thesis by blast
next
  case False
  then show ?thesis using l wf by (auto simp: rt_memheap_alloc_def Let_def lock_free_def mh_gave_def same_counts_def)
qed

lemma free_uncontended:
  assumes l: "lock_free p s" and wf: "mh_wf p h" and x: "x \<in> mh_held p h"
  shows "rt_memheap_free x (s, h) = Some (Gives (), (s, memheap_free x h))"
  using memheap_free_ok [OF wf x] held_in_pool(4,5) [OF wf x] lock_release [OF l] l
  by (simp add: rt_memheap_free_def Let_def lock_take [OF l] rt_memheap_free_locked_def) (simp add: lock_free_def)


text \<open>A block that was resized in its place.\<close>

lemma resized_client:
  assumes r: "mh_rep p h bs fs" and z: "resized p bs a sz h h'" and a: "a + 24 \<in> mh_held p h"
  shows "mh_wf p h'" and "hp_mem h' = hp_mem h" and "mh_held p h' = mh_held p h" and "room h' (a + 24) = unat sz"
    and "y \<in> mh_held p h \<Longrightarrow> y \<noteq> a + 24 \<Longrightarrow> room h' y = room h y" and "same_counts p h h'"
proof -
  obtain bs' fs' where r': "mh_rep p h' bs' fs'" "last bs' = last bs"
    "\<forall>x. x \<in> set bs' \<and> is_used x h' \<longleftrightarrow> x \<in> set bs \<and> is_used x h"
    "\<forall>x \<in> set bs. is_used x h \<longrightarrow> bsize h' x = (if x = a then unat sz else bsize h x)"
    and m: "hp_mem h' = hp_mem h" "same_counts p h h'"
    using z unfolding resized_def by blast
  show "mh_wf p h'" using r'(1) by (auto simp: mh_wf_def)
  show "hp_mem h' = hp_mem h" "same_counts p h h'" by (rule m)+
  note held = held_iff [OF r] and held' = held_iff [OF r'(1), unfolded r'(2)]
  show "mh_held p h' = mh_held p h" using held held' r'(3) by blast
  show "room h' (a + 24) = unat sz" using held [of "a + 24"] a r'(4) by (auto simp: room_def)
  show "room h' y = room h y" if "y \<in> mh_held p h" "y \<noteq> a + 24"
    using held [of y] that r'(4) by (auto simp: room_def)
qed

text \<open>What a call of \<open>rt_memheap_realloc\<close> gives: \<open>RT_NULL\<close> and the same heap, or memory of at least \<open>n\<close> bytes in
  the place of \<open>x\<close>, with the old bytes as far as they go; all other memory is as it was.\<close>

definition mh_moved :: "ptr \<Rightarrow> ptr \<Rightarrow> nat \<Rightarrow> heap \<Rightarrow> ptr \<Rightarrow> heap \<Rightarrow> bool" where
  "mh_moved p x n h y h' \<longleftrightarrow> mh_wf p h' \<and> pool_mapped p h' \<and>
     (if y = RT_NULL then h' = h
      else mh_held p h' = insert y (mh_held p h - {x}) \<and> (y \<noteq> x \<longrightarrow> y \<notin> mh_held p h) \<and> n \<le> room h' y \<and>
        (\<forall>i < min (room h x) n. hp_mem h' (y + i) = hp_mem h (x + i)) \<and>
        (\<forall>z \<in> mh_held p h - {x}. room h' z = room h z \<and> (\<forall>i < room h z. hp_mem h' (z + i) = hp_mem h (z + i))))"

lemma mh_moved_same:
  assumes "mh_wf p h'" and "pool_mapped p h'" and "hp_mem h' = hp_mem h" and "mh_held p h' = mh_held p h"
    and "x \<in> mh_held p h" and "n \<le> room h' x" and "\<And>z. z \<in> mh_held p h \<Longrightarrow> z \<noteq> x \<Longrightarrow> room h' z = room h z"
    and "x \<noteq> RT_NULL"
  shows "mh_moved p x n h x h'"
  using assms by (auto simp: mh_moved_def)

lemma pool_mapped_same: "pool_mapped p h \<Longrightarrow> same_counts p h h' \<Longrightarrow> hp_mem h' = hp_mem h \<Longrightarrow> pool_mapped p h'"
  by (simp add: pool_mapped_def same_counts_def)

lemma request_round:
  assumes "unat n + 15 < 2 ^ 32"
  shows "unat n \<le> unat (memheap_request n)" and "unat (memheap_request n) + 12 < 2 ^ 32"
    and "unat (memheap_request n) \<le> unat (memheap_request (memheap_request n))"
proof -
  show "unat n \<le> unat (memheap_request n)" using request_covers assms by simp
  have "unat (RT_ALIGN n 4) \<le> unat n + 3" using unat_RT_ALIGN [of n] assms by simp
  then have "unat (memheap_request n) \<le> max 12 (unat n + 3)" by (auto simp: memheap_request_def Let_def)
  then show r: "unat (memheap_request n) + 12 < 2 ^ 32" using assms by auto
  show "unat (memheap_request n) \<le> unat (memheap_request (memheap_request n))" using request_covers r by simp
qed

text \<open>The bytes of \<open>x\<close> are copied to new memory \<open>y\<close> and \<open>x\<close> is freed.\<close>

lemma move_uncontended:
  assumes l: "lock_free p s" and wf: "mh_wf p h" and pm: "pool_mapped p h" and x: "x \<in> mh_held p h"
    and g: "mh_gave p n h y h1" and old: "unat old = room h x" and new: "unat new \<le> n"
  shows "\<exists>h'. realloc_move x old new y (s, h1) = Some (Gives y, (s, h')) \<and> mh_moved p x (unat new) h y h'"
proof (cases "y = RT_NULL")
  case True
  then show ?thesis using g wf pm by (auto simp: realloc_move_def mh_gave_def mh_moved_def)
next
  case y: False
  let ?n = "if old < new then old else new"
  have n: "unat ?n = min (room h x) (unat new)" using old by (simp add: min_def word_less_nat_alt)
  have g1: "mh_wf p h1" "hp_mem h1 = hp_mem h" "same_counts p h h1" "y \<notin> mh_held p h"
    "mh_held p h1 = insert y (mh_held p h)" "n \<le> room h1 y" "\<And>z. z \<in> mh_held p h \<Longrightarrow> room h1 z = room h z \<and> apart h1 y z"
    using g y by (auto simp: mh_gave_def)
  have pm1: "pool_mapped p h1" by (rule pool_mapped_same [OF pm g1(3,2)])
  have m: "mapped y (unat ?n) (hp_mem h1)" "mapped x (unat ?n) (hp_mem h1)"
    by (rule held_mapped [OF g1(1) _ pm1]; use g1(5-7) x n new in auto)+
  have ap: "y + room h1 y + 24 \<le> z \<or> z + room h z + 24 \<le> y" if "z \<in> mh_held p h" for z
    using g1(7) [OF that] unfolding apart_def by metis
  have far: "y \<le> x \<or> x + unat ?n \<le> y" using ap [OF x] n new by auto
  let ?m = "copied y x (unat ?n) (hp_mem h1)"
  let ?h2 = "h1\<lparr>hp_mem := ?m\<rparr>"
  have x2: "x \<in> mh_held p ?h2" "mh_wf p ?h2" using x g1 by simp_all
  note f = memheap_free_ok [OF x2(2,1)]
  let ?h = "memheap_free x ?h2"
  have c: "rt_memcpy y x ?n (hp_mem h1) = Some (y, ?m)" by (rule rt_memcpy_copied [OF m far])
  have e: "realloc_move x old new y (s, h1) = Some (Gives y, (s, ?h))"
    using y c free_uncontended [OF l x2(2,1)] by (simp add: realloc_move_def)
  have bytes: "hp_mem ?h = ?m" using f by simp
  have "same_counts p ?h2 ?h"
  proof -
    obtain bs fs where r: "mh_rep p ?h2 bs fs" using x2(2) by (auto simp: mh_wf_def)
    show ?thesis using free_gives_back(2) [OF r x2(1)] unfolding gave_back_def by blast
  qed
  then have "pool_mapped p ?h" using pm1 bytes m by (simp add: pool_mapped_def same_counts_def)
  moreover have "mh_held p ?h = insert y (mh_held p h - {x})" using f g1(4,5) x by auto
  moreover have "room ?h y = room h1 y" using f g1(4,5) x by auto
  moreover have "hp_mem ?h (y + i) = hp_mem h (x + i)" if "i < min (room h x) (unat new)" for i
    using that n bytes g1(2) by (simp add: copied_def)
  moreover have "room ?h z = room h z" "\<forall>i < room h z. hp_mem ?h (z + i) = hp_mem h (z + i)" if z: "z \<in> mh_held p h - {x}" for z
  proof -
    have "z \<in> mh_held p ?h2 - {x}" using z g1(5) by auto
    then have "room ?h z = room ?h2 z" using f by blast
    then show "room ?h z = room h z" using g1(7) [of z] z by simp
    show "\<forall>i < room h z. hp_mem ?h (z + i) = hp_mem h (z + i)"
      using ap [of z] z n new g1(2,6) bytes by (auto simp: copied_def)
  qed
  ultimately have "mh_moved p x (unat new) h y ?h"
    using f y g1(4,6) new unfolding mh_moved_def by auto
  then show ?thesis using e by blast
qed

lemma elsewhere_uncontended:
  assumes l: "lock_free p s" and wf: "mh_wf p h" and pm: "pool_mapped p h" and x: "x \<in> mh_held p h"
    and old: "unat old = room h x" and new: "unat new \<le> unat (memheap_request new)"
  shows "\<exists>y h'. realloc_elsewhere p x old new (s, h) = Some (Gives y, (s, h')) \<and> mh_moved p x (unat new) h y h'"
proof -
  obtain y h1 where a: "rt_memheap_alloc p new (s, h) = Some (Gives y, (s, h1))" "mh_gave p (unat (memheap_request new)) h y h1"
    using alloc_uncontended [OF l wf] by blast
  then show ?thesis using move_uncontended [OF l wf pm x a(2) old new] by (auto simp: realloc_elsewhere_def)
qed


lemma grow_uncontended:
  assumes l: "lock_free p s" and wf: "mh_wf p h" and pm: "pool_mapped p h" and x: "x \<in> mh_held p h"
    and old: "unat old = room h x" and less: "room h x < unat new" and al: "4 dvd unat new" and sm: "unat new + 12 < 2 ^ 32"
    and cov: "unat new \<le> unat (memheap_request new)"
  shows "\<exists>y h'. rt_memheap_grow_locked p x old new RT_EOK (lock_taken p s, h) = Some (Gives y, (s, h')) \<and>
    mh_moved p x (unat new) h y h'"
proof -
  obtain bs fs where r: "mh_rep p h bs fs" using wf by (auto simp: mh_wf_def)
  obtain us b vs where b: "x = x - 24 + 24" "bs = us @ (x - 24) # b # vs" "is_used (x - 24) h"
    using rep_held_split [OF r x] by metis
  have "bsize h (x - 24) < unat new" using less by (simp add: room_def)
  from grow_resized [OF r b(2,3) this al sm] b(1)
  consider "memheap_grow p x new h = Some (False, h)"
    | h' where "memheap_grow p x new h = Some (True, h')" "resized p bs (x - 24) new h h'" by auto
  then show ?thesis
  proof cases
    case 1
    then show ?thesis using elsewhere_uncontended [OF l wf pm x old cov] lock_release [OF l]
      by (simp add: rt_memheap_grow_locked_def Let_def)
  next
    case 2
    note c = resized_client [OF r 2(2), folded b(1), OF x]
    have "mh_moved p x (unat new) h x h'"
      by (rule mh_moved_same [OF c(1) pool_mapped_same [OF pm c(6,2)] c(2,3) x])
        (use c(4,5) held_in_pool(5) [OF wf x] in auto)
    then show ?thesis using 2(1) lock_release [OF l] by (simp add: rt_memheap_grow_locked_def Let_def)
  qed
qed

lemma shrink_uncontended:
  assumes l: "lock_free p s" and wf: "mh_wf p h" and pm: "pool_mapped p h" and x: "x \<in> mh_held p h"
    and new: "12 \<le> unat new" "4 dvd unat new" "unat new + 36 \<le> room h x"
  shows "\<exists>h'. rt_memheap_shrink_locked p x new RT_EOK (lock_taken p s, h) = Some (Gives x, (s, h')) \<and>
    mh_moved p x (unat new) h x h'"
proof -
  obtain bs fs where r: "mh_rep p h bs fs" using wf by (auto simp: mh_wf_def)
  obtain us b vs where b: "x = x - 24 + 24" "bs = us @ (x - 24) # b # vs" "is_used (x - 24) h"
    using rep_held_split [OF r x] by metis
  have "resized p bs (x - 24) new h (memheap_shrink p (x - 24 + 24) new h)"
    by (rule shrink_resized [OF r b(2,3) new(1,2)]) (use new(3) in \<open>simp add: room_def\<close>)
  then have z: "resized p bs (x - 24) new h (memheap_shrink p x new h)" using b(1) by simp
  note c = resized_client [OF r z, folded b(1), OF x]
  have "mh_moved p x (unat new) h x (memheap_shrink p x new h)"
    by (rule mh_moved_same [OF c(1) pool_mapped_same [OF pm c(6,2)] c(2,3) x])
      (use c(4,5) held_in_pool(5) [OF wf x] in auto)
  then show ?thesis using lock_release [OF l] by (simp add: rt_memheap_shrink_locked_def Let_def)
qed

lemma realloc_uncontended:
  assumes l: "lock_free p s" and wf: "mh_wf p h" and pm: "pool_mapped p h" and x: "x \<in> mh_held p h"
    and new: "n \<noteq> 0" "unat n + 15 < 2 ^ 32"
  shows "\<exists>y h'. rt_memheap_realloc p x n (s, h) = Some (Gives y, (s, h')) \<and>
    mh_moved p x (unat (memheap_request n)) h y h'"
proof -
  let ?n = "memheap_request n" and ?old = "memitem_size (x - 24) h"
  note rr = request_round [OF new(2)] and ro = request_ok [of n]
  have old: "unat ?old = room h x" and x0: "x \<noteq> RT_NULL" using held_in_pool(3,5) [OF wf x] by simp_all
  have cl: "is_class Class_MemHeap p s" using l by (simp add: lock_free_def)
  have small: "unat (?n + RT_MEMHEAP_SIZE + RT_MEMHEAP_MINIALLOC) = unat ?n + 36" if "unat ?n \<le> room h x"
  proof -
    have "x + room h x \<le> 2 ^ 32 - 24"
    proof -
      obtain bs fs where r: "mh_rep p h bs fs" using wf by (auto simp: mh_wf_def)
      obtain us b vs where b: "x = x - 24 + 24" "bs = us @ (x - 24) # b # vs" using rep_held_split [OF r x] by metis
      have "b \<le> last bs" using rep_order(2) [OF r, of b] b(2) by simp
      then show ?thesis using rep_neighbour(3,5) [OF r b(2)] b(1) mh_repD(8) [OF r] by (simp add: room_def)
    qed
    then have "unat ?n + 36 < 2 ^ 32" using that held_in_pool(1) [OF wf x] by simp
    then show ?thesis by (simp add: unat_word_ariths)
  qed
  consider "?old < ?n" | "?n \<le> ?old" "?old \<le> ?n + RT_MEMHEAP_SIZE + RT_MEMHEAP_MINIALLOC"
    | "?n \<le> ?old" "\<not> ?old \<le> ?n + RT_MEMHEAP_SIZE + RT_MEMHEAP_MINIALLOC" by fastforce
  then show ?thesis
  proof cases
    case 1
    then have "room h x < unat ?n" using old by (simp add: word_less_nat_alt)
    then show ?thesis
      using grow_uncontended [OF l wf pm x old, of ?n] 1 rr ro x0 new(1) cl
      by (simp add: rt_memheap_realloc_def Let_def lock_take [OF l])
  next
    case 2
    have "unat ?n \<le> room h x" using 2(1) old by (simp add: word_le_nat_alt)
    then have "mh_moved p x (unat ?n) h x h" using wf pm x x0 by (intro mh_moved_same) auto
    then show ?thesis using 2 x0 new(1) cl by (simp add: rt_memheap_realloc_def Let_def leD)
  next
    case 3
    then have "unat ?n \<le> room h x" using old by (simp add: word_le_nat_alt)
    then have "unat ?n + 36 \<le> room h x" using 3(2) old small by (simp add: word_le_nat_alt)
    then show ?thesis
      using shrink_uncontended [OF l wf pm x, of ?n] 3 ro x0 new(1) cl
      by (simp add: rt_memheap_realloc_def Let_def lock_take [OF l] leD) blast
  qed
qed


text \<open>The other heaps are tried in the order of the list.\<close>

lemma malloc_others_uncontended:
  "\<forall>q \<in> set ps. lock_free q s \<and> mh_wf q h \<Longrightarrow>
   \<exists>x h'. malloc_others dflt sz (map Obj ps) (s, h) = Some (Gives x, (s, h')) \<and>
     (if x = RT_NULL then h' = h \<and> (\<forall>q \<in> set ps - {dflt}. rt_memheap_alloc q sz (s, h) = Some (Gives RT_NULL, (s, h)))
      else \<exists>q \<in> set ps. mh_gave q (unat (memheap_request sz)) h x h')"
proof (induction ps)
  case (Cons p ps)
  then obtain x h' where IH: "malloc_others dflt sz (map Obj ps) (s, h) = Some (Gives x, (s, h'))"
    "if x = RT_NULL then h' = h \<and> (\<forall>q \<in> set ps - {dflt}. rt_memheap_alloc q sz (s, h) = Some (Gives RT_NULL, (s, h)))
      else \<exists>q \<in> set ps. mh_gave q (unat (memheap_request sz)) h x h'"
    by auto
  have p: "lock_free p s" "mh_wf p h" "is_class Class_MemHeap p s" using Cons.prems by (simp_all add: lock_free_def)
  obtain y h1 where a: "rt_memheap_alloc p sz (s, h) = Some (Gives y, (s, h1))" "mh_gave p (unat (memheap_request sz)) h y h1"
    using alloc_uncontended [OF p(1,2)] by blast
  show ?case
  proof (cases "p = dflt")
    case True
    then show ?thesis using IH p(3) by (intro exI [of _ x] exI [of _ h']) auto
  next
    case other: False
    show ?thesis
    proof (cases "y = RT_NULL")
      case True
      then have "h1 = h" using a(2) by (simp add: mh_gave_def)
      then show ?thesis using IH a(1) True p(3) other by (intro exI [of _ x] exI [of _ h']) (auto split: if_splits)
    next
      case False
      then show ?thesis using a p(3) other by (intro exI [of _ y] exI [of _ h1]) auto
    qed
  qed
qed simp

lemma malloc_uncontended:
  assumes l: "lock_free dflt s" and wf: "mh_wf dflt h" and ps: "k_container s Class_MemHeap = map Obj ps"
    and others: "\<forall>q \<in> set ps. lock_free q s \<and> mh_wf q h"
  shows "\<exists>x h'. rt_malloc dflt sz (s, h) = Some (Gives x, (s, h')) \<and>
    (if x = RT_NULL then h' = h \<and> (\<forall>q \<in> insert dflt (set ps). rt_memheap_alloc q sz (s, h) = Some (Gives RT_NULL, (s, h)))
     else \<exists>q \<in> insert dflt (set ps). mh_gave q (unat (memheap_request sz)) h x h')"
proof -
  obtain y h1 where a: "rt_memheap_alloc dflt sz (s, h) = Some (Gives y, (s, h1))" "mh_gave dflt (unat (memheap_request sz)) h y h1"
    using alloc_uncontended [OF l wf] by blast
  show ?thesis
  proof (cases "y = RT_NULL")
    case True
    then have h1: "h1 = h" using a(2) by (simp add: mh_gave_def)
    then have e: "rt_malloc dflt sz (s, h) = malloc_others dflt sz (map Obj ps) (s, h)"
      using a(1) True ps by (simp add: rt_malloc_def rt_object_get_information_def)
    obtain x h' where x: "malloc_others dflt sz (map Obj ps) (s, h) = Some (Gives x, (s, h'))"
      "if x = RT_NULL then h' = h \<and> (\<forall>q \<in> set ps - {dflt}. rt_memheap_alloc q sz (s, h) = Some (Gives RT_NULL, (s, h)))
       else \<exists>q \<in> set ps. mh_gave q (unat (memheap_request sz)) h x h'"
      using malloc_others_uncontended [OF others, of dflt sz] by blast
    then show ?thesis
      using a(1) True h1 unfolding e by (intro exI [of _ x] exI [of _ h']) (auto split: if_splits)
  next
    case False
    then show ?thesis using a by (intro exI [of _ y] exI [of _ h1]) (auto simp: rt_malloc_def)
  qed
qed

lemma calloc_uncontended:
  assumes l: "lock_free dflt s" and wf: "mh_wf dflt h" and ps: "k_container s Class_MemHeap = map Obj ps"
    and others: "\<forall>q \<in> set ps. lock_free q s \<and> mh_wf q h" and pm: "\<forall>q \<in> insert dflt (set ps). pool_mapped q h"
    and sm: "unat (c * n) + 3 < 2 ^ 32"
  shows "\<exists>x h'. rt_calloc dflt c n (s, h) = Some (Gives x, (s, h')) \<and>
    (if x = RT_NULL then h' = h
     else (\<exists>q \<in> insert dflt (set ps). x \<notin> mh_held q h \<and> x \<in> mh_held q h' \<and> unat (c * n) \<le> room h' x) \<and>
       (\<forall>i < unat (c * n). hp_mem h' (x + i) = Some 0) \<and>
       (\<forall>a. a < x \<or> x + unat (c * n) \<le> a \<longrightarrow> hp_mem h' a = hp_mem h a))"
proof -
  obtain x h1 where a: "rt_malloc dflt (c * n) (s, h) = Some (Gives x, (s, h1))"
    "if x = RT_NULL then h1 = h \<and> (\<forall>q \<in> insert dflt (set ps). rt_memheap_alloc q (c * n) (s, h) = Some (Gives RT_NULL, (s, h)))
     else \<exists>q \<in> insert dflt (set ps). mh_gave q (unat (memheap_request (c * n))) h x h1"
    using malloc_uncontended [OF l wf ps others] by blast
  show ?thesis
  proof (cases "x = RT_NULL")
    case True
    then show ?thesis using a by (simp add: rt_calloc_def Let_def)
  next
    case False
    then obtain q where q: "q \<in> insert dflt (set ps)" "mh_gave q (unat (memheap_request (c * n))) h x h1" using a(2) by auto
    have g: "mh_wf q h1" "hp_mem h1 = hp_mem h" "same_counts q h h1" "x \<notin> mh_held q h" "x \<in> mh_held q h1"
      "unat (memheap_request (c * n)) \<le> room h1 x" using q(2) False by (auto simp: mh_gave_def)
    have le: "unat (c * n) \<le> room h1 x" using g(6) request_covers [OF sm] by simp
    have "pool_mapped q h1" using pool_mapped_same [OF _ g(3,2)] pm q(1) by blast
    then have m: "mapped x (unat (c * n)) (hp_mem h1)" by (rule held_mapped [OF g(1,5) _ le])
    let ?h = "h1\<lparr>hp_mem := filled x (unat (c * n)) 0 (hp_mem h1)\<rparr>"
    have "rt_calloc dflt c n (s, h) = Some (Gives x, (s, ?h))"
      using a(1) False rt_memset_filled [OF m, of 0] by (simp add: rt_calloc_def Let_def)
    moreover have "x \<notin> mh_held q h \<and> x \<in> mh_held q ?h \<and> unat (c * n) \<le> room ?h x" using g le by simp
    ultimately show ?thesis using False q(1) g(2) by (intro exI [of _ x] exI [of _ ?h]) (auto simp: filled_def)
  qed
qed

text \<open>A block grows by almost the whole address space.\<close>

lemma grow_wraps:
  assumes r: "mh_rep p h bs fs" and bs: "bs = us @ a # b # vs" and b: "\<not> is_used b h" and sz: "2 ^ 32 \<le> unat sz + 12"
  shows "\<exists>h'. memheap_grow p (a + 24) sz h = Some (True, h')"
proof -
  note nb = rep_neighbour [OF r bs] and d = mh_repD [OF r]
  obtain vs' w where vs: "vs = w # vs'" using b d(14) bs by (cases vs) auto
  note nw = rep_neighbour [OF r, of "us @ [a]" b w vs']
  have e: "unat (memitem_size a h) = b - a - 24" "unat (memitem_size b h) = w - b - 24" "a + 36 \<le> b" "b + 36 \<le> w" "w < 2 ^ 32"
    using nb nw bs vs by simp_all
  then have l: "24 \<le> unat (memitem_size b h + memitem_size a h)" by (simp add: unat_word_ariths)
  have lt: "unat sz < 2 ^ 32" using unsigned_less [of sz, where 'a = nat] by simp
  have "unat (sz + RT_MEMHEAP_MINIALLOC) = (unat sz + 12) mod 2 ^ 32" by (simp add: unat_word_ariths)
  also have "\<dots> = unat sz + 12 - 2 ^ 32" using sz lt by (subst le_mod_geq) simp_all
  also have "\<dots> < 12" using lt by simp
  finally have "sz + RT_MEMHEAP_MINIALLOC < memitem_size b h + memitem_size a h" using l by (simp add: word_less_nat_alt)
  then show ?thesis using nb e(3) b by (simp add: memheap_grow_def Let_def rt_assert_def)
qed


section \<open>Properties\<close>

text \<open>C10: \<open>rt_memheap_realloc\<close> of memory that is held returns, whether the block grows into its free
  neighbour, is moved, keeps its place or is split: the memory it gives has the new size and the old bytes
  as far as they go, and takes the place of the old one; all other memory keeps its place, size and bytes. A
  refusal leaves the heap and the old block as they were.\<close>

theorem rt_memheap_realloc_keeps:
  assumes "lock_free p s" and "mh_wf p h" and "pool_mapped p h" and "x \<in> mh_held p h"
    and "n \<noteq> 0" and "unat n + 15 < 2 ^ 32"
  shows "\<exists>y h'. rt_memheap_realloc p x n (s, h) = Some (Gives y, (s, h')) \<and> mh_wf p h' \<and> pool_mapped p h' \<and>
     (if y = RT_NULL then h' = h
      else mh_held p h' = insert y (mh_held p h - {x}) \<and> (y \<noteq> x \<longrightarrow> y \<notin> mh_held p h) \<and> unat n \<le> room h' y \<and>
        (\<forall>i < min (room h x) (unat n). hp_mem h' (y + i) = hp_mem h (x + i)) \<and>
        (\<forall>z \<in> mh_held p h - {x}. room h' z = room h z \<and> (\<forall>i < room h z. hp_mem h' (z + i) = hp_mem h (z + i))))"
proof -
  obtain y h' where "rt_memheap_realloc p x n (s, h) = Some (Gives y, (s, h'))" "mh_moved p x (unat (memheap_request n)) h y h'"
    using realloc_uncontended [OF assms] by blast
  then show ?thesis
    using request_round(1) [OF assms(6)] unfolding mh_moved_def by (intro exI [of _ y] exI [of _ h']) auto
qed

text \<open>\<open>rt_malloc\<close> returns new memory of the default heap or of another heap of the system, or \<open>RT_NULL\<close>
  without a change when every heap refuses.\<close>

theorem rt_malloc_searches:
  assumes "lock_free dflt s" and "mh_wf dflt h" and "k_container s Class_MemHeap = map Obj ps"
    and "\<forall>q \<in> set ps. lock_free q s \<and> mh_wf q h"
  shows "\<exists>x h'. rt_malloc dflt sz (s, h) = Some (Gives x, (s, h')) \<and>
    (if x = RT_NULL then h' = h \<and> (\<forall>q \<in> insert dflt (set ps). rt_memheap_alloc q sz (s, h) = Some (Gives RT_NULL, (s, h)))
     else \<exists>q \<in> insert dflt (set ps). mh_gave q (unat (memheap_request sz)) h x h')"
  by (rule malloc_uncontended [OF assms])

text \<open>\<open>rt_calloc\<close> gives new memory whose first \<open>count * size\<close> bytes are zero, and writes no other byte.
  The product is not checked: it is the one of 32-bit words, so the memory may be smaller than the
  elements asked for.\<close>

theorem rt_calloc_clears:
  assumes "lock_free dflt s" and "mh_wf dflt h" and "k_container s Class_MemHeap = map Obj ps"
    and "\<forall>q \<in> set ps. lock_free q s \<and> mh_wf q h" and "\<forall>q \<in> insert dflt (set ps). pool_mapped q h"
    and "unat (c * n) + 3 < 2 ^ 32"
  shows "\<exists>x h'. rt_calloc dflt c n (s, h) = Some (Gives x, (s, h')) \<and>
    (if x = RT_NULL then h' = h
     else (\<exists>q \<in> insert dflt (set ps). x \<notin> mh_held q h \<and> x \<in> mh_held q h' \<and> unat (c * n) \<le> room h' x) \<and>
       (\<forall>i < unat (c * n). hp_mem h' (x + i) = Some 0) \<and>
       (\<forall>a. a < x \<or> x + unat (c * n) \<le> a \<longrightarrow> hp_mem h' a = hp_mem h a))"
  by (rule calloc_uncontended [OF assms])

lemma forever_not_half: "RT_WAITING_FOREVER \<noteq> TICK_HALF"
  by (simp add: TICK_HALF_def)

text \<open>C11: While another thread holds the lock of a heap, a thread that allocates is suspended in the list of
  the lock and the heap stays as it is.\<close>

theorem rt_memheap_alloc_waits:
  assumes "healthy idle s" and "k_cur s \<noteq> idle" and "k_irq s = 0" and "is_class Class_MemHeap p s"
    and "is_class Class_Semaphore (heap_lock p) s" and "sem_val s (heap_lock p) = 0"
    and "ipc_flag (heap_lock p) s = RT_IPC_FLAG_FIFO" and "memheap_request sz < mh_available_size (hp_mh h p)"
  shows "\<exists>s'. rt_memheap_alloc p sz (s, h) = Some (Waits, (s', h)) \<and> healthy idle s' \<and>
     k_q s' (Susp (heap_lock p)) = k_q s (Susp (heap_lock p)) @ [k_cur s] \<and> k_cur s' \<noteq> k_cur s"
proof -
  obtain s' where t: "rt_sem_take (heap_lock p) RT_WAITING_FOREVER s = Some (Blocked, s')"
    and w: "waits_in idle (Susp (heap_lock p)) RT_IPC_FLAG_FIFO RT_WAITING_FOREVER s s'"
    using sem_take_waits [OF assms(1-3,5,6), of RT_WAITING_FOREVER] assms(7) forever_not_half by auto
  have "rt_memheap_alloc p sz (s, h) = Some (Waits, (s', h))"
    using t assms(4,8) by (simp add: rt_memheap_alloc_def Let_def heap_locked_def)
  then show ?thesis using waits_inD [OF w] by (auto simp: wait_insert_def)
qed

text \<open>The lock does not hold back a thread that has locked the scheduler: its \<open>rt_sem_take\<close> comes back with
  \<open>RT_EOK\<close>, and the allocation goes on with the heap in the middle of another thread's operation.\<close>

theorem rt_memheap_alloc_unlocked:
  assumes "sys_inv 0 s" and "k_lock s \<noteq> 0" and "k_irq s = 0" and "k_cur s \<noteq> RT_NULL"
    and "stat_of (k_thr s (k_cur s)) = RT_THREAD_RUNNING" and "is_class Class_MemHeap p s"
    and "is_class Class_Semaphore (heap_lock p) s" and "sem_val s (heap_lock p) = 0"
    and "ipc_flag (heap_lock p) s = RT_IPC_FLAG_FIFO" and "memheap_request sz < mh_available_size (hp_mh h p)"
  shows "\<exists>s'. rt_memheap_alloc p sz (s, h) = rt_memheap_alloc_locked p (memheap_request sz) RT_EOK (s', h) \<and>
     k_cur s' = k_cur s \<and> sem_val s' (heap_lock p) = 0"
proof -
  obtain s' where "rt_sem_take (heap_lock p) RT_WAITING_FOREVER s = Some (Returns RT_EOK, s')" "k_cur s' = k_cur s"
    "sem_val s' (heap_lock p) = 0"
    using sem_take_locked [OF assms(1-5,7,8), of RT_WAITING_FOREVER] assms(9) by auto
  then show ?thesis using assms(6,10) by (intro exI [of _ s']) (simp add: rt_memheap_alloc_def Let_def heap_locked_def)
qed

text \<open>C37: Two requests near the end of the range of sizes are not refused: an allocation of more than
  \<open>2 ^ 32 - 4\<close> bytes is rounded to 0 and served as one of 12, and a reallocation to almost \<open>2 ^ 32\<close> bytes of a
  block with a free block behind it returns the block as if it had grown.\<close>

theorem rt_memheap_sizes_wrap:
  assumes "lock_free p s" and "mh_rep p h bs fs" and "bs = us @ a # b # vs" and "is_used a h" and "\<not> is_used b h"
    and "2 ^ 32 - 16 < unat n" and "unat n \<le> 2 ^ 32 - 4" and "2 ^ 32 - 4 < unat m"
  shows "rt_memheap_alloc p m (s, h) = rt_memheap_alloc p 12 (s, h) \<and>
    (\<exists>h'. rt_memheap_realloc p (a + 24) n (s, h) = Some (Gives (a + 24), (s, h')) \<and> room h (a + 24) < unat n)"
proof -
  have m: "memheap_request m = memheap_request 12"
  proof -
    have lt: "unat m < 2 ^ 32" using unsigned_less [of m, where 'a = nat] by simp
    have "unat (m + 3) = (unat m + 3) mod 2 ^ 32" by (simp add: unat_word_ariths)
    also have "\<dots> = unat m + 3 - 2 ^ 32" using assms(8) lt by (subst le_mod_geq) simp_all
    finally have "unat (m + 3) div 4 * 4 = 0" using lt by simp
    then have "unat (RT_ALIGN m 4) = 0" by (simp add: RT_ALIGN_def unat_and_minus_4 add.commute)
    then have "RT_ALIGN m 4 = 0" by (simp add: unat_eq_zero)
    then show ?thesis by (simp add: memheap_request_def Let_def RT_ALIGN_def)
  qed
  have "unat (RT_ALIGN n 4) = (unat n + 3) div 4 * 4" using assms(7) by (intro unat_RT_ALIGN) simp
  moreover have "4294967284 div 4 * 4 \<le> (unat n + 3) div 4 * 4"
    using assms(6) by (intro mult_le_mono1 div_le_mono) simp
  ultimately have big: "2 ^ 32 \<le> unat (RT_ALIGN n 4) + 12" by simp
  then have r: "memheap_request n = RT_ALIGN n 4" by (simp add: memheap_request_def Let_def word_less_nat_alt)
  obtain h' where g: "memheap_grow p (a + 24) (memheap_request n) h = Some (True, h')"
    using grow_wraps [OF assms(2,3,5)] big r by auto
  note nb = rep_neighbour [OF assms(2,3)]
  have "b \<in> set bs" using assms(3) by simp
  then have "b + 24 \<le> 2 ^ 32" using rep_order(2) [OF assms(2), of b] mh_repD(8) [OF assms(2)] by linarith
  then have rm: "room h (a + 24) + 48 \<le> 2 ^ 32" using nb(3,5) by (simp add: room_def)
  have "memitem_size a h < memheap_request n" using nb(7) rm big r by (simp add: word_less_nat_alt room_def)
  moreover have "n \<noteq> 0" using assms(6) by auto
  ultimately have "rt_memheap_realloc p (a + 24) n (s, h) = Some (Gives (a + 24), (s, h'))"
    using g assms(1) lock_release [OF assms(1)]
    by (simp add: rt_memheap_realloc_def Let_def lock_take [OF assms(1)] rt_memheap_grow_locked_def) (simp add: lock_free_def)
  then show ?thesis using m rm assms(6) by (auto simp: rt_memheap_alloc_def Let_def)
qed

end
