(* ===== verification/RTT_Idle.thy ===== *)
theory RTT_Idle
  imports RTT_Thread
begin

text \<open>
  The idle thread (\<open>src/idle.c\<close>): it calls the idle hooks in turn and gives back what threads that have ended
  leave in the defunct list. The cleanup function of a thread is code of the application, the parameter
  \<open>cleanup\<close>. The heap calls that free the stack and the object of a dynamic thread are the first result of
  \<open>rt_thread_idle_excute\<close>: the list of the threads that were freed, in order. The endless loop of the thread itself,
  which calls the hooks and then this function, is not modelled.
\<close>

section \<open>Operations\<close>

abbreviation (input) RT_ENOSYS :: rt_err where "RT_ENOSYS \<equiv> 6"

text \<open>The first slot of the hook list that holds \<open>a\<close> gets \<open>b\<close>.\<close>

fun hook_replace :: "ptr \<Rightarrow> ptr \<Rightarrow> ptr list \<Rightarrow> ptr list option" where
  "hook_replace a b [] = None"
| "hook_replace a b (h # hs) = (if h = a then Some (b # hs) else map_option ((#) h) (hook_replace a b hs))"

definition rt_thread_idle_sethook :: "ptr \<Rightarrow> ptr list \<Rightarrow> rt_err \<times> ptr list" where
  "rt_thread_idle_sethook hook hooks =
     (case hook_replace RT_NULL hook hooks of None \<Rightarrow> (- RT_EFULL, hooks) | Some hs \<Rightarrow> (RT_EOK, hs))"

definition rt_thread_idle_delhook :: "ptr \<Rightarrow> ptr list \<Rightarrow> rt_err \<times> ptr list" where
  "rt_thread_idle_delhook hook hooks =
     (case hook_replace hook RT_NULL hooks of None \<Rightarrow> (- RT_ENOSYS, hooks) | Some hs \<Rightarrow> (RT_EOK, hs))"

definition has_defunct_thread :: "kstate \<Rightarrow> bool" where
  "has_defunct_thread s \<longleftrightarrow> k_q s Defunct \<noteq> []"

text \<open>One round of the loop, up to \<open>rt_exit_critical\<close>, which may switch to a thread that the cleanup function has
  made ready.\<close>

definition idle_reclaim :: "(ptr \<Rightarrow> kstate \<Rightarrow> kstate option) \<Rightarrow> kstate \<Rightarrow> (ptr \<times> bool \<times> kstate) option" where
  "idle_reclaim cleanup s = do {
     rt_assert (k_irq s = 0);
     let t = hd (k_q s Defunct);
     let s = tlist_remove t s;
     let s = rt_enter_critical s;
     s \<leftarrow> (if t_cleanup (k_thr s t) then cleanup t s else Some s);
     let static = rt_object_is_systemobject (Obj t) s;
     let s = (if static then rt_object_detach (Obj t) s else s);
     s \<leftarrow> rt_exit_critical s;
     Some (t, static, s)
   }"

partial_function (option) rt_thread_idle_excute ::
  "(ptr \<Rightarrow> kstate \<Rightarrow> kstate option) \<Rightarrow> kstate \<Rightarrow> (outcome \<times> ptr list \<times> kstate) option"
where
  "rt_thread_idle_excute cleanup s =
     (if has_defunct_thread s
      then do {
        let me = rt_thread_self s;
        (t, static, s) \<leftarrow> idle_reclaim cleanup s;
        if rt_thread_self s \<noteq> me then Some (Blocked, [], s)
        else if static then Some (Returns RT_EOK, [], s)
        else do {
          s \<leftarrow> rt_object_delete (Obj t) s;
          (r, freed, s) \<leftarrow> rt_thread_idle_excute cleanup s;
          Some (r, t # freed, s)
        }
      }
      else Some (Returns RT_EOK, [], s))"

text \<open>The rest of the call when the idle thread runs again; \<open>t\<close> and \<open>static\<close> are its local variables.\<close>

definition rt_thread_idle_excute_resume ::
  "(ptr \<Rightarrow> kstate \<Rightarrow> kstate option) \<Rightarrow> ptr \<Rightarrow> bool \<Rightarrow> kstate \<Rightarrow> (outcome \<times> ptr list \<times> kstate) option"
where
  "rt_thread_idle_excute_resume cleanup t static s =
     (if static then Some (Returns RT_EOK, [], s)
      else do {
        s \<leftarrow> rt_object_delete (Obj t) s;
        (r, freed, s) \<leftarrow> rt_thread_idle_excute cleanup s;
        Some (r, t # freed, s)
      })"

definition rt_thread_idle_init :: "ptr \<Rightarrow> ptr \<Rightarrow> kstate \<Rightarrow> kstate option" where
  "rt_thread_idle_init idle stack_start s = do {
     (_, s) \<leftarrow> rt_thread_init idle ''tidle0'' stack_start 31 32 s;
     (_, s) \<leftarrow> rt_thread_startup idle s;
     Some s
   }"

definition rt_thread_idle_gethandler :: "ptr \<Rightarrow> ptr" where
  "rt_thread_idle_gethandler idle = idle"


section \<open>Hooks\<close>

lemma hook_replace_None: "hook_replace a b hs = None \<longleftrightarrow> a \<notin> set hs"
  by (induction hs) auto

lemma hook_replace_Some:
  "hook_replace a b hs = Some hs' \<Longrightarrow> \<exists>us vs. hs = us @ a # vs \<and> a \<notin> set us \<and> hs' = us @ b # vs"
proof (induction hs arbitrary: hs')
  case (Cons h hs)
  show ?case
  proof (cases "h = a")
    case False
    then obtain us vs hs2 where "hs = us @ a # vs" "a \<notin> set us" "hs2 = us @ b # vs" "hs' = h # hs2"
      using Cons by (auto split: if_splits)
    then show ?thesis using False by (intro exI [of _ "h # us"] exI [of _ vs]) simp
  next
    case True
    then show ?thesis using Cons.prems by (intro exI [of _ "[]"] exI [of _ hs]) simp
  qed
qed simp

lemma hook_replace_back:
  "hook_replace a b hs = Some hs' \<Longrightarrow> b \<notin> set hs \<Longrightarrow> hook_replace b a hs' = Some hs"
  by (induction hs arbitrary: hs') (auto split: if_splits)

text \<open>A hook that is set and deleted leaves the list as it was; a full list refuses it, and a hook that was
  not set cannot be deleted.\<close>

theorem rt_thread_idle_hooks:
  assumes "hook \<notin> set hooks"
  shows "rt_thread_idle_delhook hook hooks = (- RT_ENOSYS, hooks) \<and>
    (if RT_NULL \<in> set hooks
     then \<exists>hs. rt_thread_idle_sethook hook hooks = (RT_EOK, hs) \<and> hook \<in> set hs \<and> length hs = length hooks \<and>
       rt_thread_idle_delhook hook hs = (RT_EOK, hooks)
     else rt_thread_idle_sethook hook hooks = (- RT_EFULL, hooks))"
proof -
  have d: "rt_thread_idle_delhook hook hooks = (- RT_ENOSYS, hooks)"
    using assms hook_replace_None [of hook RT_NULL hooks] by (simp add: rt_thread_idle_delhook_def)
  show ?thesis
  proof (cases "hook_replace RT_NULL hook hooks")
    case None
    then show ?thesis using d hook_replace_None [of RT_NULL hook hooks] by (simp add: rt_thread_idle_sethook_def)
  next
    case (Some hs)
    moreover obtain us vs where "hooks = us @ RT_NULL # vs" "hs = us @ hook # vs" using hook_replace_Some [OF Some] by blast
    ultimately show ?thesis using d hook_replace_back [OF Some assms]
      by (simp add: rt_thread_idle_sethook_def rt_thread_idle_delhook_def)
  qed
qed


section \<open>The defunct list\<close>

text \<open>What the loop relies on: a cleanup function ends, keeps the kernel invariant, and leaves the scheduling, the
  defunct list and the objects alone.\<close>

definition tidy :: "(ptr \<Rightarrow> kstate \<Rightarrow> kstate option) \<Rightarrow> bool" where
  "tidy cleanup \<longleftrightarrow> (\<forall>t s. kinv s \<longrightarrow> (\<exists>s'. cleanup t s = Some s' \<and> kinv s' \<and> k_q s' Defunct = k_q s Defunct \<and>
     k_group s' = k_group s \<and> k_cur s' = k_cur s \<and> k_lock s' = k_lock s \<and> k_irq s' = k_irq s \<and> k_obj s' = k_obj s \<and>
     k_container s' = k_container s))"

abbreviation dynamic :: "kstate \<Rightarrow> ptr \<Rightarrow> bool" where
  "dynamic s t \<equiv> \<not> rt_object_is_systemobject (Obj t) s"

text \<open>The idle thread runs, and no other thread is ready.\<close>

definition idling :: "kstate \<Rightarrow> bool" where
  "idling s \<longleftrightarrow> kinv s \<and> obj_wf s \<and> k_group s = 0 \<and> k_lock s = 0 \<and> k_irq s = 0"

lemma defunct_closed:
  assumes "kinv s" and "t \<in> set (k_q s Defunct)"
  shows "stat_of (k_thr s t) = RT_THREAD_CLOSE" and "t_tlist (k_thr s t) = Some Defunct" and "t \<noteq> RT_NULL"
proof -
  have inv: "kinv_but {} s" using assms(1) by (simp add: kinv_def)
  show tl: "t_tlist (k_thr s t) = Some Defunct" using links_okD(2) [OF kinv_butD(1) [OF inv]] assms(2) by blast
  show c: "stat_of (k_thr s t) = RT_THREAD_CLOSE"
    using kinv_butD(5) [OF inv, of t] tl by (auto simp: node_ok_def split: if_splits)
  show "t \<noteq> RT_NULL"
  proof
    assume "t = RT_NULL"
    then show False using kinv_butD(7) [OF inv] c by simp
  qed
qed

lemma defunct_remove_inv:
  assumes inv: "kinv s" and t: "t \<in> set (k_q s Defunct)"
  shows "kinv (tlist_remove t s)"
proof -
  note d = defunct_closed [OF inv t]
  have inv0: "kinv_but {} s" using inv by (simp add: kinv_def)
  have "kinv_but {} (tlist_remove t s)"
  proof (rule kinv_butI)
    show "links_ok (tlist_remove t s)" by (rule links_ok_remove [OF kinv_butD(1) [OF inv0]])
    show "group_ok (tlist_remove t s)" using kinv_butD(2) [OF inv0] d(2) by (simp add: group_ok_def)
    fix u
    show "prio_ok (k_thr (tlist_remove t s) u)" using kinv_butD(3) [OF inv0, of u] by (auto simp: prio_ok_def)
    show "node_ok (k_thr (tlist_remove t s) u)"
      using kinv_butD(5) [OF inv0, of u] d(1) by (auto simp: node_ok_stat)
    show "stat_of (k_thr (tlist_remove t s) u) = RT_THREAD_RUNNING \<Longrightarrow> u = k_cur (tlist_remove t s)"
      using kinv_butD(6) [OF inv0, of u] by (simp split: if_splits)
  qed (use kinv_butD(7) [OF inv0] in simp_all)
  then show ?thesis by (simp add: kinv_def)
qed

text \<open>The objects of \<open>X\<close> have left the object system, and nothing else there has changed.\<close>

definition gone :: "oref set \<Rightarrow> kstate \<Rightarrow> kstate \<Rightarrow> bool" where
  "gone X s s' \<longleftrightarrow> (\<forall>y ty. y \<in> set (k_container s' ty) \<longleftrightarrow> y \<notin> X \<and> y \<in> set (k_container s ty)) \<and>
     (\<forall>y. y \<notin> X \<longrightarrow> k_obj s' y = k_obj s y)"

lemma gone_none: "k_obj s' = k_obj s \<Longrightarrow> k_container s' = k_container s \<Longrightarrow> gone {} s s'"
  by (simp add: gone_def)

lemma gone_trans: "gone X s s1 \<Longrightarrow> gone Y s1 s2 \<Longrightarrow> gone (X \<union> Y) s s2"
  unfolding gone_def by auto

lemma detach_gone: "obj_wf s \<Longrightarrow> obj_wf (rt_object_detach x s) \<and> gone {x} s (rt_object_detach x s)"
  by (auto simp: gone_def obj_wf_def rt_object_detach_def container_remove_def set_obj_def
      rt_object_get_type_def dest: in_set_remove1 [THEN iffD1, rotated])

lemma rt_object_delete_detach: "dynamic s t \<Longrightarrow> rt_object_delete (Obj t) s = Some (rt_object_detach (Obj t) s)"
  by (simp add: rt_object_delete_def rt_object_detach_def)

lemma exit_idle:
  "k_group s = 0 \<Longrightarrow> k_lock s = 1 \<Longrightarrow> rt_exit_critical s = Some (s\<lparr>k_lock := 0\<rparr>)"
  by (simp add: rt_exit_critical_def rt_schedule_def Let_def)

lemma idle_reclaim_ok:
  assumes i: "idling s" and tidy: "tidy cleanup" and d: "k_q s Defunct = t # ts"
  shows "\<exists>s1. idle_reclaim cleanup s = Some (t, \<not> dynamic s t, s1) \<and> idling s1 \<and> k_q s1 Defunct = ts \<and> k_cur s1 = k_cur s \<and>
    gone (if dynamic s t then {} else {Obj t}) s s1"
proof -
  let ?s1 = "rt_enter_critical (tlist_remove t s)"
  note k = i [unfolded idling_def]
  have td: "t \<in> set (k_q s Defunct)" using d by simp
  have f1: "kinv ?s1" using defunct_remove_inv [OF _ td] k critical_inv(1) by blast
  have f: "k_q ?s1 Defunct = ts" "k_group ?s1 = 0" "k_lock ?s1 = 1" "k_irq ?s1 = 0" "k_cur ?s1 = k_cur s"
    "k_obj ?s1 = k_obj s" "k_container ?s1 = k_container s"
    using k d defunct_closed(2) [OF _ td] by (simp_all add: rt_enter_critical_def)
  obtain s2 where s2: "(if t_cleanup (k_thr ?s1 t) then cleanup t ?s1 else Some ?s1) = Some s2" "kinv s2" "k_q s2 Defunct = ts"
    "k_group s2 = 0" "k_lock s2 = 1" "k_irq s2 = 0" "k_cur s2 = k_cur s" "k_obj s2 = k_obj s" "k_container s2 = k_container s"
  proof (cases "t_cleanup (k_thr ?s1 t)")
    case True
    obtain s' where "cleanup t ?s1 = Some s'" "kinv s'" "k_q s' Defunct = k_q ?s1 Defunct" "k_group s' = k_group ?s1"
      "k_cur s' = k_cur ?s1" "k_lock s' = k_lock ?s1" "k_irq s' = k_irq ?s1" "k_obj s' = k_obj ?s1" "k_container s' = k_container ?s1"
      using tidy f1 unfolding tidy_def by blast
    then show ?thesis using that f True by simp
  next
    case False
    then show ?thesis using that [of ?s1] f f1 by simp
  qed
  have st: "rt_object_is_systemobject (Obj t) s2 \<longleftrightarrow> \<not> dynamic s t" using s2(8) by (simp add: rt_object_is_systemobject_def)
  have wf2: "obj_wf s2" using k obj_wf_cong [OF s2(8,9)] by simp
  let ?s3 = "if dynamic s t then s2 else rt_object_detach (Obj t) s2"
  have s3: "kinv ?s3" "obj_wf ?s3" "k_q ?s3 Defunct = ts" "k_group ?s3 = 0" "k_lock ?s3 = 1" "k_irq ?s3 = 0" "k_cur ?s3 = k_cur s"
    using s2 wf2 detach_gone [OF wf2, of "Obj t"] by simp_all
  have "gone (if dynamic s t then {} else {Obj t}) s ?s3"
    using detach_gone [OF wf2, of "Obj t"] gone_none [OF s2(8,9)] gone_trans [of "{}" s s2 "{Obj t}"] by auto
  then have g: "gone (if dynamic s t then {} else {Obj t}) s (?s3\<lparr>k_lock := 0\<rparr>)" by (simp add: gone_def)
  have "idle_reclaim cleanup s = Some (t, \<not> dynamic s t, ?s3\<lparr>k_lock := 0\<rparr>)"
    using s2(1) st k d exit_idle [OF s3(4,5)]
    by (cases "dynamic s t") (simp_all add: idle_reclaim_def Let_def)
  moreover have "obj_wf (?s3\<lparr>k_lock := 0\<rparr>)" using s3(2) obj_wf_cong [of "?s3\<lparr>k_lock := 0\<rparr>" ?s3] by simp
  then have "idling (?s3\<lparr>k_lock := 0\<rparr>)" using s3 unfolding idling_def by simp
  ultimately show ?thesis using g s3(3,7) by (intro exI [of _ "?s3\<lparr>k_lock := 0\<rparr>"]) simp
qed

lemma idle_excute_ok:
  "idling s \<Longrightarrow> tidy cleanup \<Longrightarrow> k_q s Defunct = ts \<Longrightarrow>
   \<exists>s'. rt_thread_idle_excute cleanup s = Some (Returns RT_EOK, takeWhile (dynamic s) ts, s') \<and> idling s' \<and> k_cur s' = k_cur s \<and>
     k_q s' Defunct = tl (dropWhile (dynamic s) ts) \<and>
     gone (Obj ` set (takeWhile (dynamic s) ts @ take 1 (dropWhile (dynamic s) ts))) s s'"
proof (induction ts arbitrary: s)
  case Nil
  then show ?case by (subst rt_thread_idle_excute.simps) (simp add: has_defunct_thread_def gone_none)
next
  case (Cons t ts)
  obtain s1 where s1: "idle_reclaim cleanup s = Some (t, \<not> dynamic s t, s1)" "idling s1" "k_q s1 Defunct = ts" "k_cur s1 = k_cur s"
    "gone (if dynamic s t then {} else {Obj t}) s s1"
    using idle_reclaim_ok [OF Cons.prems] by blast
  show ?case
  proof (cases "dynamic s t")
    case False
    then show ?thesis using s1 Cons.prems(3)
      by (subst rt_thread_idle_excute.simps) (simp add: has_defunct_thread_def rt_thread_self_def)
  next
    case True
    let ?s2 = "rt_object_detach (Obj t) s1"
    have d1: "dynamic s1 t" using True s1(5) by (simp add: gone_def rt_object_is_systemobject_def)
    have g: "gone {Obj t} s1 ?s2" "obj_wf ?s2" using detach_gone s1(2) by (auto simp: idling_def)
    have i2: "idling ?s2" using s1(2) g(2) by (simp add: idling_def)
    have g2: "gone {Obj t} s ?s2" using gone_trans [OF s1(5) g(1)] True by simp
    have k: "kinv s" "t \<notin> set ts" using Cons.prems(1,3) links_okD(1) [OF kinv_butD(1), of "{}" s Defunct]
      by (auto simp: idling_def kinv_def)
    have dy: "dynamic ?s2 u = dynamic s u" if "u \<in> set ts" for u
      using g2 k(2) that by (auto simp: gone_def rt_object_is_systemobject_def)
    have tw: "takeWhile (dynamic ?s2) ts = takeWhile (dynamic s) ts" "dropWhile (dynamic ?s2) ts = dropWhile (dynamic s) ts"
      using dy by (auto intro: takeWhile_cong dropWhile_cong)
    obtain s' where s': "rt_thread_idle_excute cleanup ?s2 = Some (Returns RT_EOK, takeWhile (dynamic ?s2) ts, s')" "idling s'"
      "k_cur s' = k_cur ?s2" "k_q s' Defunct = tl (dropWhile (dynamic ?s2) ts)"
      "gone (Obj ` set (takeWhile (dynamic ?s2) ts @ take 1 (dropWhile (dynamic ?s2) ts))) ?s2 s'"
      using Cons.IH [OF i2 Cons.prems(2)] s1(3) by auto
    have "rt_thread_idle_excute cleanup s = Some (Returns RT_EOK, t # takeWhile (dynamic s) ts, s')"
      using s1(1,4) s'(1) Cons.prems(3) True rt_object_delete_detach [OF d1] tw
      by (subst rt_thread_idle_excute.simps) (simp add: has_defunct_thread_def rt_thread_self_def)
    moreover have "gone (Obj ` set (takeWhile (dynamic s) (t # ts) @ take 1 (dropWhile (dynamic s) (t # ts)))) s s'"
      using gone_trans [OF g2 s'(5)] tw True by (simp add: Un_assoc)
    ultimately show ?thesis using s'(2-4) s1(4) tw True by simp
  qed
qed


text \<open>A second static thread with a cleanup function is still in the list after the call, although the comment in
  the code says that one call does all the cleanups.\<close>

theorem rt_thread_idle_excute_stops_early:
  assumes "idling s" and "tidy cleanup" and "k_q s Defunct = t # u # us" and "\<not> dynamic s t"
  shows "\<exists>s'. rt_thread_idle_excute cleanup s = Some (Returns RT_EOK, [], s') \<and> k_q s' Defunct = u # us"
  using idle_excute_ok [OF assms(1-3)] assms(4) by auto

end
