(* ===== verification/RTT_Completion.thy ===== *)
theory RTT_Completion
  imports RTT_Sem
begin

text \<open>
  Completions (\<open>components/drivers/src/completion.c\<close>): a flag and a list for the one thread that waits for it. A
  completion is no kernel object, so its flag is a value beside the kernel state; its list is the queue
  \<open>Susp p\<close> of the address \<open>p\<close> of the completion. The statements that the drivers' helpers share, to wait at the end of
  a list and to wake its first thread, are \<open>list_wait\<close> and \<open>list_wake\<close>.
\<close>

section \<open>Operations\<close>

definition list_wait :: "qid \<Rightarrow> ptr \<Rightarrow> u32 \<Rightarrow> kstate \<Rightarrow> kstate option" where
  "list_wait q t time s = do {
     (_, s) \<leftarrow> rt_thread_suspend t s;
     s \<leftarrow> tlist_insert_before_head q t s;
     s \<leftarrow> (if 0 < sint time then sleep_timer t time s else Some s);
     rt_schedule s
   }"

definition list_wake :: "qid \<Rightarrow> kstate \<Rightarrow> kstate option" where
  "list_wake q s =
     (case k_q s q of
        [] \<Rightarrow> None
      | t # _ \<Rightarrow> do { (_, s) \<leftarrow> rt_thread_resume t s; rt_schedule s })"

record rt_completion =
  cpl_flag :: u32

abbreviation (input) RT_COMPLETED :: u32 where "RT_COMPLETED \<equiv> 1"
abbreviation (input) RT_UNCOMPLETED :: u32 where "RT_UNCOMPLETED \<equiv> 0"

type_synonym cstate = "kstate \<times> rt_completion"

text \<open>As in \<open>rt_ipc_object_init\<close>, initialising a list that threads wait in would lose them and is a fault.\<close>

definition rt_completion_init :: "ptr \<Rightarrow> cstate \<Rightarrow> cstate option" where
  "rt_completion_init p = (\<lambda>(s, c). do {
     rt_assert (p \<noteq> RT_NULL);
     (_, s) \<leftarrow> rt_ipc_object_init (Susp p) s;
     Some (s, c\<lparr>cpl_flag := RT_UNCOMPLETED\<rparr>)
   })"

text \<open>After the switch: the flag is cleared, whatever woke the thread.\<close>

definition rt_completion_wait_resume :: "ptr \<Rightarrow> cstate \<Rightarrow> rt_err \<times> cstate" where
  "rt_completion_wait_resume t = (\<lambda>(s, c). (t_error (k_thr s t), (s, c\<lparr>cpl_flag := RT_UNCOMPLETED\<rparr>)))"

definition rt_completion_wait :: "ptr \<Rightarrow> u32 \<Rightarrow> cstate \<Rightarrow> (outcome \<times> cstate) option" where
  "rt_completion_wait p timeout = (\<lambda>(s, c). do {
     rt_assert (p \<noteq> RT_NULL);
     let t = rt_thread_self s;
     if cpl_flag c \<noteq> RT_COMPLETED
     then do {
       rt_assert (k_q s (Susp p) = []);
       if timeout = 0 then Some (Returns (- RT_ETIMEOUT), (s, c))
       else do {
         rt_assert (t \<noteq> RT_NULL);
         let s = set_thr t (\<lambda>th. th\<lparr>t_error := RT_EOK\<rparr>) s;
         rt_assert (k_irq s = 0);
         s \<leftarrow> list_wait (Susp p) t timeout s;
         if rt_thread_self s = t
         then let (r, sc) = rt_completion_wait_resume t (s, c) in Some (Returns r, sc)
         else Some (Blocked, (s, c))
       }
     }
     else Some (Returns RT_EOK, (s, c\<lparr>cpl_flag := RT_UNCOMPLETED\<rparr>))
   })"

definition rt_completion_done :: "ptr \<Rightarrow> cstate \<Rightarrow> cstate option" where
  "rt_completion_done p = (\<lambda>(s, c). do {
     rt_assert (p \<noteq> RT_NULL);
     if cpl_flag c = RT_COMPLETED then Some (s, c)
     else do {
       let c = c\<lparr>cpl_flag := RT_COMPLETED\<rparr>;
       if k_q s (Susp p) \<noteq> []
       then do { s \<leftarrow> list_wake (Susp p) s; Some (s, c) }
       else Some (s, c)
     }
   })"


section \<open>Waiting and waking\<close>

lemma list_wait_ipc: "list_wait q t time s = ipc_wait q t RT_IPC_FLAG_FIFO time s"
  by (cases "rt_thread_suspend t s")
    (auto simp: list_wait_def ipc_wait_def rt_ipc_list_suspend_def ipc_list_insert_def split: option.splits
      intro!: arg_cong [where f = "Option.bind _"])

lemma list_wake_ok:
  assumes h: "healthy idle s" and q: "waiting q" "k_q s q \<noteq> []"
  shows "\<exists>s'. list_wake q s = Some s' \<and> wakes_any idle q s s'"
proof -
  obtain w ws where w: "k_q s q = w # ws" using q(2) by (cases "k_q s q") auto
  then obtain s' where "rt_ipc_list_resume q s = Some (RT_EOK, woken w s)" "rt_schedule (woken w s) = Some s'" "wakes_first idle q w s s'"
    using wake_core [OF h q(1)] by blast
  then show ?thesis using w
    by (intro exI [of _ s']) (auto simp: list_wake_def rt_ipc_list_resume_def wakes_any_def bind_Some_iff)
qed

lemma list_wait_ok:
  assumes "healthy idle s" and "k_cur s \<noteq> idle" and "waiting q" and "timeout \<noteq> TICK_HALF"
  shows "\<exists>s'. list_wait q (k_cur s) timeout (set_thr (k_cur s) (\<lambda>th. th\<lparr>t_error := RT_EOK\<rparr>) s) = Some s' \<and>
     waits_in idle q RT_IPC_FLAG_FIFO timeout s s'"
  using wait_reset [OF assms(1-3) _ assms(4), of RT_IPC_FLAG_FIFO] by (simp add: list_wait_ipc)

text \<open>A wait that finds the flag set takes it; one that does not, with a time limit of 0, returns at once; any other
  suspends the thread, the only one in the list, until it is woken or its time is over.\<close>

theorem rt_completion_wait_blocks:
  assumes h: "healthy idle s" and ni: "k_cur s \<noteq> idle" and irq: "k_irq s = 0" and q: "k_q s (Susp p) = []"
    and time: "timeout \<noteq> TICK_HALF" and p: "p \<noteq> RT_NULL"
  shows "\<exists>r s' c'. rt_completion_wait p timeout (s, c) = Some (r, (s', c')) \<and> healthy idle s' \<and>
     (if cpl_flag c = RT_COMPLETED then r = Returns RT_EOK \<and> s' = s \<and> cpl_flag c' = RT_UNCOMPLETED
      else c' = c \<and> (if timeout = 0 then r = Returns (- RT_ETIMEOUT) \<and> s' = s
        else r = Blocked \<and> k_q s' (Susp p) = [k_cur s] \<and> waits_in idle (Susp p) RT_IPC_FLAG_FIFO timeout s s'))"
proof (cases "cpl_flag c = RT_COMPLETED \<or> timeout = 0")
  case True
  then show ?thesis using h q p by (cases "cpl_flag c = 1") (auto simp: rt_completion_wait_def)
next
  case False
  obtain s' where s': "list_wait (Susp p) (k_cur s) timeout (set_thr (k_cur s) (\<lambda>th. th\<lparr>t_error := RT_EOK\<rparr>) s) = Some s'"
    "waits_in idle (Susp p) RT_IPC_FLAG_FIFO timeout s s'"
    using list_wait_ok [OF h ni _ time, of "Susp p"] by auto
  have "k_q s' (Susp p) = [k_cur s]" using waits_inD(7) [OF s'(2)] q by (simp add: wait_insert_def)
  then show ?thesis using False s' q irq p waits_inD(1,3) [OF s'(2)] healthyD(3) [OF h]
    by (simp add: rt_completion_wait_def rt_thread_self_def Let_def)
qed

text \<open>C32: A thread that waits is woken by \<open>rt_completion_done\<close>, and its wait returns \<open>RT_EOK\<close> and clears the flag.\<close>

theorem rt_completion_done_wakes:
  assumes h: "healthy idle s" and p: "p \<noteq> RT_NULL" and f: "cpl_flag c \<noteq> RT_COMPLETED" and q: "k_q s (Susp p) = [w]" and e: "t_error (k_thr s w) = RT_EOK"
  shows "\<exists>s' c'. rt_completion_done p (s, c) = Some (s', c') \<and> healthy idle s' \<and> k_q s' (Susp p) = [] \<and> runs w s' \<and>
     rt_completion_wait_resume w (s', c') = (RT_EOK, (s', c\<lparr>cpl_flag := RT_UNCOMPLETED\<rparr>))"
proof -
  obtain s' where s': "list_wake (Susp p) s = Some s'" "wakes_any idle (Susp p) s s'"
    using list_wake_ok [OF h, of "Susp p"] q by auto
  show ?thesis using s' p q f e wakes_anyD(1,4) [OF s'(2)] wakes_anyD(6) [OF s'(2), of w] wakes_anyD(7) [OF s'(2), of w]
    by (intro exI [of _ s'] exI [of _ "c\<lparr>cpl_flag := RT_COMPLETED\<rparr>"])
      (simp add: rt_completion_done_def rt_completion_wait_resume_def)
qed

text \<open>A completion is lost when it comes between the end of the waiting time and the moment the thread runs again: the
  wait returns \<open>RT_ETIMEOUT\<close> and clears the flag, so the next wait does not see the completion either.\<close>

theorem rt_completion_done_lost:
  assumes p: "p \<noteq> RT_NULL" and f: "cpl_flag c \<noteq> RT_COMPLETED" and q: "k_q s (Susp p) = []" and e: "t_error (k_thr s w) = - RT_ETIMEOUT"
  shows "\<exists>c'. rt_completion_done p (s, c) = Some (s, c') \<and>
     (\<exists>c''. rt_completion_wait_resume w (s, c') = (- RT_ETIMEOUT, (s, c'')) \<and>
        rt_completion_wait p 0 (s, c'') = Some (Returns (- RT_ETIMEOUT), (s, c'')))"
  using assms by (simp add: rt_completion_done_def rt_completion_wait_resume_def rt_completion_wait_def)

text \<open>Between the done and the moment the woken thread runs, the flag is still set: a second wait takes it as
  well, so one completion ends two waits.\<close>

theorem rt_completion_done_twice:
  assumes h: "healthy idle s" and p: "p \<noteq> RT_NULL" and f: "cpl_flag c \<noteq> RT_COMPLETED" and q: "k_q s (Susp p) = [w]" and e: "t_error (k_thr s w) = RT_EOK"
  shows "\<exists>s' c' c''. rt_completion_done p (s, c) = Some (s', c') \<and>
     rt_completion_wait p timeout (s', c') = Some (Returns RT_EOK, (s', c'')) \<and>
     rt_completion_wait_resume w (s', c'') = (RT_EOK, (s', c''))"
proof -
  obtain s' where s': "list_wake (Susp p) s = Some s'" "wakes_any idle (Susp p) s s'"
    using list_wake_ok [OF h, of "Susp p"] q by auto
  show ?thesis using s' p q f e wakes_anyD(7) [OF s'(2), of w]
    by (intro exI [of _ s'] exI [of _ "c\<lparr>cpl_flag := RT_COMPLETED\<rparr>"] exI [of _ "c\<lparr>cpl_flag := RT_UNCOMPLETED\<rparr>"])
      (simp add: rt_completion_done_def rt_completion_wait_resume_def rt_completion_wait_def)
qed

end
