(* ===== verification/RTT_DataQueue.thy ===== *)
theory RTT_DataQueue
  imports RTT_Completion RTT_Fifo
begin

text \<open>
  The data queues of \<open>components/drivers/src/dataqueue.c\<close>: a ring of items, each an address and a size, that is
  filled up to \<open>size\<close> items, with one list of threads that wait to push (\<open>Sender p\<close> for the queue at the address \<open>p\<close>)
  and one of threads that wait to pop (\<open>Susp p\<close>). The indices are 16-bit counters that are reduced only when the
  ring is accessed. The notification function of the application is called last, if at all: the event it is called
  with is a result. The array comes from the heap, so it is an argument of \<open>rt_data_queue_init\<close>, \<open>None\<close> when
  the heap is exhausted. \<open>waiting_lwm\<close>, which nothing uses, is left out.
\<close>

section \<open>Operations\<close>

record rt_data_item =
  di_data_ptr :: ptr
  di_data_size :: u32

record rt_data_queue =
  dq_size :: u16
  dq_lwm :: u16
  dq_get_index :: u16
  dq_put_index :: u16
  dq_queue :: "rt_data_item list"
  dq_evt_notify :: bool

type_synonym dstate = "kstate \<times> rt_data_queue"

abbreviation (input) RT_DATAQUEUE_EVENT_POP :: u32 where "RT_DATAQUEUE_EVENT_POP \<equiv> 1"
abbreviation (input) RT_DATAQUEUE_EVENT_PUSH :: u32 where "RT_DATAQUEUE_EVENT_PUSH \<equiv> 2"
abbreviation (input) RT_DATAQUEUE_EVENT_LWM :: u32 where "RT_DATAQUEUE_EVENT_LWM \<equiv> 3"

definition rt_data_queue_init ::
  "ptr \<Rightarrow> u16 \<Rightarrow> u16 \<Rightarrow> bool \<Rightarrow> rt_data_item list option \<Rightarrow> dstate \<Rightarrow> (rt_err \<times> dstate) option" where
  "rt_data_queue_init p size0 lwm evt_notify mem = (\<lambda>(s, q). do {
     rt_assert (p \<noteq> RT_NULL);
     let q = q\<lparr>dq_evt_notify := evt_notify, dq_size := size0, dq_lwm := lwm, dq_get_index := 0, dq_put_index := 0\<rparr>;
     (_, s) \<leftarrow> rt_ipc_object_init (Sender p) s;
     (_, s) \<leftarrow> rt_ipc_object_init (Susp p) s;
     case mem of
       None \<Rightarrow> Some (- RT_ENOMEM, (s, q\<lparr>dq_queue := []\<rparr>))
     | Some items \<Rightarrow> Some (RT_EOK, (s, q\<lparr>dq_queue := items\<rparr>))
   })"

text \<open>\<open>put_index - get_index\<close>: the two 16-bit values are promoted to \<open>int\<close>, so the difference can be negative.\<close>

definition dq_used :: "rt_data_queue \<Rightarrow> int" where
  "dq_used q = uint (dq_put_index q) - uint (dq_get_index q)"

definition dq_slot :: "rt_data_queue \<Rightarrow> u16 \<Rightarrow> nat option" where
  "dq_slot q i =
     (if dq_size q = 0 then None
      else let k = unat i mod unat (dq_size q) in if k < length (dq_queue q) then Some k else None)"

definition dq_store :: "rt_data_queue \<Rightarrow> rt_data_item \<Rightarrow> rt_data_queue option" where
  "dq_store q x = do {
     k \<leftarrow> dq_slot q (dq_put_index q);
     Some (q\<lparr>dq_queue := (dq_queue q)[k := x], dq_put_index := dq_put_index q + 1\<rparr>)
   }"

definition dq_fetch :: "rt_data_queue \<Rightarrow> (rt_data_queue \<times> rt_data_item) option" where
  "dq_fetch q = do {
     k \<leftarrow> dq_slot q (dq_get_index q);
     Some (q\<lparr>dq_get_index := dq_get_index q + 1\<rparr>, dq_queue q ! k)
   }"

text \<open>The end of \<open>rt_data_queue_push\<close>, when there is room, and of \<open>rt_data_queue_pop\<close>, when there is an item.\<close>

definition dq_put :: "ptr \<Rightarrow> rt_data_item \<Rightarrow> dstate \<Rightarrow> (outcome \<times> u32 option \<times> dstate) option" where
  "dq_put p x = (\<lambda>(s, q). do {
     q \<leftarrow> dq_store q x;
     if k_q s (Susp p) \<noteq> []
     then do { s \<leftarrow> list_wake (Susp p) s; Some (Returns RT_EOK, None, (s, q)) }
     else Some (Returns RT_EOK, if dq_evt_notify q then Some RT_DATAQUEUE_EVENT_PUSH else None, (s, q))
   })"

definition dq_take :: "ptr \<Rightarrow> dstate \<Rightarrow> (outcome \<times> rt_data_item option \<times> u32 option \<times> dstate) option" where
  "dq_take p = (\<lambda>(s, q). do {
     (q, x) \<leftarrow> dq_fetch q;
     if dq_used q \<le> uint (dq_lwm q)
     then do {
       s \<leftarrow> (if k_q s (Sender p) \<noteq> [] then list_wake (Sender p) s else Some s);
       Some (Returns RT_EOK, Some x, if dq_evt_notify q then Some RT_DATAQUEUE_EVENT_LWM else None, (s, q))
     }
     else Some (Returns RT_EOK, Some x, if dq_evt_notify q then Some RT_DATAQUEUE_EVENT_POP else None, (s, q))
   })"

partial_function (option) dq_push_loop ::
  "ptr \<Rightarrow> ptr \<Rightarrow> rt_data_item \<Rightarrow> u32 \<Rightarrow> dstate \<Rightarrow> (outcome \<times> u32 option \<times> dstate) option"
where
  "dq_push_loop p t x timeout sq =
     (if dq_used (snd sq) = uint (dq_size (snd sq))
      then if timeout = 0 then Some (Returns (- RT_ETIMEOUT), None, sq)
        else do {
          rt_assert (k_irq (fst sq) = 0);
          rt_assert (t \<noteq> RT_NULL);
          s \<leftarrow> list_wait (Sender p) t timeout (set_thr t (\<lambda>th. th\<lparr>t_error := RT_EOK\<rparr>) (fst sq));
          if rt_thread_self s \<noteq> t then Some (Blocked, None, (s, snd sq))
          else if t_error (k_thr s t) \<noteq> RT_EOK then Some (Returns (t_error (k_thr s t)), None, (s, snd sq))
          else dq_push_loop p t x timeout (s, snd sq)
        }
      else dq_put p x sq)"

definition rt_data_queue_push ::
  "ptr \<Rightarrow> rt_data_item \<Rightarrow> u32 \<Rightarrow> dstate \<Rightarrow> (outcome \<times> u32 option \<times> dstate) option" where
  "rt_data_queue_push p x timeout sq = do {
     rt_assert (p \<noteq> RT_NULL);
     dq_push_loop p (rt_thread_self (fst sq)) x timeout sq
   }"

text \<open>When the thread runs again, on the state the others have left; the time starts anew if it has to wait again.\<close>

definition rt_data_queue_push_resume ::
  "ptr \<Rightarrow> ptr \<Rightarrow> rt_data_item \<Rightarrow> u32 \<Rightarrow> dstate \<Rightarrow> (outcome \<times> u32 option \<times> dstate) option" where
  "rt_data_queue_push_resume p t x timeout sq =
     (if t_error (k_thr (fst sq) t) \<noteq> RT_EOK then Some (Returns (t_error (k_thr (fst sq) t)), None, sq)
      else dq_push_loop p t x timeout sq)"

partial_function (option) dq_pop_loop ::
  "ptr \<Rightarrow> ptr \<Rightarrow> u32 \<Rightarrow> dstate \<Rightarrow> (outcome \<times> rt_data_item option \<times> u32 option \<times> dstate) option"
where
  "dq_pop_loop p t timeout sq =
     (if dq_get_index (snd sq) = dq_put_index (snd sq)
      then if timeout = 0 then Some (Returns (- RT_ETIMEOUT), None, None, sq)
        else do {
          rt_assert (k_irq (fst sq) = 0);
          rt_assert (t \<noteq> RT_NULL);
          s \<leftarrow> list_wait (Susp p) t timeout (set_thr t (\<lambda>th. th\<lparr>t_error := RT_EOK\<rparr>) (fst sq));
          if rt_thread_self s \<noteq> t then Some (Blocked, None, None, (s, snd sq))
          else if t_error (k_thr s t) \<noteq> RT_EOK then Some (Returns (t_error (k_thr s t)), None, None, (s, snd sq))
          else dq_pop_loop p t timeout (s, snd sq)
        }
      else dq_take p sq)"

definition rt_data_queue_pop ::
  "ptr \<Rightarrow> u32 \<Rightarrow> dstate \<Rightarrow> (outcome \<times> rt_data_item option \<times> u32 option \<times> dstate) option" where
  "rt_data_queue_pop p timeout sq = do {
     rt_assert (p \<noteq> RT_NULL);
     dq_pop_loop p (rt_thread_self (fst sq)) timeout sq
   }"

definition rt_data_queue_pop_resume ::
  "ptr \<Rightarrow> ptr \<Rightarrow> u32 \<Rightarrow> dstate \<Rightarrow> (outcome \<times> rt_data_item option \<times> u32 option \<times> dstate) option" where
  "rt_data_queue_pop_resume p t timeout sq =
     (if t_error (k_thr (fst sq) t) \<noteq> RT_EOK then Some (Returns (t_error (k_thr (fst sq) t)), None, None, sq)
      else dq_pop_loop p t timeout sq)"

definition rt_data_queue_peak :: "rt_data_queue \<Rightarrow> (rt_err \<times> rt_data_item option) option" where
  "rt_data_queue_peak q =
     (if dq_get_index q = dq_put_index q then Some (- RT_EEMPTY, None)
      else do { k \<leftarrow> dq_slot q (dq_get_index q); Some (RT_EOK, Some (dq_queue q ! k)) })"

text \<open>The two loops are, statement by statement, the one of \<open>rt_ipc_list_resume_all\<close>. The items stay.\<close>

definition rt_data_queue_reset :: "ptr \<Rightarrow> dstate \<Rightarrow> dstate option" where
  "rt_data_queue_reset p = (\<lambda>(s, q). do {
     let s = rt_enter_critical s;
     (_, s) \<leftarrow> rt_ipc_list_resume_all (Susp p) s;
     (_, s) \<leftarrow> rt_ipc_list_resume_all (Sender p) s;
     s \<leftarrow> rt_exit_critical s;
     s \<leftarrow> rt_schedule s;
     Some (s, q)
   })"


section \<open>The items of a queue\<close>

text \<open>As long as the indices have not wrapped.\<close>

definition dq_wf :: "rt_data_queue \<Rightarrow> bool" where
  "dq_wf q \<longleftrightarrow> dq_size q \<noteq> 0 \<and> length (dq_queue q) = unat (dq_size q) \<and> dq_get_index q \<le> dq_put_index q \<and>
     unat (dq_put_index q) - unat (dq_get_index q) \<le> unat (dq_size q)"

definition dq_data :: "rt_data_queue \<Rightarrow> rt_data_item list" where
  "dq_data q = ring_seq (dq_queue q) (unat (dq_size q)) (unat (dq_get_index q) mod unat (dq_size q))
     (unat (dq_put_index q) - unat (dq_get_index q))"

lemma dq_wfD:
  assumes "dq_wf q"
  shows "0 < unat (dq_size q)" and "length (dq_queue q) = unat (dq_size q)"
    and "unat (dq_get_index q) \<le> unat (dq_put_index q)" and "length (dq_data q) = unat (dq_put_index q) - unat (dq_get_index q)"
    and "length (dq_data q) \<le> unat (dq_size q)" and "dq_used q = int (length (dq_data q))"
  using assms by (auto simp: dq_wf_def dq_data_def dq_used_def word_le_nat_alt unat_gt_0 of_nat_diff simp flip: uint_nat)

lemma dq_slot_wf: "dq_wf q \<Longrightarrow> dq_slot q i = Some (unat i mod unat (dq_size q))"
  using dq_wfD(1,2) [of q] by (auto simp: dq_slot_def dq_wf_def)

lemma dq_full: "dq_wf q \<Longrightarrow> dq_used q = uint (dq_size q) \<longleftrightarrow> length (dq_data q) = unat (dq_size q)"
  using dq_wfD(6) [of q] by (simp only: uint_nat of_nat_eq_iff)

lemma dq_empty: "dq_wf q \<Longrightarrow> dq_get_index q = dq_put_index q \<longleftrightarrow> dq_data q = []"
  using dq_wfD(3,4) [of q] by (auto simp: word_unat_eq_iff simp flip: length_0_conv)

lemma dq_store_data:
  assumes wf: "dq_wf q" and room: "length (dq_data q) < unat (dq_size q)" and nw: "unat (dq_put_index q) < 65535"
  shows "\<exists>q'. dq_store q x = Some q' \<and> dq_wf q' \<and> dq_data q' = dq_data q @ [x] \<and> dq_size q' = dq_size q \<and>
    unat (dq_put_index q') = unat (dq_put_index q) + 1 \<and> dq_lwm q' = dq_lwm q \<and> dq_evt_notify q' = dq_evt_notify q"
proof -
  note d = dq_wfD [OF wf]
  let ?n = "unat (dq_size q)" and ?p = "unat (dq_put_index q)" and ?g = "unat (dq_get_index q)"
  let ?q = "q\<lparr>dq_queue := (dq_queue q)[?p mod ?n := x], dq_put_index := dq_put_index q + 1\<rparr>"
  have p1: "unat (dq_put_index q + 1) = ?p + 1" using nw by (simp add: unat_word_ariths)
  have k: "(?g mod ?n + (?p - ?g)) mod ?n = ?p mod ?n"
    using mod_add_left_eq [of ?g ?n "?p - ?g"] d(3) by (simp only: le_add_diff_inverse)
  have "ring_seq ((dq_queue q)[(?g mod ?n + (?p - ?g)) mod ?n := x]) ?n (?g mod ?n) (Suc (?p - ?g)) = dq_data q @ [x]"
    unfolding dq_data_def by (rule ring_seq_snoc) (use d room in simp_all)
  then have "dq_data ?q = dq_data q @ [x]" unfolding k by (simp add: dq_data_def p1 Suc_diff_le d(3))
  moreover have "dq_wf ?q" using wf d room p1 by (simp add: dq_wf_def word_le_nat_alt)
  ultimately show ?thesis using dq_slot_wf [OF wf] p1 by (simp add: dq_store_def)
qed

lemma dq_fetch_data:
  assumes wf: "dq_wf q" and some: "dq_data q = x # xs"
  shows "\<exists>q'. dq_fetch q = Some (q', x) \<and> dq_wf q' \<and> dq_data q' = xs \<and> dq_size q' = dq_size q \<and>
    dq_put_index q' = dq_put_index q \<and> dq_lwm q' = dq_lwm q \<and> dq_evt_notify q' = dq_evt_notify q"
proof -
  note d = dq_wfD [OF wf]
  let ?n = "unat (dq_size q)" and ?p = "unat (dq_put_index q)" and ?g = "unat (dq_get_index q)"
  let ?q = "q\<lparr>dq_get_index := dq_get_index q + 1\<rparr>"
  have lt: "?g < ?p" using d(4) some by simp
  then have g1: "unat (dq_get_index q + 1) = ?g + 1"
    using unat_add_one [of "dq_get_index q" "dq_put_index q"] by (simp add: word_less_nat_alt)
  have "dq_data q = dq_queue q ! ((?g mod ?n) mod ?n) # ring_seq (dq_queue q) ?n ((?g mod ?n + 1) mod ?n) (?p - ?g - 1)"
    unfolding dq_data_def by (rule ring_seq_Cons) (use lt in simp)
  moreover have "dq_data ?q = ring_seq (dq_queue q) ?n ((?g mod ?n + 1) mod ?n) (?p - ?g - 1)"
    by (simp add: dq_data_def g1 mod_Suc_eq)
  ultimately have x: "dq_queue q ! (?g mod ?n) = x" "dq_data ?q = xs" using some by simp_all
  moreover have "dq_wf ?q" using wf lt g1 by (auto simp: dq_wf_def word_le_nat_alt)
  ultimately show ?thesis using dq_slot_wf [OF wf] by (simp add: dq_fetch_def)
qed

text \<open>The tests of the code and the two steps as a buffer with attempts to put and get.\<close>

definition dq_enq :: "rt_data_queue \<Rightarrow> rt_data_item \<Rightarrow> rt_data_queue option" where
  "dq_enq q x = (if dq_used q = uint (dq_size q) then None else dq_store q x)"

definition dq_deq :: "rt_data_queue \<Rightarrow> (rt_data_queue \<times> rt_data_item) option" where
  "dq_deq q = (if dq_get_index q = dq_put_index q then None else dq_fetch q)"

fun puts :: "'a fifo_op list \<Rightarrow> nat" where
  "puts [] = 0"
| "puts (Put x # ops) = Suc (puts ops)"
| "puts (Get # ops) = puts ops"

lemma dq_run:
  "dq_wf q \<Longrightarrow> unat (dq_put_index q) + puts ops < 65536 \<Longrightarrow> fifo_run dq_enq dq_deq q ops = (q', out) \<Longrightarrow>
   dq_wf q' \<and> fifo_run (list_enq (unat (dq_size q))) list_deq (dq_data q) ops = (dq_data q', out)"
proof (induction ops arbitrary: q q' out)
  case (Cons op ops)
  show ?case
  proof (cases op)
    case (Put x)
    obtain out' where o: "(case dq_enq q x of None \<Rightarrow> fifo_run dq_enq dq_deq q ops | Some q1 \<Rightarrow> fifo_run dq_enq dq_deq q1 ops) = (q', out')"
      "out = Stored (dq_enq q x \<noteq> None) # out'"
      using Cons.prems(3) Put by (auto split: option.splits prod.splits)
    show ?thesis
    proof (cases "length (dq_data q) < unat (dq_size q)")
      case True
      obtain q1 where q1: "dq_store q x = Some q1" "dq_wf q1" "dq_data q1 = dq_data q @ [x]" "dq_size q1 = dq_size q"
        "unat (dq_put_index q1) = unat (dq_put_index q) + 1"
        using dq_store_data [OF Cons.prems(1) True, of x] Cons.prems(2) Put by auto
      have e: "dq_enq q x = Some q1" using q1(1) dq_full [OF Cons.prems(1)] True by (simp add: dq_enq_def)
      show ?thesis using Cons.IH [OF q1(2), of q' out'] q1 o e Cons.prems(2) Put True by (simp add: list_enq_room)
    next
      case False
      then have e: "dq_enq q x = None" using dq_full [OF Cons.prems(1)] dq_wfD(5) [OF Cons.prems(1)] by (simp add: dq_enq_def)
      show ?thesis using Cons.IH [OF Cons.prems(1), of q' out'] o e Cons.prems(2) Put False by (simp add: list_enq_full)
    qed
  next
    case Get
    show ?thesis
    proof (cases "dq_data q")
      case Nil
      then have e: "dq_deq q = None" using dq_empty [OF Cons.prems(1)] by (simp add: dq_deq_def)
      then obtain out' where "fifo_run dq_enq dq_deq q ops = (q', out')" "out = Got None # out'"
        using Cons.prems(3) Get by (auto split: prod.splits)
      then show ?thesis using Cons.IH [OF Cons.prems(1)] Cons.prems(2) Get Nil by simp
    next
      fix x xs
      assume xs: "dq_data q = x # xs"
      obtain q1 where q1: "dq_fetch q = Some (q1, x)" "dq_wf q1" "dq_data q1 = xs" "dq_size q1 = dq_size q" "dq_put_index q1 = dq_put_index q"
        using dq_fetch_data [OF Cons.prems(1) xs] by blast
      have "dq_deq q = Some (q1, x)" using q1(1) dq_empty [OF Cons.prems(1)] xs by (simp add: dq_deq_def)
      then obtain out' where "fifo_run dq_enq dq_deq q1 ops = (q', out')" "out = Got (Some x) # out'"
        using Cons.prems(3) Get by (auto split: prod.splits)
      then show ?thesis using Cons.IH [OF q1(2), of q' out'] Cons.prems(2) Get xs q1 by simp
    qed
  qed
qed simp

text \<open>Until 65535 items have been pushed, a data queue is a first-in first-out buffer of \<open>size\<close> items: any run of
  pushes and pops that do not wait answers like the same run on a list.\<close>

theorem rt_data_queue_fifo:
  assumes "dq_wf q" and "unat (dq_put_index q) + puts ops < 65536" and "fifo_run dq_enq dq_deq q ops = (q', out)"
  shows "dq_wf q' \<and> fifo_run (list_enq (unat (dq_size q))) list_deq (dq_data q) ops = (dq_data q', out)"
  by (rule dq_run [OF assms])


section \<open>Pushing and popping\<close>

lemma dq_put_ok:
  assumes h: "healthy idle s" and wf: "dq_wf q" and room: "length (dq_data q) < unat (dq_size q)" and nw: "unat (dq_put_index q) < 65535"
  shows "\<exists>s' q'. dq_put p x (s, q) = Some (Returns RT_EOK,
       if k_q s (Susp p) = [] \<and> dq_evt_notify q then Some RT_DATAQUEUE_EVENT_PUSH else None, (s', q')) \<and>
     dq_wf q' \<and> dq_data q' = dq_data q @ [x] \<and> wakes_any idle (Susp p) s s'"
proof -
  obtain q' where q': "dq_store q x = Some q'" "dq_wf q'" "dq_data q' = dq_data q @ [x]" "dq_evt_notify q' = dq_evt_notify q"
    using dq_store_data [OF wf room nw, of x] by auto
  show ?thesis
  proof (cases "k_q s (Susp p) = []")
    case True
    then show ?thesis using q' h by (intro exI [of _ s] exI [of _ q']) (simp add: dq_put_def wakes_any_def)
  next
    case False
    then obtain s' where "list_wake (Susp p) s = Some s'" "wakes_any idle (Susp p) s s'"
      using list_wake_ok [OF h, of "Susp p"] by auto
    then show ?thesis using False q' by (simp add: dq_put_def)
  qed
qed

lemma dq_take_ok:
  assumes h: "healthy idle s" and wf: "dq_wf q" and some: "dq_data q = x # xs"
  shows "\<exists>s' q'. dq_take p (s, q) = Some (Returns RT_EOK, Some x, if dq_evt_notify q
       then Some (if length xs \<le> unat (dq_lwm q) then RT_DATAQUEUE_EVENT_LWM else RT_DATAQUEUE_EVENT_POP) else None, (s', q')) \<and>
     dq_wf q' \<and> dq_data q' = xs \<and> (if length xs \<le> unat (dq_lwm q) then wakes_any idle (Sender p) s s' else s' = s)"
proof -
  obtain q' where q': "dq_fetch q = Some (q', x)" "dq_wf q'" "dq_data q' = xs" "dq_evt_notify q' = dq_evt_notify q" "dq_lwm q' = dq_lwm q"
    using dq_fetch_data [OF wf some] by auto
  have u: "dq_used q' \<le> uint (dq_lwm q') \<longleftrightarrow> length xs \<le> unat (dq_lwm q)"
    using dq_wfD(6) [OF q'(2)] q'(3,5) by (simp only: uint_nat of_nat_le_iff)
  show ?thesis
  proof (cases "length xs \<le> unat (dq_lwm q)")
    case low: True
    obtain s' where "(if k_q s (Sender p) \<noteq> [] then list_wake (Sender p) s else Some s) = Some s'" "wakes_any idle (Sender p) s s'"
      using list_wake_ok [OF h, of "Sender p"] h by (cases "k_q s (Sender p) = []") (auto simp: wakes_any_def)
    then show ?thesis using low u q' by (intro exI [of _ s'] exI [of _ q']) (simp add: dq_take_def)
  next
    case False
    then show ?thesis using u q' by (intro exI [of _ s] exI [of _ q']) (simp add: dq_take_def)
  qed
qed

lemma push_room:
  assumes "p \<noteq> RT_NULL" and "dq_used q \<noteq> uint (dq_size q)"
  shows "rt_data_queue_push p x timeout (s, q) = dq_put p x (s, q)"
  using assms by (simp add: rt_data_queue_push_def dq_push_loop.simps [of p _ x timeout "(s, q)"])


text \<open>Every outcome of a pop: from an empty queue it gives up at once or waits; from any other it takes the oldest
  item, and wakes the first thread that waits to push only when no more than the low-water mark is left.\<close>

theorem rt_data_queue_pop_total:
  assumes h: "healthy idle s" and ni: "k_cur s \<noteq> idle" and irq: "k_irq s = 0" and time: "timeout \<noteq> TICK_HALF" and p: "p \<noteq> RT_NULL"
    and wf: "dq_wf q"
  shows "\<exists>r y ev s' q'. rt_data_queue_pop p timeout (s, q) = Some (r, y, ev, (s', q')) \<and> healthy idle s' \<and> dq_wf q' \<and>
     (case dq_data q of
        x # xs \<Rightarrow> r = Returns RT_EOK \<and> y = Some x \<and> dq_data q' = xs \<and>
          ev = (if dq_evt_notify q then Some (if length xs \<le> unat (dq_lwm q) then RT_DATAQUEUE_EVENT_LWM
            else RT_DATAQUEUE_EVENT_POP) else None) \<and>
          (if length xs \<le> unat (dq_lwm q) then wakes_any idle (Sender p) s s' else s' = s)
      | [] \<Rightarrow> q' = q \<and> y = None \<and> ev = None \<and>
        (if timeout = 0 then r = Returns (- RT_ETIMEOUT) \<and> s' = s
         else r = Blocked \<and> waits_in idle (Susp p) RT_IPC_FLAG_FIFO timeout s s'))"
proof (cases "dq_data q")
  case (Cons x xs)
  then have "rt_data_queue_pop p timeout (s, q) = dq_take p (s, q)"
    using dq_empty [OF wf] p by (simp add: rt_data_queue_pop_def dq_pop_loop.simps [of p _ timeout "(s, q)"])
  then show ?thesis using dq_take_ok [OF h wf Cons, of p] wakes_anyD(1) h Cons by (fastforce split: if_splits)
next
  case Nil
  then have f: "dq_get_index q = dq_put_index q" using dq_empty [OF wf] by simp
  note e = dq_pop_loop.simps [of p "k_cur s" timeout "(s, q)"]
  show ?thesis
  proof (cases "timeout = 0")
    case True
    then show ?thesis using Nil f p h wf
      by (simp add: rt_data_queue_pop_def rt_thread_self_def dq_pop_loop.simps [of p "k_cur s" 0 "(s, q)"])
  next
    case to: False
    obtain s' where s': "list_wait (Susp p) (k_cur s) timeout (set_thr (k_cur s) (\<lambda>th. th\<lparr>t_error := RT_EOK\<rparr>) s) = Some s'"
      "waits_in idle (Susp p) RT_IPC_FLAG_FIFO timeout s s'"
      using list_wait_ok [OF h ni _ time, of "Susp p"] by auto
    show ?thesis using Nil to f p wf irq s' waits_inD(1,3) [OF s'(2)] healthyD(3) [OF h]
      by (simp add: rt_data_queue_pop_def rt_thread_self_def e)
  qed
qed

text \<open>A thread that waits to pop and is woken by a push gets the oldest item when it runs, if no other thread has taken
  it.\<close>

theorem rt_data_queue_push_delivers:
  assumes h: "healthy idle s" and p: "p \<noteq> RT_NULL" and wf: "dq_wf q" and nw: "unat (dq_put_index q) < 65535"
    and empty: "dq_data q = []" and w: "k_q s (Susp p) = [w]" and e: "t_error (k_thr s w) = RT_EOK"
  shows "\<exists>s' q'. rt_data_queue_push p x timeout (s, q) = Some (Returns RT_EOK, None, (s', q')) \<and> runs w s' \<and>
     (\<exists>ev s'' q''. rt_data_queue_pop_resume p w timeout' (s', q') = Some (Returns RT_EOK, Some x, ev, (s'', q'')) \<and> dq_data q'' = [])"
proof -
  have room: "length (dq_data q) < unat (dq_size q)" using empty dq_wfD(1) [OF wf] by simp
  have push: "rt_data_queue_push p x timeout (s, q) = dq_put p x (s, q)"
    using push_room [OF p] dq_full [OF wf] room by simp
  obtain s' q' where s': "dq_put p x (s, q) = Some (Returns RT_EOK, None, (s', q'))" "dq_wf q'" "dq_data q' = [x]"
    "wakes_any idle (Susp p) s s'"
    using dq_put_ok [OF h wf room nw, of p x] w empty by auto
  note d = wakes_anyD [OF s'(4)]
  have "rt_data_queue_pop_resume p w timeout' (s', q') = dq_take p (s', q')"
    using d(7) [of w] e dq_empty [OF s'(2)] s'(3)
    by (simp add: rt_data_queue_pop_resume_def dq_pop_loop.simps [of p _ timeout' "(s', q')"])
  then show ?thesis using push s' d(6) [of w] w dq_take_ok [OF d(1) s'(2,3), of p] by fastforce
qed

text \<open>C31: The test for a full queue compares \<open>size\<close> with an \<open>int\<close> difference of the 16-bit indices. After the put index
  has wrapped the difference is negative, the queue never counts as full, and a push overwrites the oldest
  item that nobody has read.\<close>

theorem rt_data_queue_push_overwrites:
  assumes p: "p \<noteq> RT_NULL" and wf: "dq_wf q" and put: "dq_put_index q = 65535"
    and get: "unat (dq_get_index q) + unat (dq_size q) = 65536" and dvd: "unat (dq_size q) dvd 65536" and s: "k_q s (Susp p) = []"
  shows "\<exists>ev q1 q2. length (dq_data q) + 1 = unat (dq_size q) \<and>
     rt_data_queue_push p x 0 (s, q) = Some (Returns RT_EOK, ev, (s, q1)) \<and>
     rt_data_queue_push p y 0 (s, q1) = Some (Returns RT_EOK, ev, (s, q2)) \<and> rt_data_queue_peak q2 = Some (RT_EOK, Some y)"
proof -
  let ?n = "unat (dq_size q)"
  let ?q1 = "q\<lparr>dq_queue := (dq_queue q)[65535 mod ?n := x], dq_put_index := 0\<rparr>"
  let ?q2 = "?q1\<lparr>dq_queue := (dq_queue ?q1)[0 := y], dq_put_index := 1\<rparr>"
  note d = dq_wfD [OF wf]
  have n: "0 < ?n" "?n < 65536" using d(1) unsigned_less [of "dq_size q", where 'a = nat] by simp_all
  have len: "length (dq_data q) + 1 = ?n" using d(4) put get n by simp
  have g: "unat (dq_get_index q) mod ?n = 0"
  proof -
    have "?n dvd unat (dq_get_index q) + ?n" using dvd get by simp
    then have "?n dvd unat (dq_get_index q)" by simp
    then show ?thesis by (simp add: dvd_eq_mod_eq_0)
  qed
  have u: "dq_used q \<noteq> uint (dq_size q)" using dq_full [OF wf] len by simp
  have u1: "dq_used ?q1 \<noteq> uint (dq_size q)"
  proof -
    have "dq_used ?q1 = - uint (dq_get_index q)" by (simp add: dq_used_def)
    moreover have "0 < uint (dq_size q)" using d(1) by (simp only: uint_nat of_nat_0_less_iff)
    ultimately show ?thesis using uint_ge_0 [of "dq_get_index q"] by linarith
  qed
  have st: "dq_store q x = Some ?q1" using put n d(2) wf by (simp add: dq_store_def dq_slot_wf)
  have st1: "dq_store ?q1 y = Some ?q2" using n d(2) wf by (simp add: dq_store_def dq_slot_def dq_wf_def)
  have "rt_data_queue_peak ?q2 = Some (RT_EOK, Some y)"
  proof -
    have "dq_get_index q \<noteq> 1"
    proof
      assume "dq_get_index q = 1"
      then have "?n = 65535" using get by simp
      then show False using dvd by simp
    qed
    moreover have "dq_size q \<noteq> 0" using wf by (simp add: dq_wf_def)
    ultimately show ?thesis using g n(1) d(2) by (simp add: rt_data_queue_peak_def dq_slot_def)
  qed
  moreover have "rt_data_queue_push p x 0 (s, q) =
      Some (Returns RT_EOK, if dq_evt_notify q then Some RT_DATAQUEUE_EVENT_PUSH else None, (s, ?q1))"
    unfolding push_room [OF p u] by (simp add: dq_put_def st s)
  moreover have "rt_data_queue_push p y 0 (s, ?q1) =
      Some (Returns RT_EOK, if dq_evt_notify q then Some RT_DATAQUEUE_EVENT_PUSH else None, (s, ?q2))"
    by (subst push_room [OF p]) (use u1 in simp, simp add: dq_put_def st1 s)
  ultimately show ?thesis using len by blast
qed

end
