(* ===== verification/RTT_WorkQueue.thy ===== *)
theory RTT_WorkQueue
  imports RTT_Sem
begin

text \<open>
  Work queues (\<open>components/drivers/src/workqueue.c\<close>): a thread that runs the functions of the works in a list, one
  after the other. A queue and a work are addresses; \<open>workqueues\<close> holds their fields. A work is linked in one
  list at most, so unlinking it takes it out of whichever list it is in; works are initialised before they are
  used, and not while they are linked. The semaphore of a queue and the timer of a work are objects at their offsets in the structures. The
  function of a work is code of the application; the entry function of the thread is modelled by its sections up to
  that call and after it, each of them a step, and its endless loop is left out. \<open>rt_malloc\<close> is an argument, and
  what is given back to the heap a result.
\<close>

section \<open>Operations\<close>

abbreviation (input) RT_EBUSY :: rt_err where "RT_EBUSY \<equiv> 7"
abbreviation (input) RT_EINVAL :: rt_err where "RT_EINVAL \<equiv> 10"
abbreviation (input) EINVAL :: rt_err where "EINVAL \<equiv> 22"

abbreviation (input) RT_WORK_STATE_PENDING :: u16 where "RT_WORK_STATE_PENDING \<equiv> 1"
abbreviation (input) RT_WORK_STATE_SUBMITTING :: u16 where "RT_WORK_STATE_SUBMITTING \<equiv> 2"
abbreviation (input) RT_WORK_TYPE_DELAYED :: u16 where "RT_WORK_TYPE_DELAYED \<equiv> 1"

record rt_workqueue =
  wq_work_list :: "ptr list"
  wq_work_current :: ptr
  wq_work_thread :: ptr

record rt_work =
  wk_flags :: u16
  wk_type :: u16
  wk_workqueue :: ptr

record workqueues =
  w_queue :: "ptr \<Rightarrow> rt_workqueue"
  w_work :: "ptr \<Rightarrow> rt_work"

type_synonym wstate = "kstate \<times> workqueues"

definition wq_sem :: "ptr \<Rightarrow> ptr" where "wq_sem p = p + 12"
definition wk_timer :: "ptr \<Rightarrow> oref" where "wk_timer w = Obj (w + 20)"

definition set_queue :: "ptr \<Rightarrow> (rt_workqueue \<Rightarrow> rt_workqueue) \<Rightarrow> workqueues \<Rightarrow> workqueues" where
  "set_queue p f k = k\<lparr>w_queue := (w_queue k)(p := f (w_queue k p))\<rparr>"

definition set_work :: "ptr \<Rightarrow> (rt_work \<Rightarrow> rt_work) \<Rightarrow> workqueues \<Rightarrow> workqueues" where
  "set_work w f k = k\<lparr>w_work := (w_work k)(w := f (w_work k w))\<rparr>"

definition work_flag :: "u16 \<Rightarrow> ptr \<Rightarrow> workqueues \<Rightarrow> bool" where
  "work_flag f w k \<longleftrightarrow> wk_flags (w_work k w) AND f \<noteq> 0"

definition raise_flag :: "u16 \<Rightarrow> ptr \<Rightarrow> workqueues \<Rightarrow> workqueues" where
  "raise_flag f w = set_work w (\<lambda>wk. wk\<lparr>wk_flags := wk_flags wk OR f\<rparr>)"

definition clear_flag :: "u16 \<Rightarrow> ptr \<Rightarrow> workqueues \<Rightarrow> workqueues" where
  "clear_flag f w = set_work w (\<lambda>wk. wk\<lparr>wk_flags := wk_flags wk AND NOT f\<rparr>)"

definition work_unlink :: "ptr \<Rightarrow> workqueues \<Rightarrow> workqueues" where
  "work_unlink w k = k\<lparr>w_queue := (\<lambda>p. (w_queue k p)\<lparr>wq_work_list := remove1 w (wq_work_list (w_queue k p))\<rparr>)\<rparr>"

definition work_append :: "ptr \<Rightarrow> ptr \<Rightarrow> workqueues \<Rightarrow> workqueues" where
  "work_append p w = set_queue p (\<lambda>q. q\<lparr>wq_work_list := wq_work_list q @ [w]\<rparr>)"

definition rt_work_init :: "ptr \<Rightarrow> workqueues \<Rightarrow> workqueues" where
  "rt_work_init w k = set_work w (\<lambda>_. \<lparr>wk_flags = 0, wk_type = 0, wk_workqueue = RT_NULL\<rparr>) k"

definition rt_delayed_work_init :: "ptr \<Rightarrow> workqueues \<Rightarrow> workqueues" where
  "rt_delayed_work_init w k = rt_work_init w k"


subsection \<open>The thread of a queue\<close>

partial_function (option) work_completion_loop :: "ptr \<Rightarrow> kstate \<Rightarrow> (rt_err \<times> kstate) option" where
  "work_completion_loop p s = do {
     (result, s) \<leftarrow> rt_sem_trytake (wq_sem p) s;
     if result = Returns (- RT_ETIMEOUT)
     then do { (_, s) \<leftarrow> rt_sem_release (wq_sem p) s; work_completion_loop p s }
     else if result = Returns RT_EOK then Some (RT_EOK, s)
     else Some (- RT_ERROR, s)
   }"

definition workqueue_work_completion :: "ptr \<Rightarrow> kstate \<Rightarrow> (rt_err \<times> kstate) option" where
  "workqueue_work_completion p s = do {
     (result, s) \<leftarrow> work_completion_loop p (rt_enter_critical s);
     s \<leftarrow> rt_exit_critical s;
     Some (result, s)
   }"

text \<open>The test at the top of the loop and the two statements behind it run with interrupts enabled: they are
  separate steps.\<close>

definition workqueue_idle :: "ptr \<Rightarrow> wstate \<Rightarrow> bool" where
  "workqueue_idle p = (\<lambda>(s, k). wq_work_list (w_queue k p) = [])"

definition workqueue_sleep :: "wstate \<Rightarrow> wstate option" where
  "workqueue_sleep = (\<lambda>(s, k). do {
     (_, s) \<leftarrow> rt_thread_suspend (rt_thread_self s) s;
     s \<leftarrow> rt_schedule s;
     Some (s, k)
   })"

text \<open>The first entry of an empty list is the list head, no work: a fault.\<close>

definition workqueue_begin :: "ptr \<Rightarrow> workqueues \<Rightarrow> (ptr \<times> workqueues) option" where
  "workqueue_begin p k =
     (case wq_work_list (w_queue k p) of
        [] \<Rightarrow> None
      | w # _ \<Rightarrow>
          let k = set_queue p (\<lambda>q. q\<lparr>wq_work_current := w\<rparr>) (work_unlink w k);
              k = clear_flag RT_WORK_STATE_PENDING w k
          in Some (w, set_work w (\<lambda>wk. wk\<lparr>wk_workqueue := RT_NULL\<rparr>) k))"

definition workqueue_end :: "ptr \<Rightarrow> wstate \<Rightarrow> (rt_err \<times> wstate) option" where
  "workqueue_end p = (\<lambda>(s, k). do {
     let k = set_queue p (\<lambda>q. q\<lparr>wq_work_current := RT_NULL\<rparr>) k;
     (r, s) \<leftarrow> workqueue_work_completion p s;
     Some (r, (s, k))
   })"


subsection \<open>Submitting\<close>

definition queue_work :: "ptr \<Rightarrow> ptr \<Rightarrow> workqueues \<Rightarrow> workqueues" where
  "queue_work p w k = work_append p w (work_unlink w k)"

definition start_worker :: "ptr \<Rightarrow> wstate \<Rightarrow> wstate option" where
  "start_worker p = (\<lambda>(s, k).
     if wq_work_current (w_queue k p) = RT_NULL
     then do {
       (_, s) \<leftarrow> rt_thread_resume (wq_work_thread (w_queue k p)) s;
       s \<leftarrow> rt_schedule s;
       Some (s, k)
     }
     else Some (s, k))"

definition workqueue_submit_work :: "ptr \<Rightarrow> ptr \<Rightarrow> wstate \<Rightarrow> (rt_err \<times> wstate) option" where
  "workqueue_submit_work p w = (\<lambda>(s, k).
     if work_flag RT_WORK_STATE_PENDING w k then Some (- RT_EBUSY, (s, k))
     else do {
       rt_assert (p \<noteq> RT_NULL);
       if wq_work_current (w_queue k p) = w then Some (- RT_EBUSY, (s, k))
       else do {
         let k = raise_flag RT_WORK_STATE_PENDING w (queue_work p w k);
         sk \<leftarrow> start_worker p (s, k);
         Some (RT_EOK, sk)
       }
     })"

definition workqueue_cancel_work :: "ptr \<Rightarrow> ptr \<Rightarrow> workqueues \<Rightarrow> rt_err \<times> workqueues" where
  "workqueue_cancel_work p w k =
     (if wq_work_current (w_queue k p) = w then (- RT_EBUSY, k)
      else (RT_EOK, clear_flag RT_WORK_STATE_PENDING w (work_unlink w k)))"

definition stop_work_timer :: "ptr \<Rightarrow> wstate \<Rightarrow> wstate option" where
  "stop_work_timer w = (\<lambda>(s, k). do {
     (_, s) \<leftarrow> rt_timer_stop (wk_timer w) s;
     (_, s) \<leftarrow> rt_timer_detach (wk_timer w) s;
     Some (s, clear_flag RT_WORK_STATE_SUBMITTING w k)
   })"

definition workqueue_cancel_delayed_work :: "ptr \<Rightarrow> wstate \<Rightarrow> (rt_err \<times> wstate) option" where
  "workqueue_cancel_delayed_work w = (\<lambda>(s, k). do {
     let p = wk_workqueue (w_work k w);
     if p = RT_NULL then Some (- EINVAL, (s, k))
     else do {
       (ret, s, k) \<leftarrow> (if work_flag RT_WORK_STATE_PENDING w k
          then let (ret, k) = workqueue_cancel_work p w k in Some (ret, s, k)
          else if work_flag RT_WORK_STATE_SUBMITTING w k
          then do { (s, k) \<leftarrow> stop_work_timer w (s, k); Some (RT_EOK, s, k) }
          else Some (RT_EOK, s, k));
       if ret \<noteq> RT_EOK then Some (ret, (s, k))
       else Some (RT_EOK, (s, clear_flag RT_WORK_STATE_PENDING w (set_work w (\<lambda>wk. wk\<lparr>wk_workqueue := RT_NULL\<rparr>) k)))
     }
   })"

text \<open>The flag word 4 is \<open>RT_TIMER_FLAG_ONE_SHOT | RT_TIMER_FLAG_SOFT_TIMER\<close>.\<close>

definition start_work_timer :: "ptr \<Rightarrow> u32 \<Rightarrow> wstate \<Rightarrow> wstate option" where
  "start_work_timer w time = (\<lambda>(s, k). do {
     let k = raise_flag RT_WORK_STATE_SUBMITTING w k;
     s \<leftarrow> rt_timer_init (wk_timer w) ''work'' time 4 s;
     (_, s) \<leftarrow> rt_timer_start (wk_timer w) s;
     Some (s, k)
   })"

definition workqueue_submit_delayed_work :: "ptr \<Rightarrow> ptr \<Rightarrow> u32 \<Rightarrow> wstate \<Rightarrow> (rt_err \<times> wstate) option" where
  "workqueue_submit_delayed_work p w time = (\<lambda>(s, k).
     if wk_workqueue (w_work k w) \<noteq> RT_NULL \<and> wk_workqueue (w_work k w) \<noteq> p then Some (- RT_EINVAL, (s, k))
     else do {
       (ret, s, k) \<leftarrow> (if wk_workqueue (w_work k w) = p then workqueue_cancel_delayed_work w (s, k) else Some (RT_EOK, s, k));
       if ret < 0 then Some (ret, (s, k))
       else do {
         let k = set_work w (\<lambda>wk. wk\<lparr>wk_workqueue := p\<rparr>) k;
         if time = 0 then workqueue_submit_work p w (s, k)
         else do { sk \<leftarrow> start_work_timer w time (s, k); Some (ret, sk) }
       }
     })"

definition delayed_work_timeout_handler :: "ptr \<Rightarrow> wstate \<Rightarrow> wstate option" where
  "delayed_work_timeout_handler w sk = do {
     (s, k) \<leftarrow> stop_work_timer w sk;
     let k = set_work w (\<lambda>wk. wk\<lparr>wk_type := wk_type wk AND NOT RT_WORK_TYPE_DELAYED\<rparr>) k;
     (_, sk) \<leftarrow> workqueue_submit_work (wk_workqueue (w_work k w)) w (s, k);
     Some sk
   }"


subsection \<open>The interface\<close>

text \<open>\<open>mem\<close>, \<open>thread\<close> and \<open>stack\<close> are what the allocations return. When there is no thread the queue goes
  back to the heap, the second result.\<close>

definition rt_workqueue_create ::
  "ptr \<Rightarrow> ptr \<Rightarrow> ptr \<Rightarrow> string \<Rightarrow> u8 \<Rightarrow> wstate \<Rightarrow> (ptr \<times> ptr list \<times> wstate) option" where
  "rt_workqueue_create mem thread stack name priority = (\<lambda>(s, k).
     if mem = RT_NULL then Some (RT_NULL, [], (s, k))
     else do {
       (_, s) \<leftarrow> rt_sem_init (wq_sem mem) ''wqueue'' 0 RT_IPC_FLAG_FIFO s;
       (t, s) \<leftarrow> rt_thread_create thread stack name priority 10 s;
       let k = set_queue mem (\<lambda>_. \<lparr>wq_work_list = [], wq_work_current = RT_NULL, wq_work_thread = t\<rparr>) k;
       if t = RT_NULL then Some (RT_NULL, [mem], (s, k))
       else do { (_, s) \<leftarrow> rt_thread_startup t s; Some (mem, [], (s, k)) }
     })"

definition rt_workqueue_destroy :: "ptr \<Rightarrow> wstate \<Rightarrow> (rt_err \<times> ptr list \<times> wstate) option" where
  "rt_workqueue_destroy p = (\<lambda>(s, k). do {
     rt_assert (p \<noteq> RT_NULL);
     (_, s) \<leftarrow> rt_thread_delete (wq_work_thread (w_queue k p)) s;
     Some (RT_EOK, [p], (s, k))
   })"

definition rt_workqueue_dowork :: "ptr \<Rightarrow> ptr \<Rightarrow> wstate \<Rightarrow> (rt_err \<times> wstate) option" where
  "rt_workqueue_dowork p w sk = do {
     rt_assert (p \<noteq> RT_NULL);
     rt_assert (w \<noteq> RT_NULL);
     workqueue_submit_work p w sk
   }"

definition rt_workqueue_submit_work :: "ptr \<Rightarrow> ptr \<Rightarrow> u32 \<Rightarrow> wstate \<Rightarrow> (rt_err \<times> wstate) option" where
  "rt_workqueue_submit_work p w time = (\<lambda>(s, k). do {
     rt_assert (p \<noteq> RT_NULL);
     rt_assert (w \<noteq> RT_NULL);
     let k = (if 0 < time then set_work w (\<lambda>wk. wk\<lparr>wk_type := wk_type wk OR RT_WORK_TYPE_DELAYED\<rparr>) k else k);
     if wk_type (w_work k w) AND RT_WORK_TYPE_DELAYED \<noteq> 0
     then workqueue_submit_delayed_work p w time (s, k)
     else workqueue_submit_work p w (s, k)
   })"

definition rt_workqueue_critical_work :: "ptr \<Rightarrow> ptr \<Rightarrow> wstate \<Rightarrow> (rt_err \<times> wstate) option" where
  "rt_workqueue_critical_work p w = (\<lambda>(s, k). do {
     rt_assert (p \<noteq> RT_NULL);
     rt_assert (w \<noteq> RT_NULL);
     if wq_work_current (w_queue k p) = w then Some (- RT_EBUSY, (s, k))
     else do { sk \<leftarrow> start_worker p (s, queue_work p w k); Some (RT_EOK, sk) }
   })"

definition rt_workqueue_cancel_work :: "ptr \<Rightarrow> ptr \<Rightarrow> wstate \<Rightarrow> (rt_err \<times> wstate) option" where
  "rt_workqueue_cancel_work p w = (\<lambda>(s, k). do {
     rt_assert (p \<noteq> RT_NULL);
     rt_assert (w \<noteq> RT_NULL);
     if wk_type (w_work k w) AND RT_WORK_TYPE_DELAYED \<noteq> 0
     then workqueue_cancel_delayed_work w (s, k)
     else let (r, k) = workqueue_cancel_work p w k in Some (r, (s, k))
   })"

text \<open>The caller waits for the end of a work that is being done. Interrupts are disabled around the call of
  \<open>rt_sem_take\<close>, so the switch it asks for (PendSV) takes place when they are enabled again: the flag is cleared
  before the wait, and nothing is left to do after it.\<close>

definition rt_workqueue_cancel_work_sync :: "ptr \<Rightarrow> ptr \<Rightarrow> wstate \<Rightarrow> (outcome \<times> wstate) option" where
  "rt_workqueue_cancel_work_sync p w = (\<lambda>(s, k). do {
     rt_assert (p \<noteq> RT_NULL);
     rt_assert (w \<noteq> RT_NULL);
     if wq_work_current (w_queue k p) = w
     then do {
       (r, s) \<leftarrow> rt_sem_take (wq_sem p) 0xffffffff s;
       Some (if r = Blocked then Blocked else Returns RT_EOK, (s, clear_flag RT_WORK_STATE_PENDING w k))
     }
     else Some (Returns RT_EOK, (s, clear_flag RT_WORK_STATE_PENDING w (work_unlink w k)))
   })"

text \<open>The loop unlinks every node of the list.\<close>

definition rt_workqueue_cancel_all_work :: "ptr \<Rightarrow> wstate \<Rightarrow> (rt_err \<times> wstate) option" where
  "rt_workqueue_cancel_all_work p = (\<lambda>(s, k). do {
     rt_assert (p \<noteq> RT_NULL);
     let s = rt_enter_critical s;
     let k = fold work_unlink (wq_work_list (w_queue k p)) k;
     s \<leftarrow> rt_exit_critical s;
     Some (RT_EOK, (s, k))
   })"

text \<open>The work queue of the system, \<open>sys_workq\<close>, an argument.\<close>

definition rt_work_submit :: "ptr \<Rightarrow> ptr \<Rightarrow> u32 \<Rightarrow> wstate \<Rightarrow> (rt_err \<times> wstate) option" where
  "rt_work_submit sys_workq w time = rt_workqueue_submit_work sys_workq w time"

definition rt_work_cancel :: "ptr \<Rightarrow> ptr \<Rightarrow> wstate \<Rightarrow> (rt_err \<times> wstate) option" where
  "rt_work_cancel sys_workq w = rt_workqueue_cancel_work sys_workq w"

definition rt_work_sys_workqueue_init ::
  "ptr \<Rightarrow> ptr \<Rightarrow> ptr \<Rightarrow> ptr \<Rightarrow> wstate \<Rightarrow> (rt_err \<times> ptr \<times> wstate) option" where
  "rt_work_sys_workqueue_init sys_workq mem thread stack sk =
     (if sys_workq \<noteq> RT_NULL then Some (RT_EOK, sys_workq, sk)
      else do {
        (p, _, sk) \<leftarrow> rt_workqueue_create mem thread stack ''sys_work'' 23 sk;
        Some (RT_EOK, p, sk)
      })"


section \<open>Works and lists\<close>

lemma u16_flags:
  "(f OR 1) AND 1 = (1 :: u16)" "(f AND NOT 1) AND 1 = (0 :: u16)" "(f OR 2) AND 1 = f AND (1 :: u16)"
  "(f AND NOT 2) AND 1 = f AND (1 :: u16)" "(f AND NOT 1) AND 2 = f AND (2 :: u16)"
  by (rule bit_word_eqI; auto simp: bit_simps)+

lemma workqueues_simps [simp]:
  "w_queue (set_queue p f k) = (w_queue k)(p := f (w_queue k p))" "w_work (set_queue p f k) = w_work k"
  "w_queue (set_work w g k) = w_queue k" "w_work (set_work w g k) = (w_work k)(w := g (w_work k w))"
  "w_queue (raise_flag fl w k) = w_queue k" "w_queue (clear_flag fl w k) = w_queue k"
  "w_work (work_unlink w k) = w_work k" "w_work (work_append p w k) = w_work k" "w_work (queue_work p w k) = w_work k"
  "wk_type (w_work (raise_flag fl w k) w') = wk_type (w_work k w')" "wk_type (w_work (clear_flag fl w k) w') = wk_type (w_work k w')"
  "wk_workqueue (w_work (raise_flag fl w k) w') = wk_workqueue (w_work k w')"
  "wk_workqueue (w_work (clear_flag fl w k) w') = wk_workqueue (w_work k w')"
  "w_queue (work_unlink w k) p = (w_queue k p)\<lparr>wq_work_list := remove1 w (wq_work_list (w_queue k p))\<rparr>"
  "w_queue (work_append p w k) = (w_queue k)(p := (w_queue k p)\<lparr>wq_work_list := wq_work_list (w_queue k p) @ [w]\<rparr>)"
  by (simp_all add: set_queue_def set_work_def raise_flag_def clear_flag_def work_unlink_def work_append_def queue_work_def)

abbreviation works :: "workqueues \<Rightarrow> ptr \<Rightarrow> ptr list" where
  "works k p \<equiv> wq_work_list (w_queue k p)"

abbreviation pending :: "workqueues \<Rightarrow> ptr \<Rightarrow> bool" where
  "pending k w \<equiv> work_flag RT_WORK_STATE_PENDING w k"

lemma pending_simps [simp]:
  "pending (set_queue p f k) w = pending k w" "pending (work_unlink w' k) w = pending k w"
  "pending (work_append p w' k) w = pending k w" "pending (queue_work p w' k) w = pending k w"
  "pending (raise_flag 1 w' k) w \<longleftrightarrow> w = w' \<or> pending k w" "pending (clear_flag 1 w' k) w \<longleftrightarrow> w \<noteq> w' \<and> pending k w"
  "pending (raise_flag 2 w' k) w = pending k w" "pending (clear_flag 2 w' k) w = pending k w"
  by (auto simp: work_flag_def raise_flag_def clear_flag_def u16_flags u16_flags [simplified])

lemma pending_set_work: "wk_flags (g (w_work k w')) = wk_flags (w_work k w') \<Longrightarrow> pending (set_work w' g k) w = pending k w"
  by (simp add: work_flag_def)

lemma works_simps [simp]:
  "works (queue_work p w k) p' = (if p' = p then remove1 w (works k p) @ [w] else remove1 w (works k p'))"
  "wq_work_current (w_queue (queue_work p w k) p') = wq_work_current (w_queue k p')"
  "wq_work_thread (w_queue (queue_work p w k) p') = wq_work_thread (w_queue k p')"
  by (simp_all add: queue_work_def)

text \<open>As long as each work \<open>w\<close> is used with one queue, \<open>home w\<close>: it is pending exactly when it is in the list
  of this queue, once, and not while it is being done.\<close>

definition wq_ok :: "(ptr \<Rightarrow> ptr) \<Rightarrow> workqueues \<Rightarrow> bool" where
  "wq_ok home k \<longleftrightarrow> (\<forall>p. distinct (works k p)) \<and> (\<forall>p w. w \<in> set (works k p) \<longleftrightarrow> p = home w \<and> pending k w) \<and>
     (\<forall>p w. wq_work_current (w_queue k p) = w \<longrightarrow> w \<noteq> RT_NULL \<longrightarrow> p = home w \<and> \<not> pending k w) \<and>
     (\<forall>w. wk_workqueue (w_work k w) \<in> {RT_NULL, home w})"

lemma wq_okD:
  assumes "wq_ok home k"
  shows "distinct (works k p)" and "w \<in> set (works k p) \<longleftrightarrow> p = home w \<and> pending k w"
    and "w \<noteq> RT_NULL \<Longrightarrow> wq_work_current (w_queue k p) = w \<Longrightarrow> p = home w \<and> \<not> pending k w"
    and "wk_workqueue (w_work k w) = RT_NULL \<or> wk_workqueue (w_work k w) = home w"
  using assms by (auto simp: wq_ok_def)

lemma wq_ok_cong:
  assumes "\<And>p. works k' p = works k p" and "\<And>w. pending k' w = pending k w"
    and "\<And>p. wq_work_current (w_queue k' p) \<in> {RT_NULL, wq_work_current (w_queue k p)}"
    and "\<And>w. wk_workqueue (w_work k' w) \<in> {RT_NULL, home w, wk_workqueue (w_work k w)}" and "wq_ok home k"
  shows "wq_ok home k'"
proof -
  have "wk_workqueue (w_work k' w) \<in> {RT_NULL, home w}" for w using assms(4) [of w] wq_okD(4) [OF assms(5), of w] by auto
  moreover have "p = home w \<and> \<not> pending k' w" if "wq_work_current (w_queue k' p) = w" "w \<noteq> RT_NULL" for p w
  proof -
    have "wq_work_current (w_queue k p) = w" using assms(3) [of p] that by auto
    then show ?thesis using wq_okD(3) [OF assms(5) that(2)] assms(2) by simp
  qed
  ultimately show ?thesis using assms(1,2,5) by (simp add: wq_ok_def)
qed

lemma not_queued: "wq_ok home k \<Longrightarrow> \<not> pending k w \<Longrightarrow> remove1 w (works k p) = works k p"
  by (simp add: wq_okD(2) remove1_idem)


lemma wq_ok_unlink: "wq_ok home k \<Longrightarrow> wq_ok home (clear_flag 1 w (work_unlink w k))"
  by (auto simp: wq_ok_def)




lemma wq_ok_begin:
  assumes ok: "wq_ok home k" and b: "workqueue_begin p k = Some (w, k')"
  shows "wq_ok home k'" and "works k p = w # works k' p" and "wq_work_current (w_queue k' p) = w" and "\<not> pending k' w"
    and "wk_workqueue (w_work k' w) = RT_NULL"
proof -
  obtain ws where ws: "works k p = w # ws"
    and k': "k' = set_work w (\<lambda>wk. wk\<lparr>wk_workqueue := RT_NULL\<rparr>) (clear_flag 1 w (set_queue p (\<lambda>q. q\<lparr>wq_work_current := w\<rparr>) (work_unlink w k)))"
    using b by (auto simp: workqueue_begin_def Let_def split: list.splits)
  have "p = home w" using wq_okD(2) [OF ok, of w p] ws by simp
  then have "wq_ok home (set_queue p (\<lambda>q. q\<lparr>wq_work_current := w\<rparr>) (clear_flag 1 w (work_unlink w k)))"
    using wq_ok_unlink [OF ok, of w] unfolding wq_ok_def by auto
  then show "wq_ok home k'" unfolding k' by (rule wq_ok_cong [rotated 4]) (simp_all add: pending_set_work)
  show "works k p = w # works k' p" "wq_work_current (w_queue k' p) = w" "\<not> pending k' w" "wk_workqueue (w_work k' w) = RT_NULL"
    using ws by (simp_all add: k' pending_set_work)
qed





lemma stop_timer_data: "stop_work_timer w (s, k) = Some (s', k') \<Longrightarrow> k' = clear_flag 2 w k"
  by (auto simp: stop_work_timer_def bind_Some_iff)













section \<open>Waking the thread of a queue\<close>

lemma resume_schedule:
  assumes h: "healthy idle s" and t: "stat_of (k_thr s t) \<in> {RT_THREAD_READY, RT_THREAD_SUSPEND, RT_THREAD_RUNNING}"
  shows "\<exists>r s1 s'. rt_thread_resume t s = Some (r, s1) \<and> rt_schedule s1 = Some s' \<and> healthy idle s' \<and> ipc_frame s s' \<and>
    (\<forall>u. runs u s' \<longleftrightarrow> u = t \<or> runs u s)"
proof (cases "stat_of (k_thr s t) = RT_THREAD_SUSPEND")
  case True
  note wk = resume_woken [OF healthyD(1) [OF h] True]
  have r1: "runs u (woken t s) \<longleftrightarrow> u = t \<or> runs u s" for u
    using woken_stat [of t s] by (cases "u = t") (auto simp: runs_def)
  obtain s' where s': "rt_schedule (woken t s) = Some s'" "healthy idle s'" "sched_frame (woken t s) s'"
    "\<forall>u. runs u s' = runs u (woken t s)"
    using schedule_healthy [OF wk(2), of idle] healthyD(2,3,5) [OF h] r1 by auto
  show ?thesis
    using wk(1) s' r1 ipc_frame_trans [OF ipc_frame_steps(1) ipc_frame_sched [OF s'(3)]] by auto
next
  case False
  have "rt_thread_resume t s = Some (- RT_ERROR, s)"
    using False live_is_thread [OF healthyD(1) [OF h] t] by (simp add: rt_thread_resume_def)
  moreover have "runs t s" using False t by (auto simp: runs_def)
  moreover obtain s' where "rt_schedule s = Some s'" "healthy idle s'" "sched_frame s s'" "\<forall>u. runs u s' = runs u s"
    using schedule_healthy [OF healthyD(1-3,5) [OF h]] by auto
  ultimately show ?thesis using ipc_frame_sched by blast
qed

text \<open>A work that is pending or being done is refused. Any other goes to the end of the list, and the thread of the queue
  can run unless it is doing a work.\<close>

theorem rt_workqueue_dowork_total:
  assumes h: "healthy idle s" and ok: "wq_ok home k" and p: "p \<noteq> RT_NULL" and w: "w \<noteq> RT_NULL" "home w = p"
    and t: "stat_of (k_thr s (wq_work_thread (w_queue k p))) \<in> {RT_THREAD_READY, RT_THREAD_SUSPEND, RT_THREAD_RUNNING}"
  shows "\<exists>r s' k'. rt_workqueue_dowork p w (s, k) = Some (r, (s', k')) \<and> healthy idle s' \<and>
     (if pending k w \<or> wq_work_current (w_queue k p) = w then r = - RT_EBUSY \<and> s' = s \<and> k' = k
      else r = RT_EOK \<and> pending k' w \<and> (\<forall>p'. works k' p' = (if p' = p then works k p @ [w] else works k p')) \<and>
        (if wq_work_current (w_queue k p) = RT_NULL then runs (wq_work_thread (w_queue k p)) s' else s' = s))"
proof (cases "pending k w \<or> wq_work_current (w_queue k p) = w")
  case True
  then show ?thesis using h p w(1) by (auto simp: rt_workqueue_dowork_def workqueue_submit_work_def)
next
  case False
  let ?k = "raise_flag 1 w (queue_work p w k)"
  have l: "\<forall>p'. works ?k p' = (if p' = p then works k p @ [w] else works k p')" using not_queued [OF ok] False by simp
  obtain r s1 s' where s': "rt_thread_resume (wq_work_thread (w_queue k p)) s = Some (r, s1)" "rt_schedule s1 = Some s'" "healthy idle s'"
    "runs (wq_work_thread (w_queue k p)) s'"
    using resume_schedule [OF h t] by blast
  have "start_worker p (s, ?k) = Some (if wq_work_current (w_queue k p) = RT_NULL then s' else s, ?k)"
    using s'(1,2) by (simp add: start_worker_def)
  then show ?thesis using False l s'(3,4) h p w(1)
    by (simp add: rt_workqueue_dowork_def workqueue_submit_work_def)
qed


section \<open>The end of a work\<close>

text \<open>What the loop of \<open>workqueue_work_completion\<close> does, with the scheduler locked: it wakes every thread that
  waits, then leaves the value 0.\<close>

lemma release_locked:
  assumes inv: "sys_inv 0 s" and l: "k_lock s \<noteq> 0" and p: "is_class Class_Semaphore p s" and q: "k_q s (Susp p) = w # ws"
  shows "rt_sem_release p s = Some (RT_EOK, woken w s)"
  using list_resume_woken(1) [OF inv _ q] l p q by (simp add: rt_sem_release_def rt_schedule_def)

lemma completion_loop:
  "sys_inv 0 s \<Longrightarrow> k_lock s \<noteq> 0 \<Longrightarrow> is_class Class_Semaphore (wq_sem p) s \<Longrightarrow> sem_val s (wq_sem p) = 0 \<Longrightarrow>
   k_q s (Susp (wq_sem p)) = ws \<Longrightarrow>
   \<exists>s'. work_completion_loop p s = Some (RT_EOK, s') \<and> sys_inv 0 s' \<and> k_lock s' = k_lock s \<and> k_cur s' = k_cur s \<and>
     k_q s' (Susp (wq_sem p)) = [] \<and> sem_val s' (wq_sem p) = 0 \<and> (\<forall>u. runs u s' \<longleftrightarrow> runs u s \<or> u \<in> set ws) \<and>
     (\<forall>u. t_error (k_thr s' u) = t_error (k_thr s u))"
proof (induction ws arbitrary: s)
  case Nil
  let ?s1 = "set_sem (wq_sem p) (\<lambda>sem. sem\<lparr>sem_value := 1\<rparr>) s"
  let ?s2 = "set_sem (wq_sem p) (\<lambda>sem. sem\<lparr>sem_value := sem_value sem - 1\<rparr>) ?s1"
  have c1: "is_class Class_Semaphore (wq_sem p) ?s1"
    using Nil.prems(3) data_step_get_type [OF data_step_sem] by (simp add: is_class_def)
  have "rt_sem_trytake (wq_sem p) s = Some (Returns (- RT_ETIMEOUT), s)"
    unfolding rt_sem_trytake_def by (rule sem_take_timeout [OF Nil.prems(3,4)])
  moreover have "rt_sem_release (wq_sem p) s = Some (RT_EOK, ?s1)"
    using Nil.prems(3,4,5) by (simp add: rt_sem_release_def set_sem_def)
  moreover have "work_completion_loop p ?s1 = Some (RT_EOK, ?s2)"
    using sem_take_available [OF c1, of 0] by (subst work_completion_loop.simps) (simp add: rt_sem_trytake_def)
  ultimately have "work_completion_loop p s = Some (RT_EOK, ?s2)"
    by (subst work_completion_loop.simps) simp
  moreover have "sys_inv 0 ?s2" using Nil.prems(1) data_step_sys_inv [OF data_step_sem] by blast
  ultimately show ?case using Nil.prems(5) by (intro exI [of _ ?s2]) (simp add: runs_def)
next
  case (Cons w ws)
  note wk = list_resume_woken [OF Cons.prems(1) waiting_simps(1) Cons.prems(5)]
  note fr = ipc_frame_steps(1) [of s w]
  have r1: "runs u (woken w s) \<longleftrightarrow> runs u s \<or> u = w" for u
    using woken_stat [of w s] by (cases "u = w") (auto simp: runs_def)
  have c: "is_class Class_Semaphore (wq_sem p) (woken w s)" "sem_val (woken w s) (wq_sem p) = 0"
    using Cons.prems(3,4) is_class_frame [OF fr] ipc_frameD(1) [OF fr] by simp_all
  have "\<exists>s'. work_completion_loop p (woken w s) = Some (RT_EOK, s') \<and> sys_inv 0 s' \<and> k_lock s' = k_lock (woken w s) \<and>
     k_cur s' = k_cur (woken w s) \<and> k_q s' (Susp (wq_sem p)) = [] \<and> sem_val s' (wq_sem p) = 0 \<and>
     (\<forall>u. runs u s' \<longleftrightarrow> runs u (woken w s) \<or> u \<in> set ws) \<and> (\<forall>u. t_error (k_thr s' u) = t_error (k_thr (woken w s) u))"
    using Cons.prems(2) by (intro Cons.IH [OF wk(2) _ c wk(3)]) simp
  then obtain s' where s': "work_completion_loop p (woken w s) = Some (RT_EOK, s')" "sys_inv 0 s'" "k_lock s' = k_lock s"
    "k_cur s' = k_cur s" "k_q s' (Susp (wq_sem p)) = []" "sem_val s' (wq_sem p) = 0"
    "\<forall>u. runs u s' \<longleftrightarrow> runs u (woken w s) \<or> u \<in> set ws" "\<forall>u. t_error (k_thr s' u) = t_error (k_thr (woken w s) u)"
    by auto
  have "rt_sem_trytake (wq_sem p) s = Some (Returns (- RT_ETIMEOUT), s)"
    unfolding rt_sem_trytake_def by (rule sem_take_timeout [OF Cons.prems(3,4)])
  then have "work_completion_loop p s = Some (RT_EOK, s')"
    using release_locked [OF Cons.prems(1-3,5)] s'(1) by (subst work_completion_loop.simps) simp
  then show ?case using s' r1 by (intro exI [of _ s']) auto
qed

lemma workqueue_completion_total:
  assumes h: "healthy idle s" and p: "is_class Class_Semaphore (wq_sem p) s" and v: "sem_val s (wq_sem p) = 0"
  shows "\<exists>s'. workqueue_work_completion p s = Some (RT_EOK, s') \<and> healthy idle s' \<and> k_q s' (Susp (wq_sem p)) = [] \<and>
     sem_val s' (wq_sem p) = 0 \<and> (\<forall>u. runs u s' \<longleftrightarrow> runs u s \<or> u \<in> set (k_q s (Susp (wq_sem p)))) \<and>
     (\<forall>u. t_error (k_thr s' u) = t_error (k_thr s u))"
proof -
  let ?s0 = "rt_enter_critical s"
  have f: "k_q ?s0 = k_q s" "k_thr ?s0 = k_thr s" "k_sem ?s0 = k_sem s" "k_obj ?s0 = k_obj s" "k_cur ?s0 = k_cur s" "k_lock ?s0 = 1"
    using healthyD(2) [OF h] by (simp_all add: rt_enter_critical_def)
  have lk: "sys_inv 0 (s\<lparr>k_lock := l\<rparr>) = sys_inv 0 s" for s l by (rule sys_inv_cong) simp_all
  have inv0: "sys_inv 0 ?s0" using healthyD(1) [OF h] lk by (simp add: rt_enter_critical_def)
  have c0: "is_class Class_Semaphore (wq_sem p) ?s0" using p timer_flag_cong(4) [OF f(4)] by (simp add: is_class_def)
  obtain s1 where s1: "work_completion_loop p ?s0 = Some (RT_EOK, s1)" "sys_inv 0 s1" "k_lock s1 = 1" "k_cur s1 = k_cur s"
    "k_q s1 (Susp (wq_sem p)) = []" "sem_val s1 (wq_sem p) = 0" "\<forall>u. runs u s1 \<longleftrightarrow> runs u ?s0 \<or> u \<in> set (k_q s (Susp (wq_sem p)))"
    "\<forall>u. t_error (k_thr s1 u) = t_error (k_thr s u)"
    using completion_loop [OF inv0 _ c0 _ refl] v f by auto
  let ?s2 = "s1\<lparr>k_lock := 0\<rparr>"
  have inv2: "sys_inv 0 ?s2" using s1(2) lk by simp
  have r2: "runs u ?s2 \<longleftrightarrow> runs u s \<or> u \<in> set (k_q s (Susp (wq_sem p)))" for u using s1(7) f(2) by (simp add: runs_def)
  obtain s' where s': "rt_schedule ?s2 = Some s'" "healthy idle s'" "sched_frame ?s2 s'" "\<forall>u. runs u s' = runs u ?s2"
    using schedule_healthy [OF inv2, of idle] s1(4) healthyD(3,5) [OF h] r2 by auto
  have "rt_exit_critical s1 = Some s'" using s1(3,4) s'(1) healthyD(3) [OF h] by (simp add: rt_exit_critical_def Let_def)
  then show ?thesis
    using s1(1,5,6,8) s'(2,4) r2 sched_frameD(8,12,15) [OF s'(3)]
    by (intro exI [of _ s']) (simp add: workqueue_work_completion_def)
qed

text \<open>C28: Cancelling a work that is being done waits until it ends, however many threads wait: the loop at the end of a work
  ends, all of them can run again, and the semaphore of the queue has the value 0 as before.\<close>

theorem rt_workqueue_cancel_work_sync_waits:
  assumes h: "healthy idle s" and ni: "k_cur s \<noteq> idle" and irq: "k_irq s = 0" and p: "p \<noteq> RT_NULL" "w \<noteq> RT_NULL"
    and sem: "is_class Class_Semaphore (wq_sem p) s" "sem_val s (wq_sem p) = 0" "ipc_flag (wq_sem p) s = RT_IPC_FLAG_FIFO"
    and w: "wq_work_current (w_queue k p) = w"
  shows "\<exists>s1 k1. rt_workqueue_cancel_work_sync p w (s, k) = Some (Blocked, (s1, k1)) \<and>
     stat_of (k_thr s1 (k_cur s)) = RT_THREAD_SUSPEND \<and>
     (\<exists>s2 k2. workqueue_end p (s1, k1) = Some (RT_EOK, (s2, k2)) \<and> wq_work_current (w_queue k2 p) = RT_NULL \<and> healthy idle s2 \<and>
       sem_val s2 (wq_sem p) = 0 \<and> k_q s2 (Susp (wq_sem p)) = [] \<and> runs (k_cur s) s2 \<and>
       (\<forall>u \<in> set (k_q s (Susp (wq_sem p))). runs u s2))"
proof -
  obtain s1 where s1: "rt_sem_take (wq_sem p) 0xffffffff s = Some (Blocked, s1)"
    "waits_in idle (Susp (wq_sem p)) (ipc_flag (wq_sem p) s) 0xffffffff s s1"
    using sem_take_waits [OF h ni irq sem(1,2), of "0xffffffff"] sem(3) by (auto simp: TICK_HALF_def)
  note d = waits_inD [OF s1(2)]
  have "is_class Class_Semaphore (wq_sem p) s1" "sem_val s1 (wq_sem p) = 0"
    using sem(1,2) is_class_frame [OF d(2)] ipc_frameD(1) [OF d(2)] by simp_all
  then obtain s2 where s2: "workqueue_work_completion p s1 = Some (RT_EOK, s2)" "healthy idle s2" "k_q s2 (Susp (wq_sem p)) = []"
    "sem_val s2 (wq_sem p) = 0" "\<forall>u. runs u s2 \<longleftrightarrow> runs u s1 \<or> u \<in> set (k_q s1 (Susp (wq_sem p)))"
    using workqueue_completion_total [OF d(1)] by blast
  have "workqueue_end p (s1, clear_flag 1 w k) = Some (RT_EOK, (s2, set_queue p (\<lambda>q. q\<lparr>wq_work_current := RT_NULL\<rparr>) (clear_flag 1 w k)))"
    using s2(1) by (simp add: workqueue_end_def)
  moreover have "rt_workqueue_cancel_work_sync p w (s, k) = Some (Blocked, (s1, clear_flag 1 w k))"
    using p w s1(1) by (simp add: rt_workqueue_cancel_work_sync_def)
  ultimately show ?thesis using s2(2-5) d(5,7) by simp
qed


section \<open>Where a queue goes wrong\<close>

lemma fold_unlink: "w_work (fold work_unlink ws k) = w_work k" "works (fold work_unlink ws k) p = fold remove1 ws (works k p)"
  by (induction ws arbitrary: k) simp_all

lemma fold_remove1_self: "fold remove1 xs xs = []"
  by (induction xs) simp_all

text \<open>Cancelling all works does not clear their flags: none of them is in the list any more, and none is accepted
  again.\<close>

theorem rt_workqueue_cancel_all_work_strands:
  assumes h: "healthy idle s" and ok: "wq_ok home k" and p: "p \<noteq> RT_NULL" "w \<noteq> RT_NULL" and w: "w \<in> set (works k p)"
  shows "\<exists>s' k'. rt_workqueue_cancel_all_work p (s, k) = Some (RT_EOK, (s', k')) \<and> works k' p = [] \<and>
     rt_workqueue_dowork p w (s', k') = Some (- RT_EBUSY, (s', k'))"
proof -
  have e: "s\<lparr>k_lock := 0\<rparr> = s" using healthyD(2) [OF h] by (cases s) simp
  have "rt_exit_critical (rt_enter_critical s) = rt_schedule (s\<lparr>k_lock := 0\<rparr>)"
    using healthyD(2,3) [OF h] by (simp add: rt_exit_critical_def rt_enter_critical_def Let_def)
  then have "rt_exit_critical (rt_enter_critical s) = rt_schedule s" by (simp only: e)
  moreover obtain s' where "rt_schedule s = Some s'" using schedule_healthy [OF healthyD(1-3,5) [OF h]] by blast
  ultimately have "rt_workqueue_cancel_all_work p (s, k) = Some (RT_EOK, (s', fold work_unlink (works k p) k))"
    using p by (simp add: rt_workqueue_cancel_all_work_def Let_def)
  moreover have "pending (fold work_unlink (works k p) k) w"
    using wq_okD(2) [OF ok, of w p] w fold_unlink(1) by (simp add: work_flag_def)
  ultimately show ?thesis using p
    by (auto simp: fold_unlink fold_remove1_self rt_workqueue_dowork_def workqueue_submit_work_def)
qed

text \<open>C29: A work that is cancelled between its submission and the moment the thread runs leaves an empty list; the thread,
  which does not test the list again, takes the list head for a work.\<close>

theorem workqueue_cancelled_before_begin:
  assumes h: "healthy idle s" and ok: "wq_ok home k" and p: "p \<noteq> RT_NULL" and w: "w \<noteq> RT_NULL" "home w = p" "\<not> pending k w"
    and k: "works k p = []" "wq_work_current (w_queue k p) = RT_NULL" "wk_type (w_work k w) = 0"
    and t: "stat_of (k_thr s (wq_work_thread (w_queue k p))) = RT_THREAD_SUSPEND"
  shows "\<exists>s' k1 k2. rt_workqueue_dowork p w (s, k) = Some (RT_EOK, (s', k1)) \<and> runs (wq_work_thread (w_queue k p)) s' \<and>
     rt_workqueue_cancel_work p w (s', k1) = Some (RT_EOK, (s', k2)) \<and> workqueue_begin p k2 = None"
proof -
  obtain r s1 s' where s': "rt_thread_resume (wq_work_thread (w_queue k p)) s = Some (r, s1)" "rt_schedule s1 = Some s'"
    "runs (wq_work_thread (w_queue k p)) s'"
    using resume_schedule [OF h, of "wq_work_thread (w_queue k p)"] t by auto
  let ?k1 = "raise_flag 1 w (queue_work p w k)" and ?k2 = "clear_flag 1 w (work_unlink w (raise_flag 1 w (queue_work p w k)))"
  have "rt_workqueue_dowork p w (s, k) = Some (RT_EOK, (s', ?k1))"
    using s' w p k(2) by (simp add: rt_workqueue_dowork_def workqueue_submit_work_def start_worker_def)
  moreover have "rt_workqueue_cancel_work p w (s', ?k1) = Some (RT_EOK, (s', ?k2))"
    using w p k(2,3) by (simp add: rt_workqueue_cancel_work_def workqueue_cancel_work_def)
  moreover have "works ?k2 p = []" using k(1) by simp
  ultimately show ?thesis using s'(3) by (auto simp: workqueue_begin_def)
qed

text \<open>A work that is submitted between the test of the list and the suspension of the thread does not wake it: the
  thread sleeps with the work in its list.\<close>

theorem workqueue_sleeps_on_work:
  assumes h: "healthy idle s" and ok: "wq_ok home k" and p: "p \<noteq> RT_NULL" and w: "w \<noteq> RT_NULL" "home w = p" "\<not> pending k w"
    and t: "wq_work_thread (w_queue k p) = k_cur s" "k_cur s \<noteq> idle" and k: "wq_work_current (w_queue k p) = RT_NULL"
    and i: "workqueue_idle p (s, k)" and keep: "rt_schedule s = Some s"
  shows "\<exists>k1 s2. rt_workqueue_dowork p w (s, k) = Some (RT_EOK, (s, k1)) \<and> works k1 p = [w] \<and>
     workqueue_sleep (s, k1) = Some (s2, k1) \<and> stat_of (k_thr s2 (wq_work_thread (w_queue k p))) = RT_THREAD_SUSPEND"
proof -
  let ?k = "raise_flag 1 w (queue_work p w k)" and ?s1 = "suspended (k_cur s) s"
  have run: "stat_of (k_thr s (k_cur s)) = RT_THREAD_RUNNING" by (rule healthyD(4) [OF h])
  have "rt_thread_resume (k_cur s) s = Some (- RT_ERROR, s)"
    using run live_is_thread [OF healthyD(1) [OF h], of "k_cur s"] by (simp add: rt_thread_resume_def)
  then have sub: "rt_workqueue_dowork p w (s, k) = Some (RT_EOK, (s, ?k))"
    using w p k t(1) keep by (simp add: rt_workqueue_dowork_def workqueue_submit_work_def start_worker_def)
  note su = suspended_inv [OF healthyD(1) [OF h] disjI2 [OF run]]
  have r: "runs idle ?s1" "\<not> runs (k_cur s) ?s1" "stat_of (k_thr ?s1 (k_cur s)) = RT_THREAD_SUSPEND"
    using healthyD(5) [OF h] t(2) by (auto simp: runs_def)
  obtain s2 where s2: "rt_schedule ?s1 = Some s2" "\<forall>u. \<not> runs u ?s1 \<longrightarrow> stat_of (k_thr s2 u) = stat_of (k_thr ?s1 u)"
    using schedule_healthy [OF su(2) _ _ r(1)] healthyD(2,3) [OF h] by auto
  have "workqueue_sleep (s, ?k) = Some (s2, ?k)" using su(1) s2(1) by (simp add: workqueue_sleep_def rt_thread_self_def)
  then show ?thesis using sub i s2(2) r(2,3) t(1) by (auto simp: workqueue_idle_def)
qed

text \<open>A delayed work that is also submitted at once is done before its time is over; the thread has cleared its queue
  by then, and the timeout function submits it to the queue at \<open>RT_NULL\<close>.\<close>

theorem delayed_work_timeout_faults:
  assumes b: "workqueue_begin p k = Some (w, k1)" and ok: "wq_ok home k" and sub: "work_flag RT_WORK_STATE_SUBMITTING w k"
    and tm: "rt_object_get_type (wk_timer w) s = Class_Timer" "rt_object_is_systemobject (wk_timer w) s"
  shows "work_flag RT_WORK_STATE_SUBMITTING w k1 \<and> (\<exists>sk. stop_work_timer w (s, k1) = Some sk) \<and>
    delayed_work_timeout_handler w (s, k1) = None"
proof -
  note d = wq_ok_begin [OF ok b]
  have "work_flag 2 w k1"
    using b sub by (auto simp: workqueue_begin_def Let_def work_flag_def clear_flag_def u16_flags u16_flags [simplified] split: list.splits)
  moreover have "\<exists>sk. stop_work_timer w (s, k1) = Some sk"
    using tm by (auto simp: stop_work_timer_def rt_timer_stop_def rt_timer_detach_def wk_timer_def)
  moreover have "delayed_work_timeout_handler w (s, k1) = None"
  proof (cases "stop_work_timer w (s, k1)")
    case (Some sk)
    then obtain s2 where "sk = (s2, clear_flag 2 w k1)" using stop_timer_data by (cases sk) auto
    then show ?thesis using Some d(4,5)
      by (simp add: delayed_work_timeout_handler_def Let_def workqueue_submit_work_def pending_set_work)
  qed (simp add: delayed_work_timeout_handler_def)
  ultimately show ?thesis by blast
qed

text \<open>Destroying a queue gives its memory back, but its semaphore, which lies there, stays in the list of the
  semaphores.\<close>

theorem rt_workqueue_destroy_leaves_sem:
  assumes d: "rt_workqueue_destroy p (s, k) = Some (r, freed, (s', k'))" and c: "Obj (wq_sem p) \<in> set (k_container s Class_Semaphore)"
  shows "p \<in> set freed \<and> Obj (wq_sem p) \<in> set (k_container s' Class_Semaphore)"
proof -
  have "k_container s2 = k_container s1" if "rt_schedule_remove_thread t s1 = Some s2" for t s1 s2
    using that by (auto simp: rt_schedule_remove_thread_def bind_Some_iff Let_def split: if_splits)
  moreover have "k_container s2 = k_container s1" if "tlist_insert_after_head Defunct t s1 = Some s2" for t s1 s2
    using that by (auto simp: tlist_insert_after_head_def q_push_front_def split: if_splits)
  ultimately show ?thesis
    using d c by (auto simp: rt_workqueue_destroy_def rt_thread_delete_def bind_Some_iff Let_def rt_timer_detach_def
        rt_object_detach_def container_remove_def timer_remove_def in_set_remove1 split: if_splits)
qed

end
