(* ===== verification/RTT_Calls.thy ===== *)
theory RTT_Calls
  imports RTT_Mutex RTT_Event RTT_Mailbox RTT_MsgQueue RTT_MemPool
begin

text \<open>
  What the blocking and waking calls of \<open>src/ipc.c\<close>, \<open>src/mempool.c\<close> and \<open>src/thread.c\<close> have in common when
  threads issue them in an unlocked, started system: each comes to an end, touches the object it is
  called for and the threads that wait for it, and keeps the invariants of all objects. The system of
  \<open>RTT_System\<close> is composed of these calls and of the clock interrupt.
\<close>

section \<open>What a call leaves alone\<close>

text \<open>\<open>not_lost\<close>: the thread waits for \<open>p\<close> or can run. The thread \<open>t\<close> has worked on the object \<open>p\<close>: no other object, and no thread that does not wait for
  \<open>p\<close>, has changed, but for the place on the processor.\<close>

definition not_lost :: "ptr \<Rightarrow> ptr \<Rightarrow> kstate \<Rightarrow> bool" where
  "not_lost p u s \<longleftrightarrow> u \<in> set (k_q s (Susp p)) \<or> u \<in> set (k_q s (Sender p)) \<or> runs u s"

definition touches :: "ptr \<Rightarrow> ptr \<Rightarrow> kstate \<Rightarrow> kstate \<Rightarrow> bool" where
  "touches p t s s' \<longleftrightarrow>
     (\<forall>x. rt_object_get_type x s' = rt_object_get_type x s) \<and> (\<forall>c. k_obj s' (Obj c) = k_obj s (Obj c)) \<and>
     (\<forall>c. Obj c \<in> set (k_tlist s') \<longleftrightarrow> Obj c \<in> set (k_tlist s)) \<and> k_irq s' = k_irq s \<and>
     (\<forall>c. c \<noteq> p \<longrightarrow> k_sem s' c = k_sem s c \<and> k_mutex s' c = k_mutex s c \<and> k_event s' c = k_event s c \<and>
        k_mb s' c = k_mb s c \<and> k_mq s' c = k_mq s c \<and> k_mp s' c = k_mp s c \<and>
        k_q s' (Susp c) = k_q s (Susp c) \<and> k_q s' (Sender c) = k_q s (Sender c)) \<and>
     set (k_q s' (Susp p)) \<subseteq> insert t (set (k_q s (Susp p))) \<and>
     set (k_q s' (Sender p)) \<subseteq> insert t (set (k_q s (Sender p))) \<and>
     (\<forall>u. u \<noteq> t \<longrightarrow> u \<notin> set (k_q s (Susp p)) \<longrightarrow> u \<notin> set (k_q s (Sender p)) \<longrightarrow>
        runs u s' = runs u s \<and> t_error (k_thr s' u) = t_error (k_thr s u) \<and>
        t_event_set (k_thr s' u) = t_event_set (k_thr s u) \<and> t_event_info (k_thr s' u) = t_event_info (k_thr s u)) \<and>
     (\<forall>u. t_error (k_thr s' u) \<in> {t_error (k_thr s u), RT_EOK, - RT_ETIMEOUT, - RT_ERROR}) \<and>
     (\<forall>u. u \<noteq> t \<longrightarrow> not_lost p u s \<longrightarrow> not_lost p u s')"

lemma not_lost_mono:
  assumes "not_lost p u s" and "runs u s \<Longrightarrow> runs u s'"
    and "\<And>q. q \<in> {Susp p, Sender p} \<Longrightarrow> u \<in> set (k_q s q) \<Longrightarrow> u \<in> set (k_q s' q) \<or> runs u s'"
  shows "not_lost p u s'"
  using assms by (auto simp: not_lost_def)

lemma touchesI:
  assumes "\<And>x. rt_object_get_type x s' = rt_object_get_type x s" and "\<And>c. k_obj s' (Obj c) = k_obj s (Obj c)"
    and "\<And>c. Obj c \<in> set (k_tlist s') \<longleftrightarrow> Obj c \<in> set (k_tlist s)" and "k_irq s' = k_irq s"
    and "\<And>c. c \<noteq> p \<Longrightarrow> k_sem s' c = k_sem s c \<and> k_mutex s' c = k_mutex s c \<and> k_event s' c = k_event s c \<and>
        k_mb s' c = k_mb s c \<and> k_mq s' c = k_mq s c \<and> k_mp s' c = k_mp s c"
    and "\<And>q. waiting q \<Longrightarrow> q \<noteq> Susp p \<Longrightarrow> q \<noteq> Sender p \<Longrightarrow> k_q s' q = k_q s q"
    and "set (k_q s' (Susp p)) \<subseteq> insert t (set (k_q s (Susp p)))"
    and "set (k_q s' (Sender p)) \<subseteq> insert t (set (k_q s (Sender p)))"
    and "\<And>u. u \<noteq> t \<Longrightarrow> u \<notin> set (k_q s (Susp p)) \<Longrightarrow> u \<notin> set (k_q s (Sender p)) \<Longrightarrow>
        runs u s' = runs u s \<and> t_error (k_thr s' u) = t_error (k_thr s u) \<and>
        t_event_set (k_thr s' u) = t_event_set (k_thr s u) \<and> t_event_info (k_thr s' u) = t_event_info (k_thr s u)"
    and "\<And>u. t_error (k_thr s' u) \<in> {t_error (k_thr s u), RT_EOK, - RT_ETIMEOUT, - RT_ERROR}"
    and "\<And>u. u \<noteq> t \<Longrightarrow> not_lost p u s \<Longrightarrow> not_lost p u s'"
  shows "touches p t s s'"
  unfolding touches_def using assms(1-5,7-11) assms(6) [of "Susp _"] assms(6) [of "Sender _"] by simp

lemma touchesD:
  assumes "touches p t s s'"
  shows "rt_object_get_type x s' = rt_object_get_type x s" and "k_obj s' (Obj c) = k_obj s (Obj c)"
    and "Obj c \<in> set (k_tlist s') \<longleftrightarrow> Obj c \<in> set (k_tlist s)" and "k_irq s' = k_irq s"
    and "c \<noteq> p \<Longrightarrow> k_sem s' c = k_sem s c" and "c \<noteq> p \<Longrightarrow> k_mutex s' c = k_mutex s c"
    and "c \<noteq> p \<Longrightarrow> k_event s' c = k_event s c" and "c \<noteq> p \<Longrightarrow> k_mb s' c = k_mb s c"
    and "c \<noteq> p \<Longrightarrow> k_mq s' c = k_mq s c" and "c \<noteq> p \<Longrightarrow> k_mp s' c = k_mp s c"
    and "c \<noteq> p \<Longrightarrow> k_q s' (Susp c) = k_q s (Susp c)" and "c \<noteq> p \<Longrightarrow> k_q s' (Sender c) = k_q s (Sender c)"
    and "set (k_q s' (Susp p)) \<subseteq> insert t (set (k_q s (Susp p)))"
    and "set (k_q s' (Sender p)) \<subseteq> insert t (set (k_q s (Sender p)))"
    and "u \<noteq> t \<Longrightarrow> u \<notin> set (k_q s (Susp p)) \<Longrightarrow> u \<notin> set (k_q s (Sender p)) \<Longrightarrow>
      runs u s' = runs u s \<and> t_error (k_thr s' u) = t_error (k_thr s u) \<and>
      t_event_set (k_thr s' u) = t_event_set (k_thr s u) \<and> t_event_info (k_thr s' u) = t_event_info (k_thr s u)"
    and "t_error (k_thr s' u) \<in> {t_error (k_thr s u), RT_EOK, - RT_ETIMEOUT, - RT_ERROR}"
    and "u \<noteq> t \<Longrightarrow> not_lost p u s \<Longrightarrow> not_lost p u s'"
  using assms unfolding touches_def by blast+

lemma touches_refl [simp]: "touches p t s s"
  by (rule touchesI) auto

lemma touches_trans:
  assumes "touches p t s s1" and "touches p t s1 s2"
  shows "touches p t s s2"
proof -
  note a = touchesD [OF assms(1)] and b = touchesD [OF assms(2)]
  show ?thesis
  proof (rule touchesI, goal_cases)
    case (9 u)
    then have "u \<notin> set (k_q s1 (Susp p))" "u \<notin> set (k_q s1 (Sender p))" using a(13,14) by auto
    then show ?case using a(15) [OF 9] b(15) [OF 9(1)] by simp
  next
    case (10 u)
    then show ?case using a(16) [of u] b(16) [of u] by auto
  next
    case (6 q)
    then show ?case using a(11,12) b(11,12) by (auto simp: waiting_def)
  qed (use a b in auto)
qed

text \<open>The building blocks: the data of the object, the error number of the caller, a thread put to wait,
  the first thread woken.\<close>

lemma touches_data:
  assumes "data_step s s'"
    and "\<And>c. c \<noteq> p \<Longrightarrow> k_sem s' c = k_sem s c \<and> k_mutex s' c = k_mutex s c \<and> k_event s' c = k_event s c \<and>
        k_mb s' c = k_mb s c \<and> k_mq s' c = k_mq s c \<and> k_mp s' c = k_mp s c"
  shows "touches p t s s'"
  by (rule touchesI)
    (use assms data_step_get_type [OF assms(1)] in \<open>auto simp: data_step_def runs_def not_lost_def\<close>)

lemma touches_set [simp]:
  "touches p t s (set_sem p f1 s)" "touches p t s (set_mutex p f2 s)" "touches p t s (set_event p f3 s)"
  "touches p t s (set_mb p f4 s)" "touches p t s (set_mq p f5 s)" "touches p t s (set_mp p f6 s)"
  by (rule touches_data; simp)+

lemma touches_error:
  assumes "e \<in> {RT_EOK, - RT_ETIMEOUT, - RT_ERROR}"
  shows "touches p t s (set_thr t (\<lambda>th. th\<lparr>t_error := e\<rparr>) s)"
proof -
  note f = ipc_frameD [OF ipc_frame_steps(5) [of s t e]]
  show ?thesis by (rule touchesI) (use assms f in \<open>auto simp: runs_def not_lost_def\<close>)
qed

lemma touches_waits:
  assumes "waits_at idle q ys time s s'" and "q \<in> {Susp p, Sender p}" and "set ys = insert (k_cur s) (set (k_q s q))"
  shows "touches p (k_cur s) s s'"
proof -
  note d = waits_atD [OF assms(1)] and f = ipc_frameD [OF waits_atD(2) [OF assms(1)]]
  show ?thesis
  proof (rule touchesI, goal_cases)
    case (6 q')
    then show ?case using d(8) [of q'] assms(2) by auto
  next
    case 7
    then show ?case using d(7) d(8) [of "Susp p"] assms(2,3) by auto
  next
    case 8
    then show ?case using d(7) d(8) [of "Sender p"] assms(2,3) by auto
  next
    case (9 u)
    then show ?case using d(9,10) [of u] f by simp
  next
    case (10 u)
    then show ?case using d(6) d(10) [of u] by (cases "u = k_cur s") auto
  next
    case (11 u)
    then show ?case
      using assms(2,3) d(7,9) d(8) [of "Susp p"] d(8) [of "Sender p"]
      by (intro not_lost_mono [OF 11(2)]) auto
  qed (use f in auto)
qed

lemma touches_waits_in:
  assumes "waits_in idle q flag time s s'" and "q \<in> {Susp p, Sender p}"
  shows "touches p (k_cur s) s s'"
  using touches_waits [OF assms(1) [unfolded waits_in_def] assms(2)] by simp

lemma waits_not_lost:
  assumes "waits_in idle q flag time s s'" and "q \<in> {Susp p, Sender p}"
  shows "not_lost p (k_cur s) s'"
  using assms(2) waits_inD(7) [OF assms(1)] by (auto simp: not_lost_def)

lemma touches_wakes:
  assumes "wakes_any idle q s s'" and "q \<in> {Susp p, Sender p}"
  shows "touches p t s s'"
proof -
  note d = wakes_anyD [OF assms(1)] and f = ipc_frameD [OF wakes_anyD(2) [OF assms(1)]]
  show ?thesis
  proof (rule touchesI, goal_cases)
    case (6 q')
    then show ?case using d(5) [of q'] assms(2) by auto
  next
    case 7
    then show ?case
      using d(4) d(5) [of "Susp p"] assms(2) list.set_sel(2) [of "k_q s q"] by (cases "k_q s q") auto
  next
    case 8
    then show ?case
      using d(4) d(5) [of "Sender p"] assms(2) list.set_sel(2) [of "k_q s q"] by (cases "k_q s q") auto
  next
    case (9 u)
    then show ?case
      using d(6) [of u] d(7) [of u] f assms(2) by (cases "k_q s q") auto
  next
    case (10 u)
    then show ?case using d(7) [of u] by simp
  next
    case (11 u)
    have "u \<in> set (k_q s' q') \<or> runs u s'" if "q' \<in> {Susp p, Sender p}" "u \<in> set (k_q s q')" for q'
    proof (cases "q' = q")
      case True
      then show ?thesis using that d(4,6) by (cases "k_q s q") auto
    qed (use that d(5) [of q'] in auto)
    then show ?case using d(6) [of u] by (intro not_lost_mono [OF 11(2)]) auto
  qed (use f in auto)
qed



section \<open>The invariants of all objects\<close>

definition objs_ok :: "kstate \<Rightarrow> bool" where
  "objs_ok s \<longleftrightarrow> sem_ok s \<and> mutex_ok s \<and> event_ok s \<and> mb_ok s \<and> mq_ok s \<and> mp_ok s"

lemma objs_okD:
  assumes "objs_ok s"
  shows "sem_ok s" and "mutex_ok s" and "event_ok s" and "mb_ok s" and "mq_ok s" and "mp_ok s"
  using assms by (simp_all add: objs_ok_def)

lemma touches_class: "touches p t s s' \<Longrightarrow> is_class c x s' = is_class c x s"
  by (simp add: is_class_def touchesD(1))

lemma touches_flag: "touches p t s s' \<Longrightarrow> ipc_flag x s' = ipc_flag x s"
  by (simp add: ipc_flag_def touchesD(2))

lemma class_unique: "is_class c p s \<Longrightarrow> is_class c' p s \<Longrightarrow> c = c'"
  by (simp add: is_class_def)

text \<open>A call keeps the invariants of the other objects; the one of its own object is left to show.\<close>

lemma touches_objs_ok:
  assumes h: "healthy idle s" and ok: "objs_ok s" and t: "touches p (k_cur s) s s'"
    and own: "is_class Class_Semaphore p s \<Longrightarrow> sem_ok s'" "is_class Class_Mutex p s \<Longrightarrow> mutex_ok s'"
      "is_class Class_Event p s \<Longrightarrow> event_ok s'" "is_class Class_MailBox p s \<Longrightarrow> mb_ok s'"
      "is_class Class_MessageQueue p s \<Longrightarrow> mq_ok s'" "is_class Class_MemPool p s \<Longrightarrow> mp_ok s'"
  shows "objs_ok s'"
proof -
  note d = touchesD [OF t] and o = objs_okD [OF ok] and cl = touches_class [OF t]
  have "sem_ok s'" if "\<not> is_class Class_Semaphore p s"
    using that o(1) d(5,11) cl unfolding sem_ok_def by metis
  moreover have "mutex_ok s'" if np: "\<not> is_class Class_Mutex p s"
    unfolding mutex_ok_def
  proof (intro allI impI)
    fix c
    assume c: "is_class Class_Mutex c s'"
    then have "c \<noteq> p" "mutex_inv1 c s" using np o(2) cl by (auto simp: mutex_ok_def)
    then show "mutex_inv1 c s'"
      using d(6,11) [of c] by (intro mutex_inv1_frame [OF _ d(1)]) auto
  qed
  moreover have "event_ok s'" if np: "\<not> is_class Class_Event p s"
    unfolding event_ok_def
  proof (intro allI impI ballI)
    fix c u
    assume c: "is_class Class_Event c s'" and u: "u \<in> set (k_q s' (Susp c))"
    have cp: "c \<noteq> p" and cs: "is_class Class_Event c s" using c np cl by auto
    then have us: "u \<in> set (k_q s (Susp c))" using u d(11) by simp
    then have q: "t_tlist (k_thr s u) = Some (Susp c)" "stat_of (k_thr s u) = RT_THREAD_SUSPEND"
      using waiting_suspended(1,2) [OF healthyD(7) [OF h] waiting_simps(1) us] by auto
    have "u \<noteq> k_cur s" using q(2) healthyD(4) [OF h] by auto
    moreover have "u \<notin> set (k_q s (Susp p))" "u \<notin> set (k_q s (Sender p))"
      using q(1) cp waiting_suspended(2) [OF healthyD(7) [OF h], of "Susp p" u]
        waiting_suspended(2) [OF healthyD(7) [OF h], of "Sender p" u] by auto
    ultimately have "t_event_set (k_thr s' u) = t_event_set (k_thr s u)"
      "t_event_info (k_thr s' u) = t_event_info (k_thr s u)"
      using d(15) [of u] by simp_all
    then show "\<not> event_met (t_event_info (k_thr s' u)) (t_event_set (k_thr s' u)) (ev_set (k_event s' c))"
      using o(3) cs us d(7) [OF cp] by (simp add: event_ok_def)
  qed
  moreover have "mb_ok s'" if "\<not> is_class Class_MailBox p s"
    using that o(4) d(8) cl unfolding mb_ok_def by metis
  moreover have "mq_ok s'" if "\<not> is_class Class_MessageQueue p s"
    using that o(5) d(9) cl unfolding mq_ok_def by metis
  moreover have "mp_ok s'" if "\<not> is_class Class_MemPool p s"
    using that o(6) d(10) cl unfolding mp_ok_def by metis
  ultimately show ?thesis using own unfolding objs_ok_def by blast
qed

text \<open>A thread other than the idle thread is about to make a call; and how the call has left the
  system.\<close>

definition at_call :: "ptr \<Rightarrow> kstate \<Rightarrow> bool" where
  "at_call idle s \<longleftrightarrow> healthy idle s \<and> objs_ok s \<and> k_cur s \<noteq> idle \<and> k_irq s = 0"

definition settles :: "ptr \<Rightarrow> ptr \<Rightarrow> kstate \<Rightarrow> kstate \<Rightarrow> bool" where
  "settles idle p s s' \<longleftrightarrow> healthy idle s' \<and> objs_ok s' \<and> touches p (k_cur s) s s'"

lemma at_callD:
  assumes "at_call idle s"
  shows "healthy idle s" and "objs_ok s" and "k_cur s \<noteq> idle" and "k_irq s = 0" and "thread_context s"
  using assms healthyD(3) by (auto simp: at_call_def thread_context_def rt_thread_self_def)

lemma settlesD:
  assumes "settles idle p s s'"
  shows "healthy idle s'" and "objs_ok s'" and "touches p (k_cur s) s s'"
  using assms by (simp_all add: settles_def)

lemma settles_refl: "at_call idle s \<Longrightarrow> settles idle p s s"
  by (simp add: at_call_def settles_def)

text \<open>For an object of the class \<open>c\<close> the invariant of its class is enough.\<close>

lemma settlesI:
  assumes "at_call idle s" and "is_class c p s" and "healthy idle s'" and "touches p (k_cur s) s s'"
    and "c = Class_Semaphore \<Longrightarrow> sem_ok s'" and "c = Class_Mutex \<Longrightarrow> mutex_ok s'"
    and "c = Class_Event \<Longrightarrow> event_ok s'" and "c = Class_MailBox \<Longrightarrow> mb_ok s'"
    and "c = Class_MessageQueue \<Longrightarrow> mq_ok s'" and "c = Class_MemPool \<Longrightarrow> mp_ok s'"
  shows "settles idle p s s'"
  unfolding settles_def
  using assms(3,4) touches_objs_ok [OF at_callD(1,2) [OF assms(1)] assms(4)] assms(5-10)
    class_unique [OF assms(2)] by metis

lemma settles_error:
  assumes "at_call idle s" and "e \<in> {RT_EOK, - RT_ETIMEOUT, - RT_ERROR}"
  shows "settles idle p s (set_thr (k_cur s) (\<lambda>th. th\<lparr>t_error := e\<rparr>) s)"
proof -
  let ?s' = "set_thr (k_cur s) (\<lambda>th. th\<lparr>t_error := e\<rparr>) s"
  have "touches RT_NULL (k_cur s) s ?s'" and t: "touches p (k_cur s) s ?s'"
    using touches_error [OF assms(2)] by blast+
  then have "objs_ok ?s'"
    by (intro touches_objs_ok [OF at_callD(1,2) [OF assms(1)]]) (auto simp: is_class_def)
  then show ?thesis using t at_callD(1) [OF assms(1)] by (simp add: settles_def)
qed



section \<open>The calls\<close>

subsection \<open>Semaphores\<close>

lemma sem_take_call:
  assumes c: "at_call idle s" and p: "is_class Class_Semaphore p s"
      "ipc_flag p s \<in> {RT_IPC_FLAG_FIFO, RT_IPC_FLAG_PRIO}" and time: "time \<noteq> TICK_HALF"
  shows "\<exists>r s'. rt_sem_take p time s = Some (r, s') \<and> settles idle p s s' \<and> (r = Blocked \<longrightarrow> not_lost p (k_cur s) s')"
proof -
  note h = at_callD [OF c]
  obtain r s' where s': "rt_sem_take p time s = Some (r, s')" "healthy idle s'" "sem_ok s'"
    using sem_take_inv [OF h(1) objs_okD(1) [OF h(2)] h(3,4) p time] by blast
  consider "0 < sem_val s p" | "sem_val s p = 0" "time = 0" | "sem_val s p = 0" "time \<noteq> 0"
    using word_neq_0_conv [of "sem_val s p"] by blast
  then have "touches p (k_cur s) s s' \<and> (r = Blocked \<longrightarrow> not_lost p (k_cur s) s')"
  proof cases
    case 1
    then show ?thesis using s'(1) sem_take_available [OF p(1)] by auto
  next
    case 2
    then show ?thesis using s'(1) sem_take_timeout [OF p(1)] by auto
  next
    case 3
    then show ?thesis
      using s'(1) sem_take_waits [OF h(1,3,4) p(1) 3(1) p(2) 3(2) time] touches_waits_in [of idle "Susp p"] waits_not_lost [of idle "Susp p"]
      by fastforce
  qed
  then show ?thesis using s' settlesI [OF c p(1)] by auto
qed

lemma sem_release_call:
  assumes c: "at_call idle s" and p: "is_class Class_Semaphore p s"
  shows "\<exists>s'. rt_sem_release p s = Some (RT_EOK, s') \<and> settles idle p s s'"
proof -
  note h = at_callD [OF c]
  obtain s' where s': "rt_sem_release p s = Some (RT_EOK, s')" "healthy idle s'" "sem_ok s'"
    using sem_release_inv [OF h(1) objs_okD(1) [OF h(2)] p] by blast
  have "touches p (k_cur s) s s'"
  proof (cases "k_q s (Susp p)")
    case Nil
    then show ?thesis using s'(1) p by (auto simp: rt_sem_release_def)
  next
    case (Cons w ws)
    then obtain s1 where "rt_sem_release p s = Some (RT_EOK, s1)" "wakes_first idle (Susp p) w s s1"
      using sem_release_wakes [OF h(1) p] by blast
    then show ?thesis
      using s'(1) Cons touches_wakes [of idle "Susp p" s s' p] by (simp add: wakes_any_def)
  qed
  then show ?thesis using s' settlesI [OF c p] by auto
qed


subsection \<open>Events\<close>

lemma touches_asks: "touches p (k_cur s) s (asks want opt s)"
proof -
  have "rt_object_get_type x (asks want opt s) = rt_object_get_type x s" for x
    by (rule timer_flag_cong(4)) simp
  then show ?thesis by (intro touchesI) (auto simp: runs_def not_lost_def)
qed

lemma event_recv_call:
  assumes c: "at_call idle s" and p: "is_class Class_Event p s"
      "ipc_flag p s \<in> {RT_IPC_FLAG_FIFO, RT_IPC_FLAG_PRIO}"
    and e: "want \<noteq> 0" "opt AND 3 \<noteq> 0" and time: "timeout \<noteq> TICK_HALF"
  shows "\<exists>r v s'. rt_event_recv p want opt timeout s = Some (r, v, s') \<and> settles idle p s s' \<and> (r = Blocked \<longrightarrow> not_lost p (k_cur s) s')"
proof -
  note h = at_callD [OF c]
  obtain r v s' where s': "rt_event_recv p want opt timeout s = Some (r, v, s')" "healthy idle s'" "event_ok s'"
    using event_recv_inv [OF h(1) objs_okD(3) [OF h(2)] h(3,4) p e time] by blast
  let ?s1 = "set_thr (k_cur s) (\<lambda>th. th\<lparr>t_error := RT_EOK\<rparr>) s"
  have t1: "touches p (k_cur s) s ?s1" by (rule touches_error) simp
  consider "event_met opt want (ev_set (k_event s p))" | "\<not> event_met opt want (ev_set (k_event s p))" "timeout = 0"
    | "\<not> event_met opt want (ev_set (k_event s p))" "timeout \<noteq> 0" by blast
  then have "touches p (k_cur s) s s' \<and> (r = Blocked \<longrightarrow> not_lost p (k_cur s) s')"
  proof cases
    case 1
    then show ?thesis
      using s'(1) event_recv_now [OF h(5) p(1) e 1] t1 touches_trans [OF t1 touches_set(3)] by (auto split: if_splits)
  next
    case 2
    have "touches p (k_cur s) ?s1 (set_thr (k_cur s) (\<lambda>th. th\<lparr>t_error := - RT_ETIMEOUT\<rparr>) ?s1)"
      by (rule touches_error) simp
    then show ?thesis
      using s'(1) event_recv_timeout [OF h(5) p(1) e 2(1)] 2(2) touches_trans [OF t1] by auto
  next
    case 3
    then have "waits_in idle (Susp p) (ipc_flag p s) timeout (asks want opt s) s'"
      using s'(1) event_recv_waits [OF h(1,3,4) p e 3(1) 3(2) time] by auto
    from touches_waits_in [OF this, of p] waits_not_lost [OF this, of p]
    have "touches p (k_cur s) (asks want opt s) s'" "not_lost p (k_cur s) s'" by simp_all
    then show ?thesis using touches_trans [OF touches_asks] by blast
  qed
  then show ?thesis using s' settlesI [OF c p(1)] by auto
qed

lemma event_send_call:
  assumes c: "at_call idle s" and p: "is_class Class_Event p s"
  shows "\<exists>r s'. rt_event_send p evs s = Some (r, s') \<and> settles idle p s s'"
proof (cases "evs = 0")
  case True
  then show ?thesis using p settles_refl [OF c] by (simp add: rt_event_send_def)
next
  case False
  note h = at_callD [OF c]
  obtain served left where sc:
    "event_scan (k_thr s) (ev_set (k_event s p) OR evs) (k_q s (Susp p)) = (served, left)"
    by (cases "event_scan (k_thr s) (ev_set (k_event s p) OR evs) (k_q s (Susp p))")
  obtain s' where s': "rt_event_send p evs s = Some (RT_EOK, s')" "healthy idle s'" "serves p served s s'"
    "ev_set (k_event s' p) = left"
    using event_send_serves [OF h(1) p False sc] by blast
  note d = servesD [OF s'(3)] and f = event_frameD [OF servesD(1) [OF s'(3)]]
  have in_q: "u \<in> set (k_q s (Susp p))" if "u \<in> fst ` set served" for u
    using that event_scan_served [of u "k_thr s" _ "k_q s (Susp p)"] sc by (metis fst_conv)
  have "touches p (k_cur s) s s'"
  proof (rule touchesI, goal_cases)
    case (9 u)
    then have "u \<notin> fst ` set served" using in_q by blast
    moreover from this have "map_of served u = None" by (simp add: map_of_eq_None_iff)
    ultimately show ?case using d(5-7) [of u] f by simp
  next
    case (11 u)
    then show ?case using d(2-5) by (intro not_lost_mono [OF 11(2)]) auto
  qed (use d f in auto)
  moreover have "event_ok s'"
    by (rule serves_event_ok [OF healthyD(1) [OF h(1)] objs_okD(3) [OF h(2)] sc s'(3,4)])
  ultimately show ?thesis using s'(1,2) settlesI [OF c p] by auto
qed



subsection \<open>Mailboxes\<close>

text \<open>A send that returns \<open>RT_EOK\<close> has put its mail behind the others, a receive has taken the first one;
  otherwise the mails are as before.\<close>

lemma mb_send_loop_call:
  assumes c: "at_call idle s" and p: "is_class Class_MailBox p s"
      "ipc_flag p s \<in> {RT_IPC_FLAG_FIFO, RT_IPC_FLAG_PRIO}" and time: "timeout \<noteq> TICK_HALF"
  shows "\<exists>r s'. mb_send_loop p (k_cur s) v timeout s = Some (r, s') \<and> settles idle p s s' \<and> (r = Blocked \<longrightarrow> not_lost p (k_cur s) s') \<and>
     mb_data (k_mb s' p) = mb_data (k_mb s p) @ (if r = Returns RT_EOK then [v] else [])"
proof -
  note h = at_callD [OF c]
  have wf: "mb_wf (k_mb s p)" using objs_okD(4) [OF h(2)] p(1) by (simp add: mb_ok_def)
  consider "mb_entry (k_mb s p) \<noteq> mb_size (k_mb s p)"
    | "mb_entry (k_mb s p) = mb_size (k_mb s p)" "timeout = 0"
    | "mb_entry (k_mb s p) = mb_size (k_mb s p)" "timeout \<noteq> 0" by blast
  then show ?thesis
  proof cases
    case 1
    obtain m' s' where s': "mb_put p v s = Some (Returns RT_EOK, s')" "mb_wf m'"
      "mb_data m' = mb_data (k_mb s p) @ [v]" "wakes_any idle (Susp p) (set_mb p (\<lambda>_. m') s) s'"
      using mb_put_total [OF h(1) wf 1] by blast
    note w = wakes_anyD [OF s'(4)]
    have "touches p (k_cur s) s s'"
      by (rule touches_trans [OF touches_set(4) touches_wakes [OF s'(4)]]) simp
    then have "settles idle p s s'"
      using w(1) mb_ok_step [OF objs_okD(4) [OF h(2)] s'(2) w(2)] by (intro settlesI [OF c p(1)]) simp_all
    then show ?thesis
      using 1 s'(1,3) ipc_frameD(4) [OF w(2)] by (simp add: mb_send_loop.simps)
  next
    case 2
    then show ?thesis
      using healthyD(3) [OF h(1)] settles_error [OF c, of RT_EOK p] by (simp add: mb_send_loop.simps)
  next
    case 3
    obtain s' where s': "rt_mb_send_wait p v timeout s = Some (Blocked, s')"
      "waits_in idle (Sender p) (ipc_flag p s) timeout s s'"
      using mb_send_waits [OF h(1,3,4) p(1) 3(1) p(2) 3(2) time] by blast
    note w = waits_inD [OF s'(2)]
    have "settles idle p s s'"
      using w(1) mb_ok_frame [OF objs_okD(4) [OF h(2)] w(2)] touches_waits_in [OF s'(2)]
      by (intro settlesI [OF c p(1)]) simp_all
    then show ?thesis
      using waits_not_lost [OF s'(2), of p] 3 s'(1) p(1) ipc_frameD(4) [OF w(2)] by (simp add: rt_mb_send_wait_def rt_thread_self_def)
  qed
qed

lemma mb_send_call:
  assumes c: "at_call idle s" and p: "is_class Class_MailBox p s"
      "ipc_flag p s \<in> {RT_IPC_FLAG_FIFO, RT_IPC_FLAG_PRIO}" and time: "timeout \<noteq> TICK_HALF"
  shows "\<exists>r s'. rt_mb_send_wait p v timeout s = Some (r, s') \<and> settles idle p s s' \<and> (r = Blocked \<longrightarrow> not_lost p (k_cur s) s') \<and>
     mb_data (k_mb s' p) = mb_data (k_mb s p) @ (if r = Returns RT_EOK then [v] else [])"
  using mb_send_loop_call [OF assms, of v] p(1) settles_refl [OF c]
  by (simp add: rt_mb_send_wait_def rt_thread_self_def)

lemma mb_recv_loop_call:
  assumes c: "at_call idle s" and p: "is_class Class_MailBox p s"
      "ipc_flag p s \<in> {RT_IPC_FLAG_FIFO, RT_IPC_FLAG_PRIO}" and time: "timeout \<noteq> TICK_HALF"
  shows "\<exists>r v s'. mb_recv_loop p (k_cur s) timeout s = Some (r, v, s') \<and> settles idle p s s' \<and> (r = Blocked \<longrightarrow> not_lost p (k_cur s) s') \<and>
     mb_data (k_mb s p) = (case v of None \<Rightarrow> [] | Some x \<Rightarrow> [x]) @ mb_data (k_mb s' p)"
proof -
  note h = at_callD [OF c]
  have wf: "mb_wf (k_mb s p)" using objs_okD(4) [OF h(2)] p(1) by (simp add: mb_ok_def)
  consider "mb_entry (k_mb s p) \<noteq> 0" | "mb_entry (k_mb s p) = 0" "timeout = 0"
    | "mb_entry (k_mb s p) = 0" "timeout \<noteq> 0" by blast
  then show ?thesis
  proof cases
    case 1
    then obtain x xs where x: "mb_data (k_mb s p) = x # xs"
      using mb_data_Nil [of "k_mb s p"] by (cases "mb_data (k_mb s p)") auto
    obtain m' s' where s': "mb_get p s = Some (Returns RT_EOK, Some x, s')" "mb_wf m'"
      "mb_data m' = xs" "wakes_any idle (Sender p) (set_mb p (\<lambda>_. m') s) s'"
      using mb_get_total [OF h(1) wf x] by blast
    note w = wakes_anyD [OF s'(4)]
    have "touches p (k_cur s) s s'"
      by (rule touches_trans [OF touches_set(4) touches_wakes [OF s'(4)]]) simp
    then have "settles idle p s s'"
      using w(1) mb_ok_step [OF objs_okD(4) [OF h(2)] s'(2) w(2)] by (intro settlesI [OF c p(1)]) simp_all
    then show ?thesis
      using 1 x s'(1,3) ipc_frameD(4) [OF w(2)] by (simp add: mb_recv_loop.simps)
  next
    case 2
    let ?s1 = "set_thr (k_cur s) (\<lambda>th. th\<lparr>t_error := RT_EOK\<rparr>) s"
    have "set_thr (k_cur s) (\<lambda>th. th\<lparr>t_error := - RT_ETIMEOUT\<rparr>) ?s1 =
        set_thr (k_cur s) (\<lambda>th. th\<lparr>t_error := - RT_ETIMEOUT\<rparr>) s"
      by (simp add: set_thr_def)
    then show ?thesis
      using 2 healthyD(3) [OF h(1)] settles_error [OF c, of "- RT_ETIMEOUT" p] by (simp add: mb_recv_loop.simps)
  next
    case 3
    obtain s' where s': "rt_mb_recv p timeout s = Some (Blocked, None, s')"
      "waits_in idle (Susp p) (ipc_flag p s) timeout s s'"
      using mb_recv_waits [OF h(1,3,4) p(1) 3(1) p(2) 3(2) time] by blast
    note w = waits_inD [OF s'(2)]
    have "settles idle p s s'"
      using w(1) mb_ok_frame [OF objs_okD(4) [OF h(2)] w(2)] touches_waits_in [OF s'(2)]
      by (intro settlesI [OF c p(1)]) simp_all
    then show ?thesis
      using waits_not_lost [OF s'(2), of p] 3 s'(1) p(1) ipc_frameD(4) [OF w(2)] by (simp add: rt_mb_recv_def rt_thread_self_def)
  qed
qed

lemma mb_recv_call:
  assumes c: "at_call idle s" and p: "is_class Class_MailBox p s"
      "ipc_flag p s \<in> {RT_IPC_FLAG_FIFO, RT_IPC_FLAG_PRIO}" and time: "timeout \<noteq> TICK_HALF"
  shows "\<exists>r v s'. rt_mb_recv p timeout s = Some (r, v, s') \<and> settles idle p s s' \<and> (r = Blocked \<longrightarrow> not_lost p (k_cur s) s') \<and>
     mb_data (k_mb s p) = (case v of None \<Rightarrow> [] | Some x \<Rightarrow> [x]) @ mb_data (k_mb s' p)"
  using mb_recv_loop_call [OF assms] p(1) settles_refl [OF c]
  by (simp add: rt_mb_recv_def rt_thread_self_def)



subsection \<open>Message queues\<close>

lemma mq_settles_wakes:
  assumes c: "at_call idle s" and p: "is_class Class_MessageQueue p s" and wf: "mq_wf m'"
    and w: "wakes_any idle q (set_mq p (\<lambda>_. m') s) s'" "q \<in> {Susp p, Sender p}"
  shows "settles idle p s s'" and "k_mq s' p = m'"
proof -
  note d = wakes_anyD [OF w(1)]
  have "touches p (k_cur s) s s'"
    by (rule touches_trans [OF touches_set(5) touches_wakes [OF w]])
  then show "settles idle p s s'"
    using d(1) mq_ok_step [OF objs_okD(5) [OF at_callD(2) [OF c]] wf d(2)] by (intro settlesI [OF c p]) simp_all
  show "k_mq s' p = m'" using ipc_frameD(5) [OF d(2)] by simp
qed

lemma mq_settles_waits:
  assumes c: "at_call idle s" and p: "is_class Class_MessageQueue p s"
    and w: "waits_in idle q flag timeout s s'" "q \<in> {Susp p, Sender p}"
  shows "settles idle p s s'" and "k_mq s' p = k_mq s p"
  using waits_inD(1) [OF w(1)] mq_ok_frame [OF objs_okD(5) [OF at_callD(2) [OF c]] waits_inD(2) [OF w(1)]]
    touches_waits_in [OF w] ipc_frameD(5) [OF waits_inD(2) [OF w(1)]]
  by (auto intro!: settlesI [OF c p])

lemma mq_send_loop_call:
  assumes c: "at_call idle s" and p: "is_class Class_MessageQueue p s"
      "ipc_flag p s \<in> {RT_IPC_FLAG_FIFO, RT_IPC_FLAG_PRIO}"
    and sz: "sz \<noteq> 0" "sz \<le> ucast (mq_msg_size (k_mq s p))" "unat sz \<le> length buf"
    and time: "timeout \<noteq> TICK_HALF"
  shows "\<exists>r s'. mq_send_loop p (k_cur s) buf sz timeout s = Some (r, s') \<and> settles idle p s s' \<and> (r = Blocked \<longrightarrow> not_lost p (k_cur s) s') \<and>
     mq_msg_size (k_mq s' p) = mq_msg_size (k_mq s p)"
proof -
  note h = at_callD [OF c]
  have wf: "mq_wf (k_mq s p)" using objs_okD(5) [OF h(2)] p(1) by (simp add: mq_ok_def)
  consider b where "mq_free (k_mq s p) = Some b" | "mq_free (k_mq s p) = None" "timeout = 0"
    | "mq_free (k_mq s p) = None" "timeout \<noteq> 0" by blast
  then show ?thesis
  proof cases
    case 1
    obtain q f where r: "mq_rep (k_mq s p) q (b # f)" using mq_wf_free [OF wf 1] by blast
    obtain m' s' where s': "mq_put p b buf sz s = Some (Returns RT_EOK, s')" "mq_rep m' (q @ [b]) f"
      "mq_msg_size m' = mq_msg_size (k_mq s p)" "wakes_any idle (Susp p) (set_mq p (\<lambda>_. m') s) s'"
      using mq_put_total [OF h(1) r sz(2,3)] by blast
    then show ?thesis
      using 1 mq_settles_wakes [OF c p(1) mq_wfI [OF s'(2)] s'(4)] by (simp add: mq_send_loop.simps)
  next
    case 2
    then show ?thesis
      using healthyD(3) [OF h(1)] settles_error [OF c, of RT_EOK p] by (simp add: mq_send_loop.simps)
  next
    case 3
    obtain s' where s': "rt_mq_send_wait p buf sz timeout s = Some (Blocked, s')"
      "waits_in idle (Sender p) (ipc_flag p s) timeout s s'"
      using mq_send_waits [OF h(1,3,4) p(1) 3(1) p(2) sz(1,2) 3(2) time] by blast
    then show ?thesis
      using waits_not_lost [OF s'(2), of p] 3 p(1) sz(1,2) leD [OF sz(2)] mq_settles_waits [OF c p(1) s'(2)]
      by (simp add: rt_mq_send_wait_def rt_thread_self_def)
  qed
qed

lemma mq_send_call:
  assumes c: "at_call idle s" and p: "is_class Class_MessageQueue p s"
      "ipc_flag p s \<in> {RT_IPC_FLAG_FIFO, RT_IPC_FLAG_PRIO}"
    and sz: "sz \<noteq> 0" "unat sz \<le> length buf" and time: "timeout \<noteq> TICK_HALF"
  shows "\<exists>r s'. rt_mq_send_wait p buf sz timeout s = Some (r, s') \<and> settles idle p s s' \<and> (r = Blocked \<longrightarrow> not_lost p (k_cur s) s') \<and>
     mq_msg_size (k_mq s' p) = mq_msg_size (k_mq s p) \<and> (r = Blocked \<longrightarrow> sz \<le> ucast (mq_msg_size (k_mq s p)))"
  using mq_send_loop_call [OF c p sz(1) _ sz(2) time] p(1) sz(1) settles_refl [OF c]
  by (simp add: rt_mq_send_wait_def rt_thread_self_def not_less)

lemma mq_urgent_call:
  assumes c: "at_call idle s" and p: "is_class Class_MessageQueue p s"
    and sz: "sz \<noteq> 0" "unat sz \<le> length buf"
  shows "\<exists>r s'. rt_mq_urgent p buf sz s = Some (r, s') \<and> settles idle p s s' \<and>
     mq_msg_size (k_mq s' p) = mq_msg_size (k_mq s p) \<and> r \<noteq> Blocked"
proof (cases "sz \<le> ucast (mq_msg_size (k_mq s p)) \<and> mq_free (k_mq s p) \<noteq> None")
  case True
  note h = at_callD [OF c]
  obtain b where b: "mq_free (k_mq s p) = Some b" using True by blast
  have wf: "mq_wf (k_mq s p)" using objs_okD(5) [OF h(2)] p by (simp add: mq_ok_def)
  obtain q f where r: "mq_rep (k_mq s p) q (b # f)" using mq_wf_free [OF wf b] by blast
  have szn: "unat sz \<le> unat (mq_msg_size (k_mq s p))" using True by (simp add: word_le_nat_alt)
  obtain m' where m': "mq_enter_front b buf sz (k_mq s p) = Some m'" "mq_rep m' (b # q) f"
    "mq_msg_size m' = mq_msg_size (k_mq s p)"
    using mq_enter_front_rep [OF r szn sz(2)] by auto
  obtain s' where s': "mq_wake_receiver p (set_mq p (\<lambda>_. m') s) = Some (Returns RT_EOK, s')"
    "wakes_any idle (Susp p) (set_mq p (\<lambda>_. m') s) s'"
    using mq_wake_total [OF h(1)] by blast
  then show ?thesis
    using True p sz(1) b m' mq_settles_wakes [OF c p mq_wfI [OF m'(2)] s'(2)] leD [of sz]
    by (simp add: rt_mq_urgent_def)
next
  case False
  then show ?thesis using p sz(1) settles_refl [OF c] by (auto simp: rt_mq_urgent_def not_less)
qed

lemma mq_recv_loop_call:
  assumes c: "at_call idle s" and p: "is_class Class_MessageQueue p s"
      "ipc_flag p s \<in> {RT_IPC_FLAG_FIFO, RT_IPC_FLAG_PRIO}"
    and sz: "sz \<noteq> 0" and time: "timeout \<noteq> TICK_HALF"
  shows "\<exists>r v s'. mq_recv_loop p (k_cur s) sz timeout s = Some (r, v, s') \<and> settles idle p s s' \<and> (r = Blocked \<longrightarrow> not_lost p (k_cur s) s') \<and>
     mq_msg_size (k_mq s' p) = mq_msg_size (k_mq s p)"
proof -
  note h = at_callD [OF c]
  have wf: "mq_wf (k_mq s p)" using objs_okD(5) [OF h(2)] p(1) by (simp add: mq_ok_def)
  consider "mq_entry (k_mq s p) \<noteq> 0" | "mq_entry (k_mq s p) = 0" "timeout = 0"
    | "mq_entry (k_mq s p) = 0" "timeout \<noteq> 0" by blast
  then show ?thesis
  proof cases
    case 1
    obtain b q f where r: "mq_rep (k_mq s p) (b # q) f" using mq_wf_entry [OF wf 1] by blast
    obtain m' v s' where s': "mq_get p sz s = Some (Returns RT_EOK, Some v, s')" "mq_rep m' q (b # f)"
      "mq_msg_size m' = mq_msg_size (k_mq s p)" "wakes_any idle (Sender p) (set_mq p (\<lambda>_. m') s) s'"
      using mq_get_total [OF h(1) r] by blast
    then show ?thesis
      using 1 mq_settles_wakes [OF c p(1) mq_wfI [OF s'(2)] s'(4)] by (simp add: mq_recv_loop.simps)
  next
    case 2
    let ?s1 = "set_thr (k_cur s) (\<lambda>th. th\<lparr>t_error := RT_EOK\<rparr>) s"
    have "set_thr (k_cur s) (\<lambda>th. th\<lparr>t_error := - RT_ETIMEOUT\<rparr>) ?s1 =
        set_thr (k_cur s) (\<lambda>th. th\<lparr>t_error := - RT_ETIMEOUT\<rparr>) s"
      by (simp add: set_thr_def)
    then show ?thesis
      using 2 h(5) settles_error [OF c, of "- RT_ETIMEOUT" p] by (simp add: mq_recv_loop.simps)
  next
    case 3
    obtain s' where s': "rt_mq_recv p sz timeout s = Some (Blocked, None, s')"
      "waits_in idle (Susp p) (ipc_flag p s) timeout s s'"
      using mq_recv_waits [OF h(1,3,4) p(1) 3(1) p(2) sz 3(2) time] by blast
    then show ?thesis
      using waits_not_lost [OF s'(2), of p] 3 p(1) sz mq_settles_waits [OF c p(1) s'(2)] by (simp add: rt_mq_recv_def rt_thread_self_def)
  qed
qed

lemma mq_recv_call:
  assumes c: "at_call idle s" and p: "is_class Class_MessageQueue p s"
      "ipc_flag p s \<in> {RT_IPC_FLAG_FIFO, RT_IPC_FLAG_PRIO}"
    and sz: "sz \<noteq> 0" and time: "timeout \<noteq> TICK_HALF"
  shows "\<exists>r v s'. rt_mq_recv p sz timeout s = Some (r, v, s') \<and> settles idle p s s' \<and> (r = Blocked \<longrightarrow> not_lost p (k_cur s) s') \<and>
     mq_msg_size (k_mq s' p) = mq_msg_size (k_mq s p)"
  using mq_recv_loop_call [OF assms] p(1) sz settles_refl [OF c]
  by (simp add: rt_mq_recv_def rt_thread_self_def)



subsection \<open>Memory pools\<close>

text \<open>A block that is handed out was not in use, and is in use from then on.\<close>

lemma mp_alloc_loop_call:
  assumes c: "at_call idle s" and p: "is_class Class_MemPool p s" and time: "time \<noteq> TICK_HALF"
  shows "\<exists>r s'. mp_alloc_loop p (k_cur s) time s = Some (r, s') \<and> settles idle p s s' \<and> (r = MpWaits \<longrightarrow> not_lost p (k_cur s) s') \<and>
     (case r of
        MpReturns (Some b) \<Rightarrow> b \<notin> mp_held (k_mp s p) \<and> mp_held (k_mp s' p) = insert b (mp_held (k_mp s p))
      | _ \<Rightarrow> mp_held (k_mp s' p) = mp_held (k_mp s p))"
proof -
  note h = at_callD [OF c]
  have wf: "mp_wf p (k_mp s p)" and p0: "p \<noteq> RT_NULL"
    using objs_okD(6) [OF h(2)] p by (simp_all add: mp_ok_def is_class_def)
  consider "mp_block_free_count (k_mp s p) \<noteq> 0" | "mp_block_free_count (k_mp s p) = 0" "time = 0"
    | "mp_block_free_count (k_mp s p) = 0" "time \<noteq> 0" by blast
  then show ?thesis
  proof cases
    case 1
    obtain b f where r: "mp_rep p (k_mp s p) (b # f)" using mp_wf_free [OF wf 1] by blast
    obtain m' where m': "mp_alloc_loop p (k_cur s) time s = Some (MpReturns (Some b), set_mp p (\<lambda>_. m') s)"
      "mp_rep p m' f" "mp_held m' = insert b (mp_held (k_mp s p))" "b \<notin> mp_held (k_mp s p)"
      using mp_alloc_now [OF p0 r] by blast
    let ?n = "set_mp p (\<lambda>_. m') s"
    have "mp_ok ?n" using mp_ok_step [OF objs_okD(6) [OF h(2)] _ ipc_frame_refl] mp_wfI [OF m'(2)] by simp
    then have "settles idle p s ?n"
      using h(1) data_step_healthy [OF data_step_mp] by (intro settlesI [OF c p]) simp_all
    then show ?thesis using m' by simp
  next
    case 2
    then show ?thesis
      using h(4) healthyD(3) [OF h(1)] settles_error [OF c, of "- RT_ETIMEOUT" p]
      by (simp add: mp_alloc_loop.simps rt_set_errno_def rt_thread_self_def)
  next
    case 3
    obtain s' where s': "rt_mp_alloc p time s = Some (MpWaits, s')"
      "waits_at idle (Susp p) (k_cur s # k_q s (Susp p)) time s s'"
      using mp_alloc_waits [OF h(1,3,4) p0 3(1) 3(2) time] by blast
    note w = waits_atD [OF s'(2)]
    have "touches p (k_cur s) s s'" by (rule touches_waits [OF s'(2)]) simp_all
    then have "settles idle p s s'"
      using w(1) mp_ok_frame [OF objs_okD(6) [OF h(2)] w(2)] by (intro settlesI [OF c p]) simp_all
    then show ?thesis
      using s'(1) p0 ipc_frameD(6) [OF w(2)] w(7) by (simp add: rt_mp_alloc_def rt_thread_self_def not_lost_def)
  qed
qed

lemma mp_free_call:
  assumes c: "at_call idle s" and p: "is_class Class_MemPool p s" and b: "b \<in> mp_held (k_mp s p)"
  shows "\<exists>s'. rt_mp_free (Some (p, b)) s = Some s' \<and> settles idle p s s' \<and>
     mp_held (k_mp s' p) = mp_held (k_mp s p) - {b}"
proof -
  note h = at_callD [OF c]
  have wf: "mp_wf p (k_mp s p)" using objs_okD(6) [OF h(2)] p by (simp add: mp_ok_def)
  obtain f where f: "mp_rep p (k_mp s p) f" using wf by (auto simp: mp_wf_def)
  note g = mp_give_rep [OF f, of b]
  have own: "b < length (mp_blocks (k_mp s p))" "mp_blocks (k_mp s p) ! b = OwnedBy p"
    using mp_held_owned [OF wf] b by auto
  obtain s' where s': "rt_mp_free (Some (p, b)) s = Some s'" "healthy idle s'"
    "k_mp s' = (k_mp s)(p := mp_give b (k_mp s p))" "k_q s' (Susp p) = tl (k_q s (Susp p))"
    "\<forall>q. waiting q \<longrightarrow> q \<noteq> Susp p \<longrightarrow> k_q s' q = k_q s q"
    "\<forall>u. runs u s' \<longleftrightarrow> runs u s \<or> k_q s (Susp p) \<noteq> [] \<and> u = hd (k_q s (Susp p))"
    "ipc_frame (set_mp p (mp_give b) s) s'"
    "\<forall>u. u \<notin> set (k_q s (Susp p)) \<longrightarrow> t_error (k_thr s' u) = t_error (k_thr s u)"
    "\<forall>u. t_error (k_thr s' u) \<in> {t_error (k_thr s u), RT_EOK}"
    using mp_free_gives [OF h(1) wf b] by (elim exE conjE)
  note f' = ipc_frameD [OF s'(7)] and ty = data_step_get_type [OF data_step_mp, of _ p "mp_give b" s]
  have "touches p (k_cur s) s s'"
  proof (rule touchesI, goal_cases)
    case 7
    then show ?case using s'(4) list.set_sel(2) [of "k_q s (Susp p)"] by (cases "k_q s (Susp p)") auto
  next
    case (9 u)
    then show ?case using s'(6,8) f' by (cases "k_q s (Susp p)") auto
  next
    case (11 u)
    then show ?case using s'(4-6) by (intro not_lost_mono [OF 11(2)]; cases "k_q s (Susp p)") auto
  qed (use s'(5,9) f' ty in auto)
  moreover have "mp_ok s'"
    using mp_ok_step [OF objs_okD(6) [OF h(2)] _ s'(7)] s'(3) mp_wfI [OF g(1) [OF own]] by simp
  ultimately have "settles idle p s s'"
    using s'(2) by (intro settlesI [OF c p]) simp_all
  then show ?thesis using s'(1,3) g(2) [OF own] by simp
qed


subsection \<open>Sleeping and yielding\<close>

lemma settles_none:
  assumes "at_call idle s" and "healthy idle s'" and "touches RT_NULL (k_cur s) s s'"
  shows "settles idle RT_NULL s s'"
  unfolding settles_def
  using assms touches_objs_ok [OF at_callD(1,2) [OF assms(1)] assms(3)] by (simp add: is_class_def)

lemma sleep_call:
  assumes c: "at_call idle s" and tick: "tick < TICK_HALF"
  shows "\<exists>s'. rt_thread_sleep tick s = Some (Blocked, s') \<and> settles idle RT_NULL s s'"
proof -
  note h = at_callD [OF c] and i = healthyD [OF at_callD(1) [OF c]]
  let ?t = "k_cur s" and ?s1 = "suspended (k_cur s) s" and ?s2 = "timed (k_cur s) tick (suspended (k_cur s) s)"
  have sus: "rt_thread_suspend ?t s = Some (RT_EOK, ?s1)" "sys_inv 0 ?s1"
    using suspended_inv [OF i(1)] i(4) by auto
  have tm: "sleep_timer ?t tick ?s1 = Some ?s2" "sys_inv 0 ?s2"
    using timed_inv [OF sus(2) _ _ _ tick, of ?t] by simp_all
  have r2: "runs u ?s2 = runs u s" if "u \<noteq> ?t" for u
    using that by (simp add: runs_def)
  have "runs idle ?s2" "k_lock ?s2 = 0" "k_cur ?s2 \<noteq> RT_NULL" using i(2,3,5) h(3) r2 [of idle] by auto
  then obtain s' where s': "rt_schedule ?s2 = Some s'" "healthy idle s'" "sched_frame ?s2 s'"
    "\<forall>u. runs u s' = runs u ?s2" "\<forall>u. \<not> runs u ?s2 \<longrightarrow> stat_of (k_thr s' u) = stat_of (k_thr ?s2 u)"
    using schedule_healthy [OF tm(2)] by blast
  have fr: "ipc_frame s s'"
    by (rule ipc_frame_trans [OF ipc_frame_trans [OF ipc_frame_steps(2,3)] ipc_frame_sched [OF s'(3)]])
  note f = ipc_frameD [OF fr]
  have q: "k_q s' q = k_q s q" if "waiting q" for q
    using that sched_frameD(12,13) [OF s'(3)] suspended_own [OF h(1)] by (auto simp: waiting_def)
  have e: "t_error (k_thr s' u) = t_error (k_thr s u)" for u
    using sched_frameD(15) [OF s'(3), of u] by simp
  have "touches RT_NULL ?t s s'"
    by (rule touchesI) (use f q e r2 s'(4) in \<open>auto simp: not_lost_def\<close>)
  moreover have "stat_of (k_thr s' ?t) = RT_THREAD_SUSPEND"
    using s'(5) by (simp add: runs_def)
  then have "k_cur s' \<noteq> ?t" using healthyD(4) [OF s'(2)] by auto
  moreover have "is_thread ?t s" using live_is_thread [OF i(1)] i(4) by simp
  ultimately show ?thesis
    using sus(1) tm(1) s'(1) settles_none [OF c s'(2)]
    by (simp add: rt_thread_sleep_def rt_thread_self_def)
qed

lemma yield_call:
  assumes c: "at_call idle s"
  shows "\<exists>s'. rt_thread_yield s = Some (RT_EOK, s') \<and> settles idle RT_NULL s s'"
proof -
  note h = at_callD [OF c] and i = healthyD [OF at_callD(1) [OF c]]
  obtain s' where s': "rt_schedule s = Some s'" "healthy idle s'" "sched_frame s s'" "\<forall>u. runs u s' = runs u s"
    using schedule_healthy [OF i(1,2,3,5)] by blast
  note f = ipc_frameD [OF ipc_frame_sched [OF s'(3)]]
  have q: "k_q s' q = k_q s q" if "waiting q" for q
    using that sched_frameD(12,13) [OF s'(3)] by (auto simp: waiting_def)
  have "touches RT_NULL (k_cur s) s s'"
    by (rule touchesI) (use f q s'(4) sched_frameD(15) [OF s'(3)] in \<open>auto simp: not_lost_def\<close>)
  then show ?thesis using s'(1) settles_none [OF c s'(2)] by (simp add: rt_thread_yield_def)
qed



subsection \<open>Mutexes\<close>

text \<open>How a call of \<open>rt_mutex_take\<close> ends: with the caller as the owner, the mutex as it was, or the caller
  among the threads that wait.\<close>

definition mutex_took :: "ptr \<Rightarrow> outcome \<Rightarrow> kstate \<Rightarrow> kstate \<Rightarrow> bool" where
  "mutex_took p r s s' \<longleftrightarrow>
     (\<forall>u. u \<noteq> k_cur s \<longrightarrow> runs u s' = runs u s \<and> t_error (k_thr s' u) = t_error (k_thr s u)) \<and>
     (case r of
        Returns e \<Rightarrow> k_q s' (Susp p) = k_q s (Susp p) \<and> runs (k_cur s) s' \<and>
          (if e = RT_EOK
           then mtx_owner (k_mutex s p) \<in> {RT_NULL, k_cur s} \<and> mtx_owner (k_mutex s' p) = k_cur s \<and>
                unat (mtx_hold (k_mutex s' p)) = unat (mtx_hold (k_mutex s p)) + 1
           else k_mutex s' p = k_mutex s p)
      | Blocked \<Rightarrow> k_mutex s' p = k_mutex s p \<and> mtx_owner (k_mutex s p) \<noteq> k_cur s \<and>
          set (k_q s' (Susp p)) = insert (k_cur s) (set (k_q s (Susp p))) \<and> \<not> runs (k_cur s) s' \<and>
          t_error (k_thr s' (k_cur s)) = RT_EOK)"

lemma touches_obj_frame:
  assumes "obj_frame s s'" and "\<And>q. waiting q \<Longrightarrow> q \<noteq> Susp p \<Longrightarrow> k_q s' q = k_q s q"
    and "set (k_q s' (Susp p)) \<subseteq> insert t (set (k_q s (Susp p)))"
    and "\<And>u. u \<noteq> t \<Longrightarrow> u \<notin> set (k_q s (Susp p)) \<Longrightarrow>
      runs u s' = runs u s \<and> t_error (k_thr s' u) = t_error (k_thr s u)"
    and "\<And>u. t_error (k_thr s' u) \<in> {t_error (k_thr s u), RT_EOK, - RT_ETIMEOUT, - RT_ERROR}"
    and "\<And>u. u \<noteq> t \<Longrightarrow> not_lost p u s \<Longrightarrow> not_lost p u s'"
  shows "touches p t s s'"
  by (rule touchesI) (use assms obj_frameD [OF assms(1)] in auto)

lemma mutex_take_call:
  assumes c: "at_call idle s" and p: "is_class Class_Mutex p s"
      "ipc_flag p s \<in> {RT_IPC_FLAG_FIFO, RT_IPC_FLAG_PRIO}"
    and time: "time \<noteq> TICK_HALF" and hold: "mtx_hold (k_mutex s p) \<noteq> 255"
  shows "\<exists>r s'. rt_mutex_take p time s = Some (r, s') \<and> settles idle p s s' \<and> (r = Blocked \<longrightarrow> not_lost p (k_cur s) s') \<and> mutex_took p r s s'"
proof -
  note h = at_callD [OF c] and i = healthyD [OF at_callD(1) [OF c]]
  let ?s1 = "set_thr (k_cur s) (\<lambda>th. th\<lparr>t_error := RT_EOK\<rparr>) s"
  have m: "mutex_inv1 p s" using objs_okD(2) [OF h(2)] p(1) by (simp add: mutex_ok_def)
  obtain r s' where s': "rt_mutex_take p time s = Some (r, s')" "healthy idle s'" "mutex_ok s'"
    using mutex_take_inv [OF h(1) objs_okD(2) [OF h(2)] h(3,4) p time hold] by blast
  have t1: "touches p (k_cur s) s ?s1" by (rule touches_error) simp
  have run: "runs (k_cur s) s" using i(4) by (simp add: runs_def)
  have "(255 :: u8) = - 1" by simp
  then have "mtx_hold (k_mutex s p) < - 1"
    using hold word_order.not_eq_extremum [of "mtx_hold (k_mutex s p)"] by metis
  then have h1: "unat (mtx_hold (k_mutex s p) + 1) = unat (mtx_hold (k_mutex s p)) + 1" by (rule unat_add_one)
  have "touches p (k_cur s) s s' \<and> mutex_took p r s s'"
  proof (cases "mtx_owner (k_mutex s p) = k_cur s \<or> mtx_value (k_mutex s p) \<noteq> 0 \<or> time = 0")
    case False
    obtain s1 where s1: "rt_mutex_take p time s = Some (Blocked, s1)" "obj_frame s s1"
      "stat_of (k_thr s1 (k_cur s)) = RT_THREAD_SUSPEND" "t_error (k_thr s1 (k_cur s)) = RT_EOK"
      "k_q s1 (Susp p) = wait_insert (ipc_flag p s) (prio_of s) (k_cur s) (k_q s (Susp p))"
      "\<forall>q. waiting q \<longrightarrow> q \<noteq> Susp p \<longrightarrow> k_q s1 q = k_q s q"
      "\<forall>u. u \<noteq> k_cur s \<longrightarrow> runs u s1 = runs u s \<and> t_error (k_thr s1 u) = t_error (k_thr s u)"
      using mutex_take_waits [OF h(1) objs_okD(2) [OF h(2)] h(3,4) p(1) _ refl _ p(2) _ time] False by blast
    have "touches p (k_cur s) s s1"
    proof (rule touches_obj_frame [OF s1(2)], goal_cases)
      case (4 u)
      then show ?case using s1(4,7) by (cases "u = k_cur s") auto
    qed (use s1(5-7) in \<open>auto simp: not_lost_def\<close>)
    then show ?thesis
      using s'(1) s1 False obj_frameD(2) [OF s1(2)] by (simp add: mutex_took_def runs_def)
  next
    case True
    then consider "mtx_owner (k_mutex s p) = k_cur s"
      | "mtx_owner (k_mutex s p) \<noteq> k_cur s" "mtx_value (k_mutex s p) \<noteq> 0"
      | "mtx_owner (k_mutex s p) \<noteq> k_cur s" "mtx_value (k_mutex s p) = 0" "time = 0" by blast
    then show ?thesis
    proof cases
      case 1
      then have "r = Returns RT_EOK" "s' = set_mutex p (\<lambda>m. m\<lparr>mtx_hold := mtx_hold m + 1\<rparr>) ?s1"
        using s'(1) mutex_take_recursive [OF h(5) p(1) 1] by simp_all
      then show ?thesis
        using 1 h1 run touches_trans [OF t1 touches_set(2)] by (auto simp: mutex_took_def runs_def)
    next
      case 2
      then have "r = Returns RT_EOK" "s' = mutex_grab p (k_cur s) ?s1"
        using s'(1) mutex_take_free [OF h(5) p(1) m 2(2) i(3)] by simp_all
      moreover have "mtx_owner (k_mutex s p) = RT_NULL" using m 2(2) by (simp add: mutex_inv1_def Let_def split: if_splits)
      ultimately show ?thesis
        using h1 run touches_trans [OF t1 touches_set(2)] by (auto simp: mutex_took_def mutex_grab_def runs_def)
    next
      case 3
      let ?s2 = "set_thr (k_cur s) (\<lambda>th. th\<lparr>t_error := - RT_ETIMEOUT\<rparr>) ?s1"
      have "r = Returns (- RT_ETIMEOUT)" "s' = ?s2"
        using s'(1) mutex_take_timeout [OF h(5) p(1) 3(2,1)] 3(3) by simp_all
      moreover have "touches p (k_cur s) ?s1 ?s2" by (rule touches_error) simp
      ultimately show ?thesis
        using run touches_trans [OF t1] by (auto simp: mutex_took_def runs_def)
    qed
  qed
  then show ?thesis using s' settlesI [OF c p(1)] by (auto simp: mutex_took_def not_lost_def)
qed


text \<open>How a call of \<open>rt_mutex_release\<close> ends: refused, one level less, free, or in the hands of the first
  thread that waits.\<close>

definition mutex_gave :: "ptr \<Rightarrow> rt_err \<Rightarrow> kstate \<Rightarrow> kstate \<Rightarrow> bool" where
  "mutex_gave p e s s' \<longleftrightarrow>
     (if e = RT_EOK
      then mtx_owner (k_mutex s p) = k_cur s \<and> (\<forall>u. t_error (k_thr s' u) = t_error (k_thr s u)) \<and>
        (if mtx_hold (k_mutex s p) = 1
         then k_q s' (Susp p) = tl (k_q s (Susp p)) \<and>
           (\<forall>u. runs u s' \<longleftrightarrow> runs u s \<or> k_q s (Susp p) \<noteq> [] \<and> u = hd (k_q s (Susp p))) \<and>
           mtx_owner (k_mutex s' p) = (if k_q s (Susp p) = [] then RT_NULL else hd (k_q s (Susp p))) \<and>
           mtx_hold (k_mutex s' p) = (if k_q s (Susp p) = [] then 0 else 1)
         else k_q s' (Susp p) = k_q s (Susp p) \<and> (\<forall>u. runs u s' = runs u s) \<and>
           mtx_owner (k_mutex s' p) = k_cur s \<and>
           unat (mtx_hold (k_mutex s p)) = unat (mtx_hold (k_mutex s' p)) + 1)
      else k_mutex s' p = k_mutex s p \<and> k_q s' (Susp p) = k_q s (Susp p) \<and> (\<forall>u. runs u s' = runs u s) \<and>
        (\<forall>u. u \<noteq> k_cur s \<longrightarrow> t_error (k_thr s' u) = t_error (k_thr s u)))"

lemma touches_mutex_frame:
  assumes "obj_frame (s\<lparr>k_mutex := k_mutex s'\<rparr>) s'" and "\<And>c. c \<noteq> p \<Longrightarrow> k_mutex s' c = k_mutex s c"
    and "\<And>q. waiting q \<Longrightarrow> q \<noteq> Susp p \<Longrightarrow> k_q s' q = k_q s q"
    and "set (k_q s' (Susp p)) \<subseteq> set (k_q s (Susp p))"
    and "\<And>u. u \<notin> set (k_q s (Susp p)) \<Longrightarrow> runs u s' = runs u s" and "\<And>u. t_error (k_thr s' u) = t_error (k_thr s u)"
    and "\<And>u. u \<noteq> t \<Longrightarrow> not_lost p u s \<Longrightarrow> not_lost p u s'"
  shows "touches p t s s'"
proof -
  have "rt_object_get_type x (s\<lparr>k_mutex := k_mutex s'\<rparr>) = rt_object_get_type x s" for x
    by (simp add: rt_object_get_type_def)
  then show ?thesis
    using assms obj_frameD [OF assms(1)] by (intro touchesI) auto
qed

lemma mutex_release_call:
  assumes c: "at_call idle s" and p: "is_class Class_Mutex p s"
  shows "\<exists>e s'. rt_mutex_release p s = Some (e, s') \<and> settles idle p s s' \<and> mutex_gave p e s s'"
proof -
  note h = at_callD [OF c] and i = healthyD [OF at_callD(1) [OF c]]
  have m: "mutex_inv1 p s" using objs_okD(2) [OF h(2)] p by (simp add: mutex_ok_def)
  consider "mtx_owner (k_mutex s p) \<noteq> k_cur s"
    | "mtx_owner (k_mutex s p) = k_cur s" "mtx_hold (k_mutex s p) \<noteq> 1"
    | "mtx_owner (k_mutex s p) = k_cur s" "mtx_hold (k_mutex s p) = 1" "k_q s (Susp p) = []"
    | w ws where "mtx_owner (k_mutex s p) = k_cur s" "mtx_hold (k_mutex s p) = 1" "k_q s (Susp p) = w # ws"
    by (cases "k_q s (Susp p)") auto
  then show ?thesis
  proof cases
    case 1
    let ?s' = "set_thr (k_cur s) (\<lambda>th. th\<lparr>t_error := - RT_ERROR\<rparr>) s"
    have "rt_mutex_release p s = Some (- RT_ERROR, ?s')"
      using 1 p h(5) by (simp add: rt_mutex_release_def rt_thread_self_def)
    moreover have "settles idle p s ?s'" by (rule settles_error [OF c]) simp
    ultimately show ?thesis by (simp add: mutex_gave_def runs_def)
  next
    case 2
    let ?s' = "set_mutex p (\<lambda>m. m\<lparr>mtx_hold := mtx_hold m - 1\<rparr>) s"
    have v: "mtx_value (k_mutex s p) = 0" "0 < mtx_hold (k_mutex s p)"
      using m 2(1) i(3) by (auto simp: mutex_inv1_def Let_def split: if_splits)
    have "unat (mtx_hold (k_mutex s p)) \<noteq> unat (1 :: u8)" using 2(2) unfolding word_unat_eq_iff .
    then have n: "1 < unat (mtx_hold (k_mutex s p))" using v(2) by (simp add: word_less_nat_alt)
    have "mtx_hold (k_mutex s p) \<noteq> 0" using v(2) by auto
    then have "unat (mtx_hold (k_mutex s p) - 1) = unat (mtx_hold (k_mutex s p)) - 1" by (rule unat_minus_one)
    with n have u: "unat (mtx_hold (k_mutex s p)) = unat (mtx_hold (k_mutex s p) - 1) + 1"
      and u2: "0 < mtx_hold (k_mutex s p) - 1" by (simp_all add: word_less_nat_alt)
    from u2 have rel: "rt_mutex_release p s = Some (RT_EOK, ?s')"
      using 2 p h(5) by (simp add: rt_mutex_release_def rt_thread_self_def)
    have ty: "rt_object_get_type x ?s' = rt_object_get_type x s" for x
      by (rule data_step_get_type [OF data_step_mutex(1)])
    have "mutex_inv1 p ?s'"
      using m v u2 is_thread_frame [OF ty] by (simp add: mutex_inv1_def Let_def)
    then have "mutex_ok ?s'"
      by (intro mutex_okI [OF ty objs_okD(2) [OF h(2)], of p]) auto
    moreover have "healthy idle ?s'" using h(1) data_step_healthy [OF data_step_mutex(1)] by blast
    ultimately have "settles idle p s ?s'" by (intro settlesI [OF c p]) simp_all
    then show ?thesis using rel 2 u by (simp add: mutex_gave_def runs_def)
  next
    case 3
    from mutex_release_frees [OF h(1) objs_okD(2) [OF h(2)] h(4) p 3]
    obtain s' where s': "rt_mutex_release p s = Some (RT_EOK, s')" "healthy idle s'" "mutex_ok s'"
      "k_mutex s' = (k_mutex s)(p := mutex_fresh)" "\<forall>q. waiting q \<longrightarrow> k_q s' q = k_q s q"
      "\<forall>u. runs u s' = runs u s" "\<forall>u. t_error (k_thr s' u) = t_error (k_thr s u)"
      "obj_frame (s\<lparr>k_mutex := k_mutex s'\<rparr>) s'"
      by (elim exE conjE)
    have "touches p (k_cur s) s s'"
      by (rule touches_mutex_frame [OF s'(8)]) (use s'(4-7) in \<open>auto simp: not_lost_def\<close>)
    then have "settles idle p s s'" using s'(2,3) by (intro settlesI [OF c p]) simp_all
    then show ?thesis using s' 3 by (simp add: mutex_gave_def)
  next
    case 4
    from mutex_release_hands_over [OF h(1) objs_okD(2) [OF h(2)] h(4) p 4]
    obtain s' where s': "rt_mutex_release p s = Some (RT_EOK, s')" "healthy idle s'" "mutex_ok s'"
      "k_mutex s' = (k_mutex s)(p := \<lparr>mtx_value = 0, mtx_original_priority = prio_of s w, mtx_hold = 1, mtx_owner = w\<rparr>)"
      "k_q s' (Susp p) = ws" "\<forall>q. waiting q \<longrightarrow> q \<noteq> Susp p \<longrightarrow> k_q s' q = k_q s q"
      "runs w s'" "\<forall>u. u \<noteq> w \<longrightarrow> runs u s' = runs u s" "\<forall>u. t_error (k_thr s' u) = t_error (k_thr s u)"
      "obj_frame (s\<lparr>k_mutex := k_mutex s'\<rparr>) s'"
      by (elim exE conjE)
    have r: "runs u s' = runs u s" if "u \<notin> set (k_q s (Susp p))" for u
      using that 4(3) s'(8) by auto
    have nl: "not_lost p u s'" if "not_lost p u s" for u
      using s'(5-8) 4(3) by (intro not_lost_mono [OF that]; cases "u = w") auto
    have "touches p (k_cur s) s s'"
      by (rule touches_mutex_frame [OF s'(10) _ _ _ r _ nl]) (use s'(4-6,9) 4(3) in auto)
    then have "settles idle p s s'" using s'(2,3) by (intro settlesI [OF c p]) simp_all
    moreover have "runs u s' \<longleftrightarrow> runs u s \<or> u = w" for u using s'(7,8) by (cases "u = w") auto
    ultimately show ?thesis using s'(1,4,5,9) 4 by (simp add: mutex_gave_def)
  qed
qed

end
