(* ===== verification/RTT_Steps.thy ===== *)
theory RTT_Steps
  imports RTT_Calls
begin

text \<open>
  Two views of the kernel that the composed system of \<open>RTT_System\<close> rests on: what the clock interrupt does to
  threads that wait in the middle of a call, and what the threads know of a mutex from the return
  values of their calls, kept by every kind of step.
\<close>

section \<open>The clock interrupt\<close>

text \<open>What a tick does to the threads: some that waited with a time limit have left their lists, can run,
  and find the timeout error; nothing else has changed.\<close>

definition expires :: "kstate \<Rightarrow> kstate \<Rightarrow> bool" where
  "expires s s' \<longleftrightarrow>
     ipc_frame s s' \<and>
     (\<forall>q. waiting q \<longrightarrow> set (k_q s' q) \<subseteq> set (k_q s q)) \<and>
     (\<forall>q u. waiting q \<longrightarrow> u \<in> set (k_q s q) \<longrightarrow> u \<notin> set (k_q s' q) \<longrightarrow> runs u s') \<and>
     (\<forall>u. runs u s \<longrightarrow> runs u s') \<and>
     (\<forall>u. t_error (k_thr s' u) = (if runs u s' \<and> \<not> runs u s then - RT_ETIMEOUT else t_error (k_thr s u)))"

lemma expiresD:
  assumes "expires s s'"
  shows "ipc_frame s s'" and "waiting q \<Longrightarrow> set (k_q s' q) \<subseteq> set (k_q s q)"
    and "waiting q \<Longrightarrow> u \<in> set (k_q s q) \<Longrightarrow> u \<notin> set (k_q s' q) \<Longrightarrow> runs u s'"
    and "runs u s \<Longrightarrow> runs u s'"
    and "t_error (k_thr s' u) = (if runs u s' \<and> \<not> runs u s then - RT_ETIMEOUT else t_error (k_thr s u))"
  using assms unfolding expires_def by blast+

lemma expires_refl [simp]: "expires s s"
  by (simp add: expires_def)

lemma expires_trans:
  assumes "expires s s1" and "expires s1 s2"
  shows "expires s s2"
  unfolding expires_def
proof (intro conjI allI impI)
  note a = expiresD [OF assms(1)] and b = expiresD [OF assms(2)]
  show "ipc_frame s s2" by (rule ipc_frame_trans [OF a(1) b(1)])
  show "set (k_q s2 q) \<subseteq> set (k_q s q)" if "waiting q" for q using that a(2) b(2) by blast
  show "runs u s2" if "waiting q" "u \<in> set (k_q s q)" "u \<notin> set (k_q s2 q)" for q u
    using that a(3) b(3,4) by blast
  show "runs u s2" if "runs u s" for u using that a(4) b(4) by blast
  show "t_error (k_thr s2 u) = (if runs u s2 \<and> \<not> runs u s then - RT_ETIMEOUT else t_error (k_thr s u))" for u
    unfolding b(5) [of u] a(5) [of u] using a(4) [of u] b(4) [of u] by (cases "runs u s1") auto
qed

lemma expires_sched: "sched_frame s s' \<Longrightarrow> (\<And>u. runs u s' = runs u s) \<Longrightarrow> expires s s'"
  using sched_frameD [of s s'] by (auto simp: expires_def waiting_def ipc_frame_sched)

lemma expires_timer:
  "expires s (timer_remove (TimerOf t) s)" "expires s (timer_deactivate (TimerOf t) s)"
proof -
  have ty: "rt_object_get_type x (timer_remove (TimerOf t) s) = rt_object_get_type x s"
    "rt_object_get_type x (timer_deactivate (TimerOf t) s) = rt_object_get_type x s" for x
    by (simp_all add: rt_object_get_type_def timer_remove_def timer_deactivate_def set_timer_flag_def)
  show "expires s (timer_remove (TimerOf t) s)" "expires s (timer_deactivate (TimerOf t) s)"
    using ty by (auto simp: expires_def ipc_frame_def in_set_remove1 runs_def timer_deactivate_def set_timer_flag_def)
qed

text \<open>The state in which the timeouts of a tick are run.\<close>

definition ticking :: "ptr \<Rightarrow> (ptr \<Rightarrow> kstate \<Rightarrow> kstate option) \<Rightarrow> kstate \<Rightarrow> kstate \<Rightarrow> bool" where
  "ticking idle user s0 s \<longleftrightarrow>
     clock_inv user (\<lambda>_. None) s \<and> k_lock s = 0 \<and> stat_of (k_thr s (k_cur s)) = RT_THREAD_RUNNING \<and> runs idle s \<and>
     (\<forall>p. Obj p \<notin> set (k_tlist s)) \<and> expires s0 s"

lemma timeout_expires:
  assumes inv: "sys_inv lo s" and l: "k_lock s = 0" and cur: "k_cur s \<noteq> RT_NULL" and idle: "runs idle s"
    and t: "stat_of (k_thr s t) = RT_THREAD_SUSPEND" "TimerOf t \<notin> set (k_tlist s)"
  shows "\<exists>s'. rt_thread_timeout t s = Some s' \<and> k_lock s' = 0 \<and>
     stat_of (k_thr s' (k_cur s')) = RT_THREAD_RUNNING \<and> runs idle s' \<and> expires s s'"
proof -
  let ?s2 = "runnable t (tlist_remove t (set_thr t (\<lambda>th. th\<lparr>t_error := - RT_ETIMEOUT\<rparr>) s))"
  note core = thread_timeout_core [OF inv t]
  have nr: "\<not> runs t s" using t(1) by (simp add: runs_def)
  have l2: "k_lock ?s2 = k_lock s" by (simp add: runnable_def)
  have fr: "ipc_frame s ?s2"
    using timer_flag_cong(4) [OF core(3)] core(3,4) by (simp add: ipc_frame_def) (simp add: runnable_def set_stat_def)
  have r2: "runs u ?s2 \<longleftrightarrow> runs u s \<or> u = t" for u
    using core(8) [of u] core(9) by (cases "u = t") (auto simp: runs_def)
  have link: "t_tlist (k_thr s u) = Some q \<longleftrightarrow> u \<in> set (k_q s q)" for u q
    using links_okD(2) [OF kinv_butD(1) [OF sys_invD(2) [OF inv]]] by blast
  have q2: "set (k_q ?s2 q) = set (k_q s q) - {t}" if "waiting q" for q
  proof -
    have "k_q ?s2 q = k_q (tlist_remove t s) q"
      using waiting_not_ready [OF that] by (simp add: runnable_def cong: option.case_cong)
    then show ?thesis
      using link [of t q] links_okD(1) [OF kinv_butD(1) [OF sys_invD(2) [OF inv]], of q]
      by (auto split: option.splits)
  qed
  have e2: "t_error (k_thr ?s2 u) = (if u = t then - RT_ETIMEOUT else t_error (k_thr s u))" for u
    using core(8) [of u] core(10) by (cases "u = t") simp_all
  have "expires s ?s2"
    unfolding expires_def using fr q2 r2 e2 nr by auto
  moreover obtain s' where s': "rt_schedule ?s2 = Some s'" "sched_frame ?s2 s'"
    "stat_of (k_thr s' (k_cur s')) = RT_THREAD_RUNNING" "\<forall>u. runs u s' = runs u ?s2"
    using schedule_runs [OF core(2), of idle] l l2 core(7) cur idle r2 [of idle] by auto
  ultimately have "expires s s'" using expires_trans expires_sched by blast
  then show ?thesis
    using core(1) s' l l2 sched_frameD(1) [OF s'(2)] idle r2 [of idle] by auto
qed


lemma timer_lock [simp]:
  "k_lock (timer_remove x s) = k_lock s" "k_lock (timer_deactivate x s) = k_lock s"
  by (simp_all add: timer_remove_def timer_deactivate_def set_timer_flag_def)

lemma ticking_fires:
  assumes I: "ticking idle user s0 s" and x: "k_tlist s = x # xs" and due: "trem s x \<le> 0"
  shows "\<exists>s'. timer_fire (kernel_cb user) x s = Some s' \<and> ticking idle user s0 s' \<and> k_tick s' = k_tick s \<and>
     timers_wf (-1) s' \<and> expired_count s' < expired_count s"
proof -
  have c: "clock_inv user (\<lambda>_. None) s" and l: "k_lock s = 0" and idle: "runs idle s"
    and nu: "\<forall>p. Obj p \<notin> set (k_tlist s)" and ex: "expires s0 s"
    using I by (auto simp: ticking_def)
  obtain t where t: "x = TimerOf t" using nu x by (cases x) auto
  have xt: "k_tlist s = TimerOf t # xs" and due: "trem s (TimerOf t) \<le> 0" using x due t by simp_all
  obtain s' where s': "timer_fire (kernel_cb user) (TimerOf t) s = Some s'" "clock_inv user (\<lambda>_. None) s'"
    "k_tick s' = k_tick s" "expired_count s' < expired_count s"
    using fire_thread_timer [OF c xt due] by blast
  let ?s0 = "timer_remove (TimerOf t) s"
  have inv: "sys_inv (-1) s" "k_cur s \<noteq> RT_NULL" using c by (auto simp: clock_inv_def)
  have d: "distinct (TimerOf t # xs)" using sys_invD(3) [OF inv(1)] xt by (simp add: timers_wf_def)
  have sus: "stat_of (k_thr s t) = RT_THREAD_SUSPEND"
    using sys_invD(5) [OF inv(1)] xt by (auto simp: ttimer_ok_def)
  have inv0: "sys_inv (-1) ?s0" by (rule remove_sys_inv [OF inv(1)])
  obtain s1 where s1: "rt_thread_timeout t ?s0 = Some s1" "k_lock s1 = 0"
    "stat_of (k_thr s1 (k_cur s1)) = RT_THREAD_RUNNING" "runs idle s1" "expires ?s0 s1"
    using timeout_expires [OF inv0, of idle t] l inv(2) idle sus d xt by auto
  have ob: "k_obj s1 = k_obj s"
    using thread_timeout_wakes [OF inv0, of t] s1(1) sus d xt inv(2) by auto
  have "\<not> timer_periodic (TimerOf t) s1"
    using typedD(2) [OF sys_invD(4) [OF inv(1)], of t] sus timer_flag_cong(2) [OF ob]
    by (simp add: timer_obj_def)
  then have eq: "s' = timer_deactivate (TimerOf t) s1"
    using s'(1) s1(1) by (simp add: timer_fire_def kernel_cb_def)
  have "expires s0 s'"
    unfolding eq by (rule expires_trans [OF expires_trans [OF expires_trans [OF ex expires_timer(1)] s1(5)] expires_timer(2)])
  moreover have "Obj p \<notin> set (k_tlist s')" for p
    using nu ipc_frameD(15) [OF expiresD(1) [OF s1(5)], of p] eq by (auto simp: in_set_remove1)
  ultimately have "ticking idle user s0 s'"
    using s'(2) s1(2-4) eq by (simp add: ticking_def)
  moreover have "timers_wf (-1) s'" using s'(2) sys_invD(3) by (auto simp: clock_inv_def)
  ultimately show ?thesis using s' t by blast
qed

interpretation tick: timer_callbacks "kernel_cb user" "ticking idle user s0" for idle user s0
  by unfold_locales (rule ticking_fires)

lemma time_slice_event [simp]:
  "t_error (time_slice th) = t_error th" "t_event_set (time_slice th) = t_event_set th"
  "t_event_info (time_slice th) = t_event_info th"
  by (simp_all add: time_slice_def Let_def)

text \<open>With thread timers only, a tick keeps the system healthy.\<close>

lemma tick_call:
  assumes h: "healthy idle s" and nu: "\<forall>p. Obj p \<notin> set (k_tlist s)" and q: "quiet user"
  shows "\<exists>s'. rt_tick_increase user s = Some s' \<and> healthy idle s' \<and> expires s s' \<and> k_tick s' = k_tick s + 1"
proof -
  note i = healthyD [OF h]
  let ?s1 = "set_thr (k_cur s) time_slice (s\<lparr>k_tick := k_tick s + 1\<rparr>)"
  have inv1: "sys_inv (-1) ?s1" using tick_sys_inv [OF i(1)] by simp
  have r1: "runs u ?s1 = runs u s" for u by (simp add: runs_def)
  have "rt_object_get_type x ?s1 = rt_object_get_type x s" for x by (simp add: rt_object_get_type_def)
  then have e1: "expires s ?s1" using r1 by (simp add: expires_def ipc_frame_def)
  obtain s2 where s2: "(if t_remaining_tick (k_thr s (k_cur s)) = 1
        then do { (_, s) \<leftarrow> rt_thread_yield ?s1; Some s } else Some ?s1) = Some s2"
      "sys_inv (-1) s2" "sched_frame ?s1 s2" "k_cur s2 \<noteq> RT_NULL"
      "stat_of (k_thr s2 (k_cur s2)) = RT_THREAD_RUNNING" "\<forall>u. runs u s2 = runs u ?s1"
  proof (cases "t_remaining_tick (k_thr s (k_cur s)) = 1")
    case True
    then show thesis
      using schedule_runs [OF inv1, of idle] i(2,3,5) r1 that by (auto simp: rt_thread_yield_def)
  next
    case False
    then show thesis using that [of ?s1] inv1 i(3,4) sched_frame_refl by simp
  qed
  have e2: "expires s s2" using expires_trans [OF e1 expires_sched [OF s2(3)]] s2(6) by blast
  have f: "k_lock s2 = 0" "k_tlist s2 = k_tlist s" "k_tick s2 = k_tick s + 1"
    using sched_frameD(1,3,7) [OF s2(3)] i(2) by simp_all
  have "clock_inv user (\<lambda>_. None) s2"
    using q s2(2,4) nu f(2) by (simp add: clock_inv_def user_timers_def)
  then have I: "ticking idle user s s2"
    using s2(5,6) r1 i(5) f nu e2 by (simp add: ticking_def)
  obtain s' where s': "rt_timer_check (kernel_cb user) s2 = Some s'" "ticking idle user s s'"
    "timers_wf 1 s'" "k_tick s' = k_tick s2"
    using tick.check_total [OF I sys_invD(3) [OF s2(2)]] by blast
  have "sys_inv 0 s'"
    using s'(2,3) timers_wf_weaken [of 1 s' 0] by (auto simp: ticking_def clock_inv_def sys_inv_def)
  then have "healthy idle s'" using s'(2) by (simp add: healthy_def ticking_def clock_inv_def)
  moreover have "rt_tick_increase user s = Some s'"
    using i(3) s2(1) s'(1)
    by (cases "rt_thread_yield ?s1") (auto simp: rt_tick_increase_def rt_thread_self_def Let_def split: if_splits)
  ultimately show ?thesis using s'(2,4) f(3) by (auto simp: ticking_def)
qed

text \<open>The invariants of the objects survive a tick, because the lists only become shorter.\<close>

lemma expires_objs_ok:
  assumes ok: "objs_ok s" and e: "expires s s'"
  shows "objs_ok s'"
proof -
  note d = expiresD [OF e] and f = ipc_frameD [OF expiresD(1) [OF e]] and o = objs_okD [OF ok]
  have cl: "is_class c p s' = is_class c p s" for c p by (rule is_class_frame [OF d(1)])
  have q: "set (k_q s' (Susp p)) \<subseteq> set (k_q s (Susp p))" for p using d(2) by simp
  have "sem_ok s'" using o(1) q f(1) cl unfolding sem_ok_def by (metis empty_iff set_empty2 subset_empty)
  moreover have "mutex_ok s'"
    unfolding mutex_ok_def using o(2) cl mutex_inv1_frame [OF _ f(11) q] f(2) by (auto simp: mutex_ok_def)
  moreover have "event_ok s'" using o(3) q f(3,13,14) cl unfolding event_ok_def by (metis subsetD)
  ultimately show ?thesis
    using o(4-6) mb_ok_frame [OF _ d(1)] mq_ok_frame [OF _ d(1)] mp_ok_frame [OF _ d(1)]
    by (simp add: objs_ok_def)
qed



section \<open>What threads know of a mutex\<close>

text \<open>\<open>w t\<close>: the thread is in the middle of \<open>rt_mutex_take\<close>; \<open>n t\<close>: how often it has been told that it has
  the mutex and has not given it back. The threads of the waiting list are in the middle of a take; the
  owner has been told as often as the mutex counts, unless the mutex was handed to it while it
  waited and it has not run since; nobody else has been told.\<close>

definition mutex_view :: "(ptr \<Rightarrow> bool) \<Rightarrow> (ptr \<Rightarrow> nat) \<Rightarrow> ptr \<Rightarrow> kstate \<Rightarrow> bool" where
  "mutex_view w n p s \<longleftrightarrow> (\<forall>t.
     (t \<in> set (k_q s (Susp p)) \<longrightarrow> w t \<and> t_error (k_thr s t) = RT_EOK) \<and>
     (w t \<longrightarrow> t \<in> set (k_q s (Susp p)) \<or> runs t s) \<and>
     (if t \<noteq> RT_NULL \<and> mtx_owner (k_mutex s p) = t
      then if w t then n t = 0 \<and> mtx_hold (k_mutex s p) = 1 \<and> t_error (k_thr s t) = RT_EOK \<and> runs t s
           else n t = unat (mtx_hold (k_mutex s p))
      else n t = 0 \<and> (w t \<longrightarrow> runs t s \<longrightarrow> t_error (k_thr s t) \<noteq> RT_EOK)))"

lemma mutex_viewD:
  assumes "mutex_view w n p s"
  shows "t \<in> set (k_q s (Susp p)) \<Longrightarrow> w t" and "t \<in> set (k_q s (Susp p)) \<Longrightarrow> t_error (k_thr s t) = RT_EOK"
    and "w t \<Longrightarrow> t \<in> set (k_q s (Susp p)) \<or> runs t s"
    and "t \<noteq> RT_NULL \<Longrightarrow> mtx_owner (k_mutex s p) = t \<Longrightarrow> w t \<Longrightarrow>
      n t = 0 \<and> mtx_hold (k_mutex s p) = 1 \<and> t_error (k_thr s t) = RT_EOK \<and> runs t s"
    and "t \<noteq> RT_NULL \<Longrightarrow> mtx_owner (k_mutex s p) = t \<Longrightarrow> \<not> w t \<Longrightarrow> n t = unat (mtx_hold (k_mutex s p))"
    and "t = RT_NULL \<or> mtx_owner (k_mutex s p) \<noteq> t \<Longrightarrow> n t = 0"
    and "t = RT_NULL \<or> mtx_owner (k_mutex s p) \<noteq> t \<Longrightarrow> w t \<Longrightarrow> runs t s \<Longrightarrow> t_error (k_thr s t) \<noteq> RT_EOK"
  using assms unfolding mutex_view_def by (auto split: if_splits)

lemma mutex_viewI:
  assumes "\<And>t. t \<in> set (k_q s (Susp p)) \<Longrightarrow> w t \<and> t_error (k_thr s t) = RT_EOK"
    and "\<And>t. w t \<Longrightarrow> t \<in> set (k_q s (Susp p)) \<or> runs t s"
    and "\<And>t. t \<noteq> RT_NULL \<Longrightarrow> mtx_owner (k_mutex s p) = t \<Longrightarrow> w t \<Longrightarrow>
      n t = 0 \<and> mtx_hold (k_mutex s p) = 1 \<and> t_error (k_thr s t) = RT_EOK \<and> runs t s"
    and "\<And>t. t \<noteq> RT_NULL \<Longrightarrow> mtx_owner (k_mutex s p) = t \<Longrightarrow> \<not> w t \<Longrightarrow> n t = unat (mtx_hold (k_mutex s p))"
    and "\<And>t. t = RT_NULL \<or> mtx_owner (k_mutex s p) \<noteq> t \<Longrightarrow>
      n t = 0 \<and> (w t \<longrightarrow> runs t s \<longrightarrow> t_error (k_thr s t) \<noteq> RT_EOK)"
  shows "mutex_view w n p s"
  unfolding mutex_view_def using assms by auto

lemma waiting_not_runs:
  assumes "healthy idle s" and "waiting q" and "t \<in> set (k_q s q)"
  shows "\<not> runs t s"
  using waiting_suspended(1) [OF healthyD(7) [OF assms(1)] assms(2,3)] by (simp add: runs_def)

lemma view_tick:
  assumes v: "mutex_view w n p s" and e: "expires s s'" and h: "healthy idle s'"
  shows "mutex_view w n p s'"
proof -
  note a = mutex_viewD [OF v] and d = expiresD [OF e] and m = ipc_frameD(2) [OF expiresD(1) [OF e]]
  show ?thesis
  proof (rule mutex_viewI, unfold m)
    fix t
    show "w t \<and> t_error (k_thr s' t) = RT_EOK" if "t \<in> set (k_q s' (Susp p))"
    proof -
      have t: "t \<in> set (k_q s (Susp p))" using that d(2) [of "Susp p"] by auto
      then show ?thesis using a(1,2) [of t] d(5) [of t] waiting_not_runs [OF h _ that] by simp
    qed
    show "t \<in> set (k_q s' (Susp p)) \<or> runs t s'" if "w t"
      using a(3) [OF that] d(3) [of "Susp p" t] d(4) [of t] by auto
    show "n t = 0 \<and> mtx_hold (k_mutex s p) = 1 \<and> t_error (k_thr s' t) = RT_EOK \<and> runs t s'"
      if "t \<noteq> RT_NULL" "mtx_owner (k_mutex s p) = t" "w t"
      using a(4) [OF that] d(4,5) [of t] by simp
    show "n t = unat (mtx_hold (k_mutex s p))" if "t \<noteq> RT_NULL" "mtx_owner (k_mutex s p) = t" "\<not> w t"
      using a(5) [OF that] .
    show "n t = 0 \<and> (w t \<longrightarrow> runs t s' \<longrightarrow> t_error (k_thr s' t) \<noteq> RT_EOK)"
      if "t = RT_NULL \<or> mtx_owner (k_mutex s p) \<noteq> t"
      using a(6,7) [OF that] d(5) [of t] by auto
  qed
qed

lemma view_other:
  assumes v: "mutex_view w n p s" and h: "healthy idle s" and tc: "touches c (k_cur s) s s'" and pc: "p \<noteq> c"
    and nw: "\<not> w (k_cur s)"
  shows "mutex_view w n p s'"
proof -
  note a = mutex_viewD [OF v] and m = touchesD(6) [OF tc pc] and q = touchesD(11) [OF tc pc]
  have same: "runs t s' = runs t s \<and> t_error (k_thr s' t) = t_error (k_thr s t)" if "w t" for t
  proof -
    have "t \<notin> set (k_q s q)" if "q \<in> {Susp c, Sender c}" for q
    proof
      assume t: "t \<in> set (k_q s q)"
      have w: "waiting q" using that by auto
      have "\<not> runs t s" by (rule waiting_not_runs [OF h w t])
      then have "t \<in> set (k_q s (Susp p))" using a(3) [OF \<open>w t\<close>] by simp
      then have "q = Susp p"
        using waiting_suspended(2) [OF healthyD(7) [OF h], of _ t] w t by (metis option.inject waiting_simps(1))
      then show False using that pc by simp
    qed
    moreover have "t \<noteq> k_cur s" using nw that by auto
    ultimately show ?thesis using touchesD(15) [OF tc, of t] by simp
  qed
  show ?thesis
    by (rule mutex_viewI, unfold m q) (use a same in auto)
qed

lemma view_took:
  assumes v: "mutex_view w n p s" and h: "healthy idle s" and tk: "mutex_took p r s s'" and nw: "\<not> w (k_cur s)"
    and m: "mutex_inv1 p s"
  shows "mutex_view (w(k_cur s := r = Blocked)) (n(k_cur s := if r = Returns RT_EOK then n (k_cur s) + 1 else n (k_cur s))) p s'"
proof -
  note a = mutex_viewD [OF v] and t0 = healthyD(3) [OF h]
  have u: "runs t s' = runs t s \<and> t_error (k_thr s' t) = t_error (k_thr s t)" if "t \<noteq> k_cur s" for t
    using tk that by (simp add: mutex_took_def)
  have nq: "k_cur s \<notin> set (k_q s (Susp p))" using place_ok(1) [OF h, of "Susp p"] by simp
  show ?thesis
  proof (cases r)
    case Blocked
    then have b: "k_mutex s' p = k_mutex s p" "mtx_owner (k_mutex s p) \<noteq> k_cur s"
      "set (k_q s' (Susp p)) = insert (k_cur s) (set (k_q s (Susp p)))" "\<not> runs (k_cur s) s'"
      "t_error (k_thr s' (k_cur s)) = RT_EOK"
      using tk by (simp_all add: mutex_took_def)
    show ?thesis
      by (rule mutex_viewI, unfold b(1,3)) (use a b u Blocked in \<open>auto split: if_splits\<close>)
  next
    case (Returns e)
    then have b: "k_q s' (Susp p) = k_q s (Susp p)" "runs (k_cur s) s'" using tk by (simp_all add: mutex_took_def)
    show ?thesis
    proof (cases "e = RT_EOK")
      case True
      then have o: "mtx_owner (k_mutex s p) \<in> {RT_NULL, k_cur s}" "mtx_owner (k_mutex s' p) = k_cur s"
        "unat (mtx_hold (k_mutex s' p)) = unat (mtx_hold (k_mutex s p)) + 1"
        using tk Returns by (simp_all add: mutex_took_def)
      have "n (k_cur s) = unat (mtx_hold (k_mutex s p))"
      proof (cases "mtx_owner (k_mutex s p) = k_cur s")
        case True
        then show ?thesis using a(5) [OF t0 _ nw] by simp
      next
        case False
        then have "mtx_hold (k_mutex s p) = 0"
          using m o(1) by (auto simp: mutex_inv1_def Let_def is_thread_def split: if_splits)
        then show ?thesis using a(6) [of "k_cur s"] False by simp
      qed
      then have own: "(n(k_cur s := n (k_cur s) + 1)) (k_cur s) = unat (mtx_hold (k_mutex s' p))" using o(3) by simp
      have "n t = 0 \<and> (w t \<longrightarrow> runs t s' \<longrightarrow> t_error (k_thr s' t) \<noteq> RT_EOK)" if "t \<noteq> k_cur s" for t
        using a(6,7) [of t] o(1) that t0 u [OF that] by auto
      then show ?thesis
        using a(1-3) b u nq nw t0 o(2) own Returns True by (intro mutex_viewI) (auto split: if_splits)
    next
      case False
      then have "k_mutex s' p = k_mutex s p" using tk Returns by (simp add: mutex_took_def)
      then show ?thesis
        by (intro mutex_viewI) (use a b u nw nq Returns False in \<open>auto split: if_splits\<close>)
    qed
  qed
qed


lemma view_resume:
  assumes v: "mutex_view w n p s" and cur: "k_cur s \<noteq> RT_NULL" "w (k_cur s)" "runs (k_cur s) s"
    and nq: "k_cur s \<notin> set (k_q s (Susp p))"
  shows "mutex_view (w(k_cur s := False))
     (n(k_cur s := if t_error (k_thr s (k_cur s)) = RT_EOK then n (k_cur s) + 1 else n (k_cur s))) p s"
proof -
  note a = mutex_viewD [OF v]
  have "mtx_owner (k_mutex s p) = k_cur s \<longleftrightarrow> t_error (k_thr s (k_cur s)) = RT_EOK"
    using a(4,7) [of "k_cur s"] cur by blast
  note own = this and c = a(4) [OF cur(1) _ cur(2)]
  show ?thesis
  proof (rule mutex_viewI)
    fix t
    show "(w(k_cur s := False)) t \<and> t_error (k_thr s t) = RT_EOK" if "t \<in> set (k_q s (Susp p))"
      using that a(1,2) [of t] nq by auto
    show "t \<in> set (k_q s (Susp p)) \<or> runs t s" if "(w(k_cur s := False)) t"
      using that a(3) [of t] by (auto split: if_splits)
  next
    fix t
    assume t: "t \<noteq> RT_NULL" "mtx_owner (k_mutex s p) = t"
    let ?n = "n(k_cur s := if t_error (k_thr s (k_cur s)) = RT_EOK then n (k_cur s) + 1 else n (k_cur s))"
    show "?n t = 0 \<and> mtx_hold (k_mutex s p) = 1 \<and> t_error (k_thr s t) = RT_EOK \<and> runs t s"
      if "(w(k_cur s := False)) t"
      using that a(4) [OF t] by (auto split: if_splits)
    show "?n t = unat (mtx_hold (k_mutex s p))" if "\<not> (w(k_cur s := False)) t"
    proof (cases "t = k_cur s")
      case True
      then show ?thesis using c own t(2) by simp
    qed (use that a(5) [OF t] in auto)
  next
    fix t
    assume t: "t = RT_NULL \<or> mtx_owner (k_mutex s p) \<noteq> t"
    let ?n = "n(k_cur s := if t_error (k_thr s (k_cur s)) = RT_EOK then n (k_cur s) + 1 else n (k_cur s))"
    show "?n t = 0 \<and> ((w(k_cur s := False)) t \<longrightarrow> runs t s \<longrightarrow> t_error (k_thr s t) \<noteq> RT_EOK)"
      using t a(6,7) [OF t] own cur(1) by (cases "t = k_cur s") auto
  qed
qed

lemma view_gave:
  assumes v: "mutex_view w n p s" and h: "healthy idle s" and gv: "mutex_gave p e s s'" and nw: "\<not> w (k_cur s)"
  shows "mutex_view w (n(k_cur s := if e = RT_EOK then n (k_cur s) - 1 else n (k_cur s))) p s'"
proof -
  note a = mutex_viewD [OF v] and t0 = healthyD(3) [OF h]
  have nq: "k_cur s \<notin> set (k_q s (Susp p))" and d: "distinct (k_q s (Susp p))"
    using place_ok [OF h, of "Susp p"] by simp_all
  consider "e \<noteq> RT_EOK" | "e = RT_EOK" "mtx_hold (k_mutex s p) \<noteq> 1" | "e = RT_EOK" "mtx_hold (k_mutex s p) = 1" by blast
  then show ?thesis
  proof cases
    case 1
    then have g: "k_mutex s' p = k_mutex s p" "k_q s' (Susp p) = k_q s (Susp p)" "\<forall>u. runs u s' = runs u s"
      "\<And>u. u \<noteq> k_cur s \<Longrightarrow> t_error (k_thr s' u) = t_error (k_thr s u)"
      using gv by (simp_all add: mutex_gave_def)
    have "t_error (k_thr s' u) = t_error (k_thr s u)" if "w u" for u using g(4) [of u] nw that by auto
    then show ?thesis
      using 1 a g(1-3) by (intro mutex_viewI) auto
  next
    case 2
    then have g: "mtx_owner (k_mutex s p) = k_cur s" "\<forall>u. t_error (k_thr s' u) = t_error (k_thr s u)"
      "k_q s' (Susp p) = k_q s (Susp p)" "\<forall>u. runs u s' = runs u s" "mtx_owner (k_mutex s' p) = k_cur s"
      "unat (mtx_hold (k_mutex s p)) = unat (mtx_hold (k_mutex s' p)) + 1"
      using gv by (simp_all add: mutex_gave_def)
    have "n (k_cur s) = unat (mtx_hold (k_mutex s p))" using a(5) [OF t0 g(1) nw] .
    then show ?thesis
      using 2 g a nq nw by (intro mutex_viewI) (auto split: if_splits)
  next
    case 3
    then have g: "mtx_owner (k_mutex s p) = k_cur s" "\<forall>u. t_error (k_thr s' u) = t_error (k_thr s u)"
      "k_q s' (Susp p) = tl (k_q s (Susp p))"
      "\<forall>u. runs u s' \<longleftrightarrow> runs u s \<or> k_q s (Susp p) \<noteq> [] \<and> u = hd (k_q s (Susp p))"
      "mtx_owner (k_mutex s' p) = (if k_q s (Susp p) = [] then RT_NULL else hd (k_q s (Susp p)))"
      "mtx_hold (k_mutex s' p) = (if k_q s (Susp p) = [] then 0 else 1)"
      using gv by (simp_all add: mutex_gave_def)
    have n1: "n (k_cur s) = 1" using a(5) [OF t0 g(1) nw] 3(2) by simp
    have n0: "n t = 0 \<and> (w t \<longrightarrow> runs t s \<longrightarrow> t_error (k_thr s t) \<noteq> RT_EOK)" if "t \<noteq> k_cur s" for t
      using a(6,7) [of t] g(1) that by auto
    show ?thesis
    proof (cases "k_q s (Susp p)")
      case Nil
      then show ?thesis
        using 3 g a(3) n0 n1 nw by (intro mutex_viewI) (auto split: if_splits)
    next
      case (Cons u us)
      then have u: "u \<noteq> k_cur s" "w u" "t_error (k_thr s u) = RT_EOK" using nq a(1,2) [of u] by auto
      have "stat_of (k_thr s u) = RT_THREAD_SUSPEND"
        using waiting_suspended(1) [OF healthyD(7) [OF h], of "Susp p" u] Cons by simp
      then have u0: "u \<noteq> RT_NULL" using suspended_mask [OF healthyD(1) [OF h]] by blast
      have r: "t \<in> set us \<or> runs t s'" if "w t" for t using a(3) [OF that] g(4) Cons by auto
      show ?thesis
        using 3 Cons g a(1,2) r u u0 n0 n1 nw d by (intro mutex_viewI) (auto split: if_splits)
    qed
  qed
qed

end
