(* ===== verification/RTT_System.thy ===== *)
theory RTT_System
  imports RTT_Steps
begin

text \<open>
  The system as a whole: the threads issue calls one after the other, are suspended in the middle of
  a call and carry it on when they run again, and the clock interrupt comes between two of their steps.
  Every interleaving of these steps is a run of the inductive relation \<open>sys_step\<close>; the theorems are
  about every state such a run can reach.

  The record \<open>sys\<close> adds to the kernel state what the kernel itself does not know: the call each thread
  is in the middle of, and what the return values of its calls have told each thread.
\<close>

section \<open>Calls\<close>

datatype call =
    SemTake ptr u32 | SemRelease ptr | MutexTake ptr u32 | MutexRelease ptr
  | EventRecv ptr u32 u8 u32 | EventSend ptr u32
  | MbSend ptr u32 u32 | MbRecv ptr u32
  | MqSend ptr "u8 list" u32 u32 | MqUrgent ptr "u8 list" u32 | MqRecv ptr u32 u32
  | MpAlloc ptr u32 | MpFree ptr nat | Sleep u32 | Yield

text \<open>What a call hands to the caller besides its return value.\<close>

datatype reply = Nothing | Flags u32 | Mail u32 | Message "u8 list" | Block nat

fun reply_of :: "('a \<Rightarrow> reply) \<Rightarrow> 'a option \<Rightarrow> reply" where
  "reply_of f None = Nothing"
| "reply_of f (Some x) = f x"

fun mp_reply :: "mp_result \<Rightarrow> outcome \<times> reply" where
  "mp_reply MpWaits = (Blocked, Nothing)"
| "mp_reply (MpReturns b) = (Returns RT_EOK, reply_of Block b)"

fun run_call :: "call \<Rightarrow> kstate \<Rightarrow> (outcome \<times> reply \<times> kstate) option" where
  "run_call (SemTake p time) s = do { (r, s) \<leftarrow> rt_sem_take p time s; Some (r, Nothing, s) }"
| "run_call (SemRelease p) s = do { (e, s) \<leftarrow> rt_sem_release p s; Some (Returns e, Nothing, s) }"
| "run_call (MutexTake p time) s = do { (r, s) \<leftarrow> rt_mutex_take p time s; Some (r, Nothing, s) }"
| "run_call (MutexRelease p) s = do { (e, s) \<leftarrow> rt_mutex_release p s; Some (Returns e, Nothing, s) }"
| "run_call (EventRecv p want opt time) s = do { (r, v, s) \<leftarrow> rt_event_recv p want opt time s; Some (r, reply_of Flags v, s) }"
| "run_call (EventSend p evs) s = do { (e, s) \<leftarrow> rt_event_send p evs s; Some (Returns e, Nothing, s) }"
| "run_call (MbSend p v time) s = do { (r, s) \<leftarrow> rt_mb_send_wait p v time s; Some (r, Nothing, s) }"
| "run_call (MbRecv p time) s = do { (r, v, s) \<leftarrow> rt_mb_recv p time s; Some (r, reply_of Mail v, s) }"
| "run_call (MqSend p buf sz time) s = do { (r, s) \<leftarrow> rt_mq_send_wait p buf sz time s; Some (r, Nothing, s) }"
| "run_call (MqUrgent p buf sz) s = do { (r, s) \<leftarrow> rt_mq_urgent p buf sz s; Some (r, Nothing, s) }"
| "run_call (MqRecv p sz time) s = do { (r, v, s) \<leftarrow> rt_mq_recv p sz time s; Some (r, reply_of Message v, s) }"
| "run_call (MpAlloc p time) s = do { (r, s) \<leftarrow> rt_mp_alloc p time s; Some (fst (mp_reply r), snd (mp_reply r), s) }"
| "run_call (MpFree p b) s = do { s \<leftarrow> rt_mp_free (Some (p, b)) s; Some (Returns RT_EOK, Nothing, s) }"
| "run_call (Sleep tick) s = do { (r, s) \<leftarrow> rt_thread_sleep tick s; Some (r, Nothing, s) }"
| "run_call Yield s = do { (e, s) \<leftarrow> rt_thread_yield s; Some (Returns e, Nothing, s) }"

text \<open>The rest of a call the thread \<open>t\<close> was suspended in, from the \<open>rt_schedule\<close> on; \<open>start\<close> is the tick at
  which it began to wait. The calls with a loop may wait again, for the time that is left.\<close>

fun resume_call :: "call \<Rightarrow> ptr \<Rightarrow> u32 \<Rightarrow> kstate \<Rightarrow> (outcome \<times> reply \<times> kstate) option" where
  "resume_call (SemTake p time) t start s = (let (r, s) = rt_sem_take_resume t s in Some (r, Nothing, s))"
| "resume_call (MutexTake p time) t start s = do { (r, s) \<leftarrow> rt_mutex_take_resume p t time s; Some (r, Nothing, s) }"
| "resume_call (EventRecv p want opt time) t start s =
     (let (r, v, s) = rt_event_recv_resume t s in Some (r, reply_of Flags v, s))"
| "resume_call (MbSend p v time) t start s = do { (r, s) \<leftarrow> rt_mb_send_resume p t v time start s; Some (r, Nothing, s) }"
| "resume_call (MbRecv p time) t start s =
     do { (r, v, s) \<leftarrow> rt_mb_recv_resume p t time start s; Some (r, reply_of Mail v, s) }"
| "resume_call (MqSend p buf sz time) t start s =
     do { (r, s) \<leftarrow> rt_mq_send_resume p t buf sz time start s; Some (r, Nothing, s) }"
| "resume_call (MqRecv p sz time) t start s =
     do { (r, v, s) \<leftarrow> rt_mq_recv_resume p t sz time start s; Some (r, reply_of Message v, s) }"
| "resume_call (MpAlloc p time) t start s =
     do { (r, s) \<leftarrow> rt_mp_alloc_resume p t time start s; Some (fst (mp_reply r), snd (mp_reply r), s) }"
| "resume_call (Sleep tick) t start s = (let (e, s) = rt_thread_sleep_resume t s in Some (Returns e, Nothing, s))"
| "resume_call _ t start s = None"

fun call_left :: "call \<Rightarrow> u32 \<Rightarrow> kstate \<Rightarrow> call" where
  "call_left (MbSend p v time) start s = MbSend p v (timeout_left time start s)"
| "call_left (MbRecv p time) start s = MbRecv p (timeout_left time start s)"
| "call_left (MqSend p buf sz time) start s = MqSend p buf sz (timeout_left time start s)"
| "call_left (MqRecv p sz time) start s = MqRecv p sz (timeout_left time start s)"
| "call_left (MpAlloc p time) start s = MpAlloc p (timeout_left time start s)"
| "call_left c start s = c"

fun call_obj :: "call \<Rightarrow> ptr" where
  "call_obj (SemTake p _) = p" | "call_obj (SemRelease p) = p" | "call_obj (MutexTake p _) = p"
| "call_obj (MutexRelease p) = p" | "call_obj (EventRecv p _ _ _) = p" | "call_obj (EventSend p _) = p"
| "call_obj (MbSend p _ _) = p" | "call_obj (MbRecv p _) = p" | "call_obj (MqSend p _ _ _) = p"
| "call_obj (MqUrgent p _ _) = p" | "call_obj (MqRecv p _ _) = p" | "call_obj (MpAlloc p _) = p"
| "call_obj (MpFree p _) = p" | "call_obj (Sleep _) = RT_NULL" | "call_obj Yield = RT_NULL"

text \<open>The arguments a call may have: the object is of its class, the flag of its waiting list one of the
  two the code knows, a time limit is not the one the timer refuses, a message has a size and the
  buffer holds it. The time limit of a waiting thread is no part of the object.\<close>

definition waitable :: "ptr \<Rightarrow> kstate \<Rightarrow> bool" where
  "waitable p s \<longleftrightarrow> ipc_flag p s \<in> {RT_IPC_FLAG_FIFO, RT_IPC_FLAG_PRIO}"

fun proper :: "call \<Rightarrow> kstate \<Rightarrow> bool" where
  "proper (SemTake p time) s \<longleftrightarrow> is_class Class_Semaphore p s \<and> waitable p s \<and> time \<noteq> TICK_HALF"
| "proper (SemRelease p) s \<longleftrightarrow> is_class Class_Semaphore p s"
| "proper (MutexTake p time) s \<longleftrightarrow> is_class Class_Mutex p s \<and> waitable p s \<and> time \<noteq> TICK_HALF"
| "proper (MutexRelease p) s \<longleftrightarrow> is_class Class_Mutex p s"
| "proper (EventRecv p want opt time) s \<longleftrightarrow>
     is_class Class_Event p s \<and> waitable p s \<and> want \<noteq> 0 \<and> opt AND 3 \<noteq> 0 \<and> time \<noteq> TICK_HALF"
| "proper (EventSend p evs) s \<longleftrightarrow> is_class Class_Event p s"
| "proper (MbSend p v time) s \<longleftrightarrow> is_class Class_MailBox p s \<and> waitable p s \<and> time \<noteq> TICK_HALF"
| "proper (MbRecv p time) s \<longleftrightarrow> is_class Class_MailBox p s \<and> waitable p s \<and> time \<noteq> TICK_HALF"
| "proper (MqSend p buf sz time) s \<longleftrightarrow>
     is_class Class_MessageQueue p s \<and> waitable p s \<and> sz \<noteq> 0 \<and> unat sz \<le> length buf \<and> time \<noteq> TICK_HALF"
| "proper (MqUrgent p buf sz) s \<longleftrightarrow> is_class Class_MessageQueue p s \<and> sz \<noteq> 0 \<and> unat sz \<le> length buf"
| "proper (MqRecv p sz time) s \<longleftrightarrow>
     is_class Class_MessageQueue p s \<and> waitable p s \<and> sz \<noteq> 0 \<and> time \<noteq> TICK_HALF"
| "proper (MpAlloc p time) s \<longleftrightarrow> is_class Class_MemPool p s \<and> time \<noteq> TICK_HALF"
| "proper (MpFree p b) s \<longleftrightarrow> is_class Class_MemPool p s"
| "proper (Sleep tick) s \<longleftrightarrow> tick < TICK_HALF"
| "proper Yield s \<longleftrightarrow> True"


section \<open>The state and the steps\<close>

record sys =
  sy_k :: kstate
  sy_pend :: "ptr \<Rightarrow> (call \<times> u32) option"
  sy_holds :: "ptr \<Rightarrow> ptr \<Rightarrow> nat"
  sy_sent :: "ptr \<Rightarrow> u32 list"
  sy_rcvd :: "ptr \<Rightarrow> u32 list"
  sy_lent :: "ptr \<Rightarrow> nat list"

text \<open>\<open>sy_holds S p t\<close>: how often the thread \<open>t\<close> has been told that it has the mutex \<open>p\<close>, less the releases it
  has been told of; \<open>sy_sent\<close> and \<open>sy_rcvd\<close>: the mails whose senders have been told that they are sent, and
  the mails receivers have got; \<open>sy_lent\<close>: the blocks of a pool that were handed out and not given back.\<close>

fun account :: "ptr \<Rightarrow> call \<Rightarrow> outcome \<Rightarrow> reply \<Rightarrow> sys \<Rightarrow> sys" where
  "account t (MutexTake p time) (Returns e) y S =
     (if e = RT_EOK then S\<lparr>sy_holds := (sy_holds S)(p := (sy_holds S p)(t := sy_holds S p t + 1))\<rparr> else S)"
| "account t (MutexRelease p) (Returns e) y S =
     (if e = RT_EOK then S\<lparr>sy_holds := (sy_holds S)(p := (sy_holds S p)(t := sy_holds S p t - 1))\<rparr> else S)"
| "account t (MbSend p v time) (Returns e) y S =
     (if e = RT_EOK then S\<lparr>sy_sent := (sy_sent S)(p := sy_sent S p @ [v])\<rparr> else S)"
| "account t (MbRecv p time) r (Mail v) S = S\<lparr>sy_rcvd := (sy_rcvd S)(p := sy_rcvd S p @ [v])\<rparr>"
| "account t (MpAlloc p time) r (Block b) S = S\<lparr>sy_lent := (sy_lent S)(p := b # sy_lent S p)\<rparr>"
| "account t (MpFree p b) r y S = S\<lparr>sy_lent := (sy_lent S)(p := remove1 b (sy_lent S p))\<rparr>"
| "account t c r y S = S"

definition after_call :: "ptr \<Rightarrow> call \<Rightarrow> outcome \<Rightarrow> reply \<Rightarrow> kstate \<Rightarrow> sys \<Rightarrow> sys" where
  "after_call t c r y s' S =
     account t c r y (S\<lparr>sy_k := s', sy_pend := (sy_pend S)(t := if r = Blocked then Some (c, k_tick (sy_k S)) else None)\<rparr>)"

text \<open>A thread may make a call when its arguments are proper, and when it gives back a block, the block
  was handed out; and it does not take the same mutex for the 256th time, at which the count wraps
  (\<open>rt_mutex_hold_wraps\<close>).\<close>

fun may :: "call \<Rightarrow> sys \<Rightarrow> bool" where
  "may (MpFree p b) S \<longleftrightarrow> proper (MpFree p b) (sy_k S) \<and> b \<in> set (sy_lent S p)"
| "may (MutexTake p time) S \<longleftrightarrow> proper (MutexTake p time) (sy_k S) \<and> mtx_hold (k_mutex (sy_k S) p) \<noteq> 255"
| "may c S \<longleftrightarrow> proper c (sy_k S)"

text \<open>A thread that was woken in the middle of a call runs again before the tick has gone half around, so the
  time it has left is computed without a wrap.\<close>

definition timely :: "u32 \<Rightarrow> kstate \<Rightarrow> bool" where
  "timely start s \<longleftrightarrow> k_tick s - start < 0x80000000"

inductive sys_step :: "ptr \<Rightarrow> (ptr \<Rightarrow> kstate \<Rightarrow> kstate option) \<Rightarrow> sys \<Rightarrow> sys \<Rightarrow> bool"
  for idle user where
  issue: "t = k_cur (sy_k S) \<Longrightarrow> t \<noteq> idle \<Longrightarrow> sy_pend S t = None \<Longrightarrow> may c S \<Longrightarrow>
     run_call c (sy_k S) = Some (r, y, s') \<Longrightarrow> sys_step idle user S (after_call t c r y s' S)"
| carry_on: "t = k_cur (sy_k S) \<Longrightarrow> sy_pend S t = Some (c, start) \<Longrightarrow> timely start (sy_k S) \<Longrightarrow>
     resume_call c t start (sy_k S) = Some (r, y, s') \<Longrightarrow>
     sys_step idle user S (after_call t (call_left c start (sy_k S)) r y s' S)"
| clock: "rt_tick_increase user (sy_k S) = Some s' \<Longrightarrow> sys_step idle user S (S\<lparr>sy_k := s'\<rparr>)"

inductive_cases sys_stepE: "sys_step idle user S S'"



section \<open>A call in the system\<close>

text \<open>What a call does to the data of its object.\<close>

fun effect :: "call \<Rightarrow> outcome \<Rightarrow> reply \<Rightarrow> kstate \<Rightarrow> kstate \<Rightarrow> bool" where
  "effect (SemRelease p) r y s s' \<longleftrightarrow> r \<noteq> Blocked"
| "effect (EventSend p evs) r y s s' \<longleftrightarrow> r \<noteq> Blocked"
| "effect Yield r y s s' \<longleftrightarrow> r \<noteq> Blocked"
| "effect (MutexRelease p) r y s s' \<longleftrightarrow> (\<exists>e. r = Returns e \<and> mutex_gave p e s s')"
| "effect (MbSend p v time) r y s s' \<longleftrightarrow>
     mb_data (k_mb s' p) = mb_data (k_mb s p) @ (if r = Returns RT_EOK then [v] else [])"
| "effect (MbRecv p time) r y s s' \<longleftrightarrow>
     mb_data (k_mb s p) = (case y of Mail x \<Rightarrow> [x] | _ \<Rightarrow> []) @ mb_data (k_mb s' p)"
| "effect (MqSend p buf sz time) r y s s' \<longleftrightarrow> mq_msg_size (k_mq s' p) = mq_msg_size (k_mq s p) \<and>
     (r = Blocked \<longrightarrow> sz \<le> ucast (mq_msg_size (k_mq s p)))"
| "effect (MqUrgent p buf sz) r y s s' \<longleftrightarrow> mq_msg_size (k_mq s' p) = mq_msg_size (k_mq s p) \<and> r \<noteq> Blocked"
| "effect (MqRecv p sz time) r y s s' \<longleftrightarrow> mq_msg_size (k_mq s' p) = mq_msg_size (k_mq s p)"
| "effect (MpAlloc p time) r y s s' \<longleftrightarrow>
     (case y of
        Block b \<Rightarrow> b \<notin> mp_held (k_mp s p) \<and> mp_held (k_mp s' p) = insert b (mp_held (k_mp s p))
      | _ \<Rightarrow> mp_held (k_mp s' p) = mp_held (k_mp s p))"
| "effect (MpFree p b) r y s s' \<longleftrightarrow> mp_held (k_mp s' p) = mp_held (k_mp s p) - {b} \<and> r \<noteq> Blocked"
| "effect _ r y s s' \<longleftrightarrow> True"

lemma run_call_settles:
  assumes c: "at_call idle s" and p: "proper c s"
    and m: "\<And>p time. c = MutexTake p time \<Longrightarrow> mtx_hold (k_mutex s p) \<noteq> 255"
    and b: "\<And>p b. c = MpFree p b \<Longrightarrow> b \<in> mp_held (k_mp s p)"
  shows "\<exists>r y s'. run_call c s = Some (r, y, s') \<and> settles idle (call_obj c) s s' \<and> effect c r y s s' \<and>
     (\<forall>p time. c = MutexTake p time \<longrightarrow> mutex_took p r s s') \<and>
     (r = Blocked \<longrightarrow> call_obj c \<noteq> RT_NULL \<longrightarrow> not_lost (call_obj c) (k_cur s) s')"
proof (cases c)
  case (SemTake p time)
  then show ?thesis using sem_take_call [OF c, of p time] p by (auto simp: waitable_def)
next
  case (SemRelease p)
  then show ?thesis using sem_release_call [OF c, of p] p by auto
next
  case (MutexTake p time)
  then show ?thesis using mutex_take_call [OF c, of p time] p m by (auto simp: waitable_def)
next
  case (MutexRelease p)
  then show ?thesis using mutex_release_call [OF c, of p] p by auto
next
  case (EventRecv p want opt time)
  then show ?thesis using event_recv_call [OF c, of p want opt time] p by (auto simp: waitable_def)
next
  case (EventSend p evs)
  then show ?thesis using event_send_call [OF c, of p evs] p by auto
next
  case (MbSend p v time)
  then show ?thesis using mb_send_call [OF c, of p time v] p by (auto simp: waitable_def)
next
  case (MbRecv p time)
  then obtain r v s' where s': "rt_mb_recv p time s = Some (r, v, s')" "settles idle p s s'" "r = Blocked \<longrightarrow> not_lost p (k_cur s) s'"
    "mb_data (k_mb s p) = (case v of None \<Rightarrow> [] | Some x \<Rightarrow> [x]) @ mb_data (k_mb s' p)"
    using mb_recv_call [OF c, of p time] p by (auto simp: waitable_def)
  then show ?thesis using MbRecv by (cases v) auto
next
  case (MqSend p buf sz time)
  then show ?thesis using mq_send_call [OF c, of p sz buf time] p by (auto simp: waitable_def)
next
  case (MqUrgent p buf sz)
  then show ?thesis using mq_urgent_call [OF c, of p sz buf] p by auto
next
  case (MqRecv p sz time)
  then show ?thesis using mq_recv_call [OF c, of p sz time] p by (auto simp: waitable_def)
next
  case (MpAlloc p time)
  then have p0: "p \<noteq> RT_NULL" "is_class Class_MemPool p s" using p by (auto simp: is_class_def)
  obtain r s' where s': "mp_alloc_loop p (k_cur s) time s = Some (r, s')" "settles idle p s s'" "r = MpWaits \<longrightarrow> not_lost p (k_cur s) s'"
    "case r of
        MpReturns (Some b) \<Rightarrow> b \<notin> mp_held (k_mp s p) \<and> mp_held (k_mp s' p) = insert b (mp_held (k_mp s p))
      | _ \<Rightarrow> mp_held (k_mp s' p) = mp_held (k_mp s p)"
    using mp_alloc_loop_call [OF c p0(2), of time] p MpAlloc by auto
  then show ?thesis
    using MpAlloc p0(1) by (auto simp: rt_mp_alloc_def rt_thread_self_def split: mp_result.splits option.splits)
next
  case (MpFree p b)
  then show ?thesis using mp_free_call [OF c, of p b] p b by auto
next
  case (Sleep tick)
  then show ?thesis using sleep_call [OF c, of tick] p by auto
next
  case Yield
  then show ?thesis using yield_call [OF c] by auto
qed

text \<open>A call under way: one that can wait, and when it sends a message, one that fits.\<close>

fun underway :: "call \<Rightarrow> kstate \<Rightarrow> bool" where
  "underway (SemRelease p) s \<longleftrightarrow> False"
| "underway (MutexRelease p) s \<longleftrightarrow> False"
| "underway (EventSend p evs) s \<longleftrightarrow> False"
| "underway (MqUrgent p buf sz) s \<longleftrightarrow> False"
| "underway (MpFree p b) s \<longleftrightarrow> False"
| "underway Yield s \<longleftrightarrow> False"
| "underway (MqSend p buf sz time) s \<longleftrightarrow> proper (MqSend p buf sz time) s \<and> sz \<le> ucast (mq_msg_size (k_mq s p))"
| "underway c s \<longleftrightarrow> proper c s"

lemma plus_half:
  fixes d :: u32
  assumes "uint d < 2147483648"
  shows "uint (0x7fffffff + d) = 2147483647 + uint d"
  using assms uint_ge_0 [of d] by (simp add: uint_word_ariths)

lemma timeout_left_ok:
  assumes "timely start s" and "time \<noteq> TICK_HALF"
  shows "timeout_left time start s \<noteq> TICK_HALF"
proof (cases "0 < sint time")
  case True
  let ?d = "k_tick s - start"
  have d: "0 \<le> uint ?d" "uint ?d < 2147483648" using assms(1) by (auto simp: timely_def word_less_def)
  have u: "uint time = sint time" "uint time < 2147483648"
    using True uint_of_sint32 [of time] sint_lt [of time] by simp_all
  have "time - ?d \<noteq> TICK_HALF"
  proof
    assume "time - ?d = TICK_HALF"
    then have e: "time = TICK_HALF + ?d" by (simp add: algebra_simps)
    have "uint time = 2147483647 + uint ?d" using e plus_half [OF d(2)] by (simp add: TICK_HALF_def)
    then have "uint time = 2147483647" using u(2) d(1) by linarith
    then have "uint time = uint (0x7fffffff :: u32)" by simp
    then have "time = 0x7fffffff" by (simp only: word_uint_eq_iff)
    then show False using assms(2) by (simp add: TICK_HALF_def)
  qed
  then show ?thesis using True by (simp add: timeout_left_def Let_def TICK_HALF_def)
next
  case False
  then show ?thesis using assms(2) by (simp add: timeout_left_def)
qed

lemma proper_left:
  assumes "timely start s" and "proper c s"
  shows "proper (call_left c start s) s"
  using assms timeout_left_ok [OF assms(1)] by (cases c) auto

lemma underway_left:
  assumes "timely start s" and "underway c s"
  shows "underway (call_left c start s) s"
  using assms timeout_left_ok [OF assms(1)] by (cases c) auto

lemma resume_call_settles:
  assumes c: "at_call idle s" and u: "underway c s" and tm: "timely start s"
    and e: "t_error (k_thr s (k_cur s)) \<noteq> - RT_EINTR"
  shows "\<exists>r y s'. resume_call c (k_cur s) start s = Some (r, y, s') \<and> settles idle (call_obj c) s s' \<and> effect c r y s s' \<and>
     (\<forall>p time. c = MutexTake p time \<longrightarrow> r = Returns (t_error (k_thr s (k_cur s))) \<and> s' = s) \<and>
     (r = Blocked \<longrightarrow> call_obj c \<noteq> RT_NULL \<longrightarrow> not_lost (call_obj c) (k_cur s) s')"
proof (cases c)
  case (SemTake p time)
  then show ?thesis using settles_refl [OF c] by (simp add: rt_sem_take_resume_def)
next
  case (MutexTake p time)
  then show ?thesis using settles_refl [OF c] e by (simp add: rt_mutex_take_resume_def)
next
  case (EventRecv p want opt time)
  then show ?thesis using settles_refl [OF c] by (simp add: rt_event_recv_resume_def)
next
  case (MbSend p v time)
  then have "timeout_left time start s \<noteq> TICK_HALF" using u timeout_left_ok [OF tm] by simp
  then show ?thesis
    using MbSend mb_send_loop_call [OF c, of p "timeout_left time start s" v] u settles_refl [OF c, of p]
    by (auto simp: rt_mb_send_resume_def waitable_def)
next
  case (MbRecv p time)
  then have t: "timeout_left time start s \<noteq> TICK_HALF" using u timeout_left_ok [OF tm] by simp
  then obtain r v s' where s': "mb_recv_loop p (k_cur s) (timeout_left time start s) s = Some (r, v, s')" "settles idle p s s'" "r = Blocked \<longrightarrow> not_lost p (k_cur s) s'"
    "mb_data (k_mb s p) = (case v of None \<Rightarrow> [] | Some x \<Rightarrow> [x]) @ mb_data (k_mb s' p)"
    using mb_recv_loop_call [OF c, of p "timeout_left time start s"] u MbRecv by (auto simp: waitable_def)
  then show ?thesis
    using MbRecv settles_refl [OF c, of p] by (cases v) (auto simp: rt_mb_recv_resume_def)
next
  case (MqSend p buf sz time)
  then have "timeout_left time start s \<noteq> TICK_HALF" using u timeout_left_ok [OF tm] by simp
  then show ?thesis
    using MqSend mq_send_loop_call [OF c, of p sz buf "timeout_left time start s"] u settles_refl [OF c, of p]
    by (auto simp: rt_mq_send_resume_def waitable_def)
next
  case (MqRecv p sz time)
  then have "timeout_left time start s \<noteq> TICK_HALF" using u timeout_left_ok [OF tm] by simp
  then show ?thesis
    using MqRecv mq_recv_loop_call [OF c, of p sz "timeout_left time start s"] u settles_refl [OF c, of p]
    by (auto simp: rt_mq_recv_resume_def waitable_def)
next
  case (MpAlloc p time)
  then have t: "timeout_left time start s \<noteq> TICK_HALF" and p: "is_class Class_MemPool p s"
    using u timeout_left_ok [OF tm] by simp_all
  obtain r s' where s': "mp_alloc_loop p (k_cur s) (timeout_left time start s) s = Some (r, s')" "settles idle p s s'" "r = MpWaits \<longrightarrow> not_lost p (k_cur s) s'"
    "case r of
        MpReturns (Some b) \<Rightarrow> b \<notin> mp_held (k_mp s p) \<and> mp_held (k_mp s' p) = insert b (mp_held (k_mp s p))
      | _ \<Rightarrow> mp_held (k_mp s' p) = mp_held (k_mp s p)"
    using mp_alloc_loop_call [OF c p t] by blast
  then show ?thesis
    using MpAlloc settles_refl [OF c, of p]
    by (auto simp: rt_mp_alloc_resume_def split: mp_result.splits option.splits)
next
  case (Sleep tick)
  then show ?thesis
    using settles_refl [OF c] settles_error [OF c, of RT_EOK RT_NULL] by (simp add: rt_thread_sleep_resume_def)
qed (use u in simp_all)


section \<open>The invariant of the system\<close>

definition taking :: "sys \<Rightarrow> ptr \<Rightarrow> ptr \<Rightarrow> bool" where
  "taking S p t \<longleftrightarrow> (\<exists>time start. sy_pend S t = Some (MutexTake p time, start))"

definition kernel_ok :: "ptr \<Rightarrow> kstate \<Rightarrow> bool" where
  "kernel_ok idle s \<longleftrightarrow> healthy idle s \<and> objs_ok s \<and> k_irq s = 0 \<and> (\<forall>p. Obj p \<notin> set (k_tlist s)) \<and>
     (\<forall>t. t_error (k_thr s t) \<noteq> - RT_EINTR)"

definition mutexes_ok :: "sys \<Rightarrow> bool" where
  "mutexes_ok S \<longleftrightarrow> (\<forall>p. is_class Class_Mutex p (sy_k S) \<longrightarrow> mutex_view (taking S p) (sy_holds S p) p (sy_k S))"

definition mails_ok :: "sys \<Rightarrow> bool" where
  "mails_ok S \<longleftrightarrow> (\<forall>p. is_class Class_MailBox p (sy_k S) \<longrightarrow> sy_sent S p = sy_rcvd S p @ mb_data (k_mb (sy_k S) p))"

definition blocks_ok :: "sys \<Rightarrow> bool" where
  "blocks_ok S \<longleftrightarrow> (\<forall>p. is_class Class_MemPool p (sy_k S) \<longrightarrow>
     distinct (sy_lent S p) \<and> set (sy_lent S p) = mp_held (k_mp (sy_k S) p))"

definition sys_ok :: "ptr \<Rightarrow> sys \<Rightarrow> bool" where
  "sys_ok idle S \<longleftrightarrow> kernel_ok idle (sy_k S) \<and>
     (\<forall>t c start. sy_pend S t = Some (c, start) \<longrightarrow> t \<noteq> idle \<and> underway c (sy_k S) \<and>
        (call_obj c \<noteq> RT_NULL \<longrightarrow> not_lost (call_obj c) t (sy_k S))) \<and>
     mutexes_ok S \<and> mails_ok S \<and> blocks_ok S"

lemma kernel_okD:
  assumes "kernel_ok idle s"
  shows "healthy idle s" and "objs_ok s" and "k_irq s = 0" and "Obj p \<notin> set (k_tlist s)"
    and "t_error (k_thr s t) \<noteq> - RT_EINTR"
  using assms unfolding kernel_ok_def by blast+

lemma sys_okD:
  assumes "sys_ok idle S"
  shows "kernel_ok idle (sy_k S)" and "sy_pend S t = Some (c, start) \<Longrightarrow> t \<noteq> idle"
    and "sy_pend S t = Some (c, start) \<Longrightarrow> underway c (sy_k S)"
    and "mutexes_ok S" and "mails_ok S" and "blocks_ok S"
    and "sy_pend S t = Some (c, start) \<Longrightarrow> call_obj c \<noteq> RT_NULL \<Longrightarrow> not_lost (call_obj c) t (sy_k S)"
  using assms unfolding sys_ok_def by blast+

lemma kernel_at_call: "kernel_ok idle s \<Longrightarrow> k_cur s \<noteq> idle \<Longrightarrow> at_call idle s"
  by (simp add: kernel_ok_def at_call_def)

text \<open>The kernel after a call and after a tick.\<close>

lemma settles_kernel_ok:
  assumes k: "kernel_ok idle s" and st: "settles idle p s s'"
  shows "kernel_ok idle s'"
proof -
  note d = touchesD [OF settlesD(3) [OF st]]
  have "t_error (k_thr s' t) \<noteq> - RT_EINTR" for t
    using d(16) [of t] kernel_okD(5) [OF k, of t] by auto
  then show ?thesis using settlesD(1,2) [OF st] kernel_okD(3,4) [OF k] d(3,4) by (simp add: kernel_ok_def)
qed

lemma expires_kernel_ok:
  assumes k: "kernel_ok idle s" and e: "expires s s'" and h: "healthy idle s'"
  shows "kernel_ok idle s'"
proof -
  note f = ipc_frameD [OF expiresD(1) [OF e]]
  have "t_error (k_thr s' t) \<noteq> - RT_EINTR" for t
    using expiresD(5) [OF e, of t] kernel_okD(5) [OF k, of t] by auto
  then show ?thesis
    using h expires_objs_ok [OF kernel_okD(2) [OF k] e] kernel_okD(3,4) [OF k] f by (simp add: kernel_ok_def)
qed

text \<open>The calls under way do not depend on anything a step changes.\<close>

lemma underway_proper: "underway c s \<Longrightarrow> proper c s"
  by (cases c) auto

lemma underway_cong:
  assumes "\<And>k x. is_class k x s' = is_class k x s" and "\<And>x. ipc_flag x s' = ipc_flag x s"
    and "\<And>x. is_class Class_MessageQueue x s \<Longrightarrow> mq_msg_size (k_mq s' x) = mq_msg_size (k_mq s x)"
  shows "underway c s' = underway c s"
  using assms(3) by (cases c) (auto simp: assms(1,2) waitable_def)

text \<open>A thread that waits for an object or can run keeps doing so while others work.\<close>

lemma settles_not_lost:
  assumes h: "healthy idle s" and st: "settles idle c s s'" and u: "u \<noteq> k_cur s" and nl: "not_lost p u s"
  shows "not_lost p u s'"
proof (cases "p = c")
  case True
  then show ?thesis using touchesD(17) [OF settlesD(3) [OF st] u] nl by simp
next
  case False
  note d = touchesD [OF settlesD(3) [OF st]]
  have "runs u s'" if "runs u s"
  proof -
    have "u \<notin> set (k_q s (Susp c))" "u \<notin> set (k_q s (Sender c))"
      using that waiting_not_runs [OF h waiting_simps(1)] waiting_not_runs [OF h waiting_simps(2)] by blast+
    then show ?thesis using d(15) [OF u] that by simp
  qed
  then show ?thesis using nl d(11,12) [OF False] by (auto simp: not_lost_def)
qed

lemma expires_not_lost:
  assumes "expires s s'" and "not_lost p u s"
  shows "not_lost p u s'"
  using expiresD(3,4) [OF assms(1)] assms(2) unfolding not_lost_def by (meson waiting_simps)

text \<open>A call whose object is of a given class is one of the calls of the class.\<close>

lemma proper_mutex:
  "proper c s \<Longrightarrow> is_class Class_Mutex (call_obj c) s \<Longrightarrow>
     (\<exists>time. c = MutexTake (call_obj c) time) \<or> c = MutexRelease (call_obj c)"
  by (cases c) (auto dest: class_unique simp: is_class_def)

lemma proper_mailbox:
  "proper c s \<Longrightarrow> is_class Class_MailBox (call_obj c) s \<Longrightarrow>
     (\<exists>v time. c = MbSend (call_obj c) v time) \<or> (\<exists>time. c = MbRecv (call_obj c) time)"
  by (cases c) (auto dest: class_unique simp: is_class_def)

lemma proper_queue:
  "proper c s \<Longrightarrow> is_class Class_MessageQueue (call_obj c) s \<Longrightarrow> effect c r y s s' \<Longrightarrow>
     mq_msg_size (k_mq s' (call_obj c)) = mq_msg_size (k_mq s (call_obj c))"
  by (cases c) (auto dest: class_unique simp: is_class_def)

lemma proper_pool:
  "proper c s \<Longrightarrow> is_class Class_MemPool (call_obj c) s \<Longrightarrow>
     (\<exists>time. c = MpAlloc (call_obj c) time) \<or> (\<exists>b. c = MpFree (call_obj c) b)"
  by (cases c) (auto dest: class_unique simp: is_class_def)


section \<open>Every step keeps the invariant\<close>

text \<open>The ledgers of the objects a call is not about.\<close>

lemma after_call_fields [simp]:
  "sy_k (after_call t c r y s' S) = s'"
  "sy_pend (after_call t c r y s' S) = (sy_pend S)(t := if r = Blocked then Some (c, k_tick (sy_k S)) else None)"
  "p \<noteq> call_obj c \<Longrightarrow> sy_holds (after_call t c r y s' S) p = sy_holds S p"
  "p \<noteq> call_obj c \<Longrightarrow> sy_sent (after_call t c r y s' S) p = sy_sent S p"
  "p \<noteq> call_obj c \<Longrightarrow> sy_rcvd (after_call t c r y s' S) p = sy_rcvd S p"
  "p \<noteq> call_obj c \<Longrightarrow> sy_lent (after_call t c r y s' S) p = sy_lent S p"
proof -
  show "sy_k (after_call t c r y s' S) = s'"
    "sy_pend (after_call t c r y s' S) = (sy_pend S)(t := if r = Blocked then Some (c, k_tick (sy_k S)) else None)"
    by (cases c; cases r; cases y; simp add: after_call_def)+
  assume "p \<noteq> call_obj c"
  then show "sy_holds (after_call t c r y s' S) p = sy_holds S p" "sy_sent (after_call t c r y s' S) p = sy_sent S p"
    "sy_rcvd (after_call t c r y s' S) p = sy_rcvd S p" "sy_lent (after_call t c r y s' S) p = sy_lent S p"
    by (cases c; cases r; cases y; simp add: after_call_def)+
qed

lemma call_left_obj [simp]: "call_obj (call_left c start s) = call_obj c"
  by (cases c) simp_all

text \<open>A call that \<open>settles\<close> and has the \<open>effect\<close> of its kind keeps the invariant, when the view of the
  mutexes is kept.\<close>

lemma mails_after:
  assumes ok: "mails_ok S" and p: "proper c (sy_k S)" and st: "settles idle (call_obj c) (sy_k S) s'"
    and ef: "effect c r y (sy_k S) s'"
  shows "mails_ok (after_call t c r y s' S)"
  unfolding mails_ok_def
proof (intro allI impI)
  fix q
  note d = touchesD [OF settlesD(3) [OF st]] and cl = touches_class [OF settlesD(3) [OF st]]
  let ?S = "after_call t c r y s' S"
  assume "is_class Class_MailBox q (sy_k ?S)"
  then have q: "is_class Class_MailBox q (sy_k S)" using cl by simp
  then have old: "sy_sent S q = sy_rcvd S q @ mb_data (k_mb (sy_k S) q)" using ok by (simp add: mails_ok_def)
  show "sy_sent ?S q = sy_rcvd ?S q @ mb_data (k_mb (sy_k ?S) q)"
  proof (cases "q = call_obj c")
    case False
    then show ?thesis using old d(8) [OF False] by simp
  next
    case True
    then consider v time where "c = MbSend q v time" | time where "c = MbRecv q time"
      using proper_mailbox [OF p] q by blast
    then show ?thesis
    proof cases
      case 1
      then show ?thesis using old ef by (cases r) (auto simp: after_call_def)
    next
      case 2
      then show ?thesis using old ef by (cases r; cases y) (auto simp: after_call_def)
    qed
  qed
qed

lemma blocks_after:
  assumes ok: "blocks_ok S" and p: "proper c (sy_k S)" and st: "settles idle (call_obj c) (sy_k S) s'"
    and ef: "effect c r y (sy_k S) s'"
  shows "blocks_ok (after_call t c r y s' S)"
  unfolding blocks_ok_def
proof (intro allI impI)
  fix q
  note d = touchesD [OF settlesD(3) [OF st]] and cl = touches_class [OF settlesD(3) [OF st]]
  let ?S = "after_call t c r y s' S"
  assume "is_class Class_MemPool q (sy_k ?S)"
  then have q: "is_class Class_MemPool q (sy_k S)" using cl by simp
  then have old: "distinct (sy_lent S q)" "set (sy_lent S q) = mp_held (k_mp (sy_k S) q)"
    using ok by (simp_all add: blocks_ok_def)
  show "distinct (sy_lent ?S q) \<and> set (sy_lent ?S q) = mp_held (k_mp (sy_k ?S) q)"
  proof (cases "q = call_obj c")
    case False
    then show ?thesis using old d(10) [OF False] by simp
  next
    case True
    then consider time where "c = MpAlloc q time" | b where "c = MpFree q b"
      using proper_pool [OF p] q by blast
    then show ?thesis
    proof cases
      case 1
      then show ?thesis using old ef by (cases r; cases y) (auto simp: after_call_def)
    next
      case 2
      then show ?thesis using old ef by (cases r) (auto simp: after_call_def)
    qed
  qed
qed

lemma sys_ok_after:
  assumes ok: "sys_ok idle S" and p: "proper c (sy_k S)" and st: "settles idle (call_obj c) (sy_k S) s'"
    and ef: "effect c r y (sy_k S) s'" and t: "t \<noteq> idle" and u: "r = Blocked \<Longrightarrow> underway c s'" and cur: "t = k_cur (sy_k S)"
    and nl: "r = Blocked \<Longrightarrow> call_obj c \<noteq> RT_NULL \<Longrightarrow> not_lost (call_obj c) t s'"
    and mx: "mutexes_ok (after_call t c r y s' S)"
  shows "sys_ok idle (after_call t c r y s' S)"
proof -
  note o = sys_okD [OF ok] and d = touchesD [OF settlesD(3) [OF st]]
  note cl = touches_class [OF settlesD(3) [OF st]] and fl = touches_flag [OF settlesD(3) [OF st]]
  let ?S = "after_call t c r y s' S"
  have "mq_msg_size (k_mq s' x) = mq_msg_size (k_mq (sy_k S) x)" if "is_class Class_MessageQueue x (sy_k S)" for x
    using proper_queue [OF p _ ef] d(9) [of x] that by (cases "x = call_obj c") auto
  note uc = underway_cong [OF cl fl this]
  have "t' \<noteq> idle \<and> underway c' (sy_k ?S)" if "sy_pend ?S t' = Some (c', start)" for t' c' start
    using that o(2,3) [of t' c' start] t u uc [of c'] by (auto split: if_splits)
  moreover have "not_lost (call_obj c') t' (sy_k ?S)"
    if "sy_pend ?S t' = Some (c', start)" "call_obj c' \<noteq> RT_NULL" for t' c' start
    using that o(7) [of t' c' start] nl settles_not_lost [OF kernel_okD(1) [OF o(1)] st, of t'] cur
    by (auto split: if_splits)
  ultimately show ?thesis
    using settles_kernel_ok [OF o(1) st] mails_after [OF o(5) p st ef] blocks_after [OF o(6) p st ef] mx
    unfolding sys_ok_def by auto
qed


text \<open>A call about another object keeps the view of a mutex.\<close>

lemma mutexes_after:
  assumes ok: "sys_ok idle S" and p: "proper c (sy_k S)" and st: "settles idle (call_obj c) (sy_k S) s'"
    and t: "t = k_cur (sy_k S)"
    and nt: "\<And>q. is_class Class_Mutex q (sy_k S) \<Longrightarrow> q \<noteq> call_obj c \<Longrightarrow> \<not> taking S q t"
    and own: "is_class Class_Mutex (call_obj c) (sy_k S) \<Longrightarrow>
      mutex_view (taking (after_call t c r y s' S) (call_obj c)) (sy_holds (after_call t c r y s' S) (call_obj c)) (call_obj c) s'"
  shows "mutexes_ok (after_call t c r y s' S)"
  unfolding mutexes_ok_def
proof (intro allI impI)
  fix q
  note o = sys_okD [OF ok] and cl = touches_class [OF settlesD(3) [OF st]]
  let ?S = "after_call t c r y s' S"
  assume "is_class Class_Mutex q (sy_k ?S)"
  then have q: "is_class Class_Mutex q (sy_k S)" using cl by simp
  show "mutex_view (taking ?S q) (sy_holds ?S q) q (sy_k ?S)"
  proof (cases "q = call_obj c")
    case True
    then show ?thesis using own q by simp
  next
    case False
    have "call_obj (MutexTake q time) = q" for time by simp
    then have "c \<noteq> MutexTake q time" for time using False by metis
    then have "taking ?S q = taking S q" using nt [OF q False] by (auto simp: taking_def fun_eq_iff)
    moreover have "mutex_view (taking S q) (sy_holds S q) q s'"
      using view_other [OF _ kernel_okD(1) [OF o(1)] settlesD(3) [OF st] False] o(4) q nt [OF q False] t
      by (simp add: mutexes_ok_def)
    ultimately show ?thesis using False by simp
  qed
qed

lemma issue_ok:
  assumes ok: "sys_ok idle S" and t: "t = k_cur (sy_k S)" "t \<noteq> idle" "sy_pend S t = None" and m: "may c S"
  shows "\<exists>r y s'. run_call c (sy_k S) = Some (r, y, s') \<and> sys_ok idle (after_call t c r y s' S)"
proof -
  note o = sys_okD [OF ok]
  let ?s = "sy_k S"
  have c: "at_call idle ?s" using kernel_at_call [OF o(1)] t by simp
  have p: "proper c ?s" using m by (cases c) auto
  have b: "b \<in> mp_held (k_mp ?s q)" if "c = MpFree q b" for q b
    using that m o(6) by (auto simp: blocks_ok_def)
  have h: "mtx_hold (k_mutex ?s q) \<noteq> 255" if "c = MutexTake q time" for q time using that m by simp
  obtain r y s' where s': "run_call c ?s = Some (r, y, s')" "settles idle (call_obj c) ?s s'" "effect c r y ?s s'"
    "\<forall>q time. c = MutexTake q time \<longrightarrow> mutex_took q r ?s s'"
    "r = Blocked \<longrightarrow> call_obj c \<noteq> RT_NULL \<longrightarrow> not_lost (call_obj c) (k_cur ?s) s'"
    using run_call_settles [OF c p] h b by metis
  let ?S = "after_call t c r y s' S"
  note cl = touches_class [OF settlesD(3) [OF s'(2)]] and fl = touches_flag [OF settlesD(3) [OF s'(2)]]
  have nt: "\<not> taking S q t" for q using t(3) by (simp add: taking_def)
  have old: "mutex_view (taking S q) (sy_holds S q) q ?s" if "is_class Class_Mutex q ?s" for q
    using o(4) that by (simp add: mutexes_ok_def)
  have own: "mutex_view (taking ?S q) (sy_holds ?S q) q s'" if q: "q = call_obj c" "is_class Class_Mutex q ?s" for q
  proof -
    have inv: "mutex_inv1 q ?s" using objs_okD(2) [OF kernel_okD(2) [OF o(1)]] q(2) by (simp add: mutex_ok_def)
    consider time where "c = MutexTake q time" | "c = MutexRelease q" using proper_mutex [OF p] q by blast
    then show ?thesis
    proof cases
      case 1
      have tk: "taking ?S q = (taking S q)(t := r = Blocked)" using 1 nt by (auto simp: taking_def fun_eq_iff)
      have ho: "sy_holds ?S q = (sy_holds S q)(t := if r = Returns RT_EOK then sy_holds S q t + 1 else sy_holds S q t)"
        using 1 by (cases r) (auto simp: after_call_def)
      have "mutex_took q r ?s s'" using s'(4) 1 by blast
      then show ?thesis
        unfolding tk ho unfolding t(1)
        using view_took [OF old [OF q(2)] kernel_okD(1) [OF o(1)]] nt inv t(1) by blast
    next
      case 2
      then obtain e where e: "r = Returns e" "mutex_gave q e ?s s'" using s'(3) by auto
      have tk: "taking ?S q = taking S q" using 2 e(1) t(3) by (auto simp: taking_def fun_eq_iff)
      have ho: "sy_holds ?S q = (sy_holds S q)(t := if e = RT_EOK then sy_holds S q t - 1 else sy_holds S q t)"
        using 2 e(1) by (auto simp: after_call_def)
      show ?thesis
        unfolding tk ho unfolding t(1)
        using view_gave [OF old [OF q(2)] kernel_okD(1) [OF o(1)] e(2)] nt [of q] t(1) by blast
    qed
  qed
  have "underway c s'" if "r = Blocked"
  proof -
    have "mq_msg_size (k_mq s' x) = mq_msg_size (k_mq ?s x)" if "is_class Class_MessageQueue x ?s" for x
      using proper_queue [OF p _ s'(3)] touchesD(9) [OF settlesD(3) [OF s'(2)], of x] that
      by (cases "x = call_obj c") auto
    moreover have "underway c ?s" using that p s'(3) by (cases c) auto
    ultimately show ?thesis using underway_cong [OF cl fl] by blast
  qed
  then have "sys_ok idle ?S"
    using sys_ok_after [OF ok p s'(2,3) t(2) _ t(1)] s'(5) t(1) mutexes_after [OF ok p s'(2) t(1) nt] own by blast
  then show ?thesis using s'(1) by blast
qed


lemma effect_left [simp]: "effect (call_left c start s0) r y s s' = effect c r y s s'"
  by (cases c) simp_all

lemma call_left_take [simp]: "call_left c start s = MutexTake p time \<longleftrightarrow> c = MutexTake p time"
  by (cases c) simp_all

lemma taking_left [simp]:
  "taking (after_call t (call_left c start s) r y s' S) q = taking (after_call t c r y s' S) q"
  by (auto simp: taking_def fun_eq_iff)

lemma carry_on_ok:
  assumes ok: "sys_ok idle S" and t: "t = k_cur (sy_k S)" and pd: "sy_pend S t = Some (c, start)"
    and tm: "timely start (sy_k S)"
  shows "\<exists>r y s'. resume_call c t start (sy_k S) = Some (r, y, s') \<and>
     sys_ok idle (after_call t (call_left c start (sy_k S)) r y s' S)"
proof -
  note o = sys_okD [OF ok]
  let ?s = "sy_k S" and ?c = "call_left c start (sy_k S)"
  have ti: "t \<noteq> idle" and u: "underway c ?s" using o(2,3) [OF pd] by blast+
  have c: "at_call idle ?s" using kernel_at_call [OF o(1)] t ti by simp
  have p: "proper ?c ?s" and ul: "underway ?c ?s"
    using proper_left [OF tm underway_proper [OF u]] underway_left [OF tm u] by blast+
  obtain r y s' where s': "resume_call c t start ?s = Some (r, y, s')" "settles idle (call_obj ?c) ?s s'" "effect ?c r y ?s s'"
    "\<forall>q time. c = MutexTake q time \<longrightarrow> r = Returns (t_error (k_thr ?s t)) \<and> s' = ?s"
    "r = Blocked \<longrightarrow> call_obj ?c \<noteq> RT_NULL \<longrightarrow> not_lost (call_obj ?c) t s'"
    using resume_call_settles [OF c u tm] kernel_okD(5) [OF o(1)] t by auto
  let ?S = "after_call t ?c r y s' S"
  note cl = touches_class [OF settlesD(3) [OF s'(2)]] and fl = touches_flag [OF settlesD(3) [OF s'(2)]]
  have nt: "\<not> taking S q t" if "is_class Class_Mutex q ?s" "q \<noteq> call_obj ?c" for q
    using that pd by (auto simp: taking_def)
  have own: "mutex_view (taking ?S q) (sy_holds ?S q) q s'" if q: "q = call_obj ?c" "is_class Class_Mutex q ?s" for q
  proof -
    have "c \<noteq> MutexRelease q" using u by auto
    then obtain time where ct: "c = MutexTake q time"
      using proper_mutex [OF underway_proper [OF u]] q by auto
    then have r: "r = Returns (t_error (k_thr ?s t))" "s' = ?s" using s'(4) by blast+
    have tk: "taking ?S q = (taking S q)(t := False)" using r(1) by (auto simp: taking_def fun_eq_iff)
    have ho: "sy_holds ?S q =
        (sy_holds S q)(t := if t_error (k_thr ?s t) = RT_EOK then sy_holds S q t + 1 else sy_holds S q t)"
      using ct r(1) by (auto simp: after_call_def)
    have "runs t ?s" "t \<noteq> RT_NULL" "t \<notin> set (k_q ?s (Susp q))"
      using healthyD(3,4) [OF at_callD(1) [OF c]] place_ok(1) [OF at_callD(1) [OF c], of "Susp q"] t
      by (simp_all add: runs_def)
    moreover have "taking S q t" "mutex_view (taking S q) (sy_holds S q) q ?s"
      using pd ct o(4) q(2) by (auto simp: taking_def mutexes_ok_def)
    ultimately show ?thesis
      unfolding tk ho unfolding r(2) t by (intro view_resume)
  qed
  have "mq_msg_size (k_mq s' x) = mq_msg_size (k_mq ?s x)" if "is_class Class_MessageQueue x ?s" for x
    using proper_queue [OF p _ s'(3)] touchesD(9) [OF settlesD(3) [OF s'(2)], of x] that
    by (cases "x = call_obj ?c") auto
  then have "underway ?c s'" using ul underway_cong [OF cl fl] by blast
  then have "sys_ok idle ?S"
    using sys_ok_after [OF ok p s'(2,3) ti _ t] s'(5) mutexes_after [OF ok p s'(2) t nt] own by blast
  then show ?thesis using s'(1) by blast
qed

lemma clock_ok:
  assumes ok: "sys_ok idle S" and q: "quiet user"
  shows "\<exists>s'. rt_tick_increase user (sy_k S) = Some s' \<and> sys_ok idle (S\<lparr>sy_k := s'\<rparr>)"
proof -
  note o = sys_okD [OF ok]
  obtain s' where s': "rt_tick_increase user (sy_k S) = Some s'" "healthy idle s'" "expires (sy_k S) s'"
    using tick_call [OF kernel_okD(1) [OF o(1)] _ q] kernel_okD(4) [OF o(1)] by blast
  note f = ipc_frameD [OF expiresD(1) [OF s'(3)]]
  have cl: "is_class k x s' = is_class k x (sy_k S)" for k x by (rule is_class_frame [OF expiresD(1) [OF s'(3)]])
  have fl: "ipc_flag x s' = ipc_flag x (sy_k S)" for x using f by (simp add: ipc_flag_def)
  have "underway c s' = underway c (sy_k S)" for c by (rule underway_cong [OF cl fl]) (simp add: f)
  moreover have "mutexes_ok (S\<lparr>sy_k := s'\<rparr>)"
    unfolding mutexes_ok_def
  proof (intro allI impI)
    fix p
    assume "is_class Class_Mutex p (sy_k (S\<lparr>sy_k := s'\<rparr>))"
    then have v: "mutex_view (taking S p) (sy_holds S p) p (sy_k S)" using o(4) cl by (simp add: mutexes_ok_def)
    have "taking (S\<lparr>sy_k := s'\<rparr>) p = taking S p" by (simp add: taking_def fun_eq_iff)
    then show "mutex_view (taking (S\<lparr>sy_k := s'\<rparr>) p) (sy_holds (S\<lparr>sy_k := s'\<rparr>) p) p (sy_k (S\<lparr>sy_k := s'\<rparr>))"
      using view_tick [OF v s'(3,2)] by simp
  qed
  moreover have "mails_ok (S\<lparr>sy_k := s'\<rparr>)" "blocks_ok (S\<lparr>sy_k := s'\<rparr>)"
    using o(5,6) cl f by (simp_all add: mails_ok_def blocks_ok_def)
  ultimately show ?thesis
    using s'(1) o(2,3,7) expires_not_lost [OF s'(3)] expires_kernel_ok [OF o(1) s'(3,2)] by (auto simp: sys_ok_def)
qed

lemma sys_step_ok:
  assumes "sys_step idle user S S'" and "quiet user" and "sys_ok idle S"
  shows "sys_ok idle S'"
  using assms(1)
proof (cases rule: sys_step.cases)
  case (issue t c r y s')
  then show ?thesis using issue_ok [OF assms(3) issue(2-5)] by auto
next
  case (carry_on t c start r y s')
  then show ?thesis using carry_on_ok [OF assms(3) carry_on(2-4)] by auto
next
  case (clock s')
  then show ?thesis using clock_ok [OF assms(3,2)] by auto
qed


section \<open>Every reachable state\<close>

text \<open>A system at its start: no thread is in the middle of a call, the waiting lists are empty, no mutex is
  owned, no block is in use, and the senders of the mails are counted.\<close>

definition starts :: "ptr \<Rightarrow> sys \<Rightarrow> bool" where
  "starts idle S \<longleftrightarrow> kernel_ok idle (sy_k S) \<and> sy_pend S = (\<lambda>_. None) \<and>
     (\<forall>p. sy_holds S p = (\<lambda>_. 0) \<and> mtx_owner (k_mutex (sy_k S) p) = RT_NULL \<and> k_q (sy_k S) (Susp p) = []) \<and>
     (\<forall>p. sy_sent S p = mb_data (k_mb (sy_k S) p) \<and> sy_rcvd S p = []) \<and>
     (\<forall>p. sy_lent S p = [] \<and> mp_held (k_mp (sy_k S) p) = {})"

inductive reachable :: "ptr \<Rightarrow> (ptr \<Rightarrow> kstate \<Rightarrow> kstate option) \<Rightarrow> sys \<Rightarrow> bool" for idle user where
  start: "starts idle S \<Longrightarrow> reachable idle user S"
| step: "reachable idle user S \<Longrightarrow> sys_step idle user S S' \<Longrightarrow> reachable idle user S'"

lemma starts_ok: "starts idle S \<Longrightarrow> sys_ok idle S"
  by (simp add: starts_def sys_ok_def mutexes_ok_def mutex_view_def taking_def mails_ok_def blocks_ok_def)

lemma reachable_ok:
  assumes "reachable idle user S" and "quiet user"
  shows "sys_ok idle S"
  using assms(1) by induction (use sys_step_ok [OF _ assms(2)] in \<open>auto simp: starts_ok\<close>)

lemmas reachable_okD = sys_okD [OF reachable_ok]

text \<open>C1: No reachable state faults: the clock interrupt returns, the current thread can make every proper
  call, and a thread that was woken in the middle of a call can carry it on. No assertion of the
  modelled code fails and no list is left in a state the code does not expect.\<close>

theorem system_never_faults:
  assumes "reachable idle user S" and "quiet user"
  shows "rt_tick_increase user (sy_k S) \<noteq> None \<and>
    (\<forall>c. k_cur (sy_k S) \<noteq> idle \<longrightarrow> sy_pend S (k_cur (sy_k S)) = None \<longrightarrow> may c S \<longrightarrow> run_call c (sy_k S) \<noteq> None) \<and>
    (\<forall>d start. sy_pend S (k_cur (sy_k S)) = Some (d, start) \<longrightarrow> timely start (sy_k S) \<longrightarrow>
       resume_call d (k_cur (sy_k S)) start (sy_k S) \<noteq> None)"
proof (intro conjI allI impI)
  note ok = reachable_ok [OF assms]
  show "rt_tick_increase user (sy_k S) \<noteq> None" using clock_ok [OF ok assms(2)] by auto
  show "run_call c (sy_k S) \<noteq> None"
    if "k_cur (sy_k S) \<noteq> idle" "sy_pend S (k_cur (sy_k S)) = None" "may c S" for c
    using issue_ok [OF ok refl that] by auto
  show "resume_call d (k_cur (sy_k S)) start (sy_k S) \<noteq> None"
    if "sy_pend S (k_cur (sy_k S)) = Some (d, start)" "timely start (sy_k S)" for d start
    using carry_on_ok [OF ok refl that] by auto
qed

text \<open>C2: Mutual exclusion: in every run, a thread that has been told that it has a mutex is its owner, as
  often as the mutex counts, and no other thread has been told so.\<close>

theorem mutex_excludes:
  assumes "reachable idle user S" and "quiet user" and "is_class Class_Mutex p (sy_k S)" and "0 < sy_holds S p t"
  shows "mtx_owner (k_mutex (sy_k S) p) = t \<and> sy_holds S p t = unat (mtx_hold (k_mutex (sy_k S) p)) \<and>
    (\<forall>u. u \<noteq> t \<longrightarrow> sy_holds S p u = 0)"
proof -
  have "mutex_view (taking S p) (sy_holds S p) p (sy_k S)"
    using reachable_okD(4) [OF assms(1,2)] assms(3) by (simp add: mutexes_ok_def)
  note v = mutex_viewD [OF this]
  have o: "t \<noteq> RT_NULL" "mtx_owner (k_mutex (sy_k S) p) = t" using v(6) [of t] assms(4) by auto
  then show ?thesis using v(4,5) [of t] v(6) assms(4) by auto
qed

text \<open>C3: Mails are received exactly once and in the order in which they were sent: in every run the mails
  received followed by the ones in the mailbox are the mails sent.\<close>

theorem mailbox_exactly_once:
  assumes "reachable idle user S" and "quiet user" and "is_class Class_MailBox p (sy_k S)"
  shows "sy_sent S p = sy_rcvd S p @ mb_data (k_mb (sy_k S) p)"
  using reachable_okD(5) [OF assms(1,2)] assms(3) by (simp add: mails_ok_def)

text \<open>C6: No block of a memory pool is in the hands of two clients, whatever threads wait for blocks, time
  out or give them back; the blocks in use are the ones the pool knows as its own.\<close>

theorem pool_blocks_lent_once:
  assumes "reachable idle user S" and "quiet user" and "is_class Class_MemPool p (sy_k S)"
  shows "distinct (sy_lent S p) \<and>
    (\<forall>b \<in> set (sy_lent S p). b < length (mp_blocks (k_mp (sy_k S) p)) \<and> mp_blocks (k_mp (sy_k S) p) ! b = OwnedBy p)"
proof -
  note o = reachable_okD(1,6) [OF assms(1,2)]
  have "mp_wf p (k_mp (sy_k S) p)"
    using objs_okD(6) [OF kernel_okD(2) [OF o(1)]] assms(3) by (simp add: mp_ok_def)
  then show ?thesis using mp_held_owned o(2) assms(3) by (auto simp: blocks_ok_def)
qed

text \<open>C4: No thread is lost: in every run, a thread in the middle of a call on an object is in one of the
  waiting lists of the object, or it can run.\<close>

theorem no_thread_lost:
  assumes "reachable idle user S" and "quiet user" and "sy_pend S t = Some (c, start)" and "call_obj c \<noteq> RT_NULL"
  shows "t \<in> set (k_q (sy_k S) (Susp (call_obj c))) \<or> t \<in> set (k_q (sy_k S) (Sender (call_obj c))) \<or> runs t (sy_k S)"
  using reachable_okD(7) [OF assms] by (simp add: not_lost_def)

text \<open>C5: No wake-up is lost: in every run, no thread waits for a semaphore with a value, for an event whose
  flags are the ones it asks for, or for a mutex that is free or its own.\<close>

theorem no_wakeup_lost:
  assumes "reachable idle user S" and "quiet user" and "t \<in> set (k_q (sy_k S) (Susp p))"
  shows "(is_class Class_Semaphore p (sy_k S) \<longrightarrow> sem_val (sy_k S) p = 0) \<and>
    (is_class Class_Event p (sy_k S) \<longrightarrow>
      \<not> event_met (t_event_info (k_thr (sy_k S) t)) (t_event_set (k_thr (sy_k S) t)) (ev_set (k_event (sy_k S) p))) \<and>
    (is_class Class_Mutex p (sy_k S) \<longrightarrow>
      is_thread (mtx_owner (k_mutex (sy_k S) p)) (sy_k S) \<and> mtx_owner (k_mutex (sy_k S) p) \<noteq> t)"
proof (intro conjI impI)
  note o = objs_okD [OF kernel_okD(2) [OF reachable_okD(1) [OF assms(1,2)]]]
  show "sem_val (sy_k S) p = 0" if "is_class Class_Semaphore p (sy_k S)"
    using that o(1) assms(3) word_neq_0_conv unfolding sem_ok_def by (metis empty_iff list.set(1))
  show "\<not> event_met (t_event_info (k_thr (sy_k S) t)) (t_event_set (k_thr (sy_k S) t)) (ev_set (k_event (sy_k S) p))"
    if "is_class Class_Event p (sy_k S)"
    using that o(3) assms(3) by (simp add: event_ok_def)
  show "is_thread (mtx_owner (k_mutex (sy_k S) p)) (sy_k S)" "mtx_owner (k_mutex (sy_k S) p) \<noteq> t"
    if "is_class Class_Mutex p (sy_k S)"
    using that o(2) assms(3) by (auto simp: mutex_ok_def mutex_inv1_def Let_def split: if_splits)
qed

end
