(* ===== verification/RTT_Demo.thy ===== *)
theory RTT_Demo
  imports RTT_Mutex RTT_Event RTT_Mailbox RTT_MsgQueue RTT_MemPool
begin

text \<open>
  A concrete system the hypotheses of the properties are checked on: a table of threads is turned
  into a kernel state (\<open>system_of\<close>), with the queues and the priority bitmap that belong to it, and
  the lemmas reduce the system invariant to facts about the entries of the table.
\<close>

section \<open>From a table of threads to a kernel state\<close>

definition demo_thread :: "u8 \<Rightarrow> u8 \<Rightarrow> qid option \<Rightarrow> rt_thread" where
  "demo_thread prio stat q =
     \<lparr>t_tlist = q, t_error = RT_EOK, t_stat = stat, t_current_priority = prio, t_init_priority = prio,
      t_number_mask = prio_mask prio, t_event_set = 0, t_event_info = 0, t_init_tick = 10,
      t_remaining_tick = 1, t_cleanup = False\<rparr>"

definition threads_of :: "(ptr \<times> rt_thread) list \<Rightarrow> ptr \<Rightarrow> rt_thread" where
  "threads_of ths t = (case map_of ths t of Some th \<Rightarrow> th | None \<Rightarrow> demo_thread 0 RT_THREAD_INIT None)"

definition queues_of :: "(ptr \<times> rt_thread) list \<Rightarrow> qid \<Rightarrow> ptr list" where
  "queues_of ths q = map fst (filter (\<lambda>(t, th). t_tlist th = Some q) ths)"

fun group_of :: "(ptr \<times> rt_thread) list \<Rightarrow> u32" where
  "group_of [] = 0"
| "group_of ((t, th) # ths) =
     (if stat_of th = RT_THREAD_READY then prio_mask (t_current_priority th) OR group_of ths else group_of ths)"

text \<open>What the entries of a table have to satisfy; \<open>cur\<close> is the current thread.\<close>

definition entry_ok :: "ptr \<Rightarrow> ptr \<times> rt_thread \<Rightarrow> bool" where
  "entry_ok cur e \<longleftrightarrow> fst e \<noteq> RT_NULL \<and> prio_ok (snd e) \<and> node_ok (snd e) \<and>
     (stat_of (snd e) = RT_THREAD_RUNNING \<longrightarrow> fst e = cur)"

lemma demo_blank [simp]:
  "t_tlist (demo_thread p st q) = q" "t_current_priority (demo_thread p st q) = p"
  "t_error (demo_thread p st q) = RT_EOK" "t_remaining_tick (demo_thread p st q) = 1"
  "t_stat (demo_thread p st q) = st" "t_init_priority (demo_thread p st q) = p"
  "t_cleanup (demo_thread p st q) = False" "t_event_set (demo_thread p st q) = 0"
  "t_event_info (demo_thread p st q) = 0"
  by (simp_all add: demo_thread_def)

lemma stat_of_demo [simp]: "stat_of (demo_thread p st q) = st AND 7"
  by (simp add: stat_of_def RT_THREAD_STAT_MASK_def demo_thread_def)

lemma prio_ok_demo:
  "p < 32 \<Longrightarrow> prio_ok (demo_thread p st q)"
  "p < 32 \<Longrightarrow> prio_ok ((demo_thread p st q)\<lparr>t_event_set := e, t_event_info := i\<rparr>)"
  by (simp_all add: prio_ok_def) (simp_all add: demo_thread_def)

lemma system_links:
  assumes "distinct (map fst ths)" and "k_q s = queues_of ths" and "k_thr s = threads_of ths"
  shows "links_ok s"
proof -
  have "t \<in> set (queues_of ths q) \<longleftrightarrow> t_tlist (threads_of ths t) = Some q" for q t
  proof -
    have "t \<in> set (queues_of ths q) \<longleftrightarrow> (\<exists>th. (t, th) \<in> set ths \<and> t_tlist th = Some q)"
      by (force simp: queues_of_def)
    also have "\<dots> \<longleftrightarrow> (\<exists>th. map_of ths t = Some th \<and> t_tlist th = Some q)"
      using assms(1) by auto
    finally show ?thesis by (auto simp: threads_of_def split: option.splits)
  qed
  moreover have "distinct (queues_of ths q)" for q
    using assms(1) by (simp add: queues_of_def distinct_map_filter)
  ultimately show ?thesis using assms(2,3) by (simp add: links_ok_def)
qed

lemma bit_group_of:
  "n < 32 \<Longrightarrow> bit (group_of ths) n \<longleftrightarrow>
     (\<exists>e \<in> set ths. stat_of (snd e) = RT_THREAD_READY \<and> unat (t_current_priority (snd e)) = n)"
  by (induction ths rule: group_of.induct) (auto simp: bit_or_iff bit_prio_mask)

lemma system_kinv:
  assumes d: "distinct (map fst ths)" and ok: "list_all (entry_ok (k_cur s)) ths"
    and s: "k_q s = queues_of ths" "k_thr s = threads_of ths" "k_group s = group_of ths"
  shows "kinv s"
proof -
  have blank: "prio_ok (demo_thread 0 0 None)" "node_ok (demo_thread 0 0 None)"
    by (simp_all add: prio_ok_demo node_ok_stat)
  have cases: "k_thr s t = demo_thread 0 0 None \<or> entry_ok (k_cur s) (t, k_thr s t)" for t
  proof (cases "map_of ths t")
    case (Some th)
    then have "(t, th) \<in> set ths" by (rule map_of_SomeD)
    then show ?thesis using ok Some s(2) by (auto simp: threads_of_def list_all_iff)
  qed (simp add: s(2) threads_of_def)
  have "kinv_but {} s"
  proof (rule kinv_butI)
    show "links_ok s" by (rule system_links [OF d s(1,2)])
    have "k_q s (Ready n) \<noteq> [] \<longleftrightarrow>
        (\<exists>e \<in> set ths. stat_of (snd e) = RT_THREAD_READY \<and> unat (t_current_priority (snd e)) = n)" for n
    proof -
      have "t_tlist th = Some (Ready n) \<longleftrightarrow>
          stat_of th = RT_THREAD_READY \<and> unat (t_current_priority th) = n" if "(t, th) \<in> set ths" for t th
      proof -
        have "node_ok th" using ok that by (auto simp: list_all_iff entry_ok_def)
        then show ?thesis by (auto simp: node_ok_def split: if_splits)
      qed
      then show ?thesis
        unfolding s(1) queues_of_def by (auto simp: filter_empty_conv) force+
    qed
    then show "group_ok s" using s(3) bit_group_of by (simp add: group_ok_def)
    fix t
    show "prio_ok (k_thr s t)" "node_ok (k_thr s t)"
      using cases [of t] blank by (auto simp: entry_ok_def)
    show "t = k_cur s" if "stat_of (k_thr s t) = RT_THREAD_RUNNING"
      using cases [of t] that by (auto simp: entry_ok_def)
    show "stat_of (k_thr s RT_NULL) = RT_THREAD_INIT"
      using cases [of RT_NULL] by (auto simp: entry_ok_def)
  qed simp
  then show ?thesis by (simp add: kinv_def)
qed


section \<open>The system\<close>

text \<open>Thread 1 is the idle thread, 2 runs, 3 is ready at the same priority, 4 waits for the semaphore
  at 20 with a time limit, 5 is initialised only, 6 waits for the mutex at 31, 7 for both of the two lowest flags
  of the event at 41, 8 for a mail of the mailbox at 51, 9 to send to the full mailbox at 52, 10 for a
  message of the queue at 71. The message queues hold two messages of four bytes and are empty, the
  memory pool at 81 has one block, in use, the others have two free blocks. At 1000 is a heap object with
  its semaphore, which has the value 0. Thread 3 owns the mutex
  at 30, thread 2 the ones at 31 and, 255 times, at 32. The timer at 60 is the application's.\<close>

definition demo_threads :: "(ptr \<times> rt_thread) list" where
  "demo_threads =
     [(1, demo_thread 31 RT_THREAD_READY (Some (Ready 31))),
      (2, demo_thread 10 RT_THREAD_RUNNING None),
      (3, demo_thread 10 RT_THREAD_READY (Some (Ready 10))),
      (4, demo_thread 5 RT_THREAD_SUSPEND (Some (Susp 20))),
      (5, demo_thread 8 RT_THREAD_INIT None),
      (6, demo_thread 4 RT_THREAD_SUSPEND (Some (Susp 31))),
      (7, (demo_thread 6 RT_THREAD_SUSPEND (Some (Susp 41)))\<lparr>t_event_set := 3, t_event_info := 5\<rparr>),
      (8, demo_thread 7 RT_THREAD_SUSPEND (Some (Susp 51))),
      (9, demo_thread 9 RT_THREAD_SUSPEND (Some (Sender 52))),
      (10, demo_thread 3 RT_THREAD_SUSPEND (Some (Susp 71)))]"

definition demo_class :: "ptr \<Rightarrow> u8" where
  "demo_class p =
     (if 1 \<le> p \<and> p < 20 then Class_Thread else if 20 \<le> p \<and> p < 30 then Class_Semaphore
      else if 30 \<le> p \<and> p < 40 then Class_Mutex else if 40 \<le> p \<and> p < 50 then Class_Event
      else if 50 \<le> p \<and> p < 60 then Class_MailBox else if 60 \<le> p \<and> p < 70 then Class_Timer
      else if 70 \<le> p \<and> p < 80 then Class_MessageQueue else if 80 \<le> p \<and> p < 90 then Class_MemPool
      else if p = 1000 then Class_MemHeap else if p = 1076 then Class_Semaphore else 0)"

definition demo_objects :: "oref \<Rightarrow> rt_object" where
  "demo_objects x =
     (case x of
        Obj p \<Rightarrow> \<lparr>o_name = ''obj'', o_type = demo_class p OR Class_Static, o_flag = (if p = 60 then 3 else 0)\<rparr>
      | TimerOf t \<Rightarrow> \<lparr>o_name = ''timer'', o_type = Class_Timer OR Class_Static, o_flag = (if t = 4 then 1 else 0)\<rparr>)"

definition demo_mutex :: "ptr \<Rightarrow> rt_mutex" where
  "demo_mutex p =
     (if p = 30 then \<lparr>mtx_value = 0, mtx_original_priority = 10, mtx_hold = 1, mtx_owner = 3\<rparr>
      else if p = 31 then \<lparr>mtx_value = 0, mtx_original_priority = 12, mtx_hold = 1, mtx_owner = 2\<rparr>
      else if p = 32 then \<lparr>mtx_value = 0, mtx_original_priority = 10, mtx_hold = 255, mtx_owner = 2\<rparr>
      else \<lparr>mtx_value = 1, mtx_original_priority = 0xff, mtx_hold = 0, mtx_owner = RT_NULL\<rparr>)"

definition demo :: kstate where
  "demo =
     \<lparr>k_obj = demo_objects, k_container = (\<lambda>_. []), k_thr = threads_of demo_threads,
      k_q = queues_of demo_threads, k_group = group_of demo_threads, k_cur = 2, k_cur_prio = 10,
      k_lock = 0, k_irq = 0, k_tick = 100,
      k_tmr = (\<lambda>x. \<lparr>tm_init_tick = 5, tm_timeout_tick = 105\<rparr>), k_tlist = [TimerOf 4, Obj 60],
      k_sem = (\<lambda>p. \<lparr>sem_value = (if p = 22 then 65535 else 0)\<rparr>),
      k_mutex = demo_mutex,
      k_event = (\<lambda>p. \<lparr>ev_set = 1\<rparr>),
      k_mb = (\<lambda>p. if p = 52
         then \<lparr>mb_pool = [1, 2, 3, 4], mb_size = 4, mb_entry = 4, mb_in_offset = 0, mb_out_offset = 0\<rparr>
         else \<lparr>mb_pool = replicate 4 0, mb_size = 4, mb_entry = 0, mb_in_offset = 0, mb_out_offset = 0\<rparr>),
      k_mq = (\<lambda>p. \<lparr>mq_pool = [\<lparr>blk_next = None, blk_data = [0, 0, 0, 0]\<rparr>, \<lparr>blk_next = Some 0, blk_data = [0, 0, 0, 0]\<rparr>],
                   mq_msg_size = 4, mq_max_msgs = 2, mq_entry = 0,
                   mq_head = None, mq_tail = None, mq_free = Some 1\<rparr>),
      k_mp = (\<lambda>p. if p = 81
         then \<lparr>mp_blocks = [OwnedBy 81], mp_size = 8, mp_block_size = 4, mp_block_total_count = 1,
                mp_block_free_count = 0, mp_block_list = None\<rparr>
         else \<lparr>mp_blocks = [FreeNext (Some 1), FreeNext None], mp_size = 16, mp_block_size = 4,
                mp_block_total_count = 2, mp_block_free_count = 2, mp_block_list = Some 0\<rparr>)\<rparr>"

lemma demo_fields [simp]:
  "k_obj demo = demo_objects" "k_thr demo = threads_of demo_threads" "k_q demo = queues_of demo_threads"
  "k_group demo = group_of demo_threads" "k_cur demo = 2" "k_lock demo = 0" "k_irq demo = 0"
  "k_tick demo = 100" "k_tlist demo = [TimerOf 4, Obj 60]"
  "k_tmr demo = (\<lambda>x. \<lparr>tm_init_tick = 5, tm_timeout_tick = 105\<rparr>)"
  "k_mutex demo = demo_mutex"
  "sem_value (k_sem demo p) = (if p = 22 then 65535 else 0)"
  "k_event demo p = \<lparr>ev_set = 1\<rparr>"
  by (simp_all add: demo_def)

lemma demo_thr [simp]:
  "threads_of demo_threads t =
     (if t = 1 then demo_thread 31 RT_THREAD_READY (Some (Ready 31))
      else if t = 2 then demo_thread 10 RT_THREAD_RUNNING None
      else if t = 3 then demo_thread 10 RT_THREAD_READY (Some (Ready 10))
      else if t = 4 then demo_thread 5 RT_THREAD_SUSPEND (Some (Susp 20))
      else if t = 5 then demo_thread 8 RT_THREAD_INIT None
      else if t = 6 then demo_thread 4 RT_THREAD_SUSPEND (Some (Susp 31))
      else if t = 7 then (demo_thread 6 RT_THREAD_SUSPEND (Some (Susp 41)))\<lparr>t_event_set := 3, t_event_info := 5\<rparr>
      else if t = 8 then demo_thread 7 RT_THREAD_SUSPEND (Some (Susp 51))
      else if t = 9 then demo_thread 9 RT_THREAD_SUSPEND (Some (Sender 52))
      else if t = 10 then demo_thread 3 RT_THREAD_SUSPEND (Some (Susp 71))
      else demo_thread 0 RT_THREAD_INIT None)"
  by (simp add: threads_of_def demo_threads_def)

lemma demo_q [simp]:
  "queues_of demo_threads (Ready n) = (if n = 10 then [3] else if n = 31 then [1] else [])"
  "queues_of demo_threads (Susp p) =
     (if p = 20 then [4] else if p = 31 then [6] else if p = 41 then [7] else if p = 51 then [8]
      else if p = 71 then [10] else [])"
  "queues_of demo_threads (Sender p) = (if p = 52 then [9] else [])" "queues_of demo_threads Defunct = []"
  by (simp_all add: queues_of_def demo_threads_def)

lemma demo_type [simp]:
  "rt_object_get_type (Obj p) demo = demo_class p" "rt_object_get_type (TimerOf t) demo = Class_Timer"
  "rt_object_is_systemobject x demo"
proof -
  have "(demo_class p OR 128) AND - 129 = demo_class p" by (simp add: demo_class_def)
  then show "rt_object_get_type (Obj p) demo = demo_class p"
    by (simp add: rt_object_get_type_def demo_objects_def)
  show "rt_object_get_type (TimerOf t) demo = Class_Timer"
    by (simp add: rt_object_get_type_def demo_objects_def)
  show "rt_object_is_systemobject x demo"
    by (simp add: rt_object_is_systemobject_def demo_objects_def demo_class_def split: oref.split)
qed

lemma demo_kinv: "kinv demo"
  by (rule system_kinv [where ths = demo_threads])
    (simp_all add: demo_threads_def entry_ok_def prio_ok_demo node_ok_def)

lemma demo_sys_inv: "sys_inv 0 demo"
proof -
  have "timers_wf 0 demo" by (simp add: timers_wf_def trem_def)
  moreover have "typed demo"
    by (simp add: typed_def timer_obj_def demo_class_def timer_periodic_def timer_flag_def demo_objects_def)
  moreover have "ttimer_ok demo"
    by (simp add: ttimer_ok_def timer_activated_def timer_flag_def demo_objects_def)
  ultimately show ?thesis using demo_kinv by (simp add: sys_inv_def)
qed

lemma demo_healthy: "healthy 1 demo"
  using demo_sys_inv by (simp add: healthy_def runs_def)

lemma demo_mutex_ok: "mutex_ok demo"
  by (simp add: mutex_ok_def mutex_inv1_def is_class_def is_thread_def demo_class_def demo_mutex_def)

text \<open>The invariants of the IPC objects hold too.\<close>

lemma demo_mb:
  "k_mb demo p = (if p = 52
     then \<lparr>mb_pool = [1, 2, 3, 4], mb_size = 4, mb_entry = 4, mb_in_offset = 0, mb_out_offset = 0\<rparr>
     else \<lparr>mb_pool = replicate 4 0, mb_size = 4, mb_entry = 0, mb_in_offset = 0, mb_out_offset = 0\<rparr>)"
  by (simp add: demo_def)

lemma demo_mb_wf: "mb_wf (k_mb demo p)"
  by (simp add: demo_mb mb_wf_def)

lemma demo_mq:
  "k_mq demo p = \<lparr>mq_pool = [\<lparr>blk_next = None, blk_data = [0, 0, 0, 0]\<rparr>, \<lparr>blk_next = Some 0, blk_data = [0, 0, 0, 0]\<rparr>],
                   mq_msg_size = 4, mq_max_msgs = 2, mq_entry = 0,
                   mq_head = None, mq_tail = None, mq_free = Some 1\<rparr>"
  by (simp add: demo_def)

lemma demo_mq_wf: "mq_wf (k_mq demo p)"
proof -
  have "mq_rep (k_mq demo p) [] [1, 0]"
    by (auto simp: mq_rep_def demo_mq less_Suc_eq lessThan_Suc)
  then show ?thesis by (rule mq_wfI)
qed

lemma demo_mp:
  "k_mp demo p = (if p = 81
     then \<lparr>mp_blocks = [OwnedBy 81], mp_size = 8, mp_block_size = 4, mp_block_total_count = 1,
            mp_block_free_count = 0, mp_block_list = None\<rparr>
     else \<lparr>mp_blocks = [FreeNext (Some 1), FreeNext None], mp_size = 16, mp_block_size = 4,
            mp_block_total_count = 2, mp_block_free_count = 2, mp_block_list = Some 0\<rparr>)"
  by (simp add: demo_def)

lemma demo_mp_wf: "mp_wf p (k_mp demo p)"
proof -
  have "mp_rep p (k_mp demo p) (if p = 81 then [] else [0, 1])"
    by (cases "p = 81") (auto simp: mp_rep_def demo_mp less_Suc_eq nth_Cons')
  then show ?thesis by (rule mp_wfI)
qed

lemma demo_event_ok: "event_ok demo"
  by (simp add: event_ok_def is_class_def demo_class_def event_met_def)

lemma demo_ok: "mb_ok demo" "mq_ok demo" "mp_ok demo"
  by (simp_all add: mb_ok_def mq_ok_def mp_ok_def demo_mb_wf demo_mq_wf demo_mp_wf)

end
