(* ===== verification/RTT_Boot.thy ===== *)
theory RTT_Boot
  imports RTT_System RTT_Demo
begin

text \<open>
  A concrete system of \<open>RTT_System\<close> at its start: the idle thread 1, the running thread 2 and the ready
  thread 3, with the objects of \<open>RTT_Demo\<close> in their initial states. The witnesses of the properties of
  whole runs make their first steps from here.
\<close>

definition boot_threads :: "(ptr \<times> rt_thread) list" where
  "boot_threads =
     [(1, demo_thread 31 RT_THREAD_READY (Some (Ready 31))), (2, demo_thread 10 RT_THREAD_RUNNING None),
      (3, demo_thread 10 RT_THREAD_READY (Some (Ready 10)))]"

definition boot :: kstate where
  "boot = demo\<lparr>k_obj := (\<lambda>x. (demo_objects x)\<lparr>o_flag := 0\<rparr>), k_thr := threads_of boot_threads,
     k_q := queues_of boot_threads, k_group := group_of boot_threads, k_tlist := [],
     k_mutex := (\<lambda>_. mutex_fresh), k_mb := (\<lambda>_. k_mb demo 51), k_mp := (\<lambda>_. k_mp demo 80)\<rparr>"

lemma boot_fields [simp]:
  "k_obj boot = (\<lambda>x. (demo_objects x)\<lparr>o_flag := 0\<rparr>)" "k_thr boot = threads_of boot_threads"
  "k_q boot = queues_of boot_threads" "k_group boot = group_of boot_threads" "k_cur boot = 2" "k_lock boot = 0"
  "k_irq boot = 0" "k_tick boot = 100" "k_tlist boot = []" "k_mutex boot = (\<lambda>_. mutex_fresh)"
  "k_mb boot = (\<lambda>_. k_mb demo 51)" "k_mp boot = (\<lambda>_. k_mp demo 80)" "k_mq boot = k_mq demo"
  "sem_value (k_sem boot p) = (if p = 22 then 65535 else 0)"
  by (simp_all add: boot_def)

lemma boot_thr [simp]:
  "threads_of boot_threads t =
     (if t = 1 then demo_thread 31 RT_THREAD_READY (Some (Ready 31))
      else if t = 2 then demo_thread 10 RT_THREAD_RUNNING None
      else if t = 3 then demo_thread 10 RT_THREAD_READY (Some (Ready 10))
      else demo_thread 0 RT_THREAD_INIT None)"
  by (simp add: threads_of_def boot_threads_def)

lemma boot_q [simp]:
  "queues_of boot_threads (Ready n) = (if n = 10 then [3] else if n = 31 then [1] else [])"
  "queues_of boot_threads (Susp p) = []" "queues_of boot_threads (Sender p) = []" "queues_of boot_threads Defunct = []"
  by (simp_all add: queues_of_def boot_threads_def)

lemma boot_type [simp]:
  "rt_object_get_type (Obj p) boot = demo_class p" "rt_object_get_type (TimerOf t) boot = Class_Timer"
  using demo_type(1) [of p] demo_type(2) [of t] by (simp_all add: rt_object_get_type_def)

lemma boot_system_object [simp]: "rt_object_is_systemobject x boot"
  using demo_type(3) [of x] by (simp add: rt_object_is_systemobject_def)

lemma boot_flags [simp]: "ipc_flag p boot = RT_IPC_FLAG_FIFO" "timer_flag x boot = 0"
  by (simp_all add: ipc_flag_def timer_flag_def)

lemma boot_healthy: "healthy 1 boot"
proof -
  have "kinv boot"
    by (rule system_kinv [where ths = boot_threads])
      (simp_all add: boot_threads_def entry_ok_def prio_ok_demo node_ok_def)
  moreover have "timers_wf 0 boot" by (simp add: timers_wf_def)
  moreover have "typed boot" by (simp add: typed_def timer_obj_def demo_class_def timer_periodic_def)
  moreover have "ttimer_ok boot" by (simp add: ttimer_ok_def timer_activated_def)
  ultimately show ?thesis by (simp add: healthy_def sys_inv_def runs_def)
qed

lemma boot_mp_rep: "mp_rep p (k_mp demo 80) [0, 1]"
  by (auto simp: mp_rep_def demo_mp less_Suc_eq nth_Cons')

lemmas boot_mp_wf = mp_wfI [OF boot_mp_rep]

lemma boot_data: "mb_data (k_mb demo 51) = []" "mp_held (k_mp demo 80) = {}"
  by (simp add: mb_data_Nil demo_mb) (simp add: mp_held_def demo_mp nth_Cons' less_Suc_eq conj_disj_distribR)

lemma boot_objs_ok: "objs_ok boot"
  by (simp add: objs_ok_def sem_ok_def mutex_ok_def mutex_inv1_def event_ok_def mb_ok_def mq_ok_def
      mp_ok_def demo_mb_wf demo_mq_wf boot_mp_wf)

definition boot_sys :: sys where
  "boot_sys =
     \<lparr>sy_k = boot, sy_pend = (\<lambda>_. None), sy_holds = (\<lambda>_ _. 0), sy_sent = (\<lambda>_. []), sy_rcvd = (\<lambda>_. []), sy_lent = (\<lambda>_. [])\<rparr>"

lemma boot_sys_fields [simp]:
  "sy_k boot_sys = boot" "sy_pend boot_sys = (\<lambda>_. None)" "sy_holds boot_sys = (\<lambda>_ _. 0)" "sy_sent boot_sys = (\<lambda>_. [])"
  "sy_rcvd boot_sys = (\<lambda>_. [])" "sy_lent boot_sys = (\<lambda>_. [])"
  by (simp_all add: boot_sys_def)

lemma boot_starts: "starts 1 boot_sys"
  using boot_healthy boot_objs_ok
  by (simp add: starts_def kernel_ok_def boot_data)

lemma boot_reachable: "reachable 1 user boot_sys"
  by (rule reachable.start [OF boot_starts])

lemma boot_step:
  assumes "may c boot_sys" and "run_call c boot = Some (r, y, s')"
  shows "reachable 1 user (after_call 2 c r y s' boot_sys)"
  by (rule reachable.step [OF boot_reachable sys_step.issue]) (use assms in simp_all)


text \<open>The first steps: thread 2 takes the mutex 30, waits for the semaphore 20, sends a mail to the mailbox 50,
  takes a block from the pool 80.\<close>

lemma boot_takes_mutex:
  "\<exists>S. reachable 1 user S \<and> is_class Class_Mutex 30 (sy_k S) \<and> sy_holds S 30 2 = 1"
proof -
  let ?s' = "mutex_grab 30 2 (set_thr 2 (\<lambda>th. th\<lparr>t_error := RT_EOK\<rparr>) boot)"
  have p: "proper (MutexTake 30 0) boot" by (simp add: is_class_def demo_class_def waitable_def TICK_HALF_def)
  have "rt_mutex_take 30 0 boot = Some (Returns RT_EOK, ?s')"
    using mutex_take_free [of boot 30 0] at_callD(5) [OF kernel_at_call [of 1 boot]] boot_starts objs_okD(2) [OF boot_objs_ok] p
    by (auto simp: starts_def mutex_ok_def)
  then have r: "run_call (MutexTake 30 0) boot = Some (Returns RT_EOK, Nothing, ?s')" by simp
  let ?S = "after_call 2 (MutexTake 30 0) (Returns RT_EOK) Nothing ?s' boot_sys"
  have "reachable 1 user ?S" by (rule boot_step [OF _ r]) (use p in simp)
  moreover have "is_class Class_Mutex 30 (sy_k ?S)" "sy_holds ?S 30 2 = 1"
    using p by (simp_all add: mutex_grab_def is_class_def rt_object_get_type_def) (simp add: after_call_def)
  ultimately show ?thesis by blast
qed


lemma boot_at_call: "at_call 1 boot"
  using boot_healthy boot_objs_ok by (simp add: at_call_def)

lemma boot_waits_semaphore:
  "\<exists>S. reachable 1 user S \<and> is_class Class_Semaphore 20 (sy_k S) \<and> sy_pend S 2 = Some (SemTake 20 5, 100) \<and>
     2 \<in> set (k_q (sy_k S) (Susp 20))"
proof -
  have p: "proper (SemTake 20 5) boot" by (simp add: is_class_def demo_class_def waitable_def TICK_HALF_def)
  obtain s' where s': "rt_sem_take 20 5 boot = Some (Blocked, s')" "waits_in 1 (Susp 20) (ipc_flag 20 boot) 5 boot s'"
    using sem_take_waits [OF boot_healthy, of 20 5] p by auto
  then have r: "run_call (SemTake 20 5) boot = Some (Blocked, Nothing, s')" by simp
  let ?S = "after_call 2 (SemTake 20 5) Blocked Nothing s' boot_sys"
  have "reachable 1 user ?S" by (rule boot_step [OF _ r]) (use p in simp)
  moreover have "is_class Class_Semaphore 20 (sy_k ?S)" "2 \<in> set (k_q (sy_k ?S) (Susp 20))"
    using p waits_inD(7) [OF s'(2)] is_class_frame [OF waits_inD(2) [OF s'(2)]] by simp_all
  ultimately show ?thesis by (intro exI [of _ ?S]) simp
qed

lemma boot_sends_mail:
  "\<exists>S. reachable 1 user S \<and> is_class Class_MailBox 50 (sy_k S) \<and> sy_sent S 50 = [9]"
proof -
  have p: "proper (MbSend 50 9 0) boot" by (simp add: is_class_def demo_class_def waitable_def TICK_HALF_def)
  obtain r s' where s': "rt_mb_send_wait 50 9 0 boot = Some (r, s')" "settles 1 50 boot s'"
    using mb_send_call [OF boot_at_call, of 50 0 9] p by (auto simp: waitable_def)
  have "mb_entry (k_mb boot 50) \<noteq> mb_size (k_mb boot 50)" by (simp add: demo_mb)
  then have "r = Returns RT_EOK"
    using s'(1) p mb_put_total [OF boot_healthy, of 50 9] demo_mb_wf
    by (auto simp: mb_send_room)
  then have r: "run_call (MbSend 50 9 0) boot = Some (Returns RT_EOK, Nothing, s')" using s'(1) by simp
  let ?S = "after_call 2 (MbSend 50 9 0) (Returns RT_EOK) Nothing s' boot_sys"
  have "reachable 1 user ?S" by (rule boot_step [OF _ r]) (use p in simp)
  moreover have "is_class Class_MailBox 50 (sy_k ?S)" "sy_sent ?S 50 = [9]"
    using p touches_class [OF settlesD(3) [OF s'(2)]] by (simp_all add: after_call_def)
  ultimately show ?thesis by blast
qed

lemma boot_takes_block:
  "\<exists>S. reachable 1 user S \<and> is_class Class_MemPool 80 (sy_k S) \<and> sy_lent S 80 = [0]"
proof -
  have p: "proper (MpAlloc 80 0) boot" by (simp add: is_class_def demo_class_def TICK_HALF_def)
  obtain m' where "mp_alloc_loop 80 2 0 boot = Some (MpReturns (Some 0), set_mp 80 (\<lambda>_. m') boot)"
    using mp_alloc_now [of 80 boot 0 "[1]" 2 0] boot_mp_rep by auto
  then have r: "run_call (MpAlloc 80 0) boot = Some (Returns RT_EOK, Block 0, set_mp 80 (\<lambda>_. m') boot)"
    by (simp add: rt_mp_alloc_def rt_thread_self_def)
  let ?S = "after_call 2 (MpAlloc 80 0) (Returns RT_EOK) (Block 0) (set_mp 80 (\<lambda>_. m') boot) boot_sys"
  have "reachable 1 user ?S" by (rule boot_step [OF _ r]) (use p in simp)
  moreover have "is_class Class_MemPool 80 (sy_k ?S)" "sy_lent ?S 80 = [0]"
    using p by (simp_all add: is_class_def rt_object_get_type_def) (simp add: after_call_def)
  ultimately show ?thesis by blast
qed

end
