(* ===== verification/RTT_IdleDemo.thy ===== *)
theory RTT_IdleDemo
  imports RTT_Idle RTT_Demo
begin

text \<open>
  The system of \<open>RTT_Demo\<close> when only its idle thread is left: 12, a dynamic thread, and 11 and 13, two static ones,
  have ended and are in the defunct list.
\<close>

definition idle_threads :: "(ptr \<times> rt_thread) list" where
  "idle_threads =
     [(1, demo_thread 31 RT_THREAD_RUNNING None), (12, demo_thread 10 RT_THREAD_CLOSE (Some Defunct)),
      (11, demo_thread 8 RT_THREAD_CLOSE (Some Defunct)), (13, demo_thread 8 RT_THREAD_CLOSE (Some Defunct))]"

definition idle_demo :: kstate where
  "idle_demo = demo\<lparr>k_thr := threads_of idle_threads, k_q := queues_of idle_threads, k_group := group_of idle_threads,
     k_cur := 1, k_obj := demo_objects(Obj 12 := \<lparr>o_name = ''dyn'', o_type = Class_Thread, o_flag = 0\<rparr>)\<rparr>"

lemma idle_demo_idling: "idling idle_demo"
proof -
  have "kinv idle_demo"
    by (rule system_kinv [where ths = idle_threads])
      (simp_all add: idle_demo_def idle_threads_def entry_ok_def prio_ok_demo node_ok_def)
  moreover have "obj_wf idle_demo" by (simp add: obj_wf_def idle_demo_def demo_def)
  moreover have "k_group idle_demo = 0" by (simp add: idle_demo_def idle_threads_def)
  ultimately show ?thesis by (simp add: idling_def) (simp add: idle_demo_def)
qed

lemma idle_demo_defunct: "k_q idle_demo Defunct = [12, 11, 13]"
  by (simp add: idle_demo_def queues_of_def idle_threads_def)

lemma idle_demo_dynamic: "dynamic idle_demo 12" "\<not> dynamic idle_demo 11"
  by (simp_all add: rt_object_is_systemobject_def idle_demo_def demo_objects_def demo_class_def)

lemma tidy_nothing: "tidy (\<lambda>t s. Some s)"
  by (simp add: tidy_def)

end
