(* ===== verification/RTT_HeapDemo.thy ===== *)
theory RTT_HeapDemo
  imports RTT_HeapApi RTT_Demo
begin

text \<open>
  A concrete heap the hypotheses of the heap properties are checked on: the heap object at 1000 of the system
  \<open>demo\<close>, with a pool of 256 bytes at 3000, new (\<open>heap0\<close>) and with 16 bytes handed out (\<open>heap1\<close>). In
  \<open>demo\<close> the lock of the heap is taken, in \<open>demo_free\<close> it is not.
\<close>

definition demo_free :: kstate where
  "demo_free = set_sem 1076 (\<lambda>sem. sem\<lparr>sem_value := 1\<rparr>) demo"

definition blank_heap :: heap where
  "blank_heap =
     \<lparr>hp_mh = (\<lambda>_. \<lparr>mh_start_addr = 0, mh_pool_size = 0, mh_available_size = 0, mh_max_used_size = 0,
                    mh_block_list = 0, mh_free_list = 0\<rparr>),
      hp_item = (\<lambda>_. \<lparr>it_magic = 0, it_pool_ptr = 0, it_next = 0, it_prev = 0, it_next_free = 0, it_prev_free = 0\<rparr>),
      hp_mem = (\<lambda>a. if 3000 \<le> a \<and> a < 3256 then Some 7 else None)\<rparr>"

definition heap0 :: heap where "heap0 = memheap_init 1000 3000 256 blank_heap"

definition heap1 :: heap where
  "heap1 = mark_used 3000 (consume 1000 (16 + RT_MEMHEAP_SIZE) (free_insert 1000 3040
     (free_clear 3000 (free_unlink 3000 (block_insert 1000 3000 3040 heap0)))))"

lemma demo_free_lock: "lock_free 1000 demo_free" "k_container demo_free Class_MemHeap = map Obj []"
  by (simp_all add: lock_free_def is_class_def rt_object_get_type_def demo_free_def set_sem_def heap_lock_def demo_objects_def
      demo_class_def)
    (simp add: demo_def)

lemma heap0_rep: "mh_rep 1000 heap0 [3000, 3232] [3000]" "mh_held 1000 heap0 = {}" "hp_mem heap0 = hp_mem blank_heap"
proof -
  have e: "unat (RT_ALIGN_DOWN (256 :: u32) 4) = 256" by (simp add: unat_RT_ALIGN_DOWN)
  then show "mh_rep 1000 heap0 [3000, 3232] [3000]" "mh_held 1000 heap0 = {}"
    using init_rep [of 1000 256 3000 blank_heap] by (simp_all add: heap0_def free_header_def)
  show "hp_mem heap0 = hp_mem blank_heap" by (simp add: heap0_def memheap_init_def Let_def free_insert_def)
qed

lemma heap0_sizes: "bsize heap0 3000 = 208" "mh_available_size (hp_mh heap0 1000) = 208"
  "mh_start_addr (hp_mh heap0 1000) = 3000" "unat (mh_pool_size (hp_mh heap0 1000)) = 256"
proof -
  show b: "bsize heap0 3000 = 208" using rep_neighbour(5) [OF heap0_rep(1), of "[]" 3000 3232 "[]"] by simp
  have "unat (mh_available_size (hp_mh heap0 1000)) = unat (208 :: u32)" using mh_repD(18) [OF heap0_rep(1)] b by simp
  then show "mh_available_size (hp_mh heap0 1000) = 208" by (rule iffD2 [OF word_unat_eq_iff])
  show "mh_start_addr (hp_mh heap0 1000) = 3000" "unat (mh_pool_size (hp_mh heap0 1000)) = 256"
    using mh_repD(5,7) [OF heap0_rep(1)] by simp_all
qed

lemma heap0_client: "mh_wf 1000 heap0" "pool_mapped 1000 heap0"
  using heap0_rep heap0_sizes by (auto simp: mh_wf_def pool_mapped_def mapped_def blank_heap_def)

lemma heap1_rep: "mh_rep 1000 heap1 [3000, 3040, 3232] [3040]" "hp_mem heap1 = hp_mem heap0"
  "is_used 3000 heap1" "\<not> is_used 3040 heap1"
proof -
  note s = alloc_split [OF heap0_rep(1), of "[]" 3000 "[]" "[]" 3232 "[]" 16]
  have n: "3000 + unat (16 :: u32) + 24 = 3040" by simp
  show r: "mh_rep 1000 heap1 [3000, 3040, 3232] [3040]" and "hp_mem heap1 = hp_mem heap0" and "is_used 3000 heap1"
    using s(1-3) heap0_sizes(1) unfolding n heap1_def by simp_all
  show "\<not> is_used 3040 heap1" using mh_repD(16) [OF r, of 3040] by simp
qed

lemma heap1_client: "mh_wf 1000 heap1" "pool_mapped 1000 heap1" "mh_held 1000 heap1 = {3024}"
proof -
  note d = mh_repD [OF heap1_rep(1)]
  show "mh_wf 1000 heap1" using heap1_rep(1) by (auto simp: mh_wf_def)
  have "mh_start_addr (hp_mh heap1 1000) = 3000" "unat (mh_pool_size (hp_mh heap1 1000)) = 256" using d(5,7) by simp_all
  then show "pool_mapped 1000 heap1"
    using heap1_rep(2) heap0_rep(3) by (auto simp: pool_mapped_def mapped_def blank_heap_def)
  have "x \<in> mh_held 1000 heap1 \<longleftrightarrow> x = 3024" for x
  proof -
    have "x \<in> mh_held 1000 heap1 \<longleftrightarrow> 24 \<le> x \<and> (x - 24 = 3000 \<or> x - 24 = 3040) \<and> is_used (x - 24) heap1"
      using held_iff [OF heap1_rep(1), of x] by auto
    then show ?thesis using heap1_rep(3,4) by auto
  qed
  then show "mh_held 1000 heap1 = {3024}" by blast
qed

end
