(* ===== verification/RTT_RbbDemo.thy ===== *)
theory RTT_RbbDemo
  imports RTT_Rbb
begin

text \<open>
  Concrete ring block buffers the hypotheses of their properties are checked on: a buffer of 64 bytes at 1000
  with a set of three blocks, of which one (\<open>rbb_one\<close>) or two (\<open>rbb_two\<close>) are listed and put.
\<close>

definition rbb_put_blk :: "24 word \<Rightarrow> ptr \<Rightarrow> rt_rbb_blk" where
  "rbb_put_blk n a = \<lparr>blk_status = RT_RBB_BLK_PUT, blk_size = n, blk_buf = a\<rparr>"

definition rbb_free_blk :: rt_rbb_blk where
  "rbb_free_blk = \<lparr>blk_status = RT_RBB_BLK_UNUSED, blk_size = 0, blk_buf = 0\<rparr>"

definition rbb_one :: rt_rbb where
  "rbb_one = \<lparr>rbb_buf = 1000, rbb_buf_size = 64, rbb_blk_set = [rbb_put_blk 16 1000, rbb_free_blk, rbb_free_blk],
     rbb_blk_max_num = 3, rbb_links = (\<lambda>_. None)(Head := Some (Blk 0))\<rparr>"

definition rbb_two :: rt_rbb where
  "rbb_two = \<lparr>rbb_buf = 1000, rbb_buf_size = 64, rbb_blk_set = [rbb_put_blk 16 1000, rbb_put_blk 8 1016, rbb_free_blk],
     rbb_blk_max_num = 3, rbb_links = (\<lambda>_. None)(Head := Some (Blk 0), Blk 0 := Some (Blk 1))\<rparr>"

lemma rbb_demo_laid:
  "ring_laid 1000 1064 [rbb_put_blk 16 1000]" "ring_laid 1000 1064 [rbb_put_blk 16 1000, rbb_put_blk 8 1016]"
  by (rule ring_laid_straight, simp add: rbb_put_blk_def blk_end_def)+

lemma rbb_one_rep: "rbb_rep rbb_one [0]"
  using rbb_demo_laid(1) by (simp add: rbb_rep_def rbb_one_def slist_def rbb_put_blk_def)

lemma rbb_two_rep: "rbb_rep rbb_two [0, 1]"
  using rbb_demo_laid(2) by (simp add: rbb_rep_def rbb_two_def slist_def rbb_put_blk_def)

lemma rbb_two_held: "rbb_held rbb_two = {0, 1}"
  by (auto simp: rbb_held_def rbb_two_def rbb_put_blk_def rbb_free_blk_def less_Suc_eq numeral_3_eq_3)

lemma rbb_two_run: "rbb_run (rbb_blk_set rbb_two) 32 [0, 1] = [0, 1]"
  by (simp add: rbb_two_def rbb_put_blk_def)

end
