(* ===== verification/RTT_Witness.thy ===== *)
theory RTT_Witness
  imports RTT_Demo RTT_Ring RTT_Boot RTT_HeapDemo RTT_RbbDemo RTT_IdleDemo RTT_DataQueue RTT_WorkQueue
begin

text \<open>
  The properties of the development on concrete states: for each property with hypotheses, a state
  (mostly \<open>demo\<close>, or a buffer written out) on which they hold, and what the property says there.
\<close>

section \<open>Scheduler and clock\<close>

lemma demo_group: "k_group demo \<noteq> 0"
  using ready_group [of demo 3] healthyD(7) [OF demo_healthy] by simp

theorem rt_schedule_highest_witness:
  "\<exists>s'. rt_schedule demo = Some s' \<and> kinv s' \<and> stat_of (k_thr s' (k_cur s')) = RT_THREAD_RUNNING"
  using rt_schedule_highest [OF demo_kinv] demo_group by auto

text \<open>The running thread at the end of its time slice.\<close>

definition demo_ended :: kstate where
  "demo_ended = set_thr 2 time_slice demo"

lemma demo_ended_inv: "sys_inv 0 demo_ended"
  using demo_sys_inv by (simp add: demo_ended_def)

lemma demo_ended_yielding: "yielding (k_thr demo_ended 2)"
  by (simp add: demo_ended_def time_slice_def yielding_def RT_THREAD_STAT_YIELD_def)

theorem rt_schedule_round_robin_witness:
  "\<exists>s'. rt_schedule demo_ended = Some s' \<and> k_cur s' = 3 \<and> k_q s' (Ready 10) = [] @ [2]"
proof -
  have "kinv demo_ended" using sys_invD(1) [OF demo_ended_inv] .
  moreover have "k_cur demo_ended = 2" "k_lock demo_ended = 0" "k_q demo_ended = k_q demo"
    "stat_of (k_thr demo_ended 2) = RT_THREAD_RUNNING" "prio_index 2 demo_ended = 10"
    by (simp_all add: demo_ended_def prio_index_def)
  ultimately show ?thesis
    using rt_schedule_round_robin [of demo_ended 10 3 "[]"] demo_ended_yielding by auto
qed

lemma demo_quiet: "quiet (\<lambda>p s. Some s)"
  by (simp add: quiet_def)

lemma demo_user_timers: "user_timers demo"
  by (simp add: user_timers_def demo_class_def TICK_HALF_def)

theorem rt_tick_increase_total_witness:
  "\<exists>s'. rt_tick_increase (\<lambda>p s. Some s) demo = Some s' \<and> sys_inv 0 s' \<and> k_tick s' = 101 \<and>
     (\<forall>x \<in> set (k_tlist s'). 0 < trem s' x)"
  using rt_tick_increase_total [OF demo_sys_inv _ demo_quiet demo_user_timers] by simp

theorem sleeping_thread_wakes_witness:
  "\<exists>s'. ticks (\<lambda>p s. Some s) 5 demo = Some s' \<and> sys_inv 0 s' \<and>
     stat_of (k_thr s' 4) \<in> {RT_THREAD_READY, RT_THREAD_RUNNING}"
  by (rule sleeping_thread_wakes [OF demo_sys_inv _ demo_quiet demo_user_timers])
    (simp_all add: trem_def)

theorem rt_timer_start_ordered_witness:
  "\<exists>s'. rt_timer_start (Obj 61) demo = Some (RT_EOK, s') \<and> timers_wf 0 s' \<and> timer_activated (Obj 61) s'"
  using rt_timer_start_ordered [OF sys_invD(3) [OF demo_sys_inv], of "Obj 61"]
  by (auto simp: demo_class_def TICK_HALF_def)

theorem one_shot_restart_unstoppable_witness:
  "\<exists>s'. timer_fire (\<lambda>x s. map_option snd (rt_timer_start x s)) (TimerOf 4) demo = Some s' \<and>
     TimerOf 4 \<in> set (k_tlist s') \<and> rt_timer_stop (TimerOf 4) s' = Some (- RT_ERROR, s')"
proof -
  have "timers_wf (-1) demo" using sys_invD(3) [OF demo_sys_inv] timers_wf_weaken [of 0 demo "-1"] by simp
  then show ?thesis
    by (rule one_shot_restart_unstoppable)
      (simp_all add: TICK_HALF_def timer_periodic_def timer_flag_def demo_objects_def)
qed


section \<open>Threads\<close>

theorem rt_thread_sleep_blocks_witness:
  "\<exists>s'. rt_thread_sleep 7 demo = Some (Blocked, s') \<and> sys_inv 0 s' \<and>
     stat_of (k_thr s' 2) = RT_THREAD_SUSPEND \<and> trem s' (TimerOf 2) = 7"
  using rt_thread_sleep_blocks [OF demo_sys_inv, of 3 7] by (auto simp: TICK_HALF_def)

theorem rt_thread_delay_until_overshoots_witness:
  "\<exists>s'. rt_thread_delay_until 98 10 demo = Some (Blocked, 12, s') \<and> trem s' (TimerOf 2) = 12"
  using rt_thread_delay_until_overshoots [OF demo_sys_inv, of 3 98 10] by (auto simp: TICK_HALF_def)

theorem rt_thread_startup_ready_witness:
  "\<exists>s'. rt_thread_startup 5 demo = Some (RT_EOK, s') \<and> sys_inv 0 s' \<and>
     stat_of (k_thr s' 5) \<in> {RT_THREAD_READY, RT_THREAD_RUNNING}"
  using rt_thread_startup_ready [OF demo_sys_inv, of 5] by (auto simp: is_thread_def demo_class_def)

theorem rt_thread_control_priority_witness:
  "\<exists>s'. rt_thread_control 3 (CHANGE_PRIORITY 4) demo = Some (RT_EOK, s') \<and> sys_inv 0 s' \<and>
     t_current_priority (k_thr s' 3) = 4 \<and> 3 \<in> set (k_q s' (Ready 4))"
  using rt_thread_control_priority [OF demo_sys_inv, of 4 3] by (auto simp: is_thread_def demo_class_def)

theorem rt_thread_detach_ends_witness:
  "\<exists>s'. rt_thread_detach 3 demo = Some (RT_EOK, s') \<and> sys_inv 0 s' \<and>
     stat_of (k_thr s' 3) = RT_THREAD_CLOSE \<and> t_tlist (k_thr s' 3) = None"
  using rt_thread_detach_ends [OF demo_sys_inv, of 3] by (auto simp: is_thread_def demo_class_def)

theorem rt_object_init_find_witness:
  "\<exists>s' s''. rt_object_init (Obj 25) Class_Semaphore ''sem'' demo = Some s' \<and>
     rt_object_find ''sem'' Class_Semaphore s' = Some (Some (Obj 25), s'') \<and> kinv s''"
proof -
  have e: "rt_exit_critical (rt_enter_critical demo) = rt_schedule demo"
    by (simp add: rt_exit_critical_def rt_enter_critical_def Let_def demo_def)
  obtain s1 where s1: "rt_schedule demo = Some s1" "sched_frame demo s1"
    using schedule_sys_inv [OF demo_sys_inv] by auto
  let ?s = "container_insert Class_Semaphore (Obj 25) (set_obj (Obj 25)
    (\<lambda>ob. ob\<lparr>o_type := Class_Semaphore OR Class_Static, o_name := take RT_NAME_MAX ''sem''\<rparr>) s1)"
  have init: "rt_object_init (Obj 25) Class_Semaphore ''sem'' demo = Some ?s"
    using e s1(1)
    by (simp add: rt_object_init_def rt_object_get_information_def Let_def)
      (simp add: rt_enter_critical_def demo_def)
  have "k_irq ?s = 0" using sched_frameD(2) [OF s1(2)] by simp
  from rt_object_init_find [OF demo_kinv init this] init show ?thesis by blast
qed


section \<open>Semaphores\<close>

theorem rt_sem_take_blocks_witness:
  "\<exists>s'. rt_sem_take 20 7 demo = Some (Blocked, s') \<and> healthy 1 s' \<and> k_q s' (Susp 20) = [4, 2] \<and>
     trem s' (TimerOf 2) = 7"
proof -
  have "\<exists>s'. rt_sem_take 20 7 demo = Some (Blocked, s') \<and> healthy 1 s' \<and> k_sem s' = k_sem demo \<and>
     stat_of (k_thr s' (k_cur demo)) = RT_THREAD_SUSPEND \<and>
     k_q s' (Susp 20) = wait_insert (ipc_flag 20 demo) (prio_of demo) (k_cur demo) (k_q demo (Susp 20)) \<and>
     (if 0 < sint (7 :: u32)
      then TimerOf (k_cur demo) \<in> set (k_tlist s') \<and> trem s' (TimerOf (k_cur demo)) = sint (7 :: u32)
      else TimerOf (k_cur demo) \<notin> set (k_tlist s'))"
    by (rule rt_sem_take_blocks [OF demo_healthy])
      (simp_all add: is_class_def demo_class_def ipc_flag_def demo_objects_def TICK_HALF_def)
  then show ?thesis by (auto simp: wait_insert_def ipc_flag_def demo_objects_def)
qed

theorem rt_sem_release_hands_over_witness:
  "\<exists>s'. rt_sem_release 20 demo = Some (RT_EOK, s') \<and> k_q s' (Susp 20) = [] \<and> runs 4 s' \<and>
     rt_sem_take_resume 4 s' = (Returns RT_EOK, s')"
  using rt_sem_release_hands_over [OF demo_healthy, of 20 4 "[]"] by (auto simp: is_class_def demo_class_def)

theorem rt_sem_release_wraps_witness:
  "\<exists>s'. rt_sem_release 22 demo = Some (RT_EOK, s') \<and> sem_value (k_sem s' 22) = 0"
  using rt_sem_release_wraps [of 22 demo] by (auto simp: is_class_def demo_class_def)

definition demo_locked :: kstate where
  "demo_locked = demo\<lparr>k_lock := 1\<rparr>"

theorem rt_sem_take_locked_witness:
  "\<exists>s'. rt_sem_take 21 (- 1) demo_locked = Some (Returns RT_EOK, s') \<and> sem_value (k_sem s' 21) = 0 \<and>
     2 \<in> set (k_q s' (Susp 21))"
proof -
  have "sys_inv 0 demo_locked"
    using demo_sys_inv sys_inv_cong [of demo_locked demo 0] by (simp add: demo_locked_def)
  moreover have "is_class Class_Semaphore 21 demo_locked"
    by (simp add: is_class_def rt_object_get_type_def demo_locked_def demo_objects_def demo_class_def)
  ultimately show ?thesis
    using rt_sem_take_locked [of demo_locked 21 "- 1"]
    by (auto simp: demo_locked_def ipc_flag_def demo_objects_def)
qed


section \<open>Buffers\<close>

definition demo_rb :: "1 word \<Rightarrow> 15 word \<Rightarrow> 1 word \<Rightarrow> 15 word \<Rightarrow> rt_ringbuffer" where
  "demo_rb rm r wm w = \<lparr>buffer_ptr = [1, 2, 3, 4], read_mirror = rm, read_index = r,
     write_mirror = wm, write_index = w, buffer_size = 4\<rparr>"

lemma demo_rb_wf: "rb_wf (demo_rb 0 1 0 3)" "rb_wf (demo_rb 0 3 1 2)"
  by (simp_all add: rb_wf_def rb_cap_def demo_rb_def)

theorem rt_ringbuffer_put_appends_witness:
  "\<exists>rb'. rt_ringbuffer_put (demo_rb 0 1 0 3) [7, 8, 9] 3 = Some (rb', 2) \<and> rb_data rb' = [2, 3, 7, 8]"
proof -
  have "rb_cap (demo_rb 0 1 0 3) = 4" "rb_count (demo_rb 0 1 0 3) = 2" "rb_data (demo_rb 0 1 0 3) = [2, 3]"
    by (simp_all add: rb_cap_def demo_rb_def rb_count_def rb_data_def ring_seq_def upt_rec)
  then show ?thesis
    using rt_ringbuffer_put_appends [OF demo_rb_wf(1), of 3 "[7, 8, 9]"] by auto
qed

theorem rt_ringbuffer_bytes_fifo_witness:
  "fifo_run (list_enq 4) list_deq [2, 3] [Put 7, Get, Get] =
     (rb_data (fst (fifo_run rb_enq rb_deq (demo_rb 0 1 0 3) [Put 7, Get, Get])),
      [Stored True, Got (Some 2), Got (Some 3)])"
proof -
  have "rb_cap (demo_rb 0 1 0 3) = 4" "rb_data (demo_rb 0 1 0 3) = [2, 3]"
    by (simp_all add: rb_cap_def demo_rb_def rb_count_def rb_data_def ring_seq_def upt_rec)
  then show ?thesis
    using rt_ringbuffer_bytes_fifo [OF demo_rb_wf(1) prod.collapse [symmetric], of "[Put 7, Get, Get]"]
    by (simp add: list_enq_def prod_eq_iff)
qed

theorem rt_ringbuffer_put_force_newest_witness:
  "\<exists>rb'. rt_ringbuffer_put_force (demo_rb 0 3 1 2) [7, 8, 9] 3 = Some (rb', 3) \<and> rb_data rb' = [2, 7, 8, 9]"
proof -
  have "rb_cap (demo_rb 0 3 1 2) = 4" "rb_count (demo_rb 0 3 1 2) = 3" "rb_data (demo_rb 0 3 1 2) = [4, 1, 2]"
    by (simp_all add: rb_cap_def demo_rb_def rb_count_def rb_data_def ring_seq_def upt_rec)
  then show ?thesis
    using rt_ringbuffer_put_force_newest [OF demo_rb_wf(2), of 3 "[7, 8, 9]"] by (auto simp: demo_rb_def)
qed

theorem rt_ringbuffer_put_force_empties_witness:
  "\<exists>rb'. rt_ringbuffer_put_force (demo_rb 0 1 0 3) [7, 8, 9] 3 = Some (rb', 3) \<and> rb_data rb' = []"
proof -
  have "rb_cap (demo_rb 0 1 0 3) = 4" "rb_count (demo_rb 0 1 0 3) = 2"
    by (simp_all add: rb_cap_def demo_rb_def rb_count_def)
  then show ?thesis
    using rt_ringbuffer_put_force_empties [OF demo_rb_wf(1), of 3 "[7, 8, 9]"] by (auto simp: demo_rb_def)
qed


section \<open>Mutexes\<close>

theorem rt_mutex_take_inherits_witness:
  "\<exists>s'. rt_mutex_take 30 7 demo = Some (Blocked, s') \<and> k_q s' (Susp 30) = [2] \<and> k_mutex s' = k_mutex demo"
  using rt_mutex_take_inherits [OF demo_healthy demo_mutex_ok, of 30 3 7]
  by (auto simp: is_class_def demo_class_def demo_mutex_def ipc_flag_def demo_objects_def wait_insert_def TICK_HALF_def)

theorem rt_mutex_release_hands_over_witness:
  "\<exists>s'. rt_mutex_release 31 demo = Some (RT_EOK, s') \<and> mtx_owner (k_mutex s' 31) = 6 \<and> runs 6 s' \<and>
     t_current_priority (k_thr s' 2) = 12"
proof -
  obtain s' where "rt_mutex_release 31 demo = Some (RT_EOK, s')" "runs 6 s'"
    "k_mutex s' 31 = \<lparr>mtx_value = 0, mtx_original_priority = prio_of demo 6, mtx_hold = 1, mtx_owner = 6\<rparr>"
    "prio_of s' = (prio_of demo)(k_cur demo := mtx_original_priority (k_mutex demo 31))"
    using rt_mutex_release_hands_over [OF demo_healthy demo_mutex_ok, of 31 6 "[]"]
    by (auto simp: is_class_def demo_class_def demo_mutex_def)
  then show ?thesis by (intro exI [of _ s']) (simp add: fun_eq_iff demo_mutex_def)
qed

theorem rt_mutex_hold_wraps_witness:
  "\<exists>s' s''. rt_mutex_take 32 0 demo = Some (Returns RT_EOK, s') \<and> rt_mutex_release 32 s' = Some (RT_EOK, s'') \<and>
     mtx_hold (k_mutex s'' 32) = 255"
  using rt_mutex_hold_wraps [of demo 32 0]
  by (auto simp: thread_context_def rt_thread_self_def is_class_def demo_class_def demo_mutex_def)

theorem rt_mutex_take_excludes_witness:
  "\<exists>s'. rt_mutex_take 33 0 demo = Some (Returns RT_EOK, s') \<and> mtx_owner (k_mutex s' 33) = 2"
proof -
  have "\<exists>s'. rt_mutex_take 33 0 demo = Some (Returns RT_EOK, s')"
    by (simp add: rt_mutex_take_def mutex_again.simps thread_context_def rt_thread_self_def is_class_def
        demo_class_def demo_mutex_def)
  then show ?thesis
    using rt_mutex_take_excludes [OF demo_healthy demo_mutex_ok, of 33 0]
    by (auto simp: is_class_def demo_class_def ipc_flag_def demo_objects_def TICK_HALF_def)
qed


section \<open>Events, mailboxes, message queues and memory pools\<close>

theorem rt_event_send_serves_witness:
  "\<exists>s'. rt_event_send 41 2 demo = Some (RT_EOK, s') \<and> ev_set (k_event s' 41) = 0 \<and> k_q s' (Susp 41) = [] \<and>
     rt_event_recv_resume 7 s' = (Returns RT_EOK, Some 3, s')"
proof -
  have "event_scan (k_thr demo) (ev_set (k_event demo 41) OR 2) (k_q demo (Susp 41)) = ([(7, 3)], 0)"
    by (simp add: event_met_def event_got_def event_kept_def Let_def)
  then show ?thesis
    using rt_event_send_serves [OF demo_healthy demo_event_ok, of 41 2] by (auto simp: is_class_def demo_class_def)
qed

theorem rt_event_recv_waits_witness:
  "\<exists>s'. rt_event_recv 41 4 2 (- 1) demo = Some (Blocked, None, s') \<and> k_q s' (Susp 41) = [7, 2] \<and>
     t_event_set (k_thr s' 2) = 4"
proof -
  have "\<not> event_met 2 4 (ev_set (k_event demo 41))" by (simp add: event_met_def)
  then show ?thesis
    using rt_event_recv_waits [OF demo_healthy demo_event_ok, of 41 4 2 "- 1"]
    by (auto simp: is_class_def demo_class_def ipc_flag_def demo_objects_def wait_insert_def TICK_HALF_def)
qed

theorem rt_mailbox_fifo_witness:
  "fifo_run (list_enq 4) list_deq [] [Put 7, Put 8, Get] =
     (mb_data (fst (fifo_run mb_enq mb_deq (k_mb demo 50) [Put 7, Put 8, Get])),
      [Stored True, Stored True, Got (Some 7)])"
proof -
  have "unat (mb_size (k_mb demo 50)) = 4" "mb_data (k_mb demo 50) = []"
    by (simp_all add: demo_mb mb_data_def ring_seq_def)
  then show ?thesis
    using rt_mailbox_fifo [OF demo_mb_wf prod.collapse [symmetric], of 50 "[Put 7, Put 8, Get]"]
    by (simp add: list_enq_def prod_eq_iff)
qed

theorem rt_mb_send_delivers_witness:
  "\<exists>s' s''. rt_mb_send 51 7 demo = Some (Returns RT_EOK, s') \<and> k_q s' (Susp 51) = [] \<and>
     rt_mb_recv_resume 51 8 (- 1) 0 s' = Some (Returns RT_EOK, Some 7, s'')"
  using rt_mb_send_delivers [OF demo_healthy _ demo_mb_wf, of 51 8 "[]" 7 "- 1" 0]
  by (auto simp: is_class_def demo_class_def demo_mb)

lemma demo_full: "mb_data (k_mb demo 52) = [1, 2, 3, 4]"
  by (simp add: demo_mb mb_data_def ring_seq_def upt_rec)

theorem rt_mb_recv_admits_witness:
  "\<exists>s' s''. rt_mb_recv 52 0 demo = Some (Returns RT_EOK, Some 1, s') \<and> k_q s' (Sender 52) = [] \<and>
     rt_mb_send_resume 52 9 7 (- 1) 0 s' = Some (Returns RT_EOK, s'') \<and> mb_data (k_mb s'' 52) = [2, 3, 4, 7]"
proof -
  have "mb_entry (k_mb demo 52) = mb_size (k_mb demo 52)" by (simp add: demo_mb)
  then show ?thesis
    using rt_mb_recv_admits [OF demo_healthy _ demo_mb_wf _ demo_full, of 9 "[]" 0 7 "- 1" 0]
    by (auto simp: is_class_def demo_class_def)
qed

theorem rt_mb_send_wait_total_witness:
  "\<exists>s'. rt_mb_send_wait 52 7 (- 1) demo = Some (Blocked, s') \<and> k_q s' (Sender 52) = [9, 2]"
  using rt_mb_send_wait_total [OF demo_healthy demo_ok(1), of 52 "- 1" 7]
  by (auto simp: is_class_def demo_class_def ipc_flag_def demo_objects_def wait_insert_def TICK_HALF_def demo_mb)

theorem rt_mb_recv_locked_faults_witness:
  "rt_mb_recv 50 (- 1) demo_locked = None"
proof -
  have "sys_inv 0 demo_locked"
    using demo_sys_inv sys_inv_cong [of demo_locked demo 0] by (simp add: demo_locked_def)
  moreover have "is_class Class_MailBox 50 demo_locked" "k_mb demo_locked = k_mb demo"
    by (simp_all add: is_class_def rt_object_get_type_def demo_locked_def demo_objects_def demo_class_def)
  ultimately show ?thesis
    using rt_mb_recv_locked_faults [of demo_locked 50 "- 1"]
    by (auto simp: demo_locked_def ipc_flag_def demo_objects_def demo_mb)
qed

theorem rt_messagequeue_fifo_witness:
  "fifo_run (list_enq 2) list_deq [] [Put [1, 2, 3, 4], Get] =
     (mq_data (fst (fifo_run mq_enq mq_deq (k_mq demo 70) [Put [1, 2, 3, 4], Get])),
      [Stored True, Got (Some [1, 2, 3, 4])])"
proof -
  have "unat (mq_max_msgs (k_mq demo 70)) = 2" "mq_data (k_mq demo 70) = []" "unat (mq_msg_size (k_mq demo 70)) = 4"
    by (simp_all add: demo_mq mq_data_def)
  then show ?thesis
    using rt_messagequeue_fifo [OF demo_mq_wf _ prod.collapse [symmetric], of "[Put [1, 2, 3, 4], Get]" 70]
    by (simp add: list_enq_def prod_eq_iff)
qed

theorem rt_mq_send_delivers_witness:
  "\<exists>s' s''. rt_mq_send 71 [7, 8, 9] 2 demo = Some (Returns RT_EOK, s') \<and> k_q s' (Susp 71) = [] \<and>
     rt_mq_recv_resume 71 10 2 (- 1) 0 s' = Some (Returns RT_EOK, Some [7, 8], s'')"
  using rt_mq_send_delivers [OF demo_healthy _ demo_mq_wf, of 71 2 "[7, 8, 9]" 10 "[]" "- 1" 0]
  by (auto simp: is_class_def demo_class_def demo_mq)

theorem rt_mq_urgent_first_witness:
  "\<exists>s' s''. rt_mq_urgent 70 [7, 8, 9] 2 demo = Some (Returns RT_EOK, s') \<and>
     rt_mq_recv 70 2 0 s' = Some (Returns RT_EOK, Some [7, 8], s'')"
  using rt_mq_urgent_first [OF demo_healthy _ demo_mq_wf, of 70 2 "[7, 8, 9]"]
  by (auto simp: is_class_def demo_class_def demo_mq)

theorem rt_mq_control_resets_witness:
  "\<exists>s'. rt_mq_control 71 RT_IPC_CMD_RESET demo = Some (RT_EOK, s') \<and> k_q s' (Susp 71) = [] \<and> runs 10 s'"
  using rt_mq_control_resets [OF demo_healthy _ demo_mq_wf, of 71] by (auto simp: is_class_def demo_class_def)

text \<open>An object initialised in the demo system.\<close>

lemma demo_init:
  assumes "ty \<in> {6, 8}"
  shows "\<exists>s'. rt_object_init (Obj p) ty name demo = Some s' \<and> (\<forall>q. waiting q \<longrightarrow> k_q s' q = k_q demo q) \<and>
     rt_object_get_type (Obj p) s' = ty"
proof -
  have e: "rt_exit_critical (rt_enter_critical demo) = rt_schedule demo"
    by (simp add: rt_exit_critical_def rt_enter_critical_def Let_def demo_def)
  obtain s1 where s1: "rt_schedule demo = Some s1" "sched_frame demo s1"
    using schedule_sys_inv [OF demo_sys_inv] by auto
  let ?s = "container_insert ty (Obj p) (set_obj (Obj p)
    (\<lambda>ob. ob\<lparr>o_type := ty OR Class_Static, o_name := take RT_NAME_MAX name\<rparr>) s1)"
  have "rt_object_init (Obj p) ty name demo = Some ?s"
    using e s1(1) assms
    by (auto simp: rt_object_init_def rt_object_get_information_def Let_def)
      (auto simp: rt_enter_critical_def demo_def)
  moreover have "k_q ?s q = k_q demo q" if "waiting q" for q
    using that sched_frameD(12,13) [OF s1(2)] by (auto simp: waiting_def container_insert_def set_obj_def)
  moreover have "rt_object_get_type (Obj p) ?s = ty"
    using assms by (auto simp: rt_object_get_type_def container_insert_def set_obj_def)
  ultimately show ?thesis by (intro exI [of _ ?s]) simp
qed

lemma demo_mq_init:
  "\<exists>s'. rt_mq_init 72 ''mq'' (replicate 64 0) msg_size 64 0 demo = Some (RT_EOK, s') \<and>
     is_class Class_MessageQueue 72 s'"
proof -
  let ?sz = "ucast (RT_ALIGN msg_size 4) :: u16" and ?n = "ucast ((64 :: u32) div (ucast (ucast (RT_ALIGN msg_size 4) :: u16) + 4)) :: u16"
  obtain s1 where s1: "rt_object_init (Obj 72) Class_MessageQueue ''mq'' demo = Some s1"
    "\<forall>q. waiting q \<longrightarrow> k_q s1 q = k_q demo q" "rt_object_get_type (Obj 72) s1 = Class_MessageQueue"
    using demo_init [of Class_MessageQueue 72 "''mq''"] by auto
  have "unat ?n * (unat ?sz + 4) \<le> length (replicate 64 (0 :: u8))"
    using mq_pool_fits [of 64 ?sz] by simp
  then obtain m where m: "mq_fresh (replicate 64 0) ?sz ?n = Some m" using mq_fresh_rep by blast
  let ?s = "set_mq 72 (\<lambda>_. m) (set_ipc_flag 72 0 s1)"
  have "k_q (set_ipc_flag 72 0 s1) = k_q s1" by (simp add: set_ipc_flag_def set_obj_def)
  then have "rt_mq_init 72 ''mq'' (replicate 64 0) msg_size 64 0 demo = Some (RT_EOK, ?s)"
    using s1(1,2) m by (simp add: rt_mq_init_def rt_ipc_object_init_def Let_def)
  moreover have "is_class Class_MessageQueue 72 ?s"
    using s1(3) by (simp add: is_class_def rt_object_get_type_def set_ipc_flag_def set_obj_def)
  ultimately show ?thesis by blast
qed

theorem rt_mq_init_empty_witness:
  "\<exists>s'. rt_mq_init 72 ''mq'' (replicate 64 0) 4 64 0 demo = Some (RT_EOK, s') \<and> mq_data (k_mq s' 72) = []"
proof -
  obtain s' where "rt_mq_init 72 ''mq'' (replicate 64 0) 4 64 0 demo = Some (RT_EOK, s')"
    using demo_mq_init by blast
  then show ?thesis using rt_mq_init_empty by fastforce
qed

theorem rt_mq_init_size_wraps_witness:
  "\<exists>s'. rt_mq_init 72 ''mq'' (replicate 64 0) 65535 64 0 demo = Some (RT_EOK, s') \<and>
     rt_mq_send_wait 72 [7] 1 0 s' = Some (Returns (- RT_ERROR), s')"
proof -
  obtain s' where "rt_mq_init 72 ''mq'' (replicate 64 0) 65535 64 0 demo = Some (RT_EOK, s')"
    "is_class Class_MessageQueue 72 s'"
    using demo_mq_init by blast
  then show ?thesis using rt_mq_init_size_wraps [of 72 "''mq''" "replicate 64 0" 64 0 demo RT_EOK s' 1 "[7]" 0] by auto
qed

theorem rt_mempool_blocks_distinct_witness:
  "\<exists>m' given. alloc_run (mp_try_alloc 80) (mp_try_free 80) (k_mp demo 80) [] [Take (), Take (), Take (), Give 0] = Some (m', given) \<and>
     distinct given \<and> mp_wf 80 m'"
proof -
  have "mp_held (k_mp demo 80) = {}"
    by (auto simp: mp_held_def demo_mp less_Suc_eq nth_Cons' split: if_splits)
  then show ?thesis using rt_mempool_blocks_distinct [OF demo_mp_wf] by blast
qed

theorem rt_mp_init_empty_witness:
  "\<exists>s'. rt_mp_init 85 ''mp'' 64 4 demo = Some (RT_EOK, s') \<and> mp_held (k_mp s' 85) = {}"
proof -
  obtain s1 where s1: "rt_object_init (Obj 85) Class_MemPool ''mp'' demo = Some s1"
    "\<forall>q. waiting q \<longrightarrow> k_q s1 q = k_q demo q"
    using demo_init [of Class_MemPool 85 "''mp''"] by auto
  have "\<exists>s'. rt_mp_init 85 ''mp'' 64 4 demo = Some (RT_EOK, s')"
    using s1 by (simp add: rt_mp_init_def rt_ipc_object_init_def mp_link_def RT_ALIGN_def RT_ALIGN_DOWN_def Let_def)
  then show ?thesis using rt_mp_init_empty by blast
qed

theorem rt_mp_init_small_faults_witness:
  "rt_mp_init 85 ''mp'' 16 100 demo = None"
  by (rule rt_mp_init_small_faults) (simp add: RT_ALIGN_def RT_ALIGN_DOWN_def)

theorem rt_mp_free_serves_newest_witness:
  "\<exists>s' s''. rt_mp_alloc 81 7 demo = Some (MpWaits, s') \<and> rt_mp_free (Some (81, 0)) s' = Some s'' \<and> runs 2 s''"
proof -
  have "0 \<in> mp_held (k_mp demo 81)" by (simp add: mp_held_def demo_mp)
  then show ?thesis
    using rt_mp_free_serves_newest [OF demo_healthy _ _ _ demo_mp_wf, of 81 7 0 0]
    by (auto simp: demo_mp TICK_HALF_def)
qed


section \<open>Whole runs\<close>

theorem system_never_faults_witness:
  "rt_tick_increase (\<lambda>p s. Some s) boot \<noteq> None \<and> run_call (SemTake 20 5) boot \<noteq> None"
proof -
  have "may (SemTake 20 5) boot_sys" by (simp add: is_class_def demo_class_def waitable_def TICK_HALF_def)
  then show ?thesis using system_never_faults [OF boot_reachable demo_quiet] by (auto simp del: run_call.simps)
qed

theorem mutex_excludes_witness:
  "\<exists>S. reachable 1 (\<lambda>p s. Some s) S \<and> mtx_owner (k_mutex (sy_k S) 30) = 2 \<and> sy_holds S 30 3 = 0"
proof -
  obtain S where S: "reachable 1 (\<lambda>p s. Some s) S" "is_class Class_Mutex 30 (sy_k S)" "sy_holds S 30 2 = 1"
    using boot_takes_mutex by blast
  then show ?thesis using mutex_excludes [OF S(1) demo_quiet S(2), of 2] by auto
qed

theorem mailbox_exactly_once_witness:
  "\<exists>S. reachable 1 (\<lambda>p s. Some s) S \<and> [9] = sy_rcvd S 50 @ mb_data (k_mb (sy_k S) 50)"
proof -
  obtain S where S: "reachable 1 (\<lambda>p s. Some s) S" "is_class Class_MailBox 50 (sy_k S)" "sy_sent S 50 = [9]"
    using boot_sends_mail by blast
  then show ?thesis using mailbox_exactly_once [OF S(1) demo_quiet S(2)] by auto
qed

theorem pool_blocks_lent_once_witness:
  "\<exists>S. reachable 1 (\<lambda>p s. Some s) S \<and> sy_lent S 80 = [0] \<and> mp_blocks (k_mp (sy_k S) 80) ! 0 = OwnedBy 80"
proof -
  obtain S where S: "reachable 1 (\<lambda>p s. Some s) S" "is_class Class_MemPool 80 (sy_k S)" "sy_lent S 80 = [0]"
    using boot_takes_block by blast
  then show ?thesis using pool_blocks_lent_once [OF S(1) demo_quiet S(2)] by auto
qed

theorem no_thread_lost_witness:
  "\<exists>S. reachable 1 (\<lambda>p s. Some s) S \<and>
     (2 \<in> set (k_q (sy_k S) (Susp 20)) \<or> 2 \<in> set (k_q (sy_k S) (Sender 20)) \<or> runs 2 (sy_k S))"
proof -
  obtain S where S: "reachable 1 (\<lambda>p s. Some s) S" "sy_pend S 2 = Some (SemTake 20 5, 100)"
    using boot_waits_semaphore by blast
  then show ?thesis using no_thread_lost [OF S(1) demo_quiet S(2)] by auto
qed

theorem no_wakeup_lost_witness:
  "\<exists>S. reachable 1 (\<lambda>p s. Some s) S \<and> 2 \<in> set (k_q (sy_k S) (Susp 20)) \<and> sem_val (sy_k S) 20 = 0"
proof -
  obtain S where S: "reachable 1 (\<lambda>p s. Some s) S" "is_class Class_Semaphore 20 (sy_k S)"
    "2 \<in> set (k_q (sy_k S) (Susp 20))"
    using boot_waits_semaphore by blast
  then show ?thesis using no_wakeup_lost [OF S(1) demo_quiet S(3)] by auto
qed



section \<open>Memory and strings\<close>

definition demo_mem :: mem where
  "demo_mem = (\<lambda>a. if a < 8 then Some (of_nat (a + 1)) else if a < 40 then Some 0 else None)"

lemma demo_mem_mapped: "a + n \<le> 40 \<Longrightarrow> mapped a n demo_mem"
  by (auto simp: mapped_def demo_mem_def)

theorem rt_memset_fills_witness:
  "rt_memset 4 0x1ff 22 demo_mem = Some (4, \<lambda>x. if 4 \<le> x \<and> x < 26 then Some 255 else demo_mem x)"
  using rt_memset_fills [where s = 4 and count = 22 and m = demo_mem and c = "0x1ff"] demo_mem_mapped [of 4 22] by (simp add: fun_eq_iff)

theorem rt_memcpy_memmove_witness:
  "rt_memmove 4 0 20 demo_mem = Some (4, \<lambda>x. if 4 \<le> x \<and> x < 24 then demo_mem (x - 4) else demo_mem x) \<and>
   rt_memcpy 0 4 20 demo_mem = rt_memmove 0 4 20 demo_mem"
  using rt_memcpy_memmove [of 4 20 demo_mem 0] rt_memcpy_memmove [of 0 20 demo_mem 4]
    demo_mem_mapped [of 4 20] demo_mem_mapped [of 0 20]
  by (simp add: fun_eq_iff)

theorem rt_strstr_first_witness:
  "rt_strstr 0 3 demo_mem = Some 3 \<and> rt_strstr 3 0 demo_mem = Some RT_NULL"
proof -
  define xs :: "u8 list" where "xs = [1, 2, 3, 4, 5, 6, 7, 8]"
  define ys :: "u8 list" where "ys = [4, 5, 6, 7, 8]"
  have c: "cstr demo_mem 0 xs" "cstr demo_mem 3 ys" by (simp_all add: demo_mem_def xs_def ys_def)
  have len: "length xs = 8" "length ys = 5" by (simp_all add: xs_def ys_def)
  have at: "take 5 (drop 3 xs) = ys" by (simp add: xs_def ys_def)
  have k: "k = 3" if "k \<le> 8" "take 5 (drop k xs) = ys" for k
  proof -
    have "k = 0 \<or> k = 1 \<or> k = 2 \<or> k = 3 \<or> k = 4 \<or> k = 5 \<or> k = 6 \<or> k = 7 \<or> k = 8" using that(1) by linarith
    then show ?thesis using that(2) unfolding xs_def ys_def by (elim disjE) simp_all
  qed
  have no: "take 8 (drop k ys) \<noteq> xs" for k
  proof
    assume "take 8 (drop k ys) = xs"
    then have "length (take 8 (drop k ys)) = length xs" by simp
    then show False using len by simp
  qed
  have l: "length xs < 2 ^ 31" "length ys < 2 ^ 31" unfolding len by simp_all
  have "rt_strstr 0 3 demo_mem = Some 3"
    using rt_strstr_first [OF c l] unfolding len
  proof (elim disjE exE conjE)
    fix j
    assume j: "j \<le> 8" "rt_strstr 0 3 demo_mem = Some (0 + j)" "take 5 (drop j xs) = ys"
    then show ?thesis using k [OF j(1,3)] by simp
  next
    assume "\<forall>k \<le> 8. take 5 (drop k xs) \<noteq> ys"
    then have "take 5 (drop 3 xs) \<noteq> ys" by simp
    then show ?thesis using at by blast
  qed
  moreover have "rt_strstr 3 0 demo_mem = Some RT_NULL" using rt_strstr_first [OF c(2,1) l(2,1)] no unfolding len by blast
  ultimately show ?thesis ..
qed

theorem rt_strncmp_sign_witness:
  "\<exists>r. rt_strncmp 10 12 1 (demo_mem(10 \<mapsto> 200, 12 \<mapsto> 1)) = Some r \<and> r < 0 \<and> [1 :: u8] < [200]"
proof -
  let ?m = "demo_mem(10 \<mapsto> 200, 12 \<mapsto> 1)"
  have "cstr ?m 10 (200 # [])" "cstr ?m 12 (1 # [])" by (simp_all add: demo_mem_def)
  then show ?thesis using rt_strncmp_sign [of ?m 10 200 "[]" 12 1 "[]" 1] by auto
qed


section \<open>Memory heaps\<close>

theorem rt_memheap_alloc_fresh_witness:
  "\<exists>x h. memheap_alloc 1000 16 heap0 = Some (x, h) \<and> x \<noteq> RT_NULL \<and> mh_held 1000 h = {x} \<and> 16 \<le> room h x"
proof -
  have c: "12 \<le> unat (16 :: u32)" "4 dvd unat (16 :: u32)" by simp_all
  obtain x h where "memheap_alloc 1000 16 heap0 = Some (x, h)"
     "if x = RT_NULL then h = heap0 \<and> (\<forall>bs fs. mh_rep 1000 heap0 bs fs \<longrightarrow> (\<forall>a \<in> set fs. bsize heap0 a < unat (16 :: u32)))
      else x \<notin> mh_held 1000 heap0 \<and> mh_held 1000 h = insert x (mh_held 1000 heap0) \<and> unat (16 :: u32) \<le> room h x \<and> 4 dvd x \<and>
        (\<forall>y \<in> mh_held 1000 heap0. room h y = room heap0 y \<and> apart h x y)"
    using rt_memheap_alloc_fresh [OF heap0_client(1) c] by blast
  moreover have "x \<noteq> RT_NULL"
  proof
    assume "x = RT_NULL"
    then have "\<forall>a \<in> set [3000]. bsize heap0 a < unat (16 :: u32)" using calculation(2) heap0_rep(1) by auto
    then show False using heap0_sizes(1) by simp
  qed
  ultimately show ?thesis using heap0_rep(2) by (intro exI [of _ x] exI [of _ h]) simp
qed

theorem rt_memheap_free_returns_witness:
  "memheap_free_check 3024 heap1 = Some () \<and> mh_wf 1000 (memheap_free 3024 heap1) \<and>
   mh_held 1000 (memheap_free 3024 heap1) = {}"
  using rt_memheap_free_returns [OF heap1_client(1), of 3024] heap1_client(3) by simp

theorem rt_memheap_run_sound_witness:
  "\<exists>h given. alloc_run (mh_try_alloc 1000) mh_try_free heap0 [] [Take 16, Take 40, Give 3024] = Some (h, given) \<and>
     distinct given \<and> set given = mh_held 1000 h"
  using rt_memheap_run_sound [OF heap0_client(1) heap0_rep(2), of "[Take 16, Take 40, Give 3024]"] by blast

theorem memheap_search_ends_witness:
  "\<exists>a n. memheap_search (mh_free_list (hp_mh heap0 1000)) 16 heap0
     (it_next_free (hp_item heap0 (mh_free_list (hp_mh heap0 1000)))) 0 = Some (a, n) \<and> \<not> n < 16"
proof -
  have "\<not> memitem_size 3000 heap0 < 16"
    using fits_bsize(3) [OF heap0_rep(1), of 3000] heap0_sizes(1) by (simp add: word_less_nat_alt)
  then show ?thesis using memheap_search_ends [OF heap0_rep(1), of 16] by (auto split: if_splits)
qed

theorem rt_memheap_realloc_keeps_witness:
  "\<exists>y h. rt_memheap_realloc 1000 3024 100 (demo_free, heap1) = Some (Gives y, (demo_free, h)) \<and> mh_wf 1000 h \<and>
     (y \<noteq> RT_NULL \<longrightarrow> mh_held 1000 h = {y} \<and> 100 \<le> room h y)"
  using rt_memheap_realloc_keeps [OF demo_free_lock(1) heap1_client(1,2), of 3024 100] heap1_client(3) by fastforce

theorem rt_malloc_searches_witness:
  "\<exists>x h. rt_malloc 1000 16 (demo_free, heap0) = Some (Gives x, (demo_free, h)) \<and> (x = RT_NULL \<longrightarrow> h = heap0)"
  using rt_malloc_searches [OF demo_free_lock(1) heap0_client(1) demo_free_lock(2), of 16] by (auto split: if_splits)

theorem rt_calloc_clears_witness:
  "\<exists>x h. rt_calloc 1000 4 5 (demo_free, heap0) = Some (Gives x, (demo_free, h)) \<and>
     (x \<noteq> RT_NULL \<longrightarrow> (\<forall>i < 20. hp_mem h (x + i) = Some 0))"
proof -
  have "\<exists>x h. rt_calloc 1000 4 5 (demo_free, heap0) = Some (Gives x, (demo_free, h)) \<and>
    (if x = RT_NULL then h = heap0
     else (\<exists>q \<in> insert 1000 (set []). x \<notin> mh_held q heap0 \<and> x \<in> mh_held q h \<and> unat (4 * 5 :: u32) \<le> room h x) \<and>
       (\<forall>i < unat (4 * 5 :: u32). hp_mem h (x + i) = Some 0) \<and>
       (\<forall>a. a < x \<or> x + unat (4 * 5 :: u32) \<le> a \<longrightarrow> hp_mem h a = hp_mem heap0 a))"
    by (rule rt_calloc_clears [OF demo_free_lock(1) heap0_client(1) demo_free_lock(2)]) (simp_all add: heap0_client(2))
  then show ?thesis by (auto split: if_splits)
qed

theorem rt_memheap_alloc_waits_witness:
  "\<exists>s. rt_memheap_alloc 1000 16 (demo, heap0) = Some (Waits, (s, heap0)) \<and> k_q s (Susp 1076) = [2]"
proof -
  have "\<exists>s. rt_memheap_alloc 1000 16 (demo, heap0) = Some (Waits, (s, heap0)) \<and> healthy 1 s \<and>
     k_q s (Susp (heap_lock 1000)) = k_q demo (Susp (heap_lock 1000)) @ [k_cur demo] \<and> k_cur s \<noteq> k_cur demo"
    by (rule rt_memheap_alloc_waits [OF demo_healthy])
      (simp_all add: is_class_def demo_class_def ipc_flag_def demo_objects_def heap_lock_def heap0_sizes memheap_request_def
        RT_ALIGN_def Let_def)
  then show ?thesis by (auto simp: heap_lock_def)
qed

theorem rt_memheap_alloc_unlocked_witness:
  "\<exists>s. rt_memheap_alloc 1000 16 (demo_locked, heap0) =
     rt_memheap_alloc_locked 1000 (memheap_request 16) RT_EOK (s, heap0) \<and> sem_value (k_sem s 1076) = 0"
proof -
  have "sys_inv 0 demo_locked"
    using demo_sys_inv sys_inv_cong [of demo_locked demo 0] by (simp add: demo_locked_def)
  then have "\<exists>s. rt_memheap_alloc 1000 16 (demo_locked, heap0) =
      rt_memheap_alloc_locked 1000 (memheap_request 16) RT_EOK (s, heap0) \<and>
      k_cur s = k_cur demo_locked \<and> sem_value (k_sem s (heap_lock 1000)) = 0"
    by (rule rt_memheap_alloc_unlocked)
      (simp_all add: is_class_def rt_object_get_type_def demo_locked_def demo_class_def ipc_flag_def demo_objects_def
        heap_lock_def heap0_sizes memheap_request_def RT_ALIGN_def Let_def)
  then show ?thesis by (auto simp: heap_lock_def)
qed

theorem rt_memheap_sizes_wrap_witness:
  "rt_memheap_alloc 1000 0xfffffffe (demo_free, heap1) = rt_memheap_alloc 1000 12 (demo_free, heap1) \<and>
   (\<exists>h. rt_memheap_realloc 1000 3024 0xfffffff8 (demo_free, heap1) = Some (Gives 3024, (demo_free, h)))"
  using rt_memheap_sizes_wrap [OF demo_free_lock(1) heap1_rep(1), of "[]" 3000 3040 "[3232]" "0xfffffff8" "0xfffffffe"]
    heap1_rep(3,4) by auto


section \<open>Ring block buffers\<close>



theorem rt_rbb_next_blk_queue_len_agrees_witness:
  "rt_rbb_next_blk_queue_len rbb_two =
     map_option fst (rt_rbb_blk_queue_get 32 \<lparr>rbq_blocks = 0, rbq_blk_num = 0\<rparr> rbb_two)"
  by (rule rt_rbb_next_blk_queue_len_agrees [OF rbb_two_rep]) (simp add: rbb_two_def rbb_put_blk_def)

theorem rt_rbb_blk_queue_free_returns_witness:
  "\<exists>n q' r' r''. rt_rbb_blk_queue_get 32 \<lparr>rbq_blocks = 0, rbq_blk_num = 0\<rparr> rbb_two = Some (n, q', r') \<and>
     rt_rbb_blk_queue_free q' r' = Some r'' \<and> rbb_wf r'' \<and> rbb_held r'' = {}"
proof -
  have r: "rbb_run (rbb_blk_set rbb_two) (unat (32 :: u32)) [0, 1] = [0..<0 + 2]"
  proof -
    have "unat (32 :: u32) = 32" "[0..<0 + 2] = [0 :: nat, 1]" by (simp, simp add: upt_rec)
    then show ?thesis by (simp only: rbb_two_run)
  qed
  have "\<exists>n q' r' r''. rt_rbb_blk_queue_get 32 \<lparr>rbq_blocks = 0, rbq_blk_num = 0\<rparr> rbb_two = Some (n, q', r') \<and>
     rt_rbb_blk_queue_len q' r' = Some n \<and> rt_rbb_blk_queue_free q' r' = Some r'' \<and> rbb_wf r'' \<and>
     rbb_held r'' = rbb_held rbb_two - {0..<0 + 2}"
    by (rule rt_rbb_blk_queue_free_returns [OF rbb_two_rep _ r]) (simp_all add: rbb_two_held)
  moreover have "rbb_held rbb_two - {0..<0 + 2} = {}" by (auto simp: rbb_two_held)
  ultimately show ?thesis by metis
qed

theorem rt_rbb_queue_get_overlaps_witness:
  "\<exists>n q' r' r''. rt_rbb_blk_queue_get 32 \<lparr>rbq_blocks = 0, rbq_blk_num = 0\<rparr> rbb_one = Some (n, q', r') \<and>
     rt_rbb_blk_alloc 16 r' = Some (Some 1, r'') \<and> blk_status (rbb_blk_set r'' ! 0) = RT_RBB_BLK_GET \<and>
     blk_buf (rbb_blk_set r'' ! 0) = blk_buf (rbb_blk_set r'' ! 1)"
proof -
  have "rbb_unused rbb_one = Some 1"
    by (simp add: rbb_unused_def rbb_one_def rbb_put_blk_def rbb_free_blk_def upt_conv_Cons numeral_3_eq_3)
  then show ?thesis
    using rt_rbb_queue_get_overlaps [OF rbb_one_rep, of 1 16 32 "\<lparr>rbq_blocks = 0, rbq_blk_num = 0\<rparr>"]
    by (simp add: rbb_one_def rbb_put_blk_def)
qed

section \<open>The idle thread\<close>



section \<open>Completions and data queues\<close>

text \<open>Thread 2 waits for the completion at 90, which is then done.\<close>

theorem rt_completion_done_wakes_witness:
  "\<exists>s c s' c'. rt_completion_wait 90 5 (demo, \<lparr>cpl_flag = 0\<rparr>) = Some (Blocked, (s, c)) \<and>
     rt_completion_done 90 (s, c) = Some (s', c') \<and>
     rt_completion_wait_resume 2 (s', c') = (RT_EOK, (s', \<lparr>cpl_flag = 0\<rparr>))"
proof -
  obtain s where s: "rt_completion_wait 90 5 (demo, \<lparr>cpl_flag = 0\<rparr>) = Some (Blocked, (s, \<lparr>cpl_flag = 0\<rparr>))" "healthy 1 s"
    "k_q s (Susp 90) = [2]" "waits_in 1 (Susp 90) RT_IPC_FLAG_FIFO 5 demo s"
    using rt_completion_wait_blocks [OF demo_healthy, of 90 5 "\<lparr>cpl_flag = 0\<rparr>"] by (auto simp: TICK_HALF_def)
  have "t_error (k_thr s 2) = RT_EOK" using waits_inD(6) [OF s(4)] by simp
  then show ?thesis using rt_completion_done_wakes [OF s(2), of 90 "\<lparr>cpl_flag = 0\<rparr>" 2] s(1,3) by auto
qed

definition dq_item :: "ptr \<Rightarrow> rt_data_item" where
  "dq_item a = \<lparr>di_data_ptr = a, di_data_size = 8\<rparr>"

text \<open>A data queue of four items after \<open>put\<close> pushes and \<open>get\<close> pops.\<close>

definition dq_four :: "u16 \<Rightarrow> u16 \<Rightarrow> rt_data_queue" where
  "dq_four get put =
     \<lparr>dq_size = 4, dq_lwm = 1, dq_get_index = get, dq_put_index = put,
      dq_queue = [dq_item 100, dq_item 200, dq_item 300, dq_item 400], dq_evt_notify = True\<rparr>"

lemma dq_four_wf: "dq_wf (dq_four 2 6)" "dq_wf (dq_four 2 3)" "dq_wf (dq_four 65532 65535)"
  by (simp_all add: dq_wf_def dq_four_def)



theorem rt_data_queue_push_overwrites_witness:
  "\<exists>ev q1 q2. rt_data_queue_push 90 (dq_item 500) 0 (demo, dq_four 65532 65535) = Some (Returns RT_EOK, ev, (demo, q1)) \<and>
     rt_data_queue_push 90 (dq_item 600) 0 (demo, q1) = Some (Returns RT_EOK, ev, (demo, q2)) \<and>
     rt_data_queue_peak q2 = Some (RT_EOK, Some (dq_item 600))"
  using rt_data_queue_push_overwrites [OF _ dq_four_wf(3), of 90 demo "dq_item 500" "dq_item 600"]
  by (auto simp: dq_four_def)


section \<open>Work queues\<close>

text \<open>A queue at 1064, whose semaphore is the one at 1076, with the thread \<open>t\<close>, and the work at 2000.\<close>

definition wq_demo :: "ptr \<Rightarrow> ptr \<Rightarrow> workqueues" where
  "wq_demo t cur =
     \<lparr>w_queue = (\<lambda>p. \<lparr>wq_work_list = [], wq_work_current = (if p = 1064 then cur else 0), wq_work_thread = t\<rparr>),
      w_work = (\<lambda>_. \<lparr>wk_flags = 0, wk_type = 0, wk_workqueue = 0\<rparr>)\<rparr>"

lemma wq_demo_fields [simp]:
  "works (wq_demo t cur) p = []" "wq_work_current (w_queue (wq_demo t cur) 1064) = cur" "wq_work_thread (w_queue (wq_demo t cur) p) = t"
  "wk_type (w_work (wq_demo t cur) w) = 0" "\<not> pending (wq_demo t cur) w"
  by (simp_all add: wq_demo_def work_flag_def)

lemma wq_demo_ok: "wq_ok (\<lambda>_. 1064) (wq_demo t cur)"
  by (auto simp: wq_ok_def) (auto simp: wq_demo_def split: if_splits)


text \<open>Thread 2 cancels the work 2000, which is being done.\<close>

theorem rt_workqueue_cancel_work_sync_waits_witness:
  "\<exists>s1 k1 s2 k2. rt_workqueue_cancel_work_sync 1064 2000 (demo, wq_demo 3 2000) = Some (Blocked, (s1, k1)) \<and>
     workqueue_end 1064 (s1, k1) = Some (RT_EOK, (s2, k2)) \<and> runs 2 s2"
proof -
  have "is_class Class_Semaphore (wq_sem 1064) demo" "sem_val demo (wq_sem 1064) = 0" "ipc_flag (wq_sem 1064) demo = RT_IPC_FLAG_FIFO"
    by (simp_all add: is_class_def wq_sem_def demo_class_def ipc_flag_def demo_objects_def)
  from rt_workqueue_cancel_work_sync_waits [OF demo_healthy _ _ _ _ this, of 2000 "wq_demo 3 2000"] show ?thesis by auto
qed

theorem workqueue_cancelled_before_begin_witness:
  "\<exists>s k1 k2. rt_workqueue_dowork 1064 2000 (demo, wq_demo 4 0) = Some (RT_EOK, (s, k1)) \<and> runs 4 s \<and>
     rt_workqueue_cancel_work 1064 2000 (s, k1) = Some (RT_EOK, (s, k2)) \<and> workqueue_begin 1064 k2 = None"
  using workqueue_cancelled_before_begin [OF demo_healthy wq_demo_ok, of 1064 2000 4 0] by auto

end
