(* ===== verification/Spec2Isabelle.thy ===== *)
theory Spec2Isabelle
  imports RTT_Prelude RTT_List RTT_Slist RTT_Fifo RTT_Alloc RTT_Ring RTT_Rbb RTT_Ffs RTT_Kernel RTT_Sched RTT_Object
    RTT_Timer RTT_Thread RTT_Clock RTT_Ipc RTT_Sem RTT_Mutex RTT_Event RTT_Mailbox RTT_MsgQueue RTT_MemPool
    RTT_KString RTT_MemHeap RTT_HeapApi RTT_Idle RTT_Completion RTT_DataQueue RTT_WorkQueue RTT_Calls RTT_Steps RTT_System RTT_Demo RTT_Boot RTT_IdleDemo RTT_Witness
begin

text \<open>
  A verification development for the RT-Thread 4.0.2 kernel and its buffer components, as the repository
  builds them for an STM32F429 board (\<open>src/rtconfig.h\<close>: one core, 32 priorities, 4-byte alignment, 1000
  ticks per second, hooks and memheap as the heap, no SMP, no soft timers, no signals, no modules). All source
  paths below are relative to \<open>src/rt-thread\<close>.

  \<^bold>\<open>The program.\<close> Threads are switched by a priority scheduler (\<open>scheduler.c\<close>) with round robin inside a
  priority. A clock interrupt (\<open>clock.c\<close>) counts ticks, charges the time slice of the running thread and
  runs the expired timers (\<open>timer.c\<close>); every thread has an embedded timer whose timeout function makes the
  thread ready again. Threads wait for semaphores, mutexes, events, mailboxes and message queues (\<open>ipc.c\<close>)
  and for blocks of memory pools (\<open>mempool.c\<close>): a blocking call links the running thread into a waiting list,
  starts its timer, and calls the scheduler; whoever makes the object available resumes the first waiting
  thread; the waiting call goes on when its thread runs again. All objects are registered in \<open>object.c\<close>. The
  heap (\<open>memheap.c\<close>, with \<open>rt_malloc\<close> on top) is protected by a semaphore. Ring buffers
  (\<open>components/drivers/src\<close>) are used by device drivers.

  \<^bold>\<open>How the code is modelled.\<close> An operation of the code is one HOL function of the same name. Its critical
  sections run with interrupts disabled on one core, so it is one step on the state. The shared state is the
  record \<open>kstate\<close> of \<open>RTT_Kernel\<close>: object headers and object lists, the threads and the queues they are linked in,
  the ready bitmap, the running thread, the tick, the timers and their list, the state of the IPC objects; the
  structures are records with the fields of the C structures, of the same names with a prefix. Machine integers
  are words of their width, so they wrap where the code's do; a C integer promotion is a conversion to \<open>int\<close>
  and back. Addresses are natural numbers, with 0 for \<open>RT_NULL\<close>. A step that cannot go on is \<open>None\<close>: a failed
  \<open>RT_ASSERT\<close>, an access outside of an array, a null dereference. Error numbers are returned as the code returns
  them, negated.

  A loop whose end depends on pointers or on other threads is a \<open>partial_function (option)\<close>, where a loop that never
  ends is \<open>None\<close> as well; no fuel is used anywhere. So a theorem that says an operation returns \<open>Some\<close> also says that
  it ends, and each such loop has a lemma that it does under the invariant (list walks, the timer check, the
  retry loops of mailboxes and message queues, the search of the heap, the string functions on terminated strings).

  A blocking call that has to wait returns \<open>Blocked\<close>; the code after the \<open>rt_schedule\<close> in it, which runs when the thread
  is switched to again, is the definition with \<open>_resume\<close> in its name. So the interleaving of threads is not
  hidden in a call, it is a sequence of steps (\<open>RTT_System\<close>).

  \<^bold>\<open>Theories, from the bottom.\<close>

  \<^item> \<open>RTT_Prelude\<close>: integer types, error numbers, \<open>RT_ALIGN\<close> and \<open>RT_ASSERT\<close> (\<open>include/rtdef.h\<close>,
    \<open>include/rtdebug.h\<close>), the collections \<open>rtt_simps\<close> and \<open>rtt_inv\<close>, and lemmas on circular
    buffers and chains.
  \<^item> \<open>RTT_List\<close>, \<open>RTT_Slist\<close>: the intrusive lists of \<open>include/rtservice.h\<close> as operations on the memory of the
    links; the lemmas show each operation's effect on the list of nodes. The locale \<open>node_queues\<close> states what the
    users of thread lists rely on; it is interpreted on the pointer rings (\<open>ptrq\<close>) and on the queues of
    \<open>kstate\<close> (\<open>kq\<close>), so the two representations obey the same laws.
  \<^item> \<open>RTT_Fifo\<close>, \<open>RTT_Alloc\<close>: the interfaces of bounded buffers and of allocators as locales, with the theorem
    on whole runs proved once in each. \<open>bounded_fifo\<close> is interpreted in \<open>RTT_Ring\<close>, \<open>RTT_Mailbox\<close> and
    \<open>RTT_MsgQueue\<close>; \<open>allocator\<close> in \<open>RTT_MemPool\<close>, \<open>RTT_MemHeap\<close> and \<open>RTT_Rbb\<close>.
  \<^item> \<open>RTT_Ring\<close>: the byte ring buffer of \<open>ringbuffer.c\<close>, its 15-bit indices with mirror bits included: \<open>rb_data\<close>
    is the byte list a buffer stands for, and put, get, the forced puts and the single-character forms are proved
    against it. \<open>RTT_Rbb\<close>: the ring of blocks of \<open>ringblk_buf.c\<close>; \<open>ring_laid\<close> says how the listed blocks lie in
    the buffer, before and after the turn.
  \<^item> \<open>RTT_Ffs\<close>: \<open>__rt_ffs\<close> by tables (\<open>kservice.c\<close>) equals the compiler's \<open>ffs\<close> that \<open>cpuport.c\<close> uses.
  \<^item> \<open>RTT_Kernel\<close>: \<open>kstate\<close>, its thread queues, and the invariant \<open>kinv\<close> that ties the ready table, the ready
    bitmap and the states of the threads together.
  \<^item> \<open>RTT_Sched\<close> (\<open>scheduler.c\<close>, \<open>irq.c\<close>): ready table, \<open>rt_schedule\<close>, critical nesting, start of the
    scheduler; the lemmas say that the highest ready priority runs and that \<open>kinv\<close> is kept.
  \<^item> \<open>RTT_Object\<close> (\<open>object.c\<close>), \<open>RTT_Timer\<close> (\<open>timer.c\<close>), \<open>RTT_Thread\<close> (\<open>thread.c\<close>), \<open>RTT_Clock\<close>
    (\<open>clock.c\<close>): registration, the ordered timer list with comparisons modulo 2 to the 32, the life of a thread,
    the tick. \<open>rt_timer_check\<close> takes the timeout functions as an argument; the locale \<open>timer_callbacks\<close> says
    what the loop needs of them, and \<open>RTT_Clock\<close> and \<open>RTT_Steps\<close> interpret it on \<open>rt_thread_timeout\<close> together
    with the application's own functions, a parameter (\<open>user\<close>).
  \<^item> \<open>RTT_Ipc\<close>, \<open>RTT_Sem\<close>, \<open>RTT_Mutex\<close>, \<open>RTT_Event\<close>, \<open>RTT_Mailbox\<close>, \<open>RTT_MsgQueue\<close> (\<open>ipc.c\<close>) and
    \<open>RTT_MemPool\<close> (\<open>mempool.c\<close>): for each object its state, all operations with their waiting and resumed parts, an
    invariant that every operation keeps (\<open>sem_ok\<close>, \<open>mutex_ok\<close>, \<open>event_ok\<close>, \<open>mb_ok\<close>, \<open>mq_ok\<close>, \<open>mp_ok\<close>), and what
    each branch does.
  \<^item> \<open>RTT_KString\<close>: the memory and string functions of \<open>kservice.c\<close> on a partial memory of bytes, where reading
    an unmapped byte faults; the word-wise loops are proved equal to byte-wise ones.
  \<^item> \<open>RTT_MemHeap\<close>, \<open>RTT_HeapApi\<close> (\<open>memheap.c\<close>, the heap part of \<open>kservice.c\<close>): the block list and the free list,
    splitting and merging, growing and shrinking; then the same operations under the lock. \<open>mh_rep\<close> relates the two
    rings to the blocks and the free blocks: blocks lie one behind the other, no two neighbours are free, the count of
    available bytes is exact.
  \<^item> \<open>RTT_Idle\<close> (\<open>idle.c\<close>): the hooks of the idle thread and the reclaiming of ended threads. \<open>RTT_Completion\<close>,
    \<open>RTT_DataQueue\<close> (\<open>completion.c\<close>, \<open>dataqueue.c\<close>): waiting in lists that belong to no kernel object; the queue
    refines a list until its 16-bit put index wraps, and does not after that. \<open>RTT_WorkQueue\<close> (\<open>workqueue.c\<close>): works, their
    timers and the thread that does them; \<open>wq_ok\<close> ties the flags of the works to the lists over all runs.
  \<^item> \<open>RTT_Calls\<close>, \<open>RTT_Steps\<close>, \<open>RTT_System\<close>: the composed system. \<open>sys_step\<close> lets the running thread issue a call,
    lets a resumed thread carry on with the call it was suspended in, or lets the clock interrupt come; \<open>reachable\<close> are
    the states of its runs. The invariant \<open>sys_ok\<close> is preserved by every step, and the first properties follow
    for all runs: no fault, mutual exclusion, mails exactly once and in order, no thread lost, no wake-up lost,
    no block lent twice.
  \<^item> \<open>RTT_Demo\<close>, \<open>RTT_Boot\<close>, \<open>RTT_HeapDemo\<close>, \<open>RTT_RbbDemo\<close>, \<open>RTT_IdleDemo\<close>, \<open>RTT_Witness\<close>: concrete states, and every property with
    hypotheses applied to one.

  \<^bold>\<open>Kinds of results.\<close> Whole-run safety and invariants (\<open>RTT_System\<close>, the allocators); refinement of lists of bytes,
  mails or messages (\<open>bounded_fifo\<close>); functional behaviour of an operation on all its branches; equivalence of an optimised
  routine with a plain one; termination; and theorems about what the code does where it does not do what it should:
  counters that wrap (semaphore value, mutex nesting, message size, heap request), calls with the scheduler locked, a
  block that is handed out over one that is in use.

  \<^bold>\<open>Assumptions of the composed system.\<close> The objects are those of a state in which every invariant holds (\<open>starts\<close>); threads
  and objects are not created or deleted while it runs; the idle thread does not wait; application timers are
  left out (\<open>quiet\<close>: their functions end, keep the invariant, the tick, the timers and the objects, and stop no thread); arguments are proper (\<open>proper\<close>: the object has the
  class, the time is not exactly half of the tick range, which \<open>rt_timer_start\<close> refuses); a woken thread runs before half
  the tick range has passed (\<open>timely\<close>). Creation, deletion, detaching and control are proved for one operation at a
  time.

  \<^bold>\<open>Simplifications that hold everywhere.\<close> The hook pointers (\<open>RT_USING_HOOK\<close>) are unset and the debug log is
  silent. The stack and the registers of a thread are not modelled: a switch changes the running thread. Headers of heap
  blocks are kept in a store of their own, apart from the bytes, so a client that writes over a header is outside the
  model; heap addresses are not wrapped at 2 to the 32. Linking a node twice, which corrupts two rings in
  the code, is a fault in the kernel state.

  \<^bold>\<open>Not modelled.\<close> The endless loops of the idle thread and of the work queue threads, and the start-up order
  (\<open>components.c\<close>); the device framework (\<open>device.c\<close>), which calls through driver function tables, and some of its helpers
  on top of the IPC objects (\<open>waitqueue.c\<close>, \<open>pipe.c\<close>). Formatted output and the console
  (\<open>kservice.c\<close>) are I/O; the allocating forms \<open>rt_ringbuffer_create\<close> and \<open>rt_rbb_create\<close> only call the heap around the
  modelled initialisation; SMP branches, soft timers, signals and modules are not compiled. The shell (\<open>finsh\<close>), the file
  system layer (\<open>dfs\<close>), SAL, netdev and the device drivers are I/O on top of the kernel; HAL, CMSIS, CubeMX output,
  lwIP and FatFs are vendored or generated.
\<close>

end
